(* ===== verification/Prelude.thy ===== *)
theory Prelude
  imports Main "HOL-Library.Sublist"
begin

section \<open>Shared vocabulary\<close>

text \<open>
  What every component of the development shares: the collections of rewrite rules and case
  splits the proofs draw on, the outcome of a Go function that returns \<open>(T, error)\<close> (a sum,
  \<open>Inl\<close> the error) or only \<open>error\<close> (an option, \<open>None\<close> for \<open>nil\<close>), and generic lemmas on lists:
  distinct keys, first matching element, and the pieces of a list around a slice.
\<close>

named_theorems outcome_simps \<open>equations about the outcome of a fallible operation\<close>
named_theorems slice_simps \<open>equations about taking and dropping slices of byte strings\<close>

type_synonym ('e, 'a) outcome = "'e + 'a"

text \<open>\<open>lift_error f r\<close> re-labels the error of a call, as wrapping it in the caller's error does.\<close>

definition lift_error :: "('e \<Rightarrow> 'f) \<Rightarrow> ('e, 'a) outcome \<Rightarrow> ('f, 'a) outcome" where
  "lift_error f r = (case r of Inl e \<Rightarrow> Inl (f e) | Inr a \<Rightarrow> Inr a)"

lemma lift_error_Inr [outcome_simps]: "lift_error f r = Inr a \<longleftrightarrow> r = Inr a"
  by (cases r) (auto simp: lift_error_def)

lemma lift_error_Inl [outcome_simps]: "lift_error f r = Inl e \<longleftrightarrow> (\<exists>e'. r = Inl e' \<and> e = f e')"
  by (cases r) (auto simp: lift_error_def)

text \<open>
  A chain of guards succeeds when every guard passes: the rules that turn the success of a
  function with early returns into the conjunction of its conditions.
\<close>

lemma guard_None [outcome_simps]:
  "(if c then Some x else r) = None \<longleftrightarrow> \<not> c \<and> r = None"
  "(case e of None \<Rightarrow> r | Some y \<Rightarrow> Some (f y)) = None \<longleftrightarrow> e = None \<and> r = None"
  "(case s of Inl y \<Rightarrow> Some (f y) | Inr z \<Rightarrow> h z) = None \<longleftrightarrow> (\<exists>z. s = Inr z \<and> h z = None)"
  by (auto split: option.splits sum.splits)

lemma guard_Inr [outcome_simps]:
  "(if c then Inl x else r) = Inr q \<longleftrightarrow> \<not> c \<and> r = Inr q"
  "(case e of None \<Rightarrow> r | Some y \<Rightarrow> Inl (f y)) = Inr q \<longleftrightarrow> e = None \<and> r = Inr q"
  "(case s of Inl y \<Rightarrow> Inl (f y) | Inr z \<Rightarrow> h z) = Inr q \<longleftrightarrow> (\<exists>z. s = Inr z \<and> h z = Inr q)"
  by (auto split: option.splits sum.splits)

lemma Inr_exists_iff: "(\<exists>y. r = Inr y) \<longleftrightarrow> (\<forall>e. r \<noteq> Inl e)"
  by (cases r) auto

subsection \<open>Slices\<close>

text \<open>\<open>slice i j xs\<close> is Go's \<open>xs[i:j]\<close>, for \<open>i \<le> j \<le> len(xs)\<close>.\<close>

definition slice :: "nat \<Rightarrow> nat \<Rightarrow> 'a list \<Rightarrow> 'a list" where
  "slice i j xs = take (j - i) (drop i xs)"

lemma length_slice [simp, slice_simps]: "j \<le> length xs \<Longrightarrow> length (slice i j xs) = j - i"
  by (simp add: slice_def)

lemma slice_same [simp, slice_simps]: "slice i i xs = []"
  by (simp add: slice_def)

lemma slice_append_slice [slice_simps]:
  "i \<le> j \<Longrightarrow> j \<le> k \<Longrightarrow> slice i j xs @ slice j k xs = slice i k xs"
proof -
  assume "i \<le> j" "j \<le> k"
  then have "slice i k xs = take ((j - i) + (k - j)) (drop i xs)"
    by (simp add: slice_def)
  also have "\<dots> = take (j - i) (drop i xs) @ take (k - j) (drop (j - i) (drop i xs))"
    by (rule take_add)
  finally show ?thesis
    using \<open>i \<le> j\<close> by (simp add: slice_def)
qed

lemma slice_append_drop [slice_simps]: "i \<le> j \<Longrightarrow> slice i j xs @ drop j xs = drop i xs"
  by (metis append_take_drop_id drop_drop le_add_diff_inverse2 slice_def)

lemma take_append_slice [slice_simps]: "i \<le> j \<Longrightarrow> take i xs @ slice i j xs = take j xs"
  by (metis le_add_diff_inverse slice_def take_add)

lemma slice_0 [simp]: "slice 0 j xs = take j xs"
  by (simp add: slice_def)

lemma slice_append_left: "j \<le> length xs \<Longrightarrow> slice i j (xs @ ys) = slice i j xs"
  by (cases "i \<le> length xs") (auto simp: slice_def)

lemma slice_append_right:
  "length xs \<le> i \<Longrightarrow> slice i j (xs @ ys) = slice (i - length xs) (j - length xs) ys"
  by (simp add: slice_def)

lemma slice_slice: "j' \<le> j - i \<Longrightarrow> slice i' j' (slice i j xs) = slice (i + i') (i + j') xs"
  by (simp add: slice_def drop_take min_def add.commute)

lemma take_slice_le: "n \<le> j - i \<Longrightarrow> take n (slice i j xs) = slice i (i + n) xs"
  by (simp add: slice_def)

subsection \<open>Association by key\<close>

text \<open>
  \<open>find_key key k xs\<close> is the first element whose key is \<open>k\<close>: the loops of the program that
  search a slice by ID and stop at the first hit.
\<close>

definition find_key :: "('a \<Rightarrow> 'k) \<Rightarrow> 'k \<Rightarrow> 'a list \<Rightarrow> 'a option" where
  "find_key key k xs = find (\<lambda>x. key x = k) xs"

lemma find_key_Nil [simp]: "find_key key k [] = None"
  by (simp add: find_key_def)

lemma find_key_Cons [simp]:
  "find_key key k (x # xs) = (if key x = k then Some x else find_key key k xs)"
  by (simp add: find_key_def)

lemma find_key_None_iff: "find_key key k xs = None \<longleftrightarrow> k \<notin> key ` set xs"
  by (auto simp: find_key_def find_None_iff)

lemma find_key_SomeD: "find_key key k xs = Some x \<Longrightarrow> x \<in> set xs \<and> key x = k"
  by (auto simp: find_key_def find_Some_iff)

lemma find_key_eq_Some:
  assumes "distinct (map key xs)" "x \<in> set xs"
  shows "find_key key (key x) xs = Some x"
  using assms by (induction xs) auto

lemma map_add_find_key:
  assumes "key x \<notin> key ` set xs"
  shows "m(key x \<mapsto> x) ++ (\<lambda>k. find_key key k xs) = m ++ (\<lambda>k. find_key key k (x # xs))"
proof
  fix k
  have "find_key key (key x) xs = None" using assms by (simp add: find_key_None_iff)
  then show "(m(key x \<mapsto> x) ++ (\<lambda>k. find_key key k xs)) k = (m ++ (\<lambda>k. find_key key k (x # xs))) k"
    by (auto simp: map_add_def split: option.splits)
qed

lemma distinct_set_singleton: "distinct xs \<Longrightarrow> set xs = {x} \<Longrightarrow> xs = [x]"
proof (cases xs)
  case (Cons y ys)
  assume "distinct xs" "set xs = {x}"
  with Cons have "y = x" "set ys \<subseteq> {x}" "x \<notin> set ys" by auto
  then have "ys = []" by (cases ys) auto
  with Cons \<open>y = x\<close> show ?thesis by simp
qed simp

text \<open>
  \<open>upsert_key key x xs\<close> replaces the first element with the key of \<open>x\<close>, and appends \<open>x\<close> when
  there is none: the update loop of incremental plans and of staged edits.
\<close>

fun upsert_key :: "('a \<Rightarrow> 'k) \<Rightarrow> 'a \<Rightarrow> 'a list \<Rightarrow> 'a list" where
  "upsert_key key x [] = [x]"
| "upsert_key key x (y # ys) = (if key y = key x then x # ys else y # upsert_key key x ys)"

lemma set_upsert_key_subset: "set (upsert_key key x xs) \<subseteq> insert x (set xs)"
  by (induction xs) auto

lemma keys_upsert_key: "key ` set (upsert_key key x xs) = insert (key x) (key ` set xs)"
  by (induction xs) auto

lemma distinct_upsert_key:
  "distinct (map key xs) \<Longrightarrow> distinct (map key (upsert_key key x xs))"
proof (induction xs)
  case (Cons y ys)
  have "key y \<notin> key ` set (upsert_key key x ys)" if "key y \<noteq> key x"
    using that Cons.prems by (simp add: keys_upsert_key)
  with Cons show ?case by auto
qed simp

lemma find_key_upsert_key:
  "find_key key k (upsert_key key x xs) = (if k = key x then Some x else find_key key k xs)"
  by (induction xs) auto

text \<open>\<open>remove_key key k xs\<close> drops the first element with key \<open>k\<close>; \<open>None\<close> when there is none.\<close>

fun remove_key :: "('a \<Rightarrow> 'k) \<Rightarrow> 'k \<Rightarrow> 'a list \<Rightarrow> 'a list option" where
  "remove_key key k [] = None"
| "remove_key key k (y # ys) =
     (if key y = k then Some ys else map_option ((#) y) (remove_key key k ys))"

lemma remove_key_None_iff: "remove_key key k xs = None \<longleftrightarrow> k \<notin> key ` set xs"
  by (induction xs) auto

lemma remove_key_set: "remove_key key k xs = Some ys \<Longrightarrow> set ys \<subseteq> set xs"
  by (induction xs arbitrary: ys) (auto split: if_splits)

lemma remove_key_distinct:
  assumes "remove_key key k xs = Some ys" "distinct (map key xs)"
  shows "distinct (map key ys)" "key ` set ys = key ` set xs - {k}"
    "find_key key k' ys = (if k' = k then None else find_key key k' xs)"
proof -
  have "distinct (map key ys) \<and> key ` set ys = key ` set xs - {k} \<and>
      find_key key k' ys = (if k' = k then None else find_key key k' xs)"
    using assms
  proof (induction xs arbitrary: ys)
    case (Cons y zs)
    show ?case
    proof (cases "key y = k")
      case True
      with Cons.prems have "ys = zs" "k \<notin> key ` set zs" "distinct (map key zs)" by auto
      with True show ?thesis by (auto simp: find_key_None_iff)
    next
      case False
      with Cons.prems obtain ws where ws: "remove_key key k zs = Some ws" "ys = y # ws" by auto
      with Cons have IH: "distinct (map key ws)" "key ` set ws = key ` set zs - {k}"
          "find_key key k' ws = (if k' = k then None else find_key key k' zs)"
        by auto
      have "key y \<notin> key ` set ws" using IH(2) Cons.prems(2) by auto
      with IH False ws(2) show ?thesis by auto
    qed
  qed simp
  then show "distinct (map key ys)" "key ` set ys = key ` set xs - {k}"
    "find_key key k' ys = (if k' = k then None else find_key key k' xs)"
    by auto
qed

end
