(* ===== verification/GoStrings.thy ===== *)
theory GoStrings
  imports Prelude
begin

section \<open>Byte strings and the string functions of the Go standard library\<close>

text \<open>
  A Go \<open>string\<close> is a sequence of bytes, as HOL's \<^typ>\<open>string\<close> is (a \<^typ>\<open>char\<close> has 8 bits), so
  every offset and length below counts bytes, as in the program. A result of \<open>-1\<close> (not found)
  is \<^term>\<open>None\<close>. The UTF-8 decoder follows the accept ranges of package \<open>unicode/utf8\<close>.
\<close>

definition LF :: char where "LF = CHR 0x0A"
definition CR :: char where "CR = CHR 0x0D"
definition NUL :: char where "NUL = CHR 0x00"

subsection \<open>Occurrences of a substring: strings.Index, strings.LastIndex\<close>

definition occurs_at :: "string \<Rightarrow> string \<Rightarrow> nat \<Rightarrow> bool" where
  "occurs_at s sub i \<longleftrightarrow> i \<le> length s \<and> prefix sub (drop i s)"

fun str_index :: "string \<Rightarrow> string \<Rightarrow> nat option" where
  "str_index [] sub = (if sub = [] then Some 0 else None)"
| "str_index (c # s) sub =
     (if prefix sub (c # s) then Some 0 else map_option Suc (str_index s sub))"

fun str_last_index :: "string \<Rightarrow> string \<Rightarrow> nat option" where
  "str_last_index [] sub = (if sub = [] then Some 0 else None)"
| "str_last_index (c # s) sub =
     (case str_last_index s sub of
        Some i \<Rightarrow> Some (Suc i)
      | None \<Rightarrow> if prefix sub (c # s) then Some 0 else None)"

lemma occurs_at_0: "occurs_at s sub 0 \<longleftrightarrow> prefix sub s"
  by (simp add: occurs_at_def)

lemma occurs_at_Nil: "occurs_at [] sub i \<longleftrightarrow> i = 0 \<and> sub = []"
  by (auto simp: occurs_at_def)

lemma occurs_at_Cons_Suc: "occurs_at (c # s) sub (Suc i) \<longleftrightarrow> occurs_at s sub i"
  by (simp add: occurs_at_def)

lemma occurs_at_length: "occurs_at s sub i \<Longrightarrow> i + length sub \<le> length s"
  by (auto simp: occurs_at_def dest!: prefix_length_le)

lemma occurs_at_slice: "occurs_at s sub i \<Longrightarrow> slice i (i + length sub) s = sub"
  by (auto simp: occurs_at_def slice_def prefix_def)

lemma occurs_at_iff_slice:
  "occurs_at s sub i \<longleftrightarrow> i + length sub \<le> length s \<and> slice i (i + length sub) s = sub"
  by (auto simp: occurs_at_slice occurs_at_length)
    (auto simp: occurs_at_def slice_def prefix_def, metis append_take_drop_id)

lemma occurs_at_split:
  assumes "occurs_at s sub i"
  shows "s = take i s @ sub @ drop (i + length sub) s"
proof -
  from assms have "slice i (i + length sub) s @ drop (i + length sub) s = drop i s"
    by (simp add: slice_append_drop)
  with occurs_at_slice[OF assms] show ?thesis
    by (metis append_take_drop_id)
qed

lemma occurs_at_append: "occurs_at (a @ sub @ b) sub (length a)"
  by (simp add: occurs_at_def)

lemma str_index_None_iff: "str_index s sub = None \<longleftrightarrow> (\<forall>i. \<not> occurs_at s sub i)"
proof (induction s)
  case (Cons c s)
  have "(\<forall>i. \<not> occurs_at (c # s) sub i) \<longleftrightarrow>
      \<not> prefix sub (c # s) \<and> (\<forall>i. \<not> occurs_at s sub i)"
    by (metis occurs_at_0 occurs_at_Cons_Suc not0_implies_Suc)
  with Cons.IH show ?case by simp
qed (auto simp: occurs_at_Nil)

lemma str_last_index_None_iff: "str_last_index s sub = None \<longleftrightarrow> (\<forall>i. \<not> occurs_at s sub i)"
proof (induction s)
  case (Cons c s)
  have "(\<forall>i. \<not> occurs_at (c # s) sub i) \<longleftrightarrow>
      \<not> prefix sub (c # s) \<and> (\<forall>i. \<not> occurs_at s sub i)"
    by (metis occurs_at_0 occurs_at_Cons_Suc not0_implies_Suc)
  with Cons.IH show ?case by (auto split: option.splits)
qed (auto simp: occurs_at_Nil)

lemma str_index_Some:
  "str_index s sub = Some i \<longleftrightarrow> occurs_at s sub i \<and> (\<forall>j < i. \<not> occurs_at s sub j)"
proof (induction s arbitrary: i)
  case (Cons c s)
  show ?case
  proof (cases i)
    case 0
    then show ?thesis by (auto simp: occurs_at_0)
  next
    case (Suc k)
    have "(\<forall>j < Suc k. \<not> occurs_at (c # s) sub j) \<longleftrightarrow>
        \<not> prefix sub (c # s) \<and> (\<forall>j < k. \<not> occurs_at s sub j)"
      by (metis occurs_at_0 occurs_at_Cons_Suc Suc_less_eq not0_implies_Suc zero_less_Suc)
    with Suc Cons.IH show ?thesis by (auto simp: occurs_at_Cons_Suc)
  qed
qed (auto simp: occurs_at_Nil)

lemma str_last_index_Some:
  "str_last_index s sub = Some i \<longleftrightarrow> occurs_at s sub i \<and> (\<forall>j > i. \<not> occurs_at s sub j)"
proof (induction s arbitrary: i)
  case (Cons c s)
  show ?case
  proof (cases i)
    case 0
    have "(\<forall>j > 0. \<not> occurs_at (c # s) sub j) \<longleftrightarrow> str_last_index s sub = None"
      unfolding str_last_index_None_iff
      by (metis occurs_at_Cons_Suc not0_implies_Suc zero_less_Suc not_less_zero)
    with 0 show ?thesis by (auto simp: occurs_at_0 split: option.splits)
  next
    case (Suc k)
    have "(\<forall>j > Suc k. \<not> occurs_at (c # s) sub j) \<longleftrightarrow> (\<forall>j > k. \<not> occurs_at s sub j)"
      by (metis occurs_at_Cons_Suc Suc_less_eq2 Suc_less_eq)
    with Suc Cons.IH[of k] show ?thesis
      by (auto simp: occurs_at_Cons_Suc split: option.splits)
  qed
qed (auto simp: occurs_at_Nil)

lemma occurs_at_drop: "k \<le> length s \<Longrightarrow> occurs_at (drop k s) sub i \<longleftrightarrow> occurs_at s sub (k + i)"
  by (auto simp: occurs_at_def add.commute)

lemma occurs_at_decomp: "occurs_at s sub i \<longleftrightarrow> (\<exists>a b. s = a @ sub @ b \<and> length a = i)"
  by (metis occurs_at_append occurs_at_split occurs_at_def length_take min.absorb2)

text \<open>
  The program's uniqueness test \<open>start >= 0 && start == strings.LastIndex(s, sub)\<close>:
  \<open>unique_index s sub\<close> is the only position where \<open>sub\<close> occurs.
\<close>

definition unique_index :: "string \<Rightarrow> string \<Rightarrow> nat option" where
  "unique_index s sub =
     (case str_index s sub of
        None \<Rightarrow> None
      | Some i \<Rightarrow> if str_last_index s sub = Some i then Some i else None)"

definition occurs_once_at :: "string \<Rightarrow> string \<Rightarrow> nat \<Rightarrow> bool" where
  "occurs_once_at s sub i \<longleftrightarrow> occurs_at s sub i \<and> (\<forall>j. occurs_at s sub j \<longrightarrow> j = i)"

lemma unique_index_Some: "unique_index s sub = Some i \<longleftrightarrow> occurs_once_at s sub i"
proof
  assume "unique_index s sub = Some i"
  then have "str_index s sub = Some i" "str_last_index s sub = Some i"
    by (auto simp: unique_index_def split: option.splits if_splits)
  then show "occurs_once_at s sub i"
    by (auto simp: str_index_Some str_last_index_Some occurs_once_at_def)
      (metis nat_neq_iff)
next
  assume "occurs_once_at s sub i"
  then have "str_index s sub = Some i" "str_last_index s sub = Some i"
    by (auto simp: str_index_Some str_last_index_Some occurs_once_at_def)
  then show "unique_index s sub = Some i" by (simp add: unique_index_def)
qed

lemma unique_index_eq_index: "unique_index s sub = Some i \<Longrightarrow> str_index s sub = Some i"
  by (auto simp: unique_index_def split: option.splits if_splits)

subsection \<open>Line structure: strings.Split, strings.SplitAfter, strings.Join\<close>

fun split_on :: "char \<Rightarrow> string \<Rightarrow> string list" where
  "split_on d [] = [[]]"
| "split_on d (c # s) =
     (if c = d then [] # split_on d s
      else (case split_on d s of [] \<Rightarrow> [[c]] | l # ls \<Rightarrow> (c # l) # ls))"

fun join_with :: "char \<Rightarrow> string list \<Rightarrow> string" where
  "join_with d [] = []"
| "join_with d [l] = l"
| "join_with d (l # ls) = l @ d # join_with d ls"

fun split_after :: "char \<Rightarrow> string \<Rightarrow> string list" where
  "split_after d [] = [[]]"
| "split_after d (c # s) =
     (if c = d then [c] # split_after d s
      else (case split_after d s of [] \<Rightarrow> [[c]] | l # ls \<Rightarrow> (c # l) # ls))"

definition count_char :: "char \<Rightarrow> string \<Rightarrow> nat" where
  "count_char c s = count_list s c"

lemma split_on_not_Nil [simp]: "split_on d s \<noteq> []"
  by (cases s) (auto split: list.splits)

lemma split_after_not_Nil [simp]: "split_after d s \<noteq> []"
  by (cases s) (auto split: list.splits)

lemma join_with_Cons: "ls \<noteq> [] \<Longrightarrow> join_with d (l # ls) = l @ d # join_with d ls"
  by (cases ls) auto

lemma join_with_Cons_Cons: "join_with d ((c # l) # ls) = c # join_with d (l # ls)"
  by (cases ls) auto

lemma join_split_on: "join_with d (split_on d s) = s"
proof (induction s)
  case (Cons c s)
  obtain l ls where "split_on d s = l # ls" by (cases "split_on d s") auto
  with Cons show ?case by (auto simp: join_with_Cons_Cons)
qed simp

lemma length_split_on: "length (split_on d s) = Suc (count_char d s)"
proof (induction s)
  case (Cons c s)
  obtain l ls where "split_on d s = l # ls" by (cases "split_on d s") auto
  with Cons show ?case by (auto simp: count_char_def)
qed (simp add: count_char_def)

lemma split_on_no_delim: "l \<in> set (split_on d s) \<Longrightarrow> d \<notin> set l"
proof (induction s arbitrary: l)
  case (Cons c s)
  obtain l' ls where "split_on d s = l' # ls" by (cases "split_on d s") auto
  with Cons show ?case by (auto split: if_splits)
qed simp

lemma concat_split_after: "concat (split_after d s) = s"
proof (induction s)
  case (Cons c s)
  obtain l ls where "split_after d s = l # ls" by (cases "split_after d s") auto
  with Cons show ?case by auto
qed simp

lemma count_char_append [simp]: "count_char c (s @ t) = count_char c s + count_char c t"
  by (simp add: count_char_def)

lemma count_char_Nil [simp]: "count_char c [] = 0"
  by (simp add: count_char_def)

lemma count_char_Cons [simp]: "count_char c (x # s) = (if x = c then Suc (count_char c s) else count_char c s)"
  by (simp add: count_char_def)

lemma split_on_append: "split_on d (a @ d # b) = split_on d a @ split_on d b"
proof (induction a)
  case (Cons c a)
  obtain l ls where "split_on d a = l # ls" by (cases "split_on d a") auto
  with Cons show ?case by auto
qed simp

lemma split_on_no_occ: "d \<notin> set a \<Longrightarrow> split_on d a = [a]"
  by (induction a) auto

lemma join_with_append:
  "A \<noteq> [] \<Longrightarrow> B \<noteq> [] \<Longrightarrow> join_with d (A @ B) = join_with d A @ d # join_with d B"
proof (induction A)
  case (Cons l A)
  then show ?case by (cases A) (auto simp: join_with_Cons)
qed simp

lemma count_char_join:
  assumes "A \<noteq> []" "\<And>l. l \<in> set A \<Longrightarrow> d \<notin> set l"
  shows "Suc (count_char d (join_with d A)) = length A"
  using assms
proof (induction A)
  case (Cons l A)
  have "count_char d l = 0" using Cons.prems by (auto simp: count_char_def count_list_0_iff)
  with Cons show ?case by (cases A) (auto simp: join_with_Cons)
qed simp

text \<open>
  A run of complete lines inside a text: \<open>q\<close> stands between line boundaries, and the lines of
  the text at the position counted by the line feeds before it are the lines of \<open>q\<close>.
\<close>

lemma split_on_line_block:
  assumes "pre = [] \<or> last pre = d" "post = [] \<or> hd post = d"
  shows "\<exists>A C. split_on d (pre @ q @ post) = A @ split_on d q @ C \<and> length A = count_char d pre"
proof -
  obtain A where A: "split_on d (pre @ r) = A @ split_on d r" "length A = count_char d pre" for r
  proof (cases "pre = []")
    case True
    then show ?thesis using that[of "[]"] by simp
  next
    case False
    then obtain p where p: "pre = p @ [d]"
      using assms(1) by (metis append_butlast_last_id)
    then have "split_on d (pre @ r) = split_on d p @ split_on d r" for r
      by (simp add: split_on_append)
    moreover have "length (split_on d p) = count_char d pre"
      using p by (simp add: length_split_on)
    ultimately show ?thesis using that by blast
  qed
  obtain C where C: "split_on d (q @ post) = split_on d q @ C"
    using assms(2) by (cases post) (auto simp: split_on_append)
  from A(1)[of "q @ post"] A(2) C show ?thesis by metis
qed

subsection \<open>Prefixes and suffixes: strings.TrimPrefix, strings.TrimSuffix\<close>

definition trim_prefix :: "string \<Rightarrow> string \<Rightarrow> string" where
  "trim_prefix s p = (if prefix p s then drop (length p) s else s)"

definition trim_suffix :: "string \<Rightarrow> string \<Rightarrow> string" where
  "trim_suffix s p = (if suffix p s then take (length s - length p) s else s)"

lemma trim_suffix_LF: "trim_suffix s [c] = (if s \<noteq> [] \<and> last s = c then butlast s else s)"
  by (auto simp: trim_suffix_def suffix_def butlast_conv_take)
    (metis append_butlast_last_id)

text \<open>\<open>strings.ReplaceAll(s, "\r\n", "\n")\<close>.\<close>

fun crlf_to_lf :: "string \<Rightarrow> string" where
  "crlf_to_lf (c # d # s) =
     (if c = CR \<and> d = LF then LF # crlf_to_lf s else c # crlf_to_lf (d # s))"
| "crlf_to_lf s = s"

lemma crlf_to_lf_no_CR: "CR \<notin> set s \<Longrightarrow> crlf_to_lf s = s"
  by (induction s rule: crlf_to_lf.induct) auto

subsection \<open>UTF-8: utf8.ValidString, utf8.RuneStart, utf8.RuneCountInString\<close>

definition byte_in :: "char \<Rightarrow> nat \<Rightarrow> nat \<Rightarrow> bool" where
  "byte_in c lo hi \<longleftrightarrow> lo \<le> of_char c \<and> of_char c \<le> hi"

text \<open>
  \<open>rune_width s\<close> is the width of the well-formed rune at the front of \<open>s\<close>, with the accept
  ranges of the second byte (no overlong forms, no surrogates, nothing above U+10FFFF), or
  \<^term>\<open>None\<close> where Go decodes RuneError with width 1 (or 0 at the end).
\<close>

definition rune_class :: "char \<Rightarrow> nat" where
  "rune_class c =
     (if byte_in c 0x00 0x7F then 1
      else if byte_in c 0xC2 0xDF then 2
      else if byte_in c 0xE0 0xEF then 3
      else if byte_in c 0xF0 0xF4 then 4
      else 0)"

definition second_byte_ok :: "char \<Rightarrow> char \<Rightarrow> bool" where
  "second_byte_ok a b \<longleftrightarrow>
     byte_in b (if of_char a = (0xE0 :: nat) then 0xA0 else if of_char a = (0xF0 :: nat) then 0x90 else 0x80)
               (if of_char a = (0xED :: nat) then 0x9F else if of_char a = (0xF4 :: nat) then 0x8F else 0xBF)"

definition rune_tail_ok :: "char \<Rightarrow> string \<Rightarrow> bool" where
  "rune_tail_ok a bs =
     (case bs of [] \<Rightarrow> True | b # cs \<Rightarrow> second_byte_ok a b \<and> list_all (\<lambda>c. byte_in c 0x80 0xBF) cs)"

definition rune_width :: "string \<Rightarrow> nat option" where
  "rune_width s =
     (case s of
        [] \<Rightarrow> None
      | a # t \<Rightarrow>
          (let n = rune_class a
           in if 0 < n \<and> n \<le> length s \<and> rune_tail_ok a (take (n - 1) t) then Some n else None))"

definition rune_start :: "char \<Rightarrow> bool" where
  "rune_start c \<longleftrightarrow> \<not> byte_in c 0x80 0xBF"

lemma rune_class_le: "rune_class c \<le> 4"
  by (simp add: rune_class_def)

lemma rune_width_bounds: "rune_width s = Some n \<Longrightarrow> 0 < n \<and> n \<le> 4 \<and> n \<le> length s"
  using rune_class_le by (auto simp: rune_width_def Let_def split: list.splits if_splits)

function valid_utf8 :: "string \<Rightarrow> bool" where
  "valid_utf8 s =
     (if s = [] then True
      else (case rune_width s of None \<Rightarrow> False | Some n \<Rightarrow> valid_utf8 (drop n s)))"
  by pat_completeness auto
termination
  by (relation "measure length") (auto dest: rune_width_bounds)

function rune_count :: "string \<Rightarrow> nat" where
  "rune_count s =
     (if s = [] then 0
      else Suc (rune_count (drop (case rune_width s of None \<Rightarrow> 1 | Some n \<Rightarrow> n) s)))"
  by pat_completeness auto
termination
  by (relation "measure length") (auto dest: rune_width_bounds split: option.splits)

declare valid_utf8.simps [simp del] rune_count.simps [simp del]

lemma valid_utf8_Nil [simp]: "valid_utf8 []"
  by (subst valid_utf8.simps) simp

lemma valid_utf8_step:
  "s \<noteq> [] \<Longrightarrow> valid_utf8 s \<longleftrightarrow> (\<exists>n. rune_width s = Some n \<and> valid_utf8 (drop n s))"
  by (subst valid_utf8.simps) (auto split: option.splits)

lemma rune_width_append: "rune_width s = Some n \<Longrightarrow> rune_width (s @ t) = Some n"
  by (cases s) (auto simp: rune_width_def Let_def split: if_splits)

lemma rune_width_take: "rune_width s = Some n \<Longrightarrow> rune_width (take n s @ t) = Some n"
  by (cases s) (auto simp: rune_width_def Let_def take_Cons' split: if_splits)

lemma valid_utf8_append: "valid_utf8 s \<Longrightarrow> valid_utf8 t \<Longrightarrow> valid_utf8 (s @ t)"
proof (induction s rule: valid_utf8.induct)
  case (1 s)
  show ?case
  proof (cases "s = []")
    case False
    then obtain n where n: "rune_width s = Some n" "valid_utf8 (drop n s)"
      using 1 valid_utf8_step by blast
    then have "valid_utf8 (drop n s @ t)" using 1 False by auto
    then show ?thesis
      using n False rune_width_append[OF n(1)] rune_width_bounds[OF n(1)]
      by (auto simp: valid_utf8_step)
  qed (use 1 in simp)
qed

text \<open>A rune starts with a start byte, and all its other bytes are continuation bytes.\<close>

lemma rune_width_start: "rune_width s = Some n \<Longrightarrow> rune_start (s ! 0)"
  by (cases s)
    (auto simp: rune_width_def Let_def rune_start_def rune_class_def byte_in_def split: if_splits)

lemma rune_tail_continuation: "rune_tail_ok a bs \<Longrightarrow> c \<in> set bs \<Longrightarrow> \<not> rune_start c"
  by (auto simp: rune_tail_ok_def rune_start_def second_byte_ok_def byte_in_def list_all_iff
      split: list.splits if_splits)

lemma rune_width_continuation:
  assumes "rune_width s = Some n" "0 < i" "i < n"
  shows "\<not> rune_start (s ! i)"
proof -
  from assms obtain a t where s: "s = a # t" "n \<le> length s" "rune_tail_ok a (take (n - 1) t)"
    by (cases s) (auto simp: rune_width_def Let_def split: if_splits)
  have "i - 1 < length (take (n - 1) t)" using s assms by auto
  then have "take (n - 1) t ! (i - 1) \<in> set (take (n - 1) t)" by (rule nth_mem)
  moreover have "take (n - 1) t ! (i - 1) = s ! i" using s assms by (simp add: nth_Cons')
  ultimately show ?thesis using s rune_tail_continuation by metis
qed

text \<open>
  In valid UTF-8 a start byte is where a rune begins: cutting there leaves two valid strings.
  This is what makes \<open>utf8.RuneStart\<close> a safe test for a page boundary.
\<close>

lemma valid_utf8_cut:
  assumes "valid_utf8 s" "i < length s" "rune_start (s ! i)"
  shows "valid_utf8 (take i s) \<and> valid_utf8 (drop i s)"
  using assms
proof (induction s arbitrary: i rule: valid_utf8.induct)
  case (1 s i)
  have ne: "s \<noteq> []" using 1 by auto
  obtain n where n: "rune_width s = Some n" "valid_utf8 (drop n s)"
    using 1 valid_utf8_step[OF ne] by blast
  note b = rune_width_bounds[OF n(1)]
  show ?case
  proof (cases "i = 0")
    case True
    then show ?thesis using 1 by simp
  next
    case False
    have "n \<le> i" using rune_width_continuation[OF n(1)] 1 False by (meson leI neq0_conv)
    then have dr: "drop (i - n) (drop n s) = drop i s" by simp
    have "valid_utf8 (take (i - n) (drop n s)) \<and> valid_utf8 (drop (i - n) (drop n s))"
      using \<open>n \<le> i\<close> 1 n ne by (intro "1.IH"[OF ne n(1)]) auto
    moreover have "take i s = take n s @ take (i - n) (drop n s)"
      using \<open>n \<le> i\<close> by (metis le_add_diff_inverse take_add)
    moreover have "valid_utf8 (take n s)"
      using rune_width_take[OF n(1), of "[]"] b ne by (auto simp: valid_utf8_step)
    ultimately show ?thesis
      using dr by (auto intro: valid_utf8_append)
  qed
qed

lemma valid_utf8_rune_start_hd: "valid_utf8 s \<Longrightarrow> s \<noteq> [] \<Longrightarrow> rune_start (s ! 0)"
  using valid_utf8_step rune_width_start by blast

subsection \<open>White space: strings.TrimSpace\<close>

text \<open>
  The encodings of the code points with the Unicode property White\<^verbatim>\<open>_\<close>Space
  (\<open>unicode.IsSpace\<close>). A byte string starts (ends) with a white-space rune exactly when one of
  these is a prefix (suffix) of it: no well-formed encoding is a proper prefix or suffix of
  another.
\<close>

definition space_runes :: "string list" where
  "space_runes =
     [[CHR 0x09], [CHR 0x0A], [CHR 0x0B], [CHR 0x0C], [CHR 0x0D], [CHR 0x20],
      [CHR 0xC2, CHR 0x85], [CHR 0xC2, CHR 0xA0], [CHR 0xE1, CHR 0x9A, CHR 0x80],
      [CHR 0xE2, CHR 0x80, CHR 0x80], [CHR 0xE2, CHR 0x80, CHR 0x81],
      [CHR 0xE2, CHR 0x80, CHR 0x82], [CHR 0xE2, CHR 0x80, CHR 0x83],
      [CHR 0xE2, CHR 0x80, CHR 0x84], [CHR 0xE2, CHR 0x80, CHR 0x85],
      [CHR 0xE2, CHR 0x80, CHR 0x86], [CHR 0xE2, CHR 0x80, CHR 0x87],
      [CHR 0xE2, CHR 0x80, CHR 0x88], [CHR 0xE2, CHR 0x80, CHR 0x89],
      [CHR 0xE2, CHR 0x80, CHR 0x8A], [CHR 0xE2, CHR 0x80, CHR 0xA8],
      [CHR 0xE2, CHR 0x80, CHR 0xA9], [CHR 0xE2, CHR 0x80, CHR 0xAF],
      [CHR 0xE2, CHR 0x81, CHR 0x9F], [CHR 0xE3, CHR 0x80, CHR 0x80]]"

lemma space_runes_not_Nil: "[] \<notin> set space_runes"
  by (simp add: space_runes_def)

function trim_left_space :: "string \<Rightarrow> string" where
  "trim_left_space s =
     (case find (\<lambda>w. prefix w s) space_runes of
        None \<Rightarrow> s
      | Some w \<Rightarrow> trim_left_space (drop (length w) s))"
  by pat_completeness auto
termination
proof (relation "measure length")
  fix s w assume "find (\<lambda>w. prefix w s) space_runes = Some w"
  then have "w \<in> set space_runes" "prefix w s" by (auto simp: find_Some_iff)
  then have "w \<noteq> []" "length w \<le> length s"
    using space_runes_not_Nil by (auto dest: prefix_length_le)
  then show "(drop (length w) s, s) \<in> measure length" by (cases w) auto
qed simp

function trim_right_space :: "string \<Rightarrow> string" where
  "trim_right_space s =
     (case find (\<lambda>w. suffix w s) space_runes of
        None \<Rightarrow> s
      | Some w \<Rightarrow> trim_right_space (take (length s - length w) s))"
  by pat_completeness auto
termination
proof (relation "measure length")
  fix s w assume "find (\<lambda>w. suffix w s) space_runes = Some w"
  then have "w \<in> set space_runes" "suffix w s" by (auto simp: find_Some_iff)
  then have "w \<noteq> []" "length w \<le> length s"
    using space_runes_not_Nil by (auto dest: suffix_length_le)
  then show "(take (length s - length w) s, s) \<in> measure length" by (cases w) auto
qed simp

declare trim_left_space.simps [simp del] trim_right_space.simps [simp del]

definition trim_space :: "string \<Rightarrow> string" where
  "trim_space s = trim_right_space (trim_left_space s)"

definition blank :: "string \<Rightarrow> bool" where
  "blank s \<longleftrightarrow> trim_space s = []"

lemma trim_left_space_idem: "trim_left_space (trim_left_space s) = trim_left_space s"
proof (induction s rule: trim_left_space.induct)
  case (1 s)
  show ?case
  proof (cases "find (\<lambda>w. prefix w s) space_runes")
    case None
    then have "trim_left_space s = s" by (subst trim_left_space.simps) simp
    then show ?thesis by simp
  next
    case (Some w)
    then have "trim_left_space s = trim_left_space (drop (length w) s)"
      by (subst trim_left_space.simps) simp
    with 1[OF Some] show ?thesis by simp
  qed
qed

lemma trim_left_space_Nil [simp]: "trim_left_space [] = []"
  by (subst trim_left_space.simps) (simp add: space_runes_def)

lemma trim_right_space_Nil [simp]: "trim_right_space [] = []"
  by (subst trim_right_space.simps) (simp add: space_runes_def)

lemma blank_Nil [simp]: "blank []"
  by (simp add: blank_def trim_space_def)

lemma trim_left_space_fixed: "find (\<lambda>w. prefix w s) space_runes = None \<Longrightarrow> trim_left_space s = s"
  by (subst trim_left_space.simps) simp

lemma find_space_trim_left: "find (\<lambda>w. prefix w (trim_left_space s)) space_runes = None"
proof (induction s rule: trim_left_space.induct)
  case (1 s)
  show ?case
  proof (cases "find (\<lambda>w. prefix w s) space_runes")
    case None
    then show ?thesis by (simp add: trim_left_space_fixed)
  next
    case (Some w)
    then have "trim_left_space s = trim_left_space (drop (length w) s)"
      by (subst trim_left_space.simps) simp
    with 1[OF Some] show ?thesis by simp
  qed
qed

lemma prefix_trim_right: "prefix (trim_right_space s) s"
proof (induction s rule: trim_right_space.induct)
  case (1 s)
  show ?case
  proof (cases "find (\<lambda>w. suffix w s) space_runes")
    case None
    then show ?thesis by (subst trim_right_space.simps) simp
  next
    case (Some w)
    then have "trim_right_space s = trim_right_space (take (length s - length w) s)"
      by (subst trim_right_space.simps) simp
    with 1[OF Some] show ?thesis using take_is_prefix prefix_order.order_trans by metis
  qed
qed

lemma trim_right_space_idem: "trim_right_space (trim_right_space s) = trim_right_space s"
proof (induction s rule: trim_right_space.induct)
  case (1 s)
  show ?case
  proof (cases "find (\<lambda>w. suffix w s) space_runes")
    case None
    then have "trim_right_space s = s" by (subst trim_right_space.simps) simp
    then show ?thesis by simp
  next
    case (Some w)
    then have "trim_right_space s = trim_right_space (take (length s - length w) s)"
      by (subst trim_right_space.simps) simp
    with 1[OF Some] show ?thesis by simp
  qed
qed

lemma trim_space_idem [simp]: "trim_space (trim_space s) = trim_space s"
proof -
  have "find (\<lambda>w. prefix w (trim_space s)) space_runes = None"
    using find_space_trim_left [of s] prefix_trim_right [of "trim_left_space s"]
    unfolding trim_space_def find_None_iff by (meson prefix_order.order_trans)
  then have "trim_left_space (trim_space s) = trim_space s"
    by (rule trim_left_space_fixed)
  then show ?thesis
    using trim_right_space_idem [of "trim_left_space s"] by (simp add: trim_space_def)
qed

end
