(* ===== verification/Model.thy ===== *)
theory Model
  imports GoStrings Complex_Main
begin

section \<open>The data the repair pipeline passes around\<close>

text \<open>
  The structs of \<open>internal/model\<close>, one record each, with the source's fields (a prefix keeps
  equally named fields of different structs apart). A string-typed field that the program only
  ever compares with fixed literals is a datatype with one constructor per literal and one
  constructor that carries any other string, so an unexpected value stays a value. A Go
  \<open>int\<close> is an \<^typ>\<open>int\<close>; the one place where its width matters (the revision counter) compares
  with the largest 64-bit value explicitly. \<open>CostUSD\<close> is a rational: float rounding is not modelled.
\<close>

type_synonym rule_id = string
type_synonym item_id = string

record source_location =
  sl_start_line :: int
  sl_end_line :: int
  sl_excerpt :: string

datatype decision_kind = D_modify | D_no_change | D_blocked | D_other string
datatype item_status = S_pending | S_proposed | S_blocked | S_other string
datatype verdict = V_running | V_passed | V_passed_with_holds | V_needs_changes | V_needs_human
  | V_error | V_other string
datatype assessment_status = A_satisfied | A_not_applicable | A_violated | A_needs_human
  | A_other string
datatype hold_status = H_preserved | H_unsafe | H_other string
datatype issue_kind = K_unset | K_needs_changes | K_needs_human | K_other string
datatype line_basis = L_before | L_after | L_other string
datatype outcome_kind = O_modified | O_skipped | O_needs_human | O_other string
datatype check_status = C_passed | C_failed | C_skipped | C_other string

record rule =
  ru_id :: rule_id
  ru_title :: string
  ru_body :: string
  ru_always :: bool

record plan_decision =
  pd_rule_id :: rule_id
  pd_decision :: decision_kind
  pd_reason :: string

record plan_item =
  pi_id :: item_id
  pi_rule_id :: rule_id
  pi_location :: string
  pi_risk :: string
  pi_change :: string
  pi_expected :: string
  pi_status :: item_status
  pi_hold_reason :: string
  pi_source_locations :: "source_location list"

record repair_plan =
  rp_revision :: int
  rp_decisions :: "plan_decision list"
  rp_items :: "plan_item list"

record plan_update =
  pu_expected_revision :: int
  pu_decisions :: "plan_decision list"
  pu_items :: "plan_item list"
  pu_remove_item_ids :: "item_id list"

record edit_attribution =
  at_item_id :: item_id
  at_before_text :: string
  at_after_text :: string

record edit =
  ed_item_ids :: "item_id list"
  ed_old_text :: string
  ed_new_text :: string
  ed_attributions :: "edit_attribution list"

record staged_edit =
  se_id :: string
  se_edit :: edit

record stage_edits_request =
  sr_plan_revision :: int
  sr_base_hash :: string
  sr_edits :: "staged_edit list"
  sr_remove_edit_ids :: "string list"

record candidate_request =
  cr_plan_revision :: int
  cr_base_hash :: string
  cr_edits :: "edit list"
  cr_addressed_item_ids :: "item_id list"

record line_range =
  lr_before_start :: int
  lr_before_end :: int
  lr_after_start :: int
  lr_after_end :: int

record edit_line_range =
  er_item_ids :: "item_id list"
  er_range :: line_range

record check =
  ck_name :: string
  ck_status :: check_status
  ck_detail :: string

record candidate_validation =
  cv_attribution_version :: int
  cv_candidate_id :: string
  cv_candidate_hash :: string
  cv_plan_revision :: int
  cv_passed :: bool
  cv_checks :: "check list"
  cv_edit_ranges :: "edit_line_range list"

record usage =
  us_uncertain :: bool
  us_input_tokens :: int
  us_cached_tokens :: int
  us_output_tokens :: int
  us_cost_usd :: rat
  us_turns :: int

record review_assessment =
  ra_rule_id :: rule_id
  ra_status :: assessment_status
  ra_reason :: string

record review_issue =
  ri_kind :: issue_kind
  ri_rule_id :: rule_id
  ri_line_basis :: line_basis
  ri_excerpt :: string
  ri_start_line :: int
  ri_end_line :: int
  ri_reason :: string
  ri_location :: string
  ri_requested_change :: string

record review_hold =
  rh_item_id :: item_id
  rh_rule_id :: rule_id
  rh_source_locations :: "source_location list"
  rh_reason :: string

record review_hold_assessment =
  ha_item_id :: item_id
  ha_status :: hold_status
  ha_reason :: string

record independent_review =
  rv_id :: string
  rv_candidate_id :: string
  rv_base_hash :: string
  rv_candidate_hash :: string
  rv_plan_revision :: int
  rv_verdict :: verdict
  rv_summary :: string
  rv_assessments :: "review_assessment list"
  rv_issues :: "review_issue list"
  rv_hold_assessments :: "review_hold_assessment list"
  rv_usage :: usage
  rv_started_at :: string
  rv_finished_at :: string

record source_diagnostic =
  sd_file :: string
  sd_message :: string
  sd_line :: int
  sd_code :: string

record review_rule =
  rr_id :: rule_id
  rr_title :: string
  rr_body :: string
  rr_always :: bool

record candidate_record =
  ca_no_change :: bool
  ca_request :: candidate_request
  ca_result :: candidate_validation
  ca_review_requested :: bool
  ca_review_note :: string
  ca_review :: "independent_review option"

record repair_state =
  rs_version :: int
  rs_plan :: repair_plan
  rs_last_candidate :: "candidate_record option"
  rs_staged_edits :: "staged_edit list"
  rs_usage :: usage
  rs_elapsed_ms :: int
  rs_tool_calls :: int
  rs_read_bytes :: int
  rs_validation_count :: int
  rs_request_pending :: bool
  rs_request_id :: string
  rs_read_rule_ids :: "rule_id list"
  rs_rule_read_offsets :: "rule_id \<rightharpoonup> int"
  rs_review_count :: int
  rs_reviews :: "independent_review list"
  rs_request_kind :: string

record proposal =
  pr_outcome :: outcome_kind
  pr_candidate_id :: string
  pr_edits :: "edit list"
  pr_rules_applied :: "rule_id list"
  pr_note :: string

definition line_attribution_version :: int where
  "line_attribution_version = 2"

text \<open>
  \<open>safeIdentifier\<close> returns its argument when it has at most 80 bytes of the safe alphabet and
  the empty string otherwise; \<open>validRuleID\<close> asks for a nonempty fixed point that is no dot path.
\<close>

definition safe_char :: "char \<Rightarrow> bool" where
  "safe_char c \<longleftrightarrow> byte_in c 97 122 \<or> byte_in c 65 90 \<or> byte_in c 48 57
     \<or> c = CHR ''_'' \<or> c = CHR ''-'' \<or> c = CHR ''.''"

definition safe_identifier :: "string \<Rightarrow> string" where
  "safe_identifier s =
     (if length s > 80 then [] else if list_all safe_char s then s else [])"

definition valid_rule_id :: "string \<Rightarrow> bool" where
  "valid_rule_id s \<longleftrightarrow> s \<noteq> [] \<and> safe_identifier s = s \<and> s \<noteq> ''.'' \<and> s \<noteq> ''..''"

lemma valid_rule_id_iff:
  "valid_rule_id s \<longleftrightarrow>
     s \<noteq> [] \<and> length s \<le> 80 \<and> list_all safe_char s \<and> s \<noteq> ''.'' \<and> s \<noteq> ''..''"
  by (auto simp: valid_rule_id_def safe_identifier_def split: if_splits)

end
