(* ===== verification/SourceLocation.thy ===== *)
theory SourceLocation
  imports Model
begin

section \<open>Source locations: exact line evidence\<close>

text \<open>
  \<open>internal/model/source_location.go\<close>: a location names inclusive 1-based lines of the original
  source and quotes them. \<open>validate_source_location\<close> checks a declared location,
  \<open>resolve_source_location\<close> may correct the line numbers of a fresh one when its quotation
  is a unique run of complete lines.
\<close>

datatype location_error =
    LocInvalidUtf8 | LocEmptyExcerpt | LocBadRange | LocEmptyFile | LocOutsideSource
  | LocExcerptMismatch | LocMissingExcerpt | LocMatches nat

definition BOM :: string where "BOM = [CHR 0xEF, CHR 0xBB, CHR 0xBF]"

definition normalize_source :: "string \<Rightarrow> string" where
  "normalize_source v = crlf_to_lf (trim_prefix v BOM)"

definition source_lines :: "string \<Rightarrow> string list" where
  "source_lines content = split_on LF (trim_suffix content [LF])"

definition validate_source_location :: "string \<Rightarrow> source_location \<Rightarrow> location_error option" where
  "validate_source_location content0 loc =
     (if \<not> valid_utf8 content0 \<or> \<not> valid_utf8 (sl_excerpt loc) then Some LocInvalidUtf8
      else
        let content = normalize_source content0; excerpt = normalize_source (sl_excerpt loc) in
        if blank excerpt then Some LocEmptyExcerpt
        else if sl_start_line loc < 1 \<or> sl_end_line loc < sl_start_line loc then Some LocBadRange
        else if content = [] then Some LocEmptyFile
        else
          let lines = source_lines content in
          if sl_end_line loc > int (length lines) then Some LocOutsideSource
          else
            let expected = join_with LF
                  (slice (nat (sl_start_line loc - 1)) (nat (sl_end_line loc)) lines) in
            if excerpt \<noteq> expected \<and> excerpt \<noteq> expected @ [LF] then Some LocExcerptMismatch
            else None)"

text \<open>
  The search loop of \<open>ResolveSourceLocation\<close>: \<open>offset\<close> is the next position to search,
  \<open>matches\<close> and \<open>start\<close> the complete-line matches so far and the last one; it stops at the second.
\<close>

definition full_line_at :: "string \<Rightarrow> string \<Rightarrow> nat \<Rightarrow> bool" where
  "full_line_at content quoted i \<longleftrightarrow>
     (i = 0 \<or> content ! (i - 1) = LF) \<and>
     (i + length quoted = length content \<or> content ! (i + length quoted) = LF)"

function resolve_scan :: "string \<Rightarrow> string \<Rightarrow> nat \<Rightarrow> nat \<Rightarrow> nat \<Rightarrow> nat \<times> nat" where
  "resolve_scan content quoted offset matches start =
     (if offset < length content then
        (case str_index (drop offset content) quoted of
           None \<Rightarrow> (matches, start)
         | Some relative \<Rightarrow>
             let i = offset + relative in
             if full_line_at content quoted i then
               (if matches + 1 > 1 then (matches + 1, i)
                else resolve_scan content quoted (i + 1) (matches + 1) i)
             else resolve_scan content quoted (i + 1) matches start)
      else (matches, start))"
  by pat_completeness auto
termination
  by (relation "measure (\<lambda>(content, quoted, offset, matches, start). length content - offset)") auto

declare resolve_scan.simps [simp del]

definition resolve_source_location ::
  "string \<Rightarrow> source_location \<Rightarrow> (location_error, source_location) outcome" where
  "resolve_source_location content0 loc =
     (if validate_source_location content0 loc = None then Inr loc
      else if \<not> valid_utf8 content0 \<or> \<not> valid_utf8 (sl_excerpt loc) then Inl LocInvalidUtf8
      else
        let content = normalize_source content0; excerpt = normalize_source (sl_excerpt loc) in
        if content = [] \<or> blank excerpt then Inl LocMissingExcerpt
        else
          let quoted = trim_suffix excerpt [LF];
              (matches, start) = resolve_scan content quoted 0 0 0 in
          if matches \<noteq> 1 then Inl (LocMatches matches)
          else
            let first = 1 + int (count_char LF (take start content));
                loc' = loc\<lparr>sl_start_line := first,
                           sl_end_line := first + int (count_char LF quoted)\<rparr> in
            (case validate_source_location content loc' of
               Some e \<Rightarrow> Inl e
             | None \<Rightarrow> Inr loc'))"

subsection \<open>What a validated location says about the bytes of the source\<close>

text \<open>
  \<open>line_block c q first last\<close>: \<open>q\<close> is the text of the complete lines \<open>first\<close> to \<open>last\<close> of
  \<open>c\<close>, found between two line boundaries.
\<close>

definition line_block :: "string \<Rightarrow> string \<Rightarrow> int \<Rightarrow> int \<Rightarrow> bool" where
  "line_block c q first last_line \<longleftrightarrow>
     (\<exists>pre post. c = pre @ q @ post \<and> (pre = [] \<or> last pre = LF) \<and> (post = [] \<or> hd post = LF) \<and>
        int (count_char LF pre) = first - 1 \<and> int (count_char LF q) = last_line - first)"

lemma join_slice_block:
  assumes ls: "\<And>l. l \<in> set ls \<Longrightarrow> LF \<notin> set l" and ij: "i < j" "j \<le> length ls"
  shows "\<exists>pre post. join_with LF ls = pre @ join_with LF (slice i j ls) @ post \<and>
      (pre = [] \<or> last pre = LF) \<and> (post = [] \<or> hd post = LF) \<and>
      count_char LF pre = i \<and> count_char LF (join_with LF (slice i j ls)) = j - i - 1"
proof -
  define A B C where "A = take i ls" "B = slice i j ls" "C = drop j ls"
  have split: "ls = A @ B @ C"
    using ij by (simp add: A_B_C_def slice_append_drop)
  have lens: "length A = i" "length B = j - i" "B \<noteq> []"
    using ij by (auto simp: A_B_C_def slice_def)
  have no: "\<And>l. l \<in> set A \<union> set B \<Longrightarrow> LF \<notin> set l"
    using ls split by auto
  have cA: "A \<noteq> [] \<Longrightarrow> Suc (count_char LF (join_with LF A)) = i"
    using count_char_join[of A LF] no lens by auto
  have cB: "count_char LF (join_with LF B) = j - i - 1"
    using count_char_join[of B LF] no lens by auto
  define pre where "pre = (if A = [] then [] else join_with LF A @ [LF])"
  define post where "post = (if C = [] then [] else LF # join_with LF C)"
  have "join_with LF ls = pre @ join_with LF B @ post"
    using lens by (cases "A = []"; cases "C = []") (auto simp: split pre_def post_def join_with_append)
  moreover have "count_char LF pre = i"
    using cA lens by (auto simp: pre_def)
  ultimately show ?thesis
    using cB by (intro exI[of _ pre] exI[of _ post]) (auto simp: pre_def post_def A_B_C_def(2))
qed

lemma trim_suffix_LF_cases: "trim_suffix c [LF] = c \<or> c = trim_suffix c [LF] @ [LF]"
  by (auto simp: trim_suffix_LF) (metis append_butlast_last_id)

lemma validate_conditions:
  assumes "validate_source_location content loc = None"
  shows "valid_utf8 content" "valid_utf8 (sl_excerpt loc)" "1 \<le> sl_start_line loc"
    "sl_start_line loc \<le> sl_end_line loc"
    "sl_end_line loc \<le> int (length (source_lines (normalize_source content)))"
    "\<not> blank (normalize_source (sl_excerpt loc))" "normalize_source content \<noteq> []"
    "let q = join_with LF (slice (nat (sl_start_line loc - 1)) (nat (sl_end_line loc))
        (source_lines (normalize_source content)))
     in normalize_source (sl_excerpt loc) = q \<or> normalize_source (sl_excerpt loc) = q @ [LF]"
  using assms by (auto simp: validate_source_location_def Let_def split: if_splits)

lemma validate_line_block_lemma:
  assumes "validate_source_location content loc = None"
  obtains q where "line_block (normalize_source content) q (sl_start_line loc) (sl_end_line loc)"
    "normalize_source (sl_excerpt loc) = q \<or> normalize_source (sl_excerpt loc) = q @ [LF]"
proof -
  define c where "c = normalize_source content"
  define t where "t = trim_suffix c [LF]"
  define i where "i = nat (sl_start_line loc - 1)"
  define j where "j = nat (sl_end_line loc)"
  define q where "q = join_with LF (slice i j (split_on LF t))"
  note v = validate_conditions[OF assms, folded c_def]
  have ij: "i < j" "j \<le> length (split_on LF t)"
    using v(3-5) by (auto simp: i_def j_def source_lines_def t_def)
  obtain pre post where blk: "t = pre @ q @ post" "pre = [] \<or> last pre = LF"
      "post = [] \<or> hd post = LF" "count_char LF pre = i" "count_char LF q = j - i - 1"
    using join_slice_block[of "split_on LF t" i j, OF _ ij] split_on_no_delim[of _ LF t]
      join_split_on[of LF t]
    unfolding q_def[symmetric] by metis
  have "int (count_char LF pre) = sl_start_line loc - 1"
    "int (count_char LF q) = sl_end_line loc - sl_start_line loc"
    using blk(4,5) ij v(3,4) by (auto simp: i_def j_def)
  moreover have "\<exists>post'. c = pre @ q @ post' \<and> (post' = [] \<or> hd post' = LF)"
    using trim_suffix_LF_cases[of c] blk(1,3) unfolding t_def[symmetric]
    by (metis append.assoc append_Nil hd_append2 list.sel(1))
  ultimately have "line_block c q (sl_start_line loc) (sl_end_line loc)"
    using blk(2) unfolding line_block_def by blast
  moreover have "normalize_source (sl_excerpt loc) = q \<or> normalize_source (sl_excerpt loc) = q @ [LF]"
    using v(8) by (simp add: q_def t_def i_def j_def source_lines_def Let_def)
  ultimately show ?thesis using that by (simp add: c_def)
qed

text \<open>The converse: a block of complete lines that does not end inside the final line feed.\<close>

lemma line_block_lines:
  assumes "line_block c q first last_line" "q \<noteq> []" "last q \<noteq> LF"
  shows "1 \<le> first" "first \<le> last_line" "last_line \<le> int (length (source_lines c))"
    "join_with LF (slice (nat (first - 1)) (nat last_line) (source_lines c)) = q"
proof -
  obtain pre post where c: "c = pre @ q @ post" "pre = [] \<or> last pre = LF"
      "post = [] \<or> hd post = LF" "int (count_char LF pre) = first - 1"
      "int (count_char LF q) = last_line - first"
    using assms(1) unfolding line_block_def by blast
  have "\<exists>post'. trim_suffix c [LF] = pre @ q @ post' \<and> (post' = [] \<or> hd post' = LF)"
  proof (cases "post = []")
    case True
    then show ?thesis using c(1) assms(2,3) by (intro exI[of _ "[]"]) (simp add: trim_suffix_LF)
  next
    case False
    then show ?thesis
      using c(1,3) by (intro exI[of _ "trim_suffix post [LF]"])
        (cases post, auto simp: trim_suffix_LF butlast_append split: if_splits)
  qed
  then obtain post' where p: "trim_suffix c [LF] = pre @ q @ post'" "post' = [] \<or> hd post' = LF"
    by blast
  obtain A C where AC: "source_lines c = A @ split_on LF q @ C" "length A = count_char LF pre"
    using split_on_line_block[OF c(2) p(2), of q] p(1) by (auto simp: source_lines_def)
  show bounds: "1 \<le> first" "first \<le> last_line" "last_line \<le> int (length (source_lines c))"
    using c(4,5) AC by (auto simp: length_split_on)
  have "nat (first - 1) = length A" "nat last_line = length A + length (split_on LF q)"
    using c(4,5) AC bounds by (auto simp: length_split_on)
  then have "slice (nat (first - 1)) (nat last_line) (source_lines c) = split_on LF q"
    by (simp add: AC(1) slice_def)
  then show "join_with LF (slice (nat (first - 1)) (nat last_line) (source_lines c)) = q"
    by (simp add: join_split_on)
qed

subsection \<open>The search for a unique run of complete lines\<close>

definition full_match :: "string \<Rightarrow> string \<Rightarrow> nat \<Rightarrow> bool" where
  "full_match content quoted i \<longleftrightarrow>
     i < length content \<and> occurs_at content quoted i \<and> full_line_at content quoted i"

lemma resolve_scan_step:
  assumes "offset < length content" "str_index (drop offset content) quoted = Some r"
  shows "occurs_at content quoted (offset + r)"
    "offset \<le> i \<Longrightarrow> i < offset + r \<Longrightarrow> \<not> occurs_at content quoted i"
proof -
  from assms have o: "occurs_at (drop offset content) quoted r"
      "\<forall>k < r. \<not> occurs_at (drop offset content) quoted k"
    by (auto simp: str_index_Some)
  show "occurs_at content quoted (offset + r)" using o(1) assms(1) by (simp add: occurs_at_drop)
  assume "offset \<le> i" "i < offset + r"
  then have "\<not> occurs_at (drop offset content) quoted (i - offset)"
    using o(2) by auto
  then show "\<not> occurs_at content quoted i"
    using assms(1) \<open>offset \<le> i\<close> by (simp add: occurs_at_drop)
qed

lemma resolve_scan_one:
  "resolve_scan content quoted offset matches start = (1, st) \<Longrightarrow> matches \<le> 1 \<Longrightarrow> quoted \<noteq> [] \<Longrightarrow>
     (matches = 1 \<and> st = start \<and> (\<forall>i \<ge> offset. \<not> full_match content quoted i)) \<or>
     (matches = 0 \<and> offset \<le> st \<and> full_match content quoted st \<and>
        (\<forall>i \<ge> offset. full_match content quoted i \<longrightarrow> i = st))"
proof (induction content quoted offset matches start arbitrary: st rule: resolve_scan.induct)
  case (1 content quoted offset matches start)
  show ?case
  proof (cases "offset < length content")
    case False
    then have "\<forall>i \<ge> offset. \<not> full_match content quoted i" by (auto simp: full_match_def)
    with 1(3,4) False show ?thesis by (auto simp: resolve_scan.simps[of content])
  next
    case off: True
    show ?thesis
    proof (cases "str_index (drop offset content) quoted")
      case None
      have "\<not> occurs_at content quoted i" if "offset \<le> i" for i
        using None off that unfolding str_index_None_iff
        by (metis le_add_diff_inverse less_imp_le_nat occurs_at_drop)
      then have "\<forall>i \<ge> offset. \<not> full_match content quoted i" by (auto simp: full_match_def)
      with 1(3,4) None off show ?thesis by (auto simp: resolve_scan.simps[of content])
    next
      case (Some r)
      define i where "i = offset + r"
      note st = resolve_scan_step[OF off Some, folded i_def]
      have before: "full_match content quoted k \<Longrightarrow> offset \<le> k \<Longrightarrow> i \<le> k" for k
        using st(2)[of k] by (auto simp: full_match_def not_less[symmetric])
      show ?thesis
      proof (cases "full_line_at content quoted i")
        case True
        have "i < length content" using occurs_at_length[OF st(1)] 1(5)
          by (cases quoted) auto
        with True st(1) have fm: "full_match content quoted i" by (simp add: full_match_def)
        have m0: "matches = 0"
          using 1(3,4) off Some True
          by (auto simp: resolve_scan.simps[of content] i_def Let_def split: if_splits)
        then have eq: "resolve_scan content quoted (i + 1) 1 i = (1, st)"
          using 1(3) off Some True by (simp add: resolve_scan.simps[of content _ offset] i_def Let_def)
        have after: "st = i" "\<forall>k \<ge> i + 1. \<not> full_match content quoted k"
          using "1.IH"(1)[OF off Some i_def True, of st] eq m0 1(5) by auto
        have "k = i" if "offset \<le> k" "full_match content quoted k" for k
          using before[OF that(2,1)] after(2) that(2) by (metis Suc_eq_plus1 le_antisym not_less_eq_eq)
        then show ?thesis
          using m0 fm after(1) by (auto simp: i_def)
      next
        case False
        then have nfm: "\<not> full_match content quoted i" by (simp add: full_match_def)
        have eq: "resolve_scan content quoted (i + 1) matches start = (1, st)"
          using 1(3) off Some False by (simp add: resolve_scan.simps[of content _ offset] i_def Let_def)
        have range: "i + 1 \<le> k" if "offset \<le> k" "full_match content quoted k" for k
          using before[OF that(2,1)] nfm that(2) by (metis Suc_eq_plus1 Suc_leI le_neq_implies_less)
        have "offset \<le> i + 1" by (simp add: i_def)
        with "1.IH"(2)[OF off Some i_def False eq 1(4) 1(5)] range show ?thesis
          by (meson le_trans)
      qed
    qed
  qed
qed

lemma resolve_scan_none:
  "(\<forall>i \<ge> offset. \<not> full_match content quoted i) \<Longrightarrow> quoted \<noteq> [] \<Longrightarrow>
     resolve_scan content quoted offset matches start = (matches, start)"
proof (induction content quoted offset matches start rule: resolve_scan.induct)
  case (1 content quoted offset matches start)
  show ?case
  proof (cases "offset < length content \<and> str_index (drop offset content) quoted \<noteq> None")
    case False
    then show ?thesis by (auto simp: resolve_scan.simps[of content])
  next
    case True
    then obtain r where off: "offset < length content"
        and r: "str_index (drop offset content) quoted = Some r" by auto
    have o: "occurs_at content quoted (offset + r)" using resolve_scan_step(1)[OF off r] .
    have "\<not> full_line_at content quoted (offset + r)"
      using occurs_at_length[OF o] 1(3,4) o by (cases quoted) (auto simp: full_match_def)
    with 1 off r show ?thesis by (simp add: resolve_scan.simps[of content _ offset])
  qed
qed

lemma resolve_scan_unique:
  "full_match content quoted p \<Longrightarrow> offset \<le> p \<Longrightarrow>
   (\<forall>i \<ge> offset. full_match content quoted i \<longrightarrow> i = p) \<Longrightarrow> quoted \<noteq> [] \<Longrightarrow>
     resolve_scan content quoted offset 0 start = (1, p)"
proof (induction "length content - offset" arbitrary: offset rule: less_induct)
  case less
  have off: "offset < length content" using less(2,3) by (simp add: full_match_def)
  have "occurs_at (drop offset content) quoted (p - offset)"
    using less(2,3) off by (simp add: occurs_at_drop full_match_def)
  then obtain r where r: "str_index (drop offset content) quoted = Some r"
    using str_index_None_iff by fastforce
  note st = resolve_scan_step[OF off r]
  have le: "offset + r \<le> p"
    using st(2)[of p] less(2,3) by (auto simp: full_match_def not_less[symmetric])
  show ?case
  proof (cases "full_line_at content quoted (offset + r)")
    case True
    have fm: "full_match content quoted (offset + r)"
      using True st(1) less(2) le by (simp add: full_match_def)
    then have p: "offset + r = p" using less(4) by simp
    have "\<not> full_match content quoted i" if "p + 1 \<le> i" for i
      using less(4)[rule_format, of i] less(3) that by auto
    then have "resolve_scan content quoted (p + 1) 1 p = (1, p)"
      using less(5) by (intro resolve_scan_none) auto
    with True p r off show ?thesis by (simp add: resolve_scan.simps[of content _ offset])
  next
    case False
    then have "offset + r \<noteq> p" using less(2) by (auto simp: full_match_def)
    then have gt: "offset + r + 1 \<le> p" using le by simp
    have uniq: "\<forall>i \<ge> offset + r + 1. full_match content quoted i \<longrightarrow> i = p"
      by (intro allI impI less(4)[rule_format]) linarith
    have "length content - (offset + r + 1) < length content - offset" using off by linarith
    from less(1)[OF this less(2) gt uniq less(5)]
    have "resolve_scan content quoted (offset + r + 1) 0 start = (1, p)" .
    with False r off show ?thesis by (simp add: resolve_scan.simps[of content _ offset])
  qed
qed

lemma full_match_line_block:
  assumes "full_match c q p"
  shows "line_block c q (1 + int (count_char LF (take p c)))
           (1 + int (count_char LF (take p c)) + int (count_char LF q))"
proof -
  from assms have o: "occurs_at c q p" "full_line_at c q p" "p < length c"
    by (auto simp: full_match_def)
  have "p = 0 \<or> last (take p c) = LF"
    using o(2,3) by (cases p) (auto simp: full_line_at_def take_Suc_conv_app_nth)
  moreover have "drop (p + length q) c = [] \<or> hd (drop (p + length q) c) = LF"
    using o(2) occurs_at_length[OF o(1)]
    by (cases "p + length q = length c") (auto simp: full_line_at_def hd_drop_conv_nth)
  ultimately show ?thesis
    using occurs_at_split[OF o(1)] unfolding line_block_def
    by (intro exI[of _ "take p c"] exI[of _ "drop (p + length q) c"]) auto
qed

lemma blank_LF [simp]: "blank [LF]"
  by (simp add: blank_def trim_space_def LF_def trim_left_space.simps[of "[_]"] space_runes_def)

lemma nonblank_quoted: "\<not> blank e \<Longrightarrow> trim_suffix e [LF] \<noteq> []"
  using trim_suffix_LF_cases[of e] by (metis append_Nil blank_LF blank_Nil)

definition resolved_lines :: "string \<Rightarrow> source_location \<Rightarrow> nat \<Rightarrow> source_location" where
  "resolved_lines c loc p =
     loc\<lparr>sl_start_line := 1 + int (count_char LF (take p c)),
         sl_end_line := 1 + int (count_char LF (take p c))
           + int (count_char LF (trim_suffix (normalize_source (sl_excerpt loc)) [LF]))\<rparr>"

text \<open>
  Where the source is already normalized (decoding guarantees it in the pipeline), the second
  validation inside the resolver accepts every unique match, because a match is a block of
  complete lines.
\<close>

lemma validate_resolved:
  assumes n: "normalize_source c = c" and u: "valid_utf8 c" "valid_utf8 (sl_excerpt loc)"
    and e: "e = normalize_source (sl_excerpt loc)" "\<not> blank e"
    and q: "q = trim_suffix e [LF]" "last q \<noteq> LF" and fm: "full_match c q p"
  shows "validate_source_location c (resolved_lines c loc p) = None"
proof -
  have "q \<noteq> []" using nonblank_quoted e(2) q(1) by simp
  note b = line_block_lines[OF full_match_line_block[OF fm] this q(2)]
  have "c \<noteq> []" using fm by (auto simp: full_match_def)
  have "e = q \<or> e = q @ [LF]" using q(1) trim_suffix_LF_cases[of e] by auto
  moreover have "trim_suffix (normalize_source (sl_excerpt loc)) [LF] = q"
    using e(1) q(1) by simp
  ultimately show ?thesis
    using b u e n \<open>c \<noteq> []\<close>
    by (auto simp: validate_source_location_def resolved_lines_def Let_def)
qed

lemma resolve_cases:
  assumes "normalize_source c = c" "validate_source_location c loc \<noteq> None"
    "valid_utf8 c" "valid_utf8 (sl_excerpt loc)" "c \<noteq> []"
    and e: "e = normalize_source (sl_excerpt loc)" "\<not> blank e" "q = trim_suffix e [LF]"
  shows "resolve_source_location c loc =
     (case resolve_scan c q 0 0 0 of (m, p) \<Rightarrow>
        if m \<noteq> 1 then Inl (LocMatches m)
        else (case validate_source_location c (resolved_lines c loc p) of
                Some err \<Rightarrow> Inl err | None \<Rightarrow> Inr (resolved_lines c loc p)))"
  using assms
  by (auto simp: resolve_source_location_def Let_def resolved_lines_def split: prod.splits option.splits)

subsection \<open>Properties\<close>

definition sample_source :: string where
  "sample_source = ''if a'' @ [LF] @ ''  save'' @ [LF] @ ''end'' @ [LF]"

definition sample_location :: source_location where
  "sample_location = \<lparr>sl_start_line = 7, sl_end_line = 9, sl_excerpt = ''  save'' @ [LF] @ ''end''\<rparr>"



text \<open>
  C2. On a decoded (normalized, valid) source, a fresh location with a nonblank excerpt that does
  not end in a blank line resolves exactly when it already validates or its quotation occurs
  once as complete lines; a resolved location always validates and keeps the excerpt.
\<close>

theorem resolve_source_location_iff:
  assumes "normalize_source c = c" "valid_utf8 c" "valid_utf8 (sl_excerpt loc)"
    and e: "e = normalize_source (sl_excerpt loc)" "\<not> blank e"
    and q: "q = trim_suffix e [LF]" "last q \<noteq> LF"
  shows "((\<exists>r. resolve_source_location c loc = Inr r) \<longleftrightarrow>
            validate_source_location c loc = None \<or> (\<exists>!i. full_match c q i)) \<and>
         (\<forall>r. resolve_source_location c loc = Inr r \<longrightarrow>
            validate_source_location c r = None \<and> sl_excerpt r = sl_excerpt loc)"
proof (cases "validate_source_location c loc = None")
  case True
  then show ?thesis by (simp add: resolve_source_location_def)
next
  case False
  have qn: "q \<noteq> []" using nonblank_quoted e(2) q(1) by simp
  show ?thesis
  proof (cases "c = []")
    case True
    then have "\<not> full_match c q i" for i by (simp add: full_match_def)
    moreover have "resolve_source_location c loc = Inl LocMissingExcerpt"
      using True False assms by (auto simp: resolve_source_location_def Let_def)
    ultimately show ?thesis using False by auto
  next
    case ne: False
    note rc = resolve_cases[OF assms(1) False assms(2,3) ne e q(1)]
    note valid = validate_resolved[OF assms(1-3) e q]
    show ?thesis
    proof (cases "\<exists>!i. full_match c q i")
      case True
      then obtain p where p: "full_match c q p" "\<forall>i \<ge> 0. full_match c q i \<longrightarrow> i = p" by blast
      have "resolve_source_location c loc = Inr (resolved_lines c loc p)"
        using rc resolve_scan_unique[OF p(1) _ p(2) qn] valid[OF p(1)] by simp
      then show ?thesis using True valid[OF p(1)] by (auto simp: resolved_lines_def)
    next
      case nu: False
      obtain m p where mp: "resolve_scan c q 0 0 0 = (m, p)" by fastforce
      have "m \<noteq> 1"
        using resolve_scan_one[of c q 0 0 0 p] mp nu qn by auto
      then show ?thesis using rc mp nu False by auto
    qed
  qed
qed

theorem resolve_source_location_iff_witness:
  "(\<exists>r. resolve_source_location sample_source sample_location = Inr r) \<and>
   (\<exists>!i. full_match sample_source (''  save'' @ [LF] @ ''end'') i)"
proof -
  have v: "validate_source_location sample_source sample_location \<noteq> None" by code_simp
  have r: "\<exists>r. resolve_source_location sample_source sample_location = Inr r"
    by (rule exI[of _ "sample_location\<lparr>sl_start_line := 2, sl_end_line := 3\<rparr>"]) code_simp
  have h: "normalize_source sample_source = sample_source" "valid_utf8 sample_source"
    "valid_utf8 (sl_excerpt sample_location)"
    "''  save'' @ [LF] @ ''end'' = normalize_source (sl_excerpt sample_location)"
    "\<not> blank (''  save'' @ [LF] @ ''end'')"
    "''  save'' @ [LF] @ ''end'' = trim_suffix (''  save'' @ [LF] @ ''end'') [LF]"
    "last (''  save'' @ [LF] @ ''end'') \<noteq> LF"
    by code_simp+
  from resolve_source_location_iff[OF h] r v show ?thesis by blast
qed

end
