(* ===== verification/ExactEdits.thy ===== *)
theory ExactEdits
  imports Model "HOL-Library.Multiset"
begin

section \<open>Exact edits against an immutable original\<close>

text \<open>
  Every proposal is a list of replacements of substrings that occur exactly once in the original
  file. Three routines apply such a list: \<open>materializeEdits\<close> (\<open>internal/agent/incremental.go\<close>)
  for the editor's own view, \<open>reviewCandidateText\<close> (\<open>internal/agent/review_gate.go\<close>) for the
  text the reviewer sees, and \<open>applyEdits\<close> (\<open>internal/engine/text.go\<close>) for the bytes that are
  adopted. They are written separately; this theory models each one and proves that they
  compute the same text, the simultaneous replacement \<open>replaces\<close>.
\<close>

subsection \<open>The checks: validateExactEdits\<close>

datatype edit_error = EditNone | EditBadText | EditNotUnique | EditOverlap

definition edit_text_ok :: "edit \<Rightarrow> bool" where
  "edit_text_ok e \<longleftrightarrow> ed_old_text e \<noteq> [] \<and> ed_old_text e \<noteq> ed_new_text e
     \<and> valid_utf8 (ed_old_text e) \<and> valid_utf8 (ed_new_text e)"

fun exact_edits_loop :: "string \<Rightarrow> edit list \<Rightarrow> (nat \<times> nat) list \<Rightarrow> edit_error option" where
  "exact_edits_loop original [] spans = None"
| "exact_edits_loop original (e # es) spans =
     (if \<not> edit_text_ok e then Some EditBadText
      else (case unique_index original (ed_old_text e) of
        None \<Rightarrow> Some EditNotUnique
      | Some start \<Rightarrow>
          let finish = start + length (ed_old_text e) in
          if list_ex (\<lambda>(s, t). start < t \<and> s < finish) spans then Some EditOverlap
          else exact_edits_loop original es (spans @ [(start, finish)])))"

definition validate_exact_edits :: "edit list \<Rightarrow> string \<Rightarrow> edit_error option" where
  "validate_exact_edits edits original =
     (if edits = [] then Some EditNone else exact_edits_loop original edits [])"

subsection \<open>The three routines that apply edits\<close>

text \<open>\<open>strings.Index(original, edit.OldText)\<close>, used after validation has shown it is found.\<close>

definition start_of :: "string \<Rightarrow> edit \<Rightarrow> nat" where
  "start_of s e = (case str_index s (ed_old_text e) of Some i \<Rightarrow> i | None \<Rightarrow> 0)"

definition replace_at :: "nat \<times> edit \<Rightarrow> string \<Rightarrow> string" where
  "replace_at p t = take (fst p) t @ ed_new_text (snd p)
     @ drop (fst p + length (ed_old_text (snd p))) t"

definition located :: "string \<Rightarrow> edit list \<Rightarrow> (nat \<times> edit) list" where
  "located s es = map (\<lambda>e. (start_of s e, e)) es"

text \<open>
  \<open>sort.Slice\<close> by descending start, then one replacement after the other, back to front (the
  starts of accepted edits are pairwise different, so the sort has one possible result).
\<close>

definition materialize_edits :: "string \<Rightarrow> edit list \<Rightarrow> (edit_error, string) outcome" where
  "materialize_edits original edits =
     (if edits = [] then Inr original
      else (case validate_exact_edits edits original of
        Some e \<Rightarrow> Inl e
      | None \<Rightarrow>
          Inr (fold replace_at (rev (sort_key fst (located original edits))) original)))"

definition review_candidate_text :: "string \<Rightarrow> edit list \<Rightarrow> (edit_error, string) outcome" where
  "review_candidate_text original edits =
     (case validate_exact_edits edits original of
        Some e \<Rightarrow> Inl e
      | None \<Rightarrow>
          Inr (fold replace_at (rev (sort_key fst (located original edits))) original))"

datatype apply_error = ApplyNone | ApplyEmptyOrSame nat | ApplyCarriageReturn nat
  | ApplyBadText nat | ApplyNotUnique nat | ApplyOverlap | ApplyNoChange | ApplyErases

fun apply_check_loop ::
  "string \<Rightarrow> nat \<Rightarrow> edit list \<Rightarrow> (apply_error, (nat \<times> edit) list) outcome" where
  "apply_check_loop text i [] = Inr []"
| "apply_check_loop text i (e # es) =
     (if ed_old_text e = [] \<or> ed_old_text e = ed_new_text e then Inl (ApplyEmptyOrSame (i + 1))
      else if CR \<in> set (ed_old_text e) \<or> CR \<in> set (ed_new_text e)
        then Inl (ApplyCarriageReturn (i + 1))
      else if NUL \<in> set (ed_new_text e) \<or> \<not> valid_utf8 (ed_new_text e)
        then Inl (ApplyBadText (i + 1))
      else (case unique_index text (ed_old_text e) of
        None \<Rightarrow> Inl (ApplyNotUnique (i + 1))
      | Some start \<Rightarrow>
          (case apply_check_loop text (i + 1) es of
             Inl err \<Rightarrow> Inl err
           | Inr spans \<Rightarrow> Inr ((start, e) # spans))))"

definition span_end :: "nat \<times> edit \<Rightarrow> nat" where
  "span_end p = fst p + length (ed_old_text (snd p))"

fun adjacent_overlap :: "(nat \<times> edit) list \<Rightarrow> bool" where
  "adjacent_overlap (p # q # ps) \<longleftrightarrow> fst q < span_end p \<or> adjacent_overlap (q # ps)"
| "adjacent_overlap _ \<longleftrightarrow> False"

definition apply_edits :: "string \<Rightarrow> edit list \<Rightarrow> (apply_error, string) outcome" where
  "apply_edits text edits =
     (if edits = [] then Inl ApplyNone
      else (case apply_check_loop text 0 edits of
        Inl e \<Rightarrow> Inl e
      | Inr spans0 \<Rightarrow>
          let spans = sort_key fst spans0 in
          if adjacent_overlap spans then Inl ApplyOverlap
          else
            let result = foldr replace_at spans text in
            if result = text then Inl ApplyNoChange
            else if blank result then Inl ApplyErases
            else Inr result))"

subsection \<open>The specification: simultaneous replacement\<close>

text \<open>
  \<open>weave f g0 xs\<close> lays the pieces \<open>f e\<close> of the edits between fixed gaps. \<open>replaces s es t\<close>: the
  original is the old texts of the edits, in some order, between gaps, and the result is the
  new texts between the same gaps.
\<close>

definition weave :: "(edit \<Rightarrow> string) \<Rightarrow> string \<Rightarrow> (edit \<times> string) list \<Rightarrow> string" where
  "weave f g0 xs = g0 @ concat (map (\<lambda>(e, g). f e @ g) xs)"

definition replaces :: "string \<Rightarrow> edit list \<Rightarrow> string \<Rightarrow> bool" where
  "replaces s es t \<longleftrightarrow>
     (\<exists>g0 xs. mset (map fst xs) = mset es \<and> s = weave ed_old_text g0 xs \<and> t = weave ed_new_text g0 xs)"

text \<open>\<open>assemble s p ps\<close> writes the result left to right from position \<open>p\<close> (a string builder).\<close>

fun assemble :: "string \<Rightarrow> nat \<Rightarrow> (nat \<times> edit) list \<Rightarrow> string" where
  "assemble s p [] = drop p s"
| "assemble s p ((start, e) # ps) =
     slice p start s @ ed_new_text e @ assemble s (start + length (ed_old_text e)) ps"

text \<open>Spans in ascending order, disjoint, from position \<open>p\<close> on, each on an occurrence of its old text.\<close>

fun spans_from :: "string \<Rightarrow> nat \<Rightarrow> (nat \<times> edit) list \<Rightarrow> bool" where
  "spans_from s p [] \<longleftrightarrow> p \<le> length s"
| "spans_from s p ((start, e) # ps) \<longleftrightarrow>
     p \<le> start \<and> occurs_at s (ed_old_text e) start \<and>
     spans_from s (start + length (ed_old_text e)) ps"

lemma spans_from_bound: "spans_from s p ps \<Longrightarrow> p \<le> length s"
proof (induction ps arbitrary: p)
  case (Cons x ps)
  then show ?case by (cases x) (fastforce dest: occurs_at_length)
qed simp

lemma foldr_replace_assemble:
  "spans_from s p ps \<Longrightarrow> foldr replace_at ps s = take p s @ assemble s p ps"
proof (induction ps arbitrary: p)
  case (Cons x ps)
  obtain start e where x: "x = (start, e)" by (cases x)
  let ?n = "start + length (ed_old_text e)"
  from Cons.prems have pr: "p \<le> start" "occurs_at s (ed_old_text e) start" "spans_from s ?n ps"
    by (auto simp: x)
  have "foldr replace_at ps s = take ?n s @ assemble s ?n ps"
    by (rule Cons.IH[OF pr(3)])
  moreover have "length (take ?n s) = ?n" using occurs_at_length[OF pr(2)] by simp
  ultimately have "foldr replace_at (x # ps) s = take start s @ ed_new_text e @ assemble s ?n ps"
    by (simp add: x replace_at_def min_def)
  then show ?case using pr(1) take_append_slice[of p start s] by (simp add: x)
qed simp

lemma spans_from_weave:
  assumes "spans_from s p ps"
  shows "\<exists>g0 xs. map fst xs = map snd ps \<and> drop p s = weave ed_old_text g0 xs \<and>
           assemble s p ps = weave ed_new_text g0 xs"
  using assms
proof (induction ps arbitrary: p)
  case Nil
  then show ?case by (intro exI[of _ "drop p s"] exI[of _ "[]"]) (simp add: weave_def)
next
  case (Cons x ps)
  obtain start e where x: "x = (start, e)" by (cases x)
  let ?n = "start + length (ed_old_text e)"
  from Cons.prems have pr: "p \<le> start" "occurs_at s (ed_old_text e) start" "spans_from s ?n ps"
    by (auto simp: x)
  from Cons.IH[OF pr(3)] obtain g0 xs where IH: "map fst xs = map snd ps"
      "drop ?n s = weave ed_old_text g0 xs" "assemble s ?n ps = weave ed_new_text g0 xs"
    by blast
  have "drop p s = slice p start s @ slice start ?n s @ drop ?n s"
    using pr(1) by (simp add: slice_append_drop)
  then have "drop p s = weave ed_old_text (slice p start s) ((e, g0) # xs)"
    using IH(2) occurs_at_slice[OF pr(2)] by (simp add: weave_def)
  moreover have "assemble s p (x # ps) = weave ed_new_text (slice p start s) ((e, g0) # xs)"
    using IH(3) by (simp add: x weave_def)
  ultimately show ?case
    using IH(1) x by (intro exI[of _ "slice p start s"] exI[of _ "(e, g0) # xs"]) simp
qed

subsection \<open>What the checks establish\<close>

text \<open>
  \<open>apart s e f\<close>: the occurrences of two edits do not overlap. \<open>exact_edits s es\<close>: every old
  text is nonempty and unique, and the edits are pairwise apart.
\<close>

definition apart :: "string \<Rightarrow> edit \<Rightarrow> edit \<Rightarrow> bool" where
  "apart s e f \<longleftrightarrow> start_of s e + length (ed_old_text e) \<le> start_of s f
     \<or> start_of s f + length (ed_old_text f) \<le> start_of s e"

definition anchored :: "string \<Rightarrow> edit \<Rightarrow> bool" where
  "anchored s e \<longleftrightarrow> ed_old_text e \<noteq> [] \<and> occurs_once_at s (ed_old_text e) (start_of s e)"

definition exact_edits :: "string \<Rightarrow> edit list \<Rightarrow> bool" where
  "exact_edits s es \<longleftrightarrow> (\<forall>e \<in> set es. anchored s e) \<and> sorted_wrt (apart s) es"

lemma start_of_unique: "unique_index s (ed_old_text e) = Some i \<Longrightarrow> start_of s e = i"
  by (simp add: start_of_def unique_index_eq_index)

lemma anchored_iff:
  "anchored s e \<longleftrightarrow> ed_old_text e \<noteq> [] \<and> unique_index s (ed_old_text e) \<noteq> None"
  using start_of_unique unique_index_Some by (auto simp: anchored_def)

lemma anchored_occurs: "anchored s e \<Longrightarrow> occurs_at s (ed_old_text e) (start_of s e)"
  by (simp add: anchored_def occurs_once_at_def)

lemma exact_edits_loop_None:
  "exact_edits_loop s es spans = None \<longleftrightarrow>
     (\<forall>e \<in> set es. edit_text_ok e \<and> anchored s e) \<and> sorted_wrt (apart s) es \<and>
     (\<forall>e \<in> set es. \<forall>(b, f) \<in> set spans. f \<le> start_of s e \<or> start_of s e + length (ed_old_text e) \<le> b)"
proof (induction es arbitrary: spans)
  case (Cons e es)
  show ?case
  proof (cases "edit_text_ok e \<and> unique_index s (ed_old_text e) \<noteq> None")
    case False
    then show ?thesis by (auto simp: anchored_iff edit_text_ok_def)
  next
    case True
    then obtain i where i: "unique_index s (ed_old_text e) = Some i" by auto
    have an: "anchored s e" using True by (simp add: anchored_iff edit_text_ok_def)
    have ok: "edit_text_ok e" using True by simp
    let ?f = "i + length (ed_old_text e)"
    have "exact_edits_loop s (e # es) spans = None \<longleftrightarrow>
        \<not> list_ex (\<lambda>(b, t). i < t \<and> b < ?f) spans \<and> exact_edits_loop s es (spans @ [(i, ?f)]) = None"
      using i ok by (simp add: Let_def)
    also have "\<dots> \<longleftrightarrow> (\<forall>(b, t) \<in> set spans. t \<le> i \<or> ?f \<le> b) \<and>
        (\<forall>g \<in> set es. edit_text_ok g \<and> anchored s g) \<and> sorted_wrt (apart s) es \<and>
        (\<forall>g \<in> set es. \<forall>(b, t) \<in> set (spans @ [(i, ?f)]). t \<le> start_of s g \<or>
           start_of s g + length (ed_old_text g) \<le> b)"
      unfolding Cons.IH by (auto simp: list_ex_iff not_less)
    finally have eq: "exact_edits_loop s (e # es) spans = None \<longleftrightarrow> \<dots>" .
    have ei: "start_of s e = i" by (rule start_of_unique[OF i])
    show ?thesis
      unfolding eq using an ok by (simp add: apart_def[of s e] ei) blast
  qed
qed simp

lemma validate_exact_edits_None:
  "validate_exact_edits es s = None \<longleftrightarrow>
     es \<noteq> [] \<and> (\<forall>e \<in> set es. edit_text_ok e) \<and> exact_edits s es"
  by (auto simp: validate_exact_edits_def exact_edits_loop_None exact_edits_def)

lemma apart_sym: "apart s e f \<Longrightarrow> apart s f e"
  by (auto simp: apart_def)

lemma apart_self: "anchored s e \<Longrightarrow> \<not> apart s e e"
  by (auto simp: apart_def anchored_def)

lemma exact_edits_distinct:
  assumes "exact_edits s es"
  shows "distinct (map (start_of s) es)"
    "\<And>e f. e \<in> set es \<Longrightarrow> f \<in> set es \<Longrightarrow> e \<noteq> f \<Longrightarrow> apart s e f"
proof -
  have "distinct (map (start_of s) es) \<and>
      (\<forall>e \<in> set es. \<forall>f \<in> set es. e \<noteq> f \<longrightarrow> apart s e f)"
    using assms unfolding exact_edits_def
  proof (induction es)
    case (Cons e es)
    have "start_of s e \<noteq> start_of s f" if "f \<in> set es" for f
    proof -
      have "apart s e f" "anchored s e" "anchored s f" using Cons.prems that by auto
      then show ?thesis by (cases "ed_old_text e"; cases "ed_old_text f") (auto simp: apart_def anchored_def)
    qed
    then have "start_of s e \<notin> start_of s ` set es" by auto
    moreover have "\<forall>f \<in> set es. apart s e f \<and> apart s f e" using Cons.prems apart_sym by auto
    ultimately show ?case using Cons by simp
  qed simp
  then show "distinct (map (start_of s) es)"
    "\<And>e f. e \<in> set es \<Longrightarrow> f \<in> set es \<Longrightarrow> e \<noteq> f \<Longrightarrow> apart s e f"
    by auto
qed

text \<open>The property does not depend on the order of the edits.\<close>

lemma exact_editsI:
  assumes "\<And>e. e \<in> set es \<Longrightarrow> anchored s e" "distinct es"
    "\<And>e f. e \<in> set es \<Longrightarrow> f \<in> set es \<Longrightarrow> e \<noteq> f \<Longrightarrow> apart s e f"
  shows "exact_edits s es"
proof -
  have "sorted_wrt (apart s) es"
    using assms(2,3) by (induction es) auto
  with assms(1) show ?thesis by (simp add: exact_edits_def)
qed

lemma exact_edits_mset:
  assumes "exact_edits s es" "mset es' = mset es"
  shows "exact_edits s es'"
proof (rule exact_editsI)
  have "set es' = set es" using assms(2) by (metis set_mset_mset)
  then show "\<And>e. e \<in> set es' \<Longrightarrow> anchored s e"
    and "\<And>e f. e \<in> set es' \<Longrightarrow> f \<in> set es' \<Longrightarrow> e \<noteq> f \<Longrightarrow> apart s e f"
    using assms(1) exact_edits_distinct(2)[OF assms(1)] by (auto simp: exact_edits_def)
  have "distinct es" using exact_edits_distinct(1)[OF assms(1)] by (simp add: distinct_map)
  then show "distinct es'" using assms(2) by (metis mset_eq_imp_distinct_iff)
qed

text \<open>Sorted by start, exact edits are ascending disjoint spans.\<close>

lemma sorted_disjoint_spans:
  assumes "sorted (map fst ps)" "p \<le> length s" "\<And>x. x \<in> set ps \<Longrightarrow> p \<le> fst x"
    "\<And>x. x \<in> set ps \<Longrightarrow> fst x = start_of s (snd x) \<and> anchored s (snd x)"
    "sorted_wrt (\<lambda>x y. apart s (snd x) (snd y)) ps"
  shows "spans_from s p ps"
  using assms
proof (induction ps arbitrary: p)
  case (Cons x ps)
  obtain st e where x: "x = (st, e)" by (cases x)
  have st: "st = start_of s e" "anchored s e" using Cons.prems(4)[of x] x by auto
  let ?n = "st + length (ed_old_text e)"
  have occ: "occurs_at s (ed_old_text e) st" using st anchored_occurs by simp
  have "?n \<le> fst y" if "y \<in> set ps" for y
  proof -
    have y: "st \<le> fst y" "fst y = start_of s (snd y)" "anchored s (snd y)" "apart s e (snd y)"
      using Cons.prems that x by auto
    then show ?thesis using st by (cases "ed_old_text (snd y)") (auto simp: apart_def anchored_def)
  qed
  then have "spans_from s ?n ps"
    using Cons.prems occurs_at_length[OF occ] by (intro Cons.IH) auto
  then show ?case using Cons.prems(3)[of x] occ x by simp
qed simp

lemma insort_key_map_pair:
  "insort_key fst (f e, e) (map (\<lambda>x. (f x, x)) xs) = map (\<lambda>x. (f x, x)) (insort_key f e xs)"
  by (induction xs) auto

lemma located_sorted: "sort_key fst (located s es) = located s (sort_key (start_of s) es)"
  by (induction es) (auto simp: located_def insort_key_map_pair)

lemma set_located: "x \<in> set (located s es) \<longleftrightarrow> snd x \<in> set es \<and> fst x = start_of s (snd x)"
  by (cases x) (auto simp: located_def)

lemma map_snd_located: "map snd (located s es) = es"
  by (simp add: located_def comp_def)

lemma sorted_wrt_located:
  "sorted_wrt (\<lambda>x y. apart s (snd x) (snd y)) (located s es) = sorted_wrt (apart s) es"
  by (simp add: located_def sorted_wrt_map)

lemma exact_edits_spans:
  assumes "exact_edits s es"
  shows "spans_from s 0 (sort_key fst (located s es))"
proof (rule sorted_disjoint_spans)
  have ex: "exact_edits s (sort_key (start_of s) es)"
    by (rule exact_edits_mset[OF assms]) simp
  show "sorted_wrt (\<lambda>x y. apart s (snd x) (snd y)) (sort_key fst (located s es))"
    using ex by (simp add: located_sorted sorted_wrt_located exact_edits_def)
  show "fst x = start_of s (snd x) \<and> anchored s (snd x)" if "x \<in> set (sort_key fst (located s es))" for x
    using that ex by (auto simp: located_sorted set_located exact_edits_def)
qed auto

definition replaced_text :: "string \<Rightarrow> edit list \<Rightarrow> string" where
  "replaced_text s es = assemble s 0 (sort_key fst (located s es))"

lemma exact_edits_replaces:
  assumes "exact_edits s es"
  shows "replaces s es (replaced_text s es)"
proof -
  obtain g0 xs where "map fst xs = map snd (sort_key fst (located s es))"
      "s = weave ed_old_text g0 xs" "replaced_text s es = weave ed_new_text g0 xs"
    using spans_from_weave[OF exact_edits_spans[OF assms]] by (auto simp: replaced_text_def)
  moreover have "mset (map snd (sort_key fst (located s es))) = mset es"
    by (simp add: located_sorted map_snd_located)
  ultimately show ?thesis unfolding replaces_def by metis
qed

lemma fold_rev_sort_replace:
  "exact_edits s es \<Longrightarrow>
     fold replace_at (rev (sort_key fst (located s es))) s = replaced_text s es"
  using foldr_replace_assemble[OF exact_edits_spans, of s es]
  by (simp add: replaced_text_def foldr_conv_fold)

lemma review_candidate_text_Inr:
  "review_candidate_text s es = Inr t \<longleftrightarrow>
     validate_exact_edits es s = None \<and> t = replaced_text s es"
  using fold_rev_sort_replace[of s es] validate_exact_edits_None[of es s]
  by (cases "validate_exact_edits es s") (auto simp: review_candidate_text_def)

lemma materialize_edits_Inr:
  "materialize_edits s es = Inr t \<longleftrightarrow>
     (if es = [] then t = s else validate_exact_edits es s = None \<and> t = replaced_text s es)"
  using fold_rev_sort_replace[of s es] validate_exact_edits_None[of es s]
  by (cases "validate_exact_edits es s") (auto simp: materialize_edits_def)

subsection \<open>The engine's routine\<close>

definition engine_text_ok :: "edit \<Rightarrow> bool" where
  "engine_text_ok e \<longleftrightarrow> ed_old_text e \<noteq> [] \<and> ed_old_text e \<noteq> ed_new_text e
     \<and> CR \<notin> set (ed_old_text e) \<and> CR \<notin> set (ed_new_text e)
     \<and> NUL \<notin> set (ed_new_text e) \<and> valid_utf8 (ed_new_text e)"

lemma apply_check_loop_Inr:
  "apply_check_loop s i es = Inr spans \<longleftrightarrow>
     (\<forall>e \<in> set es. engine_text_ok e \<and> anchored s e) \<and> spans = located s es"
proof (induction es arbitrary: i spans)
  case (Cons e es)
  show ?case
  proof (cases "engine_text_ok e \<and> anchored s e")
    case False
    then show ?thesis
      by (auto simp: engine_text_ok_def anchored_iff split: option.splits sum.splits)
  next
    case True
    then obtain st where st: "unique_index s (ed_old_text e) = Some st"
      by (auto simp: anchored_iff)
    have "apply_check_loop s i (e # es) = (case apply_check_loop s (i + 1) es of
        Inl err \<Rightarrow> Inl err | Inr sp \<Rightarrow> Inr ((st, e) # sp))"
      using True st by (auto simp: engine_text_ok_def)
    then show ?thesis
      using True Cons.IH[of "i + 1"] start_of_unique[OF st]
      by (auto simp: located_def split: sum.splits)
  qed
qed (auto simp: located_def)

lemma sorted_apart_adjacent:
  assumes "sorted (map fst ps)" "\<And>x. x \<in> set ps \<Longrightarrow> fst x = start_of s (snd x) \<and> anchored s (snd x)"
  shows "\<not> adjacent_overlap ps \<longleftrightarrow> sorted_wrt (\<lambda>x y. apart s (snd x) (snd y)) ps"
  using assms
proof (induction ps rule: adjacent_overlap.induct)
  case (1 p q ps)
  have pq: "fst p \<le> fst q" and x: "\<And>x. x \<in> {p, q} \<union> set ps \<Longrightarrow> fst x = start_of s (snd x) \<and> anchored s (snd x)"
    and le: "\<And>y. y \<in> set ps \<Longrightarrow> fst q \<le> fst y" using 1 by auto
  have IH: "\<not> adjacent_overlap (q # ps) \<longleftrightarrow> sorted_wrt (\<lambda>x y. apart s (snd x) (snd y)) (q # ps)"
    using 1 by auto
  have q: "\<not> fst q < span_end p \<longleftrightarrow> apart s (snd p) (snd q)"
    using pq x[of p] x[of q]
    by (cases "ed_old_text (snd q)") (auto simp: apart_def anchored_def span_end_def)
  have rest: "apart s (snd p) (snd y)" if "apart s (snd p) (snd q)" "y \<in> set ps" for y
    using that le[of y] q x[of p] x[of y] by (auto simp: apart_def span_end_def)
  have "\<not> adjacent_overlap (p # q # ps) \<longleftrightarrow> apart s (snd p) (snd q) \<and> \<not> adjacent_overlap (q # ps)"
    using q by simp
  with IH rest show ?case by auto
qed auto

lemma sorted_wrt_apart_mset:
  assumes "\<forall>e \<in> set es. anchored s e" "mset es' = mset es" "sorted_wrt (apart s) es'"
  shows "sorted_wrt (apart s) es"
proof -
  have "set es' = set es" using assms(2) by (metis set_mset_mset)
  then have "exact_edits s es'" using assms by (simp add: exact_edits_def)
  then show ?thesis using exact_edits_mset[of s es' es] assms(2) by (simp add: exact_edits_def)
qed

lemma apply_edits_Inr:
  "apply_edits s es = Inr t \<longleftrightarrow>
     es \<noteq> [] \<and> (\<forall>e \<in> set es. engine_text_ok e) \<and> exact_edits s es \<and>
     t = replaced_text s es \<and> t \<noteq> s \<and> \<not> blank t"
proof (cases "es \<noteq> [] \<and> (\<forall>e \<in> set es. engine_text_ok e \<and> anchored s e)")
  case False
  have "\<nexists>spans. apply_check_loop s 0 es = Inr spans \<and> es \<noteq> []"
    using False apply_check_loop_Inr[of s 0 es] by blast
  then have "\<nexists>t. apply_edits s es = Inr t"
    by (auto simp: apply_edits_def split: sum.splits)
  then show ?thesis using False by (auto simp: exact_edits_def)
next
  case True
  let ?ps = "sort_key fst (located s es)"
  have loop: "apply_check_loop s 0 es = Inr (located s es)" using True apply_check_loop_Inr by blast
  have "\<not> adjacent_overlap ?ps \<longleftrightarrow> sorted_wrt (apart s) (sort_key (start_of s) es)"
    using sorted_apart_adjacent[of ?ps s, OF sorted_sort_key] True
    by (auto simp: located_sorted set_located sorted_wrt_located)
  also have "\<dots> \<longleftrightarrow> exact_edits s es"
    using True sorted_wrt_apart_mset[of es s "sort_key (start_of s) es"]
      exact_edits_mset[of s es "sort_key (start_of s) es"] by (auto simp: exact_edits_def)
  finally have ov: "\<not> adjacent_overlap ?ps \<longleftrightarrow> exact_edits s es" .
  have res: "foldr replace_at ?ps s = replaced_text s es" if "exact_edits s es"
    using foldr_replace_assemble[OF exact_edits_spans[OF that]] by (simp add: replaced_text_def)
  show ?thesis
  proof (cases "exact_edits s es")
    case True
    then show ?thesis using \<open>es \<noteq> [] \<and> _\<close> loop ov res by (auto simp: apply_edits_def Let_def)
  next
    case False
    then show ?thesis using \<open>es \<noteq> [] \<and> _\<close> loop ov by (auto simp: apply_edits_def Let_def)
  qed
qed

subsection \<open>The interface: an exact editor\<close>

text \<open>The specification determines the result: with unique anchors there is one layout.\<close>

lemma weave_assemble:
  assumes "s = pre @ weave ed_old_text g0 xs" "\<forall>e \<in> fst ` set xs. anchored s e"
  shows "assemble s (length pre) (located s (map fst xs)) = weave ed_new_text g0 xs \<and>
    sorted (map (start_of s) (map fst xs)) \<and> (\<forall>e \<in> fst ` set xs. length pre \<le> start_of s e)"
  using assms
proof (induction xs arbitrary: pre g0)
  case Nil
  then show ?case by (simp add: located_def weave_def)
next
  case (Cons x xs)
  obtain e g where x: "x = (e, g)" by (cases x)
  have s: "s = (pre @ g0) @ ed_old_text e @ weave ed_old_text g xs"
    using Cons.prems(1) by (simp add: x weave_def)
  then have "occurs_at s (ed_old_text e) (length (pre @ g0))" by (metis occurs_at_append)
  then have st: "start_of s e = length (pre @ g0)"
    using Cons.prems(2) x by (auto simp: anchored_def occurs_once_at_def)
  let ?pre = "pre @ g0 @ ed_old_text e"
  have IH: "assemble s (length ?pre) (located s (map fst xs)) = weave ed_new_text g xs \<and>
    sorted (map (start_of s) (map fst xs)) \<and> (\<forall>e \<in> fst ` set xs. length ?pre \<le> start_of s e)"
    using s Cons.prems(2) by (intro Cons.IH) auto
  have "slice (length pre) (length (pre @ g0)) s = g0"
    by (subst s) (simp add: slice_def)
  with IH st x show ?case
    by (fastforce simp: located_def weave_def add.assoc)
qed

lemma replaces_determined:
  assumes "exact_edits s es" "replaces s es t"
  shows "t = replaced_text s es"
proof -
  obtain g0 xs where xs: "mset (map fst xs) = mset es" "s = weave ed_old_text g0 xs"
      "t = weave ed_new_text g0 xs"
    using assms(2) unfolding replaces_def by blast
  have set: "set (map fst xs) = set es" using xs(1) by (metis set_mset_mset)
  have wa: "assemble s 0 (located s (map fst xs)) = t" "sorted (map (start_of s) (map fst xs))"
    using weave_assemble[of s "[]" g0 xs] xs set assms(1) by (auto simp: exact_edits_def)
  have "inj_on (start_of s) (set es)"
    using exact_edits_distinct(1)[OF assms(1)] by (simp add: distinct_map)
  then have "sort_key (start_of s) es = map fst xs"
    using xs(1) wa(2) by (intro sort_key_inj_key_eq) auto
  then show ?thesis using wa(1) by (simp add: replaced_text_def located_sorted)
qed

lemma assemble_keeps_slice:
  assumes "spans_from s p ps" "p \<le> i" "i \<le> j" "j \<le> length s"
    "\<forall>x \<in> set ps. span_end x \<le> i \<or> j \<le> fst x"
  shows "\<exists>a b. assemble s p ps = a @ slice i j s @ b"
  using assms
proof (induction ps arbitrary: p)
  case Nil
  then have "drop p s = slice p i s @ slice i j s @ drop j s" by (simp add: slice_append_drop)
  then show ?case by auto
next
  case (Cons x ps)
  obtain st e where x: "x = (st, e)" by (cases x)
  show ?case
  proof (cases "span_end x \<le> i")
    case True
    then have "\<exists>a b. assemble s (span_end x) ps = a @ slice i j s @ b"
      using Cons.prems by (intro Cons.IH) (auto simp: x span_end_def)
    then obtain a b where "assemble s (span_end x) ps = a @ slice i j s @ b" by blast
    then have "assemble s p (x # ps) = (slice p st s @ ed_new_text e @ a) @ slice i j s @ b"
      by (simp add: x span_end_def)
    then show ?thesis by blast
  next
    case False
    then have "j \<le> st" using Cons.prems(5) by (simp add: x)
    then have "slice p st s = slice p i s @ slice i j s @ slice j st s"
      using Cons.prems(2,3) by (simp add: slice_append_slice)
    then show ?thesis by (auto simp: x)
  qed
qed

lemma sum_list_map_mset:
  fixes f :: "'a \<Rightarrow> int"
  assumes "mset xs = mset ys"
  shows "sum_list (map f xs) = sum_list (map f ys)"
proof -
  have "sum_list (map f zs) = sum_mset (image_mset f (mset zs))" for zs
    by (simp flip: sum_mset_sum_list)
  then show ?thesis using assms by simp
qed

lemma sum_length_weave:
  "int (length (weave ed_new_text g0 xs)) - int (length (weave ed_old_text g0 xs)) =
     (\<Sum>e \<leftarrow> map fst xs. int (length (ed_new_text e)) - int (length (ed_old_text e)))"
  by (induction xs arbitrary: g0) (auto simp: weave_def split: prod.splits)

subsection \<open>Regions of the result\<close>

text \<open>
  Cutting the result at a position no edit straddles: \<open>assemble_to s p q ps\<close> is the part of the
  result between the positions \<open>p\<close> and \<open>q\<close> of the original.
\<close>

fun assemble_to :: "string \<Rightarrow> nat \<Rightarrow> nat \<Rightarrow> (nat \<times> edit) list \<Rightarrow> string" where
  "assemble_to s p q [] = slice p q s"
| "assemble_to s p q ((start, e) # ps) =
     slice p start s @ ed_new_text e @ assemble_to s (start + length (ed_old_text e)) q ps"

lemma spans_from_ge: "spans_from s p ps \<Longrightarrow> x \<in> set ps \<Longrightarrow> p \<le> fst x"
proof (induction ps arbitrary: p)
  case (Cons y ps)
  then show ?case by (cases y) fastforce
qed simp

lemma spans_from_weaken: "spans_from s p ps \<Longrightarrow> q \<le> length s \<Longrightarrow> \<forall>x \<in> set ps. q \<le> fst x \<Longrightarrow> spans_from s q ps"
  by (cases ps) auto

lemma assemble_cut:
  assumes "spans_from s p ps" "p \<le> q" "q \<le> length s"
    "\<forall>x \<in> set ps. ed_old_text (snd x) \<noteq> []"
    "\<forall>x \<in> set ps. span_end x \<le> q \<or> q \<le> fst x"
  obtains xs ys where "ps = xs @ ys" "\<forall>x \<in> set xs. span_end x \<le> q" "\<forall>y \<in> set ys. q \<le> fst y"
    "assemble s p ps = assemble_to s p q xs @ assemble s q ys"
    "spans_from s p xs" "spans_from s q ys"
proof -
  have "\<exists>xs ys. ps = xs @ ys \<and> (\<forall>x \<in> set xs. span_end x \<le> q) \<and> (\<forall>y \<in> set ys. q \<le> fst y) \<and>
    assemble s p ps = assemble_to s p q xs @ assemble s q ys \<and> spans_from s p xs \<and> spans_from s q ys"
    using assms
  proof (induction ps arbitrary: p)
    case Nil
    then show ?case
      by (intro exI[of _ "[]"]) (auto simp: slice_append_drop)
  next
    case (Cons x ps)
    obtain st e where x: "x = (st, e)" by (cases x)
    let ?n = "st + length (ed_old_text e)"
    from Cons.prems have pr: "p \<le> st" "occurs_at s (ed_old_text e) st" "spans_from s ?n ps"
      by (auto simp: x)
    show ?case
    proof (cases "span_end x \<le> q")
      case True
      then have n: "?n \<le> q" by (simp add: x span_end_def)
      from Cons.IH [OF pr(3) n Cons.prems(3)] Cons.prems(4,5) obtain xs ys where IH:
          "ps = xs @ ys" "\<forall>x \<in> set xs. span_end x \<le> q" "\<forall>y \<in> set ys. q \<le> fst y"
          "assemble s ?n ps = assemble_to s ?n q xs @ assemble s q ys"
          "spans_from s ?n xs" "spans_from s q ys"
        by auto
      with True pr show ?thesis
        by (intro exI[of _ "x # xs"] exI[of _ ys]) (simp add: x)
    next
      case False
      then have q: "q \<le> st" using Cons.prems(5) by (auto simp: x)
      have ge: "\<forall>y \<in> set (x # ps). q \<le> fst y"
        using spans_from_ge [OF pr(3)] q by (fastforce simp: x)
      have "slice p q s @ slice q st s = slice p st s"
        using Cons.prems(2) q by (simp add: slice_append_slice)
      then have "assemble s p (x # ps) = slice p q s @ assemble s q (x # ps)"
        by (simp add: x flip: append_assoc)
      moreover have "spans_from s q (x # ps)"
        by (rule spans_from_weaken [OF Cons.prems(1,3) ge])
      ultimately show ?thesis
        using Cons.prems(2,3) ge by (intro exI[of _ "[]"] exI[of _ "x # ps"]) simp
    qed
  qed
  then show ?thesis using that by blast
qed

lemma assemble_to_last:
  assumes "spans_from s p ps" "p < q" "q \<le> length s" "\<forall>x \<in> set ps. span_end x < q"
  shows "assemble_to s p q ps \<noteq> [] \<and> last (assemble_to s p q ps) = s ! (q - 1)"
  using assms
proof (induction ps arbitrary: p)
  case Nil
  then have "slice p q s = slice p (q - 1) s @ slice (q - 1) q s"
    by (subst slice_append_slice) auto
  moreover have "slice (q - 1) q s = [s ! (q - 1)]"
    using Nil Cons_nth_drop_Suc [of "q - 1" s, symmetric] by (simp add: slice_def)
  ultimately show ?case by simp
next
  case (Cons x ps)
  obtain st e where x: "x = (st, e)" by (cases x)
  with Cons show ?case by (auto simp: span_end_def)
qed

text \<open>
  The result around a region \<open>[i, j)\<close> that every other edit avoids: what precedes it, the region
  with the edits inside it, and what follows.
\<close>

lemma replaced_region:
  assumes ex: "exact_edits s es" and ij: "i \<le> j" "j \<le> length s"
    and clear: "\<forall>e \<in> set es. start_of s e + length (ed_old_text e) \<le> i \<or> j \<le> start_of s e \<or>
      i \<le> start_of s e \<and> start_of s e + length (ed_old_text e) \<le> j"
  obtains A M C where "replaced_text s es = A @ assemble_to s i j M @ C"
    "i = 0 \<longrightarrow> A = []" "j = length s \<longrightarrow> C = []"
    "0 < i \<and> (\<forall>e \<in> set es. start_of s e + length (ed_old_text e) \<noteq> i) \<longrightarrow>
       A \<noteq> [] \<and> last A = s ! (i - 1)"
    "distinct M" "\<forall>x \<in> set M. snd x \<in> set es \<and> fst x = start_of s (snd x)
       \<and> i \<le> fst x \<and> span_end x \<le> j"
    "\<forall>e \<in> set es. i \<le> start_of s e \<and> start_of s e + length (ed_old_text e) \<le> j \<longrightarrow>
       (start_of s e, e) \<in> set M"
proof -
  let ?ps = "sort_key fst (located s es)"
  have sp: "spans_from s 0 ?ps" by (rule exact_edits_spans [OF ex])
  have mem: "x \<in> set ?ps \<longleftrightarrow> snd x \<in> set es \<and> fst x = start_of s (snd x)" for x
    by (simp add: set_located)
  have ne: "\<forall>x \<in> set ?ps. ed_old_text (snd x) \<noteq> []"
    using ex mem unfolding exact_edits_def anchored_def by blast
  have width: "fst x < span_end x" if "x \<in> set ?ps" for x
    using ne that by (simp add: span_end_def)
  have cl: "span_end x \<le> i \<or> j \<le> fst x \<or> i \<le> fst x \<and> span_end x \<le> j" if "x \<in> set ?ps" for x
  proof -
    from that have "snd x \<in> set es" "fst x = start_of s (snd x)" using mem by blast+
    with clear show ?thesis by (simp add: span_end_def)
  qed
  have c1: "\<forall>x \<in> set ?ps. span_end x \<le> i \<or> i \<le> fst x" using cl ij by fastforce
  obtain L ys where L: "?ps = L @ ys" "\<forall>x \<in> set L. span_end x \<le> i" "\<forall>y \<in> set ys. i \<le> fst y"
      "assemble s 0 ?ps = assemble_to s 0 i L @ assemble s i ys" "spans_from s 0 L" "spans_from s i ys"
    by (rule assemble_cut [OF sp _ _ ne c1]) (use ij in auto)
  have ysub: "set ys \<subseteq> set ?ps" unfolding L(1) by simp
  then have ney: "\<forall>x \<in> set ys. ed_old_text (snd x) \<noteq> []" using ne by blast
  have "span_end x \<le> j \<or> j \<le> fst x" if "x \<in> set ys" for x
    using cl width L(3) that ysub by fastforce
  then obtain M R where R: "ys = M @ R" "\<forall>x \<in> set M. span_end x \<le> j" "\<forall>y \<in> set R. j \<le> fst y"
      "assemble s i ys = assemble_to s i j M @ assemble s j R" "spans_from s i M" "spans_from s j R"
    using assemble_cut [OF L(6) ij ney] by blast
  have all: "x \<in> set ?ps \<longleftrightarrow> x \<in> set L \<or> x \<in> set M \<or> x \<in> set R" for x
    unfolding L(1) R(1) by auto
  show ?thesis
  proof (rule that [of "assemble_to s 0 i L" M "assemble s j R"])
    show "replaced_text s es = assemble_to s 0 i L @ assemble_to s i j M @ assemble s j R"
      using L(4) R(4) by (simp add: replaced_text_def)
    show "i = 0 \<longrightarrow> assemble_to s 0 i L = []"
    proof
      assume that: "i = 0"
      have "L = []" using L(2) width all that by (cases L) fastforce+
      with that show "assemble_to s 0 i L = []" by simp
    qed
    show "j = length s \<longrightarrow> assemble s j R = []"
    proof
      assume that: "j = length s"
      have "x \<notin> set R" for x
      proof
        assume x: "x \<in> set R"
        then have "fst x = start_of s (snd x)" "snd x \<in> set es" using all mem by blast+
        then have "span_end x \<le> length s"
          using ex by (auto simp: exact_edits_def anchored_def occurs_once_at_def span_end_def
              dest: occurs_at_length)
        moreover have "j \<le> fst x" using R(3) x by blast
        ultimately show False using width [of x] that all x by fastforce
      qed
      then have "R = []" by (cases R) auto
      with that show "assemble s j R = []" by simp
    qed
    show "0 < i \<and> (\<forall>e \<in> set es. start_of s e + length (ed_old_text e) \<noteq> i) \<longrightarrow>
      assemble_to s 0 i L \<noteq> [] \<and> last (assemble_to s 0 i L) = s ! (i - 1)"
    proof
      assume pre: "0 < i \<and> (\<forall>e \<in> set es. start_of s e + length (ed_old_text e) \<noteq> i)"
      then have off: "\<forall>e \<in> set es. start_of s e + length (ed_old_text e) \<noteq> i" by auto
      have "span_end x \<noteq> i" if "x \<in> set L" for x
      proof -
        from that have "snd x \<in> set es" "fst x = start_of s (snd x)" using mem all by blast+
        with off show ?thesis by (simp add: span_end_def)
      qed
      then have "\<forall>x \<in> set L. span_end x < i" using L(2) by fastforce
      with pre ij show "assemble_to s 0 i L \<noteq> [] \<and> last (assemble_to s 0 i L) = s ! (i - 1)"
        using assemble_to_last [OF L(5), of i] by simp
    qed
    have "distinct es" using exact_edits_distinct(1) [OF ex] by (simp add: distinct_map)
    then have "distinct (map snd ?ps)"
      using map_snd_located [of s es] by (metis mset_eq_imp_distinct_iff mset_map mset_sort)
    then have "distinct ?ps" by (simp add: distinct_map)
    then show "distinct M" unfolding L(1) R(1) by simp
    show "\<forall>x \<in> set M. snd x \<in> set es \<and> fst x = start_of s (snd x) \<and> i \<le> fst x \<and> span_end x \<le> j"
      using all mem R(1,2) L(3) by (metis UnCI set_append)
    show "\<forall>e \<in> set es. i \<le> start_of s e \<and> start_of s e + length (ed_old_text e) \<le> j \<longrightarrow>
       (start_of s e, e) \<in> set M"
    proof (intro ballI impI)
      fix e assume e: "e \<in> set es" "i \<le> start_of s e \<and> start_of s e + length (ed_old_text e) \<le> j"
      then have x: "(start_of s e, e) \<in> set ?ps" unfolding mem by simp
      moreover have "(start_of s e, e) \<notin> set L" "(start_of s e, e) \<notin> set R"
        using bspec [OF L(2), of "(start_of s e, e)"] bspec [OF R(3), of "(start_of s e, e)"]
          width [OF x] e by (auto simp: span_end_def simp del: length_greater_0_conv)
      ultimately show "(start_of s e, e) \<in> set M" using all by blast
    qed
  qed
qed

subsection \<open>The contract of the three routines\<close>

text \<open>
  Every component that turns edits into text promises: when it accepts a nonempty list, the
  edits are exact and the result is their simultaneous replacement.
\<close>

locale exact_editor =
  fixes edit_text :: "string \<Rightarrow> edit list \<Rightarrow> ('e, string) outcome"
  assumes accepts_exact: "edit_text s es = Inr t \<Longrightarrow> es \<noteq> [] \<Longrightarrow> exact_edits s es"
    and produces: "edit_text s es = Inr t \<Longrightarrow> es \<noteq> [] \<Longrightarrow> replaces s es t"
begin

lemma result: "edit_text s es = Inr t \<Longrightarrow> es \<noteq> [] \<Longrightarrow> t = replaced_text s es"
  using accepts_exact produces replaces_determined by blast

lemma order_irrelevant:
  assumes "edit_text s es = Inr t" "edit_text s es' = Inr t'" "mset es' = mset es" "es \<noteq> []"
  shows "t' = t"
proof -
  have "es' \<noteq> []" using assms(3,4) by (metis mset_zero_iff)
  then have "replaces s es t'"
    using produces[OF assms(2)] assms(3) by (simp add: replaces_def)
  then show ?thesis
    using replaces_determined accepts_exact[OF assms(1,4)] result[OF assms(1,4)] by simp
qed

lemma length_change:
  assumes "edit_text s es = Inr t" "es \<noteq> []"
  shows "int (length t) - int (length s) =
     (\<Sum>e \<leftarrow> es. int (length (ed_new_text e)) - int (length (ed_old_text e)))"
proof -
  obtain g0 xs where xs: "mset (map fst xs) = mset es" "s = weave ed_old_text g0 xs"
      "t = weave ed_new_text g0 xs"
    using produces[OF assms] unfolding replaces_def by blast
  have "(\<Sum>e \<leftarrow> map fst xs. int (length (ed_new_text e)) - int (length (ed_old_text e))) =
      (\<Sum>e \<leftarrow> es. int (length (ed_new_text e)) - int (length (ed_old_text e)))"
    by (rule sum_list_map_mset[OF xs(1)])
  then show ?thesis using sum_length_weave[of g0 xs] xs by simp
qed

lemma untouched_slice:
  assumes "edit_text s es = Inr t" "es \<noteq> []" "i \<le> j" "j \<le> length s"
    "\<forall>e \<in> set es. start_of s e + length (ed_old_text e) \<le> i \<or> j \<le> start_of s e"
  shows "\<exists>a b. t = a @ slice i j s @ b"
proof -
  have "\<forall>x \<in> set (sort_key fst (located s es)). span_end x \<le> i \<or> j \<le> fst x"
    using assms(5) by (auto simp: set_located span_end_def)
  from assemble_keeps_slice[OF exact_edits_spans[OF accepts_exact[OF assms(1,2)]] _ assms(3,4) this]
  show ?thesis using result[OF assms(1,2)] by (simp add: replaced_text_def)
qed

end

locale exact_editor_pair =
  one: exact_editor edit_one + two: exact_editor edit_two
  for edit_one :: "string \<Rightarrow> edit list \<Rightarrow> ('e, string) outcome"
  and edit_two :: "string \<Rightarrow> edit list \<Rightarrow> ('f, string) outcome"
begin

lemma agree: "edit_one s es = Inr t \<Longrightarrow> edit_two s es = Inr u \<Longrightarrow> es \<noteq> [] \<Longrightarrow> t = u"
  using one.result two.result by blast

end

interpretation agent_editor: exact_editor materialize_edits
  by unfold_locales
    (auto simp: materialize_edits_Inr validate_exact_edits_None intro: exact_edits_replaces)

interpretation review_editor: exact_editor review_candidate_text
  by unfold_locales
    (auto simp: review_candidate_text_Inr validate_exact_edits_None intro: exact_edits_replaces)

interpretation engine_editor: exact_editor apply_edits
  by unfold_locales (auto simp: apply_edits_Inr intro: exact_edits_replaces)

interpretation agent_engine: exact_editor_pair materialize_edits apply_edits ..

interpretation review_engine: exact_editor_pair review_candidate_text apply_edits ..

subsection \<open>Properties\<close>

definition sample_edit :: "string \<Rightarrow> string \<Rightarrow> edit" where
  "sample_edit old new =
     \<lparr>ed_item_ids = [''item-1''], ed_old_text = old, ed_new_text = new, ed_attributions = []\<rparr>"

definition sample_edits :: "edit list" where
  "sample_edits = [sample_edit ''ghi'' ''y'', sample_edit ''ab'' ''xx;'']"

text \<open>
  C3. \<open>materializeEdits\<close> accepts a nonempty list exactly when every old text is nonempty, valid,
  different from its replacement, occurs once in the original, and no two occurrences overlap;
  the text it returns is then the simultaneous replacement of all of them, and the empty list
  returns the original.
\<close>

theorem materialize_edits_correct:
  "materialize_edits s es = Inr t \<longleftrightarrow>
     (if es = [] then t = s
      else (\<forall>e \<in> set es. edit_text_ok e) \<and> exact_edits s es \<and> replaces s es t)"
  using materialize_edits_Inr[of s es t] validate_exact_edits_None[of es s]
    exact_edits_replaces[of s es] replaces_determined[of s es t] by auto

theorem materialize_edits_correct_witness:
  "replaces ''ab-cd-ghi'' sample_edits ''xx;-cd-y''"
proof -
  have "materialize_edits ''ab-cd-ghi'' sample_edits = Inr ''xx;-cd-y''" by code_simp
  moreover have "sample_edits \<noteq> []" by (simp add: sample_edits_def)
  ultimately show ?thesis
    using materialize_edits_correct[of "''ab-cd-ghi''" sample_edits "''xx;-cd-y''"] by simp
qed

text \<open>
  C4. The engine adopts what the reviewer saw: for edits with valid old texts, \<open>applyEdits\<close>
  returns a text exactly when \<open>reviewCandidateText\<close> returns the same text, no edit contains a
  carriage return or inserts a NUL, and the result is neither the original nor blank.
\<close>

theorem apply_edits_iff_reviewed_text:
  assumes "\<forall>e \<in> set es. valid_utf8 (ed_old_text e)"
  shows "apply_edits s es = Inr t \<longleftrightarrow>
     review_candidate_text s es = Inr t \<and>
     (\<forall>e \<in> set es. CR \<notin> set (ed_old_text e @ ed_new_text e) \<and> NUL \<notin> set (ed_new_text e)) \<and>
     t \<noteq> s \<and> \<not> blank t"
  using assms
  by (auto simp: apply_edits_Inr review_candidate_text_Inr validate_exact_edits_None
      engine_text_ok_def edit_text_ok_def)

theorem apply_edits_iff_reviewed_text_witness:
  "apply_edits ''ab-cd-ghi'' sample_edits = Inr ''xx;-cd-y'' \<and>
   review_candidate_text ''ab-cd-ghi'' sample_edits = Inr ''xx;-cd-y''"
proof -
  have h: "\<forall>e \<in> set sample_edits. valid_utf8 (ed_old_text e)" by code_simp
  have a: "apply_edits ''ab-cd-ghi'' sample_edits = Inr ''xx;-cd-y''" by code_simp
  from apply_edits_iff_reviewed_text[OF h, of "''ab-cd-ghi''" "''xx;-cd-y''"] a show ?thesis
    by simp
qed

text \<open>
  The order in which edits are staged or submitted is irrelevant: a permutation of an
  accepted list is accepted and gives the same text.
\<close>

theorem materialize_edits_permutation:
  assumes "materialize_edits s es = Inr t" "mset es' = mset es"
  shows "materialize_edits s es' = Inr t"
proof (cases "es = []")
  case False
  then have ne: "es' \<noteq> []" using assms(2) by (metis mset_zero_iff)
  have "set es' = set es" using assms(2) by (metis set_mset_mset)
  then have "validate_exact_edits es' s = None"
    using assms False ne exact_edits_mset[of s es es']
    by (auto simp: materialize_edits_Inr validate_exact_edits_None)
  then obtain t' where "materialize_edits s es' = Inr t'"
    using ne by (auto simp: materialize_edits_def)
  then show ?thesis using agent_editor.order_irrelevant[OF assms(1) _ assms(2) False] by simp
qed (use assms in simp)

theorem materialize_edits_permutation_witness:
  "materialize_edits ''ab-cd-ghi'' (rev sample_edits) = Inr ''xx;-cd-y''"
proof (rule materialize_edits_permutation)
  show "materialize_edits ''ab-cd-ghi'' sample_edits = Inr ''xx;-cd-y''" by code_simp
qed simp

text \<open>
  What no edit touches is adopted unchanged: a region of the original that is disjoint from
  the occurrence of every edit appears verbatim in the engine's result, and the length of the
  result is the length of the original plus the sum of the edits' differences.
\<close>

theorem apply_edits_frame:
  assumes "apply_edits s es = Inr t" "i \<le> j" "j \<le> length s"
    "\<forall>e \<in> set es. start_of s e + length (ed_old_text e) \<le> i \<or> j \<le> start_of s e"
  shows "(\<exists>a b. t = a @ slice i j s @ b) \<and>
    int (length t) - int (length s) =
      (\<Sum>e \<leftarrow> es. int (length (ed_new_text e)) - int (length (ed_old_text e)))"
proof -
  have "es \<noteq> []" using assms(1) by (auto simp: apply_edits_Inr)
  from engine_editor.untouched_slice[OF assms(1) this assms(2-4)]
    engine_editor.length_change[OF assms(1) this]
  show ?thesis ..
qed

theorem apply_edits_frame_witness:
  "\<exists>a b. ''xx;-cd-y'' = a @ ''-cd-'' @ b"
proof -
  have h: "apply_edits ''ab-cd-ghi'' sample_edits = Inr ''xx;-cd-y''" by code_simp
  have d: "\<forall>e \<in> set sample_edits. start_of ''ab-cd-ghi'' e + length (ed_old_text e) \<le> 2
      \<or> 6 \<le> start_of ''ab-cd-ghi'' e" by code_simp
  have "slice 2 6 ''ab-cd-ghi'' = ''-cd-''" by (simp add: slice_def)
  with apply_edits_frame[OF h _ _ d] show ?thesis by simp
qed

end
