(* ===== verification/RepairPlan.thy ===== *)
theory RepairPlan
  imports Model
begin

section \<open>The repair plan: snapshots, incremental merges, candidates against the plan\<close>

text \<open>
  \<open>internal/agent/repair_plan.go\<close> and the merge of \<open>internal/agent/incremental.go\<close>. A plan
  records one decision per reviewed rule and the items to change; it is only ever replaced by a
  checked successor. Go's maps keyed by rule or item ID are HOL maps; where the code ranges over
  a map the model ranges over the list it was built from, so only the ID that an error message
  mentions could differ.
\<close>

datatype plan_error =
    PlanStale | PlanRevisionLimit | PlanNoDecisions | PlanCatalogInvalid | PlanCatalogDuplicate
  | PlanRequiredUnknown | PlanBadDecision | PlanDuplicateDecision rule_id | PlanBadDecisionKind rule_id
  | PlanBadItem | PlanDuplicateItem item_id | PlanBadRisk item_id | PlanItemRule item_id
  | PlanBadStatus item_id | PlanRuleWithoutItem rule_id | PlanUnknownRule rule_id
  | PlanUnreadRule rule_id | PlanMissingRequired | PlanDropsDecision rule_id
  | PlanReassigned item_id | PlanUnexplainedRemoval item_id | PlanRenamed item_id
  | PlanMergeDuplicate | PlanMergeRemoval | PlanMergeUnknown item_id

subsection \<open>Snapshots\<close>

definition valid_plan_text :: "string \<Rightarrow> bool" where
  "valid_plan_text v \<longleftrightarrow> \<not> blank v \<and> valid_utf8 v \<and> NUL \<notin> set v"

definition bound_plan :: "nat \<Rightarrow> nat \<Rightarrow> plan_error option" where
  "bound_plan decisions items = (if decisions = 0 then Some PlanNoDecisions else None)"

type_synonym decision_map = "rule_id \<rightharpoonup> plan_decision"
type_synonym item_map = "item_id \<rightharpoonup> plan_item"

fun snapshot_decisions ::
  "plan_decision list \<Rightarrow> decision_map \<Rightarrow> (plan_error, decision_map) outcome" where
  "snapshot_decisions [] m = Inr m"
| "snapshot_decisions (d # ds) m =
     (if \<not> valid_rule_id (pd_rule_id d) \<or> \<not> valid_plan_text (pd_reason d) then Inl PlanBadDecision
      else if m (pd_rule_id d) \<noteq> None then Inl (PlanDuplicateDecision (pd_rule_id d))
      else (case pd_decision d of
              D_other _ \<Rightarrow> Inl (PlanBadDecisionKind (pd_rule_id d))
            | _ \<Rightarrow> snapshot_decisions ds (m(pd_rule_id d \<mapsto> d))))"

definition item_rule_ok :: "decision_map \<Rightarrow> plan_item \<Rightarrow> bool" where
  "item_rule_ok decisions it =
     (case decisions (pi_rule_id it) of
        None \<Rightarrow> False
      | Some d \<Rightarrow> pd_decision d = D_modify \<or> pd_decision d = D_blocked \<and> pi_status it = S_blocked)"

definition item_text_ok :: "plan_item \<Rightarrow> bool" where
  "item_text_ok it \<longleftrightarrow> valid_rule_id (pi_id it) \<and> length (pi_id it) \<le> 64
     \<and> valid_plan_text (pi_location it) \<and> valid_plan_text (pi_change it)
     \<and> valid_plan_text (pi_expected it)"

definition item_notes_ok :: "plan_item \<Rightarrow> bool" where
  "item_notes_ok it \<longleftrightarrow> (pi_risk it \<noteq> [] \<longrightarrow> valid_plan_text (pi_risk it))
     \<and> (pi_hold_reason it \<noteq> [] \<longrightarrow> valid_plan_text (pi_hold_reason it))"

fun snapshot_items ::
  "decision_map \<Rightarrow> plan_item list \<Rightarrow> item_map \<Rightarrow> (rule_id \<Rightarrow> nat) \<Rightarrow>
     (plan_error, item_map \<times> (rule_id \<Rightarrow> nat)) outcome" where
  "snapshot_items decisions [] m counts = Inr (m, counts)"
| "snapshot_items decisions (it # its) m counts =
     (if \<not> item_text_ok it then Inl PlanBadItem
      else if m (pi_id it) \<noteq> None then Inl (PlanDuplicateItem (pi_id it))
      else if \<not> item_notes_ok it then Inl (PlanBadRisk (pi_id it))
      else if \<not> item_rule_ok decisions it then Inl (PlanItemRule (pi_id it))
      else (case pi_status it of
              S_other _ \<Rightarrow> Inl (PlanBadStatus (pi_id it))
            | _ \<Rightarrow> snapshot_items decisions its (m(pi_id it \<mapsto> it))
                    (counts(pi_rule_id it := Suc (counts (pi_rule_id it))))))"

definition validate_plan_snapshot ::
  "repair_plan \<Rightarrow> (plan_error, decision_map \<times> item_map) outcome" where
  "validate_plan_snapshot plan =
     (case bound_plan (length (rp_decisions plan)) (length (rp_items plan)) of
        Some e \<Rightarrow> Inl e
      | None \<Rightarrow>
     (case snapshot_decisions (rp_decisions plan) Map.empty of
        Inl e \<Rightarrow> Inl e
      | Inr decisions \<Rightarrow>
     (case snapshot_items decisions (rp_items plan) Map.empty (\<lambda>_. 0) of
        Inl e \<Rightarrow> Inl e
      | Inr (items, counts) \<Rightarrow>
          (case find (\<lambda>d. pd_decision d = D_modify \<and> counts (pd_rule_id d) = 0) (rp_decisions plan) of
             Some d \<Rightarrow> Inl (PlanRuleWithoutItem (pd_rule_id d))
           | None \<Rightarrow> Inr (decisions, items)))))"

subsection \<open>Full updates\<close>

definition max_int :: int where "max_int = 2 ^ 63 - 1"

text \<open>The catalog loop: valid, distinct rule IDs; the map of rules; the rules always reviewed.\<close>

fun catalog_rules :: "rule list \<Rightarrow> (rule_id \<rightharpoonup> rule) \<Rightarrow> (plan_error, rule_id \<rightharpoonup> rule) outcome" where
  "catalog_rules [] m = Inr m"
| "catalog_rules (r # rs) m =
     (if \<not> valid_rule_id (ru_id r) then Inl PlanCatalogInvalid
      else if m (ru_id r) \<noteq> None then Inl PlanCatalogDuplicate
      else catalog_rules rs (m(ru_id r \<mapsto> r)))"

definition trim_decision :: "plan_decision \<Rightarrow> plan_decision" where
  "trim_decision d = d\<lparr>pd_reason := trim_space (pd_reason d)\<rparr>"

definition trim_item :: "plan_item \<Rightarrow> plan_item" where
  "trim_item it = it\<lparr>pi_location := trim_space (pi_location it), pi_risk := trim_space (pi_risk it),
     pi_change := trim_space (pi_change it), pi_expected := trim_space (pi_expected it),
     pi_hold_reason := trim_space (pi_hold_reason it)\<rparr>"

fun check_decision_reads ::
  "(rule_id \<rightharpoonup> rule) \<Rightarrow> rule_id set \<Rightarrow> plan_decision list \<Rightarrow> plan_error option" where
  "check_decision_reads rules read [] = None"
| "check_decision_reads rules read (d # ds) =
     (case rules (pd_rule_id d) of
        None \<Rightarrow> Some (PlanUnknownRule (pd_rule_id d))
      | Some r \<Rightarrow>
          if \<not> ru_always r \<and> ru_id r \<notin> read then Some (PlanUnreadRule (ru_id r))
          else check_decision_reads rules read ds)"

text \<open>A missing map entry reads as the zero value, whose reason is the empty string.\<close>

definition reason_of :: "decision_map \<Rightarrow> rule_id \<Rightarrow> string" where
  "reason_of m rid = (case m rid of None \<Rightarrow> [] | Some d \<Rightarrow> pd_reason d)"

fun retain_decisions ::
  "decision_map \<Rightarrow> plan_decision list \<Rightarrow> decision_map \<Rightarrow> (plan_error, decision_map) outcome" where
  "retain_decisions decisions [] old = Inr old"
| "retain_decisions decisions (p # ps) old =
     (if decisions (pd_rule_id p) = None then Inl (PlanDropsDecision (pd_rule_id p))
      else retain_decisions decisions ps (old(pd_rule_id p \<mapsto> p)))"

fun retain_items ::
  "decision_map \<Rightarrow> item_map \<Rightarrow> decision_map \<Rightarrow> plan_item list \<Rightarrow> plan_item list \<Rightarrow> plan_error option" where
  "retain_items decisions items old new_items [] = None"
| "retain_items decisions items old new_items (p # ps) =
     (case items (pi_id p) of
        Some it \<Rightarrow>
          if pi_rule_id it \<noteq> pi_rule_id p then Some (PlanReassigned (pi_id p))
          else retain_items decisions items old new_items ps
      | None \<Rightarrow>
          if reason_of decisions (pi_rule_id p) = trim_space (reason_of old (pi_rule_id p))
          then Some (PlanUnexplainedRemoval (pi_id p))
          else if list_ex (\<lambda>it. pi_rule_id it = pi_rule_id p \<and>
                    pi_location it = trim_space (pi_location p) \<and>
                    pi_change it = trim_space (pi_change p)) new_items
          then Some (PlanRenamed (pi_id p))
          else retain_items decisions items old new_items ps)"

definition update_repair_plan ::
  "repair_plan \<Rightarrow> plan_update \<Rightarrow> rule list \<Rightarrow> rule_id list \<Rightarrow> rule_id list \<Rightarrow>
     (plan_error, repair_plan) outcome" where
  "update_repair_plan current update catalog required read_rule_ids =
     (if rp_revision current < 0 \<or> pu_expected_revision update \<noteq> rp_revision current then Inl PlanStale
      else if rp_revision current = max_int then Inl PlanRevisionLimit
      else case bound_plan (length (pu_decisions update)) (length (pu_items update)) of
        Some e \<Rightarrow> Inl e
      | None \<Rightarrow>
     (case catalog_rules catalog Map.empty of
        Inl e \<Rightarrow> Inl e
      | Inr rules \<Rightarrow>
          if list_ex (\<lambda>rid. rules rid = None) required then Inl PlanRequiredUnknown
          else
            let must_review = map ru_id (filter ru_always catalog) @ required;
                plan = \<lparr>rp_revision = rp_revision current + 1,
                        rp_decisions = map trim_decision (pu_decisions update),
                        rp_items = map trim_item (pu_items update)\<rparr> in
     (case validate_plan_snapshot plan of
        Inl e \<Rightarrow> Inl e
      | Inr (decisions, items) \<Rightarrow>
     (case check_decision_reads rules (set read_rule_ids) (rp_decisions plan) of
        Some e \<Rightarrow> Inl e
      | None \<Rightarrow>
          if list_ex (\<lambda>rid. decisions rid = None) must_review then Inl PlanMissingRequired
          else
     (case retain_decisions decisions (rp_decisions current) Map.empty of
        Inl e \<Rightarrow> Inl e
      | Inr old \<Rightarrow>
     (case retain_items decisions items old (rp_items plan) (rp_items current) of
        Some e \<Rightarrow> Inl e
      | None \<Rightarrow> Inr plan))))))"

subsection \<open>Incremental merges\<close>

fun merge_entries ::
  "('a \<Rightarrow> string) \<Rightarrow> 'a list \<Rightarrow> string set \<Rightarrow> 'a list \<Rightarrow> (plan_error, 'a list \<times> string set) outcome" where
  "merge_entries key [] seen merged = Inr (merged, seen)"
| "merge_entries key (x # xs) seen merged =
     (if key x \<in> seen then Inl PlanMergeDuplicate
      else merge_entries key xs (insert (key x) seen) (upsert_key key x merged))"

fun merge_removals ::
  "string list \<Rightarrow> string set \<Rightarrow> string set \<Rightarrow> plan_item list \<Rightarrow> (plan_error, plan_item list) outcome" where
  "merge_removals [] seen removed merged = Inr merged"
| "merge_removals (iid # iids) seen removed merged =
     (if iid \<in> seen \<or> iid \<in> removed then Inl PlanMergeRemoval
      else (case remove_key pi_id iid merged of
              None \<Rightarrow> Inl (PlanMergeUnknown iid)
            | Some rest \<Rightarrow> merge_removals iids seen (insert iid removed) rest))"

definition merge_repair_plan ::
  "repair_plan \<Rightarrow> plan_update \<Rightarrow> rule list \<Rightarrow> rule_id list \<Rightarrow> (plan_error, repair_plan) outcome" where
  "merge_repair_plan current update catalog read_ids =
     (case merge_entries pd_rule_id (pu_decisions update) {} (rp_decisions current) of
        Inl e \<Rightarrow> Inl e
      | Inr (decisions, _) \<Rightarrow>
     (case merge_entries pi_id (pu_items update) {} (rp_items current) of
        Inl e \<Rightarrow> Inl e
      | Inr (items0, seen) \<Rightarrow>
     (case merge_removals (pu_remove_item_ids update) seen {} items0 of
        Inl e \<Rightarrow> Inl e
      | Inr items \<Rightarrow>
          update_repair_plan current
            \<lparr>pu_expected_revision = pu_expected_revision update, pu_decisions = decisions,
             pu_items = items, pu_remove_item_ids = []\<rparr>
            (map (\<lambda>r. r\<lparr>ru_always := False\<rparr>) catalog) []
            (read_ids @ map ru_id (filter ru_always catalog)))))"

subsection \<open>Well-formed plans\<close>

definition known_decision :: "decision_kind \<Rightarrow> bool" where
  "known_decision k \<longleftrightarrow> k = D_modify \<or> k = D_no_change \<or> k = D_blocked"

definition known_status :: "item_status \<Rightarrow> bool" where
  "known_status k \<longleftrightarrow> k = S_pending \<or> k = S_proposed \<or> k = S_blocked"

definition decisions_of :: "repair_plan \<Rightarrow> decision_map" where
  "decisions_of plan = (\<lambda>k. find_key pd_rule_id k (rp_decisions plan))"

definition items_of :: "repair_plan \<Rightarrow> item_map" where
  "items_of plan = (\<lambda>k. find_key pi_id k (rp_items plan))"

definition wf_plan :: "repair_plan \<Rightarrow> bool" where
  "wf_plan plan \<longleftrightarrow>
     rp_decisions plan \<noteq> [] \<and>
     (\<forall>d \<in> set (rp_decisions plan). valid_rule_id (pd_rule_id d) \<and> valid_plan_text (pd_reason d)
        \<and> known_decision (pd_decision d)) \<and>
     distinct (map pd_rule_id (rp_decisions plan)) \<and>
     (\<forall>it \<in> set (rp_items plan). item_text_ok it \<and> item_notes_ok it \<and> known_status (pi_status it)
        \<and> item_rule_ok (decisions_of plan) it) \<and>
     distinct (map pi_id (rp_items plan)) \<and>
     (\<forall>d \<in> set (rp_decisions plan). pd_decision d = D_modify \<longrightarrow>
        (\<exists>it \<in> set (rp_items plan). pi_rule_id it = pd_rule_id d))"

lemma snapshot_decisions_Inr:
  "snapshot_decisions ds m = Inr m' \<longleftrightarrow>
     (\<forall>d \<in> set ds. valid_rule_id (pd_rule_id d) \<and> valid_plan_text (pd_reason d)
        \<and> known_decision (pd_decision d) \<and> m (pd_rule_id d) = None) \<and>
     distinct (map pd_rule_id ds) \<and>
     m' = m ++ (\<lambda>k. find_key pd_rule_id k ds)"
proof (induction ds arbitrary: m)
  case (Cons d ds)
  show ?case
  proof (cases "valid_rule_id (pd_rule_id d) \<and> valid_plan_text (pd_reason d)
      \<and> known_decision (pd_decision d) \<and> m (pd_rule_id d) = None")
    case False
    then show ?thesis by (auto simp: known_decision_def split: decision_kind.splits)
  next
    case True
    then have step: "snapshot_decisions (d # ds) m = snapshot_decisions ds (m(pd_rule_id d \<mapsto> d))"
      by (auto simp: known_decision_def split: decision_kind.splits)
    show ?thesis
    proof (cases "pd_rule_id d \<in> pd_rule_id ` set ds")
      case True
      then show ?thesis unfolding step Cons.IH by (auto simp: image_iff)
    next
      case False
      then have "\<forall>e \<in> set ds. pd_rule_id e \<noteq> pd_rule_id d" by (metis image_eqI)
      with True False show ?thesis
        unfolding step Cons.IH map_add_find_key [OF False] by (auto simp del: find_key_Cons)
    qed
  qed
qed (auto simp: map_add_def)

lemma snapshot_items_Inr:
  "snapshot_items ds its m c = Inr (m', c') \<longleftrightarrow>
     (\<forall>it \<in> set its. item_text_ok it \<and> item_notes_ok it \<and> known_status (pi_status it)
        \<and> item_rule_ok ds it \<and> m (pi_id it) = None) \<and>
     distinct (map pi_id its) \<and>
     m' = m ++ (\<lambda>k. find_key pi_id k its) \<and>
     c' = (\<lambda>r. c r + length (filter (\<lambda>it. pi_rule_id it = r) its))"
proof (induction its arbitrary: m c)
  case (Cons it its)
  show ?case
  proof (cases "item_text_ok it \<and> item_notes_ok it \<and> known_status (pi_status it)
        \<and> item_rule_ok ds it \<and> m (pi_id it) = None")
    case False
    then show ?thesis by (auto simp: known_status_def split: item_status.splits)
  next
    case True
    let ?c = "c(pi_rule_id it := Suc (c (pi_rule_id it)))"
    have step: "snapshot_items ds (it # its) m c = snapshot_items ds its (m(pi_id it \<mapsto> it)) ?c"
      using True by (auto simp: known_status_def split: item_status.splits)
    have count: "(\<lambda>r. ?c r + length (filter (\<lambda>x. pi_rule_id x = r) its)) =
        (\<lambda>r. c r + length (filter (\<lambda>x. pi_rule_id x = r) (it # its)))"
      by auto
    show ?thesis
    proof (cases "pi_id it \<in> pi_id ` set its")
      case True
      then show ?thesis unfolding step Cons.IH by (auto simp: image_iff)
    next
      case False
      then have "\<forall>e \<in> set its. pi_id e \<noteq> pi_id it" by (metis image_eqI)
      with True False show ?thesis
        unfolding step Cons.IH count map_add_find_key [OF False] by (auto simp del: find_key_Cons)
    qed
  qed
qed (auto simp: map_add_def)

lemma validate_plan_snapshot_Inr:
  "validate_plan_snapshot plan = Inr (dm, im) \<longleftrightarrow>
     wf_plan plan \<and> dm = decisions_of plan \<and> im = items_of plan"
proof -
  have fd: "find (\<lambda>d. pd_decision d = D_modify \<and>
        length (filter (\<lambda>it. pi_rule_id it = pd_rule_id d) (rp_items plan)) = 0) (rp_decisions plan) = None
      \<longleftrightarrow> (\<forall>d \<in> set (rp_decisions plan). pd_decision d = D_modify \<longrightarrow>
        (\<exists>it \<in> set (rp_items plan). pi_rule_id it = pd_rule_id d))"
    by (auto simp: find_None_iff filter_empty_conv)
  show ?thesis
  proof (cases "\<exists>m. snapshot_decisions (rp_decisions plan) Map.empty = Inr m")
    case False
    then show ?thesis
      by (auto simp: validate_plan_snapshot_def wf_plan_def snapshot_decisions_Inr bound_plan_def
          split: sum.splits option.splits if_splits)
  next
    case True
    then have sd: "snapshot_decisions (rp_decisions plan) Map.empty = Inr (decisions_of plan)"
      by (auto simp: snapshot_decisions_Inr decisions_of_def)
    have d: "\<forall>d \<in> set (rp_decisions plan). valid_rule_id (pd_rule_id d)
        \<and> valid_plan_text (pd_reason d) \<and> known_decision (pd_decision d)"
        "distinct (map pd_rule_id (rp_decisions plan))"
      using sd by (simp_all add: snapshot_decisions_Inr)
    show ?thesis
    proof (cases "\<exists>m c. snapshot_items (decisions_of plan) (rp_items plan) Map.empty (\<lambda>_. 0) = Inr (m, c)")
      case False
      then show ?thesis
        by (auto simp: validate_plan_snapshot_def wf_plan_def snapshot_items_Inr sd bound_plan_def
            split: sum.splits option.splits if_splits)
    next
      case True
      then have si: "snapshot_items (decisions_of plan) (rp_items plan) Map.empty (\<lambda>_. 0) =
          Inr (items_of plan, \<lambda>r. length (filter (\<lambda>it. pi_rule_id it = r) (rp_items plan)))"
        by (auto simp: snapshot_items_Inr items_of_def)
      have i: "\<forall>it \<in> set (rp_items plan). item_text_ok it \<and> item_notes_ok it
          \<and> known_status (pi_status it) \<and> item_rule_ok (decisions_of plan) it"
          "distinct (map pi_id (rp_items plan))"
        using si by (simp_all add: snapshot_items_Inr)
      show ?thesis
        unfolding validate_plan_snapshot_def wf_plan_def bound_plan_def sd fd [symmetric]
        using d i by (auto simp: si split: option.splits)
    qed
  qed
qed

subsection \<open>What an update accepts\<close>

lemma catalog_rules_Inr:
  "catalog_rules rs m = Inr m' \<longleftrightarrow>
     (\<forall>r \<in> set rs. valid_rule_id (ru_id r) \<and> m (ru_id r) = None) \<and>
     distinct (map ru_id rs) \<and> m' = m ++ (\<lambda>k. find_key ru_id k rs)"
proof (induction rs arbitrary: m)
  case (Cons r rs)
  show ?case
  proof (cases "valid_rule_id (ru_id r) \<and> m (ru_id r) = None")
    case True
    then have step: "catalog_rules (r # rs) m = catalog_rules rs (m(ru_id r \<mapsto> r))" by simp
    show ?thesis
    proof (cases "ru_id r \<in> ru_id ` set rs")
      case True
      then show ?thesis unfolding step Cons.IH by (auto simp: image_iff)
    next
      case False
      then have "\<forall>e \<in> set rs. ru_id e \<noteq> ru_id r" by (metis image_eqI)
      with True False show ?thesis
        unfolding step Cons.IH map_add_find_key [OF False] by (auto simp del: find_key_Cons)
    qed
  qed auto
qed (auto simp: map_add_def)

lemma check_decision_reads_None:
  "check_decision_reads rules read ds = None \<longleftrightarrow>
     (\<forall>d \<in> set ds. \<exists>r. rules (pd_rule_id d) = Some r \<and> (ru_always r \<or> ru_id r \<in> read))"
  by (induction ds) (auto split: option.splits)

lemma retain_decisions_Inr:
  assumes "distinct (map pd_rule_id ps)"
  shows "retain_decisions ds ps old = Inr old' \<longleftrightarrow>
     (\<forall>p \<in> set ps. ds (pd_rule_id p) \<noteq> None) \<and> old' = old ++ (\<lambda>k. find_key pd_rule_id k ps)"
  using assms
proof (induction ps arbitrary: old)
  case (Cons p ps)
  have "find_key pd_rule_id (pd_rule_id p) ps = None"
    using Cons.prems by (simp add: find_key_None_iff)
  then have "old(pd_rule_id p \<mapsto> p) ++ (\<lambda>k. find_key pd_rule_id k ps) =
      old ++ (\<lambda>k. find_key pd_rule_id k (p # ps))"
    by (auto simp: map_add_def fun_eq_iff split: option.splits)
  with Cons show ?case by (simp del: find_key_Cons)
qed (auto simp: map_add_def)

text \<open>An item may leave the plan only when its rule's reason changed and no equal change replaces it.\<close>

definition removal_explained :: "repair_plan \<Rightarrow> repair_plan \<Rightarrow> plan_item \<Rightarrow> bool" where
  "removal_explained current plan p \<longleftrightarrow>
     reason_of (decisions_of plan) (pi_rule_id p) \<noteq>
       trim_space (reason_of (decisions_of current) (pi_rule_id p)) \<and>
     (\<forall>it \<in> set (rp_items plan). \<not> (pi_rule_id it = pi_rule_id p \<and>
        pi_location it = trim_space (pi_location p) \<and> pi_change it = trim_space (pi_change p)))"

definition item_retained :: "repair_plan \<Rightarrow> repair_plan \<Rightarrow> plan_item \<Rightarrow> bool" where
  "item_retained current plan p =
     (case items_of plan (pi_id p) of
        Some it \<Rightarrow> pi_rule_id it = pi_rule_id p
      | None \<Rightarrow> removal_explained current plan p)"

lemma retain_items_None:
  "retain_items (decisions_of plan) (items_of plan) (decisions_of current) (rp_items plan) ps = None
     \<longleftrightarrow> (\<forall>p \<in> set ps. item_retained current plan p)"
  by (induction ps)
    (auto simp: item_retained_def removal_explained_def list_ex_iff split: option.splits)

definition updated_plan :: "repair_plan \<Rightarrow> plan_update \<Rightarrow> repair_plan" where
  "updated_plan current update =
     \<lparr>rp_revision = rp_revision current + 1,
      rp_decisions = map trim_decision (pu_decisions update),
      rp_items = map trim_item (pu_items update)\<rparr>"

definition decision_admitted :: "rule list \<Rightarrow> rule_id list \<Rightarrow> plan_decision \<Rightarrow> bool" where
  "decision_admitted catalog read d \<longleftrightarrow>
     (\<exists>r \<in> set catalog. ru_id r = pd_rule_id d \<and> (ru_always r \<or> ru_id r \<in> set read))"

definition valid_catalog :: "rule list \<Rightarrow> bool" where
  "valid_catalog catalog \<longleftrightarrow>
     (\<forall>r \<in> set catalog. valid_rule_id (ru_id r)) \<and> distinct (map ru_id catalog)"

definition decided :: "repair_plan \<Rightarrow> rule_id set" where
  "decided plan = pd_rule_id ` set (rp_decisions plan)"

lemma decided_iff: "decisions_of plan rid = None \<longleftrightarrow> rid \<notin> decided plan"
  by (simp add: decisions_of_def decided_def find_key_None_iff)

lemma find_rule_iff:
  "distinct (map ru_id catalog) \<Longrightarrow>
     find_key ru_id k catalog = Some r \<longleftrightarrow> r \<in> set catalog \<and> ru_id r = k"
  using find_key_SomeD find_key_eq_Some by metis

definition update_accepts ::
  "repair_plan \<Rightarrow> plan_update \<Rightarrow> rule list \<Rightarrow> rule_id list \<Rightarrow> rule_id list \<Rightarrow> bool" where
  "update_accepts current update catalog required read_ids \<longleftrightarrow>
     (let plan = updated_plan current update in
      0 \<le> rp_revision current \<and> pu_expected_revision update = rp_revision current \<and>
      rp_revision current \<noteq> max_int \<and> valid_catalog catalog \<and>
      set required \<subseteq> ru_id ` set catalog \<and> wf_plan plan \<and>
      (\<forall>d \<in> set (rp_decisions plan). decision_admitted catalog read_ids d) \<and>
      (\<forall>r \<in> set catalog. ru_always r \<longrightarrow> ru_id r \<in> decided plan) \<and>
      set required \<subseteq> decided plan \<and> decided current \<subseteq> decided plan \<and>
      (\<forall>p \<in> set (rp_items current). item_retained current plan p))"

lemma update_repair_plan_Inr:
  assumes "distinct (map pd_rule_id (rp_decisions current))"
  shows "update_repair_plan current update catalog required read_ids = Inr plan \<longleftrightarrow>
     update_accepts current update catalog required read_ids \<and> plan = updated_plan current update"
proof -
  let ?plan = "updated_plan current update"
  have rules: "catalog_rules catalog Map.empty = Inr m \<longleftrightarrow>
      valid_catalog catalog \<and> m = (\<lambda>k. find_key ru_id k catalog)" for m
    by (auto simp: catalog_rules_Inr valid_catalog_def)
  have reads: "check_decision_reads (\<lambda>k. find_key ru_id k catalog) (set read_ids) (rp_decisions ?plan) = None
      \<longleftrightarrow> (\<forall>d \<in> set (rp_decisions ?plan). decision_admitted catalog read_ids d)" if "valid_catalog catalog"
    using that unfolding check_decision_reads_None decision_admitted_def
    by (auto simp: find_rule_iff valid_catalog_def)
  have required: "list_ex (\<lambda>rid. find_key ru_id rid catalog = None) required \<longleftrightarrow>
      \<not> set required \<subseteq> ru_id ` set catalog"
    by (auto simp: list_ex_iff find_key_None_iff)
  have missing: "list_ex (\<lambda>rid. decisions_of ?plan rid = None)
        (map ru_id (filter ru_always catalog) @ required) \<longleftrightarrow>
      \<not> ((\<forall>r \<in> set catalog. ru_always r \<longrightarrow> ru_id r \<in> decided ?plan) \<and> set required \<subseteq> decided ?plan)"
    by (auto simp: list_ex_iff decided_iff)
  have kept: "retain_decisions (decisions_of ?plan) (rp_decisions current) Map.empty = Inr m \<longleftrightarrow>
      decided current \<subseteq> decided ?plan \<and> m = decisions_of current" for m
    unfolding retain_decisions_Inr [OF assms] decided_iff
    by (auto simp: decisions_of_def decided_def)
  note items = retain_items_None [of ?plan current "rp_items current"]
  have snap: "validate_plan_snapshot ?plan = Inr s \<longleftrightarrow>
      wf_plan ?plan \<and> s = (decisions_of ?plan, items_of ?plan)" for s
    using validate_plan_snapshot_Inr [of ?plan "fst s" "snd s"] by (cases s) auto
  have bound: "wf_plan ?plan \<Longrightarrow> bound_plan (length (pu_decisions update)) n = None" for n
    by (auto simp: wf_plan_def bound_plan_def updated_plan_def)
  have "update_repair_plan current update catalog required read_ids =
     (if rp_revision current < 0 \<or> pu_expected_revision update \<noteq> rp_revision current then Inl PlanStale
      else if rp_revision current = max_int then Inl PlanRevisionLimit
      else case bound_plan (length (pu_decisions update)) (length (pu_items update)) of
        Some e \<Rightarrow> Inl e
      | None \<Rightarrow>
     (case catalog_rules catalog Map.empty of
        Inl e \<Rightarrow> Inl e
      | Inr rules \<Rightarrow>
          if list_ex (\<lambda>rid. rules rid = None) required then Inl PlanRequiredUnknown
          else
     (case validate_plan_snapshot ?plan of
        Inl e \<Rightarrow> Inl e
      | Inr (decisions, items) \<Rightarrow>
     (case check_decision_reads rules (set read_ids) (rp_decisions ?plan) of
        Some e \<Rightarrow> Inl e
      | None \<Rightarrow>
          if list_ex (\<lambda>rid. decisions rid = None) (map ru_id (filter ru_always catalog) @ required)
          then Inl PlanMissingRequired
          else
     (case retain_decisions decisions (rp_decisions current) Map.empty of
        Inl e \<Rightarrow> Inl e
      | Inr old \<Rightarrow>
     (case retain_items decisions items old (rp_items ?plan) (rp_items current) of
        Some e \<Rightarrow> Inl e
      | None \<Rightarrow> Inr ?plan))))))"
    by (simp only: update_repair_plan_def updated_plan_def Let_def repair_plan.simps)
  note form = this
  show ?thesis
  proof (cases "valid_catalog catalog \<and> wf_plan ?plan")
    case False
    then show ?thesis
      unfolding form update_accepts_def Let_def
      by (auto simp: rules snap split: sum.splits option.splits if_splits)
  next
    case True
    then have "catalog_rules catalog Map.empty = Inr (\<lambda>k. find_key ru_id k catalog)"
        "validate_plan_snapshot ?plan = Inr (decisions_of ?plan, items_of ?plan)"
        "bound_plan (length (pu_decisions update)) (length (pu_items update)) = None"
      using bound by (auto simp: rules snap)
    note eqs = this
    show ?thesis
    proof (cases "decided current \<subseteq> decided ?plan")
      case False
      then have "retain_decisions (decisions_of ?plan) (rp_decisions current) Map.empty \<noteq> Inr m" for m
        by (simp add: kept)
      with False show ?thesis
        unfolding form eqs update_accepts_def Let_def
        by (auto split: sum.splits option.splits if_splits)
    next
      case sub: True
      then have old: "retain_decisions (decisions_of ?plan) (rp_decisions current) Map.empty =
          Inr (decisions_of current)"
        by (simp add: kept)
      have chk: "(case e of None \<Rightarrow> r | Some x \<Rightarrow> Inl x) = Inr (q :: repair_plan) \<longleftrightarrow> e = None \<and> r = Inr q"
        for e :: "plan_error option" and r q by (cases e) auto
      have ite: "(if c then Inl x else r) = Inr (q :: repair_plan) \<longleftrightarrow> \<not> c \<and> r = Inr q"
        for c r q and x :: plan_error by auto
      show ?thesis
        unfolding form eqs old option.case sum.case prod.case chk ite missing required items
          reads [OF conjunct1 [OF True]] update_accepts_def Let_def
        using True sub by auto
    qed
  qed
qed

subsection \<open>What a merge changes\<close>

lemma merge_entries_Inr:
  "merge_entries key xs seen merged = Inr (m', seen') \<longleftrightarrow>
     distinct (map key xs) \<and> key ` set xs \<inter> seen = {} \<and> seen' = seen \<union> key ` set xs \<and>
     m' = fold (upsert_key key) xs merged"
  by (induction xs arbitrary: seen merged) auto

lemma fold_upsert_key:
  assumes "distinct (map key xs)"
  shows "find_key key k (fold (upsert_key key) xs ys) =
     (case find_key key k xs of Some x \<Rightarrow> Some x | None \<Rightarrow> find_key key k ys)"
  using assms
proof (induction xs arbitrary: ys)
  case (Cons x xs)
  then have "find_key key (key x) xs = None" by (simp add: find_key_None_iff)
  with Cons show ?case by (auto simp: find_key_upsert_key split: option.splits)
qed simp

lemma distinct_fold_upsert_key:
  "distinct (map key ys) \<Longrightarrow> distinct (map key (fold (upsert_key key) xs ys))"
  by (induction xs arbitrary: ys) (auto intro: distinct_upsert_key)

lemma merge_removals_Inr:
  assumes "merge_removals ids seen removed merged = Inr m'" "distinct (map pi_id merged)"
  shows "distinct ids \<and> set ids \<inter> (seen \<union> removed) = {} \<and> set ids \<subseteq> pi_id ` set merged \<and>
     distinct (map pi_id m') \<and>
     (\<forall>k. find_key pi_id k m' = (if k \<in> set ids then None else find_key pi_id k merged))"
  using assms
proof (induction ids arbitrary: removed merged)
  case (Cons i ids)
  obtain rest where rest: "remove_key pi_id i merged = Some rest"
      "merge_removals ids seen (insert i removed) rest = Inr m'" "i \<notin> seen" "i \<notin> removed"
    using Cons.prems(1) by (auto split: if_splits option.splits)
  note rm = remove_key_distinct [OF rest(1) Cons.prems(2)]
  have "i \<in> pi_id ` set merged" using rest(1) by (metis option.distinct(1) remove_key_None_iff)
  with Cons.IH [OF rest(2) rm(1)] rest rm show ?case by auto
qed simp

lemma find_key_map:
  "(\<And>x. key (f x) = key x) \<Longrightarrow> find_key key k (map f xs) = map_option f (find_key key k xs)"
  by (induction xs) auto

lemma trim_keys [simp]:
  "pd_rule_id (trim_decision d) = pd_rule_id d" "pd_decision (trim_decision d) = pd_decision d"
  "pi_id (trim_item it) = pi_id it" "pi_rule_id (trim_item it) = pi_rule_id it"
  "pi_status (trim_item it) = pi_status it"
  by (simp_all add: trim_decision_def trim_item_def)

lemma trim_idem [simp]:
  "trim_decision (trim_decision d) = trim_decision d" "trim_item (trim_item it) = trim_item it"
  by (simp_all add: trim_decision_def trim_item_def)

lemma merge_repair_plan_Inr:
  assumes "distinct (map pd_rule_id (rp_decisions current))" "distinct (map pi_id (rp_items current))"
    "merge_repair_plan current update catalog read_ids = Inr plan"
  obtains items where
    "distinct (map pd_rule_id (pu_decisions update))" "distinct (map pi_id (pu_items update))"
    "distinct (pu_remove_item_ids update)"
    "set (pu_remove_item_ids update) \<inter> pi_id ` set (pu_items update) = {}"
    "set (pu_remove_item_ids update) \<subseteq> pi_id ` set (rp_items current)"
    "\<And>k. find_key pi_id k items = (if k \<in> set (pu_remove_item_ids update) then None
       else (items_of current ++ (\<lambda>k. find_key pi_id k (pu_items update))) k)"
    "update_accepts current
       \<lparr>pu_expected_revision = pu_expected_revision update,
        pu_decisions = fold (upsert_key pd_rule_id) (pu_decisions update) (rp_decisions current),
        pu_items = items, pu_remove_item_ids = []\<rparr>
       (map (\<lambda>r. r\<lparr>ru_always := False\<rparr>) catalog) [] (read_ids @ map ru_id (filter ru_always catalog))"
    "plan = \<lparr>rp_revision = rp_revision current + 1,
       rp_decisions = map trim_decision
         (fold (upsert_key pd_rule_id) (pu_decisions update) (rp_decisions current)),
       rp_items = map trim_item items\<rparr>"
proof -
  obtain decisions s1 items0 seen items where m:
      "merge_entries pd_rule_id (pu_decisions update) {} (rp_decisions current) = Inr (decisions, s1)"
      "merge_entries pi_id (pu_items update) {} (rp_items current) = Inr (items0, seen)"
      "merge_removals (pu_remove_item_ids update) seen {} items0 = Inr items"
      "update_repair_plan current
            \<lparr>pu_expected_revision = pu_expected_revision update, pu_decisions = decisions,
             pu_items = items, pu_remove_item_ids = []\<rparr>
            (map (\<lambda>r. r\<lparr>ru_always := False\<rparr>) catalog) []
            (read_ids @ map ru_id (filter ru_always catalog)) = Inr plan"
    using assms(3) by (auto simp: merge_repair_plan_def split: sum.splits)
  note e1 = m(1)[unfolded merge_entries_Inr] and e2 = m(2)[unfolded merge_entries_Inr]
  have d0: "distinct (map pi_id items0)" using e2 assms(2) by (simp add: distinct_fold_upsert_key)
  note r = merge_removals_Inr [OF m(3) d0]
  have keys0: "pi_id ` set items0 = pi_id ` set (rp_items current) \<union> pi_id ` set (pu_items update)"
  proof -
    have "pi_id ` set (fold (upsert_key pi_id) xs ys) = pi_id ` set ys \<union> pi_id ` set xs" for xs ys
      by (induction xs arbitrary: ys) (auto simp: keys_upsert_key)
    with e2 show ?thesis by simp
  qed
  note u = m(4)[unfolded update_repair_plan_Inr [OF assms(1)]]
  show ?thesis
  proof (rule that [of items])
    show "set (pu_remove_item_ids update) \<subseteq> pi_id ` set (rp_items current)"
      using r e2 keys0 by auto
    show "find_key pi_id k items = (if k \<in> set (pu_remove_item_ids update) then None
       else (items_of current ++ (\<lambda>k. find_key pi_id k (pu_items update))) k)" for k
      using r e2 by (simp add: fold_upsert_key items_of_def map_add_def)
  qed (use e1 e2 r u in \<open>auto simp: updated_plan_def\<close>)
qed

subsection \<open>Plan histories\<close>

text \<open>
  The plans a run can hold: the empty plan a new file starts with, and every successor either
  entry point accepts. Each call sees its own read set and its own required rules.
\<close>

inductive plan_step :: "rule list \<Rightarrow> repair_plan \<Rightarrow> repair_plan \<Rightarrow> bool" for catalog where
  full: "update_repair_plan p update catalog required read_ids = Inr q \<Longrightarrow> plan_step catalog p q"
| delta: "merge_repair_plan p update catalog read_ids = Inr q \<Longrightarrow> plan_step catalog p q"

inductive_cases plan_stepE: "plan_step catalog p q"

definition empty_plan :: repair_plan where
  "empty_plan = \<lparr>rp_revision = 0, rp_decisions = [], rp_items = []\<rparr>"

definition keyed_plan :: "repair_plan \<Rightarrow> bool" where
  "keyed_plan p \<longleftrightarrow> distinct (map pd_rule_id (rp_decisions p)) \<and> distinct (map pi_id (rp_items p))"

definition trimmed_plan :: "repair_plan \<Rightarrow> bool" where
  "trimmed_plan p \<longleftrightarrow> map trim_decision (rp_decisions p) = rp_decisions p
     \<and> map trim_item (rp_items p) = rp_items p"

lemma wf_plan_keyed: "wf_plan p \<Longrightarrow> keyed_plan p"
  by (simp add: wf_plan_def keyed_plan_def)

lemma plan_step_accepts:
  assumes "plan_step catalog p q" "keyed_plan p"
  obtains update catalog' required read_ids where
    "update_accepts p update catalog' required read_ids" "q = updated_plan p update"
    "ru_id ` set catalog' = ru_id ` set catalog"
  using assms(1)
proof (cases rule: plan_step.cases)
  case (full update required read_ids)
  then show ?thesis
    using that assms(2) by (auto simp: keyed_plan_def update_repair_plan_Inr)
next
  case (delta update read_ids)
  show ?thesis
    by (rule merge_repair_plan_Inr [OF _ _ delta])
      (use assms(2) in \<open>auto simp: keyed_plan_def updated_plan_def image_image intro!: that\<close>)
qed

lemma plan_step_props:
  assumes "plan_step catalog p q" "keyed_plan p" "rp_revision p \<le> max_int"
  shows "wf_plan q" "trimmed_plan q" "rp_revision q = rp_revision p + 1" "rp_revision q \<le> max_int"
    "0 \<le> rp_revision p" "decided p \<subseteq> decided q" "decided q \<subseteq> ru_id ` set catalog"
    "\<forall>it \<in> set (rp_items p). item_retained p q it"
proof -
  obtain update catalog' required read_ids where
    u: "update_accepts p update catalog' required read_ids" "q = updated_plan p update"
      "ru_id ` set catalog' = ru_id ` set catalog"
    by (rule plan_step_accepts [OF assms(1,2)])
  note acc = u(1)[unfolded update_accepts_def Let_def, folded u(2)]
  from acc show "wf_plan q" "0 \<le> rp_revision p" "decided p \<subseteq> decided q"
      "\<forall>it \<in> set (rp_items p). item_retained p q it"
    by auto
  show rev: "rp_revision q = rp_revision p + 1" and "trimmed_plan q"
    by (simp_all add: u(2) updated_plan_def trimmed_plan_def)
  from acc have "rp_revision p \<noteq> max_int" by blast
  with assms(3) show "rp_revision q \<le> max_int" unfolding rev by simp
  from acc have "\<forall>d \<in> set (rp_decisions q). decision_admitted catalog' read_ids d" by blast
  then have "decided q \<subseteq> ru_id ` set catalog'"
    unfolding decided_def decision_admitted_def by (metis imageI image_subsetI)
  then show "decided q \<subseteq> ru_id ` set catalog" by (simp only: u(3))
qed

lemma plan_history:
  assumes "(plan_step catalog)\<^sup>*\<^sup>* p q" "keyed_plan p" "rp_revision p \<le> max_int"
  shows "keyed_plan q \<and> rp_revision q \<le> max_int \<and> decided p \<subseteq> decided q \<and>
     (q = p \<or> wf_plan q \<and> trimmed_plan q \<and> rp_revision p < rp_revision q
        \<and> decided q \<subseteq> ru_id ` set catalog)"
  using assms(1)
proof (induction rule: rtranclp_induct)
  case (step y z)
  then have y: "keyed_plan y" "rp_revision y \<le> max_int" by auto
  note z = plan_step_props [OF step.hyps(2) y]
  have "rp_revision p \<le> rp_revision y" using step.IH by auto
  with z step.IH show ?case by (auto intro: wf_plan_keyed)
qed (use assms in auto)

lemma keyed_empty_plan [simp]: "keyed_plan empty_plan" "rp_revision empty_plan \<le> max_int"
  by (simp_all add: keyed_plan_def empty_plan_def max_int_def)

subsection \<open>Properties\<close>

text \<open>
  C7. Exactly which full updates are accepted, for a current plan without duplicate decisions:
  the expected revision is current and not the largest one, the catalog's rule IDs are valid and
  distinct, required rules are catalogued and, like the always-reviewed ones, decided; the trimmed
  successor is well formed, each of its decisions is on a rule that was read (or is always
  reviewed), no earlier decision is dropped, no item moves to another rule, and an item leaves only
  under a changed reason and not under a new name. The accepted plan is the trimmed update under
  the next revision.
\<close>

theorem update_repair_plan_iff:
  assumes "distinct (map pd_rule_id (rp_decisions current))"
  shows "update_repair_plan current update catalog required read_ids = Inr plan \<longleftrightarrow>
       update_accepts current update catalog required read_ids \<and> plan = updated_plan current update"
  by (rule update_repair_plan_Inr [OF assms])

definition sample_rule :: rule where
  "sample_rule = \<lparr>ru_id = ''r1'', ru_title = ''t'', ru_body = ''b'', ru_always = False\<rparr>"

definition sample_item :: plan_item where
  "sample_item = \<lparr>pi_id = ''i1'', pi_rule_id = ''r1'', pi_location = ''l'', pi_risk = [],
     pi_change = ''c'', pi_expected = ''e'', pi_status = S_pending, pi_hold_reason = [],
     pi_source_locations = []\<rparr>"

definition sample_plan_update :: plan_update where
  "sample_plan_update = \<lparr>pu_expected_revision = 0,
     pu_decisions = [\<lparr>pd_rule_id = ''r1'', pd_decision = D_modify, pd_reason = '' why ''\<rparr>],
     pu_items = [sample_item], pu_remove_item_ids = []\<rparr>"

definition sample_plan :: repair_plan where
  "sample_plan = \<lparr>rp_revision = 1,
     rp_decisions = [\<lparr>pd_rule_id = ''r1'', pd_decision = D_modify, pd_reason = ''why''\<rparr>],
     rp_items = [sample_item]\<rparr>"

lemma sample_update:
  "update_repair_plan empty_plan sample_plan_update [sample_rule] [''r1''] [''r1''] = Inr sample_plan"
  by code_simp

lemma sample_merge:
  "merge_repair_plan empty_plan sample_plan_update [sample_rule] [''r1''] = Inr sample_plan"
  by code_simp

lemma update_repair_plan_iff_witness:
  "distinct (map pd_rule_id (rp_decisions empty_plan)) \<and>
     update_accepts empty_plan sample_plan_update [sample_rule] [''r1''] [''r1'']"
proof -
  have d: "distinct (map pd_rule_id (rp_decisions empty_plan))" by (simp add: empty_plan_def)
  with update_repair_plan_iff [OF d] sample_update show ?thesis by blast
qed

text \<open>
  C8. A delta changes exactly what it names. On a plan without duplicate keys, an accepted delta
  yields, under the next revision, the well-formed plan whose decisions are the old ones overridden
  by the delta's, and whose items are the old ones overridden by the delta's less the removed ones
  (texts trimmed); what is removed was in the plan and is not also upserted.
\<close>

theorem merge_repair_plan_delta:
  assumes "distinct (map pd_rule_id (rp_decisions current))" "distinct (map pi_id (rp_items current))"
    "merge_repair_plan current update catalog read_ids = Inr plan"
  shows "decisions_of plan = map_option trim_decision \<circ>
         (decisions_of current ++ (\<lambda>k. find_key pd_rule_id k (pu_decisions update))) \<and>
       items_of plan = (map_option trim_item \<circ>
         (items_of current ++ (\<lambda>k. find_key pi_id k (pu_items update))))
           |` (- set (pu_remove_item_ids update)) \<and>
       set (pu_remove_item_ids update) \<subseteq> pi_id ` set (rp_items current) - pi_id ` set (pu_items update) \<and>
       wf_plan plan \<and> rp_revision plan = rp_revision current + 1"
proof -
  obtain items where m:
    "distinct (map pd_rule_id (pu_decisions update))"
    "set (pu_remove_item_ids update) \<inter> pi_id ` set (pu_items update) = {}"
    "set (pu_remove_item_ids update) \<subseteq> pi_id ` set (rp_items current)"
    "\<And>k. find_key pi_id k items = (if k \<in> set (pu_remove_item_ids update) then None
       else (items_of current ++ (\<lambda>k. find_key pi_id k (pu_items update))) k)"
    "plan = \<lparr>rp_revision = rp_revision current + 1,
       rp_decisions = map trim_decision
         (fold (upsert_key pd_rule_id) (pu_decisions update) (rp_decisions current)),
       rp_items = map trim_item items\<rparr>"
    by (rule merge_repair_plan_Inr [OF assms]) blast
  have "wf_plan plan"
    by (rule merge_repair_plan_Inr [OF assms]) (simp add: update_accepts_def updated_plan_def Let_def)
  moreover have "decisions_of plan = map_option trim_decision \<circ>
      (decisions_of current ++ (\<lambda>k. find_key pd_rule_id k (pu_decisions update)))"
    by (rule ext) (simp add: m(1,5) decisions_of_def find_key_map fold_upsert_key map_add_def)
  moreover have "items_of plan = (map_option trim_item \<circ>
      (items_of current ++ (\<lambda>k. find_key pi_id k (pu_items update))))
           |` (- set (pu_remove_item_ids update))"
    by (rule ext) (simp add: m(4,5) items_of_def find_key_map restrict_map_def)
  ultimately show ?thesis using m(2,3,5) by auto
qed

lemma merge_repair_plan_delta_witness:
  "merge_repair_plan empty_plan sample_plan_update [sample_rule] [''r1''] = Inr sample_plan \<and>
     decisions_of sample_plan = map_option trim_decision \<circ>
       (decisions_of empty_plan ++ (\<lambda>k. find_key pd_rule_id k (pu_decisions sample_plan_update)))"
proof -
  have "distinct (map pd_rule_id (rp_decisions empty_plan))" "distinct (map pi_id (rp_items empty_plan))"
    by (simp_all add: empty_plan_def)
  from merge_repair_plan_delta [OF this sample_merge] sample_merge show ?thesis by blast
qed

text \<open>
  C9. Along every history of accepted updates and deltas from the empty plan: each plan after the
  first is well formed with trimmed texts, decides only catalogued rules and has a strictly larger
  revision that never exceeds the largest integer; no recorded decision is ever lost; and an item
  of a plan is in the next plan under the same rule, or left it under a changed reason.
\<close>

theorem plan_histories:
  assumes "(plan_step catalog)\<^sup>*\<^sup>* empty_plan p" "plan_step catalog p q"
    "(plan_step catalog)\<^sup>*\<^sup>* q r"
  shows "wf_plan q \<and> wf_plan r \<and> trimmed_plan r \<and> decided p \<subseteq> decided r \<and>
     decided r \<subseteq> ru_id ` set catalog \<and>
     0 \<le> rp_revision p \<and> rp_revision p < rp_revision r \<and> rp_revision r \<le> max_int \<and>
     (\<forall>it \<in> set (rp_items p). item_retained p q it)"
proof -
  have p: "keyed_plan p" "rp_revision p \<le> max_int"
    using plan_history [OF assms(1)] by auto
  note q = plan_step_props [OF assms(2) p]
  note r = plan_history [OF assms(3) wf_plan_keyed [OF q(1)] q(4)]
  show ?thesis using q r by auto
qed

lemma plan_histories_witness:
  "plan_step [sample_rule] empty_plan sample_plan \<and> wf_plan sample_plan"
proof -
  have s: "plan_step [sample_rule] empty_plan sample_plan"
    by (rule plan_step.delta [OF sample_merge])
  with plan_histories [OF rtranclp.rtrancl_refl s rtranclp.rtrancl_refl] show ?thesis by blast
qed

end
