(* ===== verification/Holds.thy ===== *)
theory Holds
  imports SourceLocation ExactEdits RepairPlan
begin

section \<open>Held locations: evidence for blocked items and the lines a candidate must keep\<close>

text \<open>
  \<open>internal/agent/source_locations.go\<close> and the first half of \<open>internal/agent/partial_review.go\<close>.
  A blocked plan item names complete original lines; a candidate may touch them only with a
  replacement that contains them again. Positions are byte offsets of the original, as in the code.
\<close>

datatype hold_error =
    HoldUnlocalized item_id | HoldRuleUnlocalized rule_id | HoldNoEvidence item_id
  | HoldRepeated item_id | HoldLocation item_id location_error | HoldEdits edit_error
  | HoldChanged item_id | HoldFirstLine item_id | HoldLastLine item_id | HoldIndexPanic

subsection \<open>Source locations of plan items\<close>

fun check_item_locations ::
  "string \<Rightarrow> item_id \<Rightarrow> source_location set \<Rightarrow> source_location list \<Rightarrow> hold_error option" where
  "check_item_locations content iid seen [] = None"
| "check_item_locations content iid seen (loc # locs) =
     (if loc \<in> seen then Some (HoldRepeated iid)
      else (case validate_source_location content loc of
              Some e \<Rightarrow> Some (HoldLocation iid e)
            | None \<Rightarrow> check_item_locations content iid (insert loc seen) locs))"

fun check_items_locations :: "string \<Rightarrow> plan_item list \<Rightarrow> hold_error option" where
  "check_items_locations content [] = None"
| "check_items_locations content (it # its) =
     (if pi_status it = S_blocked \<and> (pi_source_locations it = [] \<or> blank (pi_hold_reason it))
      then Some (HoldNoEvidence (pi_id it))
      else (case check_item_locations content (pi_id it) {} (pi_source_locations it) of
              Some e \<Rightarrow> Some e
            | None \<Rightarrow> check_items_locations content its))"

definition validate_plan_source_locations :: "repair_plan \<Rightarrow> string \<Rightarrow> hold_error option" where
  "validate_plan_source_locations plan content = check_items_locations content (rp_items plan)"

fun resolve_locations ::
  "string \<Rightarrow> item_id \<Rightarrow> source_location list \<Rightarrow> (hold_error, source_location list) outcome" where
  "resolve_locations content iid [] = Inr []"
| "resolve_locations content iid (loc # locs) =
     (case resolve_source_location content loc of
        Inl e \<Rightarrow> Inl (HoldLocation iid e)
      | Inr r \<Rightarrow> (case resolve_locations content iid locs of
                    Inl e \<Rightarrow> Inl e
                  | Inr rs \<Rightarrow> Inr (r # rs)))"

fun resolve_items :: "string \<Rightarrow> plan_item list \<Rightarrow> (hold_error, plan_item list) outcome" where
  "resolve_items content [] = Inr []"
| "resolve_items content (it # its) =
     (case resolve_locations content (pi_id it) (pi_source_locations it) of
        Inl e \<Rightarrow> Inl e
      | Inr locs \<Rightarrow> (case resolve_items content its of
                      Inl e \<Rightarrow> Inl e
                    | Inr its' \<Rightarrow> Inr (it\<lparr>pi_source_locations := locs\<rparr> # its')))"

text \<open>The code updates the plan in place; the model returns the updated plan.\<close>

definition resolve_plan_source_locations ::
  "repair_plan \<Rightarrow> string \<Rightarrow> (hold_error, repair_plan) outcome" where
  "resolve_plan_source_locations plan content =
     (case resolve_items content (rp_items plan) of
        Inl e \<Rightarrow> Inl e
      | Inr its \<Rightarrow>
          let plan' = plan\<lparr>rp_items := its\<rparr> in
          (case validate_plan_source_locations plan' content of
             Some e \<Rightarrow> Inl e
           | None \<Rightarrow> Inr plan'))"

subsection \<open>Holds of a plan\<close>

definition hold_of :: "plan_item \<Rightarrow> review_hold" where
  "hold_of it = \<lparr>rh_item_id = pi_id it, rh_rule_id = pi_rule_id it,
     rh_source_locations = pi_source_locations it, rh_reason = pi_hold_reason it\<rparr>"

fun collect_holds :: "plan_item list \<Rightarrow> (hold_error, review_hold list) outcome" where
  "collect_holds [] = Inr []"
| "collect_holds (it # its) =
     (if pi_status it \<noteq> S_blocked then collect_holds its
      else if pi_source_locations it = [] \<or> blank (pi_hold_reason it)
        then Inl (HoldUnlocalized (pi_id it))
      else (case collect_holds its of Inl e \<Rightarrow> Inl e | Inr hs \<Rightarrow> Inr (hold_of it # hs)))"

definition candidate_holds :: "repair_plan \<Rightarrow> (hold_error, review_hold list) outcome" where
  "candidate_holds plan =
     (case collect_holds (rp_items plan) of
        Inl e \<Rightarrow> Inl e
      | Inr holds \<Rightarrow>
          (case find (\<lambda>d. pd_decision d = D_blocked \<and> pd_rule_id d \<notin> rh_rule_id ` set holds)
                  (rp_decisions plan) of
             Some d \<Rightarrow> Inl (HoldRuleUnlocalized (pd_rule_id d))
           | None \<Rightarrow> Inr holds))"

subsection \<open>Candidates against held lines\<close>

text \<open>\<open>strings.Count\<close>: non-overlapping occurrences; an empty separator counts runes plus one.\<close>

function str_count :: "string \<Rightarrow> string \<Rightarrow> nat" where
  "str_count s sub =
     (if sub = [] then Suc (rune_count s)
      else (case str_index s sub of
              None \<Rightarrow> 0
            | Some i \<Rightarrow> Suc (str_count (drop (i + length sub) s) sub)))"
  by pat_completeness auto
termination
proof (relation "measure (\<lambda>(s, sub). length s)")
  fix s sub i assume "sub \<noteq> []" "str_index s sub = Some (i :: nat)"
  then have "i + length sub \<le> length s" "sub \<noteq> []"
    using str_index_Some occurs_at_length by blast+
  then show "((drop (i + length sub) s, sub), s, sub) \<in> measure (\<lambda>(s, sub). length s)"
    by (cases sub) auto
qed simp

declare str_count.simps [simp del]

definition line_starts :: "string \<Rightarrow> nat list" where
  "line_starts s = 0 # map Suc (filter (\<lambda>i. s ! i = LF) [0..<length s])"

text \<open>\<open>None\<close> is the index-out-of-range panic of \<open>lineStarts[...]\<close>.\<close>

definition held_span :: "string \<Rightarrow> source_location \<Rightarrow> (nat \<times> nat) option" where
  "held_span original loc =
     (let starts = line_starts original in
      if sl_start_line loc < 1 \<or> sl_start_line loc > int (length starts) \<or> sl_end_line loc < 0 then None
      else Some (starts ! nat (sl_start_line loc - 1),
                 if sl_end_line loc < int (length starts) then starts ! nat (sl_end_line loc)
                 else length original))"

definition check_held_edit ::
  "string \<Rightarrow> item_id \<Rightarrow> nat \<Rightarrow> nat \<Rightarrow> edit \<Rightarrow> hold_error option" where
  "check_held_edit original iid start end_pos e =
     (let at_pos = start_of original e; finish = at_pos + length (ed_old_text e) in
      if finish < start \<or> at_pos > end_pos then None
      else
        let left = min at_pos start; right = max finish end_pos;
            protected_text = slice start end_pos original;
            before = slice left right original;
            after = slice left at_pos original @ ed_new_text e @ slice finish right original;
            relative = start - left in
        if str_count before protected_text \<noteq> 1 \<or> str_count after protected_text \<noteq> 1
        then Some (HoldChanged iid)
        else
          let pos = (case str_index after protected_text of Some i \<Rightarrow> i | None \<Rightarrow> 0) in
          if (relative = 0 \<and> left = 0 \<or> left + relative > 0 \<and> original ! (left + relative - 1) = LF)
             \<and> pos > 0 \<and> after ! (pos - 1) \<noteq> LF
          then Some (HoldFirstLine iid)
          else if \<not> suffix [LF] protected_text \<and> pos + length protected_text < length after
             \<and> after ! (pos + length protected_text) \<noteq> LF
          then Some (HoldLastLine iid)
          else None)"

fun check_held_edits ::
  "string \<Rightarrow> item_id \<Rightarrow> nat \<Rightarrow> nat \<Rightarrow> edit list \<Rightarrow> hold_error option" where
  "check_held_edits original iid start end_pos [] = None"
| "check_held_edits original iid start end_pos (e # es) =
     (case check_held_edit original iid start end_pos e of
        Some err \<Rightarrow> Some err
      | None \<Rightarrow> check_held_edits original iid start end_pos es)"

fun check_held_locations ::
  "string \<Rightarrow> edit list \<Rightarrow> item_id \<Rightarrow> source_location list \<Rightarrow> hold_error option" where
  "check_held_locations original es iid [] = None"
| "check_held_locations original es iid (loc # locs) =
     (case held_span original loc of
        None \<Rightarrow> Some HoldIndexPanic
      | Some (start, end_pos) \<Rightarrow>
          (case check_held_edits original iid start end_pos es of
             Some err \<Rightarrow> Some err
           | None \<Rightarrow> check_held_locations original es iid locs))"

fun check_holds :: "string \<Rightarrow> edit list \<Rightarrow> review_hold list \<Rightarrow> hold_error option" where
  "check_holds original es [] = None"
| "check_holds original es (h # hs) =
     (case check_held_locations original es (rh_item_id h) (rh_source_locations h) of
        Some err \<Rightarrow> Some err
      | None \<Rightarrow> check_holds original es hs)"

definition check_candidate_holds ::
  "repair_plan \<Rightarrow> candidate_request \<Rightarrow> string \<Rightarrow> hold_error option" where
  "check_candidate_holds plan request original =
     (case candidate_holds plan of
        Inl e \<Rightarrow> Some e
      | Inr holds \<Rightarrow>
     (case validate_plan_source_locations plan original of
        Some e \<Rightarrow> Some e
      | None \<Rightarrow>
          if holds = [] then None
          else
     (case validate_exact_edits (cr_edits request) original of
        Some e \<Rightarrow> Some (HoldEdits e)
      | None \<Rightarrow> check_holds original (cr_edits request) holds)))"

subsection \<open>Two shapes the check lets through\<close>

definition sample_loc :: "int \<Rightarrow> int \<Rightarrow> string \<Rightarrow> source_location" where
  "sample_loc a b q = \<lparr>sl_start_line = a, sl_end_line = b, sl_excerpt = q\<rparr>"

definition held_sample_plan :: "source_location list \<Rightarrow> repair_plan" where
  "held_sample_plan locs = \<lparr>rp_revision = 1,
     rp_decisions = [\<lparr>pd_rule_id = ''r1'', pd_decision = D_modify, pd_reason = ''why''\<rparr>],
     rp_items = [sample_item, sample_item\<lparr>pi_id := ''i2'', pi_status := S_blocked,
       pi_hold_reason := ''ask'', pi_source_locations := locs\<rparr>]\<rparr>"

definition sample_request :: "edit list \<Rightarrow> candidate_request" where
  "sample_request es = \<lparr>cr_plan_revision = 1, cr_base_hash = ''h'', cr_edits = es,
     cr_addressed_item_ids = [''i1'']\<rparr>"

definition linked_edit :: "string \<Rightarrow> string \<Rightarrow> edit" where
  "linked_edit old new = (sample_edit old new)\<lparr>ed_item_ids := [''i1'']\<rparr>"

definition "two_lines = ''ab'' @ [LF] @ ''HELD'' @ [LF]"

subsection \<open>Held spans are complete lines\<close>

lemma count_crlf [simp]: "count_char LF (crlf_to_lf s) = count_char LF s"
  by (induction s rule: crlf_to_lf.induct) (auto simp: LF_def CR_def)

lemma last_crlf: "s \<noteq> [] \<Longrightarrow> crlf_to_lf s \<noteq> [] \<and> (last (crlf_to_lf s) = LF \<longleftrightarrow> last s = LF)"
  by (induction s rule: crlf_to_lf.induct) (auto simp: LF_def CR_def)

lemma length_source_lines:
  assumes "normalize_source s \<noteq> []"
  shows "length (source_lines (normalize_source s)) = count_char LF s + (if last s = LF then 0 else 1)"
proof -
  define r where "r = trim_prefix s BOM"
  have r: "r \<noteq> []" using assms by (auto simp: normalize_source_def r_def)
  have "count_char LF r = count_char LF s \<and> last r = last s"
  proof (cases "prefix BOM s")
    case True
    then have "s = BOM @ r" by (auto simp: r_def trim_prefix_def prefix_def)
    with r show ?thesis by (simp add: BOM_def LF_def)
  qed (simp add: r_def trim_prefix_def)
  moreover have "normalize_source s = crlf_to_lf r" by (simp add: normalize_source_def r_def)
  ultimately have n: "count_char LF (normalize_source s) = count_char LF s"
      "last (normalize_source s) = LF \<longleftrightarrow> last s = LF"
    using last_crlf [OF r] by auto
  have "Suc (count_char LF (butlast t)) = count_char LF t" if "t \<noteq> []" "last t = LF" for t
    using that by (induction t) auto
  then show ?thesis
    using n assms by (simp add: source_lines_def trim_suffix_LF length_split_on)
qed

lemma line_starts_mem:
  "p \<in> set (line_starts s) \<Longrightarrow> p \<le> length s \<and> (p = 0 \<or> s ! (p - 1) = LF)"
  by (auto simp: line_starts_def)

lemma sorted_line_starts: "sorted_wrt (<) (line_starts s)"
  by (auto simp: line_starts_def sorted_wrt_map intro!: sorted_wrt_filter)

lemma length_line_starts: "length (line_starts s) = Suc (count_char LF s)"
proof -
  have "filter (\<lambda>x. x = LF) (map ((!) s) [0..<length s]) = filter (\<lambda>x. x = LF) s"
    by (simp add: map_nth)
  then have "length (filter (\<lambda>i. s ! i = LF) [0..<length s]) = length (filter (\<lambda>x. x = LF) s)"
    by (metis (mono_tags, lifting) filter_map length_map comp_apply filter_cong)
  moreover have "length (filter (\<lambda>x. x = LF) s) = count_char LF s" by (induction s) auto
  ultimately show ?thesis by (simp add: line_starts_def)
qed

lemma held_span_lines:
  assumes "validate_source_location s loc = None"
  obtains st fi where "held_span s loc = Some (st, fi)" "st < fi" "fi \<le> length s"
    "st = 0 \<or> s ! (st - 1) = LF" "fi = length s \<or> s ! (fi - 1) = LF"
proof -
  let ?S = "line_starts s" and ?a = "nat (sl_start_line loc - 1)" and ?b = "nat (sl_end_line loc)"
  note v = validate_conditions [OF assms]
  have n: "normalize_source s \<noteq> []" by (rule v)
  then have s: "s \<noteq> []" by (auto simp: normalize_source_def trim_prefix_def)
  have ab: "?a < ?b" "int ?b = sl_end_line loc" "int ?a = sl_start_line loc - 1" using v by auto
  have b: "?b \<le> count_char LF s + (if last s = LF then 0 else 1)"
    using v(5) ab(2) unfolding length_source_lines [OF n] by linarith
  then have a: "?a < length ?S" using ab(1) by (auto simp: length_line_starts split: if_splits)
  define st where "st = ?S ! ?a"
  define fi where "fi = (if ?b < length ?S then ?S ! ?b else length s)"
  have st: "st \<le> length s" "st = 0 \<or> s ! (st - 1) = LF"
    using line_starts_mem [OF nth_mem [OF a]] by (auto simp: st_def)
  have fi: "fi \<le> length s" "fi = length s \<or> fi = 0 \<or> s ! (fi - 1) = LF"
    using line_starts_mem [OF nth_mem, of ?b s] by (auto simp: fi_def)
  have "st < fi"
  proof (cases "?b < length ?S")
    case True
    then show ?thesis
      using sorted_wrt_nth_less [OF sorted_line_starts ab(1)] by (simp add: fi_def st_def)
  next
    case False
    then have bl: "?b = Suc (count_char LF s)" "last s \<noteq> LF"
      using b by (auto simp: length_line_starts split: if_splits)
    have "st \<noteq> length s" using st(2) s bl(2) by (auto simp: last_conv_nth)
    with st(1) False show ?thesis by (simp add: fi_def)
  qed
  moreover have "held_span s loc = Some (st, fi)"
    using v(3,4) a ab by (auto simp: held_span_def Let_def st_def fi_def)
  ultimately show ?thesis using that fi st by auto
qed

subsection \<open>What the check guarantees\<close>

text \<open>
  \<open>complete_lines_in t p\<close>: the text \<open>t\<close> contains \<open>p\<close> as complete lines. \<open>clear_of s e st fi\<close>: the
  edit does not touch the held span, not even at its ends.
\<close>

definition complete_lines_in :: "string \<Rightarrow> string \<Rightarrow> bool" where
  "complete_lines_in t p \<longleftrightarrow>
     (\<exists>a b. t = a @ p @ b \<and> (a = [] \<or> last a = LF) \<and> (suffix [LF] p \<or> b = [] \<or> hd b = LF))"

definition clear_of :: "string \<Rightarrow> edit \<Rightarrow> nat \<Rightarrow> nat \<Rightarrow> bool" where
  "clear_of s e st fi \<longleftrightarrow> start_of s e + length (ed_old_text e) < st \<or> fi < start_of s e"

text \<open>
  The shape the check does not see: an edit that starts before the held lines, inside a line or
  where another edit ends, and whose replacement begins with the held text.
\<close>

definition joins_held_line :: "string \<Rightarrow> edit list \<Rightarrow> edit \<Rightarrow> nat \<Rightarrow> nat \<Rightarrow> bool" where
  "joins_held_line s es e st fi \<longleftrightarrow>
     0 < start_of s e \<and> start_of s e < st \<and>
     (s ! (start_of s e - 1) \<noteq> LF \<or>
       (\<exists>f \<in> set es. start_of s f + length (ed_old_text f) = start_of s e)) \<and>
     prefix (slice st fi s)
       (ed_new_text e @ slice (start_of s e + length (ed_old_text e))
          (max (start_of s e + length (ed_old_text e)) fi) s)"

lemma last_slice: "i < j \<Longrightarrow> j \<le> length s \<Longrightarrow> last (slice i j s) = s ! (j - 1)"
  by (simp add: slice_def last_conv_nth)

lemma suffix_LF_slice:
  "i < j \<Longrightarrow> j \<le> length s \<Longrightarrow> s ! (j - 1) = LF \<Longrightarrow> suffix [LF] (slice i j s)"
  by (metis append_butlast_last_id last_slice length_slice list.size(3) suffixI zero_less_diff less_irrefl)

lemma str_count_1: "sub \<noteq> [] \<Longrightarrow> str_count s sub = 1 \<Longrightarrow> \<exists>i. str_index s sub = Some i"
  by (subst (asm) str_count.simps) (auto split: option.splits)

lemma held_edit_kept:
  assumes ex: "exact_edits s es" and e: "e \<in> set es"
    and span: "st < fi" "fi \<le> length s" "st = 0 \<or> s ! (st - 1) = LF" "fi = length s \<or> s ! (fi - 1) = LF"
    and touch: "\<not> clear_of s e st fi"
    and others: "\<forall>f \<in> set es. f \<noteq> e \<longrightarrow> clear_of s f st fi"
    and chk: "check_held_edit s iid st fi e = None" and gap: "\<not> joins_held_line s es e st fi"
  shows "complete_lines_in (replaced_text s es) (slice st fi s)"
proof -
  define a where "a = start_of s e"
  define n where "n = a + length (ed_old_text e)"
  define i where "i = min a st"
  define j where "j = max n fi"
  define P where "P = slice st fi s"
  define after where "after = slice i a s @ ed_new_text e @ slice n j s"
  have anch: "ed_old_text f \<noteq> []" "start_of s f + length (ed_old_text f) \<le> length s" if "f \<in> set es" for f
    using ex that by (auto simp: exact_edits_def anchored_def occurs_once_at_def dest: occurs_at_length)
  have an: "a < n" "n \<le> length s" using anch [OF e] by (auto simp: a_def n_def)
  have tch: "st \<le> n" "a \<le> fi" using touch by (auto simp: clear_of_def a_def n_def)
  have ij: "i \<le> j" "j \<le> length s" "i \<le> a" "n \<le> j" "i \<le> st" "fi \<le> j"
    using span an by (auto simp: i_def j_def)
  have other: "start_of s f + length (ed_old_text f) \<le> i \<or> j \<le> start_of s f"
    if "f \<in> set es" "f \<noteq> e" for f
    using exact_edits_distinct(2) [OF ex e that(1)] that others tch anch [OF that(1)]
    by (fastforce simp: apart_def clear_of_def a_def n_def i_def j_def)
  have clear: "\<forall>f \<in> set es. start_of s f + length (ed_old_text f) \<le> i \<or> j \<le> start_of s f \<or>
      i \<le> start_of s f \<and> start_of s f + length (ed_old_text f) \<le> j"
    using other ij by (auto simp: a_def n_def)
  obtain A M C where R: "replaced_text s es = A @ assemble_to s i j M @ C"
      "i = 0 \<longrightarrow> A = []" "j = length s \<longrightarrow> C = []"
      "0 < i \<and> (\<forall>f \<in> set es. start_of s f + length (ed_old_text f) \<noteq> i) \<longrightarrow>
         A \<noteq> [] \<and> last A = s ! (i - 1)"
      "distinct M" "\<forall>x \<in> set M. snd x \<in> set es \<and> fst x = start_of s (snd x) \<and> i \<le> fst x \<and> span_end x \<le> j"
      "\<forall>f \<in> set es. i \<le> start_of s f \<and> start_of s f + length (ed_old_text f) \<le> j \<longrightarrow> (start_of s f, f) \<in> set M"
    by (rule replaced_region [OF ex ij(1,2) clear])
  have "x = (a, e)" if "x \<in> set M" for x
  proof (rule ccontr)
    assume "x \<noteq> (a, e)"
    from R(6) that have x: "snd x \<in> set es" "fst x = start_of s (snd x)" "i \<le> fst x" "span_end x \<le> j"
      by auto
    with \<open>x \<noteq> (a, e)\<close> have "snd x \<noteq> e" by (auto simp: a_def prod_eq_iff)
    moreover have "0 < length (ed_old_text (snd x))" using anch(1) [OF x(1)] by simp
    ultimately show False using other [OF x(1)] x(2-4) unfolding span_end_def by linarith
  qed
  moreover have "(a, e) \<in> set M" using R(7) e ij by (simp add: a_def n_def)
  ultimately have "set M = {(a, e)}" by blast
  with R(5) have M: "M = [(a, e)]" by (rule distinct_set_singleton)
  then have joined: "replaced_text s es = A @ after @ C"
    using R(1) by (simp add: after_def n_def M)
  have P: "P \<noteq> []" using span by (auto simp: P_def slice_def)
  note c = chk[unfolded check_held_edit_def Let_def, folded a_def, folded n_def, folded i_def j_def,
      folded after_def P_def]
  have cnt: "str_count after P = 1"
    using c tch by (auto split: if_splits)
  then obtain pos where pos: "str_index after P = Some pos" using str_count_1 [OF P] by blast
  then have split: "after = take pos after @ P @ drop (pos + length P) after"
    and len: "pos + length P \<le> length after"
    by (auto simp: str_index_Some dest: occurs_at_split occurs_at_length)
  have first: "pos = 0 \<or> after ! (pos - 1) = LF"
    using c tch span(3) ij(5) by (auto simp: pos split: if_splits)
  have last_line: "suffix [LF] P \<or> pos + length P = length after \<or> after ! (pos + length P) = LF"
    using c tch len by (auto simp: pos split: if_splits)
  have A: "A = [] \<or> last A = LF" if "pos = 0"
  proof (cases "i = 0")
    case False
    show ?thesis
    proof (cases "st \<le> a")
      case True
      then have i: "i = st" by (simp add: i_def)
      have "start_of s f + length (ed_old_text f) \<noteq> i" if "f \<in> set es" for f
        using others that True an tch span by (cases "f = e") (auto simp: i clear_of_def a_def n_def)
      with R(4) False span(3) show ?thesis by (auto simp: i)
    next
      case nst: False
      then have i: "i = a" by (simp add: i_def)
      have "prefix P after" using that split by (metis append_Nil prefixI take0)
      then have "prefix (slice st fi s) (ed_new_text e @ slice n (max n fi) s)"
        by (simp add: after_def i P_def j_def)
      with gap nst False i have "s ! (a - 1) = LF \<and> (\<forall>f \<in> set es. start_of s f + length (ed_old_text f) \<noteq> a)"
        by (auto simp: joins_held_line_def a_def n_def)
      with R(4) False i show ?thesis by auto
    qed
  qed (use R(2) in simp)
  have "A @ take pos after = [] \<or> last (A @ take pos after) = LF"
  proof (cases "pos = 0")
    case False
    then have "take pos after \<noteq> []" "last (take pos after) = after ! (pos - 1)"
      using len take_Suc_conv_app_nth [of "pos - 1" after] by auto
    with first False show ?thesis by simp
  qed (use A in simp)
  moreover have "suffix [LF] P \<or> drop (pos + length P) after @ C = [] \<or> hd (drop (pos + length P) after @ C) = LF"
  proof (cases "suffix [LF] P")
    case False
    then have "fi = length s" using span suffix_LF_slice [of st fi s] by (auto simp: P_def)
    then have "C = []" using R(3) ij by simp
    with last_line False len show ?thesis
      by (cases "pos + length P = length after") (auto simp: hd_drop_conv_nth)
  qed simp
  moreover have "replaced_text s es = (A @ take pos after) @ P @ drop (pos + length P) after @ C"
    using joined split by (metis append_assoc)
  ultimately show ?thesis unfolding complete_lines_in_def P_def by blast
qed

lemma untouched_lines_kept:
  assumes ex: "exact_edits s es"
    and span: "st < fi" "fi \<le> length s" "st = 0 \<or> s ! (st - 1) = LF" "fi = length s \<or> s ! (fi - 1) = LF"
    and clear: "\<forall>e \<in> set es. clear_of s e st fi"
  shows "complete_lines_in (replaced_text s es) (slice st fi s)"
proof -
  have ends: "start_of s f + length (ed_old_text f) < st \<or> fi < start_of s f" if "f \<in> set es" for f
    using clear that by (simp add: clear_of_def)
  have len: "0 < length (ed_old_text f)" if "f \<in> set es" for f
    using ex that by (simp add: exact_edits_def anchored_def)
  have reg: "\<forall>f \<in> set es. start_of s f + length (ed_old_text f) \<le> st \<or> fi \<le> start_of s f \<or>
      st \<le> start_of s f \<and> start_of s f + length (ed_old_text f) \<le> fi"
    using ends by fastforce
  have le: "st \<le> fi" using span by simp
  obtain A M C where R: "replaced_text s es = A @ assemble_to s st fi M @ C"
      "st = 0 \<longrightarrow> A = []" "fi = length s \<longrightarrow> C = []"
      "0 < st \<and> (\<forall>f \<in> set es. start_of s f + length (ed_old_text f) \<noteq> st) \<longrightarrow>
         A \<noteq> [] \<and> last A = s ! (st - 1)"
      "distinct M"
      "\<forall>x \<in> set M. snd x \<in> set es \<and> fst x = start_of s (snd x) \<and> st \<le> fst x \<and> span_end x \<le> fi"
      "\<forall>f \<in> set es. st \<le> start_of s f \<and> start_of s f + length (ed_old_text f) \<le> fi \<longrightarrow> (start_of s f, f) \<in> set M"
    by (rule replaced_region [OF ex le span(2) reg])
  have "x \<notin> set M" for x
  proof
    assume "x \<in> set M"
    with R(6) have x: "snd x \<in> set es" "fst x = start_of s (snd x)" "st \<le> fst x" "span_end x \<le> fi"
      by auto
    then show False using ends [OF x(1)] len [OF x(1)] unfolding span_end_def by linarith
  qed
  then have "M = []" by (cases M) auto
  then have "replaced_text s es = A @ slice st fi s @ C" using R(1) by simp
  moreover have "A = [] \<or> last A = LF"
    using R(2,4) span ends by (cases "st = 0") fastforce+
  moreover have "suffix [LF] (slice st fi s) \<or> C = []"
    using R(3) span suffix_LF_slice by blast
  ultimately show ?thesis unfolding complete_lines_in_def by blast
qed

lemma collect_holds_Inr:
  "collect_holds its = Inr hs \<longleftrightarrow>
     hs = map hold_of (filter (\<lambda>it. pi_status it = S_blocked) its) \<and>
     (\<forall>it \<in> set its. pi_status it = S_blocked \<longrightarrow> pi_source_locations it \<noteq> [] \<and> \<not> blank (pi_hold_reason it))"
  by (induction its arbitrary: hs) (auto split: sum.splits)

lemma candidate_holds_Inr:
  "candidate_holds plan = Inr hs \<longleftrightarrow>
     hs = map hold_of (filter (\<lambda>it. pi_status it = S_blocked) (rp_items plan)) \<and>
     (\<forall>it \<in> set (rp_items plan). pi_status it = S_blocked \<longrightarrow>
        pi_source_locations it \<noteq> [] \<and> \<not> blank (pi_hold_reason it)) \<and>
     (\<forall>d \<in> set (rp_decisions plan). pd_decision d = D_blocked \<longrightarrow>
        (\<exists>it \<in> set (rp_items plan). pi_status it = S_blocked \<and> pi_rule_id it = pd_rule_id d))"
proof (cases "collect_holds (rp_items plan)")
  case (Inl e)
  then show ?thesis
    using collect_holds_Inr [of "rp_items plan" "map hold_of (filter (\<lambda>it. pi_status it = S_blocked) (rp_items plan))"]
    by (simp add: candidate_holds_def)
next
  case (Inr hs')
  then have hs': "hs' = map hold_of (filter (\<lambda>it. pi_status it = S_blocked) (rp_items plan))"
      "\<forall>it \<in> set (rp_items plan). pi_status it = S_blocked \<longrightarrow>
        pi_source_locations it \<noteq> [] \<and> \<not> blank (pi_hold_reason it)"
    by (auto simp: collect_holds_Inr)
  have "rh_rule_id ` set hs' = pi_rule_id ` {it \<in> set (rp_items plan). pi_status it = S_blocked}"
    by (auto simp: hs'(1) hold_of_def image_image)
  then have "find (\<lambda>d. pd_decision d = D_blocked \<and> pd_rule_id d \<notin> rh_rule_id ` set hs') (rp_decisions plan) = None
    \<longleftrightarrow> (\<forall>d \<in> set (rp_decisions plan). pd_decision d = D_blocked \<longrightarrow>
        (\<exists>it \<in> set (rp_items plan). pi_status it = S_blocked \<and> pi_rule_id it = pd_rule_id d))"
    by (auto simp: find_None_iff image_iff) metis+
  then show ?thesis
    using hs' Inr unfolding candidate_holds_def by (auto split: option.splits)
qed

lemma check_item_locations_None:
  "check_item_locations content iid seen locs = None \<longleftrightarrow>
     distinct locs \<and> set locs \<inter> seen = {} \<and> (\<forall>loc \<in> set locs. validate_source_location content loc = None)"
  by (induction locs arbitrary: seen) (auto split: option.splits)

lemma validate_plan_source_locations_None:
  "validate_plan_source_locations plan content = None \<longleftrightarrow>
     (\<forall>it \<in> set (rp_items plan).
        (pi_status it = S_blocked \<longrightarrow> pi_source_locations it \<noteq> [] \<and> \<not> blank (pi_hold_reason it)) \<and>
        distinct (pi_source_locations it) \<and>
        (\<forall>loc \<in> set (pi_source_locations it). validate_source_location content loc = None))"
proof -
  have "check_items_locations content its = None \<longleftrightarrow>
     (\<forall>it \<in> set its.
        (pi_status it = S_blocked \<longrightarrow> pi_source_locations it \<noteq> [] \<and> \<not> blank (pi_hold_reason it)) \<and>
        check_item_locations content (pi_id it) {} (pi_source_locations it) = None)" for its
    by (induction its) (auto split: option.splits)
  then show ?thesis
    by (simp add: validate_plan_source_locations_def check_item_locations_None)
qed

lemma check_held_edits_None:
  "check_held_edits s iid st fi es = None \<longleftrightarrow> (\<forall>e \<in> set es. check_held_edit s iid st fi e = None)"
  by (induction es) (auto split: option.splits)

lemma check_held_locations_None:
  "check_held_locations s es iid locs = None \<longleftrightarrow>
     (\<forall>loc \<in> set locs. \<exists>st fi. held_span s loc = Some (st, fi) \<and>
        (\<forall>e \<in> set es. check_held_edit s iid st fi e = None))"
  by (induction locs) (auto split: option.splits simp flip: check_held_edits_None)

lemma check_holds_None:
  "check_holds s es hs = None \<longleftrightarrow>
     (\<forall>h \<in> set hs. check_held_locations s es (rh_item_id h) (rh_source_locations h) = None)"
  by (induction hs) (auto split: option.splits)

lemma check_candidate_holds_None:
  "check_candidate_holds plan request s = None \<longleftrightarrow>
     (\<exists>hs. candidate_holds plan = Inr hs \<and> validate_plan_source_locations plan s = None \<and>
        (hs \<noteq> [] \<longrightarrow> validate_exact_edits (cr_edits request) s = None \<and>
           check_holds s (cr_edits request) hs = None))"
  by (auto simp: check_candidate_holds_def split: sum.splits option.splits)

lemma held_location_checked:
  assumes "check_candidate_holds plan request s = None" "it \<in> set (rp_items plan)"
    "pi_status it = S_blocked" "loc \<in> set (pi_source_locations it)"
  shows "validate_source_location s loc = None" "validate_exact_edits (cr_edits request) s = None"
    "\<exists>st fi. held_span s loc = Some (st, fi) \<and>
       (\<forall>e \<in> set (cr_edits request). check_held_edit s (pi_id it) st fi e = None)"
proof -
  obtain hs where hs: "candidate_holds plan = Inr hs" "validate_plan_source_locations plan s = None"
      "hs \<noteq> [] \<longrightarrow> validate_exact_edits (cr_edits request) s = None \<and>
         check_holds s (cr_edits request) hs = None"
    using assms(1) by (auto simp: check_candidate_holds_None)
  have mem: "hold_of it \<in> set hs"
    using hs(1) assms(2,3) by (auto simp: candidate_holds_Inr)
  then have "hs \<noteq> []" by auto
  with hs(3) have h: "validate_exact_edits (cr_edits request) s = None"
      "check_holds s (cr_edits request) hs = None" by auto
  show "validate_exact_edits (cr_edits request) s = None" by (rule h)
  show "validate_source_location s loc = None"
    using hs(2) assms(2,4) by (simp add: validate_plan_source_locations_None)
  show "\<exists>st fi. held_span s loc = Some (st, fi) \<and>
       (\<forall>e \<in> set (cr_edits request). check_held_edit s (pi_id it) st fi e = None)"
    using h(2) mem assms(4) by (auto simp: check_holds_None check_held_locations_None hold_of_def)
qed

subsection \<open>Properties\<close>

text \<open>
  C10. Held lines survive. When the hold check accepts a candidate, at most one of its edits
  touches the held span of a blocked item, and no edit joins the held lines to an earlier line
  (the shape of C12), the candidate text contains the complete held lines, byte for byte, between
  line boundaries.
\<close>

theorem check_candidate_holds_keeps_lines:
  assumes "check_candidate_holds plan request s = None"
    "it \<in> set (rp_items plan)" "pi_status it = S_blocked" "loc \<in> set (pi_source_locations it)"
    "held_span s loc = Some (st, fi)"
    "review_candidate_text s (cr_edits request) = Inr t"
    "\<forall>e \<in> set (cr_edits request). \<forall>f \<in> set (cr_edits request).
       \<not> clear_of s e st fi \<and> \<not> clear_of s f st fi \<longrightarrow> e = f"
    "\<forall>e \<in> set (cr_edits request). \<not> joins_held_line s (cr_edits request) e st fi"
  shows "complete_lines_in t (slice st fi s)"
proof -
  note c = held_location_checked [OF assms(1-4)]
  obtain st' fi' where "held_span s loc = Some (st', fi')" and
      span: "st' < fi'" "fi' \<le> length s" "st' = 0 \<or> s ! (st' - 1) = LF" "fi' = length s \<or> s ! (fi' - 1) = LF"
    by (rule held_span_lines [OF c(1)])
  then have eq: "st' = st" "fi' = fi" using assms(5) by auto
  have chk: "check_held_edit s (pi_id it) st fi e = None" if "e \<in> set (cr_edits request)" for e
    using c(3) assms(5) that by auto
  have t: "t = replaced_text s (cr_edits request)" and ex: "exact_edits s (cr_edits request)"
    using assms(6) c(2) by (auto simp: review_candidate_text_Inr validate_exact_edits_None)
  show ?thesis
  proof (cases "\<forall>e \<in> set (cr_edits request). clear_of s e st fi")
    case True
    then show ?thesis using untouched_lines_kept [OF ex] span by (simp add: eq t)
  next
    case False
    then obtain e where e: "e \<in> set (cr_edits request)" "\<not> clear_of s e st fi" by blast
    then have "\<forall>f \<in> set (cr_edits request). f \<noteq> e \<longrightarrow> clear_of s f st fi" using assms(7) by blast
    with held_edit_kept [OF ex e(1) span[unfolded eq] e(2) _ chk [OF e(1)]] assms(8) e(1)
    show ?thesis by (simp add: t)
  qed
qed

definition sample_lines :: string where
  "sample_lines = ''ab'' @ [LF] @ ''HELD'' @ [LF] @ ''cd'' @ [LF]"

lemma check_candidate_holds_keeps_lines_witness:
  "complete_lines_in (''xb'' @ [LF] @ ''HELD'' @ [LF] @ ''cd'' @ [LF]) (''HELD'' @ [LF])"
proof -
  let ?p = "held_sample_plan [sample_loc 2 2 ''HELD'']"
  let ?r = "sample_request [linked_edit (''a'') (''x'')]"
  let ?it = "sample_item\<lparr>pi_id := ''i2'', pi_status := S_blocked,
       pi_hold_reason := ''ask'', pi_source_locations := [sample_loc 2 2 ''HELD'']\<rparr>"
  have a: "check_candidate_holds ?p ?r sample_lines = None" by code_simp
  have b: "?it \<in> set (rp_items ?p)" "pi_status ?it = S_blocked"
      "sample_loc 2 2 ''HELD'' \<in> set (pi_source_locations ?it)"
    by (simp_all add: held_sample_plan_def)
  have c: "held_span sample_lines (sample_loc 2 2 ''HELD'') = Some (3, 8)" by code_simp
  have d: "review_candidate_text sample_lines (cr_edits ?r) =
      Inr (''xb'' @ [LF] @ ''HELD'' @ [LF] @ ''cd'' @ [LF])" by code_simp
  have e: "\<forall>e \<in> set (cr_edits ?r). \<forall>f \<in> set (cr_edits ?r).
       \<not> clear_of sample_lines e 3 8 \<and> \<not> clear_of sample_lines f 3 8 \<longrightarrow> e = f"
    by (simp add: sample_request_def)
  have f: "\<forall>e \<in> set (cr_edits ?r). \<not> joins_held_line sample_lines (cr_edits ?r) e 3 8" by code_simp
  have "slice 3 8 sample_lines = ''HELD'' @ [LF]" by code_simp
  with check_candidate_holds_keeps_lines [OF a b c d e f] show ?thesis by simp
qed

text \<open>
  C11. The hold check is total and not over-strict. The line-offset table is never indexed out of
  range (every location it reads was validated against the same text first), and a candidate of
  exact edits that stay clear of every held span is accepted once the plan's holds and locations
  are valid.
\<close>

theorem check_candidate_holds_total:
  "check_candidate_holds plan request s \<noteq> Some HoldIndexPanic \<and>
   (candidate_holds plan = Inr hs \<and> validate_plan_source_locations plan s = None \<and>
      validate_exact_edits (cr_edits request) s = None \<and>
      (\<forall>h \<in> set hs. \<forall>loc \<in> set (rh_source_locations h). \<forall>st fi. held_span s loc = Some (st, fi) \<longrightarrow>
         (\<forall>e \<in> set (cr_edits request). clear_of s e st fi)) \<longrightarrow>
    check_candidate_holds plan request s = None)"
proof -
  have edits: "check_held_edits s iid st fi es \<noteq> Some HoldIndexPanic" for iid st fi es
    by (induction es) (auto simp: check_held_edit_def Let_def split: option.splits)
  have loc_ok: "check_held_locations s es iid locs \<noteq> Some HoldIndexPanic"
    if "\<forall>loc \<in> set locs. validate_source_location s loc = None" for es iid locs
    using that
  proof (induction locs)
    case (Cons loc locs)
    have "validate_source_location s loc = None" using Cons.prems by simp
    then obtain st fi where "held_span s loc = Some (st, fi)" by (rule held_span_lines)
    with Cons edits show ?case by (auto split: option.splits)
  qed simp
  have holds_ok: "check_holds s es hs \<noteq> Some HoldIndexPanic"
    if "\<forall>h \<in> set hs. \<forall>loc \<in> set (rh_source_locations h). validate_source_location s loc = None" for es hs
    using that loc_ok by (induction hs) (auto split: option.splits)
  have valid: "\<forall>h \<in> set hs. \<forall>loc \<in> set (rh_source_locations h). validate_source_location s loc = None"
    if "candidate_holds plan = Inr hs" "validate_plan_source_locations plan s = None" for hs
    using that by (auto simp: candidate_holds_Inr validate_plan_source_locations_None hold_of_def)
  have items: "check_item_locations s iid seen locs \<noteq> Some HoldIndexPanic" for iid seen locs
    by (induction locs arbitrary: seen) (auto split: option.splits)
  have "check_items_locations s its \<noteq> Some HoldIndexPanic" for its
    using items by (induction its) (auto split: option.splits)
  then have locs: "validate_plan_source_locations plan s \<noteq> Some HoldIndexPanic"
    by (simp add: validate_plan_source_locations_def)
  have "collect_holds its \<noteq> Inl HoldIndexPanic" for its
    by (induction its) (auto split: sum.splits)
  then have cand: "candidate_holds plan \<noteq> Inl HoldIndexPanic"
    by (auto simp: candidate_holds_def split: sum.splits option.splits)
  have no_panic: "check_candidate_holds plan request s \<noteq> Some HoldIndexPanic"
    using cand locs holds_ok valid
    unfolding check_candidate_holds_def by (auto split: sum.splits option.splits)
  have accept: "check_candidate_holds plan request s = None"
    if "candidate_holds plan = Inr hs" "validate_plan_source_locations plan s = None"
      "validate_exact_edits (cr_edits request) s = None"
      "\<forall>h \<in> set hs. \<forall>loc \<in> set (rh_source_locations h). \<forall>st fi. held_span s loc = Some (st, fi) \<longrightarrow>
         (\<forall>e \<in> set (cr_edits request). clear_of s e st fi)"
  proof -
    have "\<exists>st fi. held_span s loc = Some (st, fi) \<and>
        (\<forall>e \<in> set (cr_edits request). check_held_edit s iid st fi e = None)"
      if "h \<in> set hs" "loc \<in> set (rh_source_locations h)" for h loc iid
    proof -
      have "validate_source_location s loc = None" using valid that \<open>candidate_holds plan = Inr hs\<close>
          \<open>validate_plan_source_locations plan s = None\<close> by blast
      then obtain st fi where "held_span s loc = Some (st, fi)" by (rule held_span_lines)
      moreover have "check_held_edit s iid st fi e = None" if "clear_of s e st fi" for e
        using that by (auto simp: check_held_edit_def clear_of_def Let_def)
      ultimately show ?thesis using that \<open>\<forall>h \<in> set hs. _\<close> by blast
    qed
    with that show ?thesis
      by (auto simp: check_candidate_holds_None check_holds_None check_held_locations_None)
  qed
  show ?thesis using no_panic accept by blast
qed

lemma check_candidate_holds_total_witness:
  "check_candidate_holds (held_sample_plan [sample_loc 2 2 ''HELD''])
     (sample_request [linked_edit ''d'' ''x'']) sample_lines = None"
proof -
  let ?p = "held_sample_plan [sample_loc 2 2 ''HELD'']" and ?r = "sample_request [linked_edit ''d'' ''x'']"
  let ?hs = "[\<lparr>rh_item_id = ''i2'', rh_rule_id = ''r1'',
     rh_source_locations = [sample_loc 2 2 ''HELD''], rh_reason = ''ask''\<rparr>]"
  have "candidate_holds ?p = Inr ?hs" "validate_plan_source_locations ?p sample_lines = None"
      "validate_exact_edits (cr_edits ?r) sample_lines = None" by code_simp+
  moreover have "held_span sample_lines (sample_loc 2 2 ''HELD'') = Some (3, 8)"
      "\<forall>e \<in> set (cr_edits ?r). clear_of sample_lines e 3 8" by code_simp+
  ultimately show ?thesis using check_candidate_holds_total [of ?p ?r sample_lines ?hs] by simp
qed

lemma complete_lines_in_occurs:
  assumes "complete_lines_in t p"
  shows "\<exists>i \<in> set [0..<Suc (length t)]. occurs_at t p i \<and> (i = 0 \<or> t ! (i - 1) = LF)"
proof -
  obtain a b where t: "t = a @ p @ b" "a = [] \<or> last a = LF"
    using assms by (auto simp: complete_lines_in_def)
  have "occurs_at t p (length a)" using t(1) by (auto intro: occurs_at_append)
  moreover have "length a = 0 \<or> t ! (length a - 1) = LF"
    using t by (cases "a = []") (auto simp: nth_append last_conv_nth)
  moreover have "length a \<in> set [0..<Suc (length t)]" using t(1) by simp
  ultimately show ?thesis by blast
qed

text \<open>
  C12. A gap of the hold check. An edit that deletes the newline in front of a held line is
  accepted when the replacement of the text up to the held line is empty: line 2 of
  \<open>ab/HELD\<close> is held, the edit removes \<open>b\<close> and the newline, the check passes, and the candidate
  reads \<open>aHELD\<close>, which does not contain the held line any more.
\<close>

theorem held_line_joined:
  "let original = ''ab'' @ [LF] @ ''HELD'' @ [LF];
       plan = held_sample_plan [sample_loc 2 2 ''HELD''];
       request = sample_request [linked_edit (''b'' @ [LF]) []] in
   check_candidate_holds plan request original = None \<and>
   review_candidate_text original (cr_edits request) = Inr (''aHELD'' @ [LF]) \<and>
   \<not> complete_lines_in (''aHELD'' @ [LF]) (''HELD'' @ [LF])"
proof -
  have "check_candidate_holds (held_sample_plan [sample_loc 2 2 ''HELD''])
      (sample_request [linked_edit (''b'' @ [LF]) []]) (''ab'' @ [LF] @ ''HELD'' @ [LF]) = None"
    by code_simp
  moreover have "review_candidate_text (''ab'' @ [LF] @ ''HELD'' @ [LF])
      (cr_edits (sample_request [linked_edit (''b'' @ [LF]) []])) = Inr (''aHELD'' @ [LF])"
    by code_simp
  moreover have "\<not> (\<exists>i \<in> set [0..<Suc (length (''aHELD'' @ [LF]))].
      occurs_at (''aHELD'' @ [LF]) (''HELD'' @ [LF]) i \<and> (i = 0 \<or> (''aHELD'' @ [LF]) ! (i - 1) = LF))"
    by code_simp
  ultimately show ?thesis using complete_lines_in_occurs unfolding Let_def by blast
qed

definition paired_lines :: string where
  "paired_lines = ''A'' @ [LF] @ ''A'' @ [LF] @ ''B'' @ [LF] @ ''B'' @ [LF]"

definition split_edits :: "edit list" where
  "split_edits = [linked_edit (''A'' @ [LF] @ ''A'' @ [LF]) (''A'' @ [LF] @ ''A'' @ [LF] @ ''B'' @ [LF]),
     linked_edit (''B'' @ [LF] @ ''B'' @ [LF]) (''A'' @ [LF] @ ''B'' @ [LF] @ ''B'' @ [LF])]"

definition split_lines :: string where
  "split_lines = ''A'' @ [LF] @ ''A'' @ [LF] @ ''B'' @ [LF] @ ''A'' @ [LF] @ ''B'' @ [LF] @ ''B'' @ [LF]"

text \<open>
  C13. A second gap. The hold check looks at one edit at a time; two edits that each keep the held
  block when applied alone can destroy it together. The four lines \<open>A/A/B/B\<close> are held, one edit
  appends a \<open>B\<close> after the \<open>A\<close>s, the other an \<open>A\<close> before the \<open>B\<close>s: both pass, and the candidate
  \<open>A/A/B/A/B/B\<close> contains the held block nowhere.
\<close>

theorem held_block_split:
  "check_candidate_holds (held_sample_plan [sample_loc 1 4 paired_lines])
     (sample_request split_edits) paired_lines = None \<and>
   review_candidate_text paired_lines split_edits = Inr split_lines \<and>
   (\<forall>a b. split_lines \<noteq> a @ paired_lines @ b)"
proof -
  have "check_candidate_holds (held_sample_plan [sample_loc 1 4 paired_lines])
     (sample_request split_edits) paired_lines = None" by code_simp
  moreover have "review_candidate_text paired_lines split_edits = Inr split_lines" by code_simp
  moreover have "str_index split_lines paired_lines = None" by code_simp
  then have "\<forall>a b. split_lines \<noteq> a @ paired_lines @ b"
    unfolding str_index_None_iff by (metis occurs_at_append)
  ultimately show ?thesis by blast
qed

end
