(* ===== verification/CandidatePlan.thy ===== *)
theory CandidatePlan
  imports Holds
begin

section \<open>A candidate against the whole plan\<close>

text \<open>
  \<open>CheckCandidatePlan\<close>, \<open>checkEditAttributionShape\<close> and \<open>PlanRemainingItems\<close> of
  \<open>internal/agent/repair_plan.go\<close> and \<open>requireCompletePlan\<close> of \<open>internal/agent/incremental.go\<close>:
  before anything expensive runs, a candidate has to account for every open item of the plan.
  Go's sets of IDs are HOL sets; where the code ranges over a set to report a missing ID the model
  reports only that one is missing.
\<close>

datatype candidate_error =
    CandStale | CandPlan plan_error | CandHold hold_error | CandNoChanges
  | CandUnknownItem item_id | CandBlockedItem item_id | CandDuplicateItem item_id
  | CandMissingItem item_id | CandHeldOnly | CandEditNoItems nat | CandEditItem nat item_id
  | CandNeedsAttributions nat | CandAttributionItem nat item_id | CandAttributionText nat
  | CandAttributionDuplicate nat item_id | CandAttributionMissing nat | CandUnlinked
  | CandUnreviewed rule_id

fun attribution_loop ::
  "nat \<Rightarrow> item_id set \<Rightarrow> edit_attribution list \<Rightarrow> edit_attribution set \<Rightarrow> item_id set \<Rightarrow>
     (candidate_error, item_id set) outcome" where
  "attribution_loop i items [] seen covered = Inr covered"
| "attribution_loop i items (f # fs) seen covered =
     (if at_item_id f \<notin> items then Inl (CandAttributionItem (i + 1) (at_item_id f))
      else if at_before_text f = [] \<or> at_before_text f = at_after_text f
         \<or> \<not> valid_utf8 (at_before_text f) \<or> \<not> valid_utf8 (at_after_text f)
        then Inl (CandAttributionText (i + 1))
      else if f \<in> seen then Inl (CandAttributionDuplicate (i + 1) (at_item_id f))
      else attribution_loop i items fs (insert f seen) (insert (at_item_id f) covered))"

definition check_edit_attribution_shape ::
  "nat \<Rightarrow> edit \<Rightarrow> item_id set \<Rightarrow> candidate_error option" where
  "check_edit_attribution_shape i e items =
     (if ed_attributions e = [] then
        (if length (ed_item_ids e) > 1 then Some (CandNeedsAttributions (i + 1)) else None)
      else (case attribution_loop i items (ed_attributions e) {} {} of
              Inl err \<Rightarrow> Some err
            | Inr covered \<Rightarrow>
                if items \<subseteq> covered then None else Some (CandAttributionMissing (i + 1))))"

fun address_items ::
  "item_map \<Rightarrow> item_id list \<Rightarrow> item_id set \<Rightarrow> (candidate_error, item_id set) outcome" where
  "address_items items [] addressed = Inr addressed"
| "address_items items (iid # iids) addressed =
     (case items iid of
        None \<Rightarrow> Inl (CandUnknownItem iid)
      | Some it \<Rightarrow>
          if pi_status it = S_blocked then Inl (CandBlockedItem iid)
          else if iid \<in> addressed then Inl (CandDuplicateItem iid)
          else address_items items iids (insert iid addressed))"

fun link_item_ids ::
  "nat \<Rightarrow> item_id set \<Rightarrow> item_id list \<Rightarrow> item_id set \<Rightarrow> (candidate_error, item_id set) outcome" where
  "link_item_ids i addressed [] seen = Inr seen"
| "link_item_ids i addressed (iid # iids) seen =
     (if iid \<notin> addressed \<or> iid \<in> seen then Inl (CandEditItem (i + 1) iid)
      else link_item_ids i addressed iids (insert iid seen))"

fun link_edits ::
  "nat \<Rightarrow> item_id set \<Rightarrow> edit list \<Rightarrow> item_id set \<Rightarrow> (candidate_error, item_id set) outcome" where
  "link_edits i addressed [] linked = Inr linked"
| "link_edits i addressed (e # es) linked =
     (if ed_item_ids e = [] then Inl (CandEditNoItems (i + 1))
      else (case link_item_ids i addressed (ed_item_ids e) {} of
              Inl err \<Rightarrow> Inl err
            | Inr seen \<Rightarrow>
                (case check_edit_attribution_shape i e seen of
                   Some err \<Rightarrow> Inl err
                 | None \<Rightarrow> link_edits (i + 1) addressed es (linked \<union> seen))))"

definition check_candidate_plan :: "repair_plan \<Rightarrow> candidate_request \<Rightarrow> candidate_error option" where
  "check_candidate_plan plan request =
     (if rp_revision plan < 1 \<or> cr_plan_revision request \<noteq> rp_revision plan then Some CandStale
      else
     (case validate_plan_snapshot plan of
        Inl e \<Rightarrow> Some (CandPlan e)
      | Inr (_, items) \<Rightarrow>
     (case candidate_holds plan of
        Inl e \<Rightarrow> Some (CandHold e)
      | Inr _ \<Rightarrow>
          if rp_items plan = [] then Some CandNoChanges
          else
     (case address_items items (cr_addressed_item_ids request) {} of
        Inl e \<Rightarrow> Some e
      | Inr addressed \<Rightarrow>
     (case find (\<lambda>it. pi_status it \<noteq> S_blocked \<and> pi_id it \<notin> addressed) (rp_items plan) of
        Some it \<Rightarrow> Some (CandMissingItem (pi_id it))
      | None \<Rightarrow>
          if addressed = {} then Some CandHeldOnly
          else
     (case link_edits 0 addressed (cr_edits request) {} of
        Inl e \<Rightarrow> Some e
      | Inr linked \<Rightarrow> if addressed \<subseteq> linked then None else Some CandUnlinked))))))"

definition plan_remaining_items :: "repair_plan \<Rightarrow> item_id list" where
  "plan_remaining_items plan = map pi_id (filter (\<lambda>it. pi_status it \<noteq> S_proposed) (rp_items plan))"

definition require_complete_plan :: "repair_plan \<Rightarrow> rule_id list \<Rightarrow> candidate_error option" where
  "require_complete_plan plan required =
     map_option CandUnreviewed (find (\<lambda>rid. rid \<notin> pd_rule_id ` set (rp_decisions plan)) required)"

subsection \<open>What the checks accept\<close>

definition fragment_ok :: "item_id set \<Rightarrow> edit_attribution \<Rightarrow> bool" where
  "fragment_ok items f \<longleftrightarrow> at_item_id f \<in> items \<and> at_before_text f \<noteq> [] \<and>
     at_before_text f \<noteq> at_after_text f \<and> valid_utf8 (at_before_text f) \<and> valid_utf8 (at_after_text f)"

text \<open>An edit is attributed when it belongs to one item, or its fragments name exactly its items.\<close>

definition attributed :: "edit \<Rightarrow> bool" where
  "attributed e \<longleftrightarrow>
     (if ed_attributions e = [] then length (ed_item_ids e) \<le> 1
      else distinct (ed_attributions e) \<and>
        (\<forall>f \<in> set (ed_attributions e). fragment_ok (set (ed_item_ids e)) f) \<and>
        at_item_id ` set (ed_attributions e) = set (ed_item_ids e))"

definition open_items :: "repair_plan \<Rightarrow> item_id set" where
  "open_items plan = pi_id ` {it \<in> set (rp_items plan). pi_status it \<noteq> S_blocked}"

lemma attribution_loop_Inr:
  "attribution_loop i items fs seen covered = Inr c \<longleftrightarrow>
     distinct fs \<and> set fs \<inter> seen = {} \<and> (\<forall>f \<in> set fs. fragment_ok items f) \<and>
     c = covered \<union> at_item_id ` set fs"
  by (induction fs arbitrary: seen covered) (auto simp: fragment_ok_def)

lemma check_edit_attribution_shape_None:
  "check_edit_attribution_shape i e (set (ed_item_ids e)) = None \<longleftrightarrow> attributed e"
proof (cases "attribution_loop i (set (ed_item_ids e)) (ed_attributions e) {} {}")
  case (Inl err)
  then show ?thesis
    using attribution_loop_Inr [of i "set (ed_item_ids e)" "ed_attributions e" "{}" "{}"
        "at_item_id ` set (ed_attributions e)"]
    by (auto simp: check_edit_attribution_shape_def attributed_def)
next
  case (Inr c)
  then show ?thesis
    using attribution_loop_Inr [of i "set (ed_item_ids e)" "ed_attributions e" "{}" "{}" c]
    by (auto simp: check_edit_attribution_shape_def attributed_def fragment_ok_def)
qed

lemma address_items_Inr:
  "address_items items iids addressed = Inr a \<longleftrightarrow>
     distinct iids \<and> set iids \<inter> addressed = {} \<and> a = addressed \<union> set iids \<and>
     (\<forall>iid \<in> set iids. \<exists>it. items iid = Some it \<and> pi_status it \<noteq> S_blocked)"
  by (induction iids arbitrary: addressed) (auto split: option.splits)

lemma link_item_ids_Inr:
  "link_item_ids i addressed iids seen = Inr s \<longleftrightarrow>
     distinct iids \<and> set iids \<inter> seen = {} \<and> set iids \<subseteq> addressed \<and> s = seen \<union> set iids"
  by (induction iids arbitrary: seen) auto

definition edit_linked :: "item_id set \<Rightarrow> edit \<Rightarrow> bool" where
  "edit_linked addressed e \<longleftrightarrow> ed_item_ids e \<noteq> [] \<and> distinct (ed_item_ids e) \<and>
     set (ed_item_ids e) \<subseteq> addressed \<and> attributed e"

lemma link_edits_Inr:
  "link_edits i addressed es linked = Inr l \<longleftrightarrow>
     (\<forall>e \<in> set es. edit_linked addressed e) \<and> l = linked \<union> (\<Union>e \<in> set es. set (ed_item_ids e))"
proof (induction es arbitrary: i linked)
  case (Cons e es)
  show ?case
  proof (cases "ed_item_ids e \<noteq> [] \<and> distinct (ed_item_ids e) \<and> set (ed_item_ids e) \<subseteq> addressed")
    case True
    then have "link_item_ids i addressed (ed_item_ids e) {} = Inr (set (ed_item_ids e))"
      by (simp add: link_item_ids_Inr)
    with True show ?thesis
      by (auto simp: Cons.IH edit_linked_def check_edit_attribution_shape_None Un_assoc
          split: option.splits)
        (auto simp: check_edit_attribution_shape_None [symmetric, of e i])
  next
    case False
    then have "\<nexists>s. ed_item_ids e \<noteq> [] \<and> link_item_ids i addressed (ed_item_ids e) {} = Inr s"
      by (auto simp: link_item_ids_Inr)
    with False show ?thesis by (auto simp: edit_linked_def split: sum.splits)
  qed
qed auto

lemma open_items_iff:
  assumes "wf_plan plan"
  shows "iid \<in> open_items plan \<longleftrightarrow> (\<exists>it. items_of plan iid = Some it \<and> pi_status it \<noteq> S_blocked)"
proof -
  have d: "distinct (map pi_id (rp_items plan))" using assms by (simp add: wf_plan_def)
  show ?thesis
    using find_key_eq_Some [OF d] find_key_SomeD [of pi_id iid "rp_items plan"]
    by (auto simp: open_items_def items_of_def)
qed

lemma all_open_addressed:
  "find (\<lambda>it. pi_status it \<noteq> S_blocked \<and> pi_id it \<notin> a) (rp_items plan) = None \<longleftrightarrow> open_items plan \<subseteq> a"
  by (auto simp: find_None_iff open_items_def)

definition accounts_for_plan :: "repair_plan \<Rightarrow> candidate_request \<Rightarrow> bool" where
  "accounts_for_plan plan request \<longleftrightarrow>
     1 \<le> rp_revision plan \<and> cr_plan_revision request = rp_revision plan \<and> wf_plan plan \<and>
     (\<exists>hs. candidate_holds plan = Inr hs) \<and>
     distinct (cr_addressed_item_ids request) \<and>
     set (cr_addressed_item_ids request) = open_items plan \<and> open_items plan \<noteq> {} \<and>
     (\<forall>e \<in> set (cr_edits request). edit_linked (open_items plan) e) \<and>
     (\<Union>e \<in> set (cr_edits request). set (ed_item_ids e)) = open_items plan"

lemma check_candidate_plan_None:
  "check_candidate_plan plan request = None \<longleftrightarrow> accounts_for_plan plan request"
  (is "?check \<longleftrightarrow> ?spec")
proof -
  let ?ids = "cr_addressed_item_ids request" and ?es = "cr_edits request"
  have snap: "validate_plan_snapshot plan = Inr s \<longleftrightarrow>
      wf_plan plan \<and> s = (decisions_of plan, items_of plan)" for s
    using validate_plan_snapshot_Inr [of plan "fst s" "snd s"] by (cases s) auto
  have addr: "address_items (items_of plan) ?ids {} = Inr a \<longleftrightarrow>
      distinct ?ids \<and> a = set ?ids \<and> set ?ids \<subseteq> open_items plan" if "wf_plan plan" for a
    using open_items_iff [OF that] by (auto simp: address_items_Inr)
  show ?thesis
  proof
    assume ?check
    then have r: "1 \<le> rp_revision plan" "cr_plan_revision request = rp_revision plan"
      by (auto simp: check_candidate_plan_def split: if_splits)
    from \<open>?check\<close> obtain s where "validate_plan_snapshot plan = Inr s"
      by (auto simp: check_candidate_plan_def split: if_splits sum.splits)
    then have wf: "wf_plan plan" and s: "validate_plan_snapshot plan = Inr (decisions_of plan, items_of plan)"
      by (auto simp: snap)
    from \<open>?check\<close> s obtain hs a l where
      h: "candidate_holds plan = Inr hs" "address_items (items_of plan) ?ids {} = Inr a" and
      f: "find (\<lambda>it. pi_status it \<noteq> S_blocked \<and> pi_id it \<notin> a) (rp_items plan) = None" and
      l: "a \<noteq> {}" "link_edits 0 a ?es {} = Inr l" "a \<subseteq> l"
      by (auto simp: check_candidate_plan_def split: if_splits sum.splits option.splits)
    have a: "a = open_items plan" "set ?ids = a" "distinct ?ids"
      using h(2) f addr [OF wf] all_open_addressed [of a plan] by auto
    have "l = (\<Union>e \<in> set ?es. set (ed_item_ids e))" "\<forall>e \<in> set ?es. edit_linked a e"
      using l(2) by (auto simp: link_edits_Inr)
    moreover from this have "l \<subseteq> a" by (auto simp: edit_linked_def)
    ultimately show ?spec using r wf h a l unfolding accounts_for_plan_def by auto
  next
    assume ?spec
    note spec = this[unfolded accounts_for_plan_def]
    then have s: "validate_plan_snapshot plan = Inr (decisions_of plan, items_of plan)" by (simp add: snap)
    have "rp_items plan \<noteq> []" using spec by (auto simp: open_items_def)
    moreover have "address_items (items_of plan) ?ids {} = Inr (open_items plan)"
      using spec addr by auto
    moreover have "find (\<lambda>it. pi_status it \<noteq> S_blocked \<and> pi_id it \<notin> open_items plan) (rp_items plan) = None"
      by (simp only: all_open_addressed)
    moreover have "link_edits 0 (open_items plan) ?es {} = Inr (open_items plan)"
      using spec by (simp add: link_edits_Inr)
    moreover from spec obtain hs where "candidate_holds plan = Inr hs" "open_items plan \<noteq> {}"
        "\<not> rp_revision plan < 1" "cr_plan_revision request = rp_revision plan" by auto
    ultimately show ?check using s by (simp add: check_candidate_plan_def)
  qed
qed

lemmas check_candidate_plan_accepted = check_candidate_plan_None [THEN iffD1, unfolded accounts_for_plan_def]

subsection \<open>Properties\<close>

text \<open>
  C14. What a candidate must account for. The plan check accepts a request exactly when it is for
  the current, well-formed plan of at least revision 1, every blocked rule has a localized hold,
  the addressed items are exactly the plan's open (not blocked) items, at least one and each named
  once, every edit belongs to some of them and carries one well-formed fragment set covering
  exactly its items when it has more than one, and every addressed item has an edit.
\<close>

theorem check_candidate_plan_iff:
  "check_candidate_plan plan request = None \<longleftrightarrow>
     1 \<le> rp_revision plan \<and> cr_plan_revision request = rp_revision plan \<and> wf_plan plan \<and>
     (\<exists>hs. candidate_holds plan = Inr hs) \<and>
     distinct (cr_addressed_item_ids request) \<and>
     set (cr_addressed_item_ids request) = open_items plan \<and> open_items plan \<noteq> {} \<and>
     (\<forall>e \<in> set (cr_edits request). edit_linked (open_items plan) e) \<and>
     (\<Union>e \<in> set (cr_edits request). set (ed_item_ids e)) = open_items plan"
  using check_candidate_plan_None by (simp add: accounts_for_plan_def)

lemma require_complete_plan_None:
  "require_complete_plan plan required = None \<longleftrightarrow> set required \<subseteq> decided plan"
  by (auto simp: require_complete_plan_def decided_def find_None_iff)

lemma check_candidate_plan_iff_witness:
  "check_candidate_plan (held_sample_plan [sample_loc 2 2 ''HELD'']) (sample_request [linked_edit ''a'' ''x'']) = None \<and>
   open_items (held_sample_plan [sample_loc 2 2 ''HELD'']) = {''i1''}"
proof -
  let ?p = "held_sample_plan [sample_loc 2 2 ''HELD'']" and ?r = "sample_request [linked_edit ''a'' ''x'']"
  have "check_candidate_plan ?p ?r = None" by code_simp
  moreover from this have "set (cr_addressed_item_ids ?r) = open_items ?p"
    using check_candidate_plan_iff [of ?p ?r] by blast
  ultimately show ?thesis by (simp add: sample_request_def)
qed

end
