(* ===== verification/PartialReview.thy ===== *)
theory PartialReview
  imports Holds
begin

section \<open>Partial reviews: adopting a candidate around held lines\<close>

text \<open>
  The second half of \<open>internal/agent/partial_review.go\<close>: what a reviewer must have said before a
  candidate may be adopted while some locations stay held, when a reviewer's question may go back
  to the editor, and the shape checks of the hold part of a review. Go's sets are HOL sets.
\<close>

datatype review_error =
    RevNotPartial | RevHoldCount | RevHoldAssessment | RevAssessment | RevViolation | RevClearsHold
  | RevOmitsHeldRule | RevIssueScope | RevOmitsRules | RevUnknownRule | RevHolds hold_error
  | RevBadHold | RevHoldSource location_error | RevHoldInvalid

subsection \<open>Issues inside held locations\<close>

definition issue_within :: "review_issue \<Rightarrow> source_location \<Rightarrow> bool" where
  "issue_within issue loc \<longleftrightarrow>
     ri_start_line issue \<ge> sl_start_line loc \<and> ri_end_line issue \<ge> ri_start_line issue \<and>
     ri_end_line issue \<le> sl_end_line loc \<and>
     validate_source_location (sl_excerpt loc)
       \<lparr>sl_start_line = ri_start_line issue - sl_start_line loc + 1,
        sl_end_line = ri_end_line issue - sl_start_line loc + 1,
        sl_excerpt = ri_excerpt issue\<rparr> = None"

definition issue_within_holds :: "review_issue \<Rightarrow> review_hold list \<Rightarrow> bool" where
  "issue_within_holds issue holds \<longleftrightarrow>
     list_ex (\<lambda>h. rh_rule_id h = ri_rule_id issue \<and>
       list_ex (issue_within issue) (rh_source_locations h)) holds"

subsection \<open>Approval with holds\<close>

fun hold_approvals ::
  "item_id set \<Rightarrow> item_id set \<Rightarrow> review_hold_assessment list \<Rightarrow> review_error option" where
  "hold_approvals known seen [] = None"
| "hold_approvals known seen (a # as) =
     (if ha_item_id a \<notin> known \<or> ha_item_id a \<in> seen \<or> ha_status a \<noteq> H_preserved \<or> blank (ha_reason a)
      then Some RevHoldAssessment
      else hold_approvals known (insert (ha_item_id a) seen) as)"

fun rule_approvals ::
  "rule_id set \<Rightarrow> rule_id set \<Rightarrow> review_assessment list \<Rightarrow> (review_error, rule_id set) outcome" where
  "rule_approvals held assessed [] = Inr assessed"
| "rule_approvals held assessed (a # as) =
     (if ra_rule_id a \<in> assessed \<or> blank (ra_reason a) \<or>
         (ra_status a \<noteq> A_satisfied \<and> ra_status a \<noteq> A_not_applicable \<and> ra_status a \<noteq> A_needs_human)
      then Inl RevAssessment
      else if ra_status a = A_violated \<or> ra_status a = A_needs_human \<and> ra_rule_id a \<notin> held
      then Inl RevViolation
      else if ra_rule_id a \<in> held \<and> ra_status a \<noteq> A_needs_human then Inl RevClearsHold
      else rule_approvals held (insert (ra_rule_id a) assessed) as)"

definition check_review_hold_approval ::
  "independent_review \<Rightarrow> review_hold list \<Rightarrow> review_error option" where
  "check_review_hold_approval review holds =
     (if rv_verdict review \<noteq> V_passed_with_holds \<or> holds = [] then Some RevNotPartial
      else if length (rv_hold_assessments review) \<noteq> length holds then Some RevHoldCount
      else
     (case hold_approvals (rh_item_id ` set holds) {} (rv_hold_assessments review) of
        Some e \<Rightarrow> Some e
      | None \<Rightarrow>
     (case rule_approvals (rh_rule_id ` set holds) {} (rv_assessments review) of
        Inl e \<Rightarrow> Some e
      | Inr assessed \<Rightarrow>
          if \<not> rh_rule_id ` set holds \<subseteq> assessed then Some RevOmitsHeldRule
          else if list_ex (\<lambda>i. ri_kind i \<noteq> K_needs_human \<or> ri_line_basis i \<noteq> L_before
              \<or> \<not> issue_within_holds i holds) (rv_issues review)
          then Some RevIssueScope
          else None)))"

definition check_partial_review :: "independent_review \<Rightarrow> repair_plan \<Rightarrow> review_error option" where
  "check_partial_review review plan =
     (case candidate_holds plan of
        Inl e \<Rightarrow> Some (RevHolds e)
      | Inr holds \<Rightarrow>
          if length (rv_assessments review) \<noteq> length (rp_decisions plan) then Some RevOmitsRules
          else if list_ex (\<lambda>a. ra_rule_id a \<notin> pd_rule_id ` set (rp_decisions plan)) (rv_assessments review)
          then Some RevUnknownRule
          else check_review_hold_approval review holds)"

subsection \<open>Returning a question to the editor\<close>

definition issue_locatable :: "string \<Rightarrow> review_issue \<Rightarrow> bool" where
  "issue_locatable original i =
     (case ri_line_basis i of
        L_before \<Rightarrow> True
      | L_after \<Rightarrow>
          str_count original (trim_suffix (ri_excerpt i) [LF]) = 1 \<and>
          (case resolve_source_location original \<lparr>sl_start_line = ri_start_line i,
                  sl_end_line = ri_end_line i, sl_excerpt = ri_excerpt i\<rparr> of
             Inl _ \<Rightarrow> False | Inr _ \<Rightarrow> True)
      | L_other _ \<Rightarrow> False)"

fun replan_issues ::
  "string \<Rightarrow> rule_id set \<Rightarrow> review_issue list \<Rightarrow> rule_id set \<Rightarrow> rule_id set option" where
  "replan_issues original asked [] found = Some found"
| "replan_issues original asked (i # is) found =
     (if ri_kind i \<noteq> K_needs_human \<and> ri_kind i \<noteq> K_unset then replan_issues original asked is found
      else if ri_rule_id i \<notin> asked then None
      else if \<not> issue_locatable original i then None
      else replan_issues original asked is (insert (ri_rule_id i) found))"

definition asked_rules :: "independent_review \<Rightarrow> rule_id set" where
  "asked_rules review =
     set (map ra_rule_id (filter (\<lambda>a. ra_status a = A_needs_human) (rv_assessments review)) @
          map ri_rule_id (filter (\<lambda>i. ri_kind i = K_needs_human) (rv_issues review)))"

definition can_replan_review_hold ::
  "independent_review \<Rightarrow> candidate_record \<Rightarrow> string \<Rightarrow> bool" where
  "can_replan_review_hold review candidate original =
     (if ca_no_change candidate \<or> cr_edits (ca_request candidate) = [] then
        list_ex (\<lambda>i. ri_kind i = K_needs_changes) (rv_issues review)
      else if asked_rules review = {} then False
      else (case replan_issues original (asked_rules review) (rv_issues review) {} of
              None \<Rightarrow> False
            | Some found \<Rightarrow> asked_rules review \<subseteq> found))"

subsection \<open>Shape of holds and of their assessments\<close>

fun check_hold_sources :: "string \<Rightarrow> source_location list \<Rightarrow> review_error option" where
  "check_hold_sources original [] = None"
| "check_hold_sources original (loc # locs) =
     (case validate_source_location original loc of
        Some e \<Rightarrow> Some (RevHoldSource e)
      | None \<Rightarrow> check_hold_sources original locs)"

fun review_holds_loop ::
  "string \<Rightarrow> rule_id set \<Rightarrow> item_id set \<Rightarrow> review_hold list \<Rightarrow> review_error option" where
  "review_holds_loop original rules seen [] = None"
| "review_holds_loop original rules seen (h # hs) =
     (if \<not> valid_rule_id (rh_item_id h) \<or> rh_item_id h \<in> seen \<or> rh_rule_id h \<notin> rules
         \<or> \<not> valid_plan_text (rh_reason h) \<or> rh_source_locations h = []
      then Some RevBadHold
      else (case check_hold_sources original (rh_source_locations h) of
              Some e \<Rightarrow> Some e
            | None \<Rightarrow> review_holds_loop original rules (insert (rh_item_id h) seen) hs))"

definition validate_review_holds ::
  "review_hold list \<Rightarrow> string \<Rightarrow> rule_id set \<Rightarrow> review_error option" where
  "validate_review_holds holds original rules = review_holds_loop original rules {} holds"

fun hold_assessments_loop ::
  "item_id set \<Rightarrow> item_id set \<Rightarrow> review_hold_assessment list \<Rightarrow> review_error option" where
  "hold_assessments_loop known seen [] = None"
| "hold_assessments_loop known seen (a # as) =
     (if ha_item_id a \<notin> known \<or> ha_item_id a \<in> seen
         \<or> (ha_status a \<noteq> H_preserved \<and> ha_status a \<noteq> H_unsafe) \<or> \<not> valid_plan_text (ha_reason a)
      then Some RevHoldInvalid
      else hold_assessments_loop known (insert (ha_item_id a) seen) as)"

definition validate_review_hold_assessments ::
  "review_hold_assessment list \<Rightarrow> review_hold list \<Rightarrow> review_error option" where
  "validate_review_hold_assessments assessments holds =
     (if length assessments \<noteq> length holds then Some RevHoldCount
      else hold_assessments_loop (rh_item_id ` set holds) {} assessments)"

subsection \<open>What an approval contains\<close>

lemma hold_approvals_None:
  "hold_approvals known seen as = None \<longleftrightarrow>
     distinct (map ha_item_id as) \<and> ha_item_id ` set as \<inter> seen = {} \<and> ha_item_id ` set as \<subseteq> known \<and>
     (\<forall>a \<in> set as. ha_status a = H_preserved \<and> \<not> blank (ha_reason a))"
  by (induction as arbitrary: seen) auto

lemma hold_assessments_loop_None:
  "hold_assessments_loop known seen as = None \<longleftrightarrow>
     distinct (map ha_item_id as) \<and> ha_item_id ` set as \<inter> seen = {} \<and> ha_item_id ` set as \<subseteq> known \<and>
     (\<forall>a \<in> set as. (ha_status a = H_preserved \<or> ha_status a = H_unsafe) \<and> valid_plan_text (ha_reason a))"
  by (induction as arbitrary: seen) auto

text \<open>The verdict a partial approval needs for a rule: open for held rules, closed for all others.\<close>

definition settled :: "rule_id set \<Rightarrow> review_assessment \<Rightarrow> bool" where
  "settled held a \<longleftrightarrow> \<not> blank (ra_reason a) \<and>
     (if ra_rule_id a \<in> held then ra_status a = A_needs_human
      else ra_status a = A_satisfied \<or> ra_status a = A_not_applicable)"

lemma rule_approvals_Inr:
  "rule_approvals held assessed as = Inr s \<longleftrightarrow>
     distinct (map ra_rule_id as) \<and> ra_rule_id ` set as \<inter> assessed = {} \<and>
     (\<forall>a \<in> set as. settled held a) \<and> s = assessed \<union> ra_rule_id ` set as"
  by (induction as arbitrary: assessed) (auto simp: settled_def)

lemma distinct_keys_cover:
  assumes "distinct (map f xs)" "f ` set xs \<subseteq> A" "finite A" "card A \<le> length xs"
  shows "f ` set xs = A"
  using assms by (metis card_seteq distinct_card length_map set_map)

lemma check_review_hold_approval_None:
  "check_review_hold_approval review holds = None \<longleftrightarrow>
     rv_verdict review = V_passed_with_holds \<and> holds \<noteq> [] \<and>
     length (rv_hold_assessments review) = length holds \<and>
     distinct (map ha_item_id (rv_hold_assessments review)) \<and>
     ha_item_id ` set (rv_hold_assessments review) \<subseteq> rh_item_id ` set holds \<and>
     (\<forall>a \<in> set (rv_hold_assessments review). ha_status a = H_preserved \<and> \<not> blank (ha_reason a)) \<and>
     distinct (map ra_rule_id (rv_assessments review)) \<and>
     (\<forall>a \<in> set (rv_assessments review). settled (rh_rule_id ` set holds) a) \<and>
     rh_rule_id ` set holds \<subseteq> ra_rule_id ` set (rv_assessments review) \<and>
     (\<forall>i \<in> set (rv_issues review). ri_kind i = K_needs_human \<and> ri_line_basis i = L_before \<and>
        issue_within_holds i holds)"
  unfolding check_review_hold_approval_def outcome_simps hold_approvals_None rule_approvals_Inr
  by (auto simp: list_ex_iff)

text \<open>
  C15. What a partial approval establishes. When \<open>CheckPartialReview\<close> accepts a review of a
  well-formed plan, the verdict is \<open>passed_with_holds\<close> and something is held; every decided rule has
  exactly one assessment, with a reason, left to a human when the rule has a held location and
  satisfied or not applicable otherwise; every blocked item is confirmed as preserved; and every
  issue is a question about original lines inside a held location of its own rule.
\<close>

theorem check_partial_review_sound:
  assumes "wf_plan plan" "check_partial_review review plan = None"
  shows "rv_verdict review = V_passed_with_holds \<and>
    (\<exists>it \<in> set (rp_items plan). pi_status it = S_blocked) \<and>
    (\<forall>d \<in> set (rp_decisions plan). \<exists>!a. a \<in> set (rv_assessments review) \<and> ra_rule_id a = pd_rule_id d) \<and>
    (\<forall>a \<in> set (rv_assessments review). ra_rule_id a \<in> decided plan \<and>
       settled (pi_rule_id ` {it \<in> set (rp_items plan). pi_status it = S_blocked}) a) \<and>
    (\<forall>it \<in> set (rp_items plan). pi_status it = S_blocked \<longrightarrow>
       (\<exists>a \<in> set (rv_hold_assessments review). ha_item_id a = pi_id it \<and> ha_status a = H_preserved)) \<and>
    (\<forall>i \<in> set (rv_issues review). ri_kind i = K_needs_human \<and> ri_line_basis i = L_before \<and>
       (\<exists>it \<in> set (rp_items plan). pi_status it = S_blocked \<and> pi_rule_id it = ri_rule_id i \<and>
          (\<exists>loc \<in> set (pi_source_locations it). issue_within i loc)))"
proof -
  obtain hs where h: "candidate_holds plan = Inr hs"
      "length (rv_assessments review) = length (rp_decisions plan)"
      "\<forall>a \<in> set (rv_assessments review). ra_rule_id a \<in> decided plan"
      "check_review_hold_approval review hs = None"
    using assms(2) unfolding check_partial_review_def outcome_simps by (auto simp: list_ex_iff decided_def)
  note c = h(4)[unfolded check_review_hold_approval_None]
  have hs: "hs = map hold_of (filter (\<lambda>it. pi_status it = S_blocked) (rp_items plan))"
    using h(1) by (simp add: candidate_holds_Inr)
  then have rules: "rh_rule_id ` set hs = pi_rule_id ` {it \<in> set (rp_items plan). pi_status it = S_blocked}"
    by (auto simp: hold_of_def image_image)
  have items: "rh_item_id ` set hs = pi_id ` {it \<in> set (rp_items plan). pi_status it = S_blocked}"
    by (auto simp: hs hold_of_def image_image)
  have d: "distinct (map ra_rule_id (rv_assessments review))" using c by blast
  have "ra_rule_id ` set (rv_assessments review) = decided plan"
  proof (rule distinct_keys_cover [OF d])
    have "distinct (map pd_rule_id (rp_decisions plan))" using assms(1) by (simp add: wf_plan_def)
    then show "card (decided plan) \<le> length (rv_assessments review)"
      by (metis decided_def distinct_card h(2) le_refl length_map set_map)
  qed (use h(3) in \<open>auto simp: decided_def\<close>)
  then have assessed: "\<exists>!a. a \<in> set (rv_assessments review) \<and> ra_rule_id a = pd_rule_id e"
    if "e \<in> set (rp_decisions plan)" for e
    using that d by (auto simp: decided_def distinct_map image_iff set_eq_iff inj_on_def) metis+
  have dist_items: "distinct (map pi_id (rp_items plan))" using assms(1) by (simp add: wf_plan_def)
  have "ha_item_id ` set (rv_hold_assessments review) = rh_item_id ` set hs"
  proof (rule distinct_keys_cover)
    show "card (rh_item_id ` set hs) \<le> length (rv_hold_assessments review)"
      using c card_image_le [of "set hs" rh_item_id] card_length [of hs] by simp
  qed (use c in auto)
  then have preserved: "\<exists>a \<in> set (rv_hold_assessments review). ha_item_id a = pi_id it \<and> ha_status a = H_preserved"
    if "it \<in> set (rp_items plan)" "pi_status it = S_blocked" for it
    using that c items by (auto simp: image_iff set_eq_iff) metis
  have issues: "\<exists>it \<in> set (rp_items plan). pi_status it = S_blocked \<and> pi_rule_id it = ri_rule_id i \<and>
      (\<exists>loc \<in> set (pi_source_locations it). issue_within i loc)"
    if "i \<in> set (rv_issues review)" for i
  proof -
    from c that have "issue_within_holds i hs" by blast
    then show ?thesis by (auto simp: issue_within_holds_def list_ex_iff hs hold_of_def)
  qed
  have held: "\<exists>it \<in> set (rp_items plan). pi_status it = S_blocked"
    using c by (auto simp: hs filter_empty_conv)
  have settled: "\<forall>a \<in> set (rv_assessments review). ra_rule_id a \<in> decided plan \<and>
       settled (pi_rule_id ` {it \<in> set (rp_items plan). pi_status it = S_blocked}) a"
    using c h(3) rules by simp
  have kinds: "\<forall>i \<in> set (rv_issues review). ri_kind i = K_needs_human \<and> ri_line_basis i = L_before"
    using c by blast
  have verdict: "rv_verdict review = V_passed_with_holds" using c by blast
  show ?thesis
    using verdict held settled kinds by (intro conjI ballI impI) (simp_all add: assessed preserved issues)
qed

definition no_usage :: usage where
  "no_usage = \<lparr>us_uncertain = False, us_input_tokens = 0, us_cached_tokens = 0,
     us_output_tokens = 0, us_cost_usd = 0, us_turns = 0\<rparr>"

definition sample_issue :: review_issue where
  "sample_issue = \<lparr>ri_kind = K_needs_human, ri_rule_id = ''r1'', ri_line_basis = L_before,
     ri_excerpt = ''HELD'', ri_start_line = 2, ri_end_line = 2, ri_reason = ''which'',
     ri_location = ''l'', ri_requested_change = ''ask''\<rparr>"

definition sample_review :: independent_review where
  "sample_review = \<lparr>rv_id = ''v'', rv_candidate_id = ''c'', rv_base_hash = ''h'', rv_candidate_hash = ''k'',
     rv_plan_revision = 1, rv_verdict = V_passed_with_holds, rv_summary = [],
     rv_assessments = [\<lparr>ra_rule_id = ''r1'', ra_status = A_needs_human, ra_reason = ''open''\<rparr>],
     rv_issues = [sample_issue],
     rv_hold_assessments = [\<lparr>ha_item_id = ''i2'', ha_status = H_preserved, ha_reason = ''same''\<rparr>],
     rv_usage = no_usage, rv_started_at = [], rv_finished_at = []\<rparr>"

lemma held_sample_plan_wf: "wf_plan (held_sample_plan [sample_loc 2 2 ''HELD''])"
proof -
  have "case validate_plan_snapshot (held_sample_plan [sample_loc 2 2 ''HELD'']) of
      Inl e \<Rightarrow> False | Inr s \<Rightarrow> True" by code_simp
  then show ?thesis using validate_plan_snapshot_Inr by (auto split: sum.splits)
qed

lemma check_partial_review_sound_witness:
  "wf_plan (held_sample_plan [sample_loc 2 2 ''HELD'']) \<and>
   check_partial_review sample_review (held_sample_plan [sample_loc 2 2 ''HELD'']) = None \<and>
   rv_verdict sample_review = V_passed_with_holds"
proof -
  have c: "check_partial_review sample_review (held_sample_plan [sample_loc 2 2 ''HELD'']) = None"
    by code_simp
  from check_partial_review_sound [OF held_sample_plan_wf c] c held_sample_plan_wf show ?thesis
    by blast
qed

lemma replan_issues_Some:
  "replan_issues original asked is found = Some f \<longleftrightarrow>
     (\<forall>i \<in> set is. ri_kind i = K_needs_human \<or> ri_kind i = K_unset \<longrightarrow>
        ri_rule_id i \<in> asked \<and> issue_locatable original i) \<and>
     f = found \<union> ri_rule_id ` {i \<in> set is. ri_kind i = K_needs_human \<or> ri_kind i = K_unset}"
  by (induction "is" arbitrary: found) auto

text \<open>
  When a reviewer's question goes back to the editor. For a candidate that changes something
  it does so exactly when some rule was left to a human, every issue that is not a change request
  concerns such a rule and can be located in the original (it quotes original lines, or its text
  occurs exactly once there and resolves to complete lines), and every such rule has such an
  issue. For an unchanged file it does so exactly when some issue asks for changes.
\<close>

theorem can_replan_review_hold_iff:
  "can_replan_review_hold review candidate original \<longleftrightarrow>
     (if ca_no_change candidate \<or> cr_edits (ca_request candidate) = [] then
        (\<exists>i \<in> set (rv_issues review). ri_kind i = K_needs_changes)
      else asked_rules review \<noteq> {} \<and>
        (\<forall>i \<in> set (rv_issues review). ri_kind i = K_needs_human \<or> ri_kind i = K_unset \<longrightarrow>
           ri_rule_id i \<in> asked_rules review \<and> issue_locatable original i) \<and>
        (\<forall>rid \<in> asked_rules review. \<exists>i \<in> set (rv_issues review).
           ri_rule_id i = rid \<and> (ri_kind i = K_needs_human \<or> ri_kind i = K_unset)))"
proof (cases "replan_issues original (asked_rules review) (rv_issues review) {}")
  case None
  then have "\<not> (\<forall>i \<in> set (rv_issues review). ri_kind i = K_needs_human \<or> ri_kind i = K_unset \<longrightarrow>
        ri_rule_id i \<in> asked_rules review \<and> issue_locatable original i)"
    using replan_issues_Some [of original "asked_rules review" "rv_issues review" "{}"
        "ri_rule_id ` {i \<in> set (rv_issues review). ri_kind i = K_needs_human \<or> ri_kind i = K_unset}"]
    by auto
  with None show ?thesis by (simp add: can_replan_review_hold_def list_ex_iff)
next
  case (Some f)
  have "asked_rules review \<subseteq> ri_rule_id ` {i \<in> set (rv_issues review). ri_kind i = K_needs_human \<or> ri_kind i = K_unset}
      \<longleftrightarrow> (\<forall>rid \<in> asked_rules review. \<exists>i \<in> set (rv_issues review).
           ri_rule_id i = rid \<and> (ri_kind i = K_needs_human \<or> ri_kind i = K_unset))"
    by (auto simp: subset_iff image_iff)
  with Some show ?thesis
    using replan_issues_Some [of original "asked_rules review" "rv_issues review" "{}" f]
    by (simp add: can_replan_review_hold_def list_ex_iff)
qed

definition sample_candidate :: "edit list \<Rightarrow> candidate_record" where
  "sample_candidate es = \<lparr>ca_no_change = False, ca_request = sample_request es,
     ca_result = \<lparr>cv_attribution_version = 2, cv_candidate_id = ''c'', cv_candidate_hash = ''k'',
       cv_plan_revision = 1, cv_passed = True, cv_checks = [], cv_edit_ranges = []\<rparr>,
     ca_review_requested = False, ca_review_note = [], ca_review = None\<rparr>"

lemma can_replan_review_hold_iff_witness:
  "can_replan_review_hold sample_review (sample_candidate [linked_edit ''a'' ''x'']) sample_lines \<and>
   asked_rules sample_review = {''r1''}"
proof -
  have "can_replan_review_hold sample_review (sample_candidate [linked_edit ''a'' ''x'']) sample_lines"
    by code_simp
  moreover have "asked_rules sample_review = {''r1''}" by code_simp
  ultimately show ?thesis
    using can_replan_review_hold_iff [of sample_review "sample_candidate [linked_edit ''a'' ''x'']" sample_lines]
    by simp
qed

end
