(* ===== verification/Staging.thy ===== *)
theory Staging
  imports CandidatePlan
begin

section \<open>Staged edits: a candidate built over several calls\<close>

text \<open>
  \<open>stagedRequest\<close> and \<open>stageEdits\<close> of \<open>internal/agent/incremental.go\<close>. Staged edits are keyed by
  an ID; a call removes some, inserts or replaces others, and is accepted only when the whole
  staged set is still a set of exact edits that respects the held lines. Every accepted call drops
  the last validated candidate.
\<close>

datatype stage_error =
    StageStale | StageBase | StageRemoveDuplicate | StageRemoveUnknown string | StageBadId
  | StageNoItems | StageItem string item_id | StageShape candidate_error
  | StageExact edit_error | StageHold hold_error

text \<open>\<open>items[item.ID] = item\<close> over the plan: a later item with the same ID wins.\<close>

definition plan_item_map :: "repair_plan \<Rightarrow> item_map" where
  "plan_item_map plan = fold (\<lambda>it m. m(pi_id it \<mapsto> it)) (rp_items plan) Map.empty"

fun add_ids :: "item_id list \<Rightarrow> item_id list \<Rightarrow> item_id list" where
  "add_ids [] acc = acc"
| "add_ids (i # is) acc = add_ids is (if i \<in> set acc then acc else acc @ [i])"

definition staged_request :: "repair_state \<Rightarrow> string \<Rightarrow> candidate_request" where
  "staged_request state base_hash =
     \<lparr>cr_plan_revision = rp_revision (rs_plan state), cr_base_hash = base_hash,
      cr_edits = map se_edit (rs_staged_edits state),
      cr_addressed_item_ids =
        fold (\<lambda>entry acc. add_ids (ed_item_ids (se_edit entry)) acc) (rs_staged_edits state) []\<rparr>"

fun stage_removals ::
  "string list \<Rightarrow> string set \<Rightarrow> staged_edit list \<Rightarrow> (stage_error, string set \<times> staged_edit list) outcome" where
  "stage_removals [] touched staged = Inr (touched, staged)"
| "stage_removals (eid # eids) touched staged =
     (if eid \<in> touched then Inl StageRemoveDuplicate
      else (case remove_key se_id eid staged of
              None \<Rightarrow> Inl (StageRemoveUnknown eid)
            | Some rest \<Rightarrow> stage_removals eids (insert eid touched) rest))"

fun stage_link :: "item_map \<Rightarrow> string \<Rightarrow> item_id list \<Rightarrow> item_id set \<Rightarrow> (stage_error, item_id set) outcome" where
  "stage_link items eid [] linked = Inr linked"
| "stage_link items eid (iid # iids) linked =
     (case items iid of
        None \<Rightarrow> Inl (StageItem eid iid)
      | Some it \<Rightarrow>
          if iid \<in> linked \<or> pi_status it = S_blocked then Inl (StageItem eid iid)
          else stage_link items eid iids (insert iid linked))"

fun stage_upserts ::
  "item_map \<Rightarrow> staged_edit list \<Rightarrow> string set \<Rightarrow> staged_edit list \<Rightarrow> (stage_error, staged_edit list) outcome" where
  "stage_upserts items [] touched staged = Inr staged"
| "stage_upserts items (entry # entries) touched staged =
     (if \<not> valid_rule_id (se_id entry) \<or> se_id entry \<in> touched then Inl StageBadId
      else if ed_item_ids (se_edit entry) = [] then Inl StageNoItems
      else (case stage_link items (se_id entry) (ed_item_ids (se_edit entry)) {} of
              Inl e \<Rightarrow> Inl e
            | Inr linked \<Rightarrow>
                (case check_edit_attribution_shape 0 (se_edit entry) linked of
                   Some e \<Rightarrow> Inl (StageShape e)
                 | None \<Rightarrow> stage_upserts items entries (insert (se_id entry) touched)
                             (upsert_key se_id entry staged))))"

definition stage_edits ::
  "repair_state \<Rightarrow> stage_edits_request \<Rightarrow> string \<Rightarrow> string \<Rightarrow> (stage_error, repair_state) outcome" where
  "stage_edits state update original base_hash =
     (if sr_plan_revision update \<noteq> rp_revision (rs_plan state) \<or> rp_revision (rs_plan state) < 1
      then Inl StageStale
      else if sr_base_hash update \<noteq> base_hash then Inl StageBase
      else
     (case stage_removals (sr_remove_edit_ids update) {} (rs_staged_edits state) of
        Inl e \<Rightarrow> Inl e
      | Inr (touched, staged0) \<Rightarrow>
     (case stage_upserts (plan_item_map (rs_plan state)) (sr_edits update) touched staged0 of
        Inl e \<Rightarrow> Inl e
      | Inr staged \<Rightarrow>
          let request = staged_request (state\<lparr>rs_staged_edits := staged\<rparr>) base_hash;
              accepted = state\<lparr>rs_staged_edits := staged, rs_last_candidate := None\<rparr> in
          if staged = [] then Inr accepted
          else (case validate_exact_edits (cr_edits request) original of
                  Some e \<Rightarrow> Inl (StageExact e)
                | None \<Rightarrow>
                    (case check_candidate_holds (rs_plan state) request original of
                       Some e \<Rightarrow> Inl (StageHold e)
                     | None \<Rightarrow> Inr accepted)))))"

subsection \<open>What an accepted call changes\<close>

lemma stage_removals_Inr:
  assumes "stage_removals ids touched staged = Inr (t', staged')" "distinct (map se_id staged)"
  shows "distinct ids \<and> set ids \<inter> touched = {} \<and> set ids \<subseteq> se_id ` set staged \<and> t' = touched \<union> set ids \<and>
     distinct (map se_id staged') \<and> set staged' \<subseteq> set staged \<and>
     (\<forall>k. find_key se_id k staged' = (if k \<in> set ids then None else find_key se_id k staged))"
  using assms
proof (induction ids arbitrary: touched staged)
  case (Cons i ids)
  obtain rest where rest: "remove_key se_id i staged = Some rest"
      "stage_removals ids (insert i touched) rest = Inr (t', staged')" "i \<notin> touched"
    using Cons.prems(1) by (auto split: if_splits option.splits)
  note rm = remove_key_distinct [OF rest(1) Cons.prems(2)]
  have "i \<in> se_id ` set staged" using rest(1) by (metis option.distinct(1) remove_key_None_iff)
  moreover have "set rest \<subseteq> set staged" by (rule remove_key_set [OF rest(1)])
  ultimately show ?case using Cons.IH [OF rest(2) rm(1)] rest rm by auto
qed simp

lemma stage_link_Inr:
  "stage_link items eid iids linked = Inr l \<longleftrightarrow>
     distinct iids \<and> set iids \<inter> linked = {} \<and> l = linked \<union> set iids \<and>
     (\<forall>iid \<in> set iids. \<exists>it. items iid = Some it \<and> pi_status it \<noteq> S_blocked)"
  by (induction iids arbitrary: linked) (auto split: option.splits)

definition stageable :: "item_map \<Rightarrow> staged_edit \<Rightarrow> bool" where
  "stageable items entry \<longleftrightarrow> valid_rule_id (se_id entry) \<and> ed_item_ids (se_edit entry) \<noteq> [] \<and>
     distinct (ed_item_ids (se_edit entry)) \<and> attributed (se_edit entry) \<and>
     (\<forall>iid \<in> set (ed_item_ids (se_edit entry)). \<exists>it. items iid = Some it \<and> pi_status it \<noteq> S_blocked)"

lemma stage_upserts_Inr:
  "stage_upserts items entries touched staged = Inr staged' \<longleftrightarrow>
     (\<forall>entry \<in> set entries. stageable items entry) \<and> distinct (map se_id entries) \<and>
     se_id ` set entries \<inter> touched = {} \<and> staged' = fold (upsert_key se_id) entries staged"
proof (induction entries arbitrary: touched staged)
  case (Cons entry entries)
  have link: "stage_link items (se_id entry) (ed_item_ids (se_edit entry)) {} = Inr l \<longleftrightarrow>
      distinct (ed_item_ids (se_edit entry)) \<and> l = set (ed_item_ids (se_edit entry)) \<and>
      (\<forall>iid \<in> set (ed_item_ids (se_edit entry)). \<exists>it. items iid = Some it \<and> pi_status it \<noteq> S_blocked)" for l
    by (auto simp: stage_link_Inr)
  show ?case
    unfolding stage_upserts.simps outcome_simps link Cons.IH
    by (auto simp: stageable_def check_edit_attribution_shape_None)
qed auto

lemma add_ids_set: "set (add_ids is acc) = set is \<union> set acc"
  by (induction "is" acc rule: add_ids.induct) auto

lemma add_ids_distinct: "distinct acc \<Longrightarrow> distinct (add_ids is acc)"
  by (induction "is" acc rule: add_ids.induct) auto

lemma staged_request_ids:
  "set (cr_addressed_item_ids (staged_request state h)) =
     (\<Union>entry \<in> set (rs_staged_edits state). set (ed_item_ids (se_edit entry)))"
  "distinct (cr_addressed_item_ids (staged_request state h))"
proof -
  let ?f = "\<lambda>entry acc. add_ids (ed_item_ids (se_edit entry)) acc"
  have "set (fold ?f es acc) = set acc \<union> (\<Union>entry \<in> set es. set (ed_item_ids (se_edit entry)))" for es acc
    by (induction es arbitrary: acc) (auto simp: add_ids_set)
  from this [of "rs_staged_edits state" "[]"]
  show "set (cr_addressed_item_ids (staged_request state h)) =
     (\<Union>entry \<in> set (rs_staged_edits state). set (ed_item_ids (se_edit entry)))"
    by (simp add: staged_request_def)
  have "distinct acc \<Longrightarrow> distinct (fold ?f es acc)" for es acc
    by (induction es arbitrary: acc) (auto intro: add_ids_distinct)
  from this [of "[]" "rs_staged_edits state"] show "distinct (cr_addressed_item_ids (staged_request state h))"
    by (simp add: staged_request_def)
qed

lemma stage_edits_Inr:
  "stage_edits state update original h = Inr state' \<longleftrightarrow>
     sr_plan_revision update = rp_revision (rs_plan state) \<and> 1 \<le> rp_revision (rs_plan state) \<and>
     sr_base_hash update = h \<and>
     (\<exists>touched staged0 staged.
        stage_removals (sr_remove_edit_ids update) {} (rs_staged_edits state) = Inr (touched, staged0) \<and>
        stage_upserts (plan_item_map (rs_plan state)) (sr_edits update) touched staged0 = Inr staged \<and>
        state' = state\<lparr>rs_staged_edits := staged, rs_last_candidate := None\<rparr> \<and>
        (staged \<noteq> [] \<longrightarrow> validate_exact_edits (map se_edit staged) original = None \<and>
          check_candidate_holds (rs_plan state)
            (staged_request (state\<lparr>rs_staged_edits := staged\<rparr>) h) original = None))"
proof -
  have r: "cr_edits (staged_request (state\<lparr>rs_staged_edits := staged\<rparr>) h) = map se_edit staged" for staged
    by (simp add: staged_request_def)
  show ?thesis
    unfolding stage_edits_def Let_def outcome_simps r
    by (auto simp: not_less outcome_simps split: prod.splits if_splits)
qed

text \<open>
  C17. Staging changes exactly what it names and keeps the staged set applicable. On staged edits
  with distinct IDs, an accepted call leaves the edits of the request under their IDs, none of the
  removed ones (which all existed and are not re-added) and all others as they were, again with
  distinct IDs; the whole set is empty or materialises to the simultaneous replacement of the
  original and passes the hold check; nothing else of the state changes except that the last
  candidate is dropped.
\<close>

theorem stage_edits_delta:
  assumes "distinct (map se_id (rs_staged_edits state))"
    "stage_edits state update original h = Inr state'"
  shows "(\<lambda>k. find_key se_id k (rs_staged_edits state')) =
       ((\<lambda>k. find_key se_id k (rs_staged_edits state)) |` (- set (sr_remove_edit_ids update)))
         ++ (\<lambda>k. find_key se_id k (sr_edits update)) \<and>
     set (sr_remove_edit_ids update) \<subseteq> se_id ` set (rs_staged_edits state) - se_id ` set (sr_edits update) \<and>
     distinct (map se_id (rs_staged_edits state')) \<and>
     (\<exists>t. materialize_edits original (map se_edit (rs_staged_edits state')) = Inr t) \<and>
     (rs_staged_edits state' = [] \<or>
        check_candidate_holds (rs_plan state) (staged_request state' h) original = None) \<and>
     state' = state\<lparr>rs_staged_edits := rs_staged_edits state', rs_last_candidate := None\<rparr>"
proof -
  obtain touched staged0 staged where s:
      "stage_removals (sr_remove_edit_ids update) {} (rs_staged_edits state) = Inr (touched, staged0)"
      "stage_upserts (plan_item_map (rs_plan state)) (sr_edits update) touched staged0 = Inr staged"
      "state' = state\<lparr>rs_staged_edits := staged, rs_last_candidate := None\<rparr>"
      "staged \<noteq> [] \<longrightarrow> validate_exact_edits (map se_edit staged) original = None \<and>
          check_candidate_holds (rs_plan state)
            (staged_request (state\<lparr>rs_staged_edits := staged\<rparr>) h) original = None"
    using assms(2) unfolding stage_edits_Inr by blast
  note r = stage_removals_Inr [OF s(1) assms(1)]
  note u = s(2)[unfolded stage_upserts_Inr]
  have st: "rs_staged_edits state' = staged" by (simp add: s(3))
  have find: "find_key se_id k staged = (case find_key se_id k (sr_edits update) of Some x \<Rightarrow> Some x
      | None \<Rightarrow> if k \<in> set (sr_remove_edit_ids update) then None else find_key se_id k (rs_staged_edits state))" for k
    using r u by (simp add: fold_upsert_key split: option.split)
  have "(\<lambda>k. find_key se_id k staged) =
       ((\<lambda>k. find_key se_id k (rs_staged_edits state)) |` (- set (sr_remove_edit_ids update)))
         ++ (\<lambda>k. find_key se_id k (sr_edits update))"
    by (rule ext) (simp add: find map_add_def restrict_map_def split: option.splits)
  moreover have "set (sr_remove_edit_ids update) \<subseteq>
      se_id ` set (rs_staged_edits state) - se_id ` set (sr_edits update)"
    using r u by auto
  moreover have "distinct (map se_id staged)" using r u by (simp add: distinct_fold_upsert_key)
  moreover have "\<exists>t. materialize_edits original (map se_edit staged) = Inr t"
    using s(4) by (auto simp: materialize_edits_Inr)
  moreover have "staged_request state' h = staged_request (state\<lparr>rs_staged_edits := staged\<rparr>) h"
    by (simp add: s(3) staged_request_def)
  ultimately show ?thesis using s(3,4) st by auto
qed

definition sample_state :: "repair_plan \<Rightarrow> repair_state" where
  "sample_state plan = \<lparr>rs_version = 1, rs_plan = plan, rs_last_candidate = None, rs_staged_edits = [],
     rs_usage = \<lparr>us_uncertain = False, us_input_tokens = 0, us_cached_tokens = 0,
       us_output_tokens = 0, us_cost_usd = 0, us_turns = 0\<rparr>,
     rs_elapsed_ms = 0, rs_tool_calls = 0, rs_read_bytes = 0, rs_validation_count = 0,
     rs_request_pending = False, rs_request_id = [], rs_read_rule_ids = [],
     rs_rule_read_offsets = Map.empty, rs_review_count = 0, rs_reviews = [], rs_request_kind = []\<rparr>"

definition sample_stage :: stage_edits_request where
  "sample_stage = \<lparr>sr_plan_revision = 1, sr_base_hash = ''h'',
     sr_edits = [\<lparr>se_id = ''e1'', se_edit = linked_edit ''a'' ''x''\<rparr>], sr_remove_edit_ids = []\<rparr>"

lemma sample_stage_ok:
  "stage_edits (sample_state (held_sample_plan [sample_loc 2 2 ''HELD''])) sample_stage sample_lines ''h'' =
     Inr (sample_state (held_sample_plan [sample_loc 2 2 ''HELD''])
       \<lparr>rs_staged_edits := [\<lparr>se_id = ''e1'', se_edit = linked_edit ''a'' ''x''\<rparr>]\<rparr>)"
proof -
  let ?p = "held_sample_plan [sample_loc 2 2 ''HELD'']"
  let ?e = "\<lparr>se_id = ''e1'', se_edit = linked_edit ''a'' ''x''\<rparr>"
  have r: "stage_removals (sr_remove_edit_ids sample_stage) {} (rs_staged_edits (sample_state ?p)) = Inr ({}, [])"
    by (simp add: sample_stage_def sample_state_def)
  have "stage_upserts (plan_item_map ?p) (sr_edits sample_stage) {} [] = Inr [?e]" by code_simp
  then have u: "stage_upserts (plan_item_map (rs_plan (sample_state ?p))) (sr_edits sample_stage) {} [] = Inr [?e]"
    by (simp add: sample_state_def)
  have x: "validate_exact_edits [linked_edit ''a'' ''x''] sample_lines = None" by code_simp
  have "check_candidate_holds ?p (sample_request [linked_edit ''a'' ''x'']) sample_lines = None"
    by code_simp
  moreover have "staged_request (sample_state ?p\<lparr>rs_staged_edits := [?e]\<rparr>) ''h'' =
      sample_request [linked_edit ''a'' ''x'']"
    by (simp add: staged_request_def sample_state_def sample_request_def held_sample_plan_def
        linked_edit_def sample_edit_def)
  ultimately show ?thesis
    unfolding stage_edits_Inr using r u x
    by (intro conjI exI [of _ "{}"] exI [of _ "[]"] exI [of _ "[?e]"])
      (simp_all add: sample_stage_def sample_state_def held_sample_plan_def)
qed

lemma stage_edits_delta_witness:
  "\<exists>t. materialize_edits sample_lines [linked_edit ''a'' ''x''] = Inr t"
proof -
  have "distinct (map se_id (rs_staged_edits (sample_state (held_sample_plan [sample_loc 2 2 ''HELD'']))))"
    by (simp add: sample_state_def)
  from stage_edits_delta [OF this sample_stage_ok] show ?thesis by simp
qed

end
