(* ===== verification/Paging.thy ===== *)
theory Paging
  imports Model "HOL-Library.Multiset"
begin

section \<open>Paged reads: bounded transfers of unbounded documents\<close>

text \<open>
  \<open>pageText\<close>, \<open>sourceRange\<close>, \<open>readRulePage\<close> and \<open>readRulesPaged\<close> of
  \<open>internal/agent/incremental.go\<close>. One transfer is bounded both in document bytes and in the bytes
  of its JSON form; the next offset is a rune boundary. A rule counts as read only when a
  contiguous prefix of pages reached its end. The catalog's reader \<open>in.ReadRule\<close> is a parameter.
\<close>

definition context_page_bytes :: nat where "context_page_bytes = 24 * 1024"

subsection \<open>The length of a JSON string\<close>

text \<open>
  \<open>json.Marshal\<close> of a string, as Go encodes it: two quotes; two bytes for the quote, the backslash
  and the control characters with a short form; six bytes (a backslash, \<open>u\<close> and four digits) for the other control characters, for
  \<open><\<close>, \<open>>\<close>, \<open>&\<close>, for the line separators U+2028 and U+2029 and for a byte that is not UTF-8.
\<close>

definition json_rune_len :: "string \<Rightarrow> nat" where
  "json_rune_len r =
     (case r of
        [] \<Rightarrow> 0
      | [c] \<Rightarrow>
          (let n = (of_char c :: nat) in
           if n = 0x22 \<or> n = 0x5C \<or> n = 0x0A \<or> n = 0x0D \<or> n = 0x09 \<or> n = 0x08 \<or> n = 0x0C then 2
           else if n < 0x20 \<or> n = 0x3C \<or> n = 0x3E \<or> n = 0x26 then 6
           else 1)
      | _ \<Rightarrow>
          if r = [CHR 0xE2, CHR 0x80, CHR 0xA8] \<or> r = [CHR 0xE2, CHR 0x80, CHR 0xA9] then 6
          else length r)"

function json_body_len :: "string \<Rightarrow> nat" where
  "json_body_len s =
     (if s = [] then 0
      else (case rune_width s of
              None \<Rightarrow> 6 + json_body_len (drop 1 s)
            | Some n \<Rightarrow> json_rune_len (take n s) + json_body_len (drop n s)))"
  by pat_completeness auto
termination
  by (relation "measure length") (auto dest: rune_width_bounds)

declare json_body_len.simps [simp del]

definition json_string_len :: "string \<Rightarrow> nat" where
  "json_string_len s = 2 + json_body_len s"

lemma json_rune_len_bound: "r \<noteq> [] \<Longrightarrow> json_rune_len r \<le> 6 * length r"
  by (auto simp: json_rune_len_def Let_def split: list.splits)

lemma json_body_len_bound: "json_body_len s \<le> 6 * length s"
proof (induction s rule: json_body_len.induct)
  case (1 s)
  show ?case
  proof (cases "s = []")
    case True
    then show ?thesis by (subst json_body_len.simps) simp
  next
    case ne: False
    show ?thesis
    proof (cases "rune_width s")
      case None
      then show ?thesis
        using 1(1) [OF ne None] ne by (subst json_body_len.simps) (cases s; simp)
    next
      case (Some n)
      note b = rune_width_bounds [OF Some]
      have "json_rune_len (take n s) \<le> 6 * n"
        using json_rune_len_bound [of "take n s"] b ne by simp
      moreover have "json_body_len s = json_rune_len (take n s) + json_body_len (drop n s)"
        using ne Some by (subst json_body_len.simps) simp
      moreover have "6 * length s = 6 * (length s - n) + 6 * n"
        using b by (simp flip: add_mult_distrib2)
      ultimately show ?thesis using 1(2) [OF ne Some] by simp
    qed
  qed
qed

subsection \<open>One page\<close>

record text_page =
  tp_content :: string
  tp_offset :: nat
  tp_next :: nat
  tp_complete :: bool
  tp_total :: nat

text \<open>
  The two boundary loops. The first one stops at the latest at the requested offset, which is a
  rune boundary, so it never runs past the start of the doc.
\<close>

fun back_up :: "string \<Rightarrow> nat \<Rightarrow> nat" where
  "back_up doc 0 = 0"
| "back_up doc (Suc e) =
     (if Suc e < length doc \<and> \<not> rune_start (doc ! Suc e) then back_up doc e else Suc e)"

fun back_up_to :: "string \<Rightarrow> nat \<Rightarrow> nat \<Rightarrow> nat" where
  "back_up_to doc lo 0 = 0"
| "back_up_to doc lo (Suc e) =
     (if Suc e < length doc \<and> Suc e > lo \<and> \<not> rune_start (doc ! Suc e)
      then back_up_to doc lo e else Suc e)"

lemma back_up_le: "back_up doc e \<le> e"
  by (induction e) auto

lemma back_up_to_le: "back_up_to doc lo e \<le> e"
  by (induction e) auto

function shrink_page :: "string \<Rightarrow> nat \<Rightarrow> nat \<Rightarrow> nat" where
  "shrink_page doc offset e =
     (if json_string_len (slice offset e doc) > context_page_bytes \<and> e > offset
      then shrink_page doc offset (back_up_to doc offset (offset + (e - offset) div 2))
      else e)"
  by pat_completeness auto
termination
proof (relation "measure (\<lambda>(doc, offset, e). e - offset)")
  fix doc offset e
  assume "json_string_len (slice offset e doc) > context_page_bytes \<and> e > offset"
  then have "offset + (e - offset) div 2 - offset < e - offset" by auto
  with diff_le_mono [OF back_up_to_le]
  have "back_up_to doc offset (offset + (e - offset) div 2) - offset < e - offset"
    by (rule le_less_trans)
  then show "((doc, offset, back_up_to doc offset (offset + (e - offset) div 2)), doc, offset, e)
      \<in> measure (\<lambda>(doc, offset, e). e - offset)" by simp
qed simp

declare shrink_page.simps [simp del]

definition page_end :: "string \<Rightarrow> nat \<Rightarrow> nat" where
  "page_end doc offset =
     shrink_page doc offset (back_up doc (min (length doc) (offset + context_page_bytes)))"

definition page_text :: "string \<Rightarrow> int \<Rightarrow> text_page option" where
  "page_text doc offset =
     (if offset < 0 \<or> offset > int (length doc)
         \<or> offset < int (length doc) \<and> \<not> rune_start (doc ! nat offset) then None
      else
        let e = page_end doc (nat offset) in
        Some \<lparr>tp_content = slice (nat offset) e doc, tp_offset = nat offset,
              tp_next = (if e < length doc then e else 0),
              tp_complete = (e = length doc), tp_total = length doc\<rparr>)"

definition source_range :: "string \<Rightarrow> int \<Rightarrow> int \<Rightarrow> string option" where
  "source_range doc first last_line =
     (if first < 1 \<or> last_line < first then None
      else
        let lines = split_on LF doc in
        if first > int (length lines) then None
        else Some (join_with LF
               (slice (nat (first - 1)) (nat (min last_line (int (length lines)))) lines)))"

subsection \<open>Pages of valid UTF-8\<close>

definition rune_boundary :: "string \<Rightarrow> nat \<Rightarrow> bool" where
  "rune_boundary doc i \<longleftrightarrow> i = length doc \<or> i < length doc \<and> rune_start (doc ! i)"

lemma rune_boundary_near:
  assumes "valid_utf8 doc" "i < length doc"
  shows "\<exists>k \<le> 3. k \<le> i \<and> rune_start (doc ! (i - k))"
  using assms
proof (induction doc arbitrary: i rule: valid_utf8.induct)
  case (1 s)
  have ne: "s \<noteq> []" using 1 by auto
  obtain n where n: "rune_width s = Some n" "valid_utf8 (drop n s)"
    using 1 valid_utf8_step [OF ne] by blast
  note b = rune_width_bounds [OF n(1)]
  show ?case
  proof (cases "i < n")
    case True
    then show ?thesis using b rune_width_start [OF n(1)] by (intro exI [of _ i]) auto
  next
    case False
    then have "i - n < length (drop n s)" using 1 by simp
    then obtain k where k: "k \<le> 3" "k \<le> i - n" "rune_start (drop n s ! (i - n - k))"
      using "1.IH" [OF ne n(1) n(2)] by blast
    moreover have "drop n s ! (i - n - k) = s ! (i - k)"
      using False k b 1 by (simp add: nth_drop)
    ultimately show ?thesis by (intro exI [of _ k]) auto
  qed
qed

lemma slice_valid_utf8:
  assumes "valid_utf8 doc" "rune_boundary doc i" "rune_boundary doc j" "i \<le> j"
  shows "valid_utf8 (slice i j doc)"
proof (cases "j < length doc")
  case True
  then have t: "valid_utf8 (take j doc)"
    using valid_utf8_cut [OF assms(1) True] assms(3) by (auto simp: rune_boundary_def)
  have "slice i j doc = drop i (take j doc)" by (simp add: slice_def drop_take)
  moreover have "valid_utf8 (drop i (take j doc))"
  proof (cases "i < j")
    case ij: True
    then have "rune_start (take j doc ! i)" using assms(2) True by (auto simp: rune_boundary_def)
    then show ?thesis using valid_utf8_cut [OF t, of i] ij True by simp
  qed simp
  ultimately show ?thesis by simp
next
  case False
  then have "slice i j doc = drop i doc" using assms(3) by (auto simp: slice_def rune_boundary_def)
  moreover have "valid_utf8 (drop i doc)"
    using assms(1,2) valid_utf8_cut [of doc i] by (auto simp: rune_boundary_def)
  ultimately show ?thesis by simp
qed

lemma back_up_boundary:
  assumes "rune_boundary doc lo" "lo \<le> e" "e \<le> length doc"
  shows "lo \<le> back_up doc e \<and> rune_boundary doc (back_up doc e)"
  using assms
proof (induction e)
  case (Suc e)
  show ?case
  proof (cases "Suc e < length doc \<and> \<not> rune_start (doc ! Suc e)")
    case True
    then have "lo \<noteq> Suc e" using Suc by (auto simp: rune_boundary_def)
    with True Suc show ?thesis by auto
  next
    case False
    with Suc show ?thesis by (auto simp: rune_boundary_def)
  qed
qed auto

lemma back_up_near:
  assumes "\<exists>k \<le> m. k \<le> e \<and> rune_boundary doc (e - k)"
  shows "e - m \<le> back_up doc e"
  using assms
proof (induction e arbitrary: m)
  case (Suc e)
  show ?case
  proof (cases "Suc e < length doc \<and> \<not> rune_start (doc ! Suc e)")
    case True
    from Suc.prems obtain k where k: "k \<le> m" "k \<le> Suc e" "rune_boundary doc (Suc e - k)" by blast
    with True have "k \<noteq> 0" by (cases k) (auto simp: rune_boundary_def)
    then have "\<exists>k' \<le> m - 1. k' \<le> e \<and> rune_boundary doc (e - k')"
      using k by (intro exI [of _ "k - 1"]) auto
    from Suc.IH [OF this] True show ?thesis using k \<open>k \<noteq> 0\<close> by simp
  qed auto
qed simp

lemma back_up_to_eq:
  assumes "rune_boundary doc lo" "lo \<le> e" "e \<le> length doc"
  shows "back_up_to doc lo e = back_up doc e"
  using assms by (induction e) (auto simp: rune_boundary_def le_Suc_eq)

lemma shrink_page_props:
  assumes u: "valid_utf8 doc" "rune_boundary doc lo" and e: "rune_boundary doc e" "lo < e" "e \<le> length doc"
  shows "rune_boundary doc (shrink_page doc lo e) \<and> lo < shrink_page doc lo e \<and>
     shrink_page doc lo e \<le> e \<and>
     json_string_len (slice lo (shrink_page doc lo e) doc) \<le> context_page_bytes"
  using e
proof (induction "e - lo" arbitrary: e rule: less_induct)
  case less
  show ?case
  proof (cases "json_string_len (slice lo e doc) > context_page_bytes")
    case False
    with less show ?thesis by (subst (1 2 3 4) shrink_page.simps) auto
  next
    case True
    let ?m = "lo + (e - lo) div 2"
    have "json_string_len (slice lo e doc) \<le> 2 + 6 * (e - lo)"
      using json_body_len_bound [of "slice lo e doc"] less.prems by (simp add: json_string_len_def)
    then have big: "4000 \<le> e - lo" using True by (simp add: context_page_bytes_def)
    have m: "lo + 2000 \<le> ?m" "?m < e" "?m < length doc" using big less.prems by auto
    have eq: "back_up_to doc lo ?m = back_up doc ?m"
      using m u(2) by (intro back_up_to_eq) auto
    have bb: "rune_boundary doc (back_up doc ?m)"
      using back_up_boundary [OF u(2), of ?m] m by simp
    obtain k where "k \<le> 3" "k \<le> ?m" "rune_start (doc ! (?m - k))"
      using rune_boundary_near [OF u(1) m(3)] by blast
    then have "\<exists>k \<le> 3. k \<le> ?m \<and> rune_boundary doc (?m - k)"
      using m by (intro exI [of _ k]) (auto simp: rune_boundary_def)
    then have low: "?m - 3 \<le> back_up doc ?m" by (rule back_up_near)
    have high: "back_up doc ?m \<le> ?m" by (rule back_up_le)
    have step: "shrink_page doc lo e = shrink_page doc lo (back_up doc ?m)"
      using True less.prems by (subst shrink_page.simps) (simp add: eq)
    have "back_up doc ?m - lo < e - lo" "lo < back_up doc ?m" "back_up doc ?m \<le> length doc"
      using low high m by linarith+
    from less.hyps [OF this(1) bb this(2,3)] show ?thesis
      unfolding step using high m by linarith
  qed
qed

lemma back_up_end [simp]: "back_up doc (length doc) = length doc"
  by (cases "length doc") auto

lemma page_end_props:
  assumes u: "valid_utf8 doc" "rune_boundary doc lo" "lo < length doc"
  shows "rune_boundary doc (page_end doc lo) \<and> lo < page_end doc lo \<and> page_end doc lo \<le> length doc \<and>
     page_end doc lo \<le> lo + context_page_bytes \<and>
     json_string_len (slice lo (page_end doc lo) doc) \<le> context_page_bytes"
proof -
  let ?e = "min (length doc) (lo + context_page_bytes)"
  have e: "lo < ?e" "?e \<le> length doc" using u(3) by (auto simp: context_page_bytes_def)
  have b: "lo \<le> back_up doc ?e" "rune_boundary doc (back_up doc ?e)"
    using back_up_boundary [OF u(2), of ?e] e by auto
  have "lo < back_up doc ?e"
  proof (cases "?e = length doc")
    case True
    with e show ?thesis by simp
  next
    case False
    then have len: "?e < length doc" by simp
    obtain k where "k \<le> 3" "k \<le> ?e" "rune_start (doc ! (?e - k))"
      using rune_boundary_near [OF u(1) len] by blast
    then have "\<exists>k \<le> 3. k \<le> ?e \<and> rune_boundary doc (?e - k)"
      using len by (intro exI [of _ k]) (auto simp: rune_boundary_def)
    then have "?e - 3 \<le> back_up doc ?e" by (rule back_up_near)
    moreover have "lo + 4 \<le> ?e" using False by (auto simp: context_page_bytes_def)
    ultimately show ?thesis by linarith
  qed
  from shrink_page_props [OF u(1,2) b(2) this] back_up_le [of doc ?e] e show ?thesis
    by (auto simp: page_end_def)
qed

subsection \<open>Reading a document page by page\<close>

text \<open>Follow \<open>nextOffset\<close> until a page is complete, with at most \<open>fuel\<close> requests.\<close>

fun read_pages :: "nat \<Rightarrow> string \<Rightarrow> int \<Rightarrow> string option" where
  "read_pages 0 doc offset = None"
| "read_pages (Suc fuel) doc offset =
     (case page_text doc offset of
        None \<Rightarrow> None
      | Some p \<Rightarrow>
          if tp_complete p then Some (tp_content p)
          else map_option ((@) (tp_content p)) (read_pages fuel doc (int (tp_next p))))"

lemma page_text_at:
  "rune_boundary doc off \<Longrightarrow> page_text doc (int off) =
     Some \<lparr>tp_content = slice off (page_end doc off) doc, tp_offset = off,
           tp_next = (if page_end doc off < length doc then page_end doc off else 0),
           tp_complete = (page_end doc off = length doc), tp_total = length doc\<rparr>"
  by (auto simp: page_text_def rune_boundary_def Let_def)

lemma page_end_at_end: "page_end doc (length doc) = length doc"
  by (simp add: page_end_def shrink_page.simps)

lemma read_pages_from:
  assumes "valid_utf8 doc" "rune_boundary doc off" "length doc - off < fuel"
  shows "read_pages fuel doc (int off) = Some (drop off doc)"
  using assms(2,3)
proof (induction fuel arbitrary: off)
  case (Suc fuel)
  show ?case
  proof (cases "off < length doc")
    case True
    note p = page_end_props [OF assms(1) Suc.prems(1) True]
    show ?thesis
    proof (cases "page_end doc off = length doc")
      case True
      then show ?thesis using page_text_at [OF Suc.prems(1)] by (simp add: slice_def)
    next
      case False
      then have e: "page_end doc off < length doc" using p by simp
      have "read_pages fuel doc (int (page_end doc off)) = Some (drop (page_end doc off) doc)"
        using p Suc.prems(2) True by (intro Suc.IH) linarith+
      then show ?thesis
        using page_text_at [OF Suc.prems(1)] e p by (simp add: slice_append_drop)
    qed
  next
    case False
    then have "off = length doc" using Suc.prems(1) by (auto simp: rune_boundary_def)
    with page_text_at [OF Suc.prems(1)] show ?thesis by (simp add: page_end_at_end slice_def)
  qed
qed simp

subsection \<open>Rule pages\<close>

datatype page_error =
    PageCatalog | PageUnreadable rule_id | PageNotUtf8 | PageOffset | PageNoIds | PageBadIds

record rule_page =
  rg_id :: rule_id
  rg_page :: text_page
  rg_read_through :: int

type_synonym read_offsets = "rule_id \<rightharpoonup> int"
type_synonym rule_cache = "rule_id \<rightharpoonup> string"

definition offset_of :: "read_offsets \<Rightarrow> rule_id \<Rightarrow> int" where
  "offset_of offsets rid = (case offsets rid of None \<Rightarrow> 0 | Some n \<Rightarrow> n)"

definition read_rule_page ::
  "rule list \<Rightarrow> (rule_id \<Rightarrow> string option) \<Rightarrow> read_offsets \<Rightarrow> rule_cache \<Rightarrow> rule_id \<Rightarrow> int \<Rightarrow>
     (page_error, rule_page \<times> read_offsets \<times> rule_cache) outcome" where
  "read_rule_page rules read_rule offsets cache rid offset =
     (if \<not> list_ex (\<lambda>r. ru_id r = rid) rules \<or> \<not> valid_rule_id rid then Inl PageCatalog
      else (case (case cache rid of Some v \<Rightarrow> Some v | None \<Rightarrow> read_rule rid) of
        None \<Rightarrow> Inl (PageUnreadable rid)
      | Some v \<Rightarrow>
          if \<not> valid_utf8 v then Inl PageNotUtf8
          else (case page_text v offset of
            None \<Rightarrow> Inl PageOffset
          | Some page \<Rightarrow>
              let pre = offset_of offsets rid;
                  e = offset + int (length (tp_content page));
                  offsets' = (if offset \<le> pre \<and> e > pre then offsets(rid \<mapsto> e) else offsets);
                  cache' = (if offset_of offsets' rid \<ge> int (length v) then cache(rid \<mapsto> v) else cache) in
              Inr (\<lparr>rg_id = rid, rg_page = page, rg_read_through = offset_of offsets' rid\<rparr>,
                   offsets', cache'))))"

text \<open>
  The length of the JSON object of a page: its keys, in sorted order, with punctuation, plus the
  lengths of the values.
\<close>

fun dec_len :: "nat \<Rightarrow> nat" where
  "dec_len n = (if n < 10 then 1 else Suc (dec_len (n div 10)))"

declare dec_len.simps [simp del]

definition rule_page_json_len :: "rule_page \<Rightarrow> nat" where
  "rule_page_json_len g =
     (let p = rg_page g in
      length ''{\"complete\":,\"content\":,\"id\":,\"nextOffset\":,\"offset\":,\"readThroughOffset\":,\"totalBytes\":}''
      + (if tp_complete p then 4 else 5) + json_string_len (tp_content p) + json_string_len (rg_id g)
      + dec_len (tp_next p) + dec_len (tp_offset p)
      + dec_len (nat (rg_read_through g)) + dec_len (tp_total p))"

datatype rule_call = CallPage rule_id int | CallRule rule_id | CallRules "rule_id list"

datatype rules_reply =
    ReplyPage rule_page | ReplyBody string
  | ReplyRows "(rule_id \<times> (rule_page + string)) list" "rule_id list"

fun check_rule_ids :: "rule list \<Rightarrow> rule_id set \<Rightarrow> rule_id list \<Rightarrow> page_error option" where
  "check_rule_ids rules seen [] = None"
| "check_rule_ids rules seen (rid # rids) =
     (if \<not> valid_rule_id rid \<or> rid \<in> seen then Some PageBadIds
      else if \<not> list_ex (\<lambda>r. ru_id r = rid) rules then Some PageCatalog
      else check_rule_ids rules (insert rid seen) rids)"

text \<open>
  The loop over the requested rules, on copies of the offsets and the cache: a complete body, or
  its first page, until the bytes of the replies reach the page bound; the rest stays unread.
\<close>

fun read_rule_rows ::
  "rule list \<Rightarrow> (rule_id \<Rightarrow> string option) \<Rightarrow> rule_id list \<Rightarrow> nat \<Rightarrow> read_offsets \<Rightarrow> rule_cache \<Rightarrow>
     (page_error, (rule_id \<times> (rule_page + string)) list \<times> rule_id list \<times> read_offsets \<times> rule_cache) outcome" where
  "read_rule_rows rules read_rule [] bytes offsets cache = Inr ([], [], offsets, cache)"
| "read_rule_rows rules read_rule (rid # rids) bytes offsets cache =
     (if bytes \<ge> context_page_bytes then
        (case read_rule_rows rules read_rule rids bytes offsets cache of
           Inl e \<Rightarrow> Inl e
         | Inr (rows, unread, offsets', cache') \<Rightarrow> Inr (rows, rid # unread, offsets', cache'))
      else (case read_rule_page rules read_rule offsets cache rid 0 of
         Inl e \<Rightarrow> Inl e
       | Inr (page, offsets1, cache1) \<Rightarrow>
           (case read_rule_rows rules read_rule rids (bytes + rule_page_json_len page) offsets1 cache1 of
              Inl e \<Rightarrow> Inl e
            | Inr (rows, unread, offsets', cache') \<Rightarrow>
                Inr ((rid, if tp_complete (rg_page page) then Inr (tp_content (rg_page page)) else Inl page) # rows,
                     unread, offsets', cache'))))"

definition read_rules_paged ::
  "rule list \<Rightarrow> (rule_id \<Rightarrow> string option) \<Rightarrow> read_offsets \<Rightarrow> rule_cache \<Rightarrow> rule_call \<Rightarrow>
     (page_error, rules_reply \<times> read_offsets \<times> rule_cache) outcome" where
  "read_rules_paged rules read_rule offsets cache call =
     (case call of
        CallPage rid offset \<Rightarrow>
          (case read_rule_page rules read_rule offsets cache rid offset of
             Inl e \<Rightarrow> Inl e
           | Inr (page, offsets', cache') \<Rightarrow> Inr (ReplyPage page, offsets', cache'))
      | _ \<Rightarrow>
          let ids = (case call of CallRule rid \<Rightarrow> [rid] | CallRules rids \<Rightarrow> rids | CallPage rid _ \<Rightarrow> []) in
          if ids = [] then Inl PageNoIds
          else (case check_rule_ids rules {} ids of
            Some e \<Rightarrow> Inl e
          | None \<Rightarrow>
              (case read_rule_rows rules read_rule ids 0 offsets cache of
                 Inl e \<Rightarrow> Inl e
               | Inr (rows, unread, offsets', cache') \<Rightarrow>
                   Inr ((if unread \<noteq> [] then ReplyRows rows unread
                         else case (call, rows) of
                            (CallRule _, [(_, Inr body)]) \<Rightarrow> ReplyBody body
                          | _ \<Rightarrow> ReplyRows rows []), offsets', cache'))))"

text \<open>A run of page requests; a rejected request changes nothing. The list holds the byte ranges sent.\<close>

fun read_run ::
  "rule list \<Rightarrow> (rule_id \<Rightarrow> string option) \<Rightarrow> (rule_id \<times> int) list \<Rightarrow> read_offsets \<times> rule_cache \<Rightarrow>
     (read_offsets \<times> rule_cache) \<times> (rule_id \<times> nat \<times> nat) list" where
  "read_run rules read_rule [] st = (st, [])"
| "read_run rules read_rule ((rid, offset) # calls) st =
     (case read_rule_page rules read_rule (fst st) (snd st) rid offset of
        Inl _ \<Rightarrow> read_run rules read_rule calls st
      | Inr (page, offsets', cache') \<Rightarrow>
          (case read_run rules read_rule calls (offsets', cache') of
             (st', sent) \<Rightarrow>
               (st', (rid, tp_offset (rg_page page),
                      tp_offset (rg_page page) + length (tp_content (rg_page page))) # sent)))"

definition covers :: "(rule_id \<times> nat \<times> nat) list \<Rightarrow> rule_id \<Rightarrow> nat \<Rightarrow> bool" where
  "covers sent rid i \<longleftrightarrow> (\<exists>lo hi. (rid, lo, hi) \<in> set sent \<and> lo \<le> i \<and> i < hi)"

lemma read_rule_page_Inr:
  assumes "read_rule_page rules read_rule offsets cache rid offset = Inr (g, offsets', cache')"
  obtains v page where "(case cache rid of Some v \<Rightarrow> Some v | None \<Rightarrow> read_rule rid) = Some v"
    "valid_utf8 v" "page_text v offset = Some page" "rg_page g = page"
    "0 \<le> offset" "tp_offset page = nat offset"
    "offsets' = (if offset \<le> offset_of offsets rid \<and>
        offset + int (length (tp_content page)) > offset_of offsets rid
      then offsets(rid \<mapsto> offset + int (length (tp_content page))) else offsets)"
    "cache' = (if offset_of offsets' rid \<ge> int (length v) then cache(rid \<mapsto> v) else cache)"
proof -
  obtain v where v: "(case cache rid of Some v \<Rightarrow> Some v | None \<Rightarrow> read_rule rid) = Some v"
    using assms unfolding read_rule_page_def by (auto split: if_splits option.splits)
  obtain page where p: "page_text v offset = Some page" "valid_utf8 v"
    using assms unfolding read_rule_page_def v by (auto simp: Let_def split: if_splits option.splits)
  have "0 \<le> offset" "tp_offset page = nat offset"
    using p(1) by (auto simp: page_text_def Let_def split: if_splits)
  then show ?thesis
    using that [OF v p(2,1)] assms unfolding read_rule_page_def v
    by (auto simp: Let_def p split: if_splits)
qed

definition read_state_ok ::
  "(rule_id \<Rightarrow> string option) \<Rightarrow> (rule_id \<times> nat \<times> nat) list \<Rightarrow> read_offsets \<times> rule_cache \<Rightarrow> bool" where
  "read_state_ok read_rule sent st \<longleftrightarrow>
     (\<forall>rid. 0 \<le> offset_of (fst st) rid \<and> (\<forall>i. int i < offset_of (fst st) rid \<longrightarrow> covers sent rid i)) \<and>
     (\<forall>rid v. snd st rid = Some v \<longrightarrow> read_rule rid = Some v \<and> int (length v) \<le> offset_of (fst st) rid)"

lemma covers_append: "covers (sent @ sent') rid i \<longleftrightarrow> covers sent rid i \<or> covers sent' rid i"
  by (auto simp: covers_def)

lemma offset_of_upd: "offset_of (m(rid \<mapsto> n)) r = (if r = rid then n else offset_of m r)"
  by (simp add: offset_of_def)

lemma read_rule_page_ok:
  assumes ok: "read_state_ok read_rule sent (offsets, cache)"
    and rd: "read_rule_page rules read_rule offsets cache rid offset = Inr (g, offsets', cache')"
    and sent': "sent' = sent @ [(rid, tp_offset (rg_page g), tp_offset (rg_page g) + length (tp_content (rg_page g)))]"
  shows "read_state_ok read_rule sent' (offsets', cache')"
proof -
  obtain v page where p: "(case cache rid of Some v \<Rightarrow> Some v | None \<Rightarrow> read_rule rid) = Some v"
    "rg_page g = page" "0 \<le> offset" "tp_offset page = nat offset"
    "offsets' = (if offset \<le> offset_of offsets rid \<and>
        offset + int (length (tp_content page)) > offset_of offsets rid
      then offsets(rid \<mapsto> offset + int (length (tp_content page))) else offsets)"
    "cache' = (if offset_of offsets' rid \<ge> int (length v) then cache(rid \<mapsto> v) else cache)"
    by (rule read_rule_page_Inr [OF rd]) blast
  have old: "0 \<le> offset_of offsets r" "int i < offset_of offsets r \<Longrightarrow> covers sent r i"
      "cache r = Some w \<Longrightarrow> read_rule r = Some w \<and> int (length w) \<le> offset_of offsets r" for r i w
    using ok by (auto simp: read_state_ok_def)
  have v: "read_rule rid = Some v" using p(1) old(3) [of rid] by (auto split: option.splits)
  have grow: "offset_of offsets r \<le> offset_of offsets' r" for r
    using p(5) by (auto simp: offset_of_upd)
  have cov: "covers sent' r i" if "int i < offset_of offsets' r" for r i
  proof (cases "int i < offset_of offsets r")
    case True
    then show ?thesis using old(2) sent' by (simp add: covers_append)
  next
    case False
    then have "r = rid" "offset \<le> offset_of offsets rid" "int i < offset + int (length (tp_content page))"
      using that p(5) by (auto simp: offset_of_upd split: if_splits)
    then have "nat offset \<le> i" "i < nat offset + length (tp_content page)" "r = rid"
      using False p(3) by auto
    then show ?thesis using p(2,4) sent' by (auto simp: covers_def)
  qed
  have "read_rule r = Some w \<and> int (length w) \<le> offset_of offsets' r" if "cache' r = Some w" for r w
  proof (cases "cache r = Some w")
    case True
    then show ?thesis using old(3) [of r w] grow [of r] by auto
  next
    case False
    then have "r = rid" "w = v" "int (length v) \<le> offset_of offsets' rid"
      using that p(6) by (auto split: if_splits)
    with v show ?thesis by simp
  qed
  then show ?thesis
    using cov old(1) grow by (fastforce simp: read_state_ok_def intro: order_trans)
qed

lemma read_run_ok:
  assumes "read_state_ok read_rule sent0 st" "read_run rules read_rule calls st = (st', sent)"
  shows "read_state_ok read_rule (sent0 @ sent) st'"
  using assms
proof (induction calls arbitrary: st sent0 sent)
  case (Cons call calls)
  obtain rid offset where c: "call = (rid, offset)" by (cases call)
  obtain offsets cache where st: "st = (offsets, cache)" by (cases st)
  show ?case
  proof (cases "read_rule_page rules read_rule offsets cache rid offset")
    case (Inl e)
    with Cons c st show ?thesis by simp
  next
    case (Inr r)
    obtain g offsets' cache' where r: "r = (g, offsets', cache')" by (cases r)
    let ?entry = "(rid, tp_offset (rg_page g), tp_offset (rg_page g) + length (tp_content (rg_page g)))"
    obtain sent1 where l: "read_run rules read_rule calls (offsets', cache') = (st', sent1)" "sent = ?entry # sent1"
      using Cons.prems(2) Inr by (auto simp: c st r split: prod.splits)
    have "read_state_ok read_rule (sent0 @ [?entry]) (offsets', cache')"
      using read_rule_page_ok [OF Cons.prems(1)[unfolded st] Inr[unfolded r]] by simp
    from Cons.IH [OF this l(1)] show ?thesis by (simp add: l(2))
  qed
qed simp

subsection \<open>Properties\<close>

text \<open>
  C18. A page is bounded, aligned and makes progress. For a valid UTF-8 document every page request
  at an offset before the end that is accepted returns at least one byte and at most 24 KiB, the
  returned text is exactly the document bytes from the offset, is itself valid UTF-8, has a JSON
  form of at most 24 KiB, and the next offset is the page's end (0 only on the complete page).
\<close>

theorem page_text_bounded:
  assumes "valid_utf8 doc" "page_text doc offset = Some p" "offset < int (length doc)"
  shows "tp_content p = slice (tp_offset p) (tp_offset p + length (tp_content p)) doc \<and>
    int (tp_offset p) = offset \<and> tp_total p = length doc \<and>
    tp_content p \<noteq> [] \<and> length (tp_content p) \<le> context_page_bytes \<and>
    json_string_len (tp_content p) \<le> context_page_bytes \<and> valid_utf8 (tp_content p) \<and>
    tp_next p = (if tp_complete p then 0 else tp_offset p + length (tp_content p)) \<and>
    (tp_complete p \<longleftrightarrow> tp_offset p + length (tp_content p) = length doc)"
proof -
  obtain off where off: "offset = int off" "rune_boundary doc off" "off < length doc"
    using assms(2,3)
    by (cases offset) (auto simp: page_text_def rune_boundary_def Let_def split: if_splits)
  note e = page_end_props [OF assms(1) off(2,3)]
  let ?e = "page_end doc off"
  have p: "p = \<lparr>tp_content = slice off ?e doc, tp_offset = off,
           tp_next = (if ?e < length doc then ?e else 0),
           tp_complete = (?e = length doc), tp_total = length doc\<rparr>"
    using page_text_at [OF off(2)] assms(2) off(1) by simp
  have "length (slice off ?e doc) = ?e - off" using e by simp
  moreover have "valid_utf8 (slice off ?e doc)"
    using slice_valid_utf8 [OF assms(1) off(2)] e by simp
  moreover from calculation(1) have "slice off ?e doc \<noteq> []"
    using e by (metis less_irrefl list.size(3) zero_less_diff)
  ultimately show ?thesis using e off(1) by (auto simp: p)
qed

lemma sample_page_ends: "page_end ''abc'' 0 = 3" "page_end ''abc'' (Suc 0) = 3"
proof -
  have b: "back_up ''abc'' 3 = 3" by code_simp
  have j: "json_string_len ''abc'' = 5" "json_string_len ''bc'' = 4" by code_simp+
  show "page_end ''abc'' 0 = 3"
    using b by (simp add: page_end_def context_page_bytes_def shrink_page.simps j)
  show "page_end ''abc'' (Suc 0) = 3"
    using b by (simp add: page_end_def context_page_bytes_def shrink_page.simps j slice_def)
qed

lemma page_text_bounded_witness:
  "page_text ''abc'' 1 = Some \<lparr>tp_content = ''bc'', tp_offset = 1, tp_next = 0, tp_complete = True, tp_total = 3\<rparr> \<and>
   json_string_len ''bc'' \<le> context_page_bytes"
proof -
  have u: "valid_utf8 ''abc''" by code_simp
  have p: "page_text ''abc'' 1 = Some \<lparr>tp_content = ''bc'', tp_offset = 1, tp_next = 0, tp_complete = True, tp_total = 3\<rparr>"
    by (simp add: page_text_def sample_page_ends slice_def rune_start_def byte_in_def Let_def eval_nat_numeral)
  from page_text_bounded [OF u p] p show ?thesis by simp
qed

text \<open>
  C19. Paging terminates and loses nothing: following the next offsets from the start of a valid
  UTF-8 document reaches a complete page after at most one request per byte, plus one, and the
  pages put together are the document.
\<close>

theorem read_pages_complete:
  assumes "valid_utf8 doc" "length doc < fuel"
  shows "read_pages fuel doc 0 = Some doc"
proof -
  have "rune_boundary doc 0"
    using valid_utf8_rune_start_hd [OF assms(1)] by (cases doc) (auto simp: rune_boundary_def)
  from read_pages_from [OF assms(1) this, of fuel] assms(2) show ?thesis by simp
qed

lemma read_pages_complete_witness: "read_pages 4 ''abc'' 0 = Some ''abc''"
proof -
  have "valid_utf8 ''abc''" by code_simp
  from read_pages_complete [OF this, of 4] show ?thesis by simp
qed



lemma read_rule_rows_partition:
  "read_rule_rows rules read_rule ids bytes offsets cache = Inr (rows, unread, offsets', cache') \<Longrightarrow>
     mset (map fst rows) + mset unread = mset ids"
proof (induction ids arbitrary: bytes offsets cache rows unread)
  case (Cons rid rids)
  then show ?case by (auto split: if_splits sum.splits prod.splits)
qed simp

end
