(* ===== verification/RepairTools.thy ===== *)
theory RepairTools
  imports Staging PartialReview Paging "HOL-Library.List_Lexorder" "HOL-Library.Char_ord"
begin

section \<open>The editor's tools and its final answer\<close>

text \<open>
  \<open>executeRepairTool\<close>, \<open>parseCandidateFinal\<close> and \<open>planHasHumanBlocker\<close> of
  \<open>internal/agent/repair_loop.go\<close>, \<open>readTarget\<close> and \<open>readSavedState\<close> of \<open>incremental.go\<close>. Arguments
  are the decoded ones (a call whose JSON does not decode is \<open>ToolMalformed\<close>). What a call needs from
  outside is in \<open>repair_env\<close>: the rule reader, the store that persists the state, the clock, the
  candidate validator of the engine, the JSON text of a section of the state, and the context reader.
\<close>

record repair_env =
  en_content :: string
  en_base_hash :: string
  en_candidate_rules :: "rule_id list"
  en_read_rule :: "rule_id \<Rightarrow> string option"
  en_save :: "repair_state \<Rightarrow> bool"
  en_now :: "repair_state \<Rightarrow> int"
  en_validate :: "(candidate_request \<Rightarrow> candidate_validation option) option"
  en_section :: "repair_state \<Rightarrow> string \<Rightarrow> string option"
  en_context :: "(string \<Rightarrow> int \<Rightarrow> int \<Rightarrow> string option) option"

datatype tool_call =
    ToolMalformed | ToolUnknown
  | ToolStage stage_edits_request
  | ToolReadState string int
  | ToolReadTarget bool int int int
  | ToolReadRules rule_call
  | ToolReadContext string int int int
  | ToolUpdate plan_update
  | ToolValidate candidate_request
  | ToolValidateStaged int string

datatype tool_error =
    ToolErrArguments | ToolErrUnknown | ToolErrItemIds | ToolErrStage stage_error
  | ToolErrSection | ToolErrOffset | ToolErrRange | ToolErrEdits edit_error | ToolErrPage page_error
  | ToolErrContext | ToolErrPlan plan_error | ToolErrLocations hold_error | ToolErrStaleValidation
  | ToolErrBaseHash | ToolErrCandidate candidate_error | ToolErrHolds hold_error

datatype tool_reply =
    ReplySaved | ReplyText text_page | ReplyWhole string | ReplyRules rules_reply
  | ReplyValidation candidate_validation

text \<open>A fatal error ends the run; a rejection is sent back to the model.\<close>

datatype tool_result = ToolDone tool_reply | ToolRejected tool_error | ToolFatal

subsection \<open>Persisting\<close>

text \<open>\<open>checkpoint\<close> and \<open>reserveElapsed\<close>: set the elapsed time, then save; a failed save is fatal.\<close>

definition persist :: "repair_env \<Rightarrow> repair_state \<Rightarrow> repair_state \<times> bool" where
  "persist env state =
     (let state' = state\<lparr>rs_elapsed_ms := en_now env state\<rparr> in (state', en_save env state'))"

subsection \<open>Reading\<close>

definition page_reply :: "string \<Rightarrow> int \<Rightarrow> tool_result" where
  "page_reply doc offset =
     (case page_text doc offset of None \<Rightarrow> ToolRejected ToolErrOffset | Some p \<Rightarrow> ToolDone (ReplyText p))"

definition read_saved_state :: "repair_env \<Rightarrow> repair_state \<Rightarrow> string \<Rightarrow> int \<Rightarrow> tool_result" where
  "read_saved_state env state name offset =
     (case en_section env state name of
        None \<Rightarrow> ToolRejected ToolErrSection
      | Some value \<Rightarrow> page_reply value offset)"

definition read_target :: "repair_env \<Rightarrow> repair_state \<Rightarrow> bool \<Rightarrow> int \<Rightarrow> int \<Rightarrow> int \<Rightarrow> tool_result" where
  "read_target env state candidate first last_line offset =
     (case (if candidate
            then materialize_edits (en_content env) (cr_edits (staged_request state (en_base_hash env)))
            else Inr (en_content env)) of
        Inl e \<Rightarrow> ToolRejected (ToolErrEdits e)
      | Inr content \<Rightarrow>
          (case source_range content first last_line of
             None \<Rightarrow> ToolRejected ToolErrRange
           | Some block \<Rightarrow> page_reply block offset))"

text \<open>\<open>read_context\<close>; the path check of \<open>safeRelativePath\<close> is part of the context reader here.\<close>

definition read_context :: "repair_env \<Rightarrow> string \<Rightarrow> int \<Rightarrow> int \<Rightarrow> int \<Rightarrow> tool_result" where
  "read_context env path first last_line offset =
     (if first < 1 \<or> last_line < first then ToolRejected ToolErrRange
      else (case en_context env of
        None \<Rightarrow> ToolRejected ToolErrContext
      | Some reader \<Rightarrow>
          (case reader path first last_line of
             None \<Rightarrow> ToolRejected ToolErrContext
           | Some value \<Rightarrow>
               if \<not> valid_utf8 value then ToolRejected ToolErrContext
               else if length value \<le> context_page_bytes \<and> offset = 0 then ToolDone (ReplyWhole value)
               else page_reply value offset)))"

text \<open>\<open>sortedRuleIDs(cache)\<close>: the cached IDs are always catalog IDs.\<close>

definition sorted_rule_ids :: "rule list \<Rightarrow> rule_cache \<Rightarrow> rule_id list" where
  "sorted_rule_ids rules cache = sort (remdups (filter (\<lambda>rid. cache rid \<noteq> None) (map ru_id rules)))"

subsection \<open>Updating the plan and validating a candidate\<close>

definition require_edit_item_ids :: "edit list \<Rightarrow> bool" where
  "require_edit_item_ids es \<longleftrightarrow> list_all (\<lambda>e. ed_item_ids e \<noteq> []) es"

definition update_state_tool ::
  "repair_env \<Rightarrow> rule list \<Rightarrow> rule_cache \<Rightarrow> plan_update \<Rightarrow> repair_state \<Rightarrow> repair_state \<times> tool_result" where
  "update_state_tool env rules cache update state =
     (case merge_repair_plan (rs_plan state) update rules (sorted_rule_ids rules cache) of
        Inl e \<Rightarrow> (state, ToolRejected (ToolErrPlan e))
      | Inr plan0 \<Rightarrow>
          (case resolve_plan_source_locations plan0 (en_content env) of
             Inl e \<Rightarrow> (state, ToolRejected (ToolErrLocations e))
           | Inr plan \<Rightarrow>
               (case persist env (state\<lparr>rs_plan := plan\<rparr>) of
                  (state', ok) \<Rightarrow> (state', if ok then ToolDone ReplySaved else ToolFatal))))"

definition stage_edits_tool ::
  "repair_env \<Rightarrow> stage_edits_request \<Rightarrow> repair_state \<Rightarrow> repair_state \<times> tool_result" where
  "stage_edits_tool env update state =
     (if \<not> require_edit_item_ids (map se_edit (sr_edits update)) then (state, ToolRejected ToolErrItemIds)
      else (case stage_edits state update (en_content env) (en_base_hash env) of
        Inl e \<Rightarrow> (state, ToolRejected (ToolErrStage e))
      | Inr state1 \<Rightarrow>
          (case persist env state1 of
             (state', ok) \<Rightarrow> (state', if ok then ToolDone ReplySaved else ToolFatal))))"

definition check_candidate_request ::
  "repair_env \<Rightarrow> rule_id list \<Rightarrow> repair_plan \<Rightarrow> candidate_request \<Rightarrow> tool_error option" where
  "check_candidate_request env required plan request =
     (case require_complete_plan plan required of
        Some e \<Rightarrow> Some (ToolErrCandidate e)
      | None \<Rightarrow>
     (case check_candidate_plan plan request of
        Some e \<Rightarrow> Some (ToolErrCandidate e)
      | None \<Rightarrow>
     (case validate_exact_edits (cr_edits request) (en_content env) of
        Some e \<Rightarrow> Some (ToolErrEdits e)
      | None \<Rightarrow>
     (case check_candidate_holds plan request (en_content env) of
        Some e \<Rightarrow> Some (ToolErrHolds e)
      | None \<Rightarrow> None))))"

text \<open>The metadata a validator has to return consistently.\<close>

definition validation_consistent :: "candidate_request \<Rightarrow> candidate_validation \<Rightarrow> bool" where
  "validation_consistent request r \<longleftrightarrow>
     \<not> (cv_candidate_id r = [] \<or> length (cv_candidate_id r) > 256 \<or> length (cv_candidate_hash r) > 128
        \<or> cv_plan_revision r \<noteq> cr_plan_revision request
        \<or> cv_passed r \<and> cv_attribution_version r \<noteq> line_attribution_version)"

fun decimal :: "nat \<Rightarrow> string" where
  "decimal n = (if n < 10 then [char_of (48 + n)] else decimal (n div 10) @ [char_of (48 + n mod 10)])"

declare decimal.simps [simp del]

definition edits_as_staged :: "edit list \<Rightarrow> staged_edit list" where
  "edits_as_staged es =
     map (\<lambda>(i, e). \<lparr>se_id = ''edit-'' @ decimal (i + 1), se_edit = e\<rparr>) (List.enumerate 0 es)"

definition new_record :: "candidate_request \<Rightarrow> candidate_validation \<Rightarrow> candidate_record" where
  "new_record request result =
     \<lparr>ca_no_change = False, ca_request = request, ca_result = result, ca_review_requested = False,
      ca_review_note = [], ca_review = None\<rparr>"

text \<open>
  The common tail of both validation tools, after the request is known to be for the original: the
  old candidate is dropped and the count raised before anything can fail, and the new record is
  stored only for consistent metadata. \<open>whole\<close> is a request that carried its own edits.
\<close>

definition run_validation ::
  "repair_env \<Rightarrow> bool \<Rightarrow> candidate_request \<Rightarrow> repair_state \<Rightarrow> repair_state \<times> tool_result" where
  "run_validation env whole request state =
     (case en_validate env of
        None \<Rightarrow> (state, ToolFatal)
      | Some validate \<Rightarrow>
          (case persist env (state\<lparr>rs_last_candidate := None,
                  rs_validation_count := rs_validation_count state + 1\<rparr>) of
             (state1, ok) \<Rightarrow>
               if \<not> ok then (state1, ToolFatal)
               else (case validate request of
                 None \<Rightarrow> (state1, ToolFatal)
               | Some result \<Rightarrow>
                   if \<not> validation_consistent request result then (state1, ToolFatal)
                   else
                     let state2 = state1\<lparr>rs_last_candidate := Some (new_record request result)\<rparr>;
                         state3 = (if whole then state2\<lparr>rs_staged_edits := edits_as_staged (cr_edits request)\<rparr>
                                   else state2) in
                     (case persist env state3 of
                        (state', ok') \<Rightarrow>
                          (state', if ok' then ToolDone (ReplyValidation result) else ToolFatal)))))"

definition validate_tool ::
  "repair_env \<Rightarrow> rule_id list \<Rightarrow> bool \<Rightarrow> candidate_request \<Rightarrow> repair_state \<Rightarrow> repair_state \<times> tool_result" where
  "validate_tool env required whole request state =
     (if cr_base_hash request \<noteq> en_base_hash env then (state, ToolRejected ToolErrBaseHash)
      else if whole \<and> \<not> require_edit_item_ids (cr_edits request) then (state, ToolRejected ToolErrItemIds)
      else (case check_candidate_request env required (rs_plan state) request of
        Some e \<Rightarrow> (state, ToolRejected e)
      | None \<Rightarrow> run_validation env whole request state))"

definition execute_repair_tool ::
  "repair_env \<Rightarrow> rule list \<Rightarrow> rule_id list \<Rightarrow> tool_call \<Rightarrow> repair_state \<times> rule_cache \<Rightarrow>
     (repair_state \<times> rule_cache) \<times> tool_result" where
  "execute_repair_tool env rules required call st =
     (case st of (state, cache) \<Rightarrow>
      (case call of
         ToolMalformed \<Rightarrow> (st, ToolRejected ToolErrArguments)
       | ToolUnknown \<Rightarrow>
           ((state\<lparr>rs_read_rule_ids := sorted_rule_ids rules cache\<rparr>, cache), ToolRejected ToolErrUnknown)
       | ToolStage update \<Rightarrow> (case stage_edits_tool env update state of (s, r) \<Rightarrow> ((s, cache), r))
       | ToolReadState name offset \<Rightarrow> (st, read_saved_state env state name offset)
       | ToolReadTarget candidate first last_line offset \<Rightarrow>
           (st, read_target env state candidate first last_line offset)
       | ToolReadRules rcall \<Rightarrow>
           (case read_rules_paged rules (en_read_rule env) (rs_rule_read_offsets state) cache rcall of
              Inl e \<Rightarrow> ((state\<lparr>rs_read_rule_ids := sorted_rule_ids rules cache\<rparr>, cache), ToolRejected (ToolErrPage e))
            | Inr (reply, offsets, cache') \<Rightarrow>
                ((state\<lparr>rs_rule_read_offsets := offsets,
                    rs_read_rule_ids := sorted_rule_ids rules cache'\<rparr>, cache'), ToolDone (ReplyRules reply)))
       | ToolReadContext path first last_line offset \<Rightarrow>
           ((state\<lparr>rs_read_rule_ids := sorted_rule_ids rules cache\<rparr>, cache),
            read_context env path first last_line offset)
       | ToolUpdate update \<Rightarrow>
           (case update_state_tool env rules cache update state of (s, r) \<Rightarrow> ((s, cache), r))
       | ToolValidateStaged revision base \<Rightarrow>
           if revision \<noteq> rp_revision (rs_plan state) \<or> base \<noteq> en_base_hash env
           then (st, ToolRejected ToolErrStaleValidation)
           else (case validate_tool env required False (staged_request state (en_base_hash env)) state of
                   (s, r) \<Rightarrow> ((s, cache), r))
       | ToolValidate request \<Rightarrow>
           (case validate_tool env required True request state of (s, r) \<Rightarrow> ((s, cache), r))))"

subsection \<open>The final answer\<close>

record final_answer =
  fa_outcome :: outcome_kind
  fa_candidate_id :: string
  fa_note :: string

datatype final_error =
    FinalMalformed | FinalNote | FinalHumanCandidate | FinalNoBlocker | FinalPlan plan_error
  | FinalLocations hold_error | FinalSafeWork item_id | FinalNoPlan | FinalUnreviewed rule_id
  | FinalUnresolvedReview | FinalSkippedItems | FinalSkippedDecision | FinalNotValidated
  | FinalCandidate candidate_error | FinalEdits edit_error | FinalHolds hold_error | FinalOutcome

definition plan_has_human_blocker :: "repair_plan \<Rightarrow> bool" where
  "plan_has_human_blocker plan \<longleftrightarrow>
     list_ex (\<lambda>d. pd_decision d = D_blocked \<and> \<not> blank (pd_reason d)) (rp_decisions plan) \<or>
     list_ex (\<lambda>it. pi_status it = S_blocked \<and> \<not> blank (pi_hold_reason it)) (rp_items plan)"

definition has_unresolved_review :: "repair_state \<Rightarrow> bool" where
  "has_unresolved_review state =
     (if rs_reviews state \<noteq> [] then rv_verdict (last (rs_reviews state)) \<noteq> V_passed
      else (case rs_last_candidate state of
              None \<Rightarrow> False
            | Some c \<Rightarrow> (case ca_review c of None \<Rightarrow> False | Some r \<Rightarrow> rv_verdict r \<noteq> V_passed)))"

definition final_proposal :: "final_answer \<Rightarrow> proposal" where
  "final_proposal final = \<lparr>pr_outcome = fa_outcome final, pr_candidate_id = [], pr_edits = [],
     pr_rules_applied = [], pr_note = fa_note final\<rparr>"

definition final_needs_human ::
  "repair_state \<Rightarrow> string \<Rightarrow> final_answer \<Rightarrow> (final_error, proposal) outcome" where
  "final_needs_human state content final =
     (let plan = rs_plan state in
      if fa_candidate_id final \<noteq> [] then Inl FinalHumanCandidate
      else if rp_revision plan > 0 \<and> \<not> plan_has_human_blocker plan then Inl FinalNoBlocker
      else
     (case (if rp_revision plan > 0 then
              (case validate_plan_snapshot plan of
                 Inl e \<Rightarrow> Some (FinalPlan e)
               | Inr _ \<Rightarrow> map_option FinalLocations (validate_plan_source_locations plan content))
            else None) of
        Some e \<Rightarrow> Inl e
      | None \<Rightarrow>
     (case candidate_holds plan of
        Inl _ \<Rightarrow> Inr (final_proposal final)
      | Inr holds \<Rightarrow>
          if holds = [] then Inr (final_proposal final)
          else (case find (\<lambda>it. pi_status it \<noteq> S_blocked) (rp_items plan) of
                  Some it \<Rightarrow> Inl (FinalSafeWork (pi_id it))
                | None \<Rightarrow> Inr (final_proposal final)))))"

text \<open>The rules applied: the rule of each addressed item, each rule once, in plan order.\<close>

fun applied_rules :: "item_id set \<Rightarrow> plan_item list \<Rightarrow> rule_id set \<Rightarrow> rule_id list" where
  "applied_rules addressed [] applied = []"
| "applied_rules addressed (it # its) applied =
     (if pi_id it \<in> addressed \<and> pi_rule_id it \<notin> applied
      then pi_rule_id it # applied_rules addressed its (insert (pi_rule_id it) applied)
      else applied_rules addressed its applied)"

definition candidate_current :: "candidate_record \<Rightarrow> repair_plan \<Rightarrow> string \<Rightarrow> string \<Rightarrow> bool" where
  "candidate_current c plan cid base_hash \<longleftrightarrow>
     \<not> ca_no_change c \<and> cv_attribution_version (ca_result c) = line_attribution_version \<and>
     cv_passed (ca_result c) \<and> cv_candidate_id (ca_result c) = cid \<and>
     cv_plan_revision (ca_result c) = rp_revision plan \<and>
     cr_plan_revision (ca_request c) = rp_revision plan \<and> cr_base_hash (ca_request c) = base_hash"

definition final_modified ::
  "repair_state \<Rightarrow> string \<Rightarrow> string \<Rightarrow> final_answer \<Rightarrow> (final_error, proposal) outcome" where
  "final_modified state content base_hash final =
     (case rs_last_candidate state of
        None \<Rightarrow> Inl FinalNotValidated
      | Some c \<Rightarrow>
          if \<not> candidate_current c (rs_plan state) (fa_candidate_id final) base_hash then Inl FinalNotValidated
          else
     (case check_candidate_plan (rs_plan state) (ca_request c) of
        Some e \<Rightarrow> Inl (FinalCandidate e)
      | None \<Rightarrow>
     (case validate_exact_edits (cr_edits (ca_request c)) content of
        Some e \<Rightarrow> Inl (FinalEdits e)
      | None \<Rightarrow>
     (case check_candidate_holds (rs_plan state) (ca_request c) content of
        Some e \<Rightarrow> Inl (FinalHolds e)
      | None \<Rightarrow>
          Inr ((final_proposal final)
            \<lparr>pr_edits := cr_edits (ca_request c), pr_candidate_id := fa_candidate_id final,
             pr_rules_applied := applied_rules (set (cr_addressed_item_ids (ca_request c)))
               (rp_items (rs_plan state)) {}\<rparr>)))))"

definition parse_candidate_final ::
  "final_answer option \<Rightarrow> repair_state \<Rightarrow> string \<Rightarrow> string \<Rightarrow> rule_id list \<Rightarrow> (final_error, proposal) outcome" where
  "parse_candidate_final answer state content base_hash required =
     (case answer of
        None \<Rightarrow> Inl FinalMalformed
      | Some final \<Rightarrow>
          if blank (fa_note final) \<or> length (fa_candidate_id final) > 256 then Inl FinalNote
          else if fa_outcome final = O_needs_human then final_needs_human state content final
          else if rp_revision (rs_plan state) < 1 then Inl FinalNoPlan
          else (case find (\<lambda>rid. rid \<notin> pd_rule_id ` set (rp_decisions (rs_plan state))) required of
            Some rid \<Rightarrow> Inl (FinalUnreviewed rid)
          | None \<Rightarrow>
              (case fa_outcome final of
                 O_skipped \<Rightarrow>
                   if has_unresolved_review state then Inl FinalUnresolvedReview
                   else if fa_candidate_id final \<noteq> [] \<or> rp_items (rs_plan state) \<noteq> [] then Inl FinalSkippedItems
                   else if list_ex (\<lambda>d. pd_decision d \<noteq> D_no_change) (rp_decisions (rs_plan state))
                     then Inl FinalSkippedDecision
                   else Inr (final_proposal final)
               | O_modified \<Rightarrow> final_modified state content base_hash final
               | _ \<Rightarrow> Inl FinalOutcome)))"

subsection \<open>Counters and budgets\<close>

definition valid_repair_counters :: "repair_state \<Rightarrow> bool" where
  "valid_repair_counters state \<longleftrightarrow>
     (let u = rs_usage state in
      \<not> (rs_elapsed_ms state < 0 \<or> rs_tool_calls state < 0 \<or> rs_read_bytes state < 0 \<or>
         rs_validation_count state < 0 \<or> rs_review_count state < 0 \<or> us_turns u < 0 \<or>
         us_input_tokens u < 0 \<or> us_output_tokens u < 0 \<or> us_cached_tokens u < 0 \<or>
         us_cached_tokens u > us_input_tokens u \<or> us_cost_usd u < 0))"

definition usage_difference :: "usage \<Rightarrow> usage \<Rightarrow> usage" where
  "usage_difference current base =
     \<lparr>us_uncertain = False,
      us_input_tokens = us_input_tokens current - us_input_tokens base,
      us_cached_tokens = us_cached_tokens current - us_cached_tokens base,
      us_output_tokens = us_output_tokens current - us_output_tokens base,
      us_cost_usd = us_cost_usd current - us_cost_usd base,
      us_turns = us_turns current - us_turns base\<rparr>"

record budget =
  bu_turns :: int
  bu_elapsed_ms :: int
  bu_tool_calls :: int
  bu_read_bytes :: int
  bu_validation_count :: int
  bu_review_count :: int

definition budget_baseline_for :: "repair_state \<Rightarrow> budget" where
  "budget_baseline_for state =
     \<lparr>bu_turns = us_turns (rs_usage state), bu_elapsed_ms = rs_elapsed_ms state,
      bu_tool_calls = rs_tool_calls state, bu_read_bytes = rs_read_bytes state,
      bu_validation_count = rs_validation_count state, bu_review_count = rs_review_count state\<rparr>"

definition budget_valid :: "budget \<Rightarrow> repair_state \<Rightarrow> bool" where
  "budget_valid base state \<longleftrightarrow>
     (let total = budget_baseline_for state in
      list_all (\<lambda>(b, t). \<not> (b < 0 \<or> b > t))
        [(bu_turns base, bu_turns total), (bu_tool_calls base, bu_tool_calls total),
         (bu_read_bytes base, bu_read_bytes total),
         (bu_validation_count base, bu_validation_count total),
         (bu_review_count base, bu_review_count total)] \<and>
      \<not> (bu_elapsed_ms base < 0 \<or> bu_elapsed_ms base > bu_elapsed_ms total \<or>
         bu_elapsed_ms total > max_int - 3600000))"

definition budget_used :: "budget \<Rightarrow> repair_state \<Rightarrow> budget" where
  "budget_used base state =
     \<lparr>bu_turns = us_turns (rs_usage state) - bu_turns base,
      bu_elapsed_ms = rs_elapsed_ms state - bu_elapsed_ms base,
      bu_tool_calls = rs_tool_calls state - bu_tool_calls base,
      bu_read_bytes = rs_read_bytes state - bu_read_bytes base,
      bu_validation_count = rs_validation_count state - bu_validation_count base,
      bu_review_count = rs_review_count state - bu_review_count base\<rparr>"

end
