(* ===== verification/RepairInvariants.thy ===== *)
theory RepairInvariants
  imports RepairTools
begin

section \<open>Invariants of a repair session\<close>

text \<open>
  What holds of the durable repair state between tool calls, whatever calls the model makes: the
  plan is empty or well formed with located evidence, the staged edits are applicable to the
  original, and a recorded candidate that is for the current plan revision has passed every
  mechanical check against that plan.
\<close>

definition plan_ok :: "string \<Rightarrow> repair_plan \<Rightarrow> bool" where
  "plan_ok content plan \<longleftrightarrow> (plan = empty_plan \<or> wf_plan plan \<and> 1 \<le> rp_revision plan) \<and>
     rp_revision plan \<le> max_int \<and> validate_plan_source_locations plan content = None"

definition staged_ok :: "string \<Rightarrow> staged_edit list \<Rightarrow> bool" where
  "staged_ok content staged \<longleftrightarrow> distinct (map se_id staged) \<and>
     (staged = [] \<or> validate_exact_edits (map se_edit staged) content = None)"

text \<open>A candidate for an older revision may linger; one for the current revision has been checked.\<close>

definition candidate_checked :: "repair_env \<Rightarrow> rule_id list \<Rightarrow> repair_plan \<Rightarrow> candidate_record \<Rightarrow> bool" where
  "candidate_checked env required plan c \<longleftrightarrow>
     cr_plan_revision (ca_request c) \<le> rp_revision plan \<and>
     (\<not> ca_no_change c \<and> cr_plan_revision (ca_request c) = rp_revision plan \<longrightarrow>
        check_candidate_request env required plan (ca_request c) = None \<and>
        cr_base_hash (ca_request c) = en_base_hash env \<and>
        validation_consistent (ca_request c) (ca_result c))"

definition state_ok :: "repair_env \<Rightarrow> rule_id list \<Rightarrow> repair_state \<Rightarrow> bool" where
  "state_ok env required state \<longleftrightarrow>
     plan_ok (en_content env) (rs_plan state) \<and>
     staged_ok (en_content env) (rs_staged_edits state) \<and>
     (\<forall>c. rs_last_candidate state = Some c \<longrightarrow> candidate_checked env required (rs_plan state) c)"

subsection \<open>Locations leave the plan's shape alone\<close>

lemma resolve_items_Inr:
  "resolve_items content its = Inr its' \<Longrightarrow>
     map (\<lambda>it. it\<lparr>pi_source_locations := []\<rparr>) its' = map (\<lambda>it. it\<lparr>pi_source_locations := []\<rparr>) its"
  by (induction its arbitrary: its') (auto split: sum.splits)

lemma item_same_shape:
  assumes "it\<lparr>pi_source_locations := []\<rparr> = it'\<lparr>pi_source_locations := ([] :: source_location list)\<rparr>"
  shows "pi_id it = pi_id it'" "pi_rule_id it = pi_rule_id it'" "pi_status it = pi_status it'"
    "item_text_ok it = item_text_ok it'" "item_notes_ok it = item_notes_ok it'"
    "item_rule_ok d it = item_rule_ok d it'"
proof -
  have f: "f (it\<lparr>pi_source_locations := []\<rparr>) = f (it'\<lparr>pi_source_locations := []\<rparr>)" for f :: "plan_item \<Rightarrow> 'b"
    using assms by simp
  show "pi_id it = pi_id it'" "pi_rule_id it = pi_rule_id it'" "pi_status it = pi_status it'"
    using f [of pi_id] f [of pi_rule_id] f [of pi_status] by simp_all
  show "item_text_ok it = item_text_ok it'" "item_notes_ok it = item_notes_ok it'"
    using f [of item_text_ok] f [of item_notes_ok] by (simp_all add: item_text_ok_def item_notes_ok_def)
  show "item_rule_ok d it = item_rule_ok d it'"
    using f [of pi_rule_id] f [of pi_status] by (simp add: item_rule_ok_def split: option.split)
qed

lemma wf_plan_same_shape:
  assumes "map (\<lambda>it. it\<lparr>pi_source_locations := []\<rparr>) its = map (\<lambda>it. it\<lparr>pi_source_locations := []\<rparr>) (rp_items plan)"
    "wf_plan plan"
  shows "wf_plan (plan\<lparr>rp_items := its\<rparr>)"
proof -
  let ?f = "\<lambda>it :: plan_item. it\<lparr>pi_source_locations := []\<rparr>"
  have set: "?f ` set its = ?f ` set (rp_items plan)" using assms(1) by (metis set_map)
  have to: "\<exists>it' \<in> set (rp_items plan). ?f it = ?f it'" if "it \<in> set its" for it
    using set that by (metis imageE imageI)
  have fro: "\<exists>it \<in> set its. ?f it' = ?f it" if "it' \<in> set (rp_items plan)" for it'
    using set that by (metis imageE imageI)
  have "map pi_id (map ?f its) = map pi_id (map ?f (rp_items plan))" using assms(1) by simp
  then have ids: "map pi_id its = map pi_id (rp_items plan)" by (simp add: comp_def)
  have dec: "decisions_of (plan\<lparr>rp_items := its\<rparr>) = decisions_of plan"
    by (simp add: decisions_of_def)
  have "\<forall>it \<in> set its. item_text_ok it \<and> item_notes_ok it \<and> known_status (pi_status it)
      \<and> item_rule_ok (decisions_of plan) it"
    using to item_same_shape assms(2) unfolding wf_plan_def by metis
  moreover have "\<forall>d \<in> set (rp_decisions plan). pd_decision d = D_modify \<longrightarrow>
      (\<exists>it \<in> set its. pi_rule_id it = pd_rule_id d)"
    using fro item_same_shape assms(2) unfolding wf_plan_def by metis
  ultimately show ?thesis using assms(2) ids by (simp add: wf_plan_def dec)
qed

lemma resolve_plan_source_locations_Inr:
  assumes "resolve_plan_source_locations plan content = Inr plan'" "wf_plan plan"
  shows "wf_plan plan' \<and> rp_revision plan' = rp_revision plan \<and> rp_decisions plan' = rp_decisions plan \<and>
     validate_plan_source_locations plan' content = None"
proof -
  obtain its where i: "resolve_items content (rp_items plan) = Inr its" "plan' = plan\<lparr>rp_items := its\<rparr>"
      "validate_plan_source_locations plan' content = None"
    using assms(1) unfolding resolve_plan_source_locations_def Let_def outcome_simps by auto
  from wf_plan_same_shape [OF resolve_items_Inr [OF i(1)] assms(2)] i show ?thesis by simp
qed

subsection \<open>Every tool keeps the invariant\<close>

lemma persist_fields [simp]:
  "rs_plan (fst (persist env s)) = rs_plan s" "rs_staged_edits (fst (persist env s)) = rs_staged_edits s"
  "rs_last_candidate (fst (persist env s)) = rs_last_candidate s"
  "rs_read_rule_ids (fst (persist env s)) = rs_read_rule_ids s"
  "rs_reviews (fst (persist env s)) = rs_reviews s"
  by (simp_all add: persist_def Let_def)

lemma persist_ok [simp]: "state_ok env required (fst (persist env s)) = state_ok env required s"
  by (simp add: state_ok_def)

lemma persist_cases:
  "(case persist env s of (s', ok) \<Rightarrow> (s', if ok then a else b)) =
     (fst (persist env s), if snd (persist env s) then a else b)"
  by (simp add: case_prod_beta)

lemma plan_ok_keyed: "plan_ok content plan \<Longrightarrow> keyed_plan plan"
  using wf_plan_keyed by (auto simp: plan_ok_def)

lemma stage_edits_keeps:
  assumes "stage_edits s update content h = Inr s'" "staged_ok content (rs_staged_edits s)"
  shows "staged_ok content (rs_staged_edits s') \<and> rs_last_candidate s' = None \<and> rs_plan s' = rs_plan s"
proof -
  obtain touched staged0 staged where s:
      "stage_removals (sr_remove_edit_ids update) {} (rs_staged_edits s) = Inr (touched, staged0)"
      "stage_upserts (plan_item_map (rs_plan s)) (sr_edits update) touched staged0 = Inr staged"
      "s' = s\<lparr>rs_staged_edits := staged, rs_last_candidate := None\<rparr>"
      "staged \<noteq> [] \<longrightarrow> validate_exact_edits (map se_edit staged) content = None"
    using assms(1) unfolding stage_edits_Inr by blast
  have "distinct (map se_id staged0)"
    using stage_removals_Inr [OF s(1)] assms(2) by (simp add: staged_ok_def)
  then have "distinct (map se_id staged)"
    using s(2) by (simp add: stage_upserts_Inr distinct_fold_upsert_key)
  then show ?thesis using s(3,4) by (auto simp: staged_ok_def)
qed

lemma stage_edits_tool_ok:
  assumes "state_ok env required s"
  shows "state_ok env required (fst (stage_edits_tool env update s))"
proof (cases "stage_edits s update (en_content env) (en_base_hash env)")
  case (Inl e)
  then show ?thesis using assms by (simp add: stage_edits_tool_def)
next
  case (Inr s')
  have "state_ok env required s'"
    using stage_edits_keeps [OF Inr] assms by (auto simp: state_ok_def)
  then show ?thesis using assms by (simp add: stage_edits_tool_def Inr persist_cases)
qed

lemma update_plan_ok:
  assumes "plan_ok content p" "merge_repair_plan p update rules ids = Inr q"
    "resolve_plan_source_locations q content = Inr q'"
  shows "plan_ok content q' \<and> rp_revision q' = rp_revision p + 1"
proof -
  have st: "plan_step rules p q" by (rule plan_step.delta [OF assms(2)])
  have le: "rp_revision p \<le> max_int" using assms(1) by (simp add: plan_ok_def)
  note q = plan_step_props [OF st plan_ok_keyed [OF assms(1)] le]
  note r = resolve_plan_source_locations_Inr [OF assms(3) q(1)]
  show ?thesis using q r by (auto simp: plan_ok_def)
qed

lemma update_state_tool_ok:
  assumes "state_ok env required s"
  shows "state_ok env required (fst (update_state_tool env rules cache update s))"
proof (cases "merge_repair_plan (rs_plan s) update rules (sorted_rule_ids rules cache)")
  case (Inl e)
  then show ?thesis using assms by (simp add: update_state_tool_def)
next
  case (Inr q)
  show ?thesis
  proof (cases "resolve_plan_source_locations q (en_content env)")
    case (Inl e)
    then show ?thesis using assms Inr by (simp add: update_state_tool_def)
  next
    case r: (Inr q')
    have p: "plan_ok (en_content env) (rs_plan s)" using assms by (simp add: state_ok_def)
    note q = update_plan_ok [OF p Inr r]
    have "candidate_checked env required q' c" if "rs_last_candidate s = Some c" for c
      using assms that q by (auto simp: state_ok_def candidate_checked_def)
    then have "state_ok env required (s\<lparr>rs_plan := q'\<rparr>)"
      using assms q by (auto simp: state_ok_def)
    then show ?thesis by (simp add: update_state_tool_def Inr r persist_cases)
  qed
qed

text \<open>The IDs given to the edits of a whole candidate are distinct: decimal numerals are.\<close>

lemma decimal_value:
  "foldl (\<lambda>a c. a * 10 + (of_char c - 48)) 0 (decimal n) = (n :: nat)"
proof (induction n rule: decimal.induct)
  case (1 n)
  have digit: "of_char (char_of (48 + d) :: char) = 48 + d" if "d < 10" for d :: nat
    using that by (simp add: of_char_of)
  show ?case
  proof (cases "n < 10")
    case True
    then show ?thesis using digit [of n] by (subst decimal.simps) simp
  next
    case False
    have "n mod 10 < 10" by simp
    with 1 [OF False] False digit [of "n mod 10"] show ?thesis
      by (subst decimal.simps) simp
  qed
qed

lemma edits_as_staged_edits [simp]: "map se_edit (edits_as_staged es) = es"
  by (simp add: edits_as_staged_def comp_def case_prod_beta)

lemma edits_as_staged_ids: "distinct (map se_id (edits_as_staged es))"
proof -
  have "inj decimal" by (metis decimal_value injI)
  then have "inj (\<lambda>i. ''edit-'' @ decimal (i + 1))" by (auto simp: inj_def)
  then have "distinct (map (\<lambda>i. ''edit-'' @ decimal (i + 1)) (map fst (List.enumerate 0 es)))"
    by (simp add: distinct_map inj_on_def inj_def)
  moreover have "map se_id (edits_as_staged es) =
      map (\<lambda>i. ''edit-'' @ decimal (i + 1)) (map fst (List.enumerate 0 es))"
    by (simp only: edits_as_staged_def map_map comp_def case_prod_beta staged_edit.simps)
  ultimately show ?thesis by (simp only:)
qed

lemma check_candidate_request_None:
  "check_candidate_request env required plan request = None \<longleftrightarrow>
     require_complete_plan plan required = None \<and> check_candidate_plan plan request = None \<and>
     validate_exact_edits (cr_edits request) (en_content env) = None \<and>
     check_candidate_holds plan request (en_content env) = None"
  unfolding check_candidate_request_def outcome_simps by simp

lemma check_candidate_plan_revision:
  "check_candidate_plan plan request = None \<Longrightarrow> cr_plan_revision request = rp_revision plan"
  by (auto simp: check_candidate_plan_def split: if_splits)

lemma run_validation_ok:
  assumes "state_ok env required s" "check_candidate_request env required (rs_plan s) request = None"
    "cr_base_hash request = en_base_hash env"
  shows "state_ok env required (fst (run_validation env whole request s))"
proof (cases "en_validate env")
  case None
  then show ?thesis using assms by (simp add: run_validation_def)
next
  case (Some validate)
  define s1 where "s1 = fst (persist env (s\<lparr>rs_last_candidate := None,
      rs_validation_count := rs_validation_count s + 1\<rparr>))"
  have s1: "state_ok env required s1" "rs_plan s1 = rs_plan s"
    using assms(1) by (auto simp: s1_def state_ok_def)
  have rec: "candidate_checked env required (rs_plan s) (new_record request result)"
    if "validation_consistent request result" for result
    using assms that check_candidate_plan_revision [of "rs_plan s" request]
    by (auto simp: candidate_checked_def new_record_def check_candidate_request_None)
  have "state_ok env required (s1\<lparr>rs_last_candidate := Some (new_record request result)\<rparr>)"
    if "validation_consistent request result" for result
    using s1 rec [OF that] by (auto simp: state_ok_def)
  moreover have "staged_ok (en_content env) (edits_as_staged (cr_edits request))"
    using assms(2) edits_as_staged_ids by (auto simp: staged_ok_def check_candidate_request_None)
  ultimately have "state_ok env required
      (let s2 = s1\<lparr>rs_last_candidate := Some (new_record request result)\<rparr>
       in if whole then s2\<lparr>rs_staged_edits := edits_as_staged (cr_edits request)\<rparr> else s2)"
    if "validation_consistent request result" for result
    using that by (auto simp: state_ok_def Let_def)
  then show ?thesis
    using s1 by (auto simp: run_validation_def Some Let_def case_prod_beta s1_def split: option.split)
qed

lemma validate_tool_ok:
  assumes "state_ok env required s"
  shows "state_ok env required (fst (validate_tool env required whole request s))"
  using assms run_validation_ok [OF assms] by (auto simp: validate_tool_def split: option.split)

lemma execute_repair_tool_ok:
  assumes "state_ok env required (fst st)"
  shows "state_ok env required (fst (fst (execute_repair_tool env rules required call st)))"
proof -
  obtain s cache where st: "st = (s, cache)" by (cases st)
  have reads: "state_ok env required (s\<lparr>rs_read_rule_ids := ids\<rparr>)"
      "state_ok env required (s\<lparr>rs_rule_read_offsets := offsets, rs_read_rule_ids := ids\<rparr>)" for ids offsets
    using assms by (auto simp: st state_ok_def)
  show ?thesis
    using assms reads stage_edits_tool_ok [of env required s] update_state_tool_ok [of env required s]
      validate_tool_ok [of env required s]
    by (auto simp: st execute_repair_tool_def case_prod_beta split: tool_call.split sum.split)
qed

subsection \<open>Sessions\<close>

text \<open>
  The steps the editor's conversation can take between two requests: any tool call, and the
  independent review writing its record on the current candidate and into the list of reviews.
\<close>

inductive session_step ::
  "repair_env \<Rightarrow> rule list \<Rightarrow> rule_id list \<Rightarrow> repair_state \<times> rule_cache \<Rightarrow> repair_state \<times> rule_cache \<Rightarrow> bool"
  for env rules required where
  tool: "execute_repair_tool env rules required call st = (st', result) \<Longrightarrow>
     session_step env rules required st st'"
| review: "rs_last_candidate s = Some c \<Longrightarrow>
     session_step env rules required (s, cache)
       (s\<lparr>rs_last_candidate := Some (c\<lparr>ca_review_requested := True, ca_review_note := note, ca_review := r\<rparr>),
          rs_reviews := reviews, rs_usage := u, rs_review_count := n\<rparr>, cache)"

inductive_cases session_stepE: "session_step env rules required st st'"

lemma session_step_ok:
  assumes "session_step env rules required st st'" "state_ok env required (fst st)"
  shows "state_ok env required (fst st')"
  using assms(1)
proof (cases rule: session_step.cases)
  case (tool call result)
  then show ?thesis using execute_repair_tool_ok [OF assms(2), of rules call] by simp
next
  case (review s c cache msg r reviews u n)
  then show ?thesis using assms(2) by (auto simp: state_ok_def candidate_checked_def)
qed

lemma session_ok:
  assumes "(session_step env rules required)\<^sup>*\<^sup>* st st'" "state_ok env required (fst st)"
  shows "state_ok env required (fst st')"
  using assms by (induction rule: rtranclp_induct) (auto intro: session_step_ok)

lemma fresh_state_ok:
  assumes "rs_plan s = empty_plan" "rs_staged_edits s = []" "rs_last_candidate s = None"
  shows "state_ok env required s"
proof -
  have "validate_plan_source_locations empty_plan (en_content env) = None"
    by (simp add: validate_plan_source_locations_None empty_plan_def)
  then show ?thesis
    using assms by (simp add: state_ok_def plan_ok_def staged_ok_def)
qed

lemma final_modified_Inr:
  "final_modified s content h final = Inr p \<longleftrightarrow>
     (\<exists>c. rs_last_candidate s = Some c \<and> candidate_current c (rs_plan s) (fa_candidate_id final) h \<and>
        check_candidate_plan (rs_plan s) (ca_request c) = None \<and>
        validate_exact_edits (cr_edits (ca_request c)) content = None \<and>
        check_candidate_holds (rs_plan s) (ca_request c) content = None \<and>
        p = (final_proposal final)
            \<lparr>pr_edits := cr_edits (ca_request c), pr_candidate_id := fa_candidate_id final,
             pr_rules_applied := applied_rules (set (cr_addressed_item_ids (ca_request c)))
               (rp_items (rs_plan s)) {}\<rparr>)"
  by (cases "rs_last_candidate s") (auto simp: final_modified_def outcome_simps split: option.splits)

lemma set_applied_rules:
  "set (applied_rules a its done) = pi_rule_id ` {it \<in> set its. pi_id it \<in> a} - done"
  "distinct (applied_rules a its done)"
  by (induction its arbitrary: "done") auto

subsection \<open>Properties\<close>

text \<open>
  C21. Tool calls never corrupt the durable state. From a fresh state, after any sequence of tool
  calls and reviews: the plan is empty or well formed at a revision from 1 to the largest integer
  and every location it quotes matches the original, the staged edits have distinct IDs and
  materialise, and a recorded candidate for the current plan revision addresses exactly the open
  items, consists of exact edits and passes the hold check.
\<close>

theorem session_invariant:
  assumes "rs_plan s0 = empty_plan" "rs_staged_edits s0 = []" "rs_last_candidate s0 = None"
    "(session_step env rules required)\<^sup>*\<^sup>* (s0, cache0) (s, cache)"
  shows "(rs_plan s = empty_plan \<or> wf_plan (rs_plan s) \<and> 1 \<le> rp_revision (rs_plan s)) \<and>
    rp_revision (rs_plan s) \<le> max_int \<and>
    (\<forall>it \<in> set (rp_items (rs_plan s)). \<forall>loc \<in> set (pi_source_locations it).
       validate_source_location (en_content env) loc = None) \<and>
    distinct (map se_id (rs_staged_edits s)) \<and>
    (\<exists>t. materialize_edits (en_content env) (map se_edit (rs_staged_edits s)) = Inr t) \<and>
    (\<forall>c. rs_last_candidate s = Some c \<and> \<not> ca_no_change c \<and>
         cr_plan_revision (ca_request c) = rp_revision (rs_plan s) \<longrightarrow>
       set (cr_addressed_item_ids (ca_request c)) = open_items (rs_plan s) \<and>
       exact_edits (en_content env) (cr_edits (ca_request c)) \<and>
       check_candidate_holds (rs_plan s) (ca_request c) (en_content env) = None)"
proof -
  have ok: "state_ok env required s"
    using session_ok [OF assms(4)] fresh_state_ok [OF assms(1-3)] by simp
  then have plan: "plan_ok (en_content env) (rs_plan s)"
    and staged: "staged_ok (en_content env) (rs_staged_edits s)" by (auto simp: state_ok_def)
  have "set (cr_addressed_item_ids (ca_request c)) = open_items (rs_plan s) \<and>
       exact_edits (en_content env) (cr_edits (ca_request c)) \<and>
       check_candidate_holds (rs_plan s) (ca_request c) (en_content env) = None"
    if "rs_last_candidate s = Some c" "\<not> ca_no_change c"
      "cr_plan_revision (ca_request c) = rp_revision (rs_plan s)" for c
  proof -
    have "candidate_checked env required (rs_plan s) c" using ok that by (simp add: state_ok_def)
    then have r: "check_candidate_request env required (rs_plan s) (ca_request c) = None"
      using that by (simp add: candidate_checked_def)
    then show ?thesis
      using check_candidate_plan_accepted [of "rs_plan s" "ca_request c"]
      by (simp add: check_candidate_request_None validate_exact_edits_None)
  qed
  moreover have "\<exists>t. materialize_edits (en_content env) (map se_edit (rs_staged_edits s)) = Inr t"
    using staged by (auto simp: staged_ok_def materialize_edits_Inr)
  ultimately show ?thesis
    using plan staged by (auto simp: plan_ok_def staged_ok_def validate_plan_source_locations_None)
qed

definition sample_env :: repair_env where
  "sample_env = \<lparr>en_content = sample_lines, en_base_hash = ''h'', en_candidate_rules = [],
     en_read_rule = (\<lambda>_. Some ''b''), en_save = (\<lambda>_. True), en_now = (\<lambda>_. 0),
     en_validate = Some (\<lambda>r. Some \<lparr>cv_attribution_version = 2, cv_candidate_id = ''c'',
       cv_candidate_hash = ''k'', cv_plan_revision = cr_plan_revision r, cv_passed = True,
       cv_checks = [], cv_edit_ranges = []\<rparr>),
     en_section = (\<lambda>_ _. None), en_context = None\<rparr>"

lemma sample_plan_step:
  "execute_repair_tool sample_env [sample_rule] [''r1''] (ToolUpdate sample_plan_update)
     (sample_state empty_plan, [''r1'' \<mapsto> ''b'']) =
   ((sample_state sample_plan, [''r1'' \<mapsto> ''b'']), ToolDone ReplySaved)"
proof -
  have ids: "sorted_rule_ids [sample_rule] [''r1'' \<mapsto> ''b''] = [''r1'']"
    by (simp add: sorted_rule_ids_def sample_rule_def)
  have r: "resolve_plan_source_locations sample_plan sample_lines = Inr sample_plan" by code_simp
  show ?thesis
    by (simp add: execute_repair_tool_def update_state_tool_def sample_merge ids r persist_def
        sample_env_def sample_state_def)
qed

definition sample_whole :: candidate_request where
  "sample_whole = sample_request [linked_edit ''a'' ''x'']"

definition sample_result :: candidate_validation where
  "sample_result = \<lparr>cv_attribution_version = 2, cv_candidate_id = ''c'', cv_candidate_hash = ''k'',
     cv_plan_revision = 1, cv_passed = True, cv_checks = [], cv_edit_ranges = []\<rparr>"

definition sample_validated :: repair_state where
  "sample_validated = sample_state sample_plan
     \<lparr>rs_validation_count := 1, rs_last_candidate := Some (new_record sample_whole sample_result),
      rs_staged_edits := edits_as_staged [linked_edit ''a'' ''x'']\<rparr>"

lemma sample_validate_step:
  "execute_repair_tool sample_env [sample_rule] [''r1''] (ToolValidate sample_whole)
     (sample_state sample_plan, [''r1'' \<mapsto> ''b'']) =
   ((sample_validated, [''r1'' \<mapsto> ''b'']), ToolDone (ReplyValidation sample_result))"
proof -
  have c: "require_complete_plan sample_plan [''r1''] = None" "check_candidate_plan sample_plan sample_whole = None"
      "validate_exact_edits (cr_edits sample_whole) sample_lines = None"
      "check_candidate_holds sample_plan sample_whole sample_lines = None"
    by code_simp+
  have k: "check_candidate_request sample_env [''r1''] sample_plan sample_whole = None"
    using c by (simp add: check_candidate_request_None sample_env_def)
  have i: "require_edit_item_ids (cr_edits sample_whole)" "cr_base_hash sample_whole = ''h''"
      "validation_consistent sample_whole sample_result" "cr_plan_revision sample_whole = 1"
      "cr_edits sample_whole = [linked_edit ''a'' ''x'']" by code_simp+
  have v: "en_validate sample_env = Some (\<lambda>r. Some (sample_result\<lparr>cv_plan_revision := cr_plan_revision r\<rparr>))"
    by (simp add: sample_env_def sample_result_def)
  have same: "sample_result\<lparr>cv_plan_revision := 1\<rparr> = sample_result" by (simp add: sample_result_def)
  show ?thesis
    using k i v same
    by (simp add: execute_repair_tool_def validate_tool_def run_validation_def persist_def Let_def
        sample_state_def sample_validated_def) (simp add: sample_env_def)
qed

lemma sample_session:
  "(session_step sample_env [sample_rule] [''r1''])\<^sup>*\<^sup>*
     (sample_state empty_plan, [''r1'' \<mapsto> ''b'']) (sample_validated, [''r1'' \<mapsto> ''b''])"
  using session_step.tool [OF sample_plan_step] session_step.tool [OF sample_validate_step]
  by (meson converse_rtranclp_into_rtranclp r_into_rtranclp)

lemma sample_state_fresh:
  "rs_plan (sample_state p) = p" "rs_staged_edits (sample_state p) = []" "rs_last_candidate (sample_state p) = None"
  by (simp_all add: sample_state_def)

lemma session_invariant_witness:
  "(session_step sample_env [sample_rule] [''r1''])\<^sup>*\<^sup>*
     (sample_state empty_plan, [''r1'' \<mapsto> ''b'']) (sample_validated, [''r1'' \<mapsto> ''b'']) \<and>
   (\<exists>t. materialize_edits sample_lines (map se_edit (rs_staged_edits sample_validated)) = Inr t)"
  using session_invariant [OF sample_state_fresh sample_session] sample_session
  by (simp add: sample_env_def)

text \<open>
  C22. A validated candidate can be submitted, and only that. From a fresh state, after any
  sequence of tool calls and reviews, a final answer \<open>modified\<close> with a nonblank note and an ID of at
  most 256 bytes is accepted exactly when the recorded candidate is current, passed and carries
  that ID (the plan, edit and hold checks that are repeated there never reject it); the accepted
  proposal has the candidate's edits, which materialise, and applies each rule of an open item
  exactly once.
\<close>

theorem final_modified_accepts_current:
  assumes "rs_plan s0 = empty_plan" "rs_staged_edits s0 = []" "rs_last_candidate s0 = None"
    "(session_step env rules required)\<^sup>*\<^sup>* (s0, cache0) (s, cache)"
    "fa_outcome final = O_modified" "\<not> blank (fa_note final)" "length (fa_candidate_id final) \<le> 256"
  shows "((\<exists>p. parse_candidate_final (Some final) s (en_content env) (en_base_hash env) required = Inr p) \<longleftrightarrow>
      (\<exists>c. rs_last_candidate s = Some c \<and>
         candidate_current c (rs_plan s) (fa_candidate_id final) (en_base_hash env))) \<and>
    (\<forall>p. parse_candidate_final (Some final) s (en_content env) (en_base_hash env) required = Inr p \<longrightarrow>
      pr_outcome p = O_modified \<and> pr_candidate_id p = fa_candidate_id final \<and>
      (\<exists>t. materialize_edits (en_content env) (pr_edits p) = Inr t) \<and>
      distinct (pr_rules_applied p) \<and>
      set (pr_rules_applied p) = pi_rule_id ` {it \<in> set (rp_items (rs_plan s)). pi_status it \<noteq> S_blocked})"
proof -
  let ?parse = "parse_candidate_final (Some final) s (en_content env) (en_base_hash env) required"
  have ok: "state_ok env required s"
    using session_ok [OF assms(4)] fresh_state_ok [OF assms(1-3)] by simp
  have find: "find (\<lambda>rid. rid \<notin> pd_rule_id ` set (rp_decisions (rs_plan s))) required = None
      \<longleftrightarrow> require_complete_plan (rs_plan s) required = None"
    by (simp add: require_complete_plan_def)
  have parse: "?parse = Inr p \<longleftrightarrow> 1 \<le> rp_revision (rs_plan s) \<and>
      require_complete_plan (rs_plan s) required = None \<and>
      final_modified s (en_content env) (en_base_hash env) final = Inr p" for p
    unfolding parse_candidate_final_def option.case outcome_simps find
    using assms(5-7) find by (auto simp: outcome_simps not_less)
  have current: "1 \<le> rp_revision (rs_plan s) \<and> require_complete_plan (rs_plan s) required = None \<and>
      (\<exists>p. final_modified s (en_content env) (en_base_hash env) final = Inr p)"
    if c: "rs_last_candidate s = Some c"
      "candidate_current c (rs_plan s) (fa_candidate_id final) (en_base_hash env)" for c
  proof -
    have "candidate_checked env required (rs_plan s) c" using ok c(1) by (simp add: state_ok_def)
    then have r: "check_candidate_request env required (rs_plan s) (ca_request c) = None"
      using c(2) by (simp add: candidate_checked_def candidate_current_def)
    then have "1 \<le> rp_revision (rs_plan s)"
      using check_candidate_plan_accepted [of "rs_plan s" "ca_request c"]
      by (simp add: check_candidate_request_None)
    then show ?thesis using r c by (simp add: check_candidate_request_None final_modified_Inr)
  qed
  have submitted: "pr_outcome p = O_modified \<and> pr_candidate_id p = fa_candidate_id final \<and>
      (\<exists>t. materialize_edits (en_content env) (pr_edits p) = Inr t) \<and>
      distinct (pr_rules_applied p) \<and>
      set (pr_rules_applied p) = pi_rule_id ` {it \<in> set (rp_items (rs_plan s)). pi_status it \<noteq> S_blocked}"
    if "?parse = Inr p" for p
  proof -
    have "final_modified s (en_content env) (en_base_hash env) final = Inr p"
      using that parse by blast
    then obtain c :: candidate_record where c: "check_candidate_plan (rs_plan s) (ca_request c) = None"
        "validate_exact_edits (cr_edits (ca_request c)) (en_content env) = None"
        "p = (final_proposal final)
            \<lparr>pr_edits := cr_edits (ca_request c), pr_candidate_id := fa_candidate_id final,
             pr_rules_applied := applied_rules (set (cr_addressed_item_ids (ca_request c)))
               (rp_items (rs_plan s)) {}\<rparr>"
      unfolding final_modified_Inr by blast
    have ids: "set (cr_addressed_item_ids (ca_request c)) = open_items (rs_plan s)" and wf: "wf_plan (rs_plan s)"
      using check_candidate_plan_accepted [OF c(1)] by auto
    have inj: "inj_on pi_id (set (rp_items (rs_plan s)))"
      using wf by (simp add: wf_plan_def distinct_map)
    have "{it \<in> set (rp_items (rs_plan s)). pi_id it \<in> open_items (rs_plan s)} =
        {it \<in> set (rp_items (rs_plan s)). pi_status it \<noteq> S_blocked}"
      using inj by (auto simp: open_items_def dest: inj_onD)
    then show ?thesis
      using c(2) assms(5) by (auto simp: c(3) final_proposal_def materialize_edits_Inr set_applied_rules ids)
  qed
  have "(\<exists>p. ?parse = Inr p) \<longleftrightarrow> (\<exists>c. rs_last_candidate s = Some c \<and>
         candidate_current c (rs_plan s) (fa_candidate_id final) (en_base_hash env))"
    using current unfolding parse final_modified_Inr by blast
  then show ?thesis using submitted by blast
qed

definition sample_final :: final_answer where
  "sample_final = \<lparr>fa_outcome = O_modified, fa_candidate_id = ''c'', fa_note = ''done''\<rparr>"

lemma final_modified_accepts_current_witness:
  "\<exists>p. parse_candidate_final (Some sample_final) sample_validated sample_lines ''h'' [''r1''] = Inr p \<and>
     pr_rules_applied p = [''r1''] \<and> (\<exists>t. materialize_edits sample_lines (pr_edits p) = Inr t)"
proof -
  have f: "fa_outcome sample_final = O_modified" "\<not> blank (fa_note sample_final)"
      "length (fa_candidate_id sample_final) \<le> 256"
    by (simp add: sample_final_def, code_simp, simp add: sample_final_def)
  note th = final_modified_accepts_current [OF sample_state_fresh sample_session f]
  have "candidate_current (new_record sample_whole sample_result) sample_plan ''c'' ''h''"
    by code_simp
  then have "\<exists>c. rs_last_candidate sample_validated = Some c \<and>
      candidate_current c (rs_plan sample_validated) (fa_candidate_id sample_final) (en_base_hash sample_env)"
    by (simp add: sample_validated_def sample_state_def sample_final_def sample_env_def)
  with th obtain p where p: "parse_candidate_final (Some sample_final) sample_validated
      (en_content sample_env) (en_base_hash sample_env) [''r1''] = Inr p" by blast
  have r1: "pi_rule_id ` {it \<in> set (rp_items (rs_plan sample_validated)). pi_status it \<noteq> S_blocked} = {''r1''}"
  proof -
    have "rp_items (rs_plan sample_validated) = [sample_item]"
      by (simp add: sample_validated_def sample_state_def sample_plan_def)
    moreover have "pi_status sample_item \<noteq> S_blocked" "pi_rule_id sample_item = ''r1''"
      by (simp_all add: sample_item_def)
    ultimately show ?thesis by (simp add: Collect_conv_if)
  qed
  have env: "en_content sample_env = sample_lines" "en_base_hash sample_env = ''h''"
    by (simp_all add: sample_env_def)
  have q: "distinct (pr_rules_applied p)" "set (pr_rules_applied p) = {''r1''}"
      "\<exists>t. materialize_edits (en_content sample_env) (pr_edits p) = Inr t"
    using th [THEN conjunct2, rule_format, OF p] unfolding r1 by simp_all
  have "pr_rules_applied p = [''r1'']" using q(1,2) by (simp add: distinct_set_singleton)
  then show ?thesis using p q(3) unfolding env by blast
qed

end
