(* ===== verification/LineRanges.thy ===== *)
theory LineRanges
  imports ExactEdits
begin

section \<open>Which lines a candidate changes\<close>

text \<open>
  \<open>internal/engine/change_line_ranges.go\<close>: the attribution of the changed lines of a candidate to
  plan items. The edits are re-checked against both texts, each edit is split into item-specific
  fragments that have to reproduce it, each fragment into blocks around unchanged lines by a
  longest common subsequence of lines, and each block becomes a range of lines on both sides.
  Offsets are natural numbers except the running displacement between the two texts, an integer.
\<close>

datatype range_error =
    RangeNotUnique | RangeOverlap | RangeMismatch | RangeItemIds | RangeNoItems | RangeNeedsFragments
  | RangeUnknownItem item_id | RangeNoChange item_id | RangeFragmentMatch item_id
  | RangeDuplicate item_id | RangeUncovered item_id | RangeFragmentOverlap | RangeReproduce
  | RangeEmptyFragment | RangeBudget | RangeSeparate

record attribution_patch =
  ap_start :: nat
  ap_before :: string
  ap_after :: string
  ap_item_ids :: "item_id list"

record byte_block =
  bb_old_start :: nat
  bb_old_end :: nat
  bb_new_start :: nat
  bb_new_end :: nat

subsection \<open>Changed blocks\<close>

fun common_prefix :: "'a list \<Rightarrow> 'a list \<Rightarrow> nat" where
  "common_prefix (x # xs) (y # ys) = (if x = y then Suc (common_prefix xs ys) else 0)"
| "common_prefix _ _ = 0"

text \<open>The suffix loop stops at the prefix on either side, so it runs on what is left of it.\<close>

definition common_byte_edges :: "string \<Rightarrow> string \<Rightarrow> nat \<times> nat" where
  "common_byte_edges before after =
     (let p = common_prefix before after in
      (p, common_prefix (rev (drop p before)) (rev (drop p after))))"

definition line_tokens :: "string \<Rightarrow> string list" where
  "line_tokens txt = (let ts = split_after LF txt in if last ts = [] then butlast ts else ts)"

text \<open>
  The table of the source, one list per row; row \<open>i\<close> has the entries \<open>lcs[i*width+j]\<close>. An entry is
  at most the number of tokens, which the cell budget keeps far below the range of \<open>uint32\<close>.
\<close>

fun lcs_row :: "string \<Rightarrow> string list \<Rightarrow> nat list \<Rightarrow> nat list" where
  "lcs_row x [] below = [0]"
| "lcs_row x (y # ys) below =
     (let row = lcs_row x ys (tl below) in
      (if x = y then Suc (hd (tl below)) else max (hd below) (hd row)) # row)"

fun lcs_table :: "string list \<Rightarrow> string list \<Rightarrow> nat list list" where
  "lcs_table [] ys = [replicate (Suc (length ys)) 0]"
| "lcs_table (x # xs) ys = (let t = lcs_table xs ys in lcs_row x ys (hd t) # t)"

text \<open>\<open>flush\<close>: the block collected since the last common line, cut to the bytes that differ.\<close>

definition flush_block :: "string \<Rightarrow> string \<Rightarrow> nat \<Rightarrow> nat \<Rightarrow> nat \<Rightarrow> nat \<Rightarrow> byte_block list" where
  "flush_block before after old_start new_start old_pos new_pos =
     (if old_start = old_pos \<and> new_start = new_pos then []
      else (case common_byte_edges (slice old_start old_pos before) (slice new_start new_pos after) of
        (p, s) \<Rightarrow> [\<lparr>bb_old_start = old_start + p, bb_old_end = old_pos - s,
                    bb_new_start = new_start + p, bb_new_end = new_pos - s\<rparr>]))"

function block_walk ::
  "nat list list \<Rightarrow> string list \<Rightarrow> string list \<Rightarrow> string \<Rightarrow> string \<Rightarrow>
     nat \<Rightarrow> nat \<Rightarrow> nat \<Rightarrow> nat \<Rightarrow> nat \<Rightarrow> nat \<Rightarrow> byte_block list" where
  "block_walk lcs olds news before after i j old_start new_start old_pos new_pos =
     (if i < length olds \<and> j < length news \<and> olds ! i = news ! j then
        flush_block before after old_start new_start old_pos new_pos @
        block_walk lcs olds news before after (i + 1) (j + 1)
          (old_pos + length (olds ! i)) (new_pos + length (news ! j))
          (old_pos + length (olds ! i)) (new_pos + length (news ! j))
      else if i < length olds \<and> (\<not> j < length news \<or> lcs ! (i + 1) ! j \<ge> lcs ! i ! (j + 1)) then
        block_walk lcs olds news before after (i + 1) j old_start new_start
          (old_pos + length (olds ! i)) new_pos
      else if j < length news then
        block_walk lcs olds news before after i (j + 1) old_start new_start
          old_pos (new_pos + length (news ! j))
      else flush_block before after old_start new_start old_pos new_pos)"
  by pat_completeness auto
termination
  by (relation "measure (\<lambda>(_, olds, news, _, _, i, j, _). (length olds - i) + (length news - j))") auto

declare block_walk.simps [simp del]

definition max_cells :: int where "max_cells = 1000000"

definition changed_byte_blocks :: "string \<Rightarrow> string \<Rightarrow> (range_error, byte_block list) outcome" where
  "changed_byte_blocks before after =
     (case common_byte_edges before after of (p, s) \<Rightarrow>
        (let old_part = slice p (length before - s) before;
             new_part = slice p (length after - s) after in
         if old_part = [] \<and> new_part = [] then Inl RangeEmptyFragment
         else if old_part = [] \<or> new_part = [] then
           Inr [\<lparr>bb_old_start = p, bb_old_end = length before - s,
                 bb_new_start = p, bb_new_end = length after - s\<rparr>]
         else
           (let olds = line_tokens old_part; news = line_tokens new_part in
            if int (length olds + 1) > max_cells div int (length news + 1) then Inl RangeBudget
            else Inr (block_walk (lcs_table olds news) olds news before after 0 0 p p p p))))"

subsection \<open>Fragments of an edit\<close>

text \<open>
  The shared shape of the two loops that rebuild a text from sorted replacements
  \<open>(start, old, new)\<close>; \<^const>\<open>None\<close> when one starts inside the previous one.
\<close>

fun patched :: "string \<Rightarrow> nat \<Rightarrow> (nat \<times> string \<times> string) list \<Rightarrow> string option" where
  "patched s prev [] = Some (drop prev s)"
| "patched s prev ((start, old, new) # ps) =
     (if start < prev then None
      else map_option (\<lambda>t. slice prev start s @ new @ t) (patched s (start + length old) ps))"

definition same_key :: "edit_attribution \<Rightarrow> attribution_patch \<Rightarrow> bool" where
  "same_key f p \<longleftrightarrow> ap_before p = at_before_text f \<and> ap_after p = at_after_text f"

text \<open>\<open>grouped\<close> maps a pair of texts to the one patch with these texts.\<close>

fun group_fragments ::
  "edit \<Rightarrow> edit_attribution list \<Rightarrow> attribution_patch list \<Rightarrow> (range_error, attribution_patch list) outcome" where
  "group_fragments e [] patches = Inr patches"
| "group_fragments e (f # fs) patches =
     (if at_item_id f \<notin> set (ed_item_ids e) then Inl (RangeUnknownItem (at_item_id f))
      else if at_before_text f = [] \<or> at_before_text f = at_after_text f
        then Inl (RangeNoChange (at_item_id f))
      else (case unique_index (ed_old_text e) (at_before_text f) of
        None \<Rightarrow> Inl (RangeFragmentMatch (at_item_id f))
      | Some start \<Rightarrow>
          (case find (same_key f) patches of
             Some p \<Rightarrow>
               if at_item_id f \<in> set (ap_item_ids p) then Inl (RangeDuplicate (at_item_id f))
               else group_fragments e fs
                 (map (\<lambda>q. if same_key f q then q\<lparr>ap_item_ids := ap_item_ids q @ [at_item_id f]\<rparr> else q) patches)
           | None \<Rightarrow> group_fragments e fs
               (patches @ [\<lparr>ap_start = start, ap_before = at_before_text f, ap_after = at_after_text f,
                            ap_item_ids = [at_item_id f]\<rparr>]))))"

definition patch_triple :: "attribution_patch \<Rightarrow> nat \<times> string \<times> string" where
  "patch_triple p = (ap_start p, ap_before p, ap_after p)"

definition edit_fragments :: "edit \<Rightarrow> edit_attribution list" where
  "edit_fragments e =
     (if ed_attributions e = []
      then [\<lparr>at_item_id = hd (ed_item_ids e), at_before_text = ed_old_text e, at_after_text = ed_new_text e\<rparr>]
      else ed_attributions e)"

definition verified_attribution_patches :: "edit \<Rightarrow> (range_error, attribution_patch list) outcome" where
  "verified_attribution_patches e =
     (if \<not> (list_all (\<lambda>i. \<not> blank i) (ed_item_ids e) \<and> distinct (ed_item_ids e)) then Inl RangeItemIds
      else if ed_item_ids e = [] then Inl RangeNoItems
      else if ed_attributions e = [] \<and> length (ed_item_ids e) \<noteq> 1 then Inl RangeNeedsFragments
      else (case group_fragments e (edit_fragments e) [] of
        Inl err \<Rightarrow> Inl err
      | Inr grouped \<Rightarrow>
      (case find (\<lambda>i. i \<notin> at_item_id ` set (edit_fragments e)) (ed_item_ids e) of
        Some i \<Rightarrow> Inl (RangeUncovered i)
      | None \<Rightarrow>
          (let patches = sort_key ap_start grouped in
           (case patched (ed_old_text e) 0 (map patch_triple patches) of
              None \<Rightarrow> Inl RangeFragmentOverlap
            | Some t \<Rightarrow> if t \<noteq> ed_new_text e then Inl RangeReproduce else Inr patches)))))"

subsection \<open>Line ranges\<close>

definition changed_line_range :: "string \<Rightarrow> nat \<Rightarrow> nat \<Rightarrow> string \<Rightarrow> nat \<times> nat" where
  "changed_line_range txt start finish opposite =
     (if start = finish then
        (let boundary = (start = 0 \<or> txt ! (start - 1) = LF);
             line = count_char LF (take start txt) + 1 in
         if boundary \<and> suffix [LF] opposite \<or> start = length txt \<and> boundary then (0, 0)
         else (line, line))
      else (count_char LF (take start txt) + 1, count_char LF (take (finish - 1) txt) + 1))"

definition range_of :: "string \<Rightarrow> string \<Rightarrow> item_id list \<Rightarrow> byte_block \<Rightarrow> edit_line_range" where
  "range_of before after ids b =
     (case changed_line_range before (bb_old_start b) (bb_old_end b) (slice (bb_new_start b) (bb_new_end b) after) of
        (b1, b2) \<Rightarrow>
      (case changed_line_range after (bb_new_start b) (bb_new_end b) (slice (bb_old_start b) (bb_old_end b) before) of
        (a1, a2) \<Rightarrow>
          \<lparr>er_item_ids = ids, er_range = \<lparr>lr_before_start = int b1, lr_before_end = int b2,
             lr_after_start = int a1, lr_after_end = int a2\<rparr>\<rparr>))"

definition shift_block :: "nat \<Rightarrow> int \<Rightarrow> byte_block \<Rightarrow> byte_block" where
  "shift_block d offset b =
     \<lparr>bb_old_start = d + bb_old_start b, bb_old_end = d + bb_old_end b,
      bb_new_start = nat (int d + offset + int (bb_new_start b)),
      bb_new_end = nat (int d + offset + int (bb_new_end b))\<rparr>"

text \<open>The blocks of one edit, in absolute coordinates, each with the items of its fragment.\<close>

fun patch_blocks ::
  "edit \<Rightarrow> nat \<Rightarrow> int \<Rightarrow> attribution_patch list \<Rightarrow> (range_error, (item_id list \<times> byte_block) list) outcome" where
  "patch_blocks e start offset [] = Inr []"
| "patch_blocks e start offset (p # ps) =
     (case changed_byte_blocks (ap_before p) (ap_after p) of
        Inl err \<Rightarrow> Inl err
      | Inr blocks \<Rightarrow>
          if length (ed_item_ids e) > 1 \<and> length blocks > 1 then Inl RangeSeparate
          else (case patch_blocks e start
              (offset + int (length (ap_after p)) - int (length (ap_before p))) ps of
            Inl err \<Rightarrow> Inl err
          | Inr rest \<Rightarrow>
              Inr (map (\<lambda>b. (ap_item_ids p, shift_block (start + ap_start p) offset b)) blocks @ rest)))"

fun edit_blocks :: "(nat \<times> edit) list \<Rightarrow> int \<Rightarrow> (range_error, (item_id list \<times> byte_block) list) outcome" where
  "edit_blocks [] offset = Inr []"
| "edit_blocks ((start, e) # rest) offset =
     (case verified_attribution_patches e of
        Inl err \<Rightarrow> Inl err
      | Inr patches \<Rightarrow>
      (case patch_blocks e start offset patches of
        Inl err \<Rightarrow> Inl err
      | Inr blocks \<Rightarrow>
      (case edit_blocks rest (offset + int (length (ed_new_text e)) - int (length (ed_old_text e))) of
        Inl err \<Rightarrow> Inl err
      | Inr later \<Rightarrow> Inr (blocks @ later))))"

definition edit_triple :: "nat \<times> edit \<Rightarrow> nat \<times> string \<times> string" where
  "edit_triple x = (fst x, ed_old_text (snd x), ed_new_text (snd x))"

definition verified_edit_line_ranges ::
  "string \<Rightarrow> string \<Rightarrow> edit list \<Rightarrow> (range_error, edit_line_range list) outcome" where
  "verified_edit_line_ranges before after edits =
     (if list_ex (\<lambda>e. ed_old_text e = [] \<or> unique_index before (ed_old_text e) = None) edits
      then Inl RangeNotUnique
      else (let ordered = sort_key fst (located before edits) in
        (case patched before 0 (map edit_triple ordered) of
           None \<Rightarrow> Inl RangeOverlap
         | Some t \<Rightarrow>
             if t \<noteq> after then Inl RangeMismatch
             else (case edit_blocks ordered 0 of
                Inl err \<Rightarrow> Inl err
              | Inr blocks \<Rightarrow> Inr (map (\<lambda>(ids, b). range_of before after ids b) blocks)))))"

definition unlinked_marker :: item_id where
  "unlinked_marker = ''__historical_unlinked_edit__''"

definition exact_edit_line_ranges :: "string \<Rightarrow> string \<Rightarrow> edit list \<Rightarrow> edit_line_range list" where
  "exact_edit_line_ranges before after edits =
     (case verified_edit_line_ranges before after
          (map (\<lambda>e. if ed_item_ids e = [] then e\<lparr>ed_item_ids := [unlinked_marker]\<rparr> else e) edits) of
        Inl _ \<Rightarrow> []
      | Inr ranges \<Rightarrow> filter (\<lambda>r. er_item_ids r \<noteq> [unlinked_marker]) ranges)"

section \<open>Edit scripts\<close>

text \<open>
  The specification the blocks are measured against: \<open>hunks x y p q hs\<close> says that the second text
  is the first with the old side of each block replaced by its new side, and that everything
  between the blocks is common to both. \<open>p\<close> and \<open>q\<close> are the offsets the texts start at.
\<close>

inductive hunks :: "string \<Rightarrow> string \<Rightarrow> nat \<Rightarrow> nat \<Rightarrow> byte_block list \<Rightarrow> bool" where
  same: "hunks x x p q []"
| block: "hunks x y (p + length g + length u) (q + length g + length v) hs \<Longrightarrow>
     hunks (g @ u @ x) (g @ v @ y) p q
       (\<lparr>bb_old_start = p + length g, bb_old_end = p + length g + length u,
         bb_new_start = q + length g, bb_new_end = q + length g + length v\<rparr> # hs)"

inductive_cases hunks_NilE: "hunks x y p q []"
inductive_cases hunks_ConsE: "hunks x y p q (h # hs)"

lemma hunks_block':
  assumes "hunks x y p' q' hs" "p' = p + length g + length u" "q' = q + length g + length v"
    "h = \<lparr>bb_old_start = p + length g, bb_old_end = p', bb_new_start = q + length g, bb_new_end = q'\<rparr>"
  shows "hunks (g @ u @ x) (g @ v @ y) p q (h # hs)"
  using hunks.block [of x y p g u q v hs] assms by simp

lemma hunks_prepend:
  assumes "hunks x y (p + length g) (q + length g) hs"
  shows "hunks (g @ x) (g @ y) p q hs"
  using assms
proof (cases rule: hunks.cases)
  case same
  then show ?thesis by (simp add: hunks.same)
next
  case (block x' y' g' u v hs')
  from block(4) have "hunks ((g @ g') @ u @ x') ((g @ g') @ v @ y') p q hs"
    unfolding block(3) by (rule hunks_block') (simp_all add: add.assoc)
  then show ?thesis by (simp add: block(1,2))
qed

lemma hunks_append:
  assumes "hunks x y p q hs" "hunks x' y' (p + length x) (q + length y) hs'"
  shows "hunks (x @ x') (y @ y') p q (hs @ hs')"
  using assms
proof (induction rule: hunks.induct)
  case (same x p q)
  then show ?case by (simp add: hunks_prepend)
next
  case (block x y p g u q v hs)
  then have "hunks (x @ x') (y @ y') (p + length g + length u) (q + length g + length v) (hs @ hs')"
    by (simp add: add.assoc)
  then show ?case using hunks.block by fastforce
qed

lemma hunks_shift:
  assumes "hunks x y p q hs" "\<And>b. b \<in> set hs \<Longrightarrow> h b = \<lparr>bb_old_start = bb_old_start b + d,
      bb_old_end = bb_old_end b + d, bb_new_start = bb_new_start b + e, bb_new_end = bb_new_end b + e\<rparr>"
  shows "hunks x y (p + d) (q + e) (map h hs)"
  using assms
proof (induction rule: hunks.induct)
  case (block x y p g u q v hs)
  then have "hunks x y (p + length g + length u + d) (q + length g + length v + e) (map h hs)" by simp
  then have "hunks x y (p + d + length g + length u) (q + e + length g + length v) (map h hs)"
    by (simp add: algebra_simps)
  from hunks.block [OF this] show ?case using block.prems by (simp add: algebra_simps)
qed (simp add: hunks.same)

text \<open>A script read in the other direction.\<close>

definition swap_block :: "byte_block \<Rightarrow> byte_block" where
  "swap_block b = \<lparr>bb_old_start = bb_new_start b, bb_old_end = bb_new_end b,
     bb_new_start = bb_old_start b, bb_new_end = bb_old_end b\<rparr>"

lemma hunks_swap: "hunks x y p q hs \<Longrightarrow> hunks y x q p (map swap_block hs)"
proof (induction rule: hunks.induct)
  case (block x y p g u q v hs)
  from hunks.block [OF this(2)] show ?case by (simp add: swap_block_def)
qed (simp add: hunks.same)

text \<open>What no block touches is found again, in order, on the other side.\<close>

lemma hunks_keep:
  assumes "hunks x y p q hs" "p \<le> a" "a \<le> b" "b \<le> p + length x"
    "\<And>h. h \<in> set hs \<Longrightarrow> bb_old_end h \<le> a \<or> b \<le> bb_old_start h"
  shows "\<exists>l r. y = l @ slice (a - p) (b - p) x @ r"
  using assms
proof (induction rule: hunks.induct)
  case (same x p q)
  have "take (a - p) x @ slice (a - p) (b - p) x @ drop (b - p) x = x"
    using same by (metis append_take_drop_id diff_le_mono slice_append_drop)
  then show ?case by metis
next
  case (block x y p g u q v hs)
  have "p + length g + length u \<le> a \<or> b \<le> p + length g" using block.prems(4) by fastforce
  then show ?case
  proof
    assume a: "p + length g + length u \<le> a"
    then obtain l r where "y = l @ slice (a - (p + length g + length u)) (b - (p + length g + length u)) x @ r"
      using block.IH block.prems by fastforce
    moreover have "slice (a - p) (b - p) ((g @ u) @ x) =
        slice (a - p - length (g @ u)) (b - p - length (g @ u)) x"
      using a by (intro slice_append_right) simp
    ultimately have "g @ v @ y = (g @ v @ l) @ slice (a - p) (b - p) (g @ u @ x) @ r"
      by (simp add: diff_diff_left add.assoc)
    then show ?thesis by blast
  next
    assume b: "b \<le> p + length g"
    then have s: "slice (a - p) (b - p) (g @ u @ x) = slice (a - p) (b - p) g"
      by (intro slice_append_left) simp
    have "take (a - p) g @ slice (a - p) (b - p) g @ drop (b - p) g = g"
      using block.prems(2) by (metis append_take_drop_id diff_le_mono slice_append_drop)
    then have "g @ v @ y = take (a - p) g @ slice (a - p) (b - p) (g @ u @ x) @ (drop (b - p) g @ v @ y)"
      unfolding s by (metis append.assoc)
    then show ?thesis by blast
  qed
qed

lemma hunks_spans:
  assumes "hunks x y p q hs" "h \<in> set hs"
  shows "bb_old_start h \<le> bb_old_end h \<and> bb_old_end h \<le> p + length x \<and>
    bb_new_start h \<le> bb_new_end h \<and> bb_new_end h \<le> q + length y \<and> p \<le> bb_old_start h \<and> q \<le> bb_new_start h"
  using assms by (induction rule: hunks.induct) fastforce+

lemma hunks_Nil: "hunks x y p q [] \<Longrightarrow> x = y"
  by (auto elim: hunks_NilE)

subsection \<open>The blocks are a script\<close>

lemma common_prefix_take:
  "common_prefix xs ys \<le> length xs \<and> common_prefix xs ys \<le> length ys \<and>
     take (common_prefix xs ys) xs = take (common_prefix xs ys) ys"
  by (induction xs ys rule: common_prefix.induct) auto

lemma common_byte_edges_split:
  assumes "common_byte_edges x y = (p, s)"
  shows "\<exists>g u v r. x = g @ u @ r \<and> y = g @ v @ r \<and> length g = p \<and> length r = s"
proof -
  let ?x = "drop p x" and ?y = "drop p y"
  have p: "p = common_prefix x y" and s: "s = common_prefix (rev ?x) (rev ?y)"
    using assms by (auto simp: common_byte_edges_def Let_def)
  have g: "p \<le> length x" "p \<le> length y" "take p x = take p y" using common_prefix_take [of x y] p by auto
  have r: "s \<le> length ?x" "s \<le> length ?y" "drop (length ?x - s) ?x = drop (length ?y - s) ?y"
    using common_prefix_take [of "rev ?x" "rev ?y"] s by (auto simp: take_rev)
  have "x = take p x @ take (length ?x - s) ?x @ drop (length ?x - s) ?x"
    by (simp only: append_take_drop_id)
  moreover have "y = take p x @ take (length ?y - s) ?y @ drop (length ?x - s) ?x"
    by (metis append_take_drop_id g(3) r(3))
  ultimately show ?thesis using g(1) r(1) by (metis diff_diff_cancel length_drop length_take min.absorb2)
qed

lemma flush_block_hunks:
  assumes "a \<le> b" "b \<le> length s" "c \<le> d" "d \<le> length t"
  shows "hunks (slice a b s) (slice c d t) a c (flush_block s t a c b d)"
proof (cases "a = b \<and> c = d")
  case True
  then show ?thesis by (simp add: flush_block_def hunks.same)
next
  case False
  obtain p e where pe: "common_byte_edges (slice a b s) (slice c d t) = (p, e)" by (meson surj_pair)
  from common_byte_edges_split [OF this] obtain g u v r where g: "slice a b s = g @ u @ r" "slice c d t = g @ v @ r" "length g = p" "length r = e"
    by (elim exE conjE) (rule that)
  have "b - a = length g + length u + length r" "d - c = length g + length v + length r"
    using arg_cong [OF g(1), of length] arg_cong [OF g(2), of length] assms by simp_all
  then have "b - e = a + length g + length u" "d - e = c + length g + length v" using g(4) assms by linarith+
  then have "flush_block s t a c b d = [\<lparr>bb_old_start = a + length g, bb_old_end = a + length g + length u,
      bb_new_start = c + length g, bb_new_end = c + length g + length v\<rparr>]"
    using False pe g(3) by (auto simp: flush_block_def)
  then show ?thesis
    unfolding g(1,2) by (simp only:) (rule hunks.block [OF hunks.same])
qed

lemma slice_token:
  assumes "slice pos e s = concat (drop i ts)" "i < length ts" "pos \<le> e" "e \<le> length s"
  shows "pos + length (ts ! i) \<le> e" "slice (pos + length (ts ! i)) e s = concat (drop (Suc i) ts)"
    "slice pos (pos + length (ts ! i)) s = ts ! i"
proof -
  have c: "slice pos e s = ts ! i @ concat (drop (Suc i) ts)"
    using assms(1,2) by (simp add: Cons_nth_drop_Suc [symmetric])
  have "e - pos = length (ts ! i) + length (concat (drop (Suc i) ts))"
    using arg_cong [OF c, of length] assms(3,4) by (simp only: length_slice length_append)
  then show le: "pos + length (ts ! i) \<le> e" using assms by linarith
  have "slice pos (pos + length (ts ! i)) s @ slice (pos + length (ts ! i)) e s =
      ts ! i @ concat (drop (Suc i) ts)"
    using c le by (simp add: slice_append_slice)
  moreover have "length (slice pos (pos + length (ts ! i)) s) = length (ts ! i)" using le assms by simp
  ultimately show "slice (pos + length (ts ! i)) e s = concat (drop (Suc i) ts)"
    "slice pos (pos + length (ts ! i)) s = ts ! i" by (metis append_eq_append_conv)+
qed

lemma block_walk_hunks:
  assumes "old_start \<le> old_pos" "old_pos \<le> e" "e \<le> length before"
    "new_start \<le> new_pos" "new_pos \<le> f" "f \<le> length after"
    "slice old_pos e before = concat (drop i olds)" "slice new_pos f after = concat (drop j news)"
  shows "hunks (slice old_start e before) (slice new_start f after) old_start new_start
     (block_walk lcs olds news before after i j old_start new_start old_pos new_pos)"
  using assms
proof (induction lcs olds news before after i j old_start new_start old_pos new_pos rule: block_walk.induct)
  case (1 lcs olds news before after i j old_start new_start old_pos new_pos)
  note p = "1.prems"
  let ?walk = "block_walk lcs olds news before after"
  let ?R = "?walk i j old_start new_start old_pos new_pos"
  let ?o = "old_pos + length (olds ! i)" and ?n = "new_pos + length (news ! j)"
  consider (common) "i < length olds" "j < length news" "olds ! i = news ! j"
    | (old) "\<not> (i < length olds \<and> j < length news \<and> olds ! i = news ! j)"
      "i < length olds \<and> (\<not> j < length news \<or> lcs ! (i + 1) ! j \<ge> lcs ! i ! (j + 1))"
    | (new) "\<not> (i < length olds \<and> j < length news \<and> olds ! i = news ! j)"
      "\<not> (i < length olds \<and> (\<not> j < length news \<or> lcs ! (i + 1) ! j \<ge> lcs ! i ! (j + 1)))" "j < length news"
    | (stop) "\<not> i < length olds" "\<not> j < length news"
    by blast
  then show ?case
  proof cases
    case common
    note o = slice_token [OF p(7) common(1) p(2,3)] and n = slice_token [OF p(8) common(2) p(5,6)]
    have R: "?R = flush_block before after old_start new_start old_pos new_pos @ ?walk (i + 1) (j + 1) ?o ?n ?o ?n"
      using common by (subst block_walk.simps) simp
    have "hunks (slice ?o e before) (slice ?n f after) ?o ?n (?walk (i + 1) (j + 1) ?o ?n ?o ?n)"
      using "1.IH"(1) common o n p by simp
    then have "hunks (olds ! i @ slice ?o e before) (news ! j @ slice ?n f after) old_pos new_pos
        (?walk (i + 1) (j + 1) ?o ?n ?o ?n)"
      unfolding common(3) by (rule hunks_prepend)
    moreover have "olds ! i @ slice ?o e before = slice old_pos e before"
      "news ! j @ slice ?n f after = slice new_pos f after"
      using o n by (metis le_add1 slice_append_slice)+
    ultimately have rest: "hunks (slice old_pos e before) (slice new_pos f after) old_pos new_pos
        (?walk (i + 1) (j + 1) ?o ?n ?o ?n)" by simp
    have "hunks (slice old_start old_pos before) (slice new_start new_pos after) old_start new_start
        (flush_block before after old_start new_start old_pos new_pos)"
      using p by (intro flush_block_hunks) simp_all
    from hunks_append [OF this, of "slice old_pos e before" "slice new_pos f after"] rest p
    have "hunks (slice old_start old_pos before @ slice old_pos e before)
        (slice new_start new_pos after @ slice new_pos f after) old_start new_start ?R"
      unfolding R by simp
    then show ?thesis unfolding slice_append_slice [OF p(1,2)] slice_append_slice [OF p(4,5)] .
  next
    case old
    then have i: "i < length olds" by simp
    note o = slice_token [OF p(7) i p(2,3)]
    have "?R = ?walk (i + 1) j old_start new_start ?o new_pos"
      using old by (subst block_walk.simps) auto
    then show ?thesis using "1.IH"(2) [OF old] o p by simp
  next
    case new
    note n = slice_token [OF p(8) new(3) p(5,6)]
    have "?R = ?walk i (j + 1) old_start new_start old_pos ?n"
      using new by (subst block_walk.simps) auto
    then show ?thesis using "1.IH"(3) [OF new] n p by simp
  next
    case stop
    then have "?R = flush_block before after old_start new_start old_pos new_pos"
      by (subst block_walk.simps) simp
    moreover have "old_pos = e" "new_pos = f"
      using p stop by (auto simp: slice_def)
    ultimately show ?thesis using flush_block_hunks p by simp
  qed
qed

lemma concat_line_tokens: "concat (line_tokens s) = s"
proof -
  have "concat (split_after LF s) = s" by (rule concat_split_after)
  moreover have "concat (split_after LF s) = concat (butlast (split_after LF s)) @ last (split_after LF s)"
    by (metis append_butlast_last_id concat.simps concat_append append_Nil2 split_after_not_Nil)
  ultimately show ?thesis by (auto simp: line_tokens_def Let_def)
qed

lemma changed_byte_blocks_hunks:
  assumes "changed_byte_blocks before after = Inr blocks"
  shows "hunks before after 0 0 blocks"
proof -
  obtain p s where ps: "common_byte_edges before after = (p, s)" by (meson surj_pair)
  from common_byte_edges_split [OF this] obtain g u v r where g: "before = g @ u @ r" "after = g @ v @ r" "length g = p" "length r = s"
    by (elim exE conjE) (rule that)
  let ?e = "length before - s" and ?f = "length after - s"
  have e: "?e = p + length u" "?f = p + length v" using g by simp_all
  have parts: "slice p ?e before = u" "slice p ?f after = v"
    using g unfolding e by (simp_all add: slice_def)
  have "hunks u v p p blocks"
  proof (cases "u = [] \<or> v = []")
    case True
    then have "blocks = [\<lparr>bb_old_start = p, bb_old_end = ?e, bb_new_start = p, bb_new_end = ?f\<rparr>]"
      using assms ps parts by (auto simp: changed_byte_blocks_def Let_def split: if_splits)
    then show ?thesis using hunks.block [OF hunks.same, where g = "[]" and x = "[]"] e by force
  next
    case False
    then have b: "blocks = block_walk (lcs_table (line_tokens u) (line_tokens v)) (line_tokens u) (line_tokens v)
        before after 0 0 p p p p"
      using assms ps parts by (auto simp: changed_byte_blocks_def Let_def split: if_splits)
    have "hunks (slice p ?e before) (slice p ?f after) p p blocks"
      unfolding b by (rule block_walk_hunks) (use e parts in \<open>simp_all add: concat_line_tokens\<close>)
    then show ?thesis by (simp add: parts)
  qed
  then have "hunks (u @ r) (v @ r) p p blocks"
    using hunks_append [OF _ hunks.same] by fastforce
  then show ?thesis using hunks_prepend [of "u @ r" "v @ r" 0 g 0] g by simp
qed

subsection \<open>Fragments and edits are scripts\<close>

definition in_edit :: "edit \<Rightarrow> attribution_patch \<Rightarrow> bool" where
  "in_edit e p \<longleftrightarrow> occurs_at (ed_old_text e) (ap_before p) (ap_start p) \<and> ap_before p \<noteq> ap_after p \<and>
     ap_item_ids p \<noteq> [] \<and> set (ap_item_ids p) \<subseteq> set (ed_item_ids e)"

definition patch_items :: "attribution_patch list \<Rightarrow> item_id set" where
  "patch_items ps = (\<Union>p \<in> set ps. set (ap_item_ids p))"

lemma patch_items_extend:
  assumes "find (same_key f) ps \<noteq> None"
  shows "patch_items (map (\<lambda>q. if same_key f q then q\<lparr>ap_item_ids := ap_item_ids q @ [i]\<rparr> else q) ps) =
     insert i (patch_items ps)"
proof -
  obtain p where "p \<in> set ps" "same_key f p" using assms by (auto simp: find_None_iff)
  then show ?thesis by (auto simp: patch_items_def split: if_splits)
qed

lemma group_fragments_Inr:
  assumes "group_fragments e fs ps = Inr qs" "\<And>p. p \<in> set ps \<Longrightarrow> in_edit e p"
  shows "(\<forall>q \<in> set qs. in_edit e q) \<and> patch_items qs = patch_items ps \<union> at_item_id ` set fs"
  using assms
proof (induction fs arbitrary: ps)
  case (Cons f fs)
  let ?new = "\<lambda>start. \<lparr>ap_start = start, ap_before = at_before_text f, ap_after = at_after_text f,
      ap_item_ids = [at_item_id f]\<rparr>"
  let ?ext = "map (\<lambda>q. if same_key f q then q\<lparr>ap_item_ids := ap_item_ids q @ [at_item_id f]\<rparr> else q) ps"
  from Cons.prems(1) obtain start where u: "unique_index (ed_old_text e) (at_before_text f) = Some start"
    and f: "at_item_id f \<in> set (ed_item_ids e)" "at_before_text f \<noteq> at_after_text f"
    by (auto split: if_splits option.splits)
  then have occ: "occurs_at (ed_old_text e) (at_before_text f) start"
    by (simp add: unique_index_Some occurs_once_at_def)
  show ?case
  proof (cases "find (same_key f) ps")
    case None
    then have "group_fragments e fs (ps @ [?new start]) = Inr qs"
      using Cons.prems(1) u by (simp split: if_splits)
    moreover have "in_edit e p" if "p \<in> set (ps @ [?new start])" for p
      using that Cons.prems(2) f occ by (auto simp: in_edit_def)
    ultimately have "(\<forall>q \<in> set qs. in_edit e q) \<and>
        patch_items qs = patch_items (ps @ [?new start]) \<union> at_item_id ` set fs"
      by (rule Cons.IH)
    then show ?thesis by (simp add: patch_items_def)
  next
    case (Some p)
    then have "group_fragments e fs ?ext = Inr qs"
      using Cons.prems(1) u by (simp split: if_splits)
    moreover have "in_edit e p" if "p \<in> set ?ext" for p
    proof -
      from that obtain x where x: "x \<in> set ps"
          "p = x \<or> p = x\<lparr>ap_item_ids := ap_item_ids x @ [at_item_id f]\<rparr>" by auto
      with Cons.prems(2) [OF x(1)] f show ?thesis by (auto simp: in_edit_def)
    qed
    ultimately have "(\<forall>q \<in> set qs. in_edit e q) \<and>
        patch_items qs = patch_items ?ext \<union> at_item_id ` set fs"
      by (rule Cons.IH)
    then show ?thesis using Some by (simp add: patch_items_extend)
  qed
qed simp

lemma verified_attribution_patches_Inr:
  assumes "verified_attribution_patches e = Inr ps"
  shows "\<forall>p \<in> set ps. in_edit e p" "patch_items ps = set (ed_item_ids e)"
    "patched (ed_old_text e) 0 (map patch_triple ps) = Some (ed_new_text e)"
proof -
  obtain grouped where g: "group_fragments e (edit_fragments e) [] = Inr grouped"
      "ps = sort_key ap_start grouped"
      "patched (ed_old_text e) 0 (map patch_triple ps) = Some (ed_new_text e)"
      "find (\<lambda>i. i \<notin> at_item_id ` set (edit_fragments e)) (ed_item_ids e) = None"
    using assms unfolding verified_attribution_patches_def Let_def
    by (auto split: if_splits sum.splits option.splits)
  from group_fragments_Inr [OF g(1)]
  have q: "\<forall>q \<in> set grouped. in_edit e q" "patch_items grouped = at_item_id ` set (edit_fragments e)"
    by (auto simp: patch_items_def)
  have "patch_items grouped \<subseteq> set (ed_item_ids e)" using q(1) by (auto simp: patch_items_def in_edit_def)
  moreover have "set (ed_item_ids e) \<subseteq> patch_items grouped" using g(4) q(2) by (auto simp: find_None_iff)
  moreover have "patch_items ps = patch_items grouped" by (simp add: patch_items_def g(2))
  ultimately show "patch_items ps = set (ed_item_ids e)" by simp
  show "\<forall>p \<in> set ps. in_edit e p" using q(1) g(2) by simp
  show "patched (ed_old_text e) 0 (map patch_triple ps) = Some (ed_new_text e)" by (rule g(3))
qed

lemma occurs_drop_split:
  assumes "occurs_at s old start" "prev \<le> start"
  shows "drop prev s = slice prev start s @ old @ drop (start + length old) s"
    "start + length old \<le> length s"
proof -
  show "start + length old \<le> length s" using occurs_at_length [OF assms(1)] .
  have "drop prev s = slice prev start s @ drop start s" using assms(2) by (simp add: slice_append_drop)
  moreover have "drop start s = old @ drop (start + length old) s"
    using occurs_at_slice [OF assms(1)] slice_append_drop [of start "start + length old" s] by simp
  ultimately show "drop prev s = slice prev start s @ old @ drop (start + length old) s" by simp
qed

lemma hunks_replace:
  assumes "occurs_at s old start" "prev \<le> start" "hunks old new (p + (start - prev)) (q + (start - prev)) hs"
    "hunks (drop (start + length old) s) t (p + (start - prev) + length old) (q + (start - prev) + length new) hs'"
  shows "hunks (drop prev s) (slice prev start s @ new @ t) p q (hs @ hs')"
proof -
  have l: "length (slice prev start s) = start - prev"
    using occurs_at_length [OF assms(1)] by simp
  show ?thesis
    unfolding occurs_drop_split(1) [OF assms(1,2)]
    by (rule hunks_prepend) (use assms(3,4) in \<open>simp add: l hunks_append\<close>)
qed

lemma patched_Cons:
  "patched s prev (patch_triple p # ps) =
     (if ap_start p < prev then None
      else map_option (\<lambda>t. slice prev (ap_start p) s @ ap_after p @ t)
        (patched s (ap_start p + length (ap_before p)) ps))"
  "patched s prev (edit_triple (start, e) # ps) =
     (if start < prev then None
      else map_option (\<lambda>t. slice prev start s @ ed_new_text e @ t)
        (patched s (start + length (ed_old_text e)) ps))"
  by (simp_all add: patch_triple_def edit_triple_def)

lemma shift_block_eq:
  assumes "int w = int d + offset"
  shows "shift_block d offset b = \<lparr>bb_old_start = bb_old_start b + d, bb_old_end = bb_old_end b + d,
     bb_new_start = bb_new_start b + w, bb_new_end = bb_new_end b + w\<rparr>"
proof -
  have "nat (int d + offset + int x) = x + w" for x using assms by linarith
  then show ?thesis by (simp add: shift_block_def)
qed

lemma patch_blocks_hunks:
  assumes "patched old prev (map patch_triple ps) = Some t" "patch_blocks e start offset ps = Inr bs"
    "\<And>p. p \<in> set ps \<Longrightarrow> occurs_at old (ap_before p) (ap_start p)" "int q = int (start + prev) + offset"
  shows "hunks (drop prev old) t (start + prev) q (map snd bs)"
  using assms
proof (induction ps arbitrary: prev t offset bs q)
  case Nil
  then show ?case by (simp add: hunks.same)
next
  case (Cons p ps)
  let ?d = "start + ap_start p" and ?k = "ap_start p - prev"
  from Cons.prems obtain t' blocks rest where
    t: "prev \<le> ap_start p" "t = slice prev (ap_start p) old @ ap_after p @ t'"
      "patched old (ap_start p + length (ap_before p)) (map patch_triple ps) = Some t'"
    and bs: "changed_byte_blocks (ap_before p) (ap_after p) = Inr blocks"
      "patch_blocks e start (offset + int (length (ap_after p)) - int (length (ap_before p))) ps = Inr rest"
      "bs = map (\<lambda>b. (ap_item_ids p, shift_block ?d offset b)) blocks @ rest"
    by (auto simp: patched_Cons split: if_splits sum.splits)
  have occ: "occurs_at old (ap_before p) (ap_start p)" using Cons.prems by simp
  have q: "int (q + ?k) = int ?d + offset" using Cons.prems(4) t(1) by linarith
  have d: "start + prev + ?k = ?d" using t(1) by simp
  have "hunks (ap_before p) (ap_after p) (0 + ?d) (0 + (q + ?k)) (map (shift_block ?d offset) blocks)"
    by (rule hunks_shift [OF changed_byte_blocks_hunks [OF bs(1)]]) (rule shift_block_eq [OF q])
  then have one: "hunks (ap_before p) (ap_after p) (start + prev + ?k) (q + ?k) (map (shift_block ?d offset) blocks)"
    unfolding d by simp
  have "hunks (drop (ap_start p + length (ap_before p)) old) t' (start + (ap_start p + length (ap_before p)))
      (q + ?k + length (ap_after p)) (map snd rest)"
    by (rule Cons.IH [OF t(3) bs(2)]) (use Cons.prems(3) q in simp_all)
  then have two: "hunks (drop (ap_start p + length (ap_before p)) old) t'
      (start + prev + ?k + length (ap_before p)) (q + ?k + length (ap_after p)) (map snd rest)"
    unfolding d by (simp add: add.assoc)
  have "map snd bs = map (shift_block ?d offset) blocks @ map snd rest"
    by (simp add: bs(3) comp_def)
  with hunks_replace [OF occ t(1) one two] t(2) show ?case by simp
qed

lemma edit_blocks_hunks:
  assumes "patched s prev (map edit_triple xs) = Some t" "edit_blocks xs offset = Inr bs"
    "\<And>x. x \<in> set xs \<Longrightarrow> occurs_at s (ed_old_text (snd x)) (fst x)" "int q = int prev + offset"
  shows "hunks (drop prev s) t prev q (map snd bs)"
  using assms
proof (induction xs arbitrary: prev t offset bs q)
  case Nil
  then show ?case by (simp add: hunks.same)
next
  case (Cons x xs)
  obtain start e where x: "x = (start, e)" by (meson surj_pair)
  let ?k = "start - prev"
  from Cons.prems obtain t' patches blocks later where
    t: "prev \<le> start" "t = slice prev start s @ ed_new_text e @ t'"
      "patched s (start + length (ed_old_text e)) (map edit_triple xs) = Some t'"
    and bs: "verified_attribution_patches e = Inr patches" "patch_blocks e start offset patches = Inr blocks"
      "edit_blocks xs (offset + int (length (ed_new_text e)) - int (length (ed_old_text e))) = Inr later"
      "bs = blocks @ later"
    by (auto simp: x patched_Cons split: if_splits sum.splits)
  have occ: "occurs_at s (ed_old_text e) start" using Cons.prems(3) x by force
  have q: "int (q + ?k) = int (start + 0) + offset" using Cons.prems(4) t(1) by linarith
  note v = verified_attribution_patches_Inr [OF bs(1)]
  have "hunks (drop 0 (ed_old_text e)) (ed_new_text e) (start + 0) (q + ?k) (map snd blocks)"
    by (rule patch_blocks_hunks [OF v(3) bs(2) _ q]) (use v(1) in \<open>auto simp: in_edit_def\<close>)
  then have one: "hunks (ed_old_text e) (ed_new_text e) (prev + ?k) (q + ?k) (map snd blocks)"
    using t(1) by simp
  have "hunks (drop (start + length (ed_old_text e)) s) t' (start + length (ed_old_text e))
      (q + ?k + length (ed_new_text e)) (map snd later)"
    by (rule Cons.IH [OF t(3) bs(3)]) (use Cons.prems(3) q in simp_all)
  then have two: "hunks (drop (start + length (ed_old_text e)) s) t' (prev + ?k + length (ed_old_text e))
      (q + ?k + length (ed_new_text e)) (map snd later)"
    using t(1) by simp
  from hunks_replace [OF occ t(1) one two] show ?case by (simp add: t(2) bs(4))
qed

lemma verified_edit_line_ranges_Inr:
  assumes "verified_edit_line_ranges before after edits = Inr ranges"
  obtains bs where "edit_blocks (sort_key fst (located before edits)) 0 = Inr bs"
    "ranges = map (\<lambda>(ids, b). range_of before after ids b) bs" "hunks before after 0 0 (map snd bs)"
    "patched before 0 (map edit_triple (sort_key fst (located before edits))) = Some after"
    "\<And>e. e \<in> set edits \<Longrightarrow> anchored before e"
proof -
  let ?xs = "sort_key fst (located before edits)"
  obtain bs where b: "edit_blocks ?xs 0 = Inr bs" "ranges = map (\<lambda>(ids, b). range_of before after ids b) bs"
      "patched before 0 (map edit_triple ?xs) = Some after"
      "\<not> list_ex (\<lambda>e. ed_old_text e = [] \<or> unique_index before (ed_old_text e) = None) edits"
    using assms unfolding verified_edit_line_ranges_def Let_def
    by (auto split: if_splits sum.splits option.splits)
  have anch: "anchored before e" if "e \<in> set edits" for e
    using b(4) that by (auto simp: anchored_iff list_ex_iff)
  have "occurs_at before (ed_old_text (snd x)) (fst x)" if "x \<in> set ?xs" for x
    using that anch anchored_occurs by (auto simp: set_located)
  from edit_blocks_hunks [OF b(3,1) this, of 0] have "hunks before after 0 0 (map snd bs)" by simp
  with that b anch show thesis by blast
qed

subsection \<open>The lines a block touches\<close>

text \<open>\<open>line_at s i\<close> is line \<open>i + 1\<close> of a text with its line feed, \<open>line_from s i\<close> where it starts.\<close>

definition line_at :: "string \<Rightarrow> nat \<Rightarrow> string" where
  "line_at s i = split_after LF s ! i"

definition line_count :: "string \<Rightarrow> nat" where
  "line_count s = length (split_after LF s)"

definition line_from :: "string \<Rightarrow> nat \<Rightarrow> nat" where
  "line_from s i = length (concat (take i (split_after LF s)))"

lemma line_slice:
  assumes "i < line_count s"
  shows "slice (line_from s i) (line_from s i + length (line_at s i)) s = line_at s i"
    "line_from s i + length (line_at s i) \<le> length s"
proof -
  let ?ts = "split_after LF s"
  have "?ts = take i ?ts @ line_at s i # drop (Suc i) ?ts"
    using assms by (simp add: line_at_def line_count_def id_take_nth_drop)
  then have s: "s = concat (take i ?ts) @ line_at s i @ concat (drop (Suc i) ?ts)"
    by (metis concat_append concat.simps(2) concat_split_after)
  show "line_from s i + length (line_at s i) \<le> length s"
    using arg_cong [OF s, of length] by (simp add: line_from_def)
  show "slice (line_from s i) (line_from s i + length (line_at s i)) s = line_at s i"
    by (subst s) (simp add: line_from_def slice_def)
qed

lemma count_before_line: "i < line_count s \<Longrightarrow> k < length (line_at s i) \<Longrightarrow>
   count_char LF (take (line_from s i + k) s) = i"
proof (induction s arbitrary: i k)
  case Nil
  then show ?case by (simp add: line_at_def line_count_def line_from_def)
next
  case (Cons c s)
  obtain l ls where l: "split_after LF s = l # ls" by (cases "split_after LF s") auto
  show ?case
  proof (cases "c = LF")
    case True
    then show ?thesis
    proof (cases i)
      case 0
      then show ?thesis using True Cons.prems by (simp add: line_at_def line_from_def)
    next
      case (Suc i')
      then have "count_char LF (take (line_from s i' + k) s) = i'"
        using True Cons.prems by (intro Cons.IH) (simp_all add: line_at_def line_count_def)
      then show ?thesis using True Suc by (simp add: line_from_def)
    qed
  next
    case False
    show ?thesis
    proof (cases i)
      case 0
      show ?thesis
      proof (cases k)
        case (Suc k')
        have "count_char LF (take (line_from s 0 + k') s) = 0"
          using False Cons.prems 0 l Suc by (intro Cons.IH) (simp_all add: line_at_def line_count_def)
        then show ?thesis using False 0 Suc by (simp add: line_from_def)
      qed (use 0 in \<open>simp add: line_from_def\<close>)
    next
      case (Suc i')
      have "count_char LF (take (line_from s i + k) s) = i"
        using False Cons.prems Suc l by (intro Cons.IH) (simp_all add: line_at_def line_count_def)
      moreover have "line_from (c # s) i = Suc (line_from s i)"
        using False Suc l by (simp add: line_from_def)
      ultimately show ?thesis using False by simp
    qed
  qed
qed

lemma count_take_mono: "m \<le> n \<Longrightarrow> count_char c (take m s) \<le> count_char c (take n s)"
proof -
  assume "m \<le> n"
  then have "take n s = take m s @ slice m n s" by (simp add: take_append_slice)
  then show ?thesis by simp
qed

text \<open>A changed region that overlaps a line, or is empty strictly inside it, is reported on it.\<close>

lemma changed_line_range_covers:
  assumes i: "i < line_count s" "line_at s i \<noteq> []" and r: "changed_line_range s start finish opp = (b1, b2)"
    and le: "start \<le> finish" "finish \<le> length s"
    and meets: "line_from s i < finish" "start < line_from s i + length (line_at s i)"
  shows "b1 \<le> i + 1 \<and> i + 1 \<le> b2"
proof -
  let ?a = "line_from s i" and ?b = "line_from s i + length (line_at s i)"
  have last_byte: "?a \<le> ?b - 1" "?b - 1 < ?b" using i(2) by (cases "line_at s i"; simp)+
  have at_line: "count_char LF (take k s) = i" if "?a \<le> k" "k < ?b" for k
    using count_before_line [OF i(1), of "k - ?a"] that by simp
  have lo: "count_char LF (take start s) \<le> i"
  proof -
    have "count_char LF (take start s) \<le> count_char LF (take (?b - 1) s)"
      using meets(2) by (intro count_take_mono) simp
    also have "\<dots> = i" by (rule at_line [OF last_byte])
    finally show ?thesis .
  qed
  show ?thesis
  proof (cases "start = finish")
    case True
    then have inside: "?a < start" "start < ?b" using meets by simp_all
    have "take start s = take (start - 1) s @ [s ! (start - 1)]"
      using inside le True by (metis Suc_diff_1 Suc_le_lessD gr_implies_not0 not_gr_zero take_Suc_conv_app_nth)
    moreover have "count_char LF (take start s) = i" "count_char LF (take (start - 1) s) = i"
      using inside by (auto intro: at_line)
    ultimately have "s ! (start - 1) \<noteq> LF" by auto
    then show ?thesis
      using r True inside \<open>count_char LF (take start s) = i\<close> by (auto simp: changed_line_range_def)
  next
    case False
    have "i \<le> count_char LF (take (finish - 1) s)"
    proof (cases "finish - 1 < ?b")
      case True
      then show ?thesis using at_line [of "finish - 1"] meets by simp
    next
      case f: False
      have "i = count_char LF (take (?b - 1) s)"
        by (rule at_line [OF last_byte, symmetric])
      also have "\<dots> \<le> count_char LF (take (finish - 1) s)" using f by (intro count_take_mono) simp
      finally show ?thesis .
    qed
    then show ?thesis using r False lo by (auto simp: changed_line_range_def)
  qed
qed

lemma unreported_line_kept:
  assumes h: "hunks before after 0 0 hs" and i: "i < line_count before"
    and free: "\<And>b b1 b2. b \<in> set hs \<Longrightarrow>
      changed_line_range before (bb_old_start b) (bb_old_end b) (slice (bb_new_start b) (bb_new_end b) after) = (b1, b2) \<Longrightarrow>
      \<not> (b1 \<le> i + 1 \<and> i + 1 \<le> b2)"
  shows "\<exists>l r. after = l @ line_at before i @ r"
proof (cases "line_at before i = []")
  case False
  let ?a = "line_from before i" and ?b = "line_from before i + length (line_at before i)"
  have "bb_old_end b \<le> ?a \<or> ?b \<le> bb_old_start b" if "b \<in> set hs" for b
  proof (rule ccontr)
    assume "\<not> ?thesis"
    moreover obtain b1 b2 where "changed_line_range before (bb_old_start b) (bb_old_end b)
        (slice (bb_new_start b) (bb_new_end b) after) = (b1, b2)" by (meson surj_pair)
    ultimately show False
      using changed_line_range_covers [OF i False] free [OF that] hunks_spans [OF h that] by fastforce
  qed
  from hunks_keep [OF h _ _ _ this] show ?thesis using line_slice [OF i] by simp
qed (rule exI [of _ after], rule exI [of _ "[]"], simp)

lemma unreported_before_line:
  assumes "verified_edit_line_ranges before after edits = Inr ranges" "i < line_count before"
    and free: "\<forall>r \<in> set ranges.
      \<not> (lr_before_start (er_range r) \<le> int i + 1 \<and> int i + 1 \<le> lr_before_end (er_range r))"
  shows "\<exists>a b. after = a @ line_at before i @ b"
proof -
  obtain bs where bs: "ranges = map (\<lambda>(ids, b). range_of before after ids b) bs"
      and h: "hunks before after 0 0 (map snd bs)"
    using verified_edit_line_ranges_Inr [OF assms(1)] .
  have r: "range_of before after (fst x) (snd x) \<in> set ranges" if "x \<in> set bs" for x
    using that bs by force
  show ?thesis
  proof (rule unreported_line_kept [OF h assms(2)])
    fix b b1 b2
    assume "b \<in> set (map snd bs)" and c: "changed_line_range before (bb_old_start b) (bb_old_end b)
        (slice (bb_new_start b) (bb_new_end b) after) = (b1, b2)"
    then obtain x where x: "x \<in> set bs" "b = snd x" by auto
    from bspec [OF free r [OF x(1)]] show "\<not> (b1 \<le> i + 1 \<and> i + 1 \<le> b2)"
      using c x(2) by (auto simp: range_of_def split: prod.splits)
  qed
qed

lemma unreported_range_zero:
  assumes "verified_edit_line_ranges before after edits = Inr ranges" "r \<in> set ranges"
    "lr_before_start (er_range r) \<le> 0"
  shows "lr_before_end (er_range r) = 0"
proof -
  obtain bs where "ranges = map (\<lambda>(ids, b). range_of before after ids b) bs"
    using verified_edit_line_ranges_Inr [OF assms(1)] .
  then obtain x where "r = range_of before after (fst x) (snd x)" using assms(2) by auto
  then show ?thesis using assms(3)
    by (auto simp: range_of_def changed_line_range_def Let_def split: prod.splits if_splits)
qed

subsection \<open>The table is the longest common subsequence\<close>

definition longest_common :: "'a list \<Rightarrow> 'a list \<Rightarrow> nat \<Rightarrow> bool" where
  "longest_common xs ys n \<longleftrightarrow> (\<exists>zs. subseq zs xs \<and> subseq zs ys \<and> length zs = n) \<and>
     (\<forall>zs. subseq zs xs \<and> subseq zs ys \<longrightarrow> length zs \<le> n)"

fun lcs_len :: "'a list \<Rightarrow> 'a list \<Rightarrow> nat" where
  "lcs_len [] ys = 0"
| "lcs_len xs [] = 0"
| "lcs_len (x # xs) (y # ys) =
     (if x = y then Suc (lcs_len xs ys) else max (lcs_len xs (y # ys)) (lcs_len (x # xs) ys))"

lemma lcs_len_Nil [simp]: "lcs_len xs [] = 0"
  by (cases xs) auto

lemma longest_common_lcs_len: "longest_common xs ys (lcs_len xs ys)"
proof (induction xs ys rule: lcs_len.induct)
  case (3 x xs y ys)
  show ?case
  proof (cases "x = y")
    case True
    then have IH: "longest_common xs ys (lcs_len xs ys)" using 3 by simp
    then obtain zs where zs: "subseq zs xs" "subseq zs ys" "length zs = lcs_len xs ys"
      by (auto simp: longest_common_def)
    then have "subseq (x # zs) (x # xs)" "subseq (x # zs) (x # ys)" by simp_all
    moreover have "length ws \<le> Suc (lcs_len xs ys)" if "subseq ws (x # xs)" "subseq ws (x # ys)" for ws
    proof (cases ws)
      case (Cons w ws')
      then have "subseq ws' xs" "subseq ws' ys" using that by (auto split: if_splits dest: subseq_Cons')
      then show ?thesis using IH Cons by (auto simp: longest_common_def)
    qed simp
    ultimately show ?thesis using True zs(3) by (auto simp: longest_common_def intro!: exI [of _ "x # zs"])
  next
    case False
    then have IH: "longest_common xs (y # ys) (lcs_len xs (y # ys))"
        "longest_common (x # xs) ys (lcs_len (x # xs) ys)" using 3 by simp_all
    have "\<exists>zs. subseq zs (x # xs) \<and> subseq zs (y # ys) \<and>
        length zs = max (lcs_len xs (y # ys)) (lcs_len (x # xs) ys)"
      using IH by (auto simp: longest_common_def max_def intro: list_emb_Cons)
    moreover have "length ws \<le> max (lcs_len xs (y # ys)) (lcs_len (x # xs) ys)"
      if "subseq ws (x # xs)" "subseq ws (y # ys)" for ws
    proof (cases "ws \<noteq> [] \<and> hd ws = x")
      case True
      then have "subseq ws ys" using that(2) False by (cases ws) auto
      then show ?thesis using IH(2) that(1) by (auto simp: longest_common_def max.coboundedI2)
    next
      case n: False
      then have "subseq ws xs" using that(1) by (cases ws) auto
      then show ?thesis using IH(1) that(2) by (auto simp: longest_common_def max.coboundedI1)
    qed
    ultimately show ?thesis using False by (simp add: longest_common_def)
  qed
qed (auto simp: longest_common_def)

fun tails :: "'a list \<Rightarrow> 'a list list" where
  "tails [] = [[]]"
| "tails (y # ys) = (y # ys) # tails ys"

lemma tails_nth: "j \<le> length ys \<Longrightarrow> tails ys ! j = drop j ys"
  by (induction ys arbitrary: j) (auto simp: nth_Cons' drop_Cons')

lemma length_tails [simp]: "length (tails ys) = Suc (length ys)"
  by (induction ys) auto

lemma hd_map_tails [simp]: "hd (map f (tails ys)) = f ys"
  by (cases ys) auto

lemma lcs_row_tails: "lcs_row x ys (map (lcs_len xs) (tails ys)) = map (lcs_len (x # xs)) (tails ys)"
  by (induction ys) (auto simp: Let_def)

lemma lcs_table_tails: "lcs_table xs ys = map (\<lambda>zs. map (lcs_len zs) (tails ys)) (tails xs)"
proof (induction xs)
  case Nil
  have "map (lcs_len []) (tails ys) = replicate (Suc (length ys)) 0"
    by (induction ys) auto
  then show ?case by simp
qed (simp add: Let_def lcs_row_tails)

lemma lcs_table_nth:
  "i \<le> length xs \<Longrightarrow> j \<le> length ys \<Longrightarrow> lcs_table xs ys ! i ! j = lcs_len (drop i xs) (drop j ys)"
  by (simp add: lcs_table_tails tails_nth)

subsection \<open>The re-check of the edits\<close>

lemma patched_spans:
  assumes "patched s prev (map edit_triple xs) = Some t" "prev \<le> length s"
    "\<And>x. x \<in> set xs \<Longrightarrow> occurs_at s (ed_old_text (snd x)) (fst x)"
  shows "spans_from s prev xs \<and> t = assemble s prev xs"
  using assms
proof (induction xs arbitrary: prev t)
  case (Cons x xs)
  obtain start e where x: "x = (start, e)" by (meson surj_pair)
  with Cons.prems obtain t' where t: "prev \<le> start" "t = slice prev start s @ ed_new_text e @ t'"
      "patched s (start + length (ed_old_text e)) (map edit_triple xs) = Some t'"
    by (auto simp: patched_Cons split: if_splits)
  have occ: "occurs_at s (ed_old_text e) start" using Cons.prems(3) x by force
  from Cons.IH [OF t(3) occurs_at_length [OF occ]] Cons.prems(3) t(1,2) occ x show ?case by simp
qed simp

lemma spans_from_apart:
  assumes "spans_from s prev xs" "\<And>x. x \<in> set xs \<Longrightarrow> fst x = start_of s (snd x)"
  shows "sorted_wrt (\<lambda>x y. apart s (snd x) (snd y)) xs"
  using assms
proof (induction xs arbitrary: prev)
  case (Cons x xs)
  obtain start e where x: "x = (start, e)" by (meson surj_pair)
  then have sp: "spans_from s (start + length (ed_old_text e)) xs" using Cons.prems(1) by simp
  have "start + length (ed_old_text e) \<le> fst y" if "y \<in> set xs" for y
    using spans_from_ge [OF sp that] .
  moreover have "start = start_of s e" using Cons.prems(2) x by force
  moreover have "fst y = start_of s (snd y)" if "y \<in> set xs" for y
    using that Cons.prems(2) by simp
  ultimately have "apart s e (snd y)" if "y \<in> set xs" for y
    using that unfolding apart_def by metis
  then show ?case using Cons.IH [OF sp] Cons.prems(2) x by simp
qed simp

lemma verified_ranges_exact:
  assumes "verified_edit_line_ranges before after edits = Inr ranges"
  shows "exact_edits before edits" "after = replaced_text before edits"
proof -
  let ?xs = "sort_key fst (located before edits)"
  from verified_edit_line_ranges_Inr [OF assms]
  have pt: "patched before 0 (map edit_triple ?xs) = Some after"
    and anch: "\<And>e. e \<in> set edits \<Longrightarrow> anchored before e" by blast+
  have occ: "occurs_at before (ed_old_text (snd x)) (fst x)" if "x \<in> set ?xs" for x
    using that anch anchored_occurs by (auto simp: set_located)
  from patched_spans [OF pt _ occ] have sp: "spans_from before 0 ?xs" "after = assemble before 0 ?xs" by simp_all
  show "after = replaced_text before edits" using sp(2) by (simp add: replaced_text_def)
  have "sorted_wrt (\<lambda>x y. apart before (snd x) (snd y)) ?xs"
    by (rule spans_from_apart [OF sp(1)]) (simp add: set_located)
  then have "sorted_wrt (apart before) (sort_key (start_of before) edits)"
    by (simp add: located_sorted sorted_wrt_located)
  then have "sorted_wrt (apart before) edits"
    by (rule sorted_wrt_apart_mset [rotated 2]) (use anch in auto)
  then show "exact_edits before edits" using anch by (simp add: exact_edits_def)
qed

lemma patch_blocks_items:
  assumes "patch_blocks e start offset ps = Inr bs" "\<And>p. p \<in> set ps \<Longrightarrow> ap_before p \<noteq> ap_after p"
  shows "fst ` set bs = ap_item_ids ` set ps"
  using assms
proof (induction ps arbitrary: offset bs)
  case (Cons p ps)
  then obtain blocks rest where b: "changed_byte_blocks (ap_before p) (ap_after p) = Inr blocks"
      "patch_blocks e start (offset + int (length (ap_after p)) - int (length (ap_before p))) ps = Inr rest"
      "bs = map (\<lambda>b. (ap_item_ids p, shift_block (start + ap_start p) offset b)) blocks @ rest"
    by (auto split: if_splits sum.splits)
  have "ap_before p \<noteq> ap_after p" using Cons.prems(2) by simp
  then have "blocks \<noteq> []" using hunks_Nil [of "ap_before p" "ap_after p" 0 0] changed_byte_blocks_hunks [OF b(1)] by metis
  then have one: "fst ` set (map (\<lambda>b. (ap_item_ids p, shift_block (start + ap_start p) offset b)) blocks) =
      {ap_item_ids p}"
    by (cases blocks) (auto simp: image_image)
  have "fst ` set rest = ap_item_ids ` set ps"
    by (rule Cons.IH [OF b(2)]) (use Cons.prems(2) in simp)
  then show ?case unfolding b(3) set_append image_Un one by simp
qed simp

lemma edit_blocks_items:
  assumes "edit_blocks xs offset = Inr bs"
  shows "(\<Union>b \<in> set bs. set (fst b)) = (\<Union>x \<in> set xs. set (ed_item_ids (snd x)))"
    "\<And>b. b \<in> set bs \<Longrightarrow> fst b \<noteq> [] \<and> (\<exists>x \<in> set xs. set (fst b) \<subseteq> set (ed_item_ids (snd x)))"
proof -
  have "(\<Union>b \<in> set bs. set (fst b)) = (\<Union>x \<in> set xs. set (ed_item_ids (snd x))) \<and>
    (\<forall>b \<in> set bs. fst b \<noteq> [] \<and> (\<exists>x \<in> set xs. set (fst b) \<subseteq> set (ed_item_ids (snd x))))"
    using assms
  proof (induction xs arbitrary: offset bs)
    case (Cons x xs)
    obtain start e where x: "x = (start, e)" by (meson surj_pair)
    with Cons.prems obtain ps blocks later where b: "verified_attribution_patches e = Inr ps"
        "patch_blocks e start offset ps = Inr blocks"
        "edit_blocks xs (offset + int (length (ed_new_text e)) - int (length (ed_old_text e))) = Inr later"
        "bs = blocks @ later"
      by (auto split: sum.splits)
    note v = verified_attribution_patches_Inr [OF b(1)]
    have i: "fst ` set blocks = ap_item_ids ` set ps"
      by (rule patch_blocks_items [OF b(2)]) (use v(1) in \<open>simp add: in_edit_def\<close>)
    have "(\<Union>b \<in> set blocks. set (fst b)) = \<Union> (set ` fst ` set blocks)" by auto
    also have "\<dots> = set (ed_item_ids e)" unfolding i v(2) [symmetric] patch_items_def by auto
    finally have one: "(\<Union>b \<in> set blocks. set (fst b)) = set (ed_item_ids e)" .
    have "fst b \<noteq> [] \<and> set (fst b) \<subseteq> set (ed_item_ids e)" if "b \<in> set blocks" for b
    proof -
      have "fst b \<in> ap_item_ids ` set ps" using that i by blast
      then obtain p where "p \<in> set ps" "fst b = ap_item_ids p" by blast
      with bspec [OF v(1) this(1)] show ?thesis by (simp add: in_edit_def)
    qed
    with Cons.IH [OF b(3)] one show ?case by (auto simp: b(4) x)
  qed simp
  then show "(\<Union>b \<in> set bs. set (fst b)) = (\<Union>x \<in> set xs. set (ed_item_ids (snd x)))"
    "\<And>b. b \<in> set bs \<Longrightarrow> fst b \<noteq> [] \<and> (\<exists>x \<in> set xs. set (fst b) \<subseteq> set (ed_item_ids (snd x)))" by blast+
qed

subsection \<open>Properties\<close>

text \<open>
  The table that separates changed lines from common ones holds, at row \<open>i\<close> and column \<open>j\<close>,
  the length of a longest common subsequence of the remaining old and new lines, for lists of
  lines of any length.
\<close>

theorem lcs_table_longest:
  "i \<le> length olds \<Longrightarrow> j \<le> length news \<Longrightarrow>
     longest_common (drop i olds) (drop j news) (lcs_table olds news ! i ! j)"
  by (simp add: lcs_table_nth longest_common_lcs_len)

lemma lcs_table_longest_witness:
  "longest_common [''a'', ''b'', ''c''] [''b'', ''x'', ''c''] (2 :: nat)"
proof -
  have "lcs_table [''a'', ''b'', ''c''] [''b'', ''x'', ''c''] ! 0 ! 0 = 2" by code_simp
  then show ?thesis
    using lcs_table_longest [of 0 "[''a'', ''b'', ''c'']" 0 "[''b'', ''x'', ''c'']"]
    by (simp only: drop_0 le0)
qed


definition sample_ranges :: "edit_line_range list" where
  "sample_ranges =
     [\<lparr>er_item_ids = [''item-1''], er_range = \<lparr>lr_before_start = 2, lr_before_end = 2,
        lr_after_start = 2, lr_after_end = 3\<rparr>\<rparr>]"

definition three_lines :: string where
  "three_lines = ''a'' @ [LF] @ ''b'' @ [LF] @ ''c''"

lemma sample_ranges_verified:
  "verified_edit_line_ranges three_lines (''a'' @ [LF] @ ''x'' @ [LF] @ ''y'' @ [LF] @ ''c'')
     [sample_edit (''b'') (''x'' @ [LF] @ ''y'')] = Inr sample_ranges"
  by code_simp


text \<open>
  C25. The attribution is of these edits and of nothing else. When it succeeds, the edits are exact
  edits of the original and the candidate is what they produce; the items of the reported ranges
  are exactly the items of the edits, no range is without an item, and no range mixes items that
  no single edit lists.
\<close>

theorem attribution_accounts_for_items:
  assumes "verified_edit_line_ranges before after edits = Inr ranges"
  shows "exact_edits before edits \<and> replaces before edits after \<and>
    (\<Union>r \<in> set ranges. set (er_item_ids r)) = (\<Union>e \<in> set edits. set (ed_item_ids e)) \<and>
    (\<forall>r \<in> set ranges. er_item_ids r \<noteq> [] \<and> (\<exists>e \<in> set edits. set (er_item_ids r) \<subseteq> set (ed_item_ids e)))"
proof -
  note ex = verified_ranges_exact [OF assms]
  obtain bs where bs: "edit_blocks (sort_key fst (located before edits)) 0 = Inr bs"
      "ranges = map (\<lambda>(ids, b). range_of before after ids b) bs"
    using verified_edit_line_ranges_Inr [OF assms] .
  have ids: "er_item_ids (range_of before after i b) = i" for i b
    by (simp add: range_of_def split: prod.splits)
  have items_of: "(\<Union>x \<in> set (sort_key fst (located before edits)). set (ed_item_ids (snd x))) =
      (\<Union>e \<in> set edits. set (ed_item_ids e))"
    by (force simp: located_def)
  have same_ids: "er_item_ids ` set ranges = fst ` set bs"
    unfolding bs(2) set_map image_image by (simp add: case_prod_beta ids)
  note items = edit_blocks_items [OF bs(1)]
  have "(\<Union>r \<in> set ranges. set (er_item_ids r)) = \<Union> (set ` fst ` set bs)"
    unfolding same_ids [symmetric] by blast
  also have "\<dots> = (\<Union>e \<in> set edits. set (ed_item_ids e))"
    using items(1) items_of by (simp add: image_image)
  finally have "(\<Union>r \<in> set ranges. set (er_item_ids r)) = (\<Union>e \<in> set edits. set (ed_item_ids e))" .
  moreover have "er_item_ids r \<noteq> [] \<and> (\<exists>e \<in> set edits. set (er_item_ids r) \<subseteq> set (ed_item_ids e))"
    if "r \<in> set ranges" for r
  proof -
    from that obtain b where b: "b \<in> set bs" "er_item_ids r = fst b"
      using same_ids by blast
    with items(2) obtain x where "x \<in> set (sort_key fst (located before edits))"
        "set (fst b) \<subseteq> set (ed_item_ids (snd x))" by blast
    then show ?thesis using b items(2) by (auto simp: set_located)
  qed
  ultimately show ?thesis using ex exact_edits_replaces [OF ex(1)] by blast
qed

lemma attribution_accounts_for_items_witness:
  "replaces three_lines [sample_edit (''b'') (''x'' @ [LF] @ ''y'')] (''a'' @ [LF] @ ''x'' @ [LF] @ ''y'' @ [LF] @ ''c'')"
  using attribution_accounts_for_items [OF sample_ranges_verified] by simp

end
