(* ===== verification/ReviewParse.thy ===== *)
theory ReviewParse
  imports RepairTools
begin

section \<open>Accepting a reviewer's answer\<close>

text \<open>
  \<open>validateReviewInput\<close> and \<open>parseIndependentReview\<close> of \<open>internal/agent/review.go\<close>, with
  \<open>validateSourceDiagnostics\<close> and \<open>safeRelativePath\<close>: what a review is given and what an answer of the
  reviewer must contain. The answer is the decoded JSON object, \<^term>\<open>None\<close> when it does not decode or
  lacks a field; the verdict of a rule is kept in a map, as in the code.
\<close>

record review_input =
  vi_file :: string
  vi_before :: string
  vi_after :: string
  vi_base_hash :: string
  vi_candidate_hash :: string
  vi_rules :: "review_rule list"
  vi_holds :: "review_hold list"
  vi_diagnostics :: "source_diagnostic list"
  vi_usage :: usage
  vi_turn_baseline :: int
  vi_prior :: "independent_review option"

subsection \<open>Paths and diagnostics\<close>

text \<open>
  \<open>strings.ToLower\<close> as far as a comparison with an ASCII word can see it: the ASCII letters, and the
  two non-ASCII letters whose lower case is an ASCII letter (the Kelvin sign and the dotted
  capital I). All other runes map to non-ASCII runes or to themselves.
\<close>

fun lower_ascii :: "string \<Rightarrow> string" where
  "lower_ascii (a # b # c # s) =
     (if [a, b, c] = [CHR 0xE2, CHR 0x84, CHR 0xAA] then CHR ''k'' # lower_ascii s
      else if [a, b] = [CHR 0xC4, CHR 0xB0] then CHR ''i'' # lower_ascii (c # s)
      else (if byte_in a 65 90 then char_of (of_char a + 32 :: nat) else a) # lower_ascii (b # c # s))"
| "lower_ascii [a, b] =
     (if [a, b] = [CHR 0xC4, CHR 0xB0] then ''i''
      else [if byte_in a 65 90 then char_of (of_char a + 32 :: nat) else a,
            if byte_in b 65 90 then char_of (of_char b + 32 :: nat) else b])"
| "lower_ascii [a] = [if byte_in a 65 90 then char_of (of_char a + 32 :: nat) else a]"
| "lower_ascii [] = []"

definition forbidden_path_chars :: string where
  "forbidden_path_chars = [CHR 0x5C, CHR '':'', CHR ''*'', CHR ''?'', CHR 0x22, CHR ''<'', CHR ''>'', CHR ''|'',
     NUL, CR, LF]"

definition device_name :: "string \<Rightarrow> bool" where
  "device_name base \<longleftrightarrow> base \<in> {''con'', ''prn'', ''aux'', ''nul''} \<or>
     length base = 4 \<and> (prefix ''com'' base \<or> prefix ''lpt'' base) \<and> byte_in (base ! 3) 49 57"

definition private_names :: "string list" where
  "private_names = [''.git'', ''.codex'', ''.agents'', ''.claude'', ''.ssh'', ''.aws'', ''.azure'',
     ''agents.md'', ''claude.md'', ''gemini.md'', ''skill.md'', ''.env'', ''.npmrc'', ''.pypirc'', ''.netrc'']"

definition private_name :: "string \<Rightarrow> bool" where
  "private_name lower \<longleftrightarrow> lower \<in> set private_names \<or> prefix ''.env.'' lower \<or>
     list_ex (\<lambda>ext. suffix ext lower) [''.pem'', ''.key'', ''.p12'', ''.pfx'']"

datatype path_error =
    PathForm | PathSegment | PathAmbiguous | PathSettings | PathDevice | PathPrivate

fun check_segments :: "string list \<Rightarrow> path_error option" where
  "check_segments [] = None"
| "check_segments (seg # segs) =
     (let lower = lower_ascii seg in
      if seg = [] \<or> seg = ''.'' \<or> seg = ''..'' then Some PathSegment
      else if last seg = CHR ''.'' \<or> last seg = CHR '' '' then Some PathAmbiguous
      else if lower = ''onebyone'' \<and> segs \<noteq> [] then Some PathSettings
      else if device_name (hd (split_on (CHR ''.'') lower)) then Some PathDevice
      else if private_name lower then Some PathPrivate
      else check_segments segs)"

definition safe_relative_path :: "string \<Rightarrow> path_error option" where
  "safe_relative_path s =
     (if s = [] \<or> length s > 4096 \<or> list_ex (\<lambda>c. c \<in> set forbidden_path_chars) s \<or> hd s = CHR ''/''
      then Some PathForm
      else check_segments (split_on (CHR ''/'') s))"

definition valid_source_diagnostics :: "string \<Rightarrow> source_diagnostic list \<Rightarrow> bool" where
  "valid_source_diagnostics file items \<longleftrightarrow> list_all (\<lambda>d. \<not> (sd_file d \<noteq> file \<or> sd_line d < 0 \<or>
     blank (sd_message d) \<or> \<not> valid_utf8 (sd_message d) \<or> \<not> valid_utf8 (sd_code d))) items"

subsection \<open>The input of a review\<close>

datatype review_input_error =
    RinPrior | RinTurns | RinPath path_error | RinDiagnostics | RinUtf8 | RinHash | RinNoRules
  | RinRuleId | RinRuleText | RinHolds review_error | RinCounters

definition sha256_hex :: "string \<Rightarrow> bool" where
  "sha256_hex s \<longleftrightarrow> length s = 64 \<and> list_all (\<lambda>c. byte_in c 48 57 \<or> byte_in c 97 102) s"

fun check_review_rules :: "rule_id set \<Rightarrow> review_rule list \<Rightarrow> review_input_error option" where
  "check_review_rules seen [] = None"
| "check_review_rules seen (r # rs) =
     (if \<not> valid_rule_id (rr_id r) \<or> rr_id r \<in> seen then Some RinRuleId
      else if \<not> valid_utf8 (rr_title r) \<or> \<not> valid_utf8 (rr_body r) \<or> blank (rr_body r) then Some RinRuleText
      else check_review_rules (insert (rr_id r) seen) rs)"

text \<open>\<open>validateRepairCounters\<close> on a state that has only this usage; a rational cost is always finite.\<close>

definition valid_usage_counters :: "usage \<Rightarrow> bool" where
  "valid_usage_counters u \<longleftrightarrow>
     \<not> (us_turns u < 0 \<or> us_input_tokens u < 0 \<or> us_output_tokens u < 0 \<or> us_cached_tokens u < 0 \<or>
        us_cached_tokens u > us_input_tokens u \<or> us_cost_usd u < 0)"

definition validate_review_input :: "review_input \<Rightarrow> review_input_error option" where
  "validate_review_input inp =
     (if (case vi_prior inp of None \<Rightarrow> False
          | Some r \<Rightarrow> rv_base_hash r \<noteq> vi_base_hash inp \<or> rv_candidate_hash r \<noteq> vi_candidate_hash inp)
      then Some RinPrior
      else if vi_turn_baseline inp < 0 \<or> vi_turn_baseline inp > us_turns (vi_usage inp) then Some RinTurns
      else (case safe_relative_path (vi_file inp) of
        Some e \<Rightarrow> Some (RinPath e)
      | None \<Rightarrow>
          if \<not> valid_source_diagnostics (vi_file inp) (vi_diagnostics inp) then Some RinDiagnostics
          else if \<not> valid_utf8 (vi_before inp) \<or> \<not> valid_utf8 (vi_after inp) then Some RinUtf8
          else if \<not> sha256_hex (vi_base_hash inp) \<or> \<not> sha256_hex (vi_candidate_hash inp) then Some RinHash
          else if vi_rules inp = [] then Some RinNoRules
          else (case check_review_rules {} (vi_rules inp) of
            Some e \<Rightarrow> Some e
          | None \<Rightarrow>
              (case validate_review_holds (vi_holds inp) (vi_before inp) (rr_id ` set (vi_rules inp)) of
                 Some e \<Rightarrow> Some (RinHolds e)
               | None \<Rightarrow> if \<not> valid_usage_counters (vi_usage inp) then Some RinCounters else None))))"

subsection \<open>Parsing the answer\<close>

datatype parse_error =
    ParMalformed | ParHashes | ParCounts | ParHolds review_error | ParAssessment | ParStatus
  | ParIssueRule | ParIssueField | ParIssueKind | ParIssueBasis | ParIssueLocation location_error
  | ParMissingIssue | ParPassed | ParPartial review_error | ParNoRepairable | ParVerdict

fun assess_rules ::
  "rule_id set \<Rightarrow> (rule_id \<rightharpoonup> assessment_status) \<Rightarrow> review_assessment list \<Rightarrow>
     (parse_error, rule_id \<rightharpoonup> assessment_status) outcome" where
  "assess_rules known assessed [] = Inr assessed"
| "assess_rules known assessed (a # as) =
     (if ra_rule_id a \<notin> known \<or> assessed (ra_rule_id a) \<noteq> None \<or> blank (ra_reason a) then Inl ParAssessment
      else (case ra_status a of
              A_other _ \<Rightarrow> Inl ParStatus
            | _ \<Rightarrow> assess_rules known (assessed(ra_rule_id a \<mapsto> ra_status a)) as))"

definition issue_kind_of :: "(rule_id \<rightharpoonup> assessment_status) \<Rightarrow> review_issue \<Rightarrow> issue_kind" where
  "issue_kind_of assessed i =
     (if ri_kind i = K_unset
      then (if assessed (ri_rule_id i) = Some A_needs_human then K_needs_human else K_needs_changes)
      else ri_kind i)"

definition issue_fields_ok :: "review_issue \<Rightarrow> bool" where
  "issue_fields_ok i \<longleftrightarrow>
     list_all (\<lambda>f. \<not> blank f) [ri_location i, ri_excerpt i, ri_reason i, ri_requested_change i]"

definition issue_source :: "review_input \<Rightarrow> review_issue \<Rightarrow> string option" where
  "issue_source inp i =
     (case ri_line_basis i of L_before \<Rightarrow> Some (vi_before inp) | L_after \<Rightarrow> Some (vi_after inp) | L_other _ \<Rightarrow> None)"

definition issue_place :: "review_issue \<Rightarrow> source_location" where
  "issue_place i = \<lparr>sl_start_line = ri_start_line i, sl_end_line = ri_end_line i, sl_excerpt = ri_excerpt i\<rparr>"

definition check_issue ::
  "review_input \<Rightarrow> rule_id set \<Rightarrow> (rule_id \<rightharpoonup> assessment_status) \<Rightarrow> review_issue \<Rightarrow>
     (parse_error, review_issue) outcome" where
  "check_issue inp known assessed i =
     (if ri_rule_id i \<noteq> [] \<and> (ri_rule_id i \<notin> known \<or>
          assessed (ri_rule_id i) \<noteq> Some A_violated \<and> assessed (ri_rule_id i) \<noteq> Some A_needs_human)
      then Inl ParIssueRule
      else if \<not> issue_fields_ok i then Inl ParIssueField
      else let kind = issue_kind_of assessed i in
        if kind \<noteq> K_needs_changes \<and> kind \<noteq> K_needs_human then Inl ParIssueKind
        else (case issue_source inp i of
          None \<Rightarrow> Inl ParIssueBasis
        | Some source \<Rightarrow>
            (case resolve_source_location source (issue_place i) of
               Inl e \<Rightarrow> Inl (ParIssueLocation e)
             | Inr loc \<Rightarrow> Inr (i\<lparr>ri_kind := kind, ri_start_line := sl_start_line loc,
                                  ri_end_line := sl_end_line loc\<rparr>))))"

fun check_issues ::
  "review_input \<Rightarrow> rule_id set \<Rightarrow> (rule_id \<rightharpoonup> assessment_status) \<Rightarrow> review_issue list \<Rightarrow>
     (parse_error, review_issue list) outcome" where
  "check_issues inp known assessed [] = Inr []"
| "check_issues inp known assessed (i # is) =
     (case check_issue inp known assessed i of
        Inl e \<Rightarrow> Inl e
      | Inr j \<Rightarrow> (case check_issues inp known assessed is of Inl e \<Rightarrow> Inl e | Inr js \<Rightarrow> Inr (j # js)))"

text \<open>\<open>hasHold\<close> and \<open>hasRepairable\<close> are what the two loops have seen.\<close>

definition has_hold :: "review_assessment list \<Rightarrow> review_issue list \<Rightarrow> bool" where
  "has_hold as is \<longleftrightarrow> list_ex (\<lambda>a. ra_status a = A_needs_human) as \<or> list_ex (\<lambda>i. ri_kind i = K_needs_human) is"

definition check_verdict :: "independent_review \<Rightarrow> review_input \<Rightarrow> parse_error option" where
  "check_verdict r inp =
     (case rv_verdict r of
        V_passed \<Rightarrow>
          if has_hold (rv_assessments r) (rv_issues r) \<or> vi_holds inp \<noteq> [] \<or> rv_issues r \<noteq> []
          then Some ParPassed else None
      | V_passed_with_holds \<Rightarrow> map_option ParPartial (check_review_hold_approval r (vi_holds inp))
      | V_needs_changes \<Rightarrow>
          if list_ex (\<lambda>i. ri_kind i = K_needs_changes) (rv_issues r) then None else Some ParNoRepairable
      | V_needs_human \<Rightarrow> None
      | _ \<Rightarrow> Some ParVerdict)"

definition parsed_review :: "independent_review \<Rightarrow> independent_review" where
  "parsed_review r = \<lparr>rv_id = [], rv_candidate_id = [], rv_base_hash = rv_base_hash r,
     rv_candidate_hash = rv_candidate_hash r, rv_plan_revision = 0, rv_verdict = rv_verdict r,
     rv_summary = rv_summary r, rv_assessments = rv_assessments r, rv_issues = rv_issues r,
     rv_hold_assessments = rv_hold_assessments r, rv_usage = no_usage, rv_started_at = [],
     rv_finished_at = []\<rparr>"

definition parse_independent_review ::
  "independent_review option \<Rightarrow> review_input \<Rightarrow> (parse_error, independent_review) outcome" where
  "parse_independent_review answer inp =
     (case answer of
        None \<Rightarrow> Inl ParMalformed
      | Some wire \<Rightarrow>
          if rv_base_hash wire \<noteq> vi_base_hash inp \<or> rv_candidate_hash wire \<noteq> vi_candidate_hash inp
          then Inl ParHashes
          else if blank (rv_summary wire) \<or> length (rv_assessments wire) \<noteq> length (vi_rules inp)
          then Inl ParCounts
          else (case validate_review_hold_assessments (rv_hold_assessments wire) (vi_holds inp) of
            Some e \<Rightarrow> Inl (ParHolds e)
          | None \<Rightarrow>
          (let known = rr_id ` set (vi_rules inp) in
           case assess_rules known Map.empty (rv_assessments wire) of
            Inl e \<Rightarrow> Inl e
          | Inr assessed \<Rightarrow>
          (case check_issues inp known assessed (rv_issues wire) of
            Inl e \<Rightarrow> Inl e
          | Inr issues \<Rightarrow>
              if list_ex (\<lambda>a. assessed (ra_rule_id a) = Some A_violated \<and>
                   ra_rule_id a \<notin> ri_rule_id ` set issues) (rv_assessments wire)
              then Inl ParMissingIssue
              else let r = wire\<lparr>rv_issues := issues\<rparr> in
                (case check_verdict r inp of
                   Some e \<Rightarrow> Inl e
                 | None \<Rightarrow> Inr (parsed_review r))))))"

subsection \<open>What an accepted answer contains\<close>

lemma resolve_validates:
  assumes "resolve_source_location source loc = Inr r" "normalize_source source = source"
  shows "validate_source_location source r = None \<and> sl_excerpt r = sl_excerpt loc"
  using assms by (auto simp: resolve_source_location_def Let_def split: if_splits prod.splits option.splits)

lemma assess_rules_Inr:
  "assess_rules known assessed as = Inr m \<longleftrightarrow>
     distinct (map ra_rule_id as) \<and> ra_rule_id ` set as \<inter> dom assessed = {} \<and> ra_rule_id ` set as \<subseteq> known \<and>
     (\<forall>a \<in> set as. \<not> blank (ra_reason a) \<and> (\<forall>x. ra_status a \<noteq> A_other x)) \<and>
     m = assessed ++ map_of (rev (map (\<lambda>a. (ra_rule_id a, ra_status a)) as))"
proof (induction as arbitrary: assessed)
  case (Cons a as)
  have m: "assessed(ra_rule_id a \<mapsto> ra_status a) ++ map_of (rev (map (\<lambda>a. (ra_rule_id a, ra_status a)) as)) =
      assessed ++ map_of (rev (map (\<lambda>a. (ra_rule_id a, ra_status a)) (a # as)))"
    by (simp add: map_add_assoc [symmetric])
  show ?case
  proof (cases "\<exists>x. ra_status a = A_other x")
    case True
    then show ?thesis by auto
  next
    case False
    then have "assess_rules known assessed (a # as) =
        (if ra_rule_id a \<notin> known \<or> assessed (ra_rule_id a) \<noteq> None \<or> blank (ra_reason a) then Inl ParAssessment
         else assess_rules known (assessed(ra_rule_id a \<mapsto> ra_status a)) as)"
      by (cases "ra_status a") auto
    note step = this Cons.IH [of "assessed(ra_rule_id a \<mapsto> ra_status a)", unfolded m]
    show ?thesis
    proof (cases "ra_rule_id a \<notin> known \<or> assessed (ra_rule_id a) \<noteq> None \<or> blank (ra_reason a)")
      case True
      then show ?thesis unfolding step(1) by (auto simp: domIff)
    next
      case ok: False
      have "assess_rules known assessed (a # as) = Inr m \<longleftrightarrow>
          assess_rules known (assessed(ra_rule_id a \<mapsto> ra_status a)) as = Inr m"
        unfolding step(1) using ok by simp
      also have "\<dots> \<longleftrightarrow> distinct (map ra_rule_id as) \<and>
          ra_rule_id ` set as \<inter> insert (ra_rule_id a) (dom assessed) = {} \<and> ra_rule_id ` set as \<subseteq> known \<and>
          (\<forall>a \<in> set as. \<not> blank (ra_reason a) \<and> (\<forall>x. ra_status a \<noteq> A_other x)) \<and>
          m = assessed ++ map_of (rev (map (\<lambda>a. (ra_rule_id a, ra_status a)) (a # as)))"
        unfolding step(2) dom_fun_upd by simp
      also have "\<dots> \<longleftrightarrow> distinct (map ra_rule_id (a # as)) \<and>
          ra_rule_id ` set (a # as) \<inter> dom assessed = {} \<and> ra_rule_id ` set (a # as) \<subseteq> known \<and>
          (\<forall>a \<in> set (a # as). \<not> blank (ra_reason a) \<and> (\<forall>x. ra_status a \<noteq> A_other x)) \<and>
          m = assessed ++ map_of (rev (map (\<lambda>a. (ra_rule_id a, ra_status a)) (a # as)))"
        using ok False by (auto simp: domIff)
      finally show ?thesis .
    qed
  qed
qed auto

lemma assessed_map:
  assumes "distinct (map ra_rule_id as)" "a \<in> set as"
  shows "map_of (rev (map (\<lambda>a. (ra_rule_id a, ra_status a)) as)) (ra_rule_id a) = Some (ra_status a)"
proof (rule map_of_is_SomeI)
  have "map fst (rev (map (\<lambda>a. (ra_rule_id a, ra_status a)) as)) = rev (map ra_rule_id as)"
    by (simp add: rev_map comp_def)
  then show "distinct (map fst (rev (map (\<lambda>a. (ra_rule_id a, ra_status a)) as)))"
    using assms(1) by simp
qed (use assms(2) in simp)

definition issue_ok :: "review_input \<Rightarrow> (rule_id \<rightharpoonup> assessment_status) \<Rightarrow> review_issue \<Rightarrow> bool" where
  "issue_ok inp assessed j \<longleftrightarrow>
     (ri_kind j = K_needs_changes \<or> ri_kind j = K_needs_human) \<and> issue_fields_ok j \<and>
     (ri_rule_id j \<noteq> [] \<longrightarrow> assessed (ri_rule_id j) = Some A_violated \<or> assessed (ri_rule_id j) = Some A_needs_human) \<and>
     (\<exists>source. issue_source inp j = Some source \<and> validate_source_location source (issue_place j) = None)"

lemma check_issue_Inr:
  assumes "check_issue inp known assessed i = Inr j"
    "normalize_source (vi_before inp) = vi_before inp" "normalize_source (vi_after inp) = vi_after inp"
  shows "issue_ok inp assessed j \<and> ri_rule_id j = ri_rule_id i"
proof -
  obtain source loc where s: "issue_source inp i = Some source"
      "resolve_source_location source (issue_place i) = Inr loc"
      "j = i\<lparr>ri_kind := issue_kind_of assessed i, ri_start_line := sl_start_line loc,
             ri_end_line := sl_end_line loc\<rparr>"
    and c: "issue_fields_ok i" "issue_kind_of assessed i = K_needs_changes \<or> issue_kind_of assessed i = K_needs_human"
      "ri_rule_id i \<noteq> [] \<longrightarrow> assessed (ri_rule_id i) = Some A_violated \<or> assessed (ri_rule_id i) = Some A_needs_human"
    using assms(1) by (auto simp: check_issue_def Let_def split: if_splits option.splits sum.splits)
  have "normalize_source source = source"
    using s(1) assms(2,3) by (auto simp: issue_source_def split: line_basis.splits)
  from resolve_validates [OF s(2) this]
  have v: "validate_source_location source loc = None" "sl_excerpt loc = ri_excerpt i"
    by (simp_all add: issue_place_def)
  have "issue_place j = loc" using v(2) by (simp add: s(3) issue_place_def)
  moreover have "issue_source inp j = Some source" "issue_fields_ok j" "ri_kind j = issue_kind_of assessed i"
      "ri_rule_id j = ri_rule_id i"
    using s(1) c(1) by (simp_all add: s(3) issue_source_def issue_fields_ok_def)
  ultimately show ?thesis unfolding issue_ok_def using c v(1) by metis
qed

lemma check_issues_Inr:
  assumes "check_issues inp known assessed is = Inr js"
    "normalize_source (vi_before inp) = vi_before inp" "normalize_source (vi_after inp) = vi_after inp"
  shows "(\<forall>j \<in> set js. issue_ok inp assessed j) \<and> map ri_rule_id js = map ri_rule_id is"
  using assms
proof (induction "is" arbitrary: js)
  case (Cons i "is")
  then obtain j js' where "check_issue inp known assessed i = Inr j" "check_issues inp known assessed is = Inr js'"
      "js = j # js'"
    by (auto split: sum.splits)
  with Cons check_issue_Inr show ?case by fastforce
qed simp

lemma check_verdict_same:
  assumes "rv_verdict r = rv_verdict w" "rv_assessments r = rv_assessments w" "rv_issues r = rv_issues w"
    "rv_hold_assessments r = rv_hold_assessments w"
  shows "check_verdict r inp = check_verdict w inp"
  unfolding check_verdict_def check_review_hold_approval_def assms by (rule refl)

lemma parse_independent_review_Inr:
  assumes "parse_independent_review answer inp = Inr r"
  obtains wire assessed where "answer = Some wire"
    "rv_base_hash r = vi_base_hash inp" "rv_candidate_hash r = vi_candidate_hash inp" "\<not> blank (rv_summary r)"
    "length (rv_assessments r) = length (vi_rules inp)"
    "validate_review_hold_assessments (rv_hold_assessments r) (vi_holds inp) = None"
    "assess_rules (rr_id ` set (vi_rules inp)) Map.empty (rv_assessments r) = Inr assessed"
    "check_issues inp (rr_id ` set (vi_rules inp)) assessed (rv_issues wire) = Inr (rv_issues r)"
    "\<forall>a \<in> set (rv_assessments r). assessed (ra_rule_id a) = Some A_violated \<longrightarrow>
       ra_rule_id a \<in> ri_rule_id ` set (rv_issues r)"
    "check_verdict r inp = None" "r = parsed_review r"
proof -
  obtain wire assessed issues where w: "answer = Some wire" "rv_base_hash wire = vi_base_hash inp"
      "rv_candidate_hash wire = vi_candidate_hash inp" "\<not> blank (rv_summary wire)"
      "length (rv_assessments wire) = length (vi_rules inp)"
      "validate_review_hold_assessments (rv_hold_assessments wire) (vi_holds inp) = None"
      "assess_rules (rr_id ` set (vi_rules inp)) Map.empty (rv_assessments wire) = Inr assessed"
      "check_issues inp (rr_id ` set (vi_rules inp)) assessed (rv_issues wire) = Inr issues"
      "\<not> list_ex (\<lambda>a. assessed (ra_rule_id a) = Some A_violated \<and>
          ra_rule_id a \<notin> ri_rule_id ` set issues) (rv_assessments wire)"
      "check_verdict (wire\<lparr>rv_issues := issues\<rparr>) inp = None" "r = parsed_review (wire\<lparr>rv_issues := issues\<rparr>)"
    using assms unfolding parse_independent_review_def Let_def outcome_simps
    by (cases answer) (auto simp: outcome_simps)
  have f: "rv_base_hash r = rv_base_hash wire" "rv_candidate_hash r = rv_candidate_hash wire"
      "rv_summary r = rv_summary wire" "rv_assessments r = rv_assessments wire" "rv_issues r = issues"
      "rv_hold_assessments r = rv_hold_assessments wire" "rv_verdict r = rv_verdict wire"
    by (simp_all add: w(11) parsed_review_def)
  have g: "r = parsed_review r" by (subst (1 2) w(11)) (simp add: parsed_review_def)
  have "check_verdict r inp = check_verdict (wire\<lparr>rv_issues := issues\<rparr>) inp"
    by (rule check_verdict_same) (simp_all add: f)
  then have v: "check_verdict r inp = None" using w(10) by simp
  show thesis
    by (rule that [OF w(1) _ _ _ _ _ _ _ _ v g, of assessed])
      (use w(2-9) in \<open>simp_all add: f list_ex_iff\<close>)
qed

text \<open>The rules of an accepted answer are exactly the supplied ones, each assessed once.\<close>

lemma accepted_rules:
  assumes "parse_independent_review answer inp = Inr r" "distinct (map rr_id (vi_rules inp))"
  shows "distinct (map ra_rule_id (rv_assessments r))"
    "ra_rule_id ` set (rv_assessments r) = rr_id ` set (vi_rules inp)"
    "\<And>a. a \<in> set (rv_assessments r) \<Longrightarrow> \<not> blank (ra_reason a) \<and>
       ra_status a \<in> {A_satisfied, A_not_applicable, A_violated, A_needs_human}"
proof -
  obtain assessed where a: "assess_rules (rr_id ` set (vi_rules inp)) Map.empty (rv_assessments r) = Inr assessed"
      and len: "length (rv_assessments r) = length (vi_rules inp)"
    by (rule parse_independent_review_Inr [OF assms(1)]) (rule that; assumption)
  note a = a [unfolded assess_rules_Inr]
  show d: "distinct (map ra_rule_id (rv_assessments r))" using a by simp
  have "card (rr_id ` set (vi_rules inp)) = length (vi_rules inp)"
    using assms(2) by (metis distinct_card length_map set_map)
  then show "ra_rule_id ` set (rv_assessments r) = rr_id ` set (vi_rules inp)"
    using a len by (intro distinct_keys_cover) auto
  fix x assume "x \<in> set (rv_assessments r)"
  then show "\<not> blank (ra_reason x) \<and> ra_status x \<in> {A_satisfied, A_not_applicable, A_violated, A_needs_human}"
    using a by (cases "ra_status x") auto
qed

lemma accepted_issues:
  assumes "parse_independent_review answer inp = Inr r"
    "normalize_source (vi_before inp) = vi_before inp" "normalize_source (vi_after inp) = vi_after inp"
    "i \<in> set (rv_issues r)"
  shows "(ri_kind i = K_needs_changes \<or> ri_kind i = K_needs_human) \<and> issue_fields_ok i \<and>
    (\<exists>source. issue_source inp i = Some source \<and> validate_source_location source (issue_place i) = None)"
proof -
  obtain wire :: independent_review and assessed
    where "check_issues inp (rr_id ` set (vi_rules inp)) assessed (rv_issues wire) = Inr (rv_issues r)"
    by (rule parse_independent_review_Inr [OF assms(1)]) (rule that; assumption)
  from check_issues_Inr [OF this assms(2,3)] assms(4) show ?thesis unfolding issue_ok_def by blast
qed

lemma accepted_verdict:
  assumes "parse_independent_review answer inp = Inr r" shows "check_verdict r inp = None"
    "validate_review_hold_assessments (rv_hold_assessments r) (vi_holds inp) = None"
    "rv_base_hash r = vi_base_hash inp" "rv_candidate_hash r = vi_candidate_hash inp"
  using assms by (auto elim: parse_independent_review_Inr)

lemma accepted_violations:
  assumes "parse_independent_review answer inp = Inr r" "a \<in> set (rv_assessments r)" "ra_status a = A_violated"
  shows "ra_rule_id a \<in> ri_rule_id ` set (rv_issues r)"
proof -
  obtain assessed where a: "assess_rules (rr_id ` set (vi_rules inp)) Map.empty (rv_assessments r) = Inr assessed"
    and v: "\<forall>a \<in> set (rv_assessments r). assessed (ra_rule_id a) = Some A_violated \<longrightarrow>
       ra_rule_id a \<in> ri_rule_id ` set (rv_issues r)"
    by (rule parse_independent_review_Inr [OF assms(1)]) (rule that; assumption)
  have "assessed (ra_rule_id a) = Some (ra_status a)"
    using a assessed_map [OF _ assms(2)] unfolding assess_rules_Inr by simp
  then show ?thesis using v assms(2,3) by simp
qed

lemma passed_review_clean:
  assumes "parse_independent_review answer inp = Inr r" "rv_verdict r = V_passed"
    "distinct (map rr_id (vi_rules inp))"
  shows "vi_holds inp = []" "rv_issues r = []" "rv_hold_assessments r = []"
    "\<And>a. a \<in> set (rv_assessments r) \<Longrightarrow> ra_status a = A_satisfied \<or> ra_status a = A_not_applicable"
proof -
  have v: "\<not> has_hold (rv_assessments r) (rv_issues r)" "vi_holds inp = []" "rv_issues r = []"
    using accepted_verdict(1) [OF assms(1)] assms(2) by (auto simp: check_verdict_def split: if_splits)
  show "vi_holds inp = []" "rv_issues r = []" by (rule v)+
  show "rv_hold_assessments r = []"
    using accepted_verdict(2) [OF assms(1)] v(2)
    by (auto simp: validate_review_hold_assessments_def split: if_splits)
  fix a assume a: "a \<in> set (rv_assessments r)"
  then have "ra_status a \<noteq> A_needs_human" using v(1) by (auto simp: has_hold_def list_ex_iff)
  moreover have "ra_status a \<noteq> A_violated" using accepted_violations [OF assms(1) a] v(3) by auto
  ultimately show "ra_status a = A_satisfied \<or> ra_status a = A_not_applicable"
    using accepted_rules(3) [OF assms(1,3) a] by auto
qed

subsection \<open>Where an accepted path can lead\<close>

text \<open>
  Opening a path walks its segments: \<open>..\<close> leaves the current folder (\<^term>\<open>None\<close> when that is the
  root), an empty segment and \<open>.\<close> stay, anything else enters.
\<close>

fun walk_path :: "string list \<Rightarrow> string list \<Rightarrow> string list option" where
  "walk_path here [] = Some here"
| "walk_path here (seg # segs) =
     (if seg = ''..'' then (if here = [] then None else walk_path (butlast here) segs)
      else if seg = [] \<or> seg = ''.'' then walk_path here segs
      else walk_path (here @ [seg]) segs)"

lemma check_segments_None:
  "check_segments segs = None \<Longrightarrow> seg \<in> set segs \<Longrightarrow>
     seg \<noteq> [] \<and> seg \<noteq> ''.'' \<and> seg \<noteq> ''..'' \<and> last seg \<noteq> CHR ''.'' \<and> last seg \<noteq> CHR '' '' \<and>
     \<not> private_name (lower_ascii seg) \<and> \<not> device_name (hd (split_on (CHR ''.'') (lower_ascii seg)))"
  by (induction segs) (auto simp: Let_def split: if_splits)

lemma walk_checked: "check_segments segs = None \<Longrightarrow> walk_path here segs = Some (here @ segs)"
proof (induction segs arbitrary: here)
  case (Cons seg segs)
  then show ?case using check_segments_None [OF Cons.prems, of seg] by (simp add: Let_def split: if_splits)
qed simp

lemma check_segments_settings:
  "check_segments segs = None \<Longrightarrow> i + 1 < length segs \<Longrightarrow> lower_ascii (segs ! i) \<noteq> ''onebyone''"
proof (induction segs arbitrary: i)
  case (Cons seg segs)
  have c: "check_segments segs = None" "lower_ascii seg = ''onebyone'' \<Longrightarrow> segs = []"
    using Cons.prems(1) unfolding check_segments.simps Let_def outcome_simps by blast+
  show ?case
  proof (cases i)
    case 0
    then show ?thesis using c(2) Cons.prems(2) by auto
  next
    case (Suc k)
    then show ?thesis using Cons.IH [OF c(1), of k] Cons.prems(2) by simp
  qed
qed simp

lemma safe_relative_path_eq:
  "check_segments (split_on (CHR ''/'') s) = e \<Longrightarrow> \<not> list_ex (\<lambda>c. c \<in> set forbidden_path_chars) s \<Longrightarrow>
     s \<noteq> [] \<Longrightarrow> length s \<le> 4096 \<Longrightarrow> hd s \<noteq> CHR ''/'' \<Longrightarrow> safe_relative_path s = e"
  by (simp add: safe_relative_path_def)

subsection \<open>Properties\<close>

text \<open>
  C26. What an accepted review contains. When the answer of the reviewer is accepted for an input
  with distinct rules and decoded sources: every supplied rule, and nothing else, is assessed
  exactly once, with a reason and one of the four statuses; every issue is of one of the two kinds,
  has all its fields and quotes existing lines of the text it names; a violated rule has an issue;
  \<open>passed\<close> means that nothing is held, nothing is criticised and every rule is satisfied or not
  applicable; \<open>passed_with_holds\<close> satisfies the approval rules for the declared holds; and
  \<open>needs_changes\<close> names something to change.
\<close>

theorem accepted_review_contents:
  assumes "parse_independent_review answer inp = Inr r" "distinct (map rr_id (vi_rules inp))"
    "normalize_source (vi_before inp) = vi_before inp" "normalize_source (vi_after inp) = vi_after inp"
  shows "distinct (map ra_rule_id (rv_assessments r)) \<and>
    ra_rule_id ` set (rv_assessments r) = rr_id ` set (vi_rules inp) \<and>
    (\<forall>a \<in> set (rv_assessments r). \<not> blank (ra_reason a) \<and>
       ra_status a \<in> {A_satisfied, A_not_applicable, A_violated, A_needs_human} \<and>
       (ra_status a = A_violated \<longrightarrow> ra_rule_id a \<in> ri_rule_id ` set (rv_issues r))) \<and>
    (\<forall>i \<in> set (rv_issues r). (ri_kind i = K_needs_changes \<or> ri_kind i = K_needs_human) \<and> issue_fields_ok i \<and>
       (\<exists>source. issue_source inp i = Some source \<and> validate_source_location source (issue_place i) = None)) \<and>
    (rv_verdict r = V_passed \<longrightarrow> vi_holds inp = [] \<and> rv_issues r = [] \<and>
       (\<forall>a \<in> set (rv_assessments r). ra_status a = A_satisfied \<or> ra_status a = A_not_applicable)) \<and>
    (rv_verdict r = V_passed_with_holds \<longrightarrow> check_review_hold_approval r (vi_holds inp) = None) \<and>
    (rv_verdict r = V_needs_changes \<longrightarrow> (\<exists>i \<in> set (rv_issues r). ri_kind i = K_needs_changes)) \<and>
    rv_verdict r \<in> {V_passed, V_passed_with_holds, V_needs_changes, V_needs_human}"
proof -
  note rules = accepted_rules [OF assms(1,2)]
  note v = accepted_verdict(1) [OF assms(1)]
  have "rv_verdict r = V_passed_with_holds \<longrightarrow> check_review_hold_approval r (vi_holds inp) = None"
    "rv_verdict r = V_needs_changes \<longrightarrow> (\<exists>i \<in> set (rv_issues r). ri_kind i = K_needs_changes)"
    using v by (auto simp: check_verdict_def list_ex_iff split: if_splits)
  moreover have "rv_verdict r \<in> {V_passed, V_passed_with_holds, V_needs_changes, V_needs_human}"
    using v by (cases "rv_verdict r") (auto simp: check_verdict_def)
  moreover have "\<forall>a \<in> set (rv_assessments r). \<not> blank (ra_reason a) \<and>
       ra_status a \<in> {A_satisfied, A_not_applicable, A_violated, A_needs_human} \<and>
       (ra_status a = A_violated \<longrightarrow> ra_rule_id a \<in> ri_rule_id ` set (rv_issues r))"
    using rules(3) accepted_violations [OF assms(1)] by blast
  moreover have "rv_verdict r = V_passed \<longrightarrow> vi_holds inp = [] \<and> rv_issues r = [] \<and>
       (\<forall>a \<in> set (rv_assessments r). ra_status a = A_satisfied \<or> ra_status a = A_not_applicable)"
    using passed_review_clean [OF assms(1) _ assms(2)] by blast
  moreover note accepted_issues [OF assms(1,3,4)]
  ultimately show ?thesis using rules(1,2) by simp
qed

definition sample_review_input :: review_input where
  "sample_review_input = \<lparr>vi_file = ''a.go'', vi_before = ''a'' @ [LF], vi_after = ''b'' @ [LF],
     vi_base_hash = ''h'', vi_candidate_hash = ''k'',
     vi_rules = [\<lparr>rr_id = ''r1'', rr_title = ''t'', rr_body = ''b'', rr_always = False\<rparr>],
     vi_holds = [], vi_diagnostics = [], vi_usage = no_usage, vi_turn_baseline = 0, vi_prior = None\<rparr>"

definition sample_answer :: independent_review where
  "sample_answer = parsed_review (sample_review\<lparr>rv_verdict := V_needs_changes, rv_summary := ''s'',
     rv_assessments := [\<lparr>ra_rule_id = ''r1'', ra_status = A_violated, ra_reason = ''why''\<rparr>],
     rv_issues := [sample_issue\<lparr>ri_kind := K_unset, ri_line_basis := L_after, ri_excerpt := ''b'',
       ri_start_line := 7, ri_end_line := 7\<rparr>], rv_hold_assessments := []\<rparr>)"

definition sample_accepted :: independent_review where
  "sample_accepted = sample_answer\<lparr>rv_issues := [sample_issue\<lparr>ri_kind := K_needs_changes,
     ri_line_basis := L_after, ri_excerpt := ''b'', ri_start_line := 1, ri_end_line := 1\<rparr>]\<rparr>"

lemma accepted_review_contents_witness:
  "parse_independent_review (Some sample_answer) sample_review_input = Inr sample_accepted \<and>
   ra_rule_id ` set (rv_assessments sample_accepted) = {''r1''}"
proof -
  have p: "parse_independent_review (Some sample_answer) sample_review_input = Inr sample_accepted"
    by code_simp
  have h: "distinct (map rr_id (vi_rules sample_review_input))"
    "normalize_source (vi_before sample_review_input) = vi_before sample_review_input"
    "normalize_source (vi_after sample_review_input) = vi_after sample_review_input"
    by code_simp+
  have "rr_id ` set (vi_rules sample_review_input) = {''r1''}" by (simp add: sample_review_input_def)
  then show ?thesis using accepted_review_contents [OF p h] p by simp
qed

text \<open>
  C27. Accepted paths stay inside the project. When \<open>safeRelativePath\<close> accepts a path, walking its
  segments from the project root never leaves it and ends at the path itself; no segment is a
  private name or a device name in any capitalisation, and the settings folder is not entered.
\<close>

theorem safe_path_stays_inside:
  assumes "safe_relative_path s = None"
  shows "walk_path [] (split_on (CHR ''/'') s) = Some (split_on (CHR ''/'') s) \<and>
    hd s \<noteq> CHR ''/'' \<and> length s \<le> 4096 \<and> CHR 0x5C \<notin> set s \<and> NUL \<notin> set s \<and>
    (\<forall>seg \<in> set (split_on (CHR ''/'') s).
       \<not> private_name (lower_ascii seg) \<and> \<not> device_name (hd (split_on (CHR ''.'') (lower_ascii seg)))) \<and>
    (\<forall>i. i + 1 < length (split_on (CHR ''/'') s) \<longrightarrow>
       lower_ascii (split_on (CHR ''/'') s ! i) \<noteq> ''onebyone'')"
proof -
  have c: "check_segments (split_on (CHR ''/'') s) = None" "hd s \<noteq> CHR ''/''" "length s \<le> 4096"
      "\<not> list_ex (\<lambda>c. c \<in> set forbidden_path_chars) s"
    using assms by (auto simp: safe_relative_path_def split: if_splits)
  then show ?thesis
    using walk_checked [OF c(1), of "[]"] check_segments_None [OF c(1)] check_segments_settings [OF c(1)]
    by (auto simp: forbidden_path_chars_def list_ex_iff)
qed

lemma safe_path_stays_inside_witness:
  "walk_path [] [''src'', ''main.go''] = Some [''src'', ''main.go''] \<and>
   safe_relative_path ''src/../.GIT/config'' = Some PathSegment \<and>
   safe_relative_path ''.GIT/config'' = Some PathPrivate"
proof -
  have a: "check_segments (split_on (CHR ''/'') ''src/main.go'') = None"
    "check_segments (split_on (CHR ''/'') ''src/../.GIT/config'') = Some PathSegment"
    "check_segments (split_on (CHR ''/'') ''.GIT/config'') = Some PathPrivate"
    "\<not> list_ex (\<lambda>c. c \<in> set forbidden_path_chars) ''src/main.go''"
    "\<not> list_ex (\<lambda>c. c \<in> set forbidden_path_chars) ''src/../.GIT/config''"
    "\<not> list_ex (\<lambda>c. c \<in> set forbidden_path_chars) ''.GIT/config''"
    by code_simp+
  have s: "safe_relative_path ''src/main.go'' = None"
    by (rule safe_relative_path_eq [OF a(1,4)]) simp_all
  have p: "split_on (CHR ''/'') ''src/main.go'' = [''src'', ''main.go'']" by code_simp
  have "safe_relative_path ''src/../.GIT/config'' = Some PathSegment"
    "safe_relative_path ''.GIT/config'' = Some PathPrivate"
    by (rule safe_relative_path_eq [OF a(2,5)] safe_relative_path_eq [OF a(3,6)]; simp)+
  then show ?thesis using safe_path_stays_inside [OF s] p by simp
qed

end
