(* ===== verification/ReviewGate.thy ===== *)
theory ReviewGate
  imports ReviewParse RepairInvariants
begin

section \<open>The review gate and the adoption gate\<close>

text \<open>
  \<open>internal/agent/review_gate.go\<close>: what happens between the editor's final answer and its return to
  the engine, and \<open>internal/engine/independent_review.go\<close>: the check the engine repeats before it
  adopts a result. The reviewer is a parameter: for an input it produces the callbacks it made, in
  order, and its result. A callback whose save fails ends the review with that error.
\<close>

text \<open>\<open>bounded\<close>: at most \<open>n\<close> bytes, cut back to valid UTF-8, with an ellipsis when cut.\<close>

definition ellipsis :: string where
  "ellipsis = [CHR 0xE2, CHR 0x80, CHR 0xA6]"

fun bounded_cut :: "string \<Rightarrow> nat \<Rightarrow> nat" where
  "bounded_cut s 0 = 0"
| "bounded_cut s (Suc n) = (if \<not> valid_utf8 (take (Suc n) s) then bounded_cut s n else Suc n)"

definition bounded :: "string \<Rightarrow> nat \<Rightarrow> string" where
  "bounded s n = (if length s \<le> n then s else take (bounded_cut s n) s @ ellipsis)"

definition add_review_usage :: "usage \<Rightarrow> usage \<Rightarrow> usage" where
  "add_review_usage a b =
     \<lparr>us_uncertain = (us_uncertain a \<or> us_uncertain b),
      us_input_tokens = us_input_tokens a + us_input_tokens b,
      us_cached_tokens = us_cached_tokens a + us_cached_tokens b,
      us_output_tokens = us_output_tokens a + us_output_tokens b,
      us_cost_usd = us_cost_usd a + us_cost_usd b, us_turns = us_turns a + us_turns b\<rparr>"

datatype gate_error =
    GatePlanShape | GatePlanDecision | GatePlanMissing | GateNoId | GateStale | GateHolds hold_error
  | GateEdits edit_error | GateRuleText rule_id | GateRules | GateSave | GateReview string
  | GateMismatch | GateHeldPassed | GateUnchangedHolds | GatePartial review_error | GateVerdict

datatype review_event =
    EventBefore string
  | EventAfter usage bool
  | EventProgress independent_review

record review_service =
  sv_candidate_id :: "string option"
  sv_review_id :: "string option"
  sv_started :: string
  sv_finished :: string
  sv_file :: string
  sv_diagnostics :: "source_diagnostic list"
  sv_turn_baseline :: int
  sv_reviewer :: "review_input \<Rightarrow> review_event list \<times> (string, independent_review) outcome"
  sv_save_error :: string
  sv_mismatch_error :: string

subsection \<open>Plans that change nothing\<close>

fun no_change_decisions :: "rule_id set \<Rightarrow> plan_decision list \<Rightarrow> rule_id set option" where
  "no_change_decisions wanted [] = Some wanted"
| "no_change_decisions wanted (d # ds) =
     (if pd_rule_id d \<notin> wanted \<or> pd_decision d \<noteq> D_no_change \<or> blank (pd_reason d) then None
      else no_change_decisions (wanted - {pd_rule_id d}) ds)"

definition no_change_plan :: "repair_plan \<Rightarrow> rule list \<Rightarrow> gate_error option" where
  "no_change_plan plan rules =
     (if rp_revision plan < 1 \<or> rp_items plan \<noteq> [] \<or> length (rp_decisions plan) \<noteq> length rules
      then Some GatePlanShape
      else (case no_change_decisions (ru_id ` set rules) (rp_decisions plan) of
              None \<Rightarrow> Some GatePlanDecision
            | Some wanted \<Rightarrow> if wanted \<noteq> {} then Some GatePlanMissing else None))"

definition current_no_change_candidate :: "candidate_record option \<Rightarrow> repair_plan \<Rightarrow> string \<Rightarrow> bool" where
  "current_no_change_candidate candidate plan base_hash \<longleftrightarrow>
     (case candidate of
        None \<Rightarrow> False
      | Some c \<Rightarrow> ca_no_change c \<and> cv_passed (ca_result c) \<and> cv_candidate_id (ca_result c) \<noteq> [] \<and>
          cr_base_hash (ca_request c) = base_hash \<and> cv_candidate_hash (ca_result c) = base_hash \<and>
          cr_plan_revision (ca_request c) = rp_revision plan \<and>
          cv_plan_revision (ca_result c) = rp_revision plan \<and>
          cr_edits (ca_request c) = [] \<and> cr_addressed_item_ids (ca_request c) = [])"

definition new_no_change_candidate :: "repair_plan \<Rightarrow> string \<Rightarrow> string \<Rightarrow> candidate_record" where
  "new_no_change_candidate plan base_hash cid =
     \<lparr>ca_no_change = True,
      ca_request = \<lparr>cr_plan_revision = rp_revision plan, cr_base_hash = base_hash, cr_edits = [],
        cr_addressed_item_ids = []\<rparr>,
      ca_result = \<lparr>cv_attribution_version = 0, cv_candidate_id = cid, cv_candidate_hash = base_hash,
        cv_plan_revision = rp_revision plan, cv_passed = True, cv_checks = [], cv_edit_ranges = []\<rparr>,
      ca_review_requested = False, ca_review_note = [], ca_review = None\<rparr>"

subsection \<open>The rules of a review\<close>

fun review_rules_loop ::
  "(rule_id \<Rightarrow> string option) \<Rightarrow> rule_id set \<Rightarrow> rule list \<Rightarrow>
     (gate_error, review_rule list \<times> rule_id set) outcome" where
  "review_rules_loop read_rule wanted [] = Inr ([], wanted)"
| "review_rules_loop read_rule wanted (r # rs) =
     (if ru_id r \<notin> wanted then review_rules_loop read_rule wanted rs
      else (case read_rule (ru_id r) of
        None \<Rightarrow> Inl (GateRuleText (ru_id r))
      | Some body \<Rightarrow>
          (case review_rules_loop read_rule (wanted - {ru_id r}) rs of
             Inl e \<Rightarrow> Inl e
           | Inr (rows, missing) \<Rightarrow>
               Inr (\<lparr>rr_id = ru_id r, rr_title = ru_title r, rr_body = body, rr_always = ru_always r\<rparr> # rows,
                    missing))))"

definition wanted_rules :: "rule_id list \<Rightarrow> rule list \<Rightarrow> repair_plan \<Rightarrow> rule_id set" where
  "wanted_rules candidate_rules rules plan =
     set candidate_rules \<union> pd_rule_id ` set (rp_decisions plan) \<union> set (map ru_id (filter ru_always rules))"

definition review_rules ::
  "repair_env \<Rightarrow> rule list \<Rightarrow> repair_plan \<Rightarrow> (gate_error, review_rule list) outcome" where
  "review_rules env rules plan =
     (case review_rules_loop (en_read_rule env) (wanted_rules (en_candidate_rules env) rules plan) rules of
        Inl e \<Rightarrow> Inl e
      | Inr (rows, missing) \<Rightarrow> if missing \<noteq> {} \<or> rows = [] then Inl GateRules else Inr rows)"

subsection \<open>What a finished review decides\<close>

definition held_note_prefix :: string where
  "held_note_prefix = map (\<lambda>n :: nat. char_of n)
     [231, 139, 172, 231, 171, 139, 227, 131, 172, 227, 131, 147, 227, 131, 165, 227, 131, 188, 227, 129,
      167, 229, 136, 164, 230, 150, 173, 228, 191, 157, 231, 149, 153, 58, 32]"

definition review_matches :: "candidate_record \<Rightarrow> independent_review \<Rightarrow> bool" where
  "review_matches c r \<longleftrightarrow>
     rv_id r \<noteq> [] \<and> rv_candidate_id r = cv_candidate_id (ca_result c) \<and>
     rv_base_hash r = cr_base_hash (ca_request c) \<and> rv_candidate_hash r = cv_candidate_hash (ca_result c) \<and>
     rv_plan_revision r = cr_plan_revision (ca_request c)"

definition reviewed_outcome ::
  "proposal \<Rightarrow> candidate_record \<Rightarrow> repair_plan \<Rightarrow> string \<Rightarrow> (gate_error, proposal \<times> bool) outcome" where
  "reviewed_outcome final c plan original =
     (case ca_review c of
        None \<Rightarrow> Inl GateMismatch
      | Some r \<Rightarrow>
          if \<not> review_matches c r then Inl GateMismatch
          else (case rv_verdict r of
            V_passed \<Rightarrow> if candidate_holds plan = Inr [] then Inr (final, True) else Inl GateHeldPassed
          | V_passed_with_holds \<Rightarrow>
              if ca_no_change c then Inl GateUnchangedHolds
              else (case check_partial_review r plan of
                      Some e \<Rightarrow> Inl (GatePartial e)
                    | None \<Rightarrow> Inr (final, True))
          | V_needs_changes \<Rightarrow> Inr (final, False)
          | V_needs_human \<Rightarrow>
              if can_replan_review_hold r c original then Inr (final, False)
              else Inr (\<lparr>pr_outcome = O_needs_human, pr_candidate_id = [], pr_edits = [],
                         pr_rules_applied = [], pr_note = held_note_prefix @ rv_summary r\<rparr>, True)
          | _ \<Rightarrow> Inl GateVerdict))"

subsection \<open>Running the review\<close>

text \<open>
  \<open>publish\<close> writes the record to the candidate and to the list of reviews, at the position it got
  when it was first published.
\<close>

definition publish_review ::
  "independent_review \<Rightarrow> nat option \<Rightarrow> repair_state \<Rightarrow> repair_state \<times> nat option" where
  "publish_review r index state =
     (let state1 = state\<lparr>rs_last_candidate :=
            map_option (\<lambda>c. c\<lparr>ca_review := Some r\<rparr>) (rs_last_candidate state)\<rparr> in
      case index of
        None \<Rightarrow> (state1\<lparr>rs_reviews := rs_reviews state @ [r]\<rparr>, Some (length (rs_reviews state)))
      | Some i \<Rightarrow> (state1\<lparr>rs_reviews := (rs_reviews state)[i := r]\<rparr>, Some i))"

definition apply_event ::
  "review_event \<Rightarrow> independent_review \<times> nat option \<times> repair_state \<Rightarrow>
     independent_review \<times> nat option \<times> repair_state" where
  "apply_event ev st =
     (case st of (r, index, state) \<Rightarrow>
      (case ev of
         EventProgress p \<Rightarrow>
           let r' = r\<lparr>rv_assessments := rv_assessments p, rv_issues := rv_issues p,
                      rv_hold_assessments := rv_hold_assessments p\<rparr> in
           (case publish_review r' index state of (state', index') \<Rightarrow> (r', index', state'))
       | EventBefore rid \<Rightarrow>
           let state1 = state\<lparr>rs_review_count := rs_review_count state + 1,
                 rs_usage := (rs_usage state)\<lparr>us_turns := us_turns (rs_usage state) + 1\<rparr>,
                 rs_request_pending := True, rs_request_id := rid, rs_request_kind := ''review''\<rparr> in
           (case publish_review r index state1 of (state', index') \<Rightarrow> (r, index', state'))
       | EventAfter u unknown \<Rightarrow>
           let v = rs_usage state;
               v' = v\<lparr>us_turns := us_turns v + max 0 (us_turns u - 1),
                  us_input_tokens := us_input_tokens v + us_input_tokens u,
                  us_cached_tokens := us_cached_tokens v + us_cached_tokens u,
                  us_output_tokens := us_output_tokens v + us_output_tokens u,
                  us_cost_usd := us_cost_usd v + us_cost_usd u,
                  us_uncertain := us_uncertain v \<or> unknown \<or> us_uncertain u\<rparr>;
               state1 = state\<lparr>rs_usage := v', rs_request_pending := unknown\<rparr>;
               r' = r\<lparr>rv_usage := add_review_usage (rv_usage r) u\<rparr> in
           (case publish_review r' index state1 of (state', index') \<Rightarrow> (r', index', state'))))"

fun run_review_events ::
  "repair_env \<Rightarrow> review_event list \<Rightarrow> independent_review \<times> nat option \<times> repair_state \<Rightarrow>
     (independent_review \<times> nat option \<times> repair_state) \<times> bool" where
  "run_review_events env [] st = (st, True)"
| "run_review_events env (ev # evs) st =
     (case apply_event ev st of (r, index, state) \<Rightarrow>
      (case persist env state of (state', ok) \<Rightarrow>
         if ok then run_review_events env evs (r, index, state') else ((r, index, state'), False)))"

definition review_input_of ::
  "repair_env \<Rightarrow> review_service \<Rightarrow> candidate_record \<Rightarrow> review_rule list \<Rightarrow> review_hold list \<Rightarrow> string \<Rightarrow>
     repair_state \<Rightarrow> review_input" where
  "review_input_of env sv c rules holds after state =
     \<lparr>vi_file = sv_file sv, vi_before = en_content env, vi_after = after, vi_base_hash = en_base_hash env,
      vi_candidate_hash = cv_candidate_hash (ca_result c), vi_rules = rules, vi_holds = holds,
      vi_diagnostics = sv_diagnostics sv, vi_usage = rs_usage state, vi_turn_baseline = sv_turn_baseline sv,
      vi_prior = ca_review c\<rparr>"

definition new_review :: "repair_env \<Rightarrow> review_service \<Rightarrow> candidate_record \<Rightarrow> repair_plan \<Rightarrow> string \<Rightarrow> independent_review" where
  "new_review env sv c plan rid =
     \<lparr>rv_id = rid, rv_candidate_id = cv_candidate_id (ca_result c), rv_base_hash = en_base_hash env,
      rv_candidate_hash = cv_candidate_hash (ca_result c), rv_plan_revision = rp_revision plan,
      rv_verdict = V_running, rv_summary = [], rv_assessments = [], rv_issues = [],
      rv_hold_assessments = [], rv_usage = no_usage, rv_started_at = sv_started sv, rv_finished_at = []\<rparr>"

definition finished_review ::
  "string \<Rightarrow> independent_review \<Rightarrow> (string, independent_review) outcome \<Rightarrow> independent_review" where
  "finished_review finished r result =
     (case result of
        Inl e \<Rightarrow> r\<lparr>rv_finished_at := finished, rv_verdict := V_error, rv_summary := bounded e 4096\<rparr>
      | Inr x \<Rightarrow> r\<lparr>rv_finished_at := finished, rv_verdict := rv_verdict x, rv_summary := rv_summary x,
                   rv_assessments := rv_assessments x, rv_issues := rv_issues x,
                   rv_hold_assessments := rv_hold_assessments x\<rparr>)"

text \<open>\<open>reviewFinal\<close> from the request of a new review on.\<close>

definition run_review ::
  "repair_env \<Rightarrow> review_service \<Rightarrow> proposal \<Rightarrow> candidate_record \<Rightarrow> review_rule list \<Rightarrow> review_hold list \<Rightarrow>
     string \<Rightarrow> repair_state \<Rightarrow> repair_state \<times> (gate_error, proposal \<times> bool) outcome" where
  "run_review env sv final c0 rules holds after state0 =
     (let c = c0\<lparr>ca_review_requested := True, ca_review_note := pr_note final\<rparr> in
      case persist env (state0\<lparr>rs_last_candidate := Some c\<rparr>) of (state, ok) \<Rightarrow>
      if \<not> ok then (state, Inl GateSave)
      else (case sv_review_id sv of
        None \<Rightarrow> (state, Inl GateNoId)
      | Some rid \<Rightarrow>
          (case sv_reviewer sv (review_input_of env sv c rules holds after state) of (events, answer) \<Rightarrow>
          (case run_review_events env events (new_review env sv c (rs_plan state) rid, None, state) of
            ((r, index, state1), saved) \<Rightarrow>
             let result = (if \<not> saved then Inl (sv_save_error sv)
                   else (case answer of
                           Inl e \<Rightarrow> Inl e
                         | Inr x \<Rightarrow> if rv_base_hash x \<noteq> rv_base_hash r \<or> rv_candidate_hash x \<noteq> rv_candidate_hash r
                                   then Inl (sv_mismatch_error sv) else Inr x)) in
             (case publish_review (finished_review (sv_finished sv) r result) index state1 of (state2, _) \<Rightarrow>
             (case persist env state2 of (state3, ok3) \<Rightarrow>
                (case result of
                   Inl e \<Rightarrow> (state3, Inl (if ok3 then GateReview e else GateSave))
                 | Inr x \<Rightarrow>
                     if \<not> ok3 then (state3, Inl GateSave)
                     else (state3, (case rs_last_candidate state3 of
                        None \<Rightarrow> Inl GateMismatch
                      | Some c3 \<Rightarrow> reviewed_outcome final c3 (rs_plan state3) (en_content env))))))))))"

definition review_current :: "repair_env \<Rightarrow> proposal \<Rightarrow> repair_plan \<Rightarrow> candidate_record \<Rightarrow> bool" where
  "review_current env final plan c \<longleftrightarrow>
     (ca_no_change c \<or> cv_attribution_version (ca_result c) = line_attribution_version) \<and>
     ca_no_change c = (pr_outcome final = O_skipped) \<and> cv_passed (ca_result c) \<and>
     cv_candidate_id (ca_result c) = pr_candidate_id final \<and>
     cr_plan_revision (ca_request c) = rp_revision plan \<and> cv_plan_revision (ca_result c) = rp_revision plan \<and>
     cr_base_hash (ca_request c) = en_base_hash env"

definition review_candidate ::
  "repair_env \<Rightarrow> review_service \<Rightarrow> rule list \<Rightarrow> proposal \<Rightarrow> repair_state \<Rightarrow>
     repair_state \<times> (gate_error, proposal \<times> bool) outcome" where
  "review_candidate env sv rules final state =
     (case rs_last_candidate state of
        None \<Rightarrow> (state, Inl GateStale)
      | Some c \<Rightarrow>
          if \<not> review_current env final (rs_plan state) c then (state, Inl GateStale)
          else (case candidate_holds (rs_plan state) of
            Inl e \<Rightarrow> (state, Inl (GateHolds e))
          | Inr holds \<Rightarrow>
          (case (if ca_no_change c then None
                 else check_candidate_holds (rs_plan state) (ca_request c) (en_content env)) of
            Some e \<Rightarrow> (state, Inl (GateHolds e))
          | None \<Rightarrow>
              if (case ca_review c of None \<Rightarrow> False
                  | Some r \<Rightarrow> rv_verdict r \<noteq> V_running \<and> rv_verdict r \<noteq> V_error)
              then (state, reviewed_outcome final c (rs_plan state) (en_content env))
              else (case (if ca_no_change c then Inr (en_content env)
                          else review_candidate_text (en_content env) (cr_edits (ca_request c))) of
                Inl e \<Rightarrow> (state, Inl (GateEdits e))
              | Inr after \<Rightarrow>
              (case review_rules env rules (rs_plan state) of
                Inl e \<Rightarrow> (state, Inl e)
              | Inr rows \<Rightarrow> run_review env sv final c rows holds after state)))))"

definition review_final ::
  "repair_env \<Rightarrow> review_service \<Rightarrow> rule list \<Rightarrow> proposal \<Rightarrow> repair_state \<Rightarrow>
     repair_state \<times> (gate_error, proposal \<times> bool) outcome" where
  "review_final env sv rules final state =
     (if pr_outcome final \<noteq> O_modified \<and> pr_outcome final \<noteq> O_skipped then (state, Inr (final, True))
      else if pr_outcome final = O_skipped then
        (case no_change_plan (rs_plan state) rules of
           Some e \<Rightarrow> (state, Inl e)
         | None \<Rightarrow>
             if current_no_change_candidate (rs_last_candidate state) (rs_plan state) (en_base_hash env)
             then review_candidate env sv rules
               (final\<lparr>pr_candidate_id := cv_candidate_id (ca_result (the (rs_last_candidate state)))\<rparr>) state
             else (case sv_candidate_id sv of
               None \<Rightarrow> (state, Inl GateNoId)
             | Some cid \<Rightarrow> review_candidate env sv rules (final\<lparr>pr_candidate_id := cid\<rparr>)
                 (state\<lparr>rs_last_candidate :=
                    Some (new_no_change_candidate (rs_plan state) (en_base_hash env) cid)\<rparr>)))
      else review_candidate env sv rules final state)"

subsection \<open>The adoption gate of the engine\<close>

fun assessed_rules :: "bool \<Rightarrow> rule_id set \<Rightarrow> review_assessment list \<Rightarrow> rule_id set option" where
  "assessed_rules partial assessed [] = Some assessed"
| "assessed_rules partial assessed (a # as) =
     (if ra_rule_id a = [] \<or> ra_rule_id a \<in> assessed \<or> blank (ra_reason a) \<or>
         ra_status a \<noteq> A_satisfied \<and> ra_status a \<noteq> A_not_applicable \<and>
         \<not> (partial \<and> ra_status a = A_needs_human)
      then None
      else assessed_rules partial (insert (ra_rule_id a) assessed) as)"

definition passed_independent_review ::
  "candidate_record option \<Rightarrow> string \<Rightarrow> string \<Rightarrow> repair_plan \<Rightarrow> bool" where
  "passed_independent_review candidate base_hash candidate_hash plan =
     (case candidate of
        None \<Rightarrow> False
      | Some c \<Rightarrow>
     (case ca_review c of
        None \<Rightarrow> False
      | Some r \<Rightarrow>
          if rv_id r = [] \<or> rv_finished_at r = [] \<or> rv_candidate_id r \<noteq> cv_candidate_id (ca_result c) \<or>
             rv_base_hash r \<noteq> base_hash \<or> rv_candidate_hash r \<noteq> candidate_hash \<or>
             rv_plan_revision r \<noteq> cr_plan_revision (ca_request c) \<or> rv_plan_revision r \<noteq> rp_revision plan
          then False
          else (case candidate_holds plan of
            Inl e \<Rightarrow> False
          | Inr holds \<Rightarrow>
              let partial = (holds \<noteq> []) in
              if partial \<and> (ca_no_change c \<or> rv_verdict r \<noteq> V_passed_with_holds \<or>
                   check_partial_review r plan \<noteq> None \<or> check_candidate_plan plan (ca_request c) \<noteq> None)
              then False
              else if \<not> partial \<and> (rv_verdict r \<noteq> V_passed \<or> rv_issues r \<noteq> [] \<or> rv_hold_assessments r \<noteq> [])
              then False
              else (case assessed_rules partial {} (rv_assessments r) of
                None \<Rightarrow> False
              | Some assessed \<Rightarrow>
                  rp_decisions plan \<noteq> [] \<and> pd_rule_id ` set (rp_decisions plan) \<subseteq> assessed))))"

fun unchanged_decisions :: "rule_id set \<Rightarrow> plan_decision list \<Rightarrow> rule_id set option" where
  "unchanged_decisions seen [] = Some seen"
| "unchanged_decisions seen (d # ds) =
     (if pd_rule_id d = [] \<or> pd_rule_id d \<in> seen \<or> pd_decision d \<noteq> D_no_change \<or> blank (pd_reason d)
      then None else unchanged_decisions (insert (pd_rule_id d) seen) ds)"

definition passed_no_change_review :: "candidate_record option \<Rightarrow> string \<Rightarrow> repair_plan \<Rightarrow> bool" where
  "passed_no_change_review candidate base_hash plan =
     (case candidate of
        None \<Rightarrow> False
      | Some c \<Rightarrow>
          if \<not> ca_no_change c \<or> \<not> cv_passed (ca_result c) \<or> cv_candidate_id (ca_result c) = [] \<or> base_hash = [] \<or>
             rp_revision plan < 1 \<or> cr_edits (ca_request c) \<noteq> [] \<or> cr_addressed_item_ids (ca_request c) \<noteq> [] \<or>
             rp_items plan \<noteq> [] \<or> cr_base_hash (ca_request c) \<noteq> base_hash \<or>
             cv_candidate_hash (ca_result c) \<noteq> base_hash \<or> cv_plan_revision (ca_result c) \<noteq> rp_revision plan
          then False
          else (case unchanged_decisions {} (rp_decisions plan) of
            None \<Rightarrow> False
          | Some seen \<Rightarrow>
              (case ca_review c of
                 None \<Rightarrow> False
               | Some r \<Rightarrow> length (rv_assessments r) = card seen \<and>
                   passed_independent_review candidate base_hash base_hash plan)))"

subsection \<open>The run of a review leaves the plan and the candidate in place\<close>

text \<open>
  While a review runs, only the review of the candidate, the list of reviews and the accounting
  change; the record keeps the identity it was created with.
\<close>

definition same_identity :: "independent_review \<Rightarrow> independent_review \<Rightarrow> bool" where
  "same_identity r r0 \<longleftrightarrow> rv_id r = rv_id r0 \<and> rv_candidate_id r = rv_candidate_id r0 \<and>
     rv_base_hash r = rv_base_hash r0 \<and> rv_candidate_hash r = rv_candidate_hash r0 \<and>
     rv_plan_revision r = rv_plan_revision r0"

definition reviewing ::
  "candidate_record \<Rightarrow> repair_plan \<Rightarrow> independent_review \<Rightarrow> independent_review \<times> nat option \<times> repair_state \<Rightarrow> bool" where
  "reviewing c plan r0 st \<longleftrightarrow> (case st of (r, index, state) \<Rightarrow>
     same_identity r r0 \<and> rs_plan state = plan \<and>
     (\<exists>v. rs_last_candidate state = Some (c\<lparr>ca_review := v\<rparr>)))"

lemma publish_review_reviewing:
  assumes "reviewing c plan r0 (r, index, state)" "same_identity r' r0" "publish_review r' index' state = (state', i)"
  shows "reviewing c plan r0 (r', i, state')" "rs_last_candidate state' = Some (c\<lparr>ca_review := Some r'\<rparr>)"
proof -
  have "rs_plan state' = rs_plan state"
    "rs_last_candidate state' = map_option (\<lambda>c. c\<lparr>ca_review := Some r'\<rparr>) (rs_last_candidate state)"
    using assms(3) by (auto simp: publish_review_def Let_def split: option.splits)
  then show "rs_last_candidate state' = Some (c\<lparr>ca_review := Some r'\<rparr>)" "reviewing c plan r0 (r', i, state')"
    using assms(1,2) by (auto simp: reviewing_def)
qed

lemma apply_event_reviewing:
  assumes "reviewing c plan r0 st"
  shows "reviewing c plan r0 (apply_event ev st)"
proof -
  obtain r index state where st: "st = (r, index, state)" by (cases st)
  have id: "same_identity r r0" using assms by (simp add: st reviewing_def)
  have keep: "reviewing c plan r0 (r, index, state\<lparr>rs_usage := u, rs_request_pending := b\<rparr>)"
    "reviewing c plan r0 (r, index, state\<lparr>rs_review_count := n, rs_usage := u, rs_request_pending := b,
       rs_request_id := i, rs_request_kind := k\<rparr>)" for u b n i k
    using assms by (auto simp: st reviewing_def)
  show ?thesis
    using publish_review_reviewing(1) [OF keep(1)] publish_review_reviewing(1) [OF keep(2)]
      publish_review_reviewing(1) [OF assms [unfolded st]] id
    by (cases ev) (auto simp: st apply_event_def Let_def same_identity_def split: prod.splits)
qed

lemma persist_reviewing:
  assumes "reviewing c plan r0 (r, index, state)" "persist env state = (state', ok)"
  shows "reviewing c plan r0 (r', index', state') \<longleftrightarrow> same_identity r' r0"
proof -
  have "state' = fst (persist env state)" using assms(2) by simp
  then show ?thesis using assms(1) by (auto simp: reviewing_def)
qed

lemma run_review_events_reviewing:
  "reviewing c plan r0 st \<Longrightarrow> reviewing c plan r0 (fst (run_review_events env evs st))"
proof (induction evs arbitrary: st)
  case (Cons ev evs)
  obtain r index state where a: "apply_event ev st = (r, index, state)" by (cases "apply_event ev st")
  obtain state' ok where p: "persist env state = (state', ok)" by (meson surj_pair)
  have "reviewing c plan r0 (r, index, state)" using apply_event_reviewing [OF Cons.prems, of ev] a by simp
  moreover from this have "same_identity r r0" by (simp add: reviewing_def)
  ultimately have "reviewing c plan r0 (r, index, state')" using persist_reviewing [OF _ p] by blast
  then show ?case using Cons.IH a p by (cases ok) auto
qed simp

text \<open>A review that was run and decided: the record that was written, and its decision.\<close>

lemma run_review_decided:
  assumes "run_review env sv final c0 rules holds after s0 = (s, Inr d)"
  obtains c rid x events where
    "c = c0\<lparr>ca_review_requested := True, ca_review_note := pr_note final\<rparr>" "sv_review_id sv = Some rid"
    "sv_reviewer sv (review_input_of env sv c rules holds after
       (fst (persist env (s0\<lparr>rs_last_candidate := Some c\<rparr>)))) = (events, Inr x)"
    "\<exists>r. same_identity r (new_review env sv c (rs_plan s0) rid) \<and> rv_base_hash x = rv_base_hash r \<and>
       rv_candidate_hash x = rv_candidate_hash r \<and>
       rs_last_candidate s = Some (c\<lparr>ca_review := Some (finished_review (sv_finished sv) r (Inr x))\<rparr>) \<and>
       reviewed_outcome final (c\<lparr>ca_review := Some (finished_review (sv_finished sv) r (Inr x))\<rparr>)
         (rs_plan s) (en_content env) = Inr d"
    "rs_plan s = rs_plan s0"
proof -
  define c where "c = c0\<lparr>ca_review_requested := True, ca_review_note := pr_note final\<rparr>"
  obtain s1 ok where p1: "persist env (s0\<lparr>rs_last_candidate := Some c\<rparr>) = (s1, ok)" by (meson surj_pair)
  have s1: "s1 = fst (persist env (s0\<lparr>rs_last_candidate := Some c\<rparr>))" using p1 by simp
  then have plan1: "rs_plan s1 = rs_plan s0" "rs_last_candidate s1 = Some c" by simp_all
  obtain rid where rid: "sv_review_id sv = Some rid" and ok: ok
    using assms by (auto simp: run_review_def Let_def c_def [symmetric] p1 split: if_splits option.splits)
  obtain events answer where rv: "sv_reviewer sv (review_input_of env sv c rules holds after s1) = (events, answer)"
    by (meson surj_pair)
  let ?r0 = "new_review env sv c (rs_plan s1) rid"
  obtain r index s2 saved where ev: "run_review_events env events (?r0, None, s1) = ((r, index, s2), saved)"
    by (metis prod_cases3 surj_pair)
  have "reviewing c (rs_plan s0) ?r0 (?r0, None, s1)"
    using plan1 by (auto simp: reviewing_def same_identity_def intro!: exI [of _ "ca_review c"])
  from run_review_events_reviewing [OF this, of env events] ev
  have rev: "reviewing c (rs_plan s0) ?r0 (r, index, s2)" by simp
  define result where "result = (if \<not> saved then Inl (sv_save_error sv)
       else (case answer of
               Inl e \<Rightarrow> Inl e
             | Inr x \<Rightarrow> if rv_base_hash x \<noteq> rv_base_hash r \<or> rv_candidate_hash x \<noteq> rv_candidate_hash r
                       then Inl (sv_mismatch_error sv) else Inr x))"
  let ?f = "finished_review (sv_finished sv) r result"
  obtain s3 i where pub: "publish_review ?f index s2 = (s3, i)" by (meson surj_pair)
  obtain s4 ok4 where p4: "persist env s3 = (s4, ok4)" by (meson surj_pair)
  have "same_identity ?f ?r0"
    using rev by (auto simp: reviewing_def same_identity_def finished_review_def split: sum.splits)
  from publish_review_reviewing [OF rev this pub]
  have r3: "reviewing c (rs_plan s0) ?r0 (?f, i, s3)" "rs_last_candidate s3 = Some (c\<lparr>ca_review := Some ?f\<rparr>)" .
  have "s4 = fst (persist env s3)" using p4 by simp
  then have s4: "rs_plan s4 = rs_plan s0" "rs_last_candidate s4 = Some (c\<lparr>ca_review := Some ?f\<rparr>)"
    using r3 by (simp_all add: reviewing_def)
  have run: "run_review env sv final c0 rules holds after s0 =
      (s4, (case result of
              Inl e \<Rightarrow> Inl (if ok4 then GateReview e else GateSave)
            | Inr x \<Rightarrow> if \<not> ok4 then Inl GateSave
                else reviewed_outcome final (c\<lparr>ca_review := Some ?f\<rparr>) (rs_plan s4) (en_content env)))"
    using ok by (simp add: run_review_def Let_def c_def [symmetric] p1 rid rv ev result_def [symmetric] pub p4 s4(2)
        split: sum.split)
  then obtain x where x: "result = Inr x"
      "reviewed_outcome final (c\<lparr>ca_review := Some ?f\<rparr>) (rs_plan s4) (en_content env) = Inr d" "s = s4"
    using assms by (auto split: sum.splits if_splits)
  then have "answer = Inr x" "rv_base_hash x = rv_base_hash r" "rv_candidate_hash x = rv_candidate_hash r"
    by (auto simp: result_def split: if_splits sum.splits)
  moreover have "same_identity r (new_review env sv c (rs_plan s0) rid)"
    using rev plan1 by (simp add: reviewing_def)
  ultimately show thesis
    using that [OF c_def rid] rv s1 s4 x by metis
qed

subsection \<open>What the gate lets through\<close>

definition approved :: "candidate_record \<Rightarrow> repair_plan \<Rightarrow> independent_review \<Rightarrow> bool" where
  "approved c plan r \<longleftrightarrow> review_matches c r \<and>
     (rv_verdict r = V_passed \<and> candidate_holds plan = Inr [] \<or>
      rv_verdict r = V_passed_with_holds \<and> \<not> ca_no_change c \<and> check_partial_review r plan = None)"

lemma reviewed_outcome_accepts:
  assumes "reviewed_outcome final c plan original = Inr (p, True)" "pr_outcome p \<noteq> O_needs_human"
  obtains r where "ca_review c = Some r" "approved c plan r" "p = final"
proof -
  obtain r where r: "ca_review c = Some r" "review_matches c r"
    using assms(1) by (auto simp: reviewed_outcome_def split: option.splits if_splits)
  have "approved c plan r \<and> p = final"
    using assms r by (cases "rv_verdict r") (auto simp: reviewed_outcome_def approved_def split: if_splits option.splits)
  then show thesis using that r(1) by blast
qed

definition fresh_review :: "candidate_record \<Rightarrow> bool" where
  "fresh_review c \<longleftrightarrow> (case ca_review c of None \<Rightarrow> True | Some r \<Rightarrow> rv_verdict r = V_running \<or> rv_verdict r = V_error)"

text \<open>Acceptance of a candidate: either its finished review is read, or a new one is run.\<close>

lemma review_candidate_decided:
  assumes "review_candidate env sv rules final s0 = (s, Inr d)"
  obtains c where "rs_last_candidate s0 = Some c" "review_current env final (rs_plan s0) c"
    "\<not> fresh_review c \<and> s = s0 \<and> reviewed_outcome final c (rs_plan s0) (en_content env) = Inr d \<or>
     fresh_review c \<and> (\<exists>rows holds after. candidate_holds (rs_plan s0) = Inr holds \<and>
       review_rules env rules (rs_plan s0) = Inr rows \<and>
       run_review env sv final c rows holds after s0 = (s, Inr d))"
proof -
  obtain c where c: "rs_last_candidate s0 = Some c" "review_current env final (rs_plan s0) c"
    using assms by (auto simp: review_candidate_def split: option.splits if_splits)
  obtain holds where h: "candidate_holds (rs_plan s0) = Inr holds"
    using assms c by (auto simp: review_candidate_def split: sum.splits)
  have n: "(if ca_no_change c then None else check_candidate_holds (rs_plan s0) (ca_request c) (en_content env)) = None"
    using assms c h by (cases "if ca_no_change c then None
        else check_candidate_holds (rs_plan s0) (ca_request c) (en_content env)") (auto simp: review_candidate_def)
  have "(case ca_review c of None \<Rightarrow> False | Some r \<Rightarrow> rv_verdict r \<noteq> V_running \<and> rv_verdict r \<noteq> V_error)
      \<longleftrightarrow> \<not> fresh_review c" by (simp add: fresh_review_def split: option.split)
  note step = assms [unfolded review_candidate_def c(1) option.case h sum.case n this]
  show thesis
  proof (cases "fresh_review c")
    case False
    then have "s = s0" "reviewed_outcome final c (rs_plan s0) (en_content env) = Inr d"
      using step c(2) by auto
    then show ?thesis using that [OF c] False by blast
  next
    case True
    then have "\<exists>rows after. review_rules env rules (rs_plan s0) = Inr rows \<and>
        run_review env sv final c rows holds after s0 = (s, Inr d)"
      using step c(2) by (auto split: sum.splits)
    then show ?thesis using that [OF c] True h by blast
  qed
qed

lemma review_candidate_accepts:
  assumes "review_candidate env sv rules final s0 = (s, Inr (p, True))" "pr_outcome p \<noteq> O_needs_human"
  obtains c r where "rs_last_candidate s = Some c" "ca_review c = Some r" "approved c (rs_plan s) r"
    "review_current env final (rs_plan s) c" "p = final" "rs_plan s = rs_plan s0"
proof -
  obtain c where c: "rs_last_candidate s0 = Some c" "review_current env final (rs_plan s0) c"
    "\<not> fresh_review c \<and> s = s0 \<and> reviewed_outcome final c (rs_plan s0) (en_content env) = Inr (p, True) \<or>
     fresh_review c \<and> (\<exists>rows holds after. candidate_holds (rs_plan s0) = Inr holds \<and>
       review_rules env rules (rs_plan s0) = Inr rows \<and>
       run_review env sv final c rows holds after s0 = (s, Inr (p, True)))"
    using review_candidate_decided [OF assms(1)] .
  from c(3) show thesis
  proof (elim disjE conjE exE)
    assume a: "s = s0" "reviewed_outcome final c (rs_plan s0) (en_content env) = Inr (p, True)"
    from reviewed_outcome_accepts [OF a(2) assms(2)] show thesis using that c a(1) by metis
  next
    fix rows holds after
    assume rr: "run_review env sv final c rows holds after s0 = (s, Inr (p, True))"
    obtain c0 :: candidate_record and r where r: "c0 = c\<lparr>ca_review_requested := True, ca_review_note := pr_note final\<rparr>"
        "rs_last_candidate s = Some (c0\<lparr>ca_review := Some r\<rparr>)"
        "reviewed_outcome final (c0\<lparr>ca_review := Some r\<rparr>) (rs_plan s) (en_content env) = Inr (p, True)"
        "rs_plan s = rs_plan s0"
      by (rule run_review_decided [OF rr]) (elim exE conjE, rule that; assumption)
    define c1 where "c1 = c0\<lparr>ca_review := Some r\<rparr>"
    have c1: "c1 = c\<lparr>ca_review_requested := True, ca_review_note := pr_note final, ca_review := Some r\<rparr>"
        "rs_last_candidate s = Some c1" "reviewed_outcome final c1 (rs_plan s) (en_content env) = Inr (p, True)"
        "rs_plan s = rs_plan s0"
      using r by (simp_all add: c1_def)
    have "review_current env final (rs_plan s) c1" using c(2) c1(1,4) by (auto simp: review_current_def)
    with reviewed_outcome_accepts [OF c1(3) assms(2)] show thesis using that c1(2,4) by metis
  qed
qed

lemma review_final_cases:
  assumes "review_final env sv rules final s0 = (s, Inr (p, True))"
    "pr_outcome final = O_modified \<or> pr_outcome final = O_skipped"
  obtains final' s1 where "review_candidate env sv rules final' s1 = (s, Inr (p, True))"
    "pr_outcome final' = pr_outcome final" "final' = final\<lparr>pr_candidate_id := pr_candidate_id final'\<rparr>"
    "rs_plan s1 = rs_plan s0" "pr_outcome final = O_modified \<Longrightarrow> final' = final \<and> s1 = s0"
    "pr_outcome final = O_skipped \<Longrightarrow> no_change_plan (rs_plan s0) rules = None \<and>
       current_no_change_candidate (rs_last_candidate s1) (rs_plan s0) (en_base_hash env) \<or>
       pr_candidate_id final' = []"
    "s1 = s0 \<or> rs_last_candidate s1 =
       Some (new_no_change_candidate (rs_plan s0) (en_base_hash env) (pr_candidate_id final'))"
proof (cases "pr_outcome final = O_modified")
  case True
  then show thesis using that [of final s0] assms by (simp add: review_final_def)
next
  case False
  then have sk: "pr_outcome final = O_skipped" using assms(2) by simp
  then have np: "no_change_plan (rs_plan s0) rules = None"
    using assms(1) by (auto simp: review_final_def split: option.splits)
  show thesis
  proof (cases "current_no_change_candidate (rs_last_candidate s0) (rs_plan s0) (en_base_hash env)")
    case True
    then show ?thesis
      using that [of "final\<lparr>pr_candidate_id := cv_candidate_id (ca_result (the (rs_last_candidate s0)))\<rparr>" s0]
        assms(1) sk np by (simp add: review_final_def)
  next
    case False
    then obtain cid where cid: "review_candidate env sv rules (final\<lparr>pr_candidate_id := cid\<rparr>)
        (s0\<lparr>rs_last_candidate := Some (new_no_change_candidate (rs_plan s0) (en_base_hash env) cid)\<rparr>) =
        (s, Inr (p, True))"
      using assms(1) sk np by (auto simp: review_final_def split: option.splits)
    have "current_no_change_candidate (Some (new_no_change_candidate (rs_plan s0) (en_base_hash env) cid))
        (rs_plan s0) (en_base_hash env) \<or> cid = []"
      by (simp add: current_no_change_candidate_def new_no_change_candidate_def)
    then show ?thesis using that [OF cid] sk np by simp
  qed
qed

subsection \<open>The rules a review is given\<close>

lemma review_rules_loop_Inr:
  assumes "review_rules_loop read_rule wanted rules = Inr (rows, missing)"
  shows "distinct (map rr_id rows)" "rr_id ` set rows = wanted \<inter> ru_id ` set rules"
    "missing = wanted - ru_id ` set rules"
proof -
  have "distinct (map rr_id rows) \<and> rr_id ` set rows = wanted \<inter> ru_id ` set rules \<and>
      missing = wanted - ru_id ` set rules"
    using assms
  proof (induction rules arbitrary: wanted rows missing)
    case (Cons r rs)
    show ?case
    proof (cases "ru_id r \<in> wanted")
      case False
      then show ?thesis using Cons by auto
    next
      case True
      then obtain body rows' where b: "review_rules_loop read_rule (wanted - {ru_id r}) rs = Inr (rows', missing)"
          "rows = \<lparr>rr_id = ru_id r, rr_title = ru_title r, rr_body = body, rr_always = ru_always r\<rparr> # rows'"
        using Cons.prems by (auto split: option.splits sum.splits)
      from Cons.IH [OF b(1)] b(2) True show ?thesis by auto
    qed
  qed auto
  then show "distinct (map rr_id rows)" "rr_id ` set rows = wanted \<inter> ru_id ` set rules"
    "missing = wanted - ru_id ` set rules" by simp_all
qed

lemma review_rules_Inr:
  assumes "review_rules env rules plan = Inr rows"
  shows "distinct (map rr_id rows)" "rows \<noteq> []" "rr_id ` set rows \<subseteq> ru_id ` set rules"
    "pd_rule_id ` set (rp_decisions plan) \<subseteq> rr_id ` set rows"
    "set (en_candidate_rules env) \<subseteq> rr_id ` set rows"
    "\<And>r. r \<in> set rules \<Longrightarrow> ru_always r \<Longrightarrow> ru_id r \<in> rr_id ` set rows"
proof -
  let ?w = "wanted_rules (en_candidate_rules env) rules plan"
  have l: "review_rules_loop (en_read_rule env) ?w rules = Inr (rows, {})" "rows \<noteq> []"
    using assms by (auto simp: review_rules_def split: sum.splits if_splits)
  note loop = review_rules_loop_Inr [OF l(1)]
  have rows: "rr_id ` set rows = ?w" "?w \<subseteq> ru_id ` set rules" using loop(2,3) by auto
  show "distinct (map rr_id rows)" by (rule loop(1))
  show "rows \<noteq> []" by (rule l(2))
  show "rr_id ` set rows \<subseteq> ru_id ` set rules" using rows by simp
  show "pd_rule_id ` set (rp_decisions plan) \<subseteq> rr_id ` set rows"
    "set (en_candidate_rules env) \<subseteq> rr_id ` set rows"
    "\<And>r. r \<in> set rules \<Longrightarrow> ru_always r \<Longrightarrow> ru_id r \<in> rr_id ` set rows"
    unfolding rows(1) by (auto simp: wanted_rules_def)
qed

lemma no_change_decisions_Some:
  "no_change_decisions wanted ds = Some w \<Longrightarrow>
     distinct (map pd_rule_id ds) \<and> pd_rule_id ` set ds \<subseteq> wanted \<and> w = wanted - pd_rule_id ` set ds \<and>
     (\<forall>d \<in> set ds. pd_decision d = D_no_change \<and> \<not> blank (pd_reason d))"
proof (induction ds arbitrary: wanted)
  case (Cons d ds)
  then have "no_change_decisions (wanted - {pd_rule_id d}) ds = Some w" by (simp split: if_splits)
  from Cons.IH [OF this] Cons.prems show ?case by (auto split: if_splits)
qed auto

lemma unchanged_decisions_eq:
  "distinct (map pd_rule_id ds) \<Longrightarrow> pd_rule_id ` set ds \<inter> seen = {} \<Longrightarrow> [] \<notin> pd_rule_id ` set ds \<Longrightarrow>
     (\<forall>d \<in> set ds. pd_decision d = D_no_change \<and> \<not> blank (pd_reason d)) \<Longrightarrow>
     unchanged_decisions seen ds = Some (seen \<union> pd_rule_id ` set ds)"
  by (induction ds arbitrary: seen) auto

lemma no_change_plan_None:
  assumes "no_change_plan plan rules = None"
  shows "rp_revision plan \<ge> 1" "rp_items plan = []" "distinct (map pd_rule_id (rp_decisions plan))"
    "pd_rule_id ` set (rp_decisions plan) = ru_id ` set rules"
    "\<forall>d \<in> set (rp_decisions plan). pd_decision d = D_no_change \<and> \<not> blank (pd_reason d)"
proof -
  obtain w where "no_change_decisions (ru_id ` set rules) (rp_decisions plan) = Some w" "w = {}"
    and "rp_revision plan \<ge> 1" "rp_items plan = []"
    using assms by (auto simp: no_change_plan_def split: if_splits option.splits)
  with no_change_decisions_Some [OF this(1)] show "rp_revision plan \<ge> 1" "rp_items plan = []"
    "distinct (map pd_rule_id (rp_decisions plan))" "pd_rule_id ` set (rp_decisions plan) = ru_id ` set rules"
    "\<forall>d \<in> set (rp_decisions plan). pd_decision d = D_no_change \<and> \<not> blank (pd_reason d)" by auto
qed

lemma assessed_rules_eq:
  "distinct (map ra_rule_id as) \<Longrightarrow> ra_rule_id ` set as \<inter> assessed = {} \<Longrightarrow>
   (\<And>a. a \<in> set as \<Longrightarrow> ra_rule_id a \<noteq> [] \<and> \<not> blank (ra_reason a) \<and>
      (ra_status a = A_satisfied \<or> ra_status a = A_not_applicable \<or> partial \<and> ra_status a = A_needs_human)) \<Longrightarrow>
   assessed_rules partial assessed as = Some (assessed \<union> ra_rule_id ` set as)"
proof (induction as arbitrary: assessed)
  case (Cons a as)
  have "assessed_rules partial (insert (ra_rule_id a) assessed) as =
      Some (insert (ra_rule_id a) assessed \<union> ra_rule_id ` set as)"
    using Cons.prems by (intro Cons.IH) auto
  then show ?case using Cons.prems(1,2) Cons.prems(3) [of a] by auto
qed simp

subsection \<open>From the gate to the adoption gate\<close>

text \<open>
  What a sound reviewer returns: an answer \<open>parseIndependentReview\<close> accepted for the input it was
  given, with the usage filled in. The built-in \<open>Review\<close> returns nothing else.
\<close>

definition sound_reviewer :: "(review_input \<Rightarrow> review_event list \<times> (string, independent_review) outcome) \<Rightarrow> bool" where
  "sound_reviewer reviewer \<longleftrightarrow>
     (\<forall>inp events x. reviewer inp = (events, Inr x) \<longrightarrow>
        (\<exists>answer y u. parse_independent_review answer inp = Inr y \<and> x = y\<lparr>rv_usage := u\<rparr>))"

lemma finished_fields [simp]:
  "rv_verdict (finished_review f r (Inr x)) = rv_verdict x" "rv_assessments (finished_review f r (Inr x)) = rv_assessments x"
  "rv_issues (finished_review f r (Inr x)) = rv_issues x"
  "rv_hold_assessments (finished_review f r (Inr x)) = rv_hold_assessments x"
  "rv_finished_at (finished_review f r (Inr x)) = f" "rv_id (finished_review f r (Inr x)) = rv_id r"
  "rv_base_hash (finished_review f r (Inr x)) = rv_base_hash r"
  "rv_candidate_hash (finished_review f r (Inr x)) = rv_candidate_hash r"
  "rv_candidate_id (finished_review f r (Inr x)) = rv_candidate_id r"
  "rv_plan_revision (finished_review f r (Inr x)) = rv_plan_revision r"
  by (simp_all add: finished_review_def)

lemma approved_is_passed:
  assumes parse: "parse_independent_review answer inp = Inr x"
    and rv: "rv_verdict r = rv_verdict x" "rv_assessments r = rv_assessments x" "rv_issues r = rv_issues x"
      "rv_hold_assessments r = rv_hold_assessments x"
    and rows: "distinct (map rr_id (vi_rules inp))" "[] \<notin> rr_id ` set (vi_rules inp)"
      "pd_rule_id ` set (rp_decisions plan) \<subseteq> rr_id ` set (vi_rules inp)" "rp_decisions plan \<noteq> []"
    and app: "approved c plan r" "ca_review c = Some r" "rv_finished_at r \<noteq> []"
      "cr_plan_revision (ca_request c) = rp_revision plan"
    and edits: "ca_no_change c \<or> check_candidate_plan plan (ca_request c) = None"
  shows "passed_independent_review (Some c) (cr_base_hash (ca_request c)) (cv_candidate_hash (ca_result c)) plan"
proof -
  note rules = accepted_rules [OF parse rows(1)]
  have ids: "\<not> (rv_id r = [] \<or> rv_finished_at r = [] \<or> rv_candidate_id r \<noteq> cv_candidate_id (ca_result c) \<or>
      rv_base_hash r \<noteq> cr_base_hash (ca_request c) \<or> rv_candidate_hash r \<noteq> cv_candidate_hash (ca_result c) \<or>
      rv_plan_revision r \<noteq> cr_plan_revision (ca_request c) \<or> rv_plan_revision r \<noteq> rp_revision plan)"
    using app by (simp add: approved_def review_matches_def)
  have nonempty: "ra_rule_id a \<noteq> []" if "a \<in> set (rv_assessments x)" for a
    using that rules(2) rows(2) by (metis imageI)
  obtain holds where h: "candidate_holds plan = Inr holds"
    and status: "\<And>a. a \<in> set (rv_assessments x) \<Longrightarrow> ra_status a = A_satisfied \<or> ra_status a = A_not_applicable \<or>
       holds \<noteq> [] \<and> ra_status a = A_needs_human"
    and gates: "\<not> (holds \<noteq> [] \<and> (ca_no_change c \<or> rv_verdict r \<noteq> V_passed_with_holds \<or>
         check_partial_review r plan \<noteq> None \<or> check_candidate_plan plan (ca_request c) \<noteq> None))"
      "\<not> (\<not> holds \<noteq> [] \<and> (rv_verdict r \<noteq> V_passed \<or> rv_issues r \<noteq> [] \<or> rv_hold_assessments r \<noteq> []))"
  proof (cases "rv_verdict r = V_passed")
    case True
    then have "rv_verdict x = V_passed" "candidate_holds plan = Inr []"
      using app(1) rv(1) by (auto simp: approved_def)
    with passed_review_clean [OF parse this(1) rows(1)] True show ?thesis using that [of "[]"] rv by auto
  next
    case False
    then have p: "rv_verdict r = V_passed_with_holds" "\<not> ca_no_change c" "check_partial_review r plan = None"
      using app(1) by (auto simp: approved_def)
    then obtain holds where h: "candidate_holds plan = Inr holds" "check_review_hold_approval r holds = None"
      by (auto simp: check_partial_review_def split: sum.splits if_splits)
    note hp = h(2) [unfolded check_review_hold_approval_None]
    have "ra_status a = A_satisfied \<or> ra_status a = A_not_applicable \<or> holds \<noteq> [] \<and> ra_status a = A_needs_human"
      if "a \<in> set (rv_assessments x)" for a
      using hp that rv(2) by (auto simp: settled_def split: if_splits)
    moreover have "holds \<noteq> []" using hp by blast
    ultimately show ?thesis using that [OF h(1)] p edits by auto
  qed
  have "assessed_rules (holds \<noteq> []) {} (rv_assessments r) = Some ({} \<union> ra_rule_id ` set (rv_assessments r))"
    unfolding rv(2) using rules(1,3) nonempty status by (intro assessed_rules_eq) auto
  then have "assessed_rules (holds \<noteq> []) {} (rv_assessments r) = Some (rr_id ` set (vi_rules inp))"
    using rules(2) rv(2) by simp
  then show ?thesis
    unfolding passed_independent_review_def option.case app(2) h sum.case Let_def
    using ids gates rows(3,4) by simp
qed

subsection \<open>The two gates together\<close>

definition candidate_list :: "repair_state \<Rightarrow> candidate_record list" where
  "candidate_list s = (case rs_last_candidate s of None \<Rightarrow> [] | Some c \<Rightarrow> [c])"

text \<open>
  One finished run of the gate over a reviewer that returns only accepted answers: the candidate the
  review started from, the rules it was given, and the record that now passes the engine's check.
\<close>

lemma reviewed_candidate_passes:
  assumes gate: "review_candidate env sv rules final s0 = (s, Inr (p, True))"
    and human: "pr_outcome p \<noteq> O_needs_human"
    and sound: "sound_reviewer (sv_reviewer sv)"
    and start: "rs_last_candidate s0 = Some c0" "fresh_review c0"
    and ids: "[] \<notin> ru_id ` set rules" "sv_finished sv \<noteq> []" "rp_decisions (rs_plan s0) \<noteq> []"
    and edits: "ca_no_change c0 \<or> check_candidate_plan (rs_plan s0) (ca_request c0) = None"
  obtains c r rows where "rs_last_candidate s = Some c" "ca_review c = Some r"
    "ca_request c = ca_request c0" "ca_result c = ca_result c0" "ca_no_change c = ca_no_change c0"
    "review_rules env rules (rs_plan s0) = Inr rows" "length (rv_assessments r) = length rows"
    "passed_independent_review (Some c) (en_base_hash env) (cv_candidate_hash (ca_result c)) (rs_plan s)"
    "rs_plan s = rs_plan s0"
proof -
  obtain rows holds after where cur: "review_current env final (rs_plan s0) c0"
      and rows: "review_rules env rules (rs_plan s0) = Inr rows"
      and run: "run_review env sv final c0 rows holds after s0 = (s, Inr (p, True))"
    using review_candidate_decided [OF gate] start by (metis option.inject)
  obtain c1 :: candidate_record and rid x events r0 where
      c1: "c1 = c0\<lparr>ca_review_requested := True, ca_review_note := pr_note final\<rparr>"
    and rv: "sv_reviewer sv (review_input_of env sv c1 rows holds after
         (fst (persist env (s0\<lparr>rs_last_candidate := Some c1\<rparr>)))) = (events, Inr x)"
    and last: "rs_last_candidate s = Some (c1\<lparr>ca_review := Some (finished_review (sv_finished sv) r0 (Inr x))\<rparr>)"
    and out: "reviewed_outcome final (c1\<lparr>ca_review := Some (finished_review (sv_finished sv) r0 (Inr x))\<rparr>)
         (rs_plan s) (en_content env) = Inr (p, True)"
    and plan: "rs_plan s = rs_plan s0"
    by (rule run_review_decided [OF run]) (elim exE conjE, rule that; assumption)
  define r where "r = finished_review (sv_finished sv) r0 (Inr x)"
  define c where "c = c1\<lparr>ca_review := Some r\<rparr>"
  have c: "ca_review c = Some r" "ca_request c = ca_request c0" "ca_result c = ca_result c0"
    "ca_no_change c = ca_no_change c0" by (simp_all add: c_def c1)
  have last: "rs_last_candidate s = Some c" using last by (simp add: c_def r_def)
  have app: "approved c (rs_plan s0) r"
    using reviewed_outcome_accepts [OF out human] plan c(1) unfolding r_def [symmetric] c_def [symmetric]
    by (metis option.inject)
  obtain answer y u where y: "parse_independent_review answer (review_input_of env sv c1 rows holds after
         (fst (persist env (s0\<lparr>rs_last_candidate := Some c1\<rparr>)))) = Inr y" "x = y\<lparr>rv_usage := u\<rparr>"
    using sound rv unfolding sound_reviewer_def by blast
  note rr = review_rules_Inr [OF rows]
  have inp: "vi_rules (review_input_of env sv c1 rows holds after
      (fst (persist env (s0\<lparr>rs_last_candidate := Some c1\<rparr>)))) = rows" by (simp add: review_input_of_def)
  have rev: "rv_verdict r = rv_verdict y" "rv_assessments r = rv_assessments y" "rv_issues r = rv_issues y"
      "rv_hold_assessments r = rv_hold_assessments y" "rv_finished_at r = sv_finished sv"
    by (simp_all add: r_def y(2))
  have "passed_independent_review (Some c) (cr_base_hash (ca_request c)) (cv_candidate_hash (ca_result c)) (rs_plan s0)"
  proof (rule approved_is_passed [OF y(1) rev(1-4)])
    show "rv_finished_at r \<noteq> []" "ca_review c = Some r" "approved c (rs_plan s0) r"
      "rp_decisions (rs_plan s0) \<noteq> []" using rev(5) ids c(1) app by simp_all
    show "cr_plan_revision (ca_request c) = rp_revision (rs_plan s0)"
      using cur by (simp add: review_current_def c(2))
    show "ca_no_change c \<or> check_candidate_plan (rs_plan s0) (ca_request c) = None"
      using edits by (simp add: c)
  qed (use rr(1,3,4) ids(1) in \<open>auto simp: inp\<close>)
  moreover have "cr_base_hash (ca_request c) = en_base_hash env" using cur by (simp add: review_current_def c(2))
  moreover have "length (rv_assessments y) = length rows"
    using parse_independent_review_Inr [OF y(1)] unfolding inp by blast
  ultimately show thesis using that last c rows rev(2) plan by metis
qed

text \<open>A finished skip: the unchanged file and a review of every rule of the plan.\<close>

lemma no_change_passes:
  assumes plan: "no_change_plan plan rules = None" "[] \<notin> ru_id ` set rules" "base_hash \<noteq> []"
    and cand: "current_no_change_candidate (Some c) plan base_hash" "ca_review c = Some r"
    and rows: "review_rules env rules plan = Inr rows" "length (rv_assessments r) = length rows"
    and passed: "passed_independent_review (Some c) base_hash (cv_candidate_hash (ca_result c)) plan"
  shows "passed_no_change_review (Some c) base_hash plan"
proof -
  note np = no_change_plan_None [OF plan(1)] and rr = review_rules_Inr [OF rows(1)]
  have "rr_id ` set rows = ru_id ` set rules" using rr(3,4) unfolding np(4) by (rule equalityI)
  then have "card (ru_id ` set rules) = length rows"
    using distinct_card [OF rr(1)] by simp
  moreover have "unchanged_decisions {} (rp_decisions plan) = Some (ru_id ` set rules)"
    using unchanged_decisions_eq [of "rp_decisions plan" "{}"] np(3-5) plan(2) by simp
  ultimately show ?thesis
    using cand np(1,2) rows(2) passed plan(3)
    by (simp add: passed_no_change_review_def current_no_change_candidate_def)
qed

subsection \<open>Properties\<close>

text \<open>
  C28. Nothing is returned as final without an approving review. When \<open>reviewFinal\<close> decides a
  modified or skipped answer and does not turn it into a question for a person, the last candidate
  carries a finished review made for exactly this candidate (same candidate ID, base hash, candidate
  hash and plan revision) whose verdict is \<open>passed\<close> for a plan without holds, or
  \<open>passed_with_holds\<close> with every hold and question accounted for; the candidate is the current one
  for the plan and the base, and the answer is the editor's own, naming that candidate. The plan is
  the one the editor left.
\<close>

theorem review_gate_approves:
  assumes "review_final env sv rules final s0 = (s, Inr (p, True))"
    "pr_outcome final = O_modified \<or> pr_outcome final = O_skipped" "pr_outcome p \<noteq> O_needs_human"
  shows "\<exists>c r. rs_last_candidate s = Some c \<and> ca_review c = Some r \<and> approved c (rs_plan s) r \<and>
    review_current env p (rs_plan s) c \<and>
    p = final\<lparr>pr_candidate_id := cv_candidate_id (ca_result c)\<rparr> \<and> rs_plan s = rs_plan s0"
proof -
  obtain final' s1 where f: "review_candidate env sv rules final' s1 = (s, Inr (p, True))"
    "final' = final\<lparr>pr_candidate_id := pr_candidate_id final'\<rparr>" "rs_plan s1 = rs_plan s0"
    by (rule review_final_cases [OF assms(1,2)]) (rule that; assumption)
  obtain c r where c: "rs_last_candidate s = Some c" "ca_review c = Some r" "approved c (rs_plan s) r"
    "review_current env final' (rs_plan s) c" "p = final'" "rs_plan s = rs_plan s1"
    by (rule review_candidate_accepts [OF f(1) assms(3)]) (rule that; assumption)
  have "cv_candidate_id (ca_result c) = pr_candidate_id final'" using c(4) by (simp add: review_current_def)
  with c f(2,3) show ?thesis by metis
qed

text \<open>
  C29. The gate implies the adoption check. When the reviewer only returns accepted answers, a fresh
  review that \<open>reviewFinal\<close> lets through satisfies what the engine checks again before it adopts the
  result: \<open>passedIndependentReview\<close> for a modified file, \<open>passedNoChangeReview\<close> for a skipped one. So
  no result the agent returns as reviewed is refused by the engine.
\<close>

theorem gate_implies_adoption:
  assumes "review_final env sv rules final s0 = (s, Inr (p, True))"
    "pr_outcome final = O_modified \<or> pr_outcome final = O_skipped" "pr_outcome p \<noteq> O_needs_human"
    and "sound_reviewer (sv_reviewer sv)" "list_all fresh_review (candidate_list s0)"
    and "[] \<notin> ru_id ` set rules" "sv_finished sv \<noteq> []" "en_base_hash env \<noteq> []" "pr_candidate_id p \<noteq> []"
    and "rp_decisions (rs_plan s0) \<noteq> []"
    and "list_all (\<lambda>c. ca_no_change c \<or> check_candidate_plan (rs_plan s0) (ca_request c) = None) (candidate_list s0)"
  shows "(if pr_outcome p = O_skipped
          then passed_no_change_review (rs_last_candidate s) (en_base_hash env) (rs_plan s)
          else passed_independent_review (rs_last_candidate s) (en_base_hash env)
                 (cv_candidate_hash (ca_result (the (rs_last_candidate s)))) (rs_plan s))"
proof -
  obtain final' s1 where f: "review_candidate env sv rules final' s1 = (s, Inr (p, True))"
    "pr_outcome final' = pr_outcome final" "rs_plan s1 = rs_plan s0"
    "pr_outcome final = O_skipped \<Longrightarrow> no_change_plan (rs_plan s0) rules = None \<and>
       current_no_change_candidate (rs_last_candidate s1) (rs_plan s0) (en_base_hash env) \<or>
       pr_candidate_id final' = []"
    "s1 = s0 \<or> rs_last_candidate s1 =
       Some (new_no_change_candidate (rs_plan s0) (en_base_hash env) (pr_candidate_id final'))"
    by (rule review_final_cases [OF assms(1,2)]) (rule that; assumption)
  have p: "p = final'" by (rule review_candidate_accepts [OF f(1) assms(3)])
  obtain c0 where c0: "rs_last_candidate s1 = Some c0"
    by (rule review_candidate_decided [OF f(1)])
  have start: "fresh_review c0 \<and> (ca_no_change c0 \<or> check_candidate_plan (rs_plan s1) (ca_request c0) = None)"
    using f(3,5) c0 assms(5,11)
    by (auto simp: fresh_review_def new_no_change_candidate_def candidate_list_def)
  have decisions: "rp_decisions (rs_plan s1) \<noteq> []" using assms(10) f(3) by simp
  obtain c r rows where c: "rs_last_candidate s = Some c" "ca_review c = Some r"
    "ca_request c = ca_request c0" "ca_result c = ca_result c0" "ca_no_change c = ca_no_change c0"
    "review_rules env rules (rs_plan s1) = Inr rows" "length (rv_assessments r) = length rows"
    "passed_independent_review (Some c) (en_base_hash env) (cv_candidate_hash (ca_result c)) (rs_plan s)"
    "rs_plan s = rs_plan s1"
    by (rule reviewed_candidate_passes [OF f(1) assms(3,4) c0 start [THEN conjunct1] assms(6,7) decisions
          start [THEN conjunct2]]) (rule that; assumption)
  show ?thesis
  proof (cases "pr_outcome p = O_skipped")
    case False
    then show ?thesis using c by simp
  next
    case True
    then have skip: "no_change_plan (rs_plan s) rules = None"
        "current_no_change_candidate (Some c0) (rs_plan s) (en_base_hash env)"
      using f(2,3,4) p assms(9) c0 c(9) by auto
    then have "current_no_change_candidate (Some c) (rs_plan s) (en_base_hash env)"
      by (simp add: current_no_change_candidate_def c)
    from no_change_passes [OF skip(1) assms(6,8) this c(2) _ c(7,8)] c(1,6,9) True show ?thesis by simp
  qed
qed

subsection \<open>A reviewed candidate\<close>

definition sample_gate_answer :: independent_review where
  "sample_gate_answer = parsed_review (sample_review\<lparr>rv_base_hash := ''h'', rv_candidate_hash := ''k'',
     rv_verdict := V_passed, rv_summary := ''s'',
     rv_assessments := [\<lparr>ra_rule_id = ''r1'', ra_status = A_satisfied, ra_reason = ''why''\<rparr>],
     rv_issues := [], rv_hold_assessments := []\<rparr>)"

definition sample_service :: review_service where
  "sample_service = \<lparr>sv_candidate_id = Some ''n'', sv_review_id = Some ''v'', sv_started = ''t0'',
     sv_finished = ''t1'', sv_file = ''a.go'', sv_diagnostics = [], sv_turn_baseline = 0,
     sv_reviewer = (\<lambda>inp. ([EventBefore ''q''],
        case parse_independent_review (Some sample_gate_answer) inp of Inl _ \<Rightarrow> Inl ''bad'' | Inr y \<Rightarrow> Inr y)),
     sv_save_error = ''save'', sv_mismatch_error = ''mismatch''\<rparr>"

definition sample_gate_final :: proposal where
  "sample_gate_final = \<lparr>pr_outcome = O_modified, pr_candidate_id = ''c'',
     pr_edits = [linked_edit ''a'' ''x''], pr_rules_applied = [''r1''], pr_note = ''did''\<rparr>"

definition sample_reviewed :: repair_state where
  "sample_reviewed = fst (review_final sample_env sample_service [sample_rule] sample_gate_final sample_validated)"

lemma sample_sound: "sound_reviewer (sv_reviewer sample_service)"
proof -
  have "\<exists>answer y u. parse_independent_review answer inp = Inr y \<and> x = y\<lparr>rv_usage := u\<rparr>"
    if "sv_reviewer sample_service inp = (events, Inr x)" for inp events x
  proof -
    have "parse_independent_review (Some sample_gate_answer) inp = Inr x"
      using that by (simp add: sample_service_def split: sum.splits)
    moreover have "x = x\<lparr>rv_usage := rv_usage x\<rparr>" by simp
    ultimately show ?thesis by blast
  qed
  then show ?thesis by (simp add: sound_reviewer_def)
qed

lemma sample_gate_run:
  "review_final sample_env sample_service [sample_rule] sample_gate_final sample_validated =
     (sample_reviewed, Inr (sample_gate_final, True))"
proof -
  have "snd (review_final sample_env sample_service [sample_rule] sample_gate_final sample_validated) =
     Inr (sample_gate_final, True)" by code_simp
  then show ?thesis by (simp add: sample_reviewed_def prod_eq_iff)
qed

lemma review_gate_approves_witness:
  "\<exists>c r. rs_last_candidate sample_reviewed = Some c \<and> ca_review c = Some r \<and>
     approved c (rs_plan sample_reviewed) r \<and> rs_review_count sample_reviewed = 1"
proof -
  have h: "pr_outcome sample_gate_final = O_modified \<or> pr_outcome sample_gate_final = O_skipped"
    "pr_outcome sample_gate_final \<noteq> O_needs_human" by (simp_all add: sample_gate_final_def)
  have "rs_review_count sample_reviewed = 1" by code_simp
  then show ?thesis using review_gate_approves [OF sample_gate_run h] by blast
qed

lemma gate_implies_adoption_witness:
  "passed_independent_review (rs_last_candidate sample_reviewed) ''h'' ''k'' (rs_plan sample_reviewed)"
proof -
  have h: "pr_outcome sample_gate_final = O_modified \<or> pr_outcome sample_gate_final = O_skipped"
    "pr_outcome sample_gate_final \<noteq> O_needs_human" "[] \<notin> ru_id ` set [sample_rule]"
    "sv_finished sample_service \<noteq> []" "en_base_hash sample_env \<noteq> []" "pr_candidate_id sample_gate_final \<noteq> []"
    by (simp_all add: sample_gate_final_def sample_rule_def sample_service_def sample_env_def)
  have c: "list_all fresh_review (candidate_list sample_validated)" "rp_decisions (rs_plan sample_validated) \<noteq> []"
    "list_all (\<lambda>c. ca_no_change c \<or>
       check_candidate_plan (rs_plan sample_validated) (ca_request c) = None) (candidate_list sample_validated)"
    by code_simp+
  have "cv_candidate_hash (ca_result (the (rs_last_candidate sample_reviewed))) = ''k''" by code_simp
  then show ?thesis
    using gate_implies_adoption [OF sample_gate_run h(1,2) sample_sound c(1) h(3-6) c(2,3)]
    by (simp add: sample_gate_final_def sample_env_def)
qed

end
