(* ===== verification/RepairLoop.thy ===== *)
theory RepairLoop
  imports ReviewGate
begin

section \<open>The repair loop\<close>

text \<open>
  \<open>Run\<close> of \<open>internal/agent/repair_loop.go\<close>, with \<open>addUsage\<close> of \<open>client.go\<close>: the checks and the
  restoration before the first request, one provider exchange per iteration, the tool calls of a
  response, and the accounting when it returns. The provider is outside the model: what it answers
  is a list of turns, each with its decoded response, and whether the conversation was rolled over
  because of its length. The conversation itself is not modelled: it is only sent, and everything
  the loop decides comes from the durable state.
\<close>

record response_usage =
  re_requests :: int
  re_uncertain :: bool
  re_input :: "int option"
  re_output :: "int option"
  re_cached :: int
  re_write5m :: int
  re_write1h :: int

record loop_service =
  lv_review :: review_service
  lv_reply_bytes :: "tool_result \<Rightarrow> int"
  lv_input_price :: rat
  lv_cached_price :: rat
  lv_output_price :: rat
  lv_usage_unknown :: "gate_error \<Rightarrow> bool"

record call =
  cl_id :: string
  cl_tool :: tool_call
  cl_cancelled :: bool

datatype completion = CompleteOk | CompleteContextLimit | CompleteOutputLimit | CompleteFailed

datatype llm_output =
    OutMalformed
  | OutRefused
  | OutDecoded "call list" "final_answer option"

datatype answer =
    AnsFailed (unknown_usage: bool) (context_limit: bool) (request_attempts: int)
  | AnsGot "response_usage option" completion llm_output

record turn =
  tu_cancelled :: bool
  tu_rolled :: bool
  tu_built :: bool
  tu_request_id :: "string option"
  tu_answer :: answer

record loop_state =
  lo_state :: repair_state
  lo_cache :: rule_cache
  lo_seen :: "string set"
  lo_rules :: "rule list"
  lo_new_uncertain :: bool

datatype loop_error =
    LoopUtf8 | LoopPath path_error | LoopDiagnostics | LoopRuleId rule_id | LoopBaseHash | LoopVersion
  | LoopCounters | LoopBudget | LoopUncertain | LoopRestoredRule | LoopUnreadableRule
  | LoopResumedReview | LoopGate gate_error | LoopFinal final_error | LoopCancelled | LoopRequest
  | LoopNoId | LoopSave | LoopIncomplete | LoopRefused | LoopCallId | LoopTool

datatype turn_result = TurnContinue | TurnFailed loop_error | TurnReturned proposal

subsection \<open>Accounting of a response\<close>

text \<open>\<open>addUsage\<close> never fails; a response without usable counters makes the usage uncertain.\<close>

definition valid_response_usage :: "response_usage \<Rightarrow> int \<Rightarrow> int \<Rightarrow> bool" where
  "valid_response_usage u input out \<longleftrightarrow>
     \<not> (input < 0 \<or> out < 0 \<or> re_cached u < 0 \<or> re_cached u > input \<or> re_write5m u < 0 \<or> re_write1h u < 0 \<or>
        re_write5m u > input - re_cached u \<or> re_write1h u > input - re_cached u - re_write5m u)"

definition add_usage :: "loop_service \<Rightarrow> usage \<Rightarrow> response_usage option \<Rightarrow> usage" where
  "add_usage lv usage response =
     (let usage1 = usage\<lparr>us_turns := us_turns usage + 1\<rparr> in
      case response of
        None \<Rightarrow> usage1\<lparr>us_uncertain := True\<rparr>
      | Some u \<Rightarrow>
          let usage2 = usage1\<lparr>us_turns := us_turns usage1 + (if re_requests u > 1 then re_requests u - 1 else 0),
                              us_uncertain := us_uncertain usage1 \<or> re_uncertain u\<rparr> in
          (case (re_input u, re_output u) of
             (Some input, Some out) \<Rightarrow>
               if \<not> valid_response_usage u input out then usage2\<lparr>us_uncertain := True\<rparr>
               else usage2
                 \<lparr>us_input_tokens := us_input_tokens usage2 + input,
                  us_cached_tokens := us_cached_tokens usage2 + re_cached u,
                  us_output_tokens := us_output_tokens usage2 + out,
                  us_cost_usd := us_cost_usd usage2 +
                    (of_int (input - re_cached u) * lv_input_price lv + of_int (re_cached u) * lv_cached_price lv
                     + of_int out * lv_output_price lv) / 1000000 +
                    (of_int (re_write5m u) * (1 / 4) + of_int (re_write1h u)) * lv_input_price lv / 1000000\<rparr>
           | _ \<Rightarrow> usage2\<lparr>us_uncertain := True\<rparr>))"

text \<open>The reservation before a request is sent, and its settlement after the response.\<close>

definition reserve_turn :: "string \<Rightarrow> repair_state \<Rightarrow> repair_state" where
  "reserve_turn rid s =
     s\<lparr>rs_request_pending := True, rs_request_id := rid, rs_request_kind := ''editor'',
       rs_usage := (rs_usage s)\<lparr>us_turns := us_turns (rs_usage s) + 1\<rparr>\<rparr>"

definition settle_response :: "usage \<Rightarrow> repair_state \<Rightarrow> repair_state" where
  "settle_response u s =
     (let v = rs_usage s in
      s\<lparr>rs_request_pending := False,
        rs_usage := v\<lparr>us_input_tokens := us_input_tokens v + us_input_tokens u,
          us_cached_tokens := us_cached_tokens v + us_cached_tokens u,
          us_output_tokens := us_output_tokens v + us_output_tokens u,
          us_cost_usd := us_cost_usd v + us_cost_usd u,
          us_turns := us_turns v + max 0 (us_turns u - 1),
          us_uncertain := us_uncertain v \<or> us_uncertain u\<rparr>\<rparr>)"

subsection \<open>The tool calls of a response\<close>

definition tool_failed :: "tool_result \<Rightarrow> bool" where
  "tool_failed r \<longleftrightarrow> (case r of ToolFatal \<Rightarrow> True | _ \<Rightarrow> False)"

fun run_calls ::
  "repair_env \<Rightarrow> loop_service \<Rightarrow> rule_id list \<Rightarrow> call list \<Rightarrow> loop_state \<Rightarrow> loop_state \<times> turn_result" where
  "run_calls env lv required [] lo = (lo, TurnContinue)"
| "run_calls env lv required (c # cs) lo =
     (if cl_cancelled c then (lo, TurnFailed LoopCancelled)
      else if cl_id c = [] \<or> length (cl_id c) > 256 \<or> cl_id c \<in> lo_seen lo then (lo, TurnFailed LoopCallId)
      else
        let s = lo_state lo;
            lo1 = lo\<lparr>lo_seen := insert (cl_id c) (lo_seen lo)\<rparr> in
        (case persist env (s\<lparr>rs_tool_calls := rs_tool_calls s + 1\<rparr>) of (s1, ok) \<Rightarrow>
         if \<not> ok then (lo1\<lparr>lo_state := s1\<rparr>, TurnFailed LoopSave)
         else (case execute_repair_tool env (lo_rules lo) required (cl_tool c) (s1, lo_cache lo) of
           ((s2, cache), result) \<Rightarrow>
             let lo2 = lo1\<lparr>lo_state := s2, lo_cache := cache\<rparr> in
             if tool_failed result then (lo2, TurnFailed LoopTool)
             else (case persist env (s2\<lparr>rs_read_bytes := rs_read_bytes s2 + lv_reply_bytes lv result\<rparr>) of
               (s3, ok3) \<Rightarrow>
                 if \<not> ok3 then (lo2\<lparr>lo_state := s3\<rparr>, TurnFailed LoopSave)
                 else run_calls env lv required cs (lo2\<lparr>lo_state := s3\<rparr>)))))"

subsection \<open>One provider exchange\<close>

definition unpin :: "rule list \<Rightarrow> rule list" where
  "unpin rules = map (\<lambda>r. r\<lparr>ru_always := False\<rparr>) rules"

definition failed_request ::
  "repair_env \<Rightarrow> bool \<Rightarrow> bool \<Rightarrow> int \<Rightarrow> loop_state \<Rightarrow> loop_state \<times> turn_result" where
  "failed_request env unknown context attempts lo =
     (let s = lo_state lo; v = rs_usage s;
          s1 = s\<lparr>rs_usage := v\<lparr>us_turns := us_turns v + max 0 (attempts - 1),
                                us_uncertain := us_uncertain v \<or> unknown\<rparr>\<rparr>;
          lo1 = lo\<lparr>lo_state := s1, lo_new_uncertain := lo_new_uncertain lo \<or> unknown\<rparr> in
      if context then
        (case persist env (s1\<lparr>rs_request_pending := False\<rparr>) of (s2, ok) \<Rightarrow>
           (lo1\<lparr>lo_state := s2, lo_rules := unpin (lo_rules lo), lo_seen := {}\<rparr>,
            if ok then TurnContinue else TurnFailed LoopSave))
      else
        (lo1\<lparr>lo_state := (if unknown then s1 else s1\<lparr>rs_request_pending := False\<rparr>)\<rparr>, TurnFailed LoopRequest))"

definition submit_final ::
  "repair_env \<Rightarrow> loop_service \<Rightarrow> rule_id list \<Rightarrow> final_answer option \<Rightarrow> loop_state \<Rightarrow> loop_state \<times> turn_result" where
  "submit_final env lv required answer lo =
     (case parse_candidate_final answer (lo_state lo) (en_content env) (en_base_hash env) required of
        Inl _ \<Rightarrow> (lo, TurnContinue)
      | Inr final \<Rightarrow>
          (case review_final env (lv_review lv) (lo_rules lo) final (lo_state lo) of
             (s, Inl e) \<Rightarrow> (lo\<lparr>lo_state := s\<rparr>, TurnFailed (LoopGate e))
           | (s, Inr (checked, accepted)) \<Rightarrow>
               (lo\<lparr>lo_state := s\<rparr>, if accepted then TurnReturned checked else TurnContinue)))"

definition received_response ::
  "repair_env \<Rightarrow> loop_service \<Rightarrow> rule_id list \<Rightarrow> response_usage option \<Rightarrow> completion \<Rightarrow> llm_output \<Rightarrow>
     loop_state \<Rightarrow> loop_state \<times> turn_result" where
  "received_response env lv required response completion out lo =
     (let usage = add_usage lv no_usage response in
      case persist env (settle_response usage (lo_state lo)) of (s, ok) \<Rightarrow>
      let lo1 = lo\<lparr>lo_state := s, lo_new_uncertain := lo_new_uncertain lo \<or> us_uncertain usage\<rparr> in
      if \<not> ok then (lo1, TurnFailed LoopSave)
      else (case completion of
        CompleteContextLimit \<Rightarrow> (lo1\<lparr>lo_rules := unpin (lo_rules lo), lo_seen := {}\<rparr>, TurnContinue)
      | CompleteOutputLimit \<Rightarrow> (lo1\<lparr>lo_seen := {}\<rparr>, TurnContinue)
      | CompleteFailed \<Rightarrow> (lo1, TurnFailed LoopIncomplete)
      | CompleteOk \<Rightarrow>
          (case out of
             OutRefused \<Rightarrow> (lo1, TurnFailed LoopRefused)
           | OutMalformed \<Rightarrow> (lo1\<lparr>lo_seen := {}\<rparr>, TurnContinue)
           | OutDecoded calls answer \<Rightarrow>
               if calls = [] then submit_final env lv required answer lo1
               else run_calls env lv required calls lo1)))"

definition editor_turn ::
  "repair_env \<Rightarrow> loop_service \<Rightarrow> rule_id list \<Rightarrow> turn \<Rightarrow> loop_state \<Rightarrow> loop_state \<times> turn_result" where
  "editor_turn env lv required t lo =
     (if tu_cancelled t then (lo, TurnFailed LoopCancelled)
      else
        let lo1 = (if tu_rolled t then lo\<lparr>lo_seen := {}\<rparr> else lo) in
        if \<not> tu_built t then (lo1, TurnFailed LoopRequest)
        else (case tu_request_id t of
          None \<Rightarrow> (lo1, TurnFailed LoopNoId)
        | Some rid \<Rightarrow>
            (case persist env (reserve_turn rid (lo_state lo1)) of (s, ok) \<Rightarrow>
              let lo2 = lo1\<lparr>lo_state := s\<rparr> in
              if \<not> ok then (lo2, TurnFailed LoopSave)
              else (case tu_answer t of
                 AnsFailed unknown context attempts \<Rightarrow> failed_request env unknown context attempts lo2
               | AnsGot response completion out \<Rightarrow>
                   received_response env lv required response completion out lo2))))"

text \<open>The loop over the turns the provider takes; \<open>TurnContinue\<close> is a loop still waiting.\<close>

fun editor_loop ::
  "repair_env \<Rightarrow> loop_service \<Rightarrow> rule_id list \<Rightarrow> turn list \<Rightarrow> loop_state \<Rightarrow> loop_state \<times> turn_result" where
  "editor_loop env lv required [] lo = (lo, TurnContinue)"
| "editor_loop env lv required (t # ts) lo =
     (case editor_turn env lv required t lo of
        (lo', TurnContinue) \<Rightarrow> editor_loop env lv required ts lo'
      | (lo', r) \<Rightarrow> (lo', r))"

subsection \<open>Starting and resuming\<close>

record run_input =
  in_rules :: "rule list"
  in_system_prompt :: string
  in_given_hash :: string
  in_actual_hash :: string
  in_state :: "repair_state option"
  in_baseline :: budget
  in_allow_uncertain :: bool

definition fresh_state :: repair_state where
  "fresh_state = \<lparr>rs_version = 1, rs_plan = empty_plan, rs_last_candidate = None, rs_staged_edits = [],
     rs_usage = no_usage, rs_elapsed_ms = 0, rs_tool_calls = 0, rs_read_bytes = 0, rs_validation_count = 0,
     rs_request_pending = False, rs_request_id = [], rs_read_rule_ids = [],
     rs_rule_read_offsets = Map.empty, rs_review_count = 0, rs_reviews = [], rs_request_kind = []\<rparr>"

text \<open>A passed candidate with the line attribution of an older version is dropped.\<close>

definition obsolete_attribution :: "repair_state \<Rightarrow> bool" where
  "obsolete_attribution s \<longleftrightarrow>
     (case rs_last_candidate s of
        None \<Rightarrow> False
      | Some c \<Rightarrow> cv_passed (ca_result c) \<and> \<not> ca_no_change c \<and>
          cv_attribution_version (ca_result c) \<noteq> line_attribution_version)"

definition restored_state :: "repair_state option \<Rightarrow> repair_state" where
  "restored_state saved =
     (case saved of
        None \<Rightarrow> fresh_state
      | Some s \<Rightarrow> if obsolete_attribution s then s\<lparr>rs_last_candidate := None\<rparr> else s)"

definition base_hash_of :: "string \<Rightarrow> string \<Rightarrow> string option" where
  "base_hash_of given actual = (if given = [] then Some actual else if sha256_hex given then Some given else None)"

definition check_run_input :: "repair_env \<Rightarrow> loop_service \<Rightarrow> run_input \<Rightarrow> loop_error option" where
  "check_run_input env lv inp =
     (if \<not> valid_utf8 (en_content env) \<or> \<not> valid_utf8 (in_system_prompt inp) then Some LoopUtf8
      else (case safe_relative_path (sv_file (lv_review lv)) of
        Some e \<Rightarrow> Some (LoopPath e)
      | None \<Rightarrow>
          if \<not> valid_source_diagnostics (sv_file (lv_review lv)) (sv_diagnostics (lv_review lv))
          then Some LoopDiagnostics
          else (case find (\<lambda>rid. \<not> valid_rule_id rid) (map ru_id (in_rules inp)) of
            Some rid \<Rightarrow> Some (LoopRuleId rid)
          | None \<Rightarrow>
              if base_hash_of (in_given_hash inp) (in_actual_hash inp) = None then Some LoopBaseHash else None)))"

text \<open>The checks on the restored state; a state with an unsettled request needs a permission.\<close>

definition admit_state :: "run_input \<Rightarrow> repair_state \<Rightarrow> (loop_error, repair_state) outcome" where
  "admit_state inp s =
     (if rs_version s \<noteq> 1 then Inl LoopVersion
      else if \<not> valid_repair_counters s then Inl LoopCounters
      else if \<not> budget_valid (in_baseline inp) s then Inl LoopBudget
      else if rs_request_pending s \<or> us_uncertain (rs_usage s) then
        (if \<not> in_allow_uncertain inp then Inl LoopUncertain
         else Inr (s\<lparr>rs_request_pending := False, rs_usage := (rs_usage s)\<lparr>us_uncertain := True\<rparr>\<rparr>))
      else Inr s)"

fun restore_rules ::
  "rule_id set \<Rightarrow> (rule_id \<Rightarrow> string option) \<Rightarrow> rule_id list \<Rightarrow> rule_cache \<Rightarrow> (loop_error, rule_cache) outcome" where
  "restore_rules catalog read_rule [] cache = Inr cache"
| "restore_rules catalog read_rule (rid # ids) cache =
     (if \<not> valid_rule_id rid \<or> rid \<notin> catalog then Inl LoopRestoredRule
      else (case read_rule rid of
        None \<Rightarrow> Inl LoopUnreadableRule
      | Some value \<Rightarrow>
          if \<not> valid_utf8 value then Inl LoopUnreadableRule
          else restore_rules catalog read_rule ids (cache(rid \<mapsto> value))))"

definition restage :: "repair_state \<Rightarrow> repair_state" where
  "restage s =
     (case rs_last_candidate s of
        None \<Rightarrow> s
      | Some c \<Rightarrow> if rs_staged_edits s = [] \<and> \<not> ca_no_change c
                then s\<lparr>rs_staged_edits := edits_as_staged (cr_edits (ca_request c))\<rparr> else s)"

definition paged_prompt_bytes :: int where "paged_prompt_bytes = 64 * 1024"

definition started_rules :: "run_input \<Rightarrow> rule list" where
  "started_rules inp =
     (if int (length (in_system_prompt inp)) > paged_prompt_bytes then unpin (in_rules inp) else in_rules inp)"

text \<open>The final answer a saved candidate was waiting for a review with.\<close>

definition resumed_final ::
  "repair_env \<Rightarrow> rule_id list \<Rightarrow> rule list \<Rightarrow> repair_state \<Rightarrow> candidate_record \<Rightarrow> (loop_error, proposal) outcome" where
  "resumed_final env required rules s c =
     (if ca_no_change c then
        (case no_change_plan (rs_plan s) rules of
           Some e \<Rightarrow> Inl (LoopGate e)
         | None \<Rightarrow>
             if \<not> current_no_change_candidate (Some c) (rs_plan s) (en_base_hash env) \<or> blank (ca_review_note c)
             then Inl LoopResumedReview
             else Inr \<lparr>pr_outcome = O_skipped, pr_candidate_id = cv_candidate_id (ca_result c), pr_edits = [],
                       pr_rules_applied = [], pr_note = ca_review_note c\<rparr>)
      else (case parse_candidate_final
              (Some \<lparr>fa_outcome = O_modified, fa_candidate_id = cv_candidate_id (ca_result c),
                     fa_note = ca_review_note c\<rparr>) s (en_content env) (en_base_hash env) required of
              Inl e \<Rightarrow> Inl (LoopFinal e)
            | Inr p \<Rightarrow> Inr p))"

definition resume_review ::
  "repair_env \<Rightarrow> loop_service \<Rightarrow> rule_id list \<Rightarrow> loop_state \<Rightarrow> loop_state \<times> turn_result" where
  "resume_review env lv required lo =
     (case rs_last_candidate (lo_state lo) of
        None \<Rightarrow> (lo, TurnContinue)
      | Some c \<Rightarrow>
          if ca_review_requested c \<and> cr_plan_revision (ca_request c) = rp_revision (rs_plan (lo_state lo)) then
            (case resumed_final env required (lo_rules lo) (lo_state lo) c of
               Inl e \<Rightarrow> (lo, TurnFailed e)
             | Inr final \<Rightarrow>
                 (case review_final env (lv_review lv) (lo_rules lo) final (lo_state lo) of
                    (s, Inl e) \<Rightarrow> (lo\<lparr>lo_state := s\<rparr>, TurnFailed (LoopGate e))
                  | (s, Inr (checked, accepted)) \<Rightarrow>
                      (lo\<lparr>lo_state := s\<rparr>, if accepted then TurnReturned checked else TurnContinue)))
          else (lo, TurnContinue))"

subsection \<open>Returning\<close>

text \<open>
  The deferred function: the last checkpoint, and the usage of this run as the difference to the
  restored one. A result whose state cannot be saved is an error.
\<close>

definition run_usage :: "repair_state \<Rightarrow> loop_state \<Rightarrow> bool \<Rightarrow> usage" where
  "run_usage start lo new_uncertain =
     (usage_difference (rs_usage (lo_state lo)) (rs_usage start))
       \<lparr>us_uncertain := new_uncertain \<or>
          us_uncertain (rs_usage (lo_state lo)) \<and> \<not> us_uncertain (rs_usage start) \<or>
          list_ex (\<lambda>r. us_uncertain (rv_usage r)) (drop (length (rs_reviews start)) (rs_reviews (lo_state lo)))\<rparr>"

definition finish_run ::
  "repair_env \<Rightarrow> loop_service \<Rightarrow> repair_state \<Rightarrow> loop_state \<Rightarrow> turn_result \<Rightarrow>
     loop_state \<times> usage \<times> turn_result" where
  "finish_run env lv start lo result =
     (let unknown = (case result of TurnFailed (LoopGate e) \<Rightarrow> lv_usage_unknown lv e | _ \<Rightarrow> False);
          s = lo_state lo;
          s1 = (if unknown then s\<lparr>rs_usage := (rs_usage s)\<lparr>us_uncertain := True\<rparr>\<rparr> else s) in
      case persist env s1 of (s2, ok) \<Rightarrow>
      let lo2 = lo\<lparr>lo_state := s2, lo_new_uncertain := lo_new_uncertain lo \<or> unknown\<rparr> in
      (lo2, run_usage start lo2 (lo_new_uncertain lo2), if ok then result else TurnFailed LoopSave))"

definition run_with_hash ::
  "repair_env \<Rightarrow> loop_service \<Rightarrow> run_input \<Rightarrow> turn list \<Rightarrow> (loop_error, loop_state \<times> usage \<times> turn_result) outcome" where
  "run_with_hash env lv inp turns =
     (case check_run_input env lv inp of
        Some e \<Rightarrow> Inl e
      | None \<Rightarrow>
          (case admit_state inp (restored_state (in_state inp)) of
             Inl e \<Rightarrow> Inl e
           | Inr start \<Rightarrow>
               (let required = map ru_id (in_rules inp);
                    lo = \<lparr>lo_state = start, lo_cache = Map.empty, lo_seen = {}, lo_rules = in_rules inp,
                          lo_new_uncertain = False\<rparr> in
                (case restore_rules (set required) (en_read_rule env) (rs_read_rule_ids start) Map.empty of
                   Inl e \<Rightarrow> Inr (finish_run env lv start lo (TurnFailed e))
                 | Inr cache \<Rightarrow>
                     (case resume_review env lv required
                        (lo\<lparr>lo_state := restage start, lo_cache := cache, lo_rules := started_rules inp\<rparr>) of
                        (lo1, TurnContinue) \<Rightarrow>
                          (case editor_loop env lv required turns lo1 of
                             (lo2, r) \<Rightarrow> Inr (finish_run env lv start lo2 r))
                      | (lo1, r) \<Rightarrow> Inr (finish_run env lv start lo1 r))))))"

text \<open>The base hash the run works with is the given one, or the hash of the content.\<close>

definition run_env :: "repair_env \<Rightarrow> run_input \<Rightarrow> repair_env" where
  "run_env env inp = env\<lparr>en_base_hash := (if in_given_hash inp = [] then in_actual_hash inp else in_given_hash inp)\<rparr>"

definition run_repair ::
  "repair_env \<Rightarrow> loop_service \<Rightarrow> run_input \<Rightarrow> turn list \<Rightarrow> (loop_error, loop_state \<times> usage \<times> turn_result) outcome" where
  "run_repair env lv inp turns = run_with_hash (run_env env inp) lv inp turns"

subsection \<open>What every step of the loop keeps\<close>

text \<open>
  A property of the durable state and the rule cache is kept by a review when it is kept by the few
  writes a review makes; it is kept by the loop when the writes of the loop and the tools keep it
  too. The two locales carry it from the writes to \<open>reviewFinal\<close> and to the whole loop.
\<close>

definition review_requested :: "string \<Rightarrow> repair_state \<Rightarrow> repair_state" where
  "review_requested rid s =
     s\<lparr>rs_review_count := rs_review_count s + 1,
       rs_usage := (rs_usage s)\<lparr>us_turns := us_turns (rs_usage s) + 1\<rparr>,
       rs_request_pending := True, rs_request_id := rid, rs_request_kind := ''review''\<rparr>"

definition review_settled :: "usage \<Rightarrow> bool \<Rightarrow> repair_state \<Rightarrow> repair_state" where
  "review_settled u unknown s =
     (let v = rs_usage s in
      s\<lparr>rs_usage := v\<lparr>us_turns := us_turns v + max 0 (us_turns u - 1),
          us_input_tokens := us_input_tokens v + us_input_tokens u,
          us_cached_tokens := us_cached_tokens v + us_cached_tokens u,
          us_output_tokens := us_output_tokens v + us_output_tokens u,
          us_cost_usd := us_cost_usd v + us_cost_usd u,
          us_uncertain := us_uncertain v \<or> unknown \<or> us_uncertain u\<rparr>,
        rs_request_pending := unknown\<rparr>)"

locale review_frame =
  fixes env :: repair_env and sv :: review_service and keep :: "rule_cache \<Rightarrow> repair_state \<Rightarrow> bool"
  assumes saved: "keep c s \<Longrightarrow> keep c (fst (persist env s))"
    and requested: "keep c s \<Longrightarrow> keep c (review_requested rid s)"
    and settled: "sv_reviewer sv inp = (evs, answer) \<Longrightarrow> EventAfter u unknown \<in> set evs \<Longrightarrow> keep c s \<Longrightarrow>
      keep c (review_settled u unknown s)"
    and published: "keep c s \<Longrightarrow> keep c (fst (publish_review r i s))"
    and submitted: "keep c s \<Longrightarrow> rs_last_candidate s = Some cand \<Longrightarrow>
      keep c (s\<lparr>rs_last_candidate := Some (cand\<lparr>ca_review_requested := True, ca_review_note := msg\<rparr>)\<rparr>)"
    and unchanged: "keep c s \<Longrightarrow>
      keep c (s\<lparr>rs_last_candidate := Some (new_no_change_candidate (rs_plan s) (en_base_hash env) cid)\<rparr>)"
begin

lemma event_kept:
  assumes "apply_event ev (r, i, s) = (r', i', s')" "keep c s"
    "\<And>u unknown s. ev = EventAfter u unknown \<Longrightarrow> keep c s \<Longrightarrow> keep c (review_settled u unknown s)"
  shows "keep c s'"
proof (cases ev)
  case (EventBefore rid)
  then have "s' = fst (publish_review r i (review_requested rid s))"
    using assms(1) by (auto simp: apply_event_def review_requested_def Let_def split: prod.splits)
  then show ?thesis using published requested assms(2) by simp
next
  case (EventAfter u unknown)
  then have "s' = fst (publish_review (r\<lparr>rv_usage := add_review_usage (rv_usage r) u\<rparr>) i (review_settled u unknown s))"
    using assms(1) by (auto simp: apply_event_def review_settled_def Let_def split: prod.splits)
  then show ?thesis using published assms(3) [OF EventAfter assms(2)] by simp
next
  case (EventProgress p)
  then have "s' = fst (publish_review (r\<lparr>rv_assessments := rv_assessments p, rv_issues := rv_issues p,
      rv_hold_assessments := rv_hold_assessments p\<rparr>) i s)"
    using assms(1) by (auto simp: apply_event_def Let_def split: prod.splits)
  then show ?thesis using published assms(2) by simp
qed

lemma events_kept:
  assumes "\<And>u unknown s. EventAfter u unknown \<in> set evs \<Longrightarrow> keep c s \<Longrightarrow> keep c (review_settled u unknown s)"
    "run_review_events env evs (r, i, s) = ((r', i', s'), ok)" "keep c s"
  shows "keep c s'"
  using assms
proof (induction evs arbitrary: r i s)
  case (Cons ev evs)
  obtain r1 i1 s1 where a: "apply_event ev (r, i, s) = (r1, i1, s1)" by (metis prod_cases3)
  have k: "keep c s1" using event_kept [OF a Cons.prems(3)] Cons.prems(1) by simp
  obtain s2 ok2 where p: "persist env s1 = (s2, ok2)" by (meson surj_pair)
  have k2: "keep c s2" using saved [OF k] p by simp
  show ?case
  proof (cases ok2)
    case True
    then have "run_review_events env evs (r1, i1, s2) = ((r', i', s'), ok)"
      using Cons.prems(2) by (simp add: a p)
    from Cons.IH [OF _ this k2] Cons.prems(1) show ?thesis by simp
  next
    case False
    then show ?thesis using Cons.prems(2) k2 by (simp add: a p)
  qed
qed simp

lemma review_kept:
  assumes "run_review env sv final c0 rules holds after s = (s', d)" "keep c s" "rs_last_candidate s = Some c0"
  shows "keep c s'"
proof -
  define c1 where "c1 = c0\<lparr>ca_review_requested := True, ca_review_note := pr_note final\<rparr>"
  obtain s1 ok where p1: "persist env (s\<lparr>rs_last_candidate := Some c1\<rparr>) = (s1, ok)" by (meson surj_pair)
  have k1: "keep c s1" using saved [OF submitted [OF assms(2,3), of "pr_note final"]] p1 by (simp add: c1_def)
  obtain evs answer where rv: "sv_reviewer sv (review_input_of env sv c1 rules holds after s1) = (evs, answer)"
    by (meson surj_pair)
  have k: "keep c (fst (persist env (fst (publish_review r i s2))))"
    if "run_review_events env evs (r0, i0, s1) = ((r1, i1, s2), saved)" for r i s2 saved r0 i0 r1 i1
    using events_kept [OF settled [OF rv] that k1] saved published by blast
  have "s' = s1 \<or> (\<exists>rid r1 i1 s2 saved r i.
      run_review_events env evs (new_review env sv c1 (rs_plan s1) rid, None, s1) = ((r1, i1, s2), saved) \<and>
      s' = fst (persist env (fst (publish_review r i s2))))"
  proof (cases "\<not> ok \<or> sv_review_id sv = None")
    case True
    then have "s' = s1" using assms(1)
      by (cases "sv_review_id sv") (auto simp: run_review_def Let_def c1_def [symmetric] p1 split: if_splits)
    then show ?thesis ..
  next
    case False
    then obtain rid where rid: "sv_review_id sv = Some rid" and ok by blast
    obtain r1 i1 s2 saved where e:
        "run_review_events env evs (new_review env sv c1 (rs_plan s1) rid, None, s1) = ((r1, i1, s2), saved)"
      by (metis prod_cases3 surj_pair)
    have "\<exists>r i. s' = fst (persist env (fst (publish_review r i s2)))"
      using assms(1) \<open>ok\<close>
      by (auto simp: run_review_def Let_def c1_def [symmetric] p1 rv rid e case_prod_beta prod_eq_iff
          split: sum.splits if_splits)
    then show ?thesis using e by blast
  qed
  then show ?thesis using k k1 by blast
qed

lemma candidate_kept:
  assumes "review_candidate env sv rules final s = (s', d)" "keep c s"
  shows "keep c s'"
proof (cases "s' = s")
  case False
  then obtain cand rows holds after d' where "rs_last_candidate s = Some cand"
      "run_review env sv final cand rows holds after s = (s', d')"
    using assms(1) by (auto simp: review_candidate_def split: option.splits if_splits sum.splits)
  with review_kept assms(2) show ?thesis by blast
qed (use assms(2) in simp)

lemma final_kept:
  assumes "review_final env sv rules final s = (s', d)" "keep c s"
  shows "keep c s'"
  using assms(1) candidate_kept [of rules] assms(2) unchanged [OF assms(2)]
  by (auto simp: review_final_def split: if_splits option.splits)

end

text \<open>The fields of a failed request; \<open>pending\<close> is cleared unless the usage is unknown.\<close>

definition failed_usage :: "bool \<Rightarrow> int \<Rightarrow> repair_state \<Rightarrow> repair_state" where
  "failed_usage unknown attempts s =
     s\<lparr>rs_usage := (rs_usage s)\<lparr>us_turns := us_turns (rs_usage s) + max 0 (attempts - 1),
                                 us_uncertain := us_uncertain (rs_usage s) \<or> unknown\<rparr>\<rparr>"

locale loop_frame = review_frame env "lv_review lv" keep
  for env :: repair_env and lv :: loop_service and keep :: "rule_cache \<Rightarrow> repair_state \<Rightarrow> bool" +
  fixes required :: "rule_id list" and catalog :: "rule list \<Rightarrow> bool"
  assumes reserved: "keep c s \<Longrightarrow> keep c (reserve_turn rid s)"
    and received: "keep c s \<Longrightarrow> keep c (settle_response (add_usage lv no_usage response) s)"
    and failed: "keep c s \<Longrightarrow> keep c (failed_usage unknown attempts s)"
    and idle: "keep c s \<Longrightarrow> keep c (s\<lparr>rs_request_pending := False\<rparr>)"
    and uncertain: "keep c s \<Longrightarrow> keep c (s\<lparr>rs_usage := (rs_usage s)\<lparr>us_uncertain := True\<rparr>\<rparr>)"
    and called: "keep c s \<Longrightarrow> keep c (s\<lparr>rs_tool_calls := rs_tool_calls s + 1\<rparr>)"
    and replied: "keep c s \<Longrightarrow> keep c (s\<lparr>rs_read_bytes := rs_read_bytes s + lv_reply_bytes lv result\<rparr>)"
    and tooled: "catalog rules \<Longrightarrow> keep c s \<Longrightarrow>
      execute_repair_tool env rules required tool (s, c) = ((s', c'), result) \<Longrightarrow> keep c' s'"
    and unpinned: "catalog rules \<Longrightarrow> catalog (unpin rules)"
begin

definition keeps :: "loop_state \<Rightarrow> bool" where
  "keeps lo \<longleftrightarrow> keep (lo_cache lo) (lo_state lo) \<and> catalog (lo_rules lo)"

lemma calls_kept: "run_calls env lv required cs lo = (lo', r) \<Longrightarrow> keeps lo \<Longrightarrow> keeps lo'"
proof (induction cs arbitrary: lo)
  case (Cons c cs)
  show ?case
  proof (cases "cl_cancelled c \<or> cl_id c = [] \<or> length (cl_id c) > 256 \<or> cl_id c \<in> lo_seen lo")
    case True
    then show ?thesis using Cons.prems by (auto split: if_splits)
  next
    case False
    let ?s = "lo_state lo"
    obtain s1 ok where p1: "persist env (?s\<lparr>rs_tool_calls := rs_tool_calls ?s + 1\<rparr>) = (s1, ok)" by (meson surj_pair)
    have keep0: "keep (lo_cache lo) ?s" and cat: "catalog (lo_rules lo)" using Cons.prems(2) by (simp_all add: keeps_def)
    have k1: "keep (lo_cache lo) s1" using saved [OF called [OF keep0]] p1 by simp
    show ?thesis
    proof (cases ok)
      case False
      then show ?thesis using Cons.prems k1 cat \<open>\<not> (cl_cancelled c \<or> _)\<close> by (auto simp: p1 Let_def keeps_def)
    next
      case True
      obtain s2 cache result where t: "execute_repair_tool env (lo_rules lo) required (cl_tool c) (s1, lo_cache lo) =
          ((s2, cache), result)" by (metis prod.exhaust)
      have k2: "keep cache s2" by (rule tooled [OF cat k1 t])
      obtain s3 ok3 where p3: "persist env (s2\<lparr>rs_read_bytes := rs_read_bytes s2 + lv_reply_bytes lv result\<rparr>) = (s3, ok3)"
        by (meson surj_pair)
      have k3: "keep cache s3" using saved [OF replied [OF k2, of result]] p3 by simp
      define lo3 where "lo3 = lo\<lparr>lo_seen := insert (cl_id c) (lo_seen lo), lo_cache := cache, lo_state := s3\<rparr>"
      have "keeps lo3" using k3 cat by (simp add: keeps_def lo3_def)
      moreover have "keeps (lo3\<lparr>lo_state := s2\<rparr>)" using k2 cat by (simp add: keeps_def lo3_def)
      moreover have "(lo', r) = (lo3\<lparr>lo_state := s2\<rparr>, TurnFailed LoopTool) \<or> (lo', r) = (lo3, TurnFailed LoopSave) \<or>
          run_calls env lv required cs lo3 = (lo', r)"
        using Cons.prems(1) False True by (auto simp: p1 t p3 Let_def lo3_def split: if_splits)
      ultimately show ?thesis using Cons.IH by auto
    qed
  qed
qed simp

lemma final_answer_kept: "submit_final env lv required answer lo = (lo', r) \<Longrightarrow> keeps lo \<Longrightarrow> keeps lo'"
  using final_kept by (fastforce simp: submit_final_def keeps_def split: sum.splits prod.splits if_splits)

lemma failed_kept:
  assumes "failed_request env unknown context attempts lo = (lo', r)" "keeps lo"
  shows "keeps lo'"
proof -
  define s1 where "s1 = failed_usage unknown attempts (lo_state lo)"
  have "keep (lo_cache lo) s1" using failed assms(2) by (simp add: s1_def keeps_def)
  moreover have "lo_cache lo' = lo_cache lo" "lo_rules lo' = lo_rules lo \<or> lo_rules lo' = unpin (lo_rules lo)"
    "lo_state lo' = s1 \<or> lo_state lo' = s1\<lparr>rs_request_pending := False\<rparr> \<or>
     lo_state lo' = fst (persist env (s1\<lparr>rs_request_pending := False\<rparr>))"
    using assms(1)
    by (auto simp: failed_request_def s1_def failed_usage_def Let_def case_prod_beta split: if_splits)
  ultimately show ?thesis using idle saved unpinned assms(2) unfolding keeps_def by metis
qed

lemma response_kept:
  "received_response env lv required response completion out lo = (lo', r) \<Longrightarrow> keeps lo \<Longrightarrow> keeps lo'"
proof -
  assume a: "received_response env lv required response completion out lo = (lo', r)" "keeps lo"
  obtain s ok where p: "persist env (settle_response (add_usage lv no_usage response) (lo_state lo)) = (s, ok)"
    by (meson surj_pair)
  define lo1 where "lo1 = lo\<lparr>lo_state := s,
      lo_new_uncertain := lo_new_uncertain lo \<or> us_uncertain (add_usage lv no_usage response)\<rparr>"
  have k: "keeps lo1"
    using saved [OF received [of "lo_cache lo" "lo_state lo" response]] a(2) p by (simp add: keeps_def lo1_def)
  then have "keeps (lo1\<lparr>lo_rules := unpin (lo_rules lo), lo_seen := {}\<rparr>)" "keeps (lo1\<lparr>lo_seen := {}\<rparr>)"
    using unpinned by (auto simp: keeps_def lo1_def)
  then show ?thesis
    using a(1) k calls_kept [of _ lo1] final_answer_kept [of _ lo1]
    by (auto simp: received_response_def Let_def p lo1_def [symmetric]
        split: if_splits completion.splits llm_output.splits)
qed

lemma turn_kept: "editor_turn env lv required t lo = (lo', r) \<Longrightarrow> keeps lo \<Longrightarrow> keeps lo'"
proof -
  assume a: "editor_turn env lv required t lo = (lo', r)" "keeps lo"
  define lo1 where "lo1 = (if tu_rolled t then lo\<lparr>lo_seen := {}\<rparr> else lo)"
  have k1: "keeps lo1" using a(2) by (simp add: keeps_def lo1_def)
  have "keeps (lo1\<lparr>lo_state := fst (persist env (reserve_turn rid (lo_state lo1)))\<rparr>)" for rid
    using k1 saved [OF reserved] by (simp add: keeps_def)
  then show ?thesis
    using a k1 failed_kept response_kept
    by (fastforce simp: editor_turn_def Let_def lo1_def [symmetric] case_prod_beta
        split: if_splits option.splits answer.splits)
qed

lemma loop_kept: "editor_loop env lv required ts lo = (lo', r) \<Longrightarrow> keeps lo \<Longrightarrow> keeps lo'"
  using turn_kept
  by (induction ts arbitrary: lo) (auto split: prod.splits turn_result.splits)

lemma resume_kept: "resume_review env lv required lo = (lo', r) \<Longrightarrow> keeps lo \<Longrightarrow> keeps lo'"
  using final_kept by (fastforce simp: resume_review_def keeps_def split: option.splits sum.splits prod.splits if_splits)

lemma finish_kept: "finish_run env lv start lo result = (lo', u, r) \<Longrightarrow> keeps lo \<Longrightarrow> keeps lo'"
  using saved uncertain by (auto simp: finish_run_def Let_def keeps_def case_prod_beta split: if_splits)

end

subsection \<open>The work is kept\<close>

lemma publish_review_fields:
  "rs_plan (fst (publish_review r i s)) = rs_plan s"
  "rs_staged_edits (fst (publish_review r i s)) = rs_staged_edits s"
  "rs_usage (fst (publish_review r i s)) = rs_usage s" "rs_version (fst (publish_review r i s)) = rs_version s"
  "rs_elapsed_ms (fst (publish_review r i s)) = rs_elapsed_ms s"
  "rs_tool_calls (fst (publish_review r i s)) = rs_tool_calls s"
  "rs_read_bytes (fst (publish_review r i s)) = rs_read_bytes s"
  "rs_validation_count (fst (publish_review r i s)) = rs_validation_count s"
  "rs_review_count (fst (publish_review r i s)) = rs_review_count s"
  "rs_read_rule_ids (fst (publish_review r i s)) = rs_read_rule_ids s"
  "rs_last_candidate (fst (publish_review r i s)) =
     map_option (\<lambda>c. c\<lparr>ca_review := Some r\<rparr>) (rs_last_candidate s)"
  by (simp_all add: publish_review_def Let_def split: option.split)

lemma state_ok_published: "state_ok env required s \<Longrightarrow> state_ok env required (fst (publish_review r i s))"
  by (auto simp: state_ok_def publish_review_fields candidate_checked_def)

lemma state_ok_submitted:
  "state_ok env required s \<Longrightarrow> rs_last_candidate s = Some cand \<Longrightarrow>
     state_ok env required (s\<lparr>rs_last_candidate := Some (cand\<lparr>ca_review_requested := True, ca_review_note := msg\<rparr>)\<rparr>)"
  by (auto simp: state_ok_def candidate_checked_def)

lemma state_ok_unchanged:
  "state_ok env required s \<Longrightarrow>
     state_ok env required (s\<lparr>rs_last_candidate := Some (new_no_change_candidate (rs_plan s) h cid)\<rparr>)"
  by (auto simp: state_ok_def candidate_checked_def new_no_change_candidate_def)

lemma state_ok_accounting:
  "state_ok env required (review_requested rid s) = state_ok env required s"
  "state_ok env required (review_settled u unknown s) = state_ok env required s"
  "state_ok env required (reserve_turn rid s) = state_ok env required s"
  "state_ok env required (settle_response u s) = state_ok env required s"
  "state_ok env required (failed_usage unknown attempts s) = state_ok env required s"
  "state_ok env required (s\<lparr>rs_request_pending := b\<rparr>) = state_ok env required s"
  "state_ok env required (s\<lparr>rs_usage := u\<rparr>) = state_ok env required s"
  "state_ok env required (s\<lparr>rs_tool_calls := n\<rparr>) = state_ok env required s"
  "state_ok env required (s\<lparr>rs_read_bytes := n\<rparr>) = state_ok env required s"
  by (simp_all add: state_ok_def review_requested_def review_settled_def reserve_turn_def settle_response_def
      failed_usage_def Let_def)

interpretation work: loop_frame env lv "\<lambda>_. state_ok env required" required "\<lambda>_. True"
  for env lv required
proof unfold_locales
  fix rules s s' c c' tool result
  assume "state_ok env required s" "execute_repair_tool env rules required tool (s, c) = ((s', c'), result)"
  then show "state_ok env required s'"
    using execute_repair_tool_ok [of env required "(s, c)" rules tool] by simp
qed (simp_all add: state_ok_published state_ok_submitted state_ok_unchanged state_ok_accounting)

text \<open>While a candidate is reviewed its request is kept, unless it is replaced by an unchanged one.\<close>

definition keeps_request :: "candidate_request \<Rightarrow> repair_state \<Rightarrow> bool" where
  "keeps_request rq s \<longleftrightarrow>
     (\<exists>c. rs_last_candidate s = Some c \<and> (ca_no_change c \<or> ca_request c = rq))"

interpretation submission: review_frame env sv "\<lambda>_. keeps_request rq" for env sv rq
  by unfold_locales
    (auto simp: keeps_request_def publish_review_fields review_requested_def review_settled_def Let_def
      new_no_change_candidate_def)

subsection \<open>What the loop can return\<close>

lemma reviewed_outcome_edits:
  "reviewed_outcome final c plan original = Inr (p, b) \<Longrightarrow>
     p = final \<or> pr_outcome p = O_needs_human \<and> pr_edits p = []"
  by (auto simp: reviewed_outcome_def split: option.splits if_splits verdict.splits)

lemma review_candidate_edits:
  assumes "review_candidate env sv rules final s0 = (s, Inr (p, b))"
  shows "p = final \<or> pr_outcome p = O_needs_human \<and> pr_edits p = []"
proof -
  obtain c :: candidate_record and h where "reviewed_outcome final c h (en_content env) = Inr (p, b)"
  proof (rule review_candidate_decided [OF assms], goal_cases)
    case (1 c)
    from 1(4) show ?case
    proof (elim disjE conjE exE)
      fix rows holds after
      assume "run_review env sv final c rows holds after s0 = (s, Inr (p, b))"
      then show ?case by (rule run_review_decided) (use 1(1) in blast)
    qed (use 1(1) in blast)
  qed
  then show ?thesis by (rule reviewed_outcome_edits)
qed

lemma review_final_edits:
  assumes "review_final env sv rules final s0 = (s, Inr (p, b))"
  shows "pr_outcome p = pr_outcome final \<and> pr_edits p = pr_edits final \<or>
    pr_outcome p = O_needs_human \<and> pr_edits p = []"
proof (cases "pr_outcome final = O_modified \<or> pr_outcome final = O_skipped")
  case False
  then show ?thesis using assms by (simp add: review_final_def)
next
  case True
  then obtain cid s1 where "review_candidate env sv rules final s1 = (s, Inr (p, b)) \<or>
      review_candidate env sv rules (final\<lparr>pr_candidate_id := cid\<rparr>) s1 = (s, Inr (p, b))"
    using assms by (auto simp: review_final_def split: if_splits option.splits)
  then show ?thesis using review_candidate_edits by fastforce
qed

lemma parse_candidate_final_Inr:
  assumes "parse_candidate_final (Some final) s content h required = Inr p"
  shows "if pr_outcome p = O_modified
     then require_complete_plan (rs_plan s) required = None \<and> final_modified s content h final = Inr p
     else pr_edits p = []"
proof (cases "fa_outcome final")
  case O_modified
  then have "require_complete_plan (rs_plan s) required = None \<and> final_modified s content h final = Inr p"
    using assms by (auto simp: parse_candidate_final_def require_complete_plan_def split: if_splits option.splits)
  moreover from this have "pr_outcome p = O_modified"
    using O_modified by (auto simp: final_modified_Inr final_proposal_def)
  ultimately show ?thesis by simp
next
  case O_needs_human
  then have "p = final_proposal final"
    using assms by (auto simp: parse_candidate_final_def final_needs_human_def Let_def
        split: if_splits option.splits sum.splits)
  then show ?thesis using O_needs_human by (simp add: final_proposal_def)
next
  case O_skipped
  then have "p = final_proposal final"
    using assms by (auto simp: parse_candidate_final_def split: if_splits option.splits)
  then show ?thesis using O_skipped by (simp add: final_proposal_def)
qed (use assms in \<open>auto simp: parse_candidate_final_def split: if_splits option.splits\<close>)

text \<open>A result that may be applied: its edits are those of a checked and approved candidate.\<close>

definition returnable :: "repair_env \<Rightarrow> rule_id list \<Rightarrow> repair_state \<Rightarrow> proposal \<Rightarrow> bool" where
  "returnable env required s p \<longleftrightarrow>
     (if pr_outcome p = O_modified
      then \<exists>c r. rs_last_candidate s = Some c \<and> ca_review c = Some r \<and> approved c (rs_plan s) r \<and>
             \<not> ca_no_change c \<and> cv_passed (ca_result c) \<and> pr_edits p = cr_edits (ca_request c) \<and>
             check_candidate_request env required (rs_plan s) (ca_request c) = None
      else pr_edits p = [])"

lemma parsed_final_returnable:
  assumes parse: "parse_candidate_final (Some answer) s0 (en_content env) (en_base_hash env) required = Inr final"
    and review: "review_final env sv rules final s0 = (s, Inr (p, True))"
  shows "returnable env required s p"
proof (cases "pr_outcome p = O_modified")
  case False
  then show ?thesis
    using review_final_edits [OF review] parse_candidate_final_Inr [OF parse]
    by (auto simp: returnable_def split: if_splits)
next
  case True
  then have fin: "pr_outcome final = O_modified" "pr_edits p = pr_edits final"
    using review_final_edits [OF review] by auto
  obtain c0 :: candidate_record where c0: "rs_last_candidate s0 = Some c0" "candidate_current c0 (rs_plan s0) (fa_candidate_id answer) (en_base_hash env)"
      "check_candidate_plan (rs_plan s0) (ca_request c0) = None"
      "validate_exact_edits (cr_edits (ca_request c0)) (en_content env) = None"
      "check_candidate_holds (rs_plan s0) (ca_request c0) (en_content env) = None"
      "pr_edits final = cr_edits (ca_request c0)" "require_complete_plan (rs_plan s0) required = None"
    using parse_candidate_final_Inr [OF parse] fin(1) by (auto simp: final_modified_Inr)
  have rc: "review_candidate env sv rules final s0 = (s, Inr (p, True))"
    using review fin(1) by (simp add: review_final_def)
  obtain c r where c: "rs_last_candidate s = Some c" "ca_review c = Some r" "approved c (rs_plan s) r"
      "review_current env final (rs_plan s) c" "rs_plan s = rs_plan s0"
    using review_candidate_accepts [OF rc] True by (metis outcome_kind.distinct)
  have "keeps_request (ca_request c0) s0" using c0(1) by (simp add: keeps_request_def)
  then have "keeps_request (ca_request c0) s" using submission.candidate_kept [OF rc] by blast
  then have "ca_request c = ca_request c0" "\<not> ca_no_change c" "cv_passed (ca_result c)"
    using c(1,4) fin(1) by (auto simp: keeps_request_def review_current_def)
  then show ?thesis
    using True c c0 fin(2) by (auto simp: returnable_def check_candidate_request_None)
qed

lemma resumed_final_edits:
  assumes "resumed_final env required rules s0 c = Inr final" "review_final env sv rules' final s0 = (s, Inr (p, True))"
    "rs_last_candidate s0 = Some c"
  shows "returnable env required s p"
proof (cases "ca_no_change c")
  case True
  then have "pr_outcome final = O_skipped" "pr_edits final = []"
    using assms(1) by (auto simp: resumed_final_def split: option.splits if_splits)
  then show ?thesis using review_final_edits [OF assms(2)] by (auto simp: returnable_def)
next
  case False
  then have "parse_candidate_final (Some \<lparr>fa_outcome = O_modified, fa_candidate_id = cv_candidate_id (ca_result c),
      fa_note = ca_review_note c\<rparr>) s0 (en_content env) (en_base_hash env) required = Inr final"
    using assms(1) by (auto simp: resumed_final_def split: sum.splits)
  from parsed_final_returnable [OF this assms(2)] show ?thesis .
qed

lemma run_calls_returns: "run_calls env lv required cs lo \<noteq> (lo', TurnReturned p)"
  by (induction cs arbitrary: lo) (auto simp: Let_def split: prod.splits)

lemma submit_final_returned:
  assumes "submit_final env lv required answer lo = (lo', TurnReturned p)"
  shows "returnable env required (lo_state lo') p"
proof (cases answer)
  case None
  then show ?thesis using assms by (simp add: submit_final_def parse_candidate_final_def)
next
  case (Some fa)
  then obtain final s where "parse_candidate_final (Some fa) (lo_state lo) (en_content env) (en_base_hash env) required = Inr final"
      "review_final env (lv_review lv) (lo_rules lo) final (lo_state lo) = (s, Inr (p, True))" "lo' = lo\<lparr>lo_state := s\<rparr>"
    using assms by (auto simp: submit_final_def split: sum.splits prod.splits if_splits)
  with parsed_final_returnable show ?thesis by simp
qed

lemma received_returned:
  assumes "received_response env lv required response completion out lo = (lo', TurnReturned p)"
  shows "returnable env required (lo_state lo') p"
  using assms run_calls_returns [of env lv required]
  by (auto simp: received_response_def Let_def intro!: submit_final_returned
      split: prod.splits if_splits completion.splits llm_output.splits)

lemma editor_turn_returned:
  assumes "editor_turn env lv required t lo = (lo', TurnReturned p)"
  shows "returnable env required (lo_state lo') p"
  using assms
  by (auto simp: editor_turn_def failed_request_def Let_def intro!: received_returned
      split: prod.splits if_splits option.splits answer.splits)

lemma editor_loop_returned:
  "editor_loop env lv required ts lo = (lo', TurnReturned p) \<Longrightarrow> returnable env required (lo_state lo') p"
proof (induction ts arbitrary: lo)
  case (Cons t ts)
  obtain lo1 r where t: "editor_turn env lv required t lo = (lo1, r)" by (meson surj_pair)
  show ?case
  proof (cases r)
    case TurnContinue
    then show ?thesis using Cons by (simp add: t)
  next
    case (TurnReturned q)
    then show ?thesis using Cons.prems editor_turn_returned [OF t [unfolded TurnReturned]] by (simp add: t)
  qed (use Cons.prems in \<open>simp add: t\<close>)
qed simp

lemma resume_review_returned:
  assumes "resume_review env lv required lo = (lo', TurnReturned p)"
  shows "returnable env required (lo_state lo') p"
  using assms resumed_final_edits [of env required]
  by (fastforce simp: resume_review_def split: option.splits sum.splits prod.splits if_splits)

lemma finish_run_fields:
  assumes "finish_run env lv start lo result = (lo', u, r)"
  shows "rs_plan (lo_state lo') = rs_plan (lo_state lo)" "r = result \<or> r = TurnFailed LoopSave"
    "rs_last_candidate (lo_state lo') = rs_last_candidate (lo_state lo)"
  using assms by (auto simp: finish_run_def Let_def case_prod_beta split: if_splits)

text \<open>The run, cut at the point where the deferred function starts.\<close>

lemma run_with_hash_Inr:
  assumes "run_with_hash env lv inp turns = Inr (lo, u, r)"
  obtains start lo1 result where "admit_state inp (restored_state (in_state inp)) = Inr start"
    "finish_run env lv start lo1 result = (lo, u, r)"
    "(\<exists>e. restore_rules (set (map ru_id (in_rules inp))) (en_read_rule env) (rs_read_rule_ids start) Map.empty = Inl e \<and>
         result = TurnFailed e \<and> lo_state lo1 = start) \<or>
     (\<exists>cache lo0. restore_rules (set (map ru_id (in_rules inp))) (en_read_rule env) (rs_read_rule_ids start) Map.empty
           = Inr cache \<and>
         lo0 = \<lparr>lo_state = restage start, lo_cache = cache, lo_seen = {}, lo_rules = started_rules inp,
                lo_new_uncertain = False\<rparr> \<and>
         (resume_review env lv (map ru_id (in_rules inp)) lo0 = (lo1, result) \<and> result \<noteq> TurnContinue \<or>
          (\<exists>lo2. resume_review env lv (map ru_id (in_rules inp)) lo0 = (lo2, TurnContinue) \<and>
             editor_loop env lv (map ru_id (in_rules inp)) turns lo2 = (lo1, result))))"
proof -
  have "check_run_input env lv inp = None"
    using assms by (cases "check_run_input env lv inp") (auto simp: run_with_hash_def)
  then obtain start where start: "admit_state inp (restored_state (in_state inp)) = Inr start"
    using assms by (auto simp: run_with_hash_def split: sum.splits)
  note run = assms [unfolded run_with_hash_def \<open>check_run_input env lv inp = None\<close> option.case start sum.case Let_def]
  show thesis
  proof (cases "restore_rules (set (map ru_id (in_rules inp))) (en_read_rule env) (rs_read_rule_ids start) Map.empty")
    case (Inl e)
    then show ?thesis using run that [OF start] by fastforce
  next
    case (Inr cache)
    define lo0 where "lo0 = \<lparr>lo_state = restage start, lo_cache = cache, lo_seen = {}, lo_rules = started_rules inp,
       lo_new_uncertain = False\<rparr>"
    obtain lo2 q where q: "resume_review env lv (map ru_id (in_rules inp)) lo0 = (lo2, q)" by (meson surj_pair)
    have run': "(case (lo2, q) of
          (lo1, TurnContinue) \<Rightarrow> (case editor_loop env lv (map ru_id (in_rules inp)) turns lo1 of
             (lo2, r) \<Rightarrow> Inr (finish_run env lv start lo2 r))
        | (lo1, r) \<Rightarrow> Inr (finish_run env lv start lo1 r)) = (Inr (lo, u, r) :: (loop_error, _) outcome)"
      using run Inr q by (simp add: lo0_def)
    show ?thesis
    proof (cases "q = TurnContinue")
      case True
      obtain lo3 q' where "editor_loop env lv (map ru_id (in_rules inp)) turns lo2 = (lo3, q')" by (meson surj_pair)
      then show ?thesis using run' True q Inr that [OF start, of lo3 q'] lo0_def by simp
    next
      case False
      then have "finish_run env lv start lo2 q = (lo, u, r)" using run' by (cases q) auto
      then show ?thesis using False q Inr that [OF start, of lo2 q] lo0_def by simp
    qed
  qed
qed

subsection \<open>Properties\<close>

text \<open>
  C30. Only approved edits leave the loop. Whatever the provider answers, when \<open>Run\<close> returns a
  proposal, it carries edits only as \<open>modified\<close>; then the last candidate of the saved state passed its
  validation, carries an approving review made for it, and its edits are the ones returned. They
  address exactly the open items of a complete, well-formed plan, leave every held block alone, and
  the text the reviewer judged is the text they produce.
\<close>

theorem returned_edits_approved:
  assumes "run_repair env lv inp turns = Inr (lo, u, TurnReturned p)"
  shows "if pr_outcome p = O_modified
    then \<exists>c r t. rs_last_candidate (lo_state lo) = Some c \<and> cv_passed (ca_result c) \<and>
           ca_review c = Some r \<and> approved c (rs_plan (lo_state lo)) r \<and> pr_edits p = cr_edits (ca_request c) \<and>
           wf_plan (rs_plan (lo_state lo)) \<and>
           require_complete_plan (rs_plan (lo_state lo)) (map ru_id (in_rules inp)) = None \<and>
           set (cr_addressed_item_ids (ca_request c)) = open_items (rs_plan (lo_state lo)) \<and>
           check_candidate_holds (rs_plan (lo_state lo)) (ca_request c) (en_content env) = None \<and>
           review_candidate_text (en_content env) (pr_edits p) = Inr t \<and>
           materialize_edits (en_content env) (pr_edits p) = Inr t
    else pr_edits p = []"
proof -
  let ?env = "run_env env inp" and ?req = "map ru_id (in_rules inp)"
  have run: "run_with_hash ?env lv inp turns = Inr (lo, u, TurnReturned p)" using assms by (simp add: run_repair_def)
  have content: "en_content ?env = en_content env" by (simp add: run_env_def)
  obtain start lo1 result where f: "finish_run ?env lv start lo1 result = (lo, u, TurnReturned p)"
    and d: "(\<exists>e. result = TurnFailed e) \<or> (\<exists>lo0. resume_review ?env lv ?req lo0 = (lo1, result)) \<or>
       (\<exists>lo0. editor_loop ?env lv ?req turns lo0 = (lo1, result))"
    by (rule run_with_hash_Inr [OF run]) blast
  note fin = finish_run_fields [OF f]
  have "result = TurnReturned p" using fin(2) by simp
  with d have "returnable ?env ?req (lo_state lo1) p"
    using resume_review_returned editor_loop_returned by blast
  then have ret: "returnable ?env ?req (lo_state lo) p" unfolding returnable_def fin(1,3) .
  show ?thesis
  proof (cases "pr_outcome p = O_modified")
    case False
    then show ?thesis using ret by (simp add: returnable_def)
  next
    case True
    then obtain c r where c: "rs_last_candidate (lo_state lo) = Some c" "ca_review c = Some r"
        "approved c (rs_plan (lo_state lo)) r" "cv_passed (ca_result c)" "pr_edits p = cr_edits (ca_request c)"
        "check_candidate_request ?env ?req (rs_plan (lo_state lo)) (ca_request c) = None"
      using ret by (auto simp: returnable_def)
    note chk = c(6) [unfolded check_candidate_request_None content]
    have "review_candidate_text (en_content env) (pr_edits p) = Inr (replaced_text (en_content env) (pr_edits p))"
      using chk c(5) by (simp add: review_candidate_text_Inr)
    moreover have "materialize_edits (en_content env) (pr_edits p) = Inr (replaced_text (en_content env) (pr_edits p))"
      using chk c(5) by (simp add: materialize_edits_Inr validate_exact_edits_None)
    ultimately show ?thesis
      using True c chk check_candidate_plan_accepted [of "rs_plan (lo_state lo)" "ca_request c"] by auto
  qed
qed

definition sample_input :: run_input where
  "sample_input = \<lparr>in_rules = [sample_rule], in_system_prompt = ''p'', in_given_hash = [], in_actual_hash = ''h'',
     in_state = Some sample_validated, in_baseline = budget_baseline_for sample_validated,
     in_allow_uncertain = False\<rparr>"

definition sample_loop_service :: loop_service where
  "sample_loop_service = \<lparr>lv_review = sample_service, lv_reply_bytes = (\<lambda>_. 10), lv_input_price = 1,
     lv_cached_price = 1, lv_output_price = 2, lv_usage_unknown = (\<lambda>_. False)\<rparr>"

definition sample_turn :: turn where
  "sample_turn = \<lparr>tu_cancelled = False, tu_rolled = False, tu_built = True, tu_request_id = Some ''q1'',
     tu_answer = AnsGot (Some \<lparr>re_requests = 1, re_uncertain = False, re_input = Some 4, re_output = Some 2,
       re_cached = 1, re_write5m = 0, re_write1h = 0\<rparr>) CompleteOk (OutDecoded [] (Some sample_final))\<rparr>"

lemma sample_input_checked: "check_run_input (run_env sample_env sample_input) sample_loop_service sample_input = None"
proof -
  have p: "check_segments (split_on (CHR ''/'') ''a.go'') = None"
    "\<not> list_ex (\<lambda>c. c \<in> set forbidden_path_chars) ''a.go''" by code_simp+
  have "safe_relative_path ''a.go'' = None" by (rule safe_relative_path_eq [OF p]) simp_all
  moreover have "valid_utf8 sample_lines" "valid_utf8 ''p''" "valid_rule_id (ru_id sample_rule)" by code_simp+
  ultimately show ?thesis
    by (simp add: check_run_input_def run_env_def sample_env_def sample_input_def sample_loop_service_def
        sample_service_def valid_source_diagnostics_def base_hash_of_def)
qed

definition sample_run :: "loop_state \<times> usage \<times> turn_result" where
  "sample_run = (case run_repair sample_env sample_loop_service sample_input [sample_turn] of Inr x \<Rightarrow> x)"

lemma sample_run_eq:
  "run_repair sample_env sample_loop_service sample_input [sample_turn] =
     Inr (fst sample_run, fst (snd sample_run), TurnReturned (sample_gate_final\<lparr>pr_note := ''done''\<rparr>))"
proof -
  have "case run_with_hash (run_env sample_env sample_input) sample_loop_service sample_input [sample_turn] of
      Inl e \<Rightarrow> False | Inr x \<Rightarrow> snd (snd x) = TurnReturned (sample_gate_final\<lparr>pr_note := ''done''\<rparr>)"
    unfolding run_with_hash_def sample_input_checked option.case by code_simp
  then show ?thesis by (auto simp: sample_run_def run_repair_def prod_eq_iff split: sum.splits)
qed

lemma returned_edits_approved_witness:
  "\<exists>t. review_candidate_text sample_lines [linked_edit ''a'' ''x''] = Inr t \<and>
     materialize_edits sample_lines [linked_edit ''a'' ''x''] = Inr t"
  using returned_edits_approved [OF sample_run_eq]
  by (auto simp: sample_gate_final_def sample_env_def)

end
