(* ===== verification/RepairResume.thy ===== *)
theory RepairResume
  imports RepairLoop
begin

section \<open>Resuming a run\<close>

text \<open>
  The durable state at the end of a run of \<open>internal/agent/repair_loop.go\<close>, whatever happened in it,
  passes the checks at the start of the next one: the accounting only grows and stays valid, and the
  rules recorded as read can be restored.
\<close>

definition usage_grows :: "usage \<Rightarrow> usage \<Rightarrow> bool" where
  "usage_grows v w \<longleftrightarrow> us_turns v \<le> us_turns w \<and> us_input_tokens v \<le> us_input_tokens w \<and>
     us_cached_tokens v \<le> us_cached_tokens w \<and> us_output_tokens v \<le> us_output_tokens w \<and>
     us_cost_usd v \<le> us_cost_usd w \<and>
     us_cached_tokens w - us_cached_tokens v \<le> us_input_tokens w - us_input_tokens v"

lemma usage_grows_refl [simp]: "usage_grows v v"
  by (simp add: usage_grows_def)

lemma usage_grows_trans: "usage_grows a b \<Longrightarrow> usage_grows b c \<Longrightarrow> usage_grows a c"
  by (auto simp: usage_grows_def)

text \<open>
  What the loop relies on: prices and reply sizes are not negative, the reviewer reports usage that
  is not negative, and the clock does not run back or out of range.
\<close>

definition fair_service :: "repair_env \<Rightarrow> loop_service \<Rightarrow> bool" where
  "fair_service env lv \<longleftrightarrow>
     0 \<le> lv_input_price lv \<and> 0 \<le> lv_cached_price lv \<and> 0 \<le> lv_output_price lv \<and>
     (\<forall>r. 0 \<le> lv_reply_bytes lv r) \<and>
     (\<forall>inp evs answer u b. sv_reviewer (lv_review lv) inp = (evs, answer) \<longrightarrow> EventAfter u b \<in> set evs \<longrightarrow>
        usage_grows no_usage u) \<and>
     (\<forall>s. rs_elapsed_ms s \<le> max_int - 3600000 \<longrightarrow>
        rs_elapsed_ms s \<le> en_now env s \<and> en_now env s \<le> max_int - 3600000)"

definition readable :: "repair_env \<Rightarrow> rule_id set \<Rightarrow> rule_id \<Rightarrow> bool" where
  "readable env catalog rid \<longleftrightarrow> valid_rule_id rid \<and> rid \<in> catalog \<and>
     (\<exists>v. en_read_rule env rid = Some v \<and> valid_utf8 v)"

text \<open>The cache holds what the rule reader returned, for rules that can be restored.\<close>

definition cache_ok :: "repair_env \<Rightarrow> rule_id set \<Rightarrow> rule_cache \<Rightarrow> bool" where
  "cache_ok env catalog cache \<longleftrightarrow>
     (\<forall>rid v. cache rid = Some v \<longrightarrow> readable env catalog rid \<and> en_read_rule env rid = Some v)"

definition resumable :: "repair_env \<Rightarrow> rule_id set \<Rightarrow> budget \<Rightarrow> repair_state \<Rightarrow> rule_cache \<Rightarrow> repair_state \<Rightarrow> bool" where
  "resumable env catalog base start cache s \<longleftrightarrow>
     rs_version s = 1 \<and> valid_repair_counters s \<and> budget_valid base s \<and>
     usage_grows (rs_usage start) (rs_usage s) \<and> (\<forall>rid \<in> set (rs_read_rule_ids s). readable env catalog rid) \<and>
     cache_ok env catalog cache"

text \<open>Counters that only grow keep a state resumable.\<close>

lemma resumable_grows:
  assumes "resumable env catalog base start cache s" "usage_grows (rs_usage s) (rs_usage s')"
    "rs_version s' = rs_version s" "rs_elapsed_ms s \<le> rs_elapsed_ms s'" "rs_elapsed_ms s' \<le> max_int - 3600000"
    "rs_tool_calls s \<le> rs_tool_calls s'" "rs_read_bytes s \<le> rs_read_bytes s'"
    "rs_validation_count s \<le> rs_validation_count s'" "rs_review_count s \<le> rs_review_count s'"
    "rs_read_rule_ids s' = rs_read_rule_ids s"
  shows "resumable env catalog base start cache s'"
proof -
  have "valid_repair_counters s'"
    using assms by (auto simp: resumable_def valid_repair_counters_def usage_grows_def Let_def)
  moreover have "budget_valid base s'"
    using assms by (auto simp: resumable_def budget_valid_def budget_baseline_for_def usage_grows_def Let_def)
  ultimately show ?thesis
    using assms(1,3,10) usage_grows_trans [OF _ assms(2)] by (simp add: resumable_def)
qed

lemma resumable_elapsed: "resumable env catalog base start cache s \<Longrightarrow> rs_elapsed_ms s \<le> max_int - 3600000"
  by (simp add: resumable_def budget_valid_def budget_baseline_for_def Let_def)

lemma resumable_same:
  assumes "resumable env catalog base start cache s" "rs_usage s' = rs_usage s"
    "rs_version s' = rs_version s" "rs_elapsed_ms s' = rs_elapsed_ms s"
    "rs_tool_calls s' = rs_tool_calls s" "rs_read_bytes s' = rs_read_bytes s"
    "rs_validation_count s' = rs_validation_count s" "rs_review_count s' = rs_review_count s"
    "rs_read_rule_ids s' = rs_read_rule_ids s"
  shows "resumable env catalog base start cache s'"
  by (rule resumable_grows [OF assms(1)]) (use assms resumable_elapsed [OF assms(1)] in simp_all)

lemma resumable_saved:
  assumes "fair_service env lv" "resumable env catalog base start cache s"
  shows "resumable env catalog base start cache (fst (persist env s))"
proof -
  have "rs_elapsed_ms s \<le> en_now env s \<and> en_now env s \<le> max_int - 3600000"
    using assms(1) resumable_elapsed [OF assms(2)] by (simp add: fair_service_def)
  then show ?thesis by (intro resumable_grows [OF assms(2)]) (simp_all add: persist_def Let_def)
qed

text \<open>The usage of a response only grows: \<open>addUsage\<close> takes over consistent counters only.\<close>

lemma add_usage_grows:
  assumes "fair_service env lv"
  shows "usage_grows u (add_usage lv u response)"
proof (cases response)
  case None
  then show ?thesis by (simp add: add_usage_def usage_grows_def)
next
  case (Some r)
  show ?thesis
  proof (cases "\<exists>i out. re_input r = Some i \<and> re_output r = Some out \<and> valid_response_usage r i out")
    case False
    then show ?thesis
      by (cases "re_input r"; cases "re_output r") (auto simp: add_usage_def Some usage_grows_def Let_def)
  next
    case True
    then obtain i out where v: "re_input r = Some i" "re_output r = Some out" "valid_response_usage r i out" by blast
    let ?a = "of_int (i - re_cached r) * lv_input_price lv" and ?b = "of_int (re_cached r) * lv_cached_price lv"
      and ?c = "of_int out * lv_output_price lv"
      and ?d = "(of_int (re_write5m r) * (1 / 4) + of_int (re_write1h r)) * lv_input_price lv"
    have "0 \<le> ?a" "0 \<le> ?b" "0 \<le> ?c" "0 \<le> ?d"
      using v(3) assms by (auto simp: valid_response_usage_def fair_service_def)
    then have "0 \<le> (?a + ?b + ?c) / 1000000 + ?d / 1000000" by simp
    then show ?thesis using v by (auto simp: add_usage_def Some usage_grows_def Let_def valid_response_usage_def)
  qed
qed

lemma settle_response_grows:
  "usage_grows no_usage u \<Longrightarrow> usage_grows (rs_usage s) (rs_usage (settle_response u s))"
  by (auto simp: settle_response_def usage_grows_def Let_def no_usage_def)

lemma read_rule_page_cache:
  assumes "read_rule_page rules (en_read_rule env) offsets cache rid offset = Inr (g, offsets', cache')"
    "cache_ok env catalog cache" "ru_id ` set rules \<subseteq> catalog"
  shows "cache_ok env catalog cache'"
proof -
  have known: "valid_rule_id rid" "rid \<in> ru_id ` set rules"
    using assms(1) by (auto simp: read_rule_page_def list_ex_iff split: if_splits)
  obtain w where w: "(case cache rid of Some v \<Rightarrow> Some v | None \<Rightarrow> en_read_rule env rid) = Some w" "valid_utf8 w"
      "cache' = (if offset_of offsets' rid \<ge> int (length w) then cache(rid \<mapsto> w) else cache)"
    by (rule read_rule_page_Inr [OF assms(1)]) (rule that; assumption)
  have "en_read_rule env rid = Some w"
    using w(1) assms(2) by (auto simp: cache_ok_def split: option.splits)
  moreover from this have "readable env catalog rid" using known w(2) assms(3) by (auto simp: readable_def)
  ultimately show ?thesis using assms(2) w(3) by (auto simp: cache_ok_def)
qed

lemma read_rule_rows_cache:
  assumes "ru_id ` set rules \<subseteq> catalog"
  shows "read_rule_rows rules (en_read_rule env) ids bytes offsets cache = Inr (rows, unread, offsets', cache') \<Longrightarrow>
     cache_ok env catalog cache \<Longrightarrow> cache_ok env catalog cache'"
proof (induction ids arbitrary: bytes offsets cache rows unread)
  case (Cons rid rids)
  show ?case
  proof (cases "\<exists>unread'. read_rule_rows rules (en_read_rule env) rids bytes offsets cache =
      Inr (rows, unread', offsets', cache')")
    case True
    then show ?thesis using Cons.IH Cons.prems(2) by blast
  next
    case False
    then obtain g offsets1 cache1 rows1 where
        r: "read_rule_page rules (en_read_rule env) offsets cache rid 0 = Inr (g, offsets1, cache1)"
        "read_rule_rows rules (en_read_rule env) rids (bytes + rule_page_json_len g) offsets1 cache1 =
          Inr (rows1, unread, offsets', cache')"
      using Cons.prems(1) by (auto split: if_splits sum.splits prod.splits)
    from Cons.IH [OF r(2) read_rule_page_cache [OF r(1) Cons.prems(2) assms]] show ?thesis .
  qed
qed auto

lemma read_rules_paged_cache:
  assumes "read_rules_paged rules (en_read_rule env) offsets cache call = Inr (reply, offsets', cache')"
    "cache_ok env catalog cache" "ru_id ` set rules \<subseteq> catalog"
  shows "cache_ok env catalog cache'"
proof -
  have "(\<exists>rid offset g. read_rule_page rules (en_read_rule env) offsets cache rid offset = Inr (g, offsets', cache')) \<or>
      (\<exists>ids rows unread. read_rule_rows rules (en_read_rule env) ids 0 offsets cache = Inr (rows, unread, offsets', cache'))"
    using assms(1) by (auto simp: read_rules_paged_def Let_def simp del: read_rule_rows.simps
        split: rule_call.splits sum.splits prod.splits if_splits option.splits)
  then show ?thesis
    using read_rule_page_cache [OF _ assms(2,3)] read_rule_rows_cache [OF assms(3) _ assms(2)] by blast
qed

lemma sorted_rule_ids_in: "rid \<in> set (sorted_rule_ids rules cache) \<Longrightarrow> rid \<in> ru_id ` set rules \<and> cache rid \<noteq> None"
  by (auto simp: sorted_rule_ids_def)

subsection \<open>Every tool keeps a state resumable\<close>

lemma resumable_reread:
  assumes "resumable env catalog base start cache s" "cache_ok env catalog cache'"
    "rs_usage s' = rs_usage s" "rs_version s' = rs_version s" "rs_elapsed_ms s' = rs_elapsed_ms s"
    "rs_tool_calls s' = rs_tool_calls s" "rs_read_bytes s' = rs_read_bytes s"
    "rs_validation_count s' = rs_validation_count s" "rs_review_count s' = rs_review_count s"
    "rs_read_rule_ids s' = sorted_rule_ids rules cache'"
  shows "resumable env catalog base start cache' s'"
proof -
  let ?s = "s'\<lparr>rs_read_rule_ids := rs_read_rule_ids s\<rparr>"
  have "resumable env catalog base start cache ?s"
    by (rule resumable_same [OF assms(1)]) (use assms(3-9) in simp_all)
  moreover have "valid_repair_counters s' = valid_repair_counters ?s" "budget_valid base s' = budget_valid base ?s"
    by (simp_all add: valid_repair_counters_def budget_valid_def budget_baseline_for_def Let_def)
  moreover have "\<forall>rid \<in> set (rs_read_rule_ids s'). readable env catalog rid"
    using assms(2,10) by (auto simp: sorted_rule_ids_def cache_ok_def)
  ultimately show ?thesis using assms(2,3,4) by (simp add: resumable_def)
qed

lemma resumable_counted:
  assumes "resumable env catalog base start cache s"
  shows "resumable env catalog base start cache
    (s\<lparr>rs_last_candidate := c, rs_validation_count := rs_validation_count s + 1\<rparr>)"
  using resumable_elapsed [OF assms] by (intro resumable_grows [OF assms]) simp_all

lemma stage_resumable:
  assumes fair: "fair_service env lv" and res: "resumable env catalog base start cache s"
  shows "resumable env catalog base start cache (fst (stage_edits_tool env update s))"
proof (cases "stage_edits s update (en_content env) (en_base_hash env)")
  case (Inl e)
  then show ?thesis using res by (simp add: stage_edits_tool_def)
next
  case (Inr s')
  then obtain staged where "s' = s\<lparr>rs_staged_edits := staged, rs_last_candidate := None\<rparr>"
    unfolding stage_edits_Inr by blast
  then have "resumable env catalog base start cache s'" by (intro resumable_same [OF res]) simp_all
  then show ?thesis using res resumable_saved [OF fair] by (simp add: stage_edits_tool_def Inr persist_cases)
qed

lemma update_resumable:
  assumes fair: "fair_service env lv" and res: "resumable env catalog base start cache s"
  shows "resumable env catalog base start cache (fst (update_state_tool env rules c update s))"
proof -
  have "resumable env catalog base start cache (fst (persist env (s\<lparr>rs_plan := plan\<rparr>)))" for plan
    by (rule resumable_saved [OF fair], rule resumable_same [OF res]) simp_all
  then show ?thesis using res
    by (auto simp: update_state_tool_def persist_cases split: sum.splits)
qed

lemma validation_resumable:
  assumes fair: "fair_service env lv" and res: "resumable env catalog base start cache s"
  shows "resumable env catalog base start cache (fst (validate_tool env required whole request s))"
proof -
  define s1 where "s1 = fst (persist env (s\<lparr>rs_last_candidate := None,
      rs_validation_count := rs_validation_count s + 1\<rparr>))"
  have s1: "resumable env catalog base start cache s1"
    unfolding s1_def by (intro resumable_saved [OF fair] resumable_counted res)
  have "resumable env catalog base start cache (fst (persist env (s1\<lparr>rs_last_candidate := c\<rparr>)))"
    "resumable env catalog base start cache
       (fst (persist env (s1\<lparr>rs_last_candidate := c, rs_staged_edits := es\<rparr>)))" for c es
    by (rule resumable_saved [OF fair], rule resumable_same [OF s1]; simp)+
  then show ?thesis
    using res s1
    by (auto simp: validate_tool_def run_validation_def Let_def case_prod_beta s1_def split: option.split)
qed

lemma tool_resumable:
  assumes fair: "fair_service env lv" and res: "resumable env catalog base start cache s" "ru_id ` set rules \<subseteq> catalog"
    "execute_repair_tool env rules required tool (s, cache) = ((s', cache'), result)"
  shows "resumable env catalog base start cache' s'"
proof -
  have ok: "cache_ok env catalog cache" using res(1) by (simp add: resumable_def)
  have reread: "resumable env catalog base start cache (s\<lparr>rs_read_rule_ids := sorted_rule_ids rules cache\<rparr>)"
    by (rule resumable_reread [OF res(1) ok]) simp_all
  show ?thesis
  proof (cases tool)
    case (ToolReadRules rcall)
    show ?thesis
    proof (cases "read_rules_paged rules (en_read_rule env) (rs_rule_read_offsets s) cache rcall")
      case (Inl e)
      then show ?thesis using res(3) reread by (auto simp: execute_repair_tool_def ToolReadRules)
    next
      case (Inr x)
      then obtain reply offsets c where x: "read_rules_paged rules (en_read_rule env) (rs_rule_read_offsets s) cache rcall =
          Inr (reply, offsets, c)" by (metis prod_cases3)
      have "s' = s\<lparr>rs_rule_read_offsets := offsets, rs_read_rule_ids := sorted_rule_ids rules c\<rparr>" "cache' = c"
        using res(3) x by (auto simp: execute_repair_tool_def ToolReadRules)
      then show ?thesis
        using resumable_reread [OF res(1) read_rules_paged_cache [OF x ok res(2)], of s' rules] by simp
    qed
  qed (use res(1,3) reread stage_resumable [OF fair res(1)] update_resumable [OF fair res(1)]
        validation_resumable [OF fair res(1)] in
      \<open>auto simp: execute_repair_tool_def case_prod_beta split: if_splits\<close>)
qed

subsection \<open>The loop keeps a state resumable\<close>

lemma resumable_accounting:
  assumes "resumable env catalog base start cache s"
  shows "resumable env catalog base start cache (review_requested rid s)"
    "resumable env catalog base start cache (reserve_turn rid s)"
    "usage_grows no_usage u \<Longrightarrow> resumable env catalog base start cache (review_settled u unknown s)"
    "usage_grows no_usage u \<Longrightarrow> resumable env catalog base start cache (settle_response u s)"
    "resumable env catalog base start cache (failed_usage unknown attempts s)"
    "resumable env catalog base start cache (s\<lparr>rs_request_pending := b\<rparr>)"
    "resumable env catalog base start cache (s\<lparr>rs_usage := (rs_usage s)\<lparr>us_uncertain := b\<rparr>\<rparr>)"
    "resumable env catalog base start cache (s\<lparr>rs_tool_calls := rs_tool_calls s + 1\<rparr>)"
    "0 \<le> n \<Longrightarrow> resumable env catalog base start cache (s\<lparr>rs_read_bytes := rs_read_bytes s + n\<rparr>)"
    "resumable env catalog base start cache (s\<lparr>rs_last_candidate := c\<rparr>)"
    "resumable env catalog base start cache (fst (publish_review r i s))"
  using resumable_elapsed [OF assms]
  by (auto intro!: resumable_grows [OF assms] simp: review_requested_def reserve_turn_def review_settled_def
      settle_response_def failed_usage_def usage_grows_def no_usage_def Let_def publish_review_fields)

definition kept_resumable ::
  "repair_env \<Rightarrow> loop_service \<Rightarrow> rule_id set \<Rightarrow> budget \<Rightarrow> repair_state \<Rightarrow> rule_cache \<Rightarrow> repair_state \<Rightarrow> bool" where
  "kept_resumable env lv catalog base start cache s \<longleftrightarrow>
     (fair_service env lv \<longrightarrow> resumable env catalog base start cache s)"

interpretation resuming: loop_frame env lv "kept_resumable env lv catalog base start" required
  "\<lambda>rules. ru_id ` set rules \<subseteq> catalog" for env lv catalog base start required
proof (unfold_locales, goal_cases)
  case (3 inp evs answer u unknown c s)
  have "usage_grows no_usage u" if "fair_service env lv"
    using that 3(1,2) unfolding fair_service_def by blast
  then show ?case using resumable_accounting(3) [of env catalog base start c s u unknown] 3(3)
    by (auto simp: kept_resumable_def)
next
  case (8 c s response)
  then show ?case
    using resumable_accounting(4) [of env catalog base start c s] add_usage_grows by (auto simp: kept_resumable_def)
next
  case (13 c s result)
  then show ?case
    using resumable_accounting(9) [of env catalog base start c s] by (auto simp: kept_resumable_def fair_service_def)
next
  case (14 rules c s tool s' c' result)
  then show ?case using tool_resumable by (fastforce simp: kept_resumable_def)
next
  case (15 rules)
  then show ?case by (auto simp: unpin_def)
qed (auto simp: kept_resumable_def intro: resumable_accounting resumable_saved)

lemma restore_rules_cache:
  "restore_rules catalog (en_read_rule env) ids cache = Inr cache' \<Longrightarrow> cache_ok env catalog cache \<Longrightarrow>
     cache_ok env catalog cache' \<and> (\<forall>rid \<in> set ids. readable env catalog rid)"
proof (induction ids arbitrary: cache)
  case (Cons rid ids)
  then obtain v where v: "valid_rule_id rid" "rid \<in> catalog" "en_read_rule env rid = Some v" "valid_utf8 v"
      "restore_rules catalog (en_read_rule env) ids (cache(rid \<mapsto> v)) = Inr cache'"
    by (auto split: if_splits option.splits)
  then have "readable env catalog rid" by (simp add: readable_def)
  moreover from this have "cache_ok env catalog (cache(rid \<mapsto> v))" using Cons.prems(2) v(3) by (auto simp: cache_ok_def)
  ultimately show ?case using Cons.IH [OF v(5)] by (simp del: fun_upd_apply)
qed simp

lemma restore_rules_total:
  "\<forall>rid \<in> set ids. readable env catalog rid \<Longrightarrow>
     \<exists>cache'. restore_rules catalog (en_read_rule env) ids cache = Inr cache'"
  by (induction ids arbitrary: cache) (auto simp: readable_def)

lemma admit_state_Inr:
  assumes "admit_state inp s = Inr start"
  shows "rs_version start = 1" "valid_repair_counters start" "budget_valid (in_baseline inp) start"
    "rs_read_rule_ids start = rs_read_rule_ids s"
  using assms by (auto simp: admit_state_def valid_repair_counters_def budget_valid_def budget_baseline_for_def Let_def
      split: if_splits)

lemma run_keeps_resumable:
  assumes "run_with_hash env lv inp turns = Inr (lo, u, r)" "fair_service env lv"
    "\<forall>rid \<in> set (rs_read_rule_ids (restored_state (in_state inp))). readable env (ru_id ` set (in_rules inp)) rid"
  obtains start where "resumable env (ru_id ` set (in_rules inp)) (in_baseline inp) start (lo_cache lo) (lo_state lo)"
    "\<exists>b. u = usage_difference (rs_usage (lo_state lo)) (rs_usage start)\<lparr>us_uncertain := b\<rparr>"
proof -
  let ?cat = "ru_id ` set (in_rules inp)" and ?base = "in_baseline inp"
  obtain start lo1 result where s: "admit_state inp (restored_state (in_state inp)) = Inr start"
    "finish_run env lv start lo1 result = (lo, u, r)"
    "(\<exists>e. restore_rules (set (map ru_id (in_rules inp))) (en_read_rule env) (rs_read_rule_ids start) Map.empty = Inl e \<and>
         result = TurnFailed e \<and> lo_state lo1 = start) \<or>
     (\<exists>cache lo0. restore_rules (set (map ru_id (in_rules inp))) (en_read_rule env) (rs_read_rule_ids start) Map.empty
           = Inr cache \<and>
         lo0 = \<lparr>lo_state = restage start, lo_cache = cache, lo_seen = {}, lo_rules = started_rules inp,
                lo_new_uncertain = False\<rparr> \<and>
         (resume_review env lv (map ru_id (in_rules inp)) lo0 = (lo1, result) \<and> result \<noteq> TurnContinue \<or>
          (\<exists>lo2. resume_review env lv (map ru_id (in_rules inp)) lo0 = (lo2, TurnContinue) \<and>
             editor_loop env lv (map ru_id (in_rules inp)) turns lo2 = (lo1, result))))"
    by (rule run_with_hash_Inr [OF assms(1)]) (rule that; assumption)
  note start = admit_state_Inr [OF s(1)]
  have ids: "\<forall>rid \<in> set (rs_read_rule_ids start). readable env ?cat rid" using assms(3) start(4) by simp
  then obtain cache where cache: "restore_rules ?cat (en_read_rule env) (rs_read_rule_ids start) Map.empty = Inr cache"
    using restore_rules_total by blast
  have ok: "cache_ok env ?cat cache" using restore_rules_cache [OF cache] by (simp add: cache_ok_def)
  have res: "resumable env ?cat ?base start cache start" using start ids ok by (simp add: resumable_def)
  have "resumable env ?cat ?base start cache (restage start)"
    by (rule resumable_same [OF res]) (auto simp: restage_def split: option.split)
  define lo0 where "lo0 = \<lparr>lo_state = restage start, lo_cache = cache, lo_seen = {}, lo_rules = started_rules inp,
                lo_new_uncertain = False\<rparr>"
  have k0: "resuming.keeps env lv ?cat ?base start lo0"
    unfolding resuming.keeps_def kept_resumable_def lo0_def
    using \<open>resumable env ?cat ?base start cache (restage start)\<close> by (auto simp: started_rules_def unpin_def)
  have "resume_review env lv (map ru_id (in_rules inp)) lo0 = (lo1, result) \<or>
      (\<exists>lo2. resume_review env lv (map ru_id (in_rules inp)) lo0 = (lo2, TurnContinue) \<and>
             editor_loop env lv (map ru_id (in_rules inp)) turns lo2 = (lo1, result))"
    using s(3) cache by (auto simp: lo0_def)
  then have "resuming.keeps env lv ?cat ?base start lo1"
    using resuming.resume_kept resuming.loop_kept k0 by blast
  then have "resuming.keeps env lv ?cat ?base start lo" using resuming.finish_kept [OF s(2)] by blast
  then have "resumable env ?cat ?base start (lo_cache lo) (lo_state lo)"
    using assms(2) unfolding resuming.keeps_def kept_resumable_def by blast
  moreover have "\<exists>b. u = usage_difference (rs_usage (lo_state lo)) (rs_usage start)\<lparr>us_uncertain := b\<rparr>"
    using s(2) by (auto simp: finish_run_def run_usage_def Let_def case_prod_beta)
  ultimately show thesis by (rule that)
qed

subsection \<open>Property\<close>


text \<open>A run that is cut after a failed request with unknown usage.\<close>

definition clocked_env :: repair_env where
  "clocked_env = sample_env\<lparr>en_now := rs_elapsed_ms\<rparr>"

definition lost_turn :: turn where
  "lost_turn = sample_turn\<lparr>tu_answer := AnsFailed True False 3\<rparr>"

definition lost_run :: "loop_state \<times> usage \<times> turn_result" where
  "lost_run = (case run_repair clocked_env sample_loop_service sample_input [lost_turn] of Inr x \<Rightarrow> x)"

lemma clocked_fair: "fair_service clocked_env sample_loop_service"
proof -
  have "evs = [EventBefore ''q'']" if "sv_reviewer sample_service inp = (evs, answer)" for inp evs answer
    using that by (simp add: sample_service_def)
  then have "usage_grows no_usage u"
    if "sv_reviewer sample_service inp = (evs, answer)" "EventAfter u b \<in> set evs" for inp evs answer u b
    using that by fastforce
  then show ?thesis by (auto simp: fair_service_def sample_loop_service_def clocked_env_def)
qed

lemma lost_run_eq:
  "run_repair clocked_env sample_loop_service sample_input [lost_turn] =
     Inr (fst lost_run, fst (snd lost_run), TurnFailed LoopRequest) \<and> us_turns (fst (snd lost_run)) = 3"
proof -
  have "check_run_input (run_env clocked_env sample_input) sample_loop_service sample_input = None"
    using sample_input_checked by (simp add: check_run_input_def run_env_def clocked_env_def)
  note c = this
  have "case run_with_hash (run_env clocked_env sample_input) sample_loop_service sample_input [lost_turn] of
      Inl e \<Rightarrow> False | Inr x \<Rightarrow> snd (snd x) = TurnFailed LoopRequest \<and> us_turns (fst (snd x)) = 3"
    unfolding run_with_hash_def c option.case by code_simp
  then show ?thesis by (auto simp: lost_run_def run_repair_def prod_eq_iff split: sum.splits)
qed


end
