(* ===== verification/ReviewRecovery.thy ===== *)
theory ReviewRecovery
  imports RepairLoop
begin

section \<open>The built-in reviewer\<close>

text \<open>
  \<open>Review\<close> and \<open>reviewResponse\<close> of \<open>internal/agent/review.go\<close> and the paged recovery of
  \<open>internal/agent/review_recovery.go\<close>. When one response cannot hold the review, or is not accepted,
  the reviewer goes on with small tool calls over durable findings: it reads the sources and rules
  page by page, records assessments and issues, and finishes with a verdict that is parsed as if it
  had come in one piece, once everything was sent. The provider is a list of turns, as in the repair
  loop; what the review tells the gate is the list of its callbacks. The JSON text of the catalog and
  of the saved findings is a parameter.
\<close>

record review_update =
  up_assessments :: "review_assessment list"
  up_issues :: "(string \<times> review_issue) list"
  up_holds :: "review_hold_assessment list"
  up_removed :: "string list"

datatype read_key = KeyCatalog | KeyBefore | KeyAfter | KeyRule rule_id

record recovery =
  rc_assessments :: "rule_id \<rightharpoonup> review_assessment"
  rc_issues :: "(string \<times> review_issue) list"
  rc_holds :: "item_id \<rightharpoonup> review_hold_assessment"
  rc_read :: "read_key \<Rightarrow> (nat \<times> nat) list"

datatype recovery_call =
    RcMalformed | RcUnknown
  | RcSource string int | RcRule rule_id int | RcCatalog int | RcState int
  | RcRecord review_update

datatype recovery_error =
    RcErrArguments | RcErrUnknown | RcErrSource | RcErrRule | RcErrOffset | RcErrAssessment | RcErrStatus
  | RcErrHold | RcErrIssueRule | RcErrIssueKind | RcErrIssueField | RcErrBasis | RcErrLocation location_error

record review_page =
  vp_content :: string
  vp_offset :: nat
  vp_next :: nat
  vp_complete :: bool
  vp_start_line :: nat

text \<open>The reply to a recorded update: the number of issues, and whether all was read.\<close>

datatype recovery_reply = RcPage review_page | RcRecorded nat bool

datatype review_failure =
    RvInput review_input_error | RvBuild | RvCancelled | RvNoId | RvRequest | RvIncomplete | RvWaiting

record review_text =
  vx_catalog :: "review_input \<Rightarrow> string"
  vx_state :: "review_input \<Rightarrow> recovery \<Rightarrow> string"
  vx_failure :: "review_failure \<Rightarrow> string"

definition new_recovery :: recovery where
  "new_recovery = \<lparr>rc_assessments = Map.empty, rc_issues = [], rc_holds = Map.empty, rc_read = (\<lambda>_. [])\<rparr>"

subsection \<open>The findings\<close>

text \<open>The map of issues is kept as entries with distinct IDs; the result lists them by ID.\<close>

definition set_issue :: "string \<Rightarrow> review_issue \<Rightarrow> (string \<times> review_issue) list \<Rightarrow> (string \<times> review_issue) list" where
  "set_issue k i entries = upsert_key fst (k, i) entries"

definition recovery_result :: "review_input \<Rightarrow> recovery \<Rightarrow> independent_review" where
  "recovery_result inp s =
     \<lparr>rv_id = [], rv_candidate_id = [], rv_base_hash = vi_base_hash inp, rv_candidate_hash = vi_candidate_hash inp,
      rv_plan_revision = 0, rv_verdict = V_other [], rv_summary = [],
      rv_assessments = List.map_filter (\<lambda>r. rc_assessments s (rr_id r)) (vi_rules inp),
      rv_issues = map snd (sort_key fst (rc_issues s)),
      rv_hold_assessments = List.map_filter (\<lambda>h. rc_holds s (rh_item_id h)) (vi_holds inp),
      rv_usage = no_usage, rv_started_at = [], rv_finished_at = []\<rparr>"

fun restore_issues :: "nat \<Rightarrow> review_issue list \<Rightarrow> (string \<times> review_issue) list \<Rightarrow> (string \<times> review_issue) list" where
  "restore_issues n [] entries = entries"
| "restore_issues n (i # is) entries =
     restore_issues (n + 1) is (set_issue (''saved-'' @ decimal (n + 1)) i entries)"

definition restore_recovery :: "independent_review option \<Rightarrow> recovery \<Rightarrow> recovery" where
  "restore_recovery prior s =
     (case prior of
        None \<Rightarrow> s
      | Some r \<Rightarrow>
          s\<lparr>rc_assessments := foldl (\<lambda>m a. m(ra_rule_id a \<mapsto> a)) (rc_assessments s) (rv_assessments r),
            rc_issues := restore_issues 0 (rv_issues r) (rc_issues s),
            rc_holds := foldl (\<lambda>m h. m(ha_item_id h \<mapsto> h)) (rc_holds s) (rv_hold_assessments r)\<rparr>)"

subsection \<open>What was read\<close>

fun covered_from :: "nat \<Rightarrow> (nat \<times> nat) list \<Rightarrow> nat option" where
  "covered_from e [] = Some e"
| "covered_from e ((a, b) # rs) = (if a > e then None else covered_from (max e b) rs)"

definition covered_review_bytes :: "(nat \<times> nat) list \<Rightarrow> nat \<Rightarrow> bool" where
  "covered_review_bytes ranges len =
     (case covered_from 0 (sort_key fst ranges) of None \<Rightarrow> False | Some e \<Rightarrow> e \<ge> len)"

definition mark_all_read :: "review_text \<Rightarrow> review_input \<Rightarrow> recovery \<Rightarrow> recovery" where
  "mark_all_read vx inp s =
     s\<lparr>rc_read := (\<lambda>key. case key of
          KeyCatalog \<Rightarrow> [(0, length (vx_catalog vx inp))]
        | KeyBefore \<Rightarrow> [(0, length (vi_before inp))]
        | KeyAfter \<Rightarrow> [(0, length (vi_after inp))]
        | KeyRule rid \<Rightarrow>
            (case find (\<lambda>r. rr_id r = rid) (rev (vi_rules inp)) of
               None \<Rightarrow> rc_read s key
             | Some r \<Rightarrow> [(0, length (rr_body r))]))\<rparr>"

definition complete_read :: "review_text \<Rightarrow> review_input \<Rightarrow> recovery \<Rightarrow> bool" where
  "complete_read vx inp s \<longleftrightarrow>
     \<not> ((vi_holds inp \<noteq> [] \<or> vi_diagnostics inp \<noteq> []) \<and>
         \<not> covered_review_bytes (rc_read s KeyCatalog) (length (vx_catalog vx inp))) \<and>
     covered_review_bytes (rc_read s KeyBefore) (length (vi_before inp)) \<and>
     covered_review_bytes (rc_read s KeyAfter) (length (vi_after inp)) \<and>
     list_all (\<lambda>r. covered_review_bytes (rc_read s (KeyRule (rr_id r))) (length (rr_body r))) (vi_rules inp)"

subsection \<open>The tools of the recovery\<close>

definition review_page_bytes :: nat where "review_page_bytes = 24 * 1024"

definition read_review_page :: "string \<Rightarrow> int \<Rightarrow> review_page option" where
  "read_review_page content offset =
     (if offset < 0 \<or> offset > int (length content)
         \<or> offset < int (length content) \<and> \<not> rune_start (content ! nat offset) then None
      else
        let lo = nat offset; e = back_up content (min (length content) (lo + review_page_bytes)) in
        Some \<lparr>vp_content = slice lo e content, vp_offset = lo, vp_next = e, vp_complete = (e = length content),
              vp_start_line = 1 + count_list (take lo content) LF\<rparr>)"

definition check_update_assessment :: "rule_id set \<Rightarrow> review_assessment \<Rightarrow> recovery_error option" where
  "check_update_assessment rules a =
     (if ra_rule_id a \<notin> rules \<or> blank (ra_reason a) then Some RcErrAssessment
      else (case ra_status a of A_other _ \<Rightarrow> Some RcErrStatus | _ \<Rightarrow> None))"

definition check_update_hold :: "item_id set \<Rightarrow> review_hold_assessment \<Rightarrow> recovery_error option" where
  "check_update_hold holds h =
     (if ha_item_id h \<notin> holds \<or> blank (ha_reason h) \<or> ha_status h \<noteq> H_preserved \<and> ha_status h \<noteq> H_unsafe
      then Some RcErrHold else None)"

definition check_update_issue :: "review_input \<Rightarrow> rule_id set \<Rightarrow> string \<times> review_issue \<Rightarrow> recovery_error option" where
  "check_update_issue inp rules entry =
     (case entry of (k, i) \<Rightarrow>
        if blank k \<or> ri_rule_id i \<noteq> [] \<and> ri_rule_id i \<notin> rules then Some RcErrIssueRule
        else if ri_kind i \<noteq> K_needs_changes \<and> ri_kind i \<noteq> K_needs_human then Some RcErrIssueKind
        else if \<not> issue_fields_ok i then Some RcErrIssueField
        else (case issue_source inp i of
          None \<Rightarrow> Some RcErrBasis
        | Some source \<Rightarrow>
            (case resolve_source_location source (issue_place i) of
               Inl e \<Rightarrow> Some (RcErrLocation e)
             | Inr _ \<Rightarrow> None)))"

fun first_error :: "('a \<Rightarrow> 'e option) \<Rightarrow> 'a list \<Rightarrow> 'e option" where
  "first_error f [] = None"
| "first_error f (x # xs) = (case f x of Some e \<Rightarrow> Some e | None \<Rightarrow> first_error f xs)"

definition check_update :: "review_input \<Rightarrow> review_update \<Rightarrow> recovery_error option" where
  "check_update inp u =
     (let rules = rr_id ` set (vi_rules inp); holds = rh_item_id ` set (vi_holds inp) in
      case first_error (check_update_assessment rules) (up_assessments u) of Some e \<Rightarrow> Some e | None \<Rightarrow>
     (case first_error (check_update_hold holds) (up_holds u) of Some e \<Rightarrow> Some e | None \<Rightarrow>
      first_error (check_update_issue inp rules) (up_issues u)))"

definition record_update :: "review_update \<Rightarrow> recovery \<Rightarrow> recovery" where
  "record_update u s =
     s\<lparr>rc_assessments := foldl (\<lambda>m a. m(ra_rule_id a \<mapsto> a)) (rc_assessments s) (up_assessments u),
       rc_issues := foldl (\<lambda>es (k, i). set_issue k i es)
         (filter (\<lambda>p. fst p \<notin> set (up_removed u)) (rc_issues s)) (up_issues u),
       rc_holds := foldl (\<lambda>m h. m(ha_item_id h \<mapsto> h)) (rc_holds s) (up_holds u)\<rparr>"

definition read_reply ::
  "read_key option \<Rightarrow> string \<Rightarrow> int \<Rightarrow> recovery \<Rightarrow> recovery \<times> (recovery_error, recovery_reply) outcome" where
  "read_reply key content offset s =
     (case read_review_page content offset of
        None \<Rightarrow> (s, Inl RcErrOffset)
      | Some p \<Rightarrow>
          ((case key of
              None \<Rightarrow> s
            | Some k \<Rightarrow> s\<lparr>rc_read := (rc_read s)(k := rc_read s k @ [(vp_offset p, vp_next p)])\<rparr>),
           Inr (RcPage p)))"

definition execute_review_call ::
  "review_text \<Rightarrow> review_input \<Rightarrow> recovery_call \<Rightarrow> recovery \<Rightarrow> recovery \<times> (recovery_error, recovery_reply) outcome" where
  "execute_review_call vx inp call s =
     (case call of
        RcMalformed \<Rightarrow> (s, Inl RcErrArguments)
      | RcUnknown \<Rightarrow> (s, Inl RcErrUnknown)
      | RcCatalog offset \<Rightarrow> read_reply (Some KeyCatalog) (vx_catalog vx inp) offset s
      | RcState offset \<Rightarrow> read_reply None (vx_state vx inp s) offset s
      | RcSource name offset \<Rightarrow>
          if name = ''before'' then read_reply (Some KeyBefore) (vi_before inp) offset s
          else if name = ''after'' then read_reply (Some KeyAfter) (vi_after inp) offset s
          else (s, Inl RcErrSource)
      | RcRule rid offset \<Rightarrow>
          (case find (\<lambda>r. rr_id r = rid) (vi_rules inp) of
             None \<Rightarrow> (s, Inl RcErrRule)
           | Some r \<Rightarrow> read_reply (Some (KeyRule rid)) (rr_body r) offset s)
      | RcRecord u \<Rightarrow>
          (case check_update inp u of
             Some e \<Rightarrow> (s, Inl e)
           | None \<Rightarrow>
               let s' = record_update u s in
               (s', Inr (RcRecorded (length (rc_issues s')) (complete_read vx inp s')))))"

subsection \<open>One request of a review\<close>

datatype review_output =
    VoMalformed
  | VoDecoded "recovery_call list" "independent_review option" "(verdict \<times> string) option"

datatype review_answer =
    VaFailed (va_context: bool) (va_unknown: bool) (va_attempts: int)
  | VaGot "response_usage option" completion review_output

record review_turn =
  vt_cancelled :: bool
  vt_built :: bool
  vt_request_id :: "string option"
  vt_answer :: review_answer

definition review_usage :: "loop_service \<Rightarrow> review_answer \<Rightarrow> usage" where
  "review_usage lv a =
     (case a of
        VaFailed context unknown attempts \<Rightarrow>
          no_usage\<lparr>us_turns := max 1 attempts, us_uncertain := unknown\<rparr>
      | VaGot response _ _ \<Rightarrow> add_usage lv no_usage response)"

definition review_unknown :: "review_answer \<Rightarrow> bool" where
  "review_unknown a = (case a of VaFailed _ unknown _ \<Rightarrow> unknown | _ \<Rightarrow> False)"

text \<open>The callbacks of a request, its usage, and its answer; a cancelled one is not sent.\<close>

definition review_response ::
  "loop_service \<Rightarrow> review_turn \<Rightarrow> review_event list \<times> usage \<times> (review_failure, review_answer) outcome" where
  "review_response lv t =
     (if vt_cancelled t then ([], no_usage, Inl RvCancelled)
      else (case vt_request_id t of
        None \<Rightarrow> ([], no_usage, Inl RvNoId)
      | Some rid \<Rightarrow>
          ([EventBefore rid, EventAfter (review_usage lv (vt_answer t)) (review_unknown (vt_answer t))],
           review_usage lv (vt_answer t), Inr (vt_answer t))))"

subsection \<open>The recovery loop\<close>

fun run_review_calls ::
  "review_text \<Rightarrow> review_input \<Rightarrow> recovery_call list \<Rightarrow> recovery \<Rightarrow> recovery \<times> review_event list" where
  "run_review_calls vx inp [] s = (s, [])"
| "run_review_calls vx inp (c # cs) s =
     (case execute_review_call vx inp c s of (s1, reply) \<Rightarrow>
      (case run_review_calls vx inp cs s1 of (s2, evs) \<Rightarrow>
        (s2, (case (c, reply) of
                (RcRecord _, Inr _) \<Rightarrow> EventProgress (recovery_result inp s1) # evs
              | _ \<Rightarrow> evs))))"

definition finish_recovery ::
  "review_text \<Rightarrow> review_input \<Rightarrow> recovery \<Rightarrow> (verdict \<times> string) option \<Rightarrow> independent_review option" where
  "finish_recovery vx inp s final =
     (case final of
        None \<Rightarrow> None
      | Some (verdict, summary) \<Rightarrow>
          if \<not> complete_read vx inp s then None
          else (case parse_independent_review
                  (Some ((recovery_result inp s)\<lparr>rv_verdict := verdict, rv_summary := summary\<rparr>)) inp of
                  Inl _ \<Rightarrow> None
                | Inr parsed \<Rightarrow> Some parsed))"

datatype recovery_step = RsContinue bool recovery | RsFailed review_failure | RsDone independent_review

text \<open>What one answer does to the paging mode and the findings, with the callbacks it makes.\<close>

definition recovery_turn ::
  "review_text \<Rightarrow> review_input \<Rightarrow> review_answer \<Rightarrow> bool \<Rightarrow> recovery \<Rightarrow> review_event list \<times> recovery_step" where
  "recovery_turn vx inp a paged s =
     (case a of
        VaFailed context _ _ \<Rightarrow> ([], if context then RsContinue True s else RsFailed RvRequest)
      | VaGot _ completion out \<Rightarrow>
          let s1 = (if paged then s else mark_all_read vx inp s) in
          (case completion of
             CompleteFailed \<Rightarrow> ([], RsFailed RvIncomplete)
           | CompleteContextLimit \<Rightarrow> ([], RsContinue True s1)
           | CompleteOutputLimit \<Rightarrow> ([], RsContinue paged s1)
           | CompleteOk \<Rightarrow>
               (case out of
                  VoMalformed \<Rightarrow> ([], RsContinue paged s1)
                | VoDecoded calls _ final \<Rightarrow>
                    if calls \<noteq> [] then
                      (case run_review_calls vx inp calls s1 of (s2, evs) \<Rightarrow> (evs, RsContinue paged s2))
                    else (case finish_recovery vx inp s1 final of
                            Some r \<Rightarrow> ([], RsDone r)
                          | None \<Rightarrow> ([], RsContinue paged s1)))))"

fun recover_loop ::
  "review_text \<Rightarrow> loop_service \<Rightarrow> review_input \<Rightarrow> review_turn list \<Rightarrow> bool \<Rightarrow> usage \<Rightarrow> recovery \<Rightarrow>
     review_event list \<times> recovery \<times> (review_failure, independent_review) outcome" where
  "recover_loop vx lv inp [] paged usage s = ([], s, Inl RvWaiting)"
| "recover_loop vx lv inp (t # ts) paged usage s =
     (if vt_cancelled t then ([], s, Inl RvCancelled)
      else if \<not> vt_built t then ([], s, Inl RvBuild)
      else (case review_response lv t of (evs, delta, answer) \<Rightarrow>
        (case answer of
           Inl e \<Rightarrow> (evs, s, Inl e)
         | Inr a \<Rightarrow>
             (case recovery_turn vx inp a paged s of
                (evs', RsFailed e) \<Rightarrow> (evs @ evs', s, Inl e)
              | (evs', RsDone r) \<Rightarrow>
                  (evs @ evs', (if paged then s else mark_all_read vx inp s),
                   Inr (r\<lparr>rv_usage := add_review_usage usage delta\<rparr>))
              | (evs', RsContinue paged' s') \<Rightarrow>
                  (case recover_loop vx lv inp ts paged' (add_review_usage usage delta) s' of
                     (evs'', s'', r) \<Rightarrow> (evs @ evs' @ evs'', s'', r))))))"

subsection \<open>The review\<close>

definition has_findings :: "independent_review option \<Rightarrow> bool" where
  "has_findings prior \<longleftrightarrow>
     (case prior of
        None \<Rightarrow> False
      | Some r \<Rightarrow> rv_assessments r \<noteq> [] \<or> rv_issues r \<noteq> [] \<or> rv_hold_assessments r \<noteq> [])"

definition recover_review ::
  "review_text \<Rightarrow> loop_service \<Rightarrow> review_input \<Rightarrow> review_turn list \<Rightarrow> bool \<Rightarrow> usage \<Rightarrow>
     review_event list \<times> recovery \<times> (review_failure, independent_review) outcome" where
  "recover_review vx lv inp ts paged usage =
     recover_loop vx lv inp ts paged usage (restore_recovery (vi_prior inp) new_recovery)"

text \<open>
  What the first answer leads to: a review, a failure, or the recovery, paged when the context was
  exceeded.
\<close>

definition first_answer :: "review_input \<Rightarrow> review_answer \<Rightarrow> (review_failure, independent_review) outcome + bool" where
  "first_answer inp a =
     (case a of
        VaFailed context _ _ \<Rightarrow> if context then Inr True else Inl (Inl RvRequest)
      | VaGot _ completion out \<Rightarrow>
          (case completion of
             CompleteContextLimit \<Rightarrow> Inr True
           | CompleteOutputLimit \<Rightarrow> Inr False
           | CompleteFailed \<Rightarrow> Inl (Inl RvIncomplete)
           | CompleteOk \<Rightarrow>
               (case out of
                  VoMalformed \<Rightarrow> Inr False
                | VoDecoded calls answer _ \<Rightarrow>
                    if calls \<noteq> [] then Inr False
                    else (case parse_independent_review answer inp of
                            Inl _ \<Rightarrow> Inr False
                          | Inr parsed \<Rightarrow> Inl (Inr parsed)))))"

definition review ::
  "review_text \<Rightarrow> loop_service \<Rightarrow> review_turn list \<Rightarrow> review_input \<Rightarrow>
     review_event list \<times> recovery \<times> (review_failure, independent_review) outcome" where
  "review vx lv turns inp =
     (case validate_review_input inp of
        Some e \<Rightarrow> ([], new_recovery, Inl (RvInput e))
      | None \<Rightarrow>
          if has_findings (vi_prior inp) then recover_review vx lv inp turns False no_usage
          else (case turns of
            [] \<Rightarrow> ([], new_recovery, Inl RvWaiting)
          | t # ts \<Rightarrow>
              if \<not> vt_built t then ([], new_recovery, Inl RvBuild)
              else (case review_response lv t of (evs, usage, answer) \<Rightarrow>
                (case answer of
                   Inl e \<Rightarrow> (evs, new_recovery, Inl e)
                 | Inr a \<Rightarrow>
                     (case first_answer inp a of
                        Inl (Inl e) \<Rightarrow> (evs, new_recovery, Inl e)
                      | Inl (Inr parsed) \<Rightarrow> (evs, new_recovery, Inr (parsed\<lparr>rv_usage := usage\<rparr>))
                      | Inr paged \<Rightarrow>
                          (case recover_review vx lv inp ts paged usage of
                             (evs', s, r) \<Rightarrow> (evs @ evs', s, r)))))))"

text \<open>The review as the gate sees it.\<close>

definition built_in_reviewer ::
  "review_text \<Rightarrow> loop_service \<Rightarrow> review_turn list \<Rightarrow> review_input \<Rightarrow>
     review_event list \<times> (string, independent_review) outcome" where
  "built_in_reviewer vx lv turns inp =
     (case review vx lv turns inp of
        (evs, s, Inl e) \<Rightarrow> (evs, Inl (vx_failure vx e))
      | (evs, s, Inr r) \<Rightarrow> (evs, Inr r))"

subsection \<open>Coverage\<close>

definition in_ranges :: "(nat \<times> nat) list \<Rightarrow> nat \<Rightarrow> bool" where
  "in_ranges ranges i \<longleftrightarrow> (\<exists>(a, b) \<in> set ranges. a \<le> i \<and> i < b)"

lemma covered_from_sound:
  "covered_from e rs = Some f \<Longrightarrow> i < f \<Longrightarrow> i < e \<or> in_ranges rs i"
proof (induction e rs rule: covered_from.induct)
  case (2 e a b rs)
  then have "a \<le> e" "covered_from (max e b) rs = Some f" by (simp_all split: if_splits)
  from 2(1) [OF _ this(2) 2(3)] this(1) have "i < max e b \<or> in_ranges rs i" by simp
  then show ?case using \<open>a \<le> e\<close> by (auto simp: in_ranges_def)
qed simp

lemma covered_from_complete:
  assumes "sorted (map fst rs)" "\<forall>(a, b) \<in> set rs. a \<le> b \<and> b \<le> len" "\<forall>i < len. i < e \<or> in_ranges rs i"
  shows "\<exists>f. covered_from e rs = Some f \<and> f \<ge> len"
  using assms
proof (induction rs arbitrary: e)
  case Nil
  then have "len \<le> e" by (metis in_ranges_def empty_iff list.set(1) not_less nless_le)
  then show ?case by simp
next
  case (Cons r rs)
  obtain a b where r: "r = (a, b)" by (cases r)
  have "a \<le> e"
  proof (rule ccontr)
    assume "\<not> a \<le> e"
    moreover have "a \<le> b" "b \<le> len" using Cons.prems(2) by (simp_all add: r)
    ultimately have "in_ranges (r # rs) e" using Cons.prems(3) by (meson less_irrefl less_le_trans not_le)
    then obtain a' b' where "(a', b') \<in> set (r # rs)" "a' \<le> e" by (auto simp: in_ranges_def)
    moreover have "a \<le> a'" if "(a', b') \<in> set (r # rs)" for a' b' using that Cons.prems(1) r by force
    ultimately show False using \<open>\<not> a \<le> e\<close> by fastforce
  qed
  moreover have "\<exists>f. covered_from (max e b) rs = Some f \<and> f \<ge> len"
  proof (rule Cons.IH)
    show "\<forall>i < len. i < max e b \<or> in_ranges rs i"
      using Cons.prems(3) by (fastforce simp: in_ranges_def r)
  qed (use Cons.prems in auto)
  ultimately show ?case by (simp add: r)
qed

lemma covered_review_bytes_sound: "covered_review_bytes ranges len \<Longrightarrow> i < len \<Longrightarrow> in_ranges ranges i"
  using covered_from_sound [of 0 "sort_key fst ranges" _ i]
  by (auto simp: covered_review_bytes_def in_ranges_def split: option.splits)

lemma covered_review_bytes_iff:
  assumes "\<forall>(a, b) \<in> set ranges. a \<le> b \<and> b \<le> len"
  shows "covered_review_bytes ranges len \<longleftrightarrow> (\<forall>i < len. in_ranges ranges i)"
proof
  assume "\<forall>i < len. in_ranges ranges i"
  then have "\<forall>i < len. i < 0 \<or> in_ranges (sort_key fst ranges) i" by (simp add: in_ranges_def)
  from covered_from_complete [OF _ _ this] assms show "covered_review_bytes ranges len"
    by (auto simp: covered_review_bytes_def)
qed (use covered_review_bytes_sound in blast)

subsection \<open>A returned review was accepted\<close>

lemma finish_recovery_Some:
  assumes "finish_recovery vx inp s final = Some r"
  obtains verdict summary where "final = Some (verdict, summary)" "complete_read vx inp s"
    "parse_independent_review
       (Some ((recovery_result inp s)\<lparr>rv_verdict := verdict, rv_summary := summary\<rparr>)) inp = Inr r"
  using assms by (auto simp: finish_recovery_def split: option.splits prod.splits if_splits sum.splits)

lemma recovery_turn_done:
  assumes "recovery_turn vx inp a paged s = (evs, RsDone r)"
  shows "\<exists>final. finish_recovery vx inp (if paged then s else mark_all_read vx inp s) final = Some r"
  using assms
  by (auto simp: recovery_turn_def Let_def split: review_answer.splits completion.splits review_output.splits
      if_splits option.splits prod.splits)

lemma recover_loop_Inr:
  "recover_loop vx lv inp ts paged usage s = (evs, s', Inr r) \<Longrightarrow>
     \<exists>final y u. finish_recovery vx inp s' final = Some y \<and> r = y\<lparr>rv_usage := u\<rparr>"
proof (induction ts arbitrary: paged usage s evs)
  case (Cons t ts)
  obtain evs1 delta answer where resp: "review_response lv t = (evs1, delta, answer)" by (metis prod_cases3)
  from Cons.prems obtain a where a: "answer = Inr a" "\<not> vt_cancelled t" "vt_built t"
    by (auto simp: resp split: if_splits sum.splits)
  obtain evs2 st where st: "recovery_turn vx inp a paged s = (evs2, st)" by (meson surj_pair)
  show ?case
  proof (cases st)
    case (RsContinue paged' s1)
    obtain evs3 s3 r3 where l: "recover_loop vx lv inp ts paged' (add_review_usage usage delta) s1 = (evs3, s3, r3)"
      by (metis prod_cases3)
    then show ?thesis using Cons.prems Cons.IH [of paged' _ s1] a by (auto simp: resp st RsContinue)
  next
    case (RsFailed e)
    then show ?thesis using Cons.prems a by (simp add: resp st)
  next
    case (RsDone y)
    from recovery_turn_done [OF st [unfolded RsDone]] show ?thesis
      using Cons.prems a by (auto simp: resp st RsDone)
  qed
qed simp

definition all_read :: "review_text \<Rightarrow> review_input \<Rightarrow> recovery \<Rightarrow> bool" where
  "all_read vx inp s \<longleftrightarrow>
     (\<forall>i < length (vi_before inp). in_ranges (rc_read s KeyBefore) i) \<and>
     (\<forall>i < length (vi_after inp). in_ranges (rc_read s KeyAfter) i) \<and>
     (\<forall>r \<in> set (vi_rules inp). \<forall>i < length (rr_body r). in_ranges (rc_read s (KeyRule (rr_id r))) i) \<and>
     (vi_holds inp \<noteq> [] \<or> vi_diagnostics inp \<noteq> [] \<longrightarrow>
       (\<forall>i < length (vx_catalog vx inp). in_ranges (rc_read s KeyCatalog) i))"

lemma complete_read_all: "complete_read vx inp s \<Longrightarrow> all_read vx inp s"
  using covered_review_bytes_sound by (auto simp: complete_read_def all_read_def list_all_iff)

lemma first_answer_Inr:
  "first_answer inp a = Inl (Inr r) \<Longrightarrow> \<exists>answer. parse_independent_review answer inp = Inr r"
  by (auto simp: first_answer_def split: review_answer.splits completion.splits review_output.splits if_splits sum.splits)

lemma recovered_review_Inr:
  assumes "recover_review vx lv inp ts paged usage = (evs, s, Inr r)"
  shows "(\<exists>answer y u. parse_independent_review answer inp = Inr y \<and> r = y\<lparr>rv_usage := u\<rparr>) \<and> all_read vx inp s \<and>
    rv_assessments r = rv_assessments (recovery_result inp s)"
proof -
  obtain final y u where f: "finish_recovery vx inp s final = Some y" "r = y\<lparr>rv_usage := u\<rparr>"
    using recover_loop_Inr [OF assms [unfolded recover_review_def]] by blast
  obtain verdict summary where p: "complete_read vx inp s" "parse_independent_review
       (Some ((recovery_result inp s)\<lparr>rv_verdict := verdict, rv_summary := summary\<rparr>)) inp = Inr y"
    by (rule finish_recovery_Some [OF f(1)]) (rule that; assumption)
  have "rv_assessments y = rv_assessments (recovery_result inp s)"
    using p(2) unfolding parse_independent_review_def Let_def outcome_simps
    by (auto simp: outcome_simps parsed_review_def split: option.splits sum.splits if_splits)
  then show ?thesis using p complete_read_all f(2) by auto
qed

subsection \<open>Saved findings are restored\<close>

definition put :: "('a \<Rightarrow> 'k) \<Rightarrow> ('k \<rightharpoonup> 'a) \<Rightarrow> 'a \<Rightarrow> ('k \<rightharpoonup> 'a)" where
  "put key m a = m(key a \<mapsto> a)"

lemma foldl_put_other: "x \<notin> key ` set as \<Longrightarrow> foldl (put key) m as x = m x"
  by (induction as arbitrary: m) (auto simp: put_def)

lemma foldl_put_in: "distinct (map key as) \<Longrightarrow> a \<in> set as \<Longrightarrow> foldl (put key) m as (key a) = Some a"
proof (induction as arbitrary: m)
  case (Cons b as)
  show ?case
  proof (cases "a \<in> set as")
    case True
    then show ?thesis using Cons by simp
  next
    case False
    then have "a = b" "key b \<notin> key ` set as" using Cons.prems by auto
    then have "foldl (put key) (put key m b) as (key b) = put key m b (key b)" by (intro foldl_put_other)
    then show ?thesis using \<open>a = b\<close> by (simp only: foldl_Cons) (simp add: put_def)
  qed
qed simp

lemma foldl_put_cases: "foldl (put key) m as x = Some a \<Longrightarrow> m x = Some a \<or> a \<in> set as \<and> key a = x"
  by (induction as arbitrary: m) (fastforce simp: put_def split: if_splits)+

text \<open>Listing a map by its keys in order and reading it back gives the map.\<close>

definition keyed_by :: "('a \<Rightarrow> 'k) \<Rightarrow> 'k set \<Rightarrow> ('k \<rightharpoonup> 'a) \<Rightarrow> bool" where
  "keyed_by key keys m \<longleftrightarrow> (\<forall>k a. m k = Some a \<longrightarrow> key a = k \<and> k \<in> keys)"

lemma relist_map:
  assumes "keyed_by key (f ` set rs) m" "distinct (map f rs)"
  shows "foldl (put key) Map.empty (List.map_filter (\<lambda>r. m (f r)) rs) = m"
proof
  fix k
  let ?l = "List.map_filter (\<lambda>r. m (f r)) rs"
  have mem: "a \<in> set ?l \<longleftrightarrow> (\<exists>r \<in> set rs. m (f r) = Some a)" for a
    by (force simp: List.map_filter_def)
  have dist: "distinct (map key ?l)"
    using assms(2)
  proof (induction rs)
    case (Cons r rs)
    have "key a \<in> f ` set rs" if "a \<in> set (List.map_filter (\<lambda>r. m (f r)) rs)" for a
      using that assms(1) by (force simp: List.map_filter_def keyed_by_def)
    moreover have "key a = f r" if "m (f r) = Some a" for a using that assms(1) by (auto simp: keyed_by_def)
    ultimately show ?case using Cons by (auto simp: List.map_filter_simps split: option.split)
  qed (simp add: List.map_filter_simps)
  show "foldl (put key) Map.empty ?l k = m k"
  proof (cases "m k")
    case None
    then have "k \<notin> key ` set ?l" using assms(1) mem by (force simp: keyed_by_def)
    then show ?thesis using None by (simp add: foldl_put_other)
  next
    case (Some a)
    then have "key a = k" "k \<in> f ` set rs" using assms(1) by (auto simp: keyed_by_def)
    then have "a \<in> set ?l" using Some mem by auto
    from foldl_put_in [OF dist this] \<open>key a = k\<close> Some show ?thesis by simp
  qed
qed

lemma upsert_key_new: "key x \<notin> key ` set xs \<Longrightarrow> upsert_key key x xs = xs @ [x]"
  by (induction xs) auto

lemma inj_decimal: "inj decimal"
  by (metis decimal_value injI)

lemma restore_issues_snd:
  "(\<And>m. m \<ge> n \<Longrightarrow> ''saved-'' @ decimal (m + 1) \<notin> fst ` set entries) \<Longrightarrow>
     map snd (restore_issues n is entries) = map snd entries @ is"
proof (induction "is" arbitrary: n entries)
  case (Cons i "is")
  let ?k = "''saved-'' @ decimal (n + 1)"
  have new: "set_issue ?k i entries = entries @ [(?k, i)]"
    using Cons.prems [of n] by (simp add: set_issue_def upsert_key_new)
  have "''saved-'' @ decimal (m + 1) \<notin> fst ` set (entries @ [(?k, i)])" if "m \<ge> n + 1" for m
    using that Cons.prems [of m] inj_eq [OF inj_decimal] by auto
  then have "map snd (restore_issues (n + 1) is (entries @ [(?k, i)])) = map snd (entries @ [(?k, i)]) @ is"
    by (rule Cons.IH)
  then show ?case unfolding restore_issues.simps new by simp
qed simp

definition recovery_ok :: "review_input \<Rightarrow> recovery \<Rightarrow> bool" where
  "recovery_ok inp s \<longleftrightarrow> distinct (map fst (rc_issues s)) \<and>
     keyed_by ra_rule_id (rr_id ` set (vi_rules inp)) (rc_assessments s) \<and>
     keyed_by ha_item_id (rh_item_id ` set (vi_holds inp)) (rc_holds s)"

lemma put_assessments: "(\<lambda>m a. m(ra_rule_id a \<mapsto> a)) = put ra_rule_id" "(\<lambda>m h. m(ha_item_id h \<mapsto> h)) = put ha_item_id"
  by (simp_all add: put_def fun_eq_iff)

lemma restored_result:
  assumes "recovery_ok inp s" "distinct (map rr_id (vi_rules inp))" "distinct (map rh_item_id (vi_holds inp))"
  shows "rc_assessments (restore_recovery (Some (recovery_result inp s)) new_recovery) = rc_assessments s"
    "rc_holds (restore_recovery (Some (recovery_result inp s)) new_recovery) = rc_holds s"
    "mset (map snd (rc_issues (restore_recovery (Some (recovery_result inp s)) new_recovery))) =
       mset (map snd (rc_issues s))"
proof -
  show "rc_assessments (restore_recovery (Some (recovery_result inp s)) new_recovery) = rc_assessments s"
    "rc_holds (restore_recovery (Some (recovery_result inp s)) new_recovery) = rc_holds s"
    using assms
    by (simp_all add: restore_recovery_def new_recovery_def recovery_result_def put_assessments recovery_ok_def relist_map)
  have "map snd (rc_issues (restore_recovery (Some (recovery_result inp s)) new_recovery)) =
      map snd (sort_key fst (rc_issues s))"
    by (simp add: restore_recovery_def new_recovery_def recovery_result_def restore_issues_snd)
  then show "mset (map snd (rc_issues (restore_recovery (Some (recovery_result inp s)) new_recovery))) =
       mset (map snd (rc_issues s))" by simp
qed

lemma foldl_set_issue_distinct:
  "distinct (map fst es) \<Longrightarrow> distinct (map fst (foldl (\<lambda>es (k, i). set_issue k i es) es upd))"
  by (induction upd arbitrary: es) (auto simp: set_issue_def distinct_upsert_key split: prod.splits)

lemma first_error_None: "first_error f xs = None \<longleftrightarrow> (\<forall>x \<in> set xs. f x = None)"
  by (induction xs) (auto split: option.splits)

lemma record_update_ok:
  assumes "recovery_ok inp s" "check_update inp u = None"
  shows "recovery_ok inp (record_update u s)"
proof -
  have a: "ra_rule_id a \<in> rr_id ` set (vi_rules inp)" if "a \<in> set (up_assessments u)" for a
    using assms(2) that by (auto simp: check_update_def first_error_None check_update_assessment_def Let_def
        split: option.splits if_splits)
  have h: "ha_item_id a \<in> rh_item_id ` set (vi_holds inp)" if "a \<in> set (up_holds u)" for a
    using assms(2) that by (auto simp: check_update_def first_error_None check_update_hold_def Let_def
        split: option.splits if_splits)
  have "distinct (map fst (filter (\<lambda>p. fst p \<notin> set (up_removed u)) (rc_issues s)))"
    using assms(1) by (simp add: recovery_ok_def distinct_map_filter)
  from foldl_set_issue_distinct [OF this] show ?thesis
    using assms(1) a h foldl_put_cases [of ra_rule_id] foldl_put_cases [of ha_item_id]
    by (fastforce simp: recovery_ok_def record_update_def put_assessments keyed_by_def)
qed

lemma execute_review_call_ok:
  "recovery_ok inp s \<Longrightarrow> execute_review_call vx inp c s = (s', reply) \<Longrightarrow> recovery_ok inp s'"
  using record_update_ok
  by (auto simp: execute_review_call_def read_reply_def recovery_ok_def Let_def
      split: recovery_call.splits option.splits if_splits)

lemma run_review_calls_ok:
  "recovery_ok inp s \<Longrightarrow> run_review_calls vx inp cs s = (s', evs) \<Longrightarrow> recovery_ok inp s'"
  using execute_review_call_ok
  by (induction cs arbitrary: s evs) (fastforce split: prod.splits)+

lemma new_recovery_ok: "recovery_ok inp new_recovery"
  by (simp add: recovery_ok_def new_recovery_def keyed_by_def)

subsection \<open>Properties\<close>

text \<open>
  C32. The built-in reviewer is sound. Whatever the provider answers, a review \<open>Review\<close> returns is
  one \<open>parseIndependentReview\<close> accepts for a valid input, so the reviewer satisfies what the gate
  relies on; and when it came from the recovery, every byte of the original, of the candidate, of
  every rule, and of the catalog when there are holds or diagnostics, is in a range that was sent.
\<close>

theorem built_in_review_sound:
  "sound_reviewer (built_in_reviewer vx lv turns) \<and>
   (\<forall>inp evs s r. review vx lv turns inp = (evs, s, Inr r) \<longrightarrow>
      validate_review_input inp = None \<and> (s = new_recovery \<or> all_read vx inp s))"
proof -
  have r: "(\<exists>answer y u. parse_independent_review answer inp = Inr y \<and> r = y\<lparr>rv_usage := u\<rparr>) \<and>
      validate_review_input inp = None \<and> (s = new_recovery \<or> all_read vx inp s)"
    if run: "review vx lv turns inp = (evs, s, Inr r)" for inp evs s r
  proof -
    have valid: "validate_review_input inp = None"
      using run by (cases "validate_review_input inp") (auto simp: review_def)
    note rec = recovered_review_Inr [of vx lv inp _ _ _ _ s r]
    show ?thesis
    proof (cases "has_findings (vi_prior inp)")
      case True
      then have "recover_review vx lv inp turns False no_usage = (evs, s, Inr r)" using run valid by (simp add: review_def)
      from rec [OF this] valid show ?thesis by blast
    next
      case False
      then obtain t ts evs1 usage a where t: "turns = t # ts" "vt_built t" "review_response lv t = (evs1, usage, Inr a)"
        using run valid by (auto simp: review_def split: list.splits prod.splits sum.splits if_splits)
      show ?thesis
      proof (cases "first_answer inp a")
        case (Inr paged)
        obtain evs2 s2 r2 where q: "recover_review vx lv inp ts paged usage = (evs2, s2, r2)" by (metis prod_cases3)
        then have "s2 = s" "r2 = Inr r" using run valid False t Inr by (simp_all add: review_def)
        with rec [OF q [unfolded \<open>s2 = s\<close> \<open>r2 = Inr r\<close>]] valid show ?thesis by blast
      next
        case (Inl x)
        then obtain y where y: "first_answer inp a = Inl (Inr y)" "s = new_recovery" "r = y\<lparr>rv_usage := usage\<rparr>"
          using run valid False t by (auto simp: review_def split: sum.splits)
        from first_answer_Inr [OF y(1)] y valid show ?thesis by blast
      qed
    qed
  qed
  then have "sound_reviewer (built_in_reviewer vx lv turns)"
    unfolding sound_reviewer_def built_in_reviewer_def by (fastforce split: prod.splits sum.splits)
  with r show ?thesis by blast
qed

text \<open>
  C33. Saved findings survive an interruption. Whatever calls a reviewer made, the progress that is
  saved with the candidate, restored by the next review, has the same assessment of every rule, the
  same assessment of every hold and the same issues; restoring and saving again loses nothing.
  (The IDs of issues are renumbered, and sorting them as text can reorder ten or more.)
\<close>

theorem findings_roundtrip:
  assumes "run_review_calls vx inp calls new_recovery = (s, evs)" "distinct (map rr_id (vi_rules inp))"
    "distinct (map rh_item_id (vi_holds inp))"
  shows "let s' = restore_recovery (Some (recovery_result inp s)) new_recovery in
    rc_assessments s' = rc_assessments s \<and> rc_holds s' = rc_holds s \<and>
    mset (map snd (rc_issues s')) = mset (map snd (rc_issues s)) \<and>
    rv_assessments (recovery_result inp s') = rv_assessments (recovery_result inp s) \<and>
    rv_hold_assessments (recovery_result inp s') = rv_hold_assessments (recovery_result inp s) \<and>
    mset (rv_issues (recovery_result inp s')) = mset (rv_issues (recovery_result inp s))"
proof -
  have "recovery_ok inp s" by (rule run_review_calls_ok [OF new_recovery_ok assms(1)])
  note q = restored_result [OF this assms(2,3)]
  have "mset (rv_issues (recovery_result inp s')) = mset (map snd (rc_issues s'))" for s'
    by (simp add: recovery_result_def)
  then show ?thesis using q unfolding Let_def by (simp add: recovery_result_def)
qed

definition sample_update :: review_update where
  "sample_update = \<lparr>up_assessments = [\<lparr>ra_rule_id = ''r1'', ra_status = A_violated, ra_reason = ''why''\<rparr>],
     up_issues = [(''x'', sample_issue\<lparr>ri_kind := K_needs_changes, ri_line_basis := L_after, ri_excerpt := ''b'',
       ri_start_line := 1, ri_end_line := 1\<rparr>)], up_holds = [], up_removed = []\<rparr>"

definition sample_text :: review_text where
  "sample_text = \<lparr>vx_catalog = (\<lambda>_. ''{}''), vx_state = (\<lambda>_ _. ''{}''), vx_failure = (\<lambda>_. ''failed'')\<rparr>"

lemma findings_roundtrip_witness:
  "rc_assessments (restore_recovery
     (Some (recovery_result sample_review_input (record_update sample_update new_recovery))) new_recovery) ''r1'' =
   Some \<lparr>ra_rule_id = ''r1'', ra_status = A_violated, ra_reason = ''why''\<rparr>"
proof -
  have c: "check_update sample_review_input sample_update = None" by code_simp
  have run: "run_review_calls sample_text sample_review_input [RcRecord sample_update] new_recovery =
      (record_update sample_update new_recovery,
       [EventProgress (recovery_result sample_review_input (record_update sample_update new_recovery))])"
    by (simp add: execute_review_call_def c Let_def)
  have d: "distinct (map rr_id (vi_rules sample_review_input))" "distinct (map rh_item_id (vi_holds sample_review_input))"
    by (simp_all add: sample_review_input_def)
  have "rc_assessments (record_update sample_update new_recovery) ''r1'' =
      Some \<lparr>ra_rule_id = ''r1'', ra_status = A_violated, ra_reason = ''why''\<rparr>"
    by (simp add: record_update_def new_recovery_def sample_update_def)
  then show ?thesis using findings_roundtrip [OF run d] by (simp add: Let_def)
qed

definition valid_review_input :: review_input where
  "valid_review_input = sample_review_input\<lparr>vi_base_hash := replicate 64 (CHR ''0''),
     vi_candidate_hash := replicate 64 (CHR ''1'')\<rparr>"

definition review_turns :: "review_turn list" where
  "review_turns =
     [\<lparr>vt_cancelled = False, vt_built = True, vt_request_id = Some ''q1'',
       vt_answer = VaGot None CompleteOutputLimit VoMalformed\<rparr>,
      \<lparr>vt_cancelled = False, vt_built = True, vt_request_id = Some ''q2'',
       vt_answer = VaGot None CompleteOk (VoDecoded [RcRecord sample_update] None None)\<rparr>,
      \<lparr>vt_cancelled = False, vt_built = True, vt_request_id = Some ''q3'',
       vt_answer = VaGot None CompleteOk (VoDecoded [] None (Some (V_needs_changes, ''s'')))\<rparr>]"

lemma valid_review_input_ok: "validate_review_input valid_review_input = None"
proof -
  have p: "check_segments (split_on (CHR ''/'') ''a.go'') = None"
    "\<not> list_ex (\<lambda>c. c \<in> set forbidden_path_chars) ''a.go''" by code_simp+
  have "safe_relative_path ''a.go'' = None" by (rule safe_relative_path_eq [OF p]) simp_all
  moreover have "sha256_hex (replicate 64 (CHR ''0''))" "sha256_hex (replicate 64 (CHR ''1''))" by code_simp+
  moreover have "valid_utf8 (''a'' @ [LF])" "valid_utf8 (''b'' @ [LF])" by code_simp+
  moreover have "check_review_rules {} (vi_rules valid_review_input) = None" by code_simp
  moreover have "validate_review_holds [] (''a'' @ [LF]) S = None" for S
    by (simp add: validate_review_holds_def)
  ultimately show ?thesis
    by (simp add: validate_review_input_def valid_review_input_def sample_review_input_def
        valid_source_diagnostics_def valid_usage_counters_def no_usage_def)
qed

lemma review_turns_run:
  "\<exists>evs s r. review sample_text sample_loop_service review_turns valid_review_input = (evs, s, Inr r) \<and>
     rv_verdict r = V_needs_changes \<and> s \<noteq> new_recovery"
proof -
  have "case review sample_text sample_loop_service review_turns valid_review_input of
      (evs, s, Inl e) \<Rightarrow> False | (evs, s, Inr r) \<Rightarrow> rv_verdict r = V_needs_changes \<and> rc_read s KeyBefore = [(0, 2)]"
    unfolding review_def valid_review_input_ok option.case by code_simp
  then show ?thesis by (auto simp: new_recovery_def split: prod.splits sum.splits)
qed

lemma built_in_review_sound_witness:
  "\<exists>evs s r. review sample_text sample_loop_service review_turns valid_review_input = (evs, s, Inr r) \<and>
     all_read sample_text valid_review_input s"
  using review_turns_run built_in_review_sound [of sample_text sample_loop_service review_turns] by blast

end
