(* ===== verification/SourceEncoding.thy ===== *)
theory SourceEncoding
  imports ExactEdits
begin

section \<open>Source encodings (internal/sourceencoding/source.go and engine/text.go)\<close>

text \<open>
  The bytes of a source file and the text the editor works on: \<open>Decode\<close> reads UTF-8 (with or
  without a byte order mark) or Shift_JIS, normalizes every newline to LF and keeps an index from
  text offsets to byte offsets; \<open>Apply\<close> writes spans of the text back and copies every other
  byte of the file; the engine's \<open>encode\<close> turns the exact edits of a candidate into spans and
  reads the result again. The converters of \<open>golang.org/x/text/encoding/japanese\<close> are the
  parameter \<open>shift_jis\<close>. An offset is a natural number: every span the program builds starts at
  an index found in the text.
\<close>

datatype encoding = UTF8 | ShiftJIS

datatype source_error = NulByte | BadBom | BadShiftJIS | BadUTF8 | MidRune | BadPosition
  | BadRange | BadReplacement | NotEncodable | LossyEncoding | SourceNotUnique | ResultDiffers

record shift_jis =
  sj_decode :: "string \<Rightarrow> string option"
  sj_encode :: "string \<Rightarrow> string option"

record document =
  doc_text :: string
  doc_encoding :: encoding
  doc_raw :: string
  doc_boundaries :: "(nat \<times> nat) list"
  doc_newline :: string

record span_edit =
  sp_start :: nat
  sp_end :: nat
  sp_text :: string

definition bom :: string where
  "bom = [CHR 0xEF, CHR 0xBB, CHR 0xBF]"

subsection \<open>Runes at the front and at the end: utf8.DecodeRune, utf8.DecodeLastRune\<close>

text \<open>
  A rune is its UTF-8 bytes; where the bytes are no rune the result is U+FFFD with width 1 (0 at
  the end), which differs from a real U+FFFD of width 3, as in Go.
\<close>

definition rune_error :: string where
  "rune_error = [CHR 0xEF, CHR 0xBF, CHR 0xBD]"

definition decode_rune :: "string \<Rightarrow> string \<times> nat" where
  "decode_rune s =
     (case rune_width s of
        Some n \<Rightarrow> (take n s, n)
      | None \<Rightarrow> (rune_error, if s = [] then 0 else 1))"

definition decode_last_rune :: "string \<Rightarrow> string \<times> nat" where
  "decode_last_rune s =
     (if s = [] then (rune_error, 0)
      else if of_char (last s) < (0x80 :: nat) then ([last s], 1)
      else
        let lim = length s - 4;
            start = (case find (\<lambda>k. rune_start (s ! k)) (rev [lim ..< length s - 1]) of
                       Some k \<Rightarrow> k | None \<Rightarrow> lim - 1);
            r = decode_rune (drop start s)
        in if start + snd r \<noteq> length s then (rune_error, 1) else r)"

subsection \<open>Reading\<close>

definition decode_fragment :: "shift_jis \<Rightarrow> string \<Rightarrow> encoding \<Rightarrow> (source_error, string) outcome" where
  "decode_fragment sj data enc =
     (if NUL \<in> set data then Inl NulByte
      else if enc = UTF8 then (if valid_utf8 data then Inr data else Inl BadUTF8)
      else (case sj_decode sj data of
              None \<Rightarrow> Inl BadShiftJIS
            | Some decoded \<Rightarrow>
                if str_index decoded rune_error \<noteq> None then Inl BadShiftJIS else Inr decoded))"

definition detect :: "shift_jis \<Rightarrow> string \<Rightarrow> (source_error, encoding) outcome" where
  "detect sj data =
     (if NUL \<in> set data then Inl NulByte
      else if valid_utf8 data then Inr UTF8
      else if prefix bom data then Inl BadBom
      else (case decode_fragment sj data ShiftJIS of Inl e \<Rightarrow> Inl e | Inr _ \<Rightarrow> Inr ShiftJIS))"

definition add_boundary :: "nat \<Rightarrow> nat \<Rightarrow> document \<Rightarrow> document" where
  "add_boundary t r d =
     (if doc_boundaries d \<noteq> []
         \<and> int (snd (last (doc_boundaries d))) - int (fst (last (doc_boundaries d))) = int r - int t
      then d else d\<lparr>doc_boundaries := doc_boundaries d @ [(t, r)]\<rparr>)"

text \<open>One step of the loop: how many bytes it reads, the text it adds, the converted text used up.\<close>

definition shift_jis_lead :: "char \<Rightarrow> bool" where
  "shift_jis_lead c \<longleftrightarrow> byte_in c 0x81 0x9F \<or> byte_in c 0xE0 0xFC"

definition decode_unit :: "encoding \<Rightarrow> string \<Rightarrow> string \<Rightarrow> nat \<Rightarrow> nat \<Rightarrow> nat \<times> string \<times> nat" where
  "decode_unit enc converted data pos dec =
     (if data ! pos = CR then
        let size = (if pos + 1 < length data \<and> data ! (pos + 1) = LF then 2 else 1)
        in (size, [LF], dec + size)
      else if of_char (data ! pos) < (0x80 :: nat) then (1, [data ! pos], dec + 1)
      else if enc = UTF8 then
        let size = snd (decode_rune (drop pos data)) in (size, slice pos (pos + size) data, dec)
      else
        let size = (if shift_jis_lead (data ! pos) then 2 else 1);
            n = snd (decode_rune (drop dec converted))
        in (size, slice dec (dec + n) converted, dec + n))"

lemma decode_rune_width: "s \<noteq> [] \<Longrightarrow> 0 < snd (decode_rune s) \<and> snd (decode_rune s) \<le> length s"
  by (auto simp: decode_rune_def Suc_leI dest: rune_width_bounds split: option.splits)

lemma decode_unit_progress: "pos < length data \<Longrightarrow> 0 < fst (decode_unit enc cv data pos dec)"
  using decode_rune_width[of "drop pos data"] by (auto simp: decode_unit_def Let_def)

function decode_loop :: "string \<Rightarrow> nat \<Rightarrow> nat \<Rightarrow> bool \<Rightarrow> document \<Rightarrow> document" where
  "decode_loop converted pos dec has_newline d =
     (if pos < length (doc_raw d) then
        let d1 = add_boundary (length (doc_text d)) pos d;
            u = decode_unit (doc_encoding d) converted (doc_raw d) pos dec;
            size = fst u;
            value = fst (snd u);
            first = (value = [LF] \<and> \<not> has_newline);
            d2 = (if first then d1\<lparr>doc_newline := slice pos (pos + size) (doc_raw d)\<rparr> else d1)
        in decode_loop converted (pos + size) (snd (snd u)) (has_newline \<or> first)
             (d2\<lparr>doc_text := doc_text d2 @ value\<rparr>)
      else d)"
  by pat_completeness auto
termination
  using decode_unit_progress
  by (relation "measure (\<lambda>(_, pos, _, _, d). length (doc_raw d) - pos)")
    (auto simp: add_boundary_def intro!: diff_less_mono2)

declare decode_loop.simps [simp del]

definition fresh_document :: "encoding \<Rightarrow> string \<Rightarrow> document" where
  "fresh_document enc data =
     \<lparr>doc_text = [], doc_encoding = enc, doc_raw = data, doc_boundaries = [], doc_newline = [LF]\<rparr>"

definition decoded_document :: "encoding \<Rightarrow> string \<Rightarrow> string \<Rightarrow> nat \<Rightarrow> document" where
  "decoded_document enc converted data start =
     (let d = decode_loop converted start 0 False (fresh_document enc data)
      in add_boundary (length (doc_text d)) (length data) d)"

definition decode :: "shift_jis \<Rightarrow> string \<Rightarrow> (source_error, document) outcome" where
  "decode sj data =
     (let start = (if prefix bom data then 3 else 0) in
      if NUL \<in> set data then Inl NulByte
      else if valid_utf8 (drop start data) then Inr (decoded_document UTF8 [] data start)
      else if start \<noteq> 0 then Inl BadBom
      else (case decode_fragment sj data ShiftJIS of
              Inl e \<Rightarrow> Inl e
            | Inr converted \<Rightarrow> Inr (decoded_document ShiftJIS converted data start)))"

subsection \<open>From text offsets to byte offsets\<close>

text \<open>\<open>sort.Search\<close>: the binary search of the standard library.\<close>

function search_between :: "(nat \<Rightarrow> bool) \<Rightarrow> nat \<Rightarrow> nat \<Rightarrow> nat" where
  "search_between f i j =
     (if i < j then
        let h = (i + j) div 2
        in if \<not> f h then search_between f (h + 1) j else search_between f i h
      else i)"
  by pat_completeness auto
termination
  by (relation "measure (\<lambda>(_, i, j). j - i)") auto

declare search_between.simps [simp del]

definition sort_search :: "nat \<Rightarrow> (nat \<Rightarrow> bool) \<Rightarrow> nat" where
  "sort_search n f = search_between f 0 n"

definition doc_offset :: "document \<Rightarrow> nat \<Rightarrow> (source_error, nat) outcome" where
  "doc_offset d pos =
     (if pos > length (doc_text d)
         \<or> (pos < length (doc_text d) \<and> \<not> rune_start (doc_text d ! pos)) then Inl MidRune
      else
        let i = sort_search (length (doc_boundaries d)) (\<lambda>i. fst (doc_boundaries d ! i) > pos)
        in if i = 0 then Inl BadPosition
           else let point = doc_boundaries d ! (i - 1) in Inr (pos + snd point - fst point))"

text \<open>\<open>a, _ := d.offset(pos)\<close>: the caller ignores the error and uses the zero.\<close>

definition offset_or_zero :: "document \<Rightarrow> nat \<Rightarrow> nat" where
  "offset_or_zero d pos = (case doc_offset d pos of Inl _ \<Rightarrow> 0 | Inr r \<Rightarrow> r)"

definition raw_between :: "document \<Rightarrow> nat \<Rightarrow> nat \<Rightarrow> string" where
  "raw_between d a b = slice (offset_or_zero d a) (offset_or_zero d b) (doc_raw d)"



subsection \<open>Writing\<close>

function rune_prefix :: "string \<Rightarrow> string \<Rightarrow> nat \<Rightarrow> nat" where
  "rune_prefix old new p =
     (if p < length old \<and> p < length new then
        let a = decode_rune (drop p old); b = decode_rune (drop p new)
        in if fst a \<noteq> fst b \<or> snd a \<noteq> snd b then p else rune_prefix old new (p + snd a)
      else p)"
  by pat_completeness auto
termination
  using decode_rune_width
  by (relation "measure (\<lambda>(old, _, p). length old - p)") (auto intro!: diff_less_mono2)

lemma decode_last_rune_pos: "s \<noteq> [] \<Longrightarrow> 0 < snd (decode_last_rune s)"
proof -
  assume s: "s \<noteq> []"
  let ?find = "find (\<lambda>k. rune_start (s ! k)) (rev [length s - 4 ..< length s - 1])"
  let ?start = "case ?find of Some k \<Rightarrow> k | None \<Rightarrow> length s - 4 - 1"
  have "?start < length s"
  proof (cases ?find)
    case (Some k)
    then have "k \<in> set (rev [length s - 4 ..< length s - 1])"
      by (metis find_Some_iff nth_mem)
    with Some s show ?thesis by (cases s) auto
  qed (use s in simp)
  then have "0 < snd (decode_rune (drop ?start s))" using decode_rune_width by simp
  with s show ?thesis by (simp add: decode_last_rune_def Let_def)
qed

lemma decode_last_rune_take: "n < length s \<Longrightarrow> 0 < snd (decode_last_rune (take (length s - n) s))"
  by (rule decode_last_rune_pos) auto

text \<open>\<open>rune_suffix old new p n\<close>: how much of the end is common, \<open>p\<close> bytes of the front set aside.\<close>

function rune_suffix :: "string \<Rightarrow> string \<Rightarrow> nat \<Rightarrow> nat \<Rightarrow> nat" where
  "rune_suffix old new p n =
     (if n < length old - p \<and> n < length new - p then
        let a = decode_last_rune (take (length old - n) old);
            b = decode_last_rune (take (length new - n) new)
        in if fst a \<noteq> fst b \<or> snd a \<noteq> snd b then n else rune_suffix old new p (n + snd a)
      else n)"
  by pat_completeness auto
termination
  using decode_last_rune_take
  by (relation "measure (\<lambda>(old, _, p, n). length old - p - n)") (auto intro!: diff_less_mono2)

declare rune_prefix.simps [simp del] rune_suffix.simps [simp del]

definition nearby_newline :: "document \<Rightarrow> nat \<Rightarrow> string" where
  "nearby_newline d pos =
     (case str_index (drop pos (doc_text d)) [LF] of
        Some k \<Rightarrow> raw_between d (pos + k) (pos + k + 1)
      | None \<Rightarrow>
          (case str_last_index (take pos (doc_text d)) [LF] of
             Some k \<Rightarrow> raw_between d k (k + 1)
           | None \<Rightarrow> doc_newline d))"

definition encode_fragment :: "shift_jis \<Rightarrow> document \<Rightarrow> string \<Rightarrow> (source_error, string) outcome" where
  "encode_fragment sj d t =
     (if doc_encoding d = UTF8 then Inr t
      else (case sj_encode sj t of
              None \<Rightarrow> Inl NotEncodable
            | Some encoded \<Rightarrow>
                if decode_fragment sj encoded ShiftJIS \<noteq> Inr t then Inl LossyEncoding
                else Inr encoded))"

text \<open>
  The lines of the replaced text: where each occurs (in order of occurrence), and the raw line
  endings. A Go map of slices is a function to lists.
\<close>

fun original_lines ::
  "document \<Rightarrow> nat \<Rightarrow> string list \<Rightarrow> (string \<Rightarrow> (nat \<times> nat) list) \<Rightarrow> string list
     \<Rightarrow> (string \<Rightarrow> (nat \<times> nat) list) \<times> string list" where
  "original_lines d pos [] occ endings = (occ, endings)"
| "original_lines d pos (line # lines) occ endings =
     original_lines d (pos + length line) lines
       (occ(line := occ line @ [(pos, pos + length line)]))
       (if suffix [LF] line
        then endings @ [raw_between d (pos + length line - 1) (pos + length line)] else endings)"

fun written_lines ::
  "shift_jis \<Rightarrow> document \<Rightarrow> string list \<Rightarrow> nat \<Rightarrow> string \<Rightarrow> (string \<Rightarrow> (nat \<times> nat) list) \<Rightarrow> string list
     \<Rightarrow> (source_error, string) outcome" where
  "written_lines sj d endings i ending occ [] = Inr []"
| "written_lines sj d endings i ending occ (line # lines) =
     (if occ line \<noteq> [] \<and> line \<noteq> [] then
        (case written_lines sj d endings (i + 1) ending (occ(line := tl (occ line))) lines of
           Inl e \<Rightarrow> Inl e
         | Inr out \<Rightarrow> Inr (raw_between d (fst (hd (occ line))) (snd (hd (occ line))) @ out))
      else
        let ending' = (if i < length endings then endings ! i else ending);
            value = (if suffix [LF] line then trim_suffix line [LF] @ ending' else line)
        in (case encode_fragment sj d value of
              Inl e \<Rightarrow> Inl e
            | Inr encoded \<Rightarrow>
                (case written_lines sj d endings (i + 1) ending' occ lines of
                   Inl e \<Rightarrow> Inl e
                 | Inr out \<Rightarrow> Inr (encoded @ out))))"

definition replacement :: "shift_jis \<Rightarrow> document \<Rightarrow> span_edit \<Rightarrow> (source_error, string) outcome" where
  "replacement sj d e =
     (let old = slice (sp_start e) (sp_end e) (doc_text d); new = sp_text e in
      if old = new then Inr (raw_between d (sp_start e) (sp_end e))
      else
        let p = rune_prefix old new 0;
            n = rune_suffix old new p 0;
            old_middle = slice p (length old - n) old;
            new_middle = slice p (length new - n) new;
            lines = original_lines d (sp_start e + p) (split_after LF old_middle) (\<lambda>_. []) []
        in (case written_lines sj d (snd lines) 0 (nearby_newline d (sp_start e + p)) (fst lines)
                   (split_after LF new_middle) of
              Inl err \<Rightarrow> Inl err
            | Inr out \<Rightarrow>
                Inr (raw_between d (sp_start e) (sp_start e + p) @ out
                     @ raw_between d (sp_end e - n) (sp_end e))))"

fun apply_spans ::
  "shift_jis \<Rightarrow> document \<Rightarrow> nat \<Rightarrow> nat \<Rightarrow> span_edit list \<Rightarrow> (source_error, string) outcome" where
  "apply_spans sj d previous raw_previous [] = Inr (drop raw_previous (doc_raw d))"
| "apply_spans sj d previous raw_previous (e # es) =
     (if sp_start e < previous \<or> sp_end e < sp_start e \<or> sp_end e > length (doc_text d)
        then Inl BadRange
      else if \<not> valid_utf8 (sp_text e) \<or> CR \<in> set (sp_text e) \<or> NUL \<in> set (sp_text e)
        then Inl BadReplacement
      else (case doc_offset d (sp_start e) of
        Inl err \<Rightarrow> Inl err
      | Inr a \<Rightarrow> (case doc_offset d (sp_end e) of
        Inl err \<Rightarrow> Inl err
      | Inr b \<Rightarrow> (case replacement sj d e of
        Inl err \<Rightarrow> Inl err
      | Inr out \<Rightarrow> (case apply_spans sj d (sp_end e) b es of
        Inl err \<Rightarrow> Inl err
      | Inr rest \<Rightarrow> Inr (slice raw_previous a (doc_raw d) @ out @ rest))))))"

text \<open>
  \<open>sort.Slice\<close> by start: the order of spans with one start is left open by Go, and only an empty
  span can share its start with another without being refused.
\<close>

definition apply_span_edits ::
  "shift_jis \<Rightarrow> document \<Rightarrow> span_edit list \<Rightarrow> (source_error, string) outcome" where
  "apply_span_edits sj d es = apply_spans sj d 0 0 (sort_key sp_start es)"

definition encode_text :: "shift_jis \<Rightarrow> document \<Rightarrow> string \<Rightarrow> (source_error, string) outcome" where
  "encode_text sj d t =
     apply_span_edits sj d [\<lparr>sp_start = 0, sp_end = length (doc_text d), sp_text = t\<rparr>]"

subsection \<open>The engine's encode\<close>

fun edit_spans :: "string \<Rightarrow> edit list \<Rightarrow> (source_error, span_edit list) outcome" where
  "edit_spans t [] = Inr []"
| "edit_spans t (e # es) =
     (if ed_old_text e = [] then Inl SourceNotUnique
      else (case unique_index t (ed_old_text e) of
        None \<Rightarrow> Inl SourceNotUnique
      | Some start \<Rightarrow> (case edit_spans t es of
        Inl err \<Rightarrow> Inl err
      | Inr spans \<Rightarrow>
          Inr (\<lparr>sp_start = start, sp_end = start + length (ed_old_text e), sp_text = ed_new_text e\<rparr>
               # spans))))"

definition encode_edits ::
  "shift_jis \<Rightarrow> document \<Rightarrow> string \<Rightarrow> edit list \<Rightarrow> (source_error, string) outcome" where
  "encode_edits sj d t es =
     (case edit_spans (doc_text d) es of
        Inl err \<Rightarrow> Inl err
      | Inr spans \<Rightarrow> (case apply_span_edits sj d spans of
        Inl err \<Rightarrow> Inl err
      | Inr encoded \<Rightarrow> (case decode sj encoded of
        Inl err \<Rightarrow> Inl ResultDiffers
      | Inr verified \<Rightarrow> if doc_text verified \<noteq> t then Inl ResultDiffers else Inr encoded)))"

fun has_standalone_cr :: "string \<Rightarrow> bool" where
  "has_standalone_cr [] \<longleftrightarrow> False"
| "has_standalone_cr (c # s) \<longleftrightarrow>
     (c = CR \<and> (s = [] \<or> hd s \<noteq> LF)) \<or> has_standalone_cr s"

subsection \<open>The offset index\<close>

lemma search_between_spec:
  assumes "\<And>a b. a \<le> b \<Longrightarrow> b < j \<Longrightarrow> f a \<Longrightarrow> f b" "i \<le> j"
  shows "i \<le> search_between f i j \<and> search_between f i j \<le> j \<and>
    (\<forall>k. i \<le> k \<and> k < search_between f i j \<longrightarrow> \<not> f k) \<and>
    (search_between f i j < j \<longrightarrow> f (search_between f i j))"
  using assms
proof (induction f i j rule: search_between.induct)
  case (1 f i j)
  let ?h = "(i + j) div 2"
  show ?case
  proof (cases "i < j")
    case True
    then have hj: "?h < j" "i \<le> ?h" by auto
    show ?thesis
    proof (cases "f ?h")
      case fh: True
      have eq: "search_between f i j = search_between f i ?h"
        using True fh by (subst search_between.simps) (simp add: Let_def)
      have mono: "f b" if "a \<le> b" "b < ?h" "f a" for a b
        using 1(3)[OF that(1) _ that(3)] that(2) hj(1) by simp
      have "\<not> \<not> f ?h" using fh by simp
      have IH: "i \<le> search_between f i ?h \<and> search_between f i ?h \<le> ?h \<and>
          (\<forall>k. i \<le> k \<and> k < search_between f i ?h \<longrightarrow> \<not> f k) \<and>
          (search_between f i ?h < ?h \<longrightarrow> f (search_between f i ?h))"
        by (rule "1.IH"(2)[OF True refl \<open>\<not> \<not> f ?h\<close>]) (use mono hj in blast)+
      show ?thesis unfolding eq
      proof (intro conjI)
        show "search_between f i ?h \<le> j" using IH hj by linarith
        show "search_between f i ?h < j \<longrightarrow> f (search_between f i ?h)"
          using IH fh by (metis le_neq_implies_less)
      qed (use IH in blast)+
    next
      case fh: False
      have eq: "search_between f i j = search_between f (?h + 1) j"
        using True fh by (subst search_between.simps) (simp add: Let_def)
      have "?h + 1 \<le> j" using hj by simp
      then have IH: "?h + 1 \<le> search_between f (?h + 1) j \<and> search_between f (?h + 1) j \<le> j \<and>
          (\<forall>k. ?h + 1 \<le> k \<and> k < search_between f (?h + 1) j \<longrightarrow> \<not> f k) \<and>
          (search_between f (?h + 1) j < j \<longrightarrow> f (search_between f (?h + 1) j))"
        by (intro "1.IH"(1)[OF True refl fh]) (use 1(3) in blast)+
      have "\<not> f k" if "k < ?h + 1" for k
        using 1(3)[of k ?h] that fh hj(1) by auto
      then have "\<not> f k" if "k < search_between f (?h + 1) j" for k
        using IH that by (cases "k < ?h + 1") auto
      moreover have "i \<le> search_between f (?h + 1) j" using IH hj(2) by linarith
      ultimately show ?thesis unfolding eq using IH by blast
    qed
  next
    case False
    then show ?thesis using 1(4) by (auto simp: search_between.simps)
  qed
qed

text \<open>
  On sorted boundaries the binary search finds the last one at or before the position:
  \<open>last_boundary\<close> is the same by a plain scan.
\<close>

definition last_boundary :: "(nat \<times> nat) list \<Rightarrow> nat \<Rightarrow> (nat \<times> nat) option" where
  "last_boundary bs pos = find (\<lambda>b. fst b \<le> pos) (rev bs)"

lemma last_boundary_snoc:
  "last_boundary (bs @ [b]) pos = (if fst b \<le> pos then Some b else last_boundary bs pos)"
  by (simp add: last_boundary_def)

lemma last_boundary_nth:
  assumes "k < length bs" "fst (bs ! k) \<le> pos" "\<And>j. k < j \<Longrightarrow> j < length bs \<Longrightarrow> pos < fst (bs ! j)"
  shows "last_boundary bs pos = Some (bs ! k)"
  using assms
proof (induction bs rule: rev_induct)
  case (snoc b bs)
  show ?case
  proof (cases "k = length bs")
    case True
    with snoc.prems show ?thesis by (simp add: last_boundary_snoc)
  next
    case False
    with snoc.prems have k: "k < length bs" by simp
    have "pos < fst b" using snoc.prems(3)[of "length bs"] k by simp
    moreover have "last_boundary bs pos = Some (bs ! k)"
      using snoc.prems k snoc.prems(3) by (intro snoc.IH) (force simp: nth_append)+
    ultimately show ?thesis using k by (simp add: last_boundary_snoc nth_append)
  qed
qed simp

lemma last_boundary_None: "last_boundary bs pos = None \<longleftrightarrow> (\<forall>b \<in> set bs. pos < fst b)"
  by (auto simp: last_boundary_def find_None_iff)

lemma doc_offset_last_boundary:
  assumes "sorted (map fst (doc_boundaries d))"
  shows "doc_offset d pos =
    (if pos > length (doc_text d)
        \<or> (pos < length (doc_text d) \<and> \<not> rune_start (doc_text d ! pos)) then Inl MidRune
     else (case last_boundary (doc_boundaries d) pos of
             None \<Rightarrow> Inl BadPosition | Some b \<Rightarrow> Inr (pos + snd b - fst b)))"
proof -
  let ?bs = "doc_boundaries d"
  let ?f = "\<lambda>i. pos < fst (?bs ! i)"
  let ?i = "sort_search (length ?bs) ?f"
  have mono: "?f b" if "a \<le> b" "b < length ?bs" "?f a" for a b
    using sorted_nth_mono[OF assms that(1)] that by simp
  have "0 \<le> ?i \<and> ?i \<le> length ?bs \<and> (\<forall>k. 0 \<le> k \<and> k < ?i \<longrightarrow> \<not> ?f k) \<and> (?i < length ?bs \<longrightarrow> ?f ?i)"
    unfolding sort_search_def by (rule search_between_spec[OF mono]) simp_all
  then have spec: "?i \<le> length ?bs" "\<And>k. k < ?i \<Longrightarrow> \<not> ?f k" "?i < length ?bs \<Longrightarrow> ?f ?i"
    by blast+
  have above: "?f k" if "?i \<le> k" "k < length ?bs" for k
    by (rule mono[OF that spec(3)[OF le_less_trans[OF that]]])
  show ?thesis
  proof (cases "?i = 0")
    case True
    then have "last_boundary ?bs pos = None"
      using above by (metis last_boundary_None in_set_conv_nth le0)
    with True show ?thesis by (simp add: doc_offset_def)
  next
    case False
    then have "last_boundary ?bs pos = Some (?bs ! (?i - 1))"
      using spec(1) spec(2)[of "?i - 1"] above by (intro last_boundary_nth) (simp_all add: not_less)
    with False show ?thesis by (simp add: doc_offset_def Let_def)
  qed
qed

subsection \<open>The pieces of a decoded file\<close>

text \<open>
  A decoded file is a list of pieces, each a text value and the bytes it was read from. The
  boundaries map the start of a piece in the text to its start in the file.
\<close>

definition text_of :: "(string \<times> string) list \<Rightarrow> string" where
  "text_of us = concat (map fst us)"

definition bytes_of :: "(string \<times> string) list \<Rightarrow> string" where
  "bytes_of us = concat (map snd us)"

lemma text_bytes_simps [simp]:
  "text_of [] = []" "bytes_of [] = []"
  "text_of (u # us) = fst u @ text_of us" "bytes_of (u # us) = snd u @ bytes_of us"
  "text_of (us @ vs) = text_of us @ text_of vs" "bytes_of (us @ vs) = bytes_of us @ bytes_of vs"
  by (auto simp: text_of_def bytes_of_def)

definition maps_to :: "(nat \<times> nat) list \<Rightarrow> nat \<Rightarrow> nat \<Rightarrow> bool" where
  "maps_to bs t r \<longleftrightarrow> (\<exists>b. last_boundary bs t = Some b \<and> snd b + t = r + fst b)"

definition indexed :: "nat \<Rightarrow> (string \<times> string) list \<Rightarrow> (nat \<times> nat) list \<Rightarrow> bool" where
  "indexed st us bs \<longleftrightarrow> sorted (map fst bs) \<and> (\<forall>b \<in> set bs. fst b \<le> length (text_of us)) \<and>
     (\<forall>vs w ws. us = vs @ w # ws \<longrightarrow> fst w \<noteq> [] \<longrightarrow>
        maps_to bs (length (text_of vs)) (st + length (bytes_of vs)))"

lemma add_boundary_maps_to:
  assumes "\<forall>b \<in> set (doc_boundaries d). fst b \<le> t" "sorted (map fst (doc_boundaries d))"
  shows "maps_to (doc_boundaries (add_boundary t r d)) t r"
    "sorted (map fst (doc_boundaries (add_boundary t r d)))"
    "\<forall>b \<in> set (doc_boundaries (add_boundary t r d)). fst b \<le> t"
    "t' < t \<Longrightarrow> maps_to (doc_boundaries (add_boundary t r d)) t' r' = maps_to (doc_boundaries d) t' r'"
proof -
  let ?bs = "doc_boundaries d"
  let ?keep = "?bs \<noteq> [] \<and> int (snd (last ?bs)) - int (fst (last ?bs)) = int r - int t"
  show "maps_to (doc_boundaries (add_boundary t r d)) t r"
  proof (cases ?keep)
    case True
    then obtain b bs where bs: "?bs = bs @ [b]" by (metis append_butlast_last_id)
    then have "fst b \<le> t" "int (snd b) - int (fst b) = int r - int t" using assms True by auto
    with True bs show ?thesis
      by (simp add: add_boundary_def maps_to_def last_boundary_snoc)
  qed (auto simp: add_boundary_def maps_to_def last_boundary_snoc)
  show "sorted (map fst (doc_boundaries (add_boundary t r d)))"
    "\<forall>b \<in> set (doc_boundaries (add_boundary t r d)). fst b \<le> t"
    "t' < t \<Longrightarrow> maps_to (doc_boundaries (add_boundary t r d)) t' r' = maps_to ?bs t' r'"
    using assms by (auto simp: add_boundary_def sorted_append maps_to_def last_boundary_snoc)
qed

lemma add_boundary_same [simp]:
  "doc_text (add_boundary t r d) = doc_text d" "doc_raw (add_boundary t r d) = doc_raw d"
  "doc_encoding (add_boundary t r d) = doc_encoding d"
  "doc_newline (add_boundary t r d) = doc_newline d"
  by (auto simp: add_boundary_def)

lemma indexed_step:
  assumes "indexed st us (doc_boundaries d)"
  shows "indexed st (us @ [u])
    (doc_boundaries (add_boundary (length (text_of us)) (st + length (bytes_of us)) d))"
proof -
  let ?d = "add_boundary (length (text_of us)) (st + length (bytes_of us)) d"
  have ix: "sorted (map fst (doc_boundaries d))"
      "\<forall>b \<in> set (doc_boundaries d). fst b \<le> length (text_of us)"
      "\<And>vs w ws. us = vs @ w # ws \<Longrightarrow> fst w \<noteq> [] \<Longrightarrow>
         maps_to (doc_boundaries d) (length (text_of vs)) (st + length (bytes_of vs))"
    using assms by (auto simp: indexed_def)
  note ab = add_boundary_maps_to[OF ix(2,1)]
  have "maps_to (doc_boundaries ?d) (length (text_of vs)) (st + length (bytes_of vs))"
    if vs: "us @ [u] = vs @ w # ws" and w: "fst w \<noteq> []" for vs w ws
  proof (cases ws rule: rev_cases)
    case Nil
    with vs have "vs = us" by simp
    then show ?thesis using ab(1) by simp
  next
    case (snoc ws' u')
    with vs have us: "us = vs @ w # ws'" by simp
    then have "length (text_of vs) < length (text_of us)" using w by simp
    then show ?thesis using ab(4) ix(3)[OF us w] by simp
  qed
  then show ?thesis using ab(2,3) unfolding indexed_def by fastforce
qed

text \<open>What one step of the loop reads is one piece: its value is at most one rune.\<close>

definition single_rune :: "string \<Rightarrow> bool" where
  "single_rune v \<longleftrightarrow> (\<forall>i. 0 < i \<and> i < length v \<longrightarrow> \<not> rune_start (v ! i))"

definition unit_piece :: "encoding \<Rightarrow> string \<Rightarrow> string \<Rightarrow> nat \<Rightarrow> nat \<Rightarrow> string \<times> string" where
  "unit_piece enc cv data pos dec =
     (fst (snd (decode_unit enc cv data pos dec)),
      slice pos (pos + fst (decode_unit enc cv data pos dec)) data)"

lemma single_rune_short: "length v \<le> 1 \<Longrightarrow> single_rune v"
  by (auto simp: single_rune_def)

lemma single_rune_decode: "single_rune (slice k (k + snd (decode_rune (drop k s))) s)"
proof (cases "rune_width (drop k s)")
  case None
  then show ?thesis by (intro single_rune_short) (auto simp: decode_rune_def slice_def)
next
  case (Some n)
  have "\<not> rune_start (take n (drop k s) ! i)" if "0 < i" "i < n" "i < length s - k" for i
    using rune_width_continuation[OF Some that(1,2)] that by simp
  with Some show ?thesis by (auto simp: single_rune_def decode_rune_def slice_def)
qed

lemma unit_piece_single: "single_rune (fst (unit_piece enc cv data pos dec))"
  using single_rune_decode
  by (auto simp: unit_piece_def decode_unit_def Let_def intro: single_rune_short)

definition pieces :: "document \<Rightarrow> nat \<Rightarrow> (string \<times> string) list \<Rightarrow> bool" where
  "pieces d st us \<longleftrightarrow>
     doc_text d = text_of us \<and> st \<le> length (doc_raw d) \<and>
     doc_raw d = take st (doc_raw d) @ bytes_of us \<and>
     sorted (map fst (doc_boundaries d)) \<and>
     (\<forall>u \<in> set us. single_rune (fst u)) \<and>
     (\<forall>vs ws. us = vs @ ws \<longrightarrow> ws = [] \<or> fst (hd ws) \<noteq> [] \<longrightarrow>
        maps_to (doc_boundaries d) (length (text_of vs)) (st + length (bytes_of vs)))"

lemma decode_loop_pieces:
  assumes "indexed st us (doc_boundaries d)" "doc_text d = text_of us" "st \<le> length (doc_raw d)"
    "take pos (doc_raw d) = take st (doc_raw d) @ bytes_of us"
    "\<forall>u \<in> set us. P u \<and> single_rune (fst u)"
    "doc_newline d = [LF] \<or> ([LF], doc_newline d) \<in> set us"
    "Q pos"
    "\<And>p q. p < length (doc_raw d) \<Longrightarrow> Q p \<Longrightarrow>
       P (unit_piece (doc_encoding d) cv (doc_raw d) p q) \<and>
       Q (p + fst (decode_unit (doc_encoding d) cv (doc_raw d) p q))"
  shows "\<exists>vs. indexed st vs (doc_boundaries (decode_loop cv pos dec hn d)) \<and>
    doc_text (decode_loop cv pos dec hn d) = text_of vs \<and>
    doc_raw d = take st (doc_raw d) @ bytes_of vs \<and>
    (\<forall>u \<in> set vs. P u \<and> single_rune (fst u)) \<and>
    (doc_newline (decode_loop cv pos dec hn d) = [LF]
       \<or> ([LF], doc_newline (decode_loop cv pos dec hn d)) \<in> set vs) \<and>
    doc_raw (decode_loop cv pos dec hn d) = doc_raw d \<and>
    doc_encoding (decode_loop cv pos dec hn d) = doc_encoding d"
  using assms
proof (induction cv pos dec hn d arbitrary: us rule: decode_loop.induct)
  case (1 cv pos dec hn d)
  show ?case
  proof (cases "pos < length (doc_raw d)")
    case False
    then have "decode_loop cv pos dec hn d = d" by (simp add: decode_loop.simps)
    with False 1(2-) show ?thesis by (intro exI[of _ us]) auto
  next
    case True
    let ?u = "decode_unit (doc_encoding d) cv (doc_raw d) pos dec"
    let ?p = "unit_piece (doc_encoding d) cv (doc_raw d) pos dec"
    let ?d1 = "add_boundary (length (doc_text d)) pos d"
    let ?first = "fst (snd ?u) = [LF] \<and> \<not> hn"
    let ?d2 = "if ?first then ?d1\<lparr>doc_newline := slice pos (pos + fst ?u) (doc_raw d)\<rparr> else ?d1"
    let ?d3 = "?d2\<lparr>doc_text := doc_text ?d2 @ fst (snd ?u)\<rparr>"
    have eq: "decode_loop cv pos dec hn d
        = decode_loop cv (pos + fst ?u) (snd (snd ?u)) (hn \<or> ?first) ?d3"
      using True by (subst decode_loop.simps) (simp add: Let_def)
    have d3: "doc_boundaries ?d3 = doc_boundaries ?d1" "doc_raw ?d3 = doc_raw d"
        "doc_encoding ?d3 = doc_encoding d" "doc_text ?d3 = doc_text d @ fst ?p"
        "doc_newline ?d3 = (if ?first then snd ?p else doc_newline d)"
      by (auto simp: unit_piece_def)
    have pos: "pos = st + length (bytes_of us)"
      using arg_cong[OF 1(5), of length] True 1(4) by simp
    have ix: "indexed st (us @ [?p]) (doc_boundaries ?d3)"
      unfolding d3 pos using indexed_step[OF 1(2)] 1(3) by simp
    have tk: "take (pos + fst ?u) (doc_raw d) = take st (doc_raw d) @ bytes_of (us @ [?p])"
      using 1(5) by (simp add: take_add unit_piece_def slice_def)
    have P: "P ?p \<and> Q (pos + fst ?u)" using 1(9)[OF True 1(8)] by blast
    have nl: "doc_newline ?d3 = [LF] \<or> ([LF], doc_newline ?d3) \<in> set (us @ [?p])"
      using 1(7) by (auto simp: unit_piece_def)
    show ?thesis unfolding eq
      using "1.IH"[OF True refl refl refl refl refl refl, of "us @ [?p]"] ix tk P nl 1(3,4,6,9)
        unit_piece_single
      unfolding d3 by (simp add: text_of_def bytes_of_def)
  qed
qed

definition utf8_piece :: "string \<times> string \<Rightarrow> bool" where
  "utf8_piece u \<longleftrightarrow>
     (fst u = [LF] \<and> (snd u = [LF] \<or> snd u = [CR] \<or> snd u = [CR, LF])) \<or>
     (fst u = snd u \<and> rune_width (snd u) = Some (length (snd u)) \<and> CR \<notin> set (snd u))"

lemma LF_CR [simp]: "LF \<noteq> CR" "CR \<noteq> LF" "LF \<noteq> NUL" "NUL \<noteq> LF" "CR \<noteq> NUL" "NUL \<noteq> CR"
  by (auto simp: LF_def CR_def NUL_def)

lemma rune_ascii: "of_char c < (0x80 :: nat) \<Longrightarrow> rune_width (c # s) = Some 1"
  by (auto simp: rune_width_def rune_class_def byte_in_def rune_tail_ok_def)

lemma CR_LF_ascii: "of_char CR < (0x80 :: nat)" "of_char LF < (0x80 :: nat)"
  by (simp_all add: CR_def LF_def)

lemma rune_no_CR:
  assumes "rune_width (c # s) = Some n" "0x80 \<le> (of_char c :: nat)"
  shows "CR \<notin> set (take n (c # s))" "LF \<notin> set (take n (c # s))"
proof -
  have "x \<noteq> CR \<and> x \<noteq> LF" if "x \<in> set (take n (c # s))" for x
  proof -
    from that obtain i where i: "i < n" "i < length (c # s)" "x = (c # s) ! i"
      by (auto simp: in_set_conv_nth)
    have "byte_in x 0x80 0xBF" if "0 < i"
      using rune_width_continuation[OF assms(1) that i(1)] i(3) by (simp add: rune_start_def)
    then have "0x80 \<le> (of_char x :: nat)" using i assms(2) by (cases i) (auto simp: byte_in_def)
    then show ?thesis by (auto simp: CR_def LF_def)
  qed
  then show "CR \<notin> set (take n (c # s))" "LF \<notin> set (take n (c # s))" by blast+
qed

lemma valid_utf8_ascii: "of_char c < (0x80 :: nat) \<Longrightarrow> valid_utf8 (c # s) = valid_utf8 s"
  by (subst valid_utf8_step) (auto simp: rune_ascii)

lemma slice_1: "i < length s \<Longrightarrow> slice i (Suc i) s = [s ! i]"
  by (simp add: slice_def take_Suc_conv_app_nth flip: Cons_nth_drop_Suc)

lemma slice_2: "Suc i < length s \<Longrightarrow> slice i (Suc (Suc i)) s = [s ! i, s ! Suc i]"
  by (simp add: slice_def flip: Cons_nth_drop_Suc)

lemma standalone_cr_nth:
  "has_standalone_cr s \<longleftrightarrow>
     (\<exists>i < length s. s ! i = CR \<and> (Suc i = length s \<or> s ! Suc i \<noteq> LF))"
proof (induction s)
  case (Cons c s)
  have "(c # s) ! 0 = CR \<and> (Suc 0 = length (c # s) \<or> (c # s) ! Suc 0 \<noteq> LF)
      \<longleftrightarrow> c = CR \<and> (s = [] \<or> hd s \<noteq> LF)"
    by (cases s) auto
  with Cons.IH show ?case
    unfolding length_Cons Ex_less_Suc2 has_standalone_cr.simps by simp
qed simp

lemma utf8_unit:
  assumes "pos < length data" "valid_utf8 (drop pos data)"
  shows "utf8_piece (unit_piece UTF8 cv data pos dec)"
    "snd (unit_piece UTF8 cv data pos dec) = [CR] \<Longrightarrow> has_standalone_cr data"
    "valid_utf8 (drop (pos + fst (decode_unit UTF8 cv data pos dec)) data)"
proof -
  let ?c = "data ! pos"
  have dr: "drop pos data = ?c # drop (Suc pos) data" using assms(1) by (simp add: Cons_nth_drop_Suc)
  have "utf8_piece (unit_piece UTF8 cv data pos dec) \<and>
    (snd (unit_piece UTF8 cv data pos dec) = [CR] \<longrightarrow> has_standalone_cr data) \<and>
    valid_utf8 (drop (pos + fst (decode_unit UTF8 cv data pos dec)) data)"
  proof (cases "of_char ?c < (0x80 :: nat)")
    case True
    have v1: "valid_utf8 (drop (Suc pos) data)"
      using assms(2) dr valid_utf8_ascii[OF True] by metis
    consider "?c = CR" "Suc pos < length data" "data ! Suc pos = LF"
      | "?c = CR" "\<not> (Suc pos < length data \<and> data ! Suc pos = LF)" | "?c \<noteq> CR" by blast
    then show ?thesis
    proof cases
      case 1
      then have "drop (Suc pos) data = LF # drop (Suc (Suc pos)) data"
        by (metis Cons_nth_drop_Suc)
      then have "valid_utf8 (drop (Suc (Suc pos)) data)"
        using v1 valid_utf8_ascii CR_LF_ascii by metis
      with 1 show ?thesis
        by (simp add: unit_piece_def decode_unit_def Let_def utf8_piece_def slice_2)
    next
      case 2
      then have "has_standalone_cr data"
        using assms(1) unfolding standalone_cr_nth by (intro exI[of _ pos]) auto
      with 2 v1 assms(1) show ?thesis
        by (auto simp: unit_piece_def decode_unit_def Let_def utf8_piece_def slice_1)
    next
      case 3
      with v1 assms(1) True rune_ascii[OF True] show ?thesis
        by (simp add: unit_piece_def decode_unit_def Let_def utf8_piece_def slice_1)
    qed
  next
    case False
    then have ne: "?c \<noteq> CR" using CR_LF_ascii by metis
    obtain n where n: "rune_width (drop pos data) = Some n" "valid_utf8 (drop n (drop pos data))"
      using assms valid_utf8_step[of "drop pos data"] by auto
    have b: "0 < n" "n \<le> length data - pos" using rune_width_bounds[OF n(1)] by auto
    have sl: "slice pos (n + pos) data = take n (drop pos data)" by (simp add: slice_def)
    have "CR \<notin> set (take n (drop pos data))" using rune_no_CR[of ?c _ n] n(1) False dr by simp
    moreover have "rune_width (take n (drop pos data)) = Some n"
      using rune_width_take[OF n(1), of "[]"] by simp
    moreover have "take n (drop pos data) \<noteq> [CR]" using calculation(1) by auto
    ultimately show ?thesis using False ne n b
      by (simp add: unit_piece_def decode_unit_def Let_def utf8_piece_def decode_rune_def sl min_def
          add.commute[of pos])
  qed
  then show "utf8_piece (unit_piece UTF8 cv data pos dec)"
    "snd (unit_piece UTF8 cv data pos dec) = [CR] \<Longrightarrow> has_standalone_cr data"
    "valid_utf8 (drop (pos + fst (decode_unit UTF8 cv data pos dec)) data)" by blast+
qed

lemma decoded_document_pieces:
  assumes "st \<le> length data" "Q st"
    "\<And>p q. p < length data \<Longrightarrow> Q p \<Longrightarrow>
       P (unit_piece enc cv data p q) \<and> Q (p + fst (decode_unit enc cv data p q))"
  shows "\<exists>us. pieces (decoded_document enc cv data st) st us \<and> (\<forall>u \<in> set us. P u) \<and>
    (doc_newline (decoded_document enc cv data st) = [LF]
      \<or> ([LF], doc_newline (decoded_document enc cv data st)) \<in> set us) \<and>
    doc_raw (decoded_document enc cv data st) = data \<and>
    doc_encoding (decoded_document enc cv data st) = enc"
proof -
  let ?d = "decode_loop cv st 0 False (fresh_document enc data)"
  have "indexed st [] (doc_boundaries (fresh_document enc data))"
    by (simp add: indexed_def fresh_document_def)
  then obtain us where ix: "indexed st us (doc_boundaries ?d)" and tx: "doc_text ?d = text_of us"
      and raw: "data = take st data @ bytes_of us" and P: "\<forall>u \<in> set us. P u \<and> single_rune (fst u)"
      and nl: "doc_newline ?d = [LF] \<or> ([LF], doc_newline ?d) \<in> set us"
      and same: "doc_raw ?d = data" "doc_encoding ?d = enc"
    using decode_loop_pieces[of st "[]" "fresh_document enc data" st P Q cv 0 False] assms
    by (auto simp: fresh_document_def)
  have len: "length data = st + length (bytes_of us)"
    using arg_cong[OF raw, of length] assms(1) by simp
  let ?e = "add_boundary (length (doc_text ?d)) (length data) ?d"
  have ixd: "sorted (map fst (doc_boundaries ?d))"
      "\<forall>b \<in> set (doc_boundaries ?d). fst b \<le> length (text_of us)"
      "\<And>vs w ws. us = vs @ w # ws \<Longrightarrow> fst w \<noteq> [] \<Longrightarrow>
         maps_to (doc_boundaries ?d) (length (text_of vs)) (st + length (bytes_of vs))"
    using ix by (auto simp: indexed_def)
  note ab = add_boundary_maps_to[OF ixd(2,1)]
  have "maps_to (doc_boundaries ?e) (length (text_of vs)) (st + length (bytes_of vs))"
    if us: "us = vs @ ws" and ws: "ws = [] \<or> fst (hd ws) \<noteq> []" for vs ws
  proof (cases ws)
    case Nil
    with us ab(1) tx len show ?thesis by simp
  next
    case (Cons w ws')
    with us ws have "length (text_of vs) < length (text_of us)" by simp
    then show ?thesis using ab(4) ixd(3)[of vs w ws'] us ws Cons tx len by simp
  qed
  then have "pieces ?e st us"
    using ab(2) tx raw len P assms(1) same unfolding pieces_def by simp
  then show ?thesis using P nl same by (auto simp: decoded_document_def Let_def)
qed

lemma decode_cases:
  assumes "decode sj data = Inr d"
  obtains
    (utf8) "valid_utf8 (drop (if prefix bom data then 3 else 0) data)" "NUL \<notin> set data"
      "d = decoded_document UTF8 [] data (if prefix bom data then 3 else 0)"
  | (shift_jis) converted where "\<not> prefix bom data" "NUL \<notin> set data" "\<not> valid_utf8 data"
      "decode_fragment sj data ShiftJIS = Inr converted"
      "d = decoded_document ShiftJIS converted data 0"
  using assms by (auto simp: decode_def Let_def split: if_splits sum.splits)

lemma bom_start: "(if prefix bom data then 3 else 0) \<le> length data"
  by (auto simp: bom_def dest: prefix_length_le)

lemma decode_pieces:
  assumes "decode sj data = Inr d"
  shows "\<exists>us. pieces d (if prefix bom data then 3 else 0) us" "doc_raw d = data"
proof -
  have "(\<exists>us. pieces d (if prefix bom data then 3 else 0) us) \<and> doc_raw d = data"
    using assms
  proof (cases rule: decode_cases)
    case utf8
    then show ?thesis
      using decoded_document_pieces[OF bom_start, of "\<lambda>_. True" data "\<lambda>_. True" UTF8 "[]"] by auto
  next
    case (shift_jis converted)
    then show ?thesis
      using decoded_document_pieces[of 0 data "\<lambda>_. True" "\<lambda>_. True" ShiftJIS converted] by auto
  qed
  then show "\<exists>us. pieces d (if prefix bom data then 3 else 0) us" "doc_raw d = data" by auto
qed

lemma decode_utf8_pieces:
  assumes "decode sj data = Inr d" "doc_encoding d = UTF8"
  shows "\<exists>us. pieces d (if prefix bom data then 3 else 0) us \<and>
    (\<forall>u \<in> set us. utf8_piece u \<and> (snd u = [CR] \<longrightarrow> has_standalone_cr data)) \<and>
    (doc_newline d = [LF] \<or> ([LF], doc_newline d) \<in> set us) \<and> NUL \<notin> set data"
  using assms(1)
proof (cases rule: decode_cases)
  case utf8
  let ?P = "\<lambda>u. utf8_piece u \<and> (snd u = [CR] \<longrightarrow> has_standalone_cr data)"
  have "\<exists>us. pieces d (if prefix bom data then 3 else 0) us \<and> (\<forall>u \<in> set us. ?P u) \<and>
      (doc_newline d = [LF] \<or> ([LF], doc_newline d) \<in> set us) \<and> doc_raw d = data
      \<and> doc_encoding d = UTF8"
    unfolding utf8(3)
    by (rule decoded_document_pieces[where Q = "\<lambda>p. valid_utf8 (drop p data)"])
      (use utf8 utf8_unit bom_start in auto)
  then show ?thesis using utf8(2) by blast
next
  case (shift_jis converted)
  then show ?thesis
    using assms(2) decoded_document_pieces[of 0 data "\<lambda>_. True" "\<lambda>_. True" ShiftJIS converted] by auto
qed

text \<open>\<open>offset\<close> answers exactly at the starts of runes, and its answer is the start of a piece.\<close>

lemma piece_at:
  "p < length (text_of us) \<Longrightarrow>
     \<exists>vs w ws. us = vs @ w # ws \<and> length (text_of vs) \<le> p \<and> p < length (text_of vs) + length (fst w)"
proof (induction us arbitrary: p)
  case (Cons u us)
  show ?case
  proof (cases "p < length (fst u)")
    case True
    then show ?thesis by (intro exI[of _ "[]"]) auto
  next
    case False
    then have "p - length (fst u) < length (text_of us)" using Cons.prems by simp
    then obtain vs w ws where "us = vs @ w # ws" "length (text_of vs) \<le> p - length (fst u)"
        "p - length (fst u) < length (text_of vs) + length (fst w)"
      using Cons.IH by blast
    with False show ?thesis
      by (intro exI[of _ "u # vs"] exI[of _ w] exI[of _ ws]) auto
  qed
qed simp

definition rune_cut :: "string \<Rightarrow> nat \<Rightarrow> bool" where
  "rune_cut s p \<longleftrightarrow> p \<le> length s \<and> (p < length s \<longrightarrow> rune_start (s ! p))"

lemma pieces_boundary:
  assumes "pieces d st us" "rune_cut (doc_text d) p"
  obtains vs ws where "us = vs @ ws" "ws = [] \<or> fst (hd ws) \<noteq> []" "p = length (text_of vs)"
proof -
  have tx: "doc_text d = text_of us" and sr: "\<forall>u \<in> set us. single_rune (fst u)"
    using assms by (auto simp: pieces_def)
  show ?thesis
  proof (cases "p < length (text_of us)")
    case False
    then have "p = length (text_of us)" using assms(2) tx by (auto simp: rune_cut_def)
    then show ?thesis using that[of us "[]"] by simp
  next
    case True
    then obtain vs w ws where us: "us = vs @ w # ws" "length (text_of vs) \<le> p"
        "p < length (text_of vs) + length (fst w)"
      using piece_at by blast
    let ?i = "p - length (text_of vs)"
    have i: "?i < length (fst w)" using us by linarith
    have "text_of us ! p = (fst w @ text_of ws) ! ?i" using us(1,2) by (simp add: nth_append)
    then have "text_of us ! p = fst w ! ?i" using i by (simp add: nth_append)
    moreover have "rune_start (text_of us ! p)" using assms(2) True tx by (simp add: rune_cut_def)
    moreover have "single_rune (fst w)" using sr us(1) by simp
    ultimately have "\<not> 0 < ?i" using i unfolding single_rune_def by metis
    then have "?i = 0" by simp
    then show ?thesis using that[of vs "w # ws"] us by auto
  qed
qed

lemma doc_offset_Inr:
  assumes "pieces d st us"
  shows "doc_offset d p = Inr r \<longleftrightarrow>
    (\<exists>vs ws. us = vs @ ws \<and> (ws = [] \<or> fst (hd ws) \<noteq> []) \<and> p = length (text_of vs)
       \<and> r = st + length (bytes_of vs)) \<and> rune_cut (doc_text d) p"
proof -
  have so: "sorted (map fst (doc_boundaries d))" using assms by (simp add: pieces_def)
  have m: "maps_to (doc_boundaries d) (length (text_of vs)) (st + length (bytes_of vs))"
    if "us = vs @ ws" "ws = [] \<or> fst (hd ws) \<noteq> []" for vs ws
    using assms that unfolding pieces_def by blast
  have val: "p + snd b - fst b = st + length (bytes_of vs)"
    if "us = vs @ ws" "ws = [] \<or> fst (hd ws) \<noteq> []" "p = length (text_of vs)"
      "last_boundary (doc_boundaries d) p = Some b" for vs ws b
    using m[OF that(1,2)] that(3,4) by (cases b) (simp add: maps_to_def)
  show ?thesis
  proof (cases "rune_cut (doc_text d) p")
    case False
    then show ?thesis by (auto simp: doc_offset_last_boundary[OF so] rune_cut_def)
  next
    case True
    obtain vs ws where vw: "us = vs @ ws" "ws = [] \<or> fst (hd ws) \<noteq> []" "p = length (text_of vs)"
      using pieces_boundary[OF assms True] .
    then obtain b where b: "last_boundary (doc_boundaries d) p = Some b"
      using m[OF vw(1,2)] unfolding maps_to_def by blast
    have "doc_offset d p = Inr (p + snd b - fst b)"
      using True b by (auto simp: doc_offset_last_boundary[OF so] rune_cut_def)
    then have off: "doc_offset d p = Inr (st + length (bytes_of vs'))"
      if "us = vs' @ ws'" "ws' = [] \<or> fst (hd ws') \<noteq> []" "p = length (text_of vs')" for vs' ws'
      using val[OF that b] by simp
    from off[OF vw] have "doc_offset d p = Inr r \<longleftrightarrow> r = st + length (bytes_of vs)" by auto
    then show ?thesis using True off vw by blast
  qed
qed

lemma doc_offset_total:
  assumes "pieces d st us"
  shows "(\<exists>r. doc_offset d p = Inr r) \<longleftrightarrow> rune_cut (doc_text d) p"
  using doc_offset_Inr[OF assms] pieces_boundary[OF assms] by metis

lemma offsets_between:
  assumes "pieces d st us" "doc_offset d p = Inr a" "doc_offset d q = Inr b" "p \<le> q"
  shows "\<exists>xs ys zs. us = xs @ ys @ zs \<and> p = length (text_of xs) \<and> q = p + length (text_of ys) \<and>
    a = st + length (bytes_of xs) \<and> b = a + length (bytes_of ys)"
proof -
  obtain vs ws where v: "us = vs @ ws" "ws = [] \<or> fst (hd ws) \<noteq> []" "p = length (text_of vs)"
      "a = st + length (bytes_of vs)"
    using assms(2) unfolding doc_offset_Inr[OF assms(1)] by auto
  obtain vs' ws' where v': "us = vs' @ ws'" "ws' = [] \<or> fst (hd ws') \<noteq> []" "q = length (text_of vs')"
      "b = st + length (bytes_of vs')"
    using assms(3) unfolding doc_offset_Inr[OF assms(1)] by auto
  from v(1) v'(1) have "vs @ ws = vs' @ ws'" by simp
  then obtain x where "vs = vs' @ x \<and> x @ ws = ws' \<or> vs @ x = vs' \<and> ws = x @ ws'"
    by (meson append_eq_append_conv2)
  then show ?thesis
  proof
    assume x: "vs = vs' @ x \<and> x @ ws = ws'"
    have "x = []"
    proof (cases x)
      case (Cons y ys)
      then have "fst y \<noteq> []" using v'(2) x by auto
      then have "q < p" using Cons x v(3) v'(3) by simp
      then show ?thesis using assms(4) by simp
    qed simp
    then show ?thesis using x v v'
      by (intro exI[of _ vs] exI[of _ "[]"] exI[of _ ws]) simp
  next
    assume "vs @ x = vs' \<and> ws = x @ ws'"
    then show ?thesis using v v'
      by (intro exI[of _ vs] exI[of _ x] exI[of _ ws']) auto
  qed
qed

lemma offset_raw_slice:
  assumes "pieces d st us" "us = xs @ ys @ zs" "a = st + length (bytes_of xs)"
    "b = a + length (bytes_of ys)"
  shows "slice a b (doc_raw d) = bytes_of ys" "a \<le> length (doc_raw d)" "b \<le> length (doc_raw d)"
proof -
  have raw: "doc_raw d = take st (doc_raw d) @ bytes_of xs @ bytes_of ys @ bytes_of zs"
      "st \<le> length (doc_raw d)"
    using assms(1,2) by (auto simp: pieces_def)
  let ?pre = "take st (doc_raw d) @ bytes_of xs"
  have "length ?pre = a" using raw(2) assms(3) by simp
  moreover have "doc_raw d = ?pre @ bytes_of ys @ bytes_of zs" using raw(1) by simp
  ultimately show "slice a b (doc_raw d) = bytes_of ys" "a \<le> length (doc_raw d)" "b \<le> length (doc_raw d)"
    using assms(4)
    by (metis slice_append_right slice_append_left diff_self_eq_0 add_diff_cancel_left' order_refl
        slice_0 take_all_iff length_append le_add1 append.assoc nat_add_left_cancel_le)+
qed

lemma offset_monotone:
  assumes "pieces d st us" "doc_offset d p = Inr a" "doc_offset d q = Inr b" "p \<le> q"
  shows "a \<le> b" "b \<le> length (doc_raw d)"
proof -
  obtain xs ys zs where "us = xs @ ys @ zs" "a = st + length (bytes_of xs)"
      "b = a + length (bytes_of ys)"
    using offsets_between[OF assms] by blast
  then show "a \<le> b" "b \<le> length (doc_raw d)" using offset_raw_slice[OF assms(1)] by auto
qed

subsection \<open>Writing back what was read\<close>

definition keeps_text :: "document \<Rightarrow> span_edit \<Rightarrow> bool" where
  "keeps_text d e \<longleftrightarrow> sp_text e = slice (sp_start e) (sp_end e) (doc_text d)"

lemma apply_spans_step:
  "apply_spans sj d previous rp (e # es) = Inr out \<longleftrightarrow>
     (\<exists>a b new rest. previous \<le> sp_start e \<and> sp_start e \<le> sp_end e \<and> sp_end e \<le> length (doc_text d)
        \<and> valid_utf8 (sp_text e) \<and> CR \<notin> set (sp_text e) \<and> NUL \<notin> set (sp_text e)
        \<and> doc_offset d (sp_start e) = Inr a \<and> doc_offset d (sp_end e) = Inr b
        \<and> replacement sj d e = Inr new \<and> apply_spans sj d (sp_end e) b es = Inr rest
        \<and> out = slice rp a (doc_raw d) @ new @ rest)"
  by (auto split: sum.splits if_splits)

lemma apply_spans_keeps:
  assumes "pieces d st us" "apply_spans sj d previous rp es = Inr out"
    "\<forall>e \<in> set es. keeps_text d e"
    "\<And>p a. previous \<le> p \<Longrightarrow> doc_offset d p = Inr a \<Longrightarrow> rp \<le> a"
  shows "out = drop rp (doc_raw d)"
  using assms(2-)
proof (induction es arbitrary: previous rp out)
  case (Cons e es)
  obtain a b new rest where s: "previous \<le> sp_start e" "sp_start e \<le> sp_end e"
      "doc_offset d (sp_start e) = Inr a" "doc_offset d (sp_end e) = Inr b"
      "replacement sj d e = Inr new" "apply_spans sj d (sp_end e) b es = Inr rest"
      "out = slice rp a (doc_raw d) @ new @ rest"
    using Cons.prems(1) unfolding apply_spans_step by blast
  note mono = offset_monotone[OF assms(1)]
  have "rest = drop b (doc_raw d)"
    using Cons.IH[OF s(6)] Cons.prems(2) mono(1)[OF s(4)] by simp
  moreover have "new = slice a b (doc_raw d)"
    using s(3-5) Cons.prems(2)
    by (simp add: replacement_def keeps_text_def raw_between_def offset_or_zero_def)
  moreover have "rp \<le> a" "a \<le> b" using Cons.prems(3)[OF s(1,3)] mono[OF s(3,4,2)] by auto
  ultimately show ?case using s(7) by (simp add: slice_append_drop)
qed simp

lemma utf8_text_valid: "\<forall>u \<in> set us. utf8_piece u \<Longrightarrow> valid_utf8 (text_of us)"
proof (induction us)
  case (Cons u us)
  then have "utf8_piece u" by simp
  then consider "fst u = [LF]" | "fst u = snd u" "rune_width (snd u) = Some (length (snd u))"
    by (auto simp: utf8_piece_def)
  then have "valid_utf8 (fst u)"
  proof cases
    case 1
    then show ?thesis using valid_utf8_ascii[OF CR_LF_ascii(2), of "[]"] by simp
  next
    case 2
    then have "snd u \<noteq> []" using rune_width_bounds by fastforce
    with 2 show ?thesis by (simp add: valid_utf8_step)
  qed
  with Cons show ?case by (simp add: valid_utf8_append)
qed simp

lemma utf8_text_no_CR: "\<forall>u \<in> set us. utf8_piece u \<Longrightarrow> CR \<notin> set (text_of us)"
  by (induction us) (auto simp: utf8_piece_def)

lemma utf8_text_no_NUL:
  "\<forall>u \<in> set us. utf8_piece u \<Longrightarrow> NUL \<notin> set (bytes_of us) \<Longrightarrow> NUL \<notin> set (text_of us)"
  by (induction us) (auto simp: utf8_piece_def)

text \<open>
  C34. Reading a file and writing its own text back restores the file byte for byte, whatever its
  encoding and its newline styles: edits that leave the text of their span alone never change a
  byte, and for UTF-8 files the write succeeds.
\<close>

theorem unchanged_text_restores_bytes:
  assumes "decode sj data = Inr d"
  shows "((\<forall>e \<in> set es. keeps_text d e) \<and> apply_span_edits sj d es = Inr out \<longrightarrow> out = data)
    \<and> (doc_encoding d = UTF8 \<longrightarrow> encode_text sj d (doc_text d) = Inr data)"
proof -
  obtain us where p: "pieces d (if prefix bom data then 3 else 0) us" and raw: "doc_raw d = data"
    using decode_pieces[OF assms] by blast
  have keep: "out = data" if "\<forall>e \<in> set es. keeps_text d e" "apply_span_edits sj d es = Inr out" for es out
    using apply_spans_keeps[OF p, of sj 0 0 "sort_key sp_start es" out] that raw
    by (simp add: apply_span_edits_def)
  have "encode_text sj d (doc_text d) = Inr data" if utf8: "doc_encoding d = UTF8"
  proof -
    obtain vs where v: "pieces d (if prefix bom data then 3 else 0) vs"
        "\<forall>u \<in> set vs. utf8_piece u" "NUL \<notin> set data"
      using decode_utf8_pieces[OF assms utf8] by blast
    have tx: "doc_text d = text_of vs" and sub: "set (bytes_of vs) \<subseteq> set data"
      using v(1) raw by (auto simp: pieces_def) (metis Un_iff set_append)
    have ok: "valid_utf8 (doc_text d)" "CR \<notin> set (doc_text d)" "NUL \<notin> set (doc_text d)"
      unfolding tx using v utf8_text_valid utf8_text_no_CR utf8_text_no_NUL sub by blast+
    let ?e = "\<lparr>sp_start = 0, sp_end = length (doc_text d), sp_text = doc_text d\<rparr>"
    have "rune_cut (doc_text d) 0" "rune_cut (doc_text d) (length (doc_text d))"
      using valid_utf8_rune_start_hd[OF ok(1)] by (auto simp: rune_cut_def)
    then obtain a b where "doc_offset d 0 = Inr a" "doc_offset d (length (doc_text d)) = Inr b"
      using doc_offset_total[OF p] by blast
    then have "\<exists>out. apply_span_edits sj d [?e] = Inr out"
      using ok by (simp add: apply_span_edits_def replacement_def)
    moreover have "keeps_text d ?e" by (simp add: keeps_text_def)
    ultimately show ?thesis using keep[of "[?e]"] by (auto simp: encode_text_def)
  qed
  then show ?thesis using keep by blast
qed

subsection \<open>What is written is read back\<close>

text \<open>
  \<open>writes t s\<close>: the bytes \<open>s\<close> are a sequence of complete UTF-8 pieces without NUL and without a
  standalone CR, and their text is \<open>t\<close>. The relation is closed under concatenation, which is
  what makes copying and rewriting compositional.
\<close>

definition clean_piece :: "string \<times> string \<Rightarrow> bool" where
  "clean_piece u \<longleftrightarrow> utf8_piece u \<and> snd u \<noteq> [CR] \<and> NUL \<notin> set (snd u)"

definition writes :: "string \<Rightarrow> string \<Rightarrow> bool" where
  "writes t s \<longleftrightarrow> (\<exists>us. t = text_of us \<and> s = bytes_of us \<and> (\<forall>u \<in> set us. clean_piece u))"

lemma writes_Nil [simp, intro]: "writes [] []"
  unfolding writes_def by (rule exI[of _ "[]"]) simp

lemma writes_append: "writes t s \<Longrightarrow> writes t' s' \<Longrightarrow> writes (t @ t') (s @ s')"
  unfolding writes_def
  by (elim exE conjE, rule_tac x = "us @ usa" in exI) auto

lemma writes_newline: "e = [LF] \<or> e = [CR, LF] \<Longrightarrow> writes [LF] e"
  unfolding writes_def
  by (rule exI[of _ "[([LF], e)]"]) (auto simp: clean_piece_def utf8_piece_def)

lemma clean_newline: "clean_piece ([LF], e) \<Longrightarrow> e = [LF] \<or> e = [CR, LF]"
  by (auto simp: clean_piece_def utf8_piece_def)

lemma writes_literal: "valid_utf8 v \<Longrightarrow> CR \<notin> set v \<Longrightarrow> NUL \<notin> set v \<Longrightarrow> writes v v"
proof (induction v rule: valid_utf8.induct)
  case (1 v)
  show ?case
  proof (cases "v = []")
    case False
    then obtain n where n: "rune_width v = Some n" "valid_utf8 (drop n v)"
      using 1 valid_utf8_step by blast
    have "set (take n v) \<subseteq> set v" "set (drop n v) \<subseteq> set v" by (auto dest: in_set_takeD in_set_dropD)
    then have "writes (drop n v) (drop n v)"
      using 1 n False by (intro "1.IH") auto
    moreover have "clean_piece (take n v, take n v)"
      using 1 n rune_width_take[OF n(1), of "[]"] rune_width_bounds[OF n(1)] \<open>set (take n v) \<subseteq> set v\<close>
      by (auto simp: clean_piece_def utf8_piece_def min_def)
    then have "writes (take n v) (take n v)"
      unfolding writes_def by (intro exI[of _ "[(take n v, take n v)]"]) auto
    ultimately show ?thesis using writes_append by force
  qed simp
qed

lemma clean_bytes:
  assumes "\<forall>u \<in> set us. clean_piece u"
  shows "valid_utf8 (bytes_of us)" "NUL \<notin> set (bytes_of us)"
    "\<not> has_standalone_cr (bytes_of us)"
proof -
  have no_cr: "has_standalone_cr (s @ t) = has_standalone_cr t" if "CR \<notin> set s" for s t
    using that by (induction s) auto
  have "valid_utf8 (bytes_of us) \<and> NUL \<notin> set (bytes_of us) \<and> \<not> has_standalone_cr (bytes_of us)"
    using assms
  proof (induction us)
    case (Cons u us)
    then have u: "clean_piece u" and IH: "valid_utf8 (bytes_of us)" "NUL \<notin> set (bytes_of us)"
        "\<not> has_standalone_cr (bytes_of us)" by auto
    then consider "snd u = [LF]" | "snd u = [CR, LF]"
      | "rune_width (snd u) = Some (length (snd u))" "CR \<notin> set (snd u)"
      by (auto simp: clean_piece_def utf8_piece_def)
    then have "valid_utf8 (snd u @ bytes_of us) \<and> \<not> has_standalone_cr (snd u @ bytes_of us)"
    proof cases
      case 1
      then show ?thesis using IH valid_utf8_ascii[OF CR_LF_ascii(2)] by simp
    next
      case 2
      then show ?thesis
        using IH valid_utf8_ascii[OF CR_LF_ascii(2)] valid_utf8_ascii[OF CR_LF_ascii(1)] by simp
    next
      case 3
      then have "snd u \<noteq> []" using rune_width_bounds by fastforce
      with 3 have "valid_utf8 (snd u)" by (simp add: valid_utf8_step)
      then show ?thesis using 3 IH no_cr by (simp add: valid_utf8_append)
    qed
    then show ?case using u IH by (simp add: clean_piece_def)
  qed simp
  then show "valid_utf8 (bytes_of us)" "NUL \<notin> set (bytes_of us)"
    "\<not> has_standalone_cr (bytes_of us)" by auto
qed

text \<open>The reference reading: every CR LF and every other CR becomes LF.\<close>

fun normalized :: "string \<Rightarrow> string" where
  "normalized [] = []"
| "normalized [c] = [if c = CR then LF else c]"
| "normalized (c # e # s) =
     (if c = CR then (if e = LF then LF # normalized s else LF # normalized (e # s))
      else c # normalized (e # s))"

lemma normalized_Cons: "c \<noteq> CR \<Longrightarrow> normalized (c # s) = c # normalized s"
  by (cases s) auto

lemma normalized_append: "CR \<notin> set s \<Longrightarrow> normalized (s @ t) = s @ normalized t"
  by (induction s) (auto simp: normalized_Cons)

lemma normalized_pieces:
  "\<forall>u \<in> set us. utf8_piece u \<and> snd u \<noteq> [CR] \<Longrightarrow> normalized (bytes_of us) = text_of us"
proof (induction us)
  case (Cons u us)
  then have "utf8_piece u" "snd u \<noteq> [CR]" by auto
  then consider "fst u = [LF]" "snd u = [CR, LF]" | "fst u = snd u" "CR \<notin> set (snd u)"
    by (auto simp: utf8_piece_def)
  then show ?case using Cons by cases (auto simp: normalized_append)
qed simp

lemma prefix_bom_normalized: "prefix bom (normalized s) \<longleftrightarrow> prefix bom s"
proof (cases "length s < 3")
  case True
  then have "length (normalized s) < 3"
    by (cases s rule: normalized.cases) auto
  with True show ?thesis by (auto simp: bom_def dest!: prefix_length_le)
next
  case False
  then obtain a b c t where s: "s = a # b # c # t"
    by (metis One_nat_def Suc_1 Suc_less_eq length_Cons less_Suc_eq_0_disj list.exhaust list.size(3)
        numeral_3_eq_3 not_less_eq)
  have "CHR 0xEF \<noteq> CR" "CHR 0xBB \<noteq> CR" "CHR 0xEF \<noteq> LF" "CHR 0xBB \<noteq> LF"
    "CHR 0xBF \<noteq> CR" "CHR 0xBF \<noteq> LF"
    by (simp_all add: CR_def LF_def)
  then show ?thesis
    by (cases t) (auto simp: s bom_def)
qed

text \<open>Bytes without a standalone CR decode to the text they write.\<close>

lemma decode_writes:
  assumes "writes t s" "h = bom \<or> h = [] \<and> \<not> prefix bom t"
  shows "\<exists>d. decode sj (h @ s) = Inr d \<and> doc_text d = t \<and> doc_encoding d = UTF8"
proof -
  obtain us where us: "t = text_of us" "s = bytes_of us" "\<forall>u \<in> set us. clean_piece u"
    using assms(1) unfolding writes_def by blast
  note cb = clean_bytes[OF us(3)]
  have norm: "normalized s = t"
    unfolding us(1,2) using us(3) by (intro normalized_pieces) (auto simp: clean_piece_def)
  let ?st = "if prefix bom (h @ s) then 3 else 0"
  have st: "?st = length h"
    using assms(2) norm prefix_bom_normalized[of s] by (auto simp: bom_def)
  have nul: "NUL \<notin> set (h @ s)" using assms(2) cb(2) us(2) by (auto simp: bom_def NUL_def)
  let ?d = "decoded_document UTF8 [] (h @ s) (length h)"
  have d: "decode sj (h @ s) = Inr ?d"
    using nul cb(1) us(2) st by (simp add: decode_def Let_def split: if_splits)
  have scr: "\<not> has_standalone_cr (h @ s)"
    using cb(3) us(2) assms(2) by (auto simp: bom_def CR_def)
  have enc: "doc_encoding ?d = UTF8" "doc_raw ?d = h @ s"
    using decoded_document_pieces[of "length h" "h @ s" "\<lambda>_. True" "\<lambda>_. True" UTF8 "[]"] by auto
  obtain vs where v: "pieces ?d (length h) vs" "\<forall>u \<in> set vs. utf8_piece u \<and> snd u \<noteq> [CR]"
    using decode_utf8_pieces[OF d enc(1)] st scr by auto
  have "bytes_of vs = s" using v(1) enc(2) by (simp add: pieces_def)
  then have "doc_text ?d = t"
    using v normalized_pieces[OF v(2)] norm by (simp add: pieces_def)
  with d enc show ?thesis by blast
qed

text \<open>Common runes at the two ends of the replaced text.\<close>

lemma valid_utf8_append_iff: "valid_utf8 a \<Longrightarrow> valid_utf8 (a @ b) \<longleftrightarrow> valid_utf8 b"
proof (induction a rule: valid_utf8.induct)
  case (1 a)
  show ?case
  proof (cases "a = []")
    case False
    then obtain n where n: "rune_width a = Some n" "valid_utf8 (drop n a)"
      using 1 valid_utf8_step by blast
    then have "valid_utf8 (drop n a @ b) \<longleftrightarrow> valid_utf8 b" using 1 False by blast
    then show ?thesis
      using n False rune_width_append[OF n(1)] rune_width_bounds[OF n(1)]
      by (simp add: valid_utf8_step)
  qed simp
qed

lemma decode_rune_valid:
  assumes "valid_utf8 s" "s \<noteq> []"
  obtains n where "decode_rune s = (take n s, n)" "0 < n" "n \<le> length s" "valid_utf8 (take n s)"
    "valid_utf8 (drop n s)"
proof -
  obtain n where n: "rune_width s = Some n" "valid_utf8 (drop n s)"
    using assms valid_utf8_step by blast
  have "valid_utf8 (take n s)"
    using rune_width_take[OF n(1), of "[]"] rune_width_bounds[OF n(1)] assms(2)
    by (subst valid_utf8_step) auto
  with n show ?thesis
    using that[of n] rune_width_bounds[OF n(1)] by (simp add: decode_rune_def)
qed

lemma rune_prefix_spec:
  assumes "valid_utf8 (drop p old)" "valid_utf8 (drop p new)" "take p old = take p new"
    "valid_utf8 (take p old)" "p \<le> length old" "p \<le> length new"
  shows "p \<le> rune_prefix old new p \<and> rune_prefix old new p \<le> length old
    \<and> rune_prefix old new p \<le> length new
    \<and> take (rune_prefix old new p) old = take (rune_prefix old new p) new
    \<and> valid_utf8 (take (rune_prefix old new p) old)
    \<and> valid_utf8 (drop (rune_prefix old new p) old) \<and> valid_utf8 (drop (rune_prefix old new p) new)"
  using assms
proof (induction old new p rule: rune_prefix.induct)
  case (1 old new p)
  let ?a = "decode_rune (drop p old)" and ?b = "decode_rune (drop p new)"
  show ?case
  proof (cases "p < length old \<and> p < length new \<and> fst ?a = fst ?b \<and> snd ?a = snd ?b")
    case False
    then have "rune_prefix old new p = p" by (subst rune_prefix.simps) (auto simp: Let_def)
    with 1(2-) show ?thesis by simp
  next
    case True
    then obtain n where n: "?a = (take n (drop p old), n)" "0 < n" "n \<le> length (drop p old)"
        "valid_utf8 (take n (drop p old))" "valid_utf8 (drop n (drop p old))"
      using decode_rune_valid[OF 1(2)] by auto
    obtain m where m: "?b = (take m (drop p new), m)" "m \<le> length (drop p new)"
        "valid_utf8 (drop m (drop p new))"
      using decode_rune_valid[OF 1(3)] True by auto
    have mn: "m = n" "take n (drop p old) = take n (drop p new)" using True n(1) m(1) by auto
    have "rune_prefix old new p = rune_prefix old new (p + snd ?a)"
      using True by (subst rune_prefix.simps) (simp add: Let_def)
    then have eq: "rune_prefix old new p = rune_prefix old new (p + n)" by (simp add: n(1))
    have "p + n \<le> rune_prefix old new (p + n) \<and> rune_prefix old new (p + n) \<le> length old
      \<and> rune_prefix old new (p + n) \<le> length new
      \<and> take (rune_prefix old new (p + n)) old = take (rune_prefix old new (p + n)) new
      \<and> valid_utf8 (take (rune_prefix old new (p + n)) old)
      \<and> valid_utf8 (drop (rune_prefix old new (p + n)) old)
      \<and> valid_utf8 (drop (rune_prefix old new (p + n)) new)"
    proof -
      have "take (p + n) old = take (p + n) new" using mn(2) 1(4) by (simp add: take_add)
      moreover have "valid_utf8 (take (p + n) old)"
        using 1(5) n(4) by (simp add: take_add valid_utf8_append)
      moreover have "valid_utf8 (drop (p + n) old)" "valid_utf8 (drop (p + n) new)"
        using n(5) m(3) mn(1) by (simp_all add: add.commute)
      moreover have "p + n \<le> length old" "p + n \<le> length new" "p < length old \<and> p < length new"
        using n(3) m(2) mn(1) True by auto
      moreover note IH = 1(1)[OF calculation(7) refl refl, unfolded n(1) m(1) fst_conv snd_conv mn(1)]
      ultimately show ?thesis using mn(2) by (intro IH) auto
    qed
    then show ?thesis unfolding eq using n(2) by auto
  qed
qed

lemma last_rune:
  assumes "valid_utf8 s" "s \<noteq> []"
  shows "\<exists>z r. s = z @ r \<and> valid_utf8 z \<and> rune_width r = Some (length r)"
  using assms
proof (induction s rule: valid_utf8.induct)
  case (1 s)
  obtain n where n: "rune_width s = Some n" "valid_utf8 (drop n s)"
    using 1 valid_utf8_step by blast
  have tk: "rune_width (take n s) = Some n" "length (take n s) = n" "valid_utf8 (take n s)"
    using rune_width_take[OF n(1), of "[]"] rune_width_bounds[OF n(1)] 1(3)
    by (auto simp: valid_utf8_step)
  show ?case
  proof (cases "drop n s = []")
    case True
    then have "s = take n s" by simp
    then show ?thesis using tk by (intro exI[of _ "[]"] exI[of _ s]) auto
  next
    case False
    then obtain z r where "drop n s = z @ r" "valid_utf8 z" "rune_width r = Some (length r)"
      using 1 n by blast
    moreover from this have "s = (take n s @ z) @ r" using append_take_drop_id[of n s] by simp
    ultimately show ?thesis using tk(3) valid_utf8_append by blast
  qed
qed

lemma find_rev_upt:
  "a \<le> k \<Longrightarrow> k < b \<Longrightarrow> P k \<Longrightarrow> (\<And>i. k < i \<Longrightarrow> i < b \<Longrightarrow> \<not> P i) \<Longrightarrow>
     find P (rev [a ..< b]) = Some k"
proof (induction b)
  case (Suc b)
  show ?case
  proof (cases "k = b")
    case False
    then have "\<not> P b" using Suc.prems by simp
    then show ?thesis using Suc False by simp
  qed (use Suc.prems in simp)
qed simp

lemma decode_last_rune_append:
  assumes "rune_width r = Some (length r)"
  shows "decode_last_rune (z @ r) = (r, length r)"
proof -
  note b = rune_width_bounds[OF assms]
  then obtain c t where r: "r = c # t" by (cases r) auto
  have cont: "\<not> rune_start (r ! i)" if "0 < i" "i < length r" for i
    by (rule rune_width_continuation[OF assms that])
  show ?thesis
  proof (cases "length r = 1")
    case True
    then have r1: "r = [c]" using r by simp
    have "rune_class c = 1" using assms r1 by (auto simp: rune_width_def Let_def split: if_splits)
    then have "of_char c < (0x80 :: nat)" by (auto simp: rune_class_def byte_in_def split: if_splits)
    then show ?thesis using r1 by (simp add: decode_last_rune_def)
  next
    case False
    then have len: "2 \<le> length r" "length r \<le> 4" using b by linarith+
    have "\<not> rune_start (last r)" using cont[of "length r - 1"] len last_conv_nth[of r] r by fastforce
    then have hi: "\<not> of_char (last (z @ r)) < (0x80 :: nat)" using r by (auto simp: rune_start_def byte_in_def)
    let ?s = "z @ r" and ?k = "length z"
    have start: "rune_start (?s ! ?k)" using rune_width_start[OF assms] r by (simp add: nth_append)
    have after: "\<not> rune_start (?s ! i)" if "?k < i" "i < length ?s" for i
      using cont[of "i - ?k"] that by (simp add: nth_append)
    have "find (\<lambda>k. rune_start (?s ! k)) (rev [length ?s - 4 ..< length ?s - 1]) = Some ?k"
      by (rule find_rev_upt) (use start after len in auto)
    then show ?thesis using hi r assms
      by (simp add: decode_last_rune_def Let_def decode_rune_def)
  qed
qed

text \<open>The part between the common runes: \<open>slice p (length s - n) s\<close>.\<close>

lemma last_rune_cut:
  assumes "valid_utf8 (drop p (take (length s - n) s))" "n < length s - p"
  obtains m where "decode_last_rune (take (length s - n) s) = (drop (length s - n - m) (take (length s - n) s), m)"
    "0 < m" "n + m \<le> length s - p" "valid_utf8 (drop p (take (length s - (n + m)) s))"
    "valid_utf8 (slice (length s - (n + m)) (length s - n) s)"
proof -
  let ?t = "take (length s - n) s"
  obtain z r where zr: "drop p ?t = z @ r" "valid_utf8 z" "rune_width r = Some (length r)"
  proof -
    have "drop p ?t \<noteq> []" using assms(2) by simp
    then show ?thesis using last_rune[OF assms(1)] that by blast
  qed
  have t: "?t = (take p ?t @ z) @ r" using zr(1) append_take_drop_id[of p ?t] by simp
  have len: "length ?t = length s - n" by simp
  have lz: "length s - n = p + length z + length r"
    using arg_cong[OF zr(1), of length] assms(2) by simp
  have r0: "0 < length r" using rune_width_bounds[OF zr(3)] by simp
  have e: "length s - (n + length r) = p + length z" using lz by simp
  have "decode_last_rune ?t = (r, length r)"
    using decode_last_rune_append[OF zr(3)] t by metis
  moreover have "drop (length s - n - length r) ?t = r"
    by (subst t) (use lz assms(2) in simp)
  moreover have tk: "take (p + length z) s = take p ?t @ z"
  proof -
    have "take (p + length z) s = take (p + length z) ?t" using lz by (simp add: min_def)
    also have "\<dots> = take p ?t @ z" by (subst t) (use assms(2) in simp)
    finally show ?thesis .
  qed
  then have "drop p (take (length s - (n + length r)) s) = z"
    unfolding e using assms(2) by simp
  moreover have "slice (length s - (n + length r)) (length s - n) s = r"
    unfolding e slice_def using t assms(2) lz
    by (metis tk add_diff_cancel_left' append_eq_conv_conj append_take_drop_id drop_take
        length_append length_take lz min.absorb2 add.commute)
  moreover have "valid_utf8 r" using r0 zr(3) by (subst valid_utf8_step) auto
  ultimately show ?thesis using that[of "length r"] r0 zr(2) lz assms(2) by simp
qed

lemma rune_suffix_spec:
  assumes "valid_utf8 (drop p (take (length old - n) old))"
    "valid_utf8 (drop p (take (length new - n) new))"
    "n \<le> length old - p" "n \<le> length new - p"
    "drop (length old - n) old = drop (length new - n) new" "valid_utf8 (drop (length old - n) old)"
  shows "let m = rune_suffix old new p n in
    m \<le> length old - p \<and> m \<le> length new - p
    \<and> drop (length old - m) old = drop (length new - m) new
    \<and> valid_utf8 (drop (length old - m) old)
    \<and> valid_utf8 (drop p (take (length old - m) old)) \<and> valid_utf8 (drop p (take (length new - m) new))"
  using assms
proof (induction old new p n rule: rune_suffix.induct)
  case (1 old new p n)
  let ?a = "decode_last_rune (take (length old - n) old)"
  let ?b = "decode_last_rune (take (length new - n) new)"
  show ?case
  proof (cases "n < length old - p \<and> n < length new - p \<and> fst ?a = fst ?b \<and> snd ?a = snd ?b")
    case False
    then have "rune_suffix old new p n = n" by (subst rune_suffix.simps) (auto simp: Let_def)
    with 1(2-) show ?thesis by simp
  next
    case True
    then have lt: "n < length old - p" "n < length new - p" by auto
    obtain m where m: "?a = (drop (length old - n - m) (take (length old - n) old), m)" "0 < m"
        "n + m \<le> length old - p" "valid_utf8 (drop p (take (length old - (n + m)) old))"
        "valid_utf8 (slice (length old - (n + m)) (length old - n) old)"
      using last_rune_cut[OF 1(2) lt(1)] .
    obtain k where k: "?b = (drop (length new - n - k) (take (length new - n) new), k)"
        "n + k \<le> length new - p" "valid_utf8 (drop p (take (length new - (n + k)) new))"
      using last_rune_cut[OF 1(3) lt(2)] .
    have km: "k = m" using True m(1) k(1) by simp
    have runes: "drop (length old - n - m) (take (length old - n) old)
        = drop (length new - n - m) (take (length new - n) new)"
      using True m(1) k(1) km by simp
    have "rune_suffix old new p n = rune_suffix old new p (n + snd ?a)"
      using True by (subst rune_suffix.simps) (simp add: Let_def)
    then have eq: "rune_suffix old new p n = rune_suffix old new p (n + m)" by (simp add: m(1))
    have split: "drop (length s - (n + m)) s
        = drop (length s - n - m) (take (length s - n) s) @ drop (length s - n) s"
      if "n + m \<le> length s" for s :: string
    proof -
      have "drop (length s - (n + m)) s
          = slice (length s - (n + m)) (length s - n) s @ drop (length s - n) s"
        by (simp add: slice_append_drop)
      then show ?thesis using that by (simp add: slice_def drop_take)
    qed
    have sl: "slice (length old - (n + m)) (length old - n) old
        = drop (length old - n - m) (take (length old - n) old)"
      by (simp add: slice_def drop_take)
    have le: "n + m \<le> length old" "n + m \<le> length new" using m(3) k(2) km by auto
    have "drop (length old - (n + m)) old = drop (length new - (n + m)) new"
      using split[OF le(1)] split[OF le(2)] runes 1(6) by simp
    moreover have "valid_utf8 (drop (length old - (n + m)) old)"
      using split[OF le(1)] m(5) 1(7) sl by (simp add: valid_utf8_append)
    moreover note IH = 1(1)[OF conjI[OF lt] refl refl, unfolded m(1) k(1) km fst_conv snd_conv]
    ultimately show ?thesis
      unfolding eq using runes m(3,4) k(2,3) km by (intro IH) auto
  qed
qed

text \<open>A UTF-8 document without a standalone CR, and the raw bytes of its parts.\<close>

definition clean_document :: "document \<Rightarrow> nat \<Rightarrow> (string \<times> string) list \<Rightarrow> bool" where
  "clean_document d st us \<longleftrightarrow> pieces d st us \<and> (\<forall>u \<in> set us. clean_piece u)
     \<and> doc_encoding d = UTF8 \<and> (doc_newline d = [LF] \<or> ([LF], doc_newline d) \<in> set us)"

lemma clean_document_text:
  assumes "clean_document d st us"
  shows "valid_utf8 (doc_text d)"
  using assms utf8_text_valid[of us] by (auto simp: clean_document_def pieces_def clean_piece_def)

lemma valid_cut_boundary:
  assumes "s = a @ b" "valid_utf8 b"
  shows "rune_cut s (length a)"
  using assms valid_utf8_rune_start_hd[OF assms(2)]
  by (auto simp: rune_cut_def nth_append)

lemma clean_part:
  assumes "clean_document d st us" "doc_text d = a @ b @ c" "valid_utf8 a" "valid_utf8 b"
  obtains r r' where "doc_offset d (length a) = Inr r" "doc_offset d (length a + length b) = Inr r'"
    "r \<le> r'" "r' \<le> length (doc_raw d)" "writes b (slice r r' (doc_raw d))"
proof -
  have p: "pieces d st us" and cl: "\<forall>u \<in> set us. clean_piece u"
    using assms(1) by (auto simp: clean_document_def)
  have "valid_utf8 (a @ b @ c)" using clean_document_text[OF assms(1)] assms(2) by simp
  then have v: "valid_utf8 (b @ c)" "valid_utf8 c"
    using valid_utf8_append_iff assms(3,4) by auto
  obtain r where r: "doc_offset d (length a) = Inr r"
    using doc_offset_total[OF p] valid_cut_boundary[OF assms(2) v(1)] by blast
  obtain r' where r': "doc_offset d (length a + length b) = Inr r'"
    using doc_offset_total[OF p] valid_cut_boundary[of "doc_text d" "a @ b" c] v(2) assms(2) by auto
  obtain xs ys zs where us: "us = xs @ ys @ zs" "length a = length (text_of xs)"
      "length a + length b = length a + length (text_of ys)"
      "r = st + length (bytes_of xs)" "r' = r + length (bytes_of ys)"
    using offsets_between[OF p r r'] by auto
  have "a @ b @ c = text_of xs @ text_of ys @ text_of zs"
    using p us(1) assms(2) by (simp add: pieces_def)
  then have "b = text_of ys" using us(2,3) by simp
  moreover have "slice r r' (doc_raw d) = bytes_of ys" "r' \<le> length (doc_raw d)"
    using offset_raw_slice[OF p us(1,4,5)] by auto
  moreover have "writes (text_of ys) (bytes_of ys)"
    unfolding writes_def using cl us(1) by auto
  ultimately show ?thesis using that[OF r r'] us(5) by simp
qed

lemma raw_between_writes:
  assumes "clean_document d st us" "doc_text d = a @ b @ c" "valid_utf8 a" "valid_utf8 b"
  shows "writes b (raw_between d (length a) (length a + length b))"
  using clean_part[OF assms] by (metis (no_types, lifting) offset_or_zero_def raw_between_def sum.simps(6))

lemma valid_LF: "valid_utf8 [LF]"
  using valid_utf8_ascii[OF CR_LF_ascii(2), of "[]"] by simp

lemma newline_writes:
  assumes "clean_document d st us" "k < length (doc_text d)" "doc_text d ! k = LF"
  shows "writes [LF] (raw_between d k (k + 1))"
proof -
  have "rune_start LF" by (simp add: rune_start_def byte_in_def LF_def)
  then have "valid_utf8 (take k (doc_text d))"
    using valid_utf8_cut[OF clean_document_text[OF assms(1)] assms(2)] assms(3) by simp
  moreover have "doc_text d = take k (doc_text d) @ [LF] @ drop (Suc k) (doc_text d)"
    using assms(2,3) by (metis append_Cons append_Nil id_take_nth_drop)
  ultimately show ?thesis
    using raw_between_writes[OF assms(1) _ _ valid_LF, of "take k (doc_text d)"] assms(2) by force
qed

lemma nearby_newline_writes:
  assumes "clean_document d st us"
  shows "writes [LF] (nearby_newline d pos)"
proof (cases "str_index (drop pos (doc_text d)) [LF]")
  case (Some k)
  then have k: "occurs_at (drop pos (doc_text d)) [LF] k" by (simp add: str_index_Some)
  have "k < length (drop pos (doc_text d))" using occurs_at_length[OF k] by simp
  moreover have "drop pos (doc_text d) ! k = LF"
    using k by (metis Cons_prefix_Cons Cons_nth_drop_Suc calculation occurs_at_def)
  ultimately show ?thesis
    using newline_writes[OF assms, of "pos + k"] Some by (simp add: nearby_newline_def)
next
  case None
  show ?thesis
  proof (cases "str_last_index (take pos (doc_text d)) [LF]")
    case (Some k)
    then have k: "occurs_at (take pos (doc_text d)) [LF] k" by (simp add: str_last_index_Some)
    have "k < length (take pos (doc_text d))" using occurs_at_length[OF k] by simp
    moreover have "take pos (doc_text d) ! k = LF"
      using k by (metis Cons_prefix_Cons Cons_nth_drop_Suc calculation occurs_at_def)
    ultimately show ?thesis
      using newline_writes[OF assms, of k] Some None by (simp add: nearby_newline_def)
  next
    case no: None
    have "doc_newline d = [LF] \<or> doc_newline d = [CR, LF]"
      using assms clean_newline unfolding clean_document_def by blast
    then show ?thesis using writes_newline None no by (simp add: nearby_newline_def)
  qed
qed

text \<open>Lines of valid text are valid.\<close>

lemma split_after_append:
  "d \<notin> set r \<Longrightarrow> split_after d (r @ s) = (r @ hd (split_after d s)) # tl (split_after d s)"
  by (induction r) auto

lemma split_after_valid: "valid_utf8 s \<Longrightarrow> l \<in> set (split_after LF s) \<Longrightarrow> valid_utf8 l"
proof (induction s arbitrary: l rule: valid_utf8.induct)
  case (1 s)
  show ?case
  proof (cases "s = []")
    case False
    then obtain n where n: "rune_width s = Some n" "valid_utf8 (drop n s)"
      using 1 valid_utf8_step by blast
    note b = rune_width_bounds[OF n(1)]
    have IH: "valid_utf8 l'" if "l' \<in> set (split_after LF (drop n s))" for l'
      using 1(1)[OF False n(1,2)] that by blast
    have v: "valid_utf8 (take n s)"
      using rune_width_take[OF n(1), of "[]"] b False by (auto simp: valid_utf8_step)
    obtain c t where s: "s = c # t" using False by (cases s) auto
    show ?thesis
    proof (cases "c = LF")
      case True
      then have "n = 1" using n(1) rune_ascii[OF CR_LF_ascii(2), of t] s by simp
      then show ?thesis using 1(3) IH True s valid_LF by auto
    next
      case neq: False
      have "LF \<notin> set (take n s)"
      proof (cases "of_char c < (0x80 :: nat)")
        case True
        then have "n = 1" using n(1) rune_ascii[OF True, of t] s by simp
        then show ?thesis using neq s by simp
      next
        case False
        then show ?thesis using rune_no_CR(2)[of c t n] n(1) s by simp
      qed
      then have sp: "split_after LF s
          = (take n s @ hd (split_after LF (drop n s))) # tl (split_after LF (drop n s))"
        using split_after_append[of LF "take n s" "drop n s"] by simp
      have hd: "valid_utf8 (hd (split_after LF (drop n s)))" by (rule IH) simp
      show ?thesis using 1(3) IH v hd valid_utf8_append list.set_sel(2)[of "split_after LF (drop n s)"]
        unfolding sp by auto
    qed
  qed (use 1 in simp)
qed

lemma original_lines_write:
  assumes "clean_document d st us" "doc_text d = a @ concat ls @ c" "valid_utf8 a"
    "\<forall>l \<in> set ls. valid_utf8 l" "pos = length a"
    "\<forall>l s t. (s, t) \<in> set (occ l) \<longrightarrow> writes l (raw_between d s t)"
    "\<forall>e \<in> set endings. writes [LF] e"
  shows "(\<forall>l s t. (s, t) \<in> set (fst (original_lines d pos ls occ endings) l)
      \<longrightarrow> writes l (raw_between d s t)) \<and>
    (\<forall>e \<in> set (snd (original_lines d pos ls occ endings)). writes [LF] e)"
  using assms
proof (induction ls arbitrary: a pos occ endings)
  case (Cons l ls)
  have tx: "doc_text d = a @ l @ concat ls @ c" using Cons.prems(2) by simp
  have w: "writes l (raw_between d pos (pos + length l))"
    using raw_between_writes[OF Cons.prems(1) tx Cons.prems(3)] Cons.prems(4,5) by simp
  have e: "writes [LF] (raw_between d (pos + length l - 1) (pos + length l))" if su: "suffix [LF] l"
  proof -
    obtain l' where l: "l = l' @ [LF]" using su by (auto simp: suffix_def)
    have "doc_text d ! (pos + length l - 1) = LF" "pos + length l - 1 < length (doc_text d)"
      using tx l Cons.prems(5) by (auto simp: nth_append)
    then show ?thesis using newline_writes[OF Cons.prems(1)] l by force
  qed
  have va: "valid_utf8 (a @ l)" using Cons.prems(3,4) by (simp add: valid_utf8_append)
  show ?case
    unfolding original_lines.simps
    by (rule Cons.IH[OF Cons.prems(1) _ va]) (use tx w e Cons.prems in \<open>auto split: if_splits\<close>)
qed simp

lemma written_lines_write:
  assumes "doc_encoding d = UTF8"
    "\<forall>l s t. (s, t) \<in> set (occ l) \<longrightarrow> writes l (raw_between d s t)"
    "\<forall>e \<in> set endings. writes [LF] e" "writes [LF] ending"
    "\<forall>l \<in> set ls. valid_utf8 l \<and> CR \<notin> set l \<and> NUL \<notin> set l"
  shows "\<exists>out. written_lines sj d endings i ending occ ls = Inr out \<and> writes (concat ls) out"
  using assms(2-)
proof (induction ls arbitrary: i ending occ)
  case (Cons l ls)
  show ?case
  proof (cases "occ l \<noteq> [] \<and> l \<noteq> []")
    case True
    then have "hd (occ l) \<in> set (occ l)" by simp
    then have w: "writes l (raw_between d (fst (hd (occ l))) (snd (hd (occ l))))"
      using Cons.prems(1) by (metis prod.collapse)
    have "\<forall>l' s t. (s, t) \<in> set ((occ(l := tl (occ l))) l') \<longrightarrow> writes l' (raw_between d s t)"
      using Cons.prems(1) True by (auto dest: list.set_sel(2))
    moreover have "\<forall>l \<in> set ls. valid_utf8 l \<and> CR \<notin> set l \<and> NUL \<notin> set l"
      using Cons.prems(4) by simp
    ultimately obtain out where
        "written_lines sj d endings (i + 1) ending (occ(l := tl (occ l))) ls = Inr out"
        "writes (concat ls) out"
      using Cons.IH[OF _ Cons.prems(2,3), of "occ(l := tl (occ l))" "i + 1"] by blast
    with True w show ?thesis by (auto intro: writes_append)
  next
    case False
    let ?ending = "if i < length endings then endings ! i else ending"
    have we: "writes [LF] ?ending" using Cons.prems(2,3) by simp
    then obtain out where out: "written_lines sj d endings (i + 1) ?ending occ ls = Inr out"
        "writes (concat ls) out"
      using Cons.IH[of occ ?ending "i + 1"] Cons.prems(1,2,4) by auto
    let ?line = "if suffix [LF] l then trim_suffix l [LF] @ ?ending else l"
    have "writes l ?line"
    proof (cases "suffix [LF] l")
      case True
      then obtain x where x: "l = x @ [LF]" by (auto simp: suffix_def)
      have "valid_utf8 x"
      proof -
        have "rune_start LF" by (simp add: rune_start_def byte_in_def LF_def)
        then show ?thesis using valid_utf8_cut[of l "length x"] Cons.prems(4) x by simp
      qed
      then have "writes x x" using writes_literal Cons.prems(4) x by simp
      then show ?thesis using writes_append[OF _ we] x by (simp add: trim_suffix_LF)
    next
      case False
      then show ?thesis using writes_literal Cons.prems(4) by simp
    qed
    then have "writes (concat (l # ls)) (?line @ out)" using writes_append out(2) by simp
    moreover have "written_lines sj d endings i ending occ (l # ls) = Inr (?line @ out)"
      using False out(1) assms(1) by (auto simp: encode_fragment_def Let_def)
    ultimately show ?thesis by blast
  qed
qed simp

lemma set_slice_subset: "set (slice i j s) \<subseteq> set s"
  unfolding slice_def by (auto dest: in_set_takeD in_set_dropD)

lemma replacement_writes:
  assumes "clean_document d st us" "doc_text d = a @ old @ c" "valid_utf8 a" "valid_utf8 old"
    "valid_utf8 new" "CR \<notin> set new" "NUL \<notin> set new"
    "e = \<lparr>sp_start = length a, sp_end = length a + length old, sp_text = new\<rparr>"
  shows "\<exists>out. replacement sj d e = Inr out \<and> writes new out"
proof -
  have old: "slice (sp_start e) (sp_end e) (doc_text d) = old"
    using assms(2,8) by (simp add: slice_def)
  show ?thesis
  proof (cases "old = new")
    case True
    then show ?thesis
      using raw_between_writes[OF assms(1-4)] old assms(8) by (simp add: replacement_def)
  next
    case False
    let ?p = "rune_prefix old new 0"
    let ?n = "rune_suffix old new ?p 0"
    have pre: "?p \<le> length old" "?p \<le> length new" "take ?p old = take ?p new"
        "valid_utf8 (take ?p old)" "valid_utf8 (drop ?p old)" "valid_utf8 (drop ?p new)"
      using rune_prefix_spec[of 0 old new] assms(4,5) by auto
    have suf: "?n \<le> length old - ?p" "?n \<le> length new - ?p"
        "drop (length old - ?n) old = drop (length new - ?n) new"
        "valid_utf8 (drop (length old - ?n) old)"
        "valid_utf8 (drop ?p (take (length old - ?n) old))"
        "valid_utf8 (drop ?p (take (length new - ?n) new))"
      using rune_suffix_spec[of ?p old 0 new] pre by (auto simp: Let_def)
    define om where "om = slice ?p (length old - ?n) old"
    define nm where "nm = slice ?p (length new - ?n) new"
    define tail where "tail = drop (length old - ?n) old"
    have le: "?p \<le> length old - ?n" "?p \<le> length new - ?n" using suf(1,2) pre(1,2) by linarith+
    have om: "old = take ?p old @ om @ tail" "valid_utf8 om" "length tail = ?n"
      using suf(1,5) unfolding om_def tail_def slice_append_drop[OF le(1)]
      by (simp_all add: slice_def drop_take)
    have nm: "new = take ?p old @ nm @ tail" "valid_utf8 nm"
      using suf(6) unfolding nm_def tail_def suf(3) pre(3) slice_append_drop[OF le(2)]
      by (simp_all add: slice_def drop_take)
    have nm_ok: "CR \<notin> set nm" "NUL \<notin> set nm"
      using assms(6,7) set_slice_subset[of ?p "length new - ?n" new] by (auto simp: nm_def)
    have tx: "doc_text d = (a @ take ?p old) @ concat (split_after LF om) @ (tail @ c)"
      using assms(2) om(1) by (simp add: concat_split_after)
    have va: "valid_utf8 (a @ take ?p old)" using assms(3) pre(4) by (simp add: valid_utf8_append)
    let ?lines = "original_lines d (length a + ?p) (split_after LF om) (\<lambda>_. []) []"
    have ol: "\<forall>l s t. (s, t) \<in> set (fst ?lines l) \<longrightarrow> writes l (raw_between d s t)"
        "\<forall>l \<in> set (snd ?lines). writes [LF] l"
      using original_lines_write[OF assms(1) tx va, of "length a + ?p" "\<lambda>_. []" "[]"]
        split_after_valid[OF om(2)] pre(1) by (auto simp: min_def)
    have nl: "\<forall>l \<in> set (split_after LF nm). valid_utf8 l \<and> CR \<notin> set l \<and> NUL \<notin> set l"
    proof
      fix l assume l: "l \<in> set (split_after LF nm)"
      then have "set l \<subseteq> set nm" by (metis UN_I concat_split_after set_concat subsetI)
      then show "valid_utf8 l \<and> CR \<notin> set l \<and> NUL \<notin> set l"
        using split_after_valid[OF nm(2) l] nm_ok by auto
    qed
    have enc: "doc_encoding d = UTF8" using assms(1) by (simp add: clean_document_def)
    obtain out where out: "written_lines sj d (snd ?lines) 0 (nearby_newline d (length a + ?p))
          (fst ?lines) (split_after LF nm) = Inr out" "writes nm out"
      using written_lines_write[OF enc ol nearby_newline_writes[OF assms(1), of "length a + ?p"] nl, of sj 0]
      unfolding concat_split_after by blast
    let ?out = "raw_between d (length a) (length a + ?p) @ out
        @ raw_between d (length a + length old - ?n) (length a + length old)"
    have "replacement sj d e = Inr ?out"
      using False old out(1) assms(8)
      by (simp add: replacement_def Let_def om_def[symmetric] nm_def[symmetric])
    moreover have "writes (take ?p old) (raw_between d (length a) (length a + ?p))"
      using raw_between_writes[OF assms(1), of a "take ?p old" "om @ tail @ c"] om(1) assms(2,3) pre(1,4)
      by (metis append.assoc length_take min.absorb2)
    moreover have "writes tail (raw_between d (length a + length old - ?n) (length a + length old))"
    proof -
      have l: "length old = ?p + length om + ?n"
        using arg_cong[OF om(1), of length] om(3) pre(1) by simp
      have "doc_text d = (a @ take ?p old @ om) @ tail @ c" using assms(2) om(1) by (metis append.assoc)
      moreover have "valid_utf8 (a @ take ?p old @ om)"
        using assms(3) pre(4) om(2) by (simp add: valid_utf8_append)
      moreover have "valid_utf8 tail" using suf(4) by (simp add: tail_def)
      moreover have "length (a @ take ?p old @ om) = length a + length old - ?n"
        "length (a @ take ?p old @ om) + length tail = length a + length old"
        using l pre(1) om(3) by auto
      ultimately show ?thesis using raw_between_writes[OF assms(1)] by metis
    qed
    ultimately show ?thesis using out(2) nm(1) writes_append by metis
  qed
qed

text \<open>The loop of \<open>Apply\<close> over located edits, and the engine's \<open>encode\<close>.\<close>

definition edit_span :: "nat \<times> edit \<Rightarrow> span_edit" where
  "edit_span p = \<lparr>sp_start = fst p, sp_end = fst p + length (ed_old_text (snd p)),
     sp_text = ed_new_text (snd p)\<rparr>"

definition utf8_edit :: "edit \<Rightarrow> bool" where
  "utf8_edit e \<longleftrightarrow> valid_utf8 (ed_old_text e) \<and> valid_utf8 (ed_new_text e)
     \<and> CR \<notin> set (ed_new_text e) \<and> NUL \<notin> set (ed_new_text e) \<and> ed_old_text e \<noteq> []"

lemma apply_spans_write:
  assumes "clean_document d st us" "spans_from (doc_text d) p ps" "\<forall>x \<in> set ps. utf8_edit (snd x)"
    "valid_utf8 (take p (doc_text d))" "doc_offset d p = Inr r" "rp \<le> r"
  shows "\<exists>out. apply_spans sj d p rp (map edit_span ps) = Inr (slice rp r (doc_raw d) @ out)
     \<and> writes (assemble (doc_text d) p ps) out"
  using assms(2-)
proof (induction ps arbitrary: p r rp)
  case Nil
  let ?t = "doc_text d"
  have "?t = take p ?t @ drop p ?t @ []" by simp
  moreover have "valid_utf8 (drop p ?t)"
    using clean_document_text[OF assms(1)] Nil.prems(3) valid_utf8_append_iff append_take_drop_id by metis
  moreover have len: "length (take p ?t) = p" using Nil.prems(1) by simp
  ultimately obtain r' where "r \<le> r'" "writes (drop p ?t) (slice r r' (doc_raw d))" "r' \<le> length (doc_raw d)"
      "doc_offset d (length ?t) = Inr r'"
    using clean_part[OF assms(1), of "take p ?t" "drop p ?t" "[]"] Nil.prems by auto
  moreover have "r' = length (doc_raw d)"
  proof -
    have p: "pieces d st us" using assms(1) by (simp add: clean_document_def)
    then obtain vs ws where v: "us = vs @ ws" "ws = [] \<or> fst (hd ws) \<noteq> []"
        "length ?t = length (text_of vs)" "r' = st + length (bytes_of vs)"
      using \<open>doc_offset d (length ?t) = Inr r'\<close> doc_offset_Inr[OF p] by auto
    have "ws = []"
    proof (cases ws)
      case (Cons w ws')
      then show ?thesis using v p by (simp add: pieces_def)
    qed
    moreover have "length (doc_raw d) = st + length (bytes_of us)"
      using p unfolding pieces_def by (metis length_append length_take min.absorb2)
    ultimately show ?thesis using v by simp
  qed
  ultimately have "writes (drop p ?t) (drop r (doc_raw d))" by (simp add: slice_def)
  then show ?case using slice_append_drop[OF Nil.prems(5), of "doc_raw d"]
    by (intro exI[of _ "drop r (doc_raw d)"]) simp
next
  case (Cons x ps)
  obtain s e where x: "x = (s, e)" by (cases x)
  let ?t = "doc_text d" and ?old = "ed_old_text e" and ?new = "ed_new_text e"
  let ?stop = "s + length ?old"
  have pr: "p \<le> s" "occurs_at ?t ?old s" "spans_from ?t ?stop ps" using Cons.prems(1) x by auto
  have ue: "valid_utf8 ?old" "valid_utf8 ?new" "CR \<notin> set ?new" "NUL \<notin> set ?new" "?old \<noteq> []"
    using Cons.prems(2) x by (auto simp: utf8_edit_def)
  have split: "?t = take s ?t @ ?old @ drop ?stop ?t" by (rule occurs_at_split[OF pr(2)])
  have bound: "?stop \<le> length ?t" using occurs_at_length[OF pr(2)] .
  have slt: "s < length ?t" using bound ue(5) by (cases ?old) auto
  have "rune_start (?t ! s)"
    using valid_utf8_rune_start_hd[OF ue(1,5)] split bound ue(5)
    by (metis length_take min.absorb2 nth_append_length_plus add.right_neutral add_leD1 nth_append
        length_greater_0_conv)
  then have vs: "valid_utf8 (take s ?t)"
    using valid_utf8_cut[OF clean_document_text[OF assms(1)], of s] slt by simp
  have ls: "length (take s ?t) = s" using bound by simp
  obtain a b where ab: "doc_offset d s = Inr a" "doc_offset d ?stop = Inr b" "a \<le> b"
    using clean_part[OF assms(1) split vs ue(1)] ls by metis
  obtain new where new: "replacement sj d (edit_span x) = Inr new" "writes ?new new"
    using replacement_writes[OF assms(1) split vs ue(1-4), of "edit_span x" sj] ls x
    by (auto simp: edit_span_def)
  have ve: "valid_utf8 (take ?stop ?t)"
    using vs ue(1) split ls by (metis append.assoc append_eq_conv_conj length_append valid_utf8_append)
  obtain out where out: "apply_spans sj d ?stop b (map edit_span ps) = Inr (slice b b (doc_raw d) @ out)"
      "writes (assemble ?t ?stop ps) out"
    using Cons.IH[OF pr(3) _ ve ab(2), of b] Cons.prems(2) by auto
  have "?t = take p ?t @ slice p s ?t @ drop s ?t" using pr(1) by (simp add: slice_append_drop)
  moreover have vp: "valid_utf8 (slice p s ?t)"
    using vs Cons.prems(3) pr(1) valid_utf8_append_iff by (metis take_append_slice)
  ultimately have gap: "writes (slice p s ?t) (slice r a (doc_raw d))" "r \<le> a"
    using clean_part[OF assms(1) _ Cons.prems(3) vp] Cons.prems(4) ab(1) pr(1) bound
    by (metis (no_types, lifting) Inr_inject le_add_diff_inverse length_slice length_take min.absorb2
        add_leD1 order_trans)+
  have "apply_spans sj d p rp (map edit_span (x # ps))
      = Inr (slice rp a (doc_raw d) @ new @ out)"
    using pr(1) bound ue ab new(1) out(1) x by (simp add: edit_span_def)
  moreover have "slice rp a (doc_raw d) = slice rp r (doc_raw d) @ slice r a (doc_raw d)"
    using slice_append_slice[OF Cons.prems(5) gap(2), of "doc_raw d"] by (rule sym)
  moreover have "writes (assemble ?t p (x # ps)) (slice r a (doc_raw d) @ new @ out)"
    using gap(1) new(2) out(2) x by (simp add: writes_append)
  ultimately show ?case by (metis append.assoc)
qed

lemma edit_spans_located:
  "\<forall>e \<in> set es. anchored t e \<Longrightarrow> edit_spans t es = Inr (map edit_span (located t es))"
proof (induction es)
  case (Cons e es)
  then obtain s where "unique_index t (ed_old_text e) = Some s" "ed_old_text e \<noteq> []"
    by (auto simp: anchored_iff)
  with Cons show ?case
    using start_of_unique by (auto simp: located_def edit_span_def)
qed (simp add: located_def)

lemma insort_edit_span:
  "insort_key sp_start (edit_span x) (map edit_span xs) = map edit_span (insort_key fst x xs)"
  by (induction xs) (auto simp: edit_span_def)

lemma sort_edit_span: "sort_key sp_start (map edit_span xs) = map edit_span (sort_key fst xs)"
  by (induction xs) (simp_all add: insort_edit_span)

lemma decoded_clean_document:
  assumes "decode sj data = Inr d" "doc_encoding d = UTF8" "\<not> has_standalone_cr data"
  shows "\<exists>us. clean_document d (if prefix bom data then 3 else 0) us"
proof -
  obtain us where us: "pieces d (if prefix bom data then 3 else 0) us"
      "\<forall>u \<in> set us. utf8_piece u \<and> snd u \<noteq> [CR]" "doc_newline d = [LF] \<or> ([LF], doc_newline d) \<in> set us"
      "NUL \<notin> set data"
    using decode_utf8_pieces[OF assms(1,2)] assms(3) by blast
  have "data = take (if prefix bom data then 3 else 0) data @ bytes_of us"
    using us(1) decode_pieces(2)[OF assms(1)] unfolding pieces_def by metis
  then have sub: "set (bytes_of us) \<subseteq> set data" by (metis set_append sup_ge2)
  have "NUL \<notin> set (snd u)" if "u \<in> set us" for u
    using that us(4) sub by (auto simp: bytes_of_def)
  then show ?thesis using us assms(2) by (auto simp: clean_document_def clean_piece_def)
qed

text \<open>
  C35. For a UTF-8 file without a standalone CR the engine's encoding step never turns down the
  edits its text check accepted: the bytes it writes decode again to exactly the edited text, and
  the byte order mark stays. (The one way out is an edit that would put U+FEFF in front of a file
  without a mark.)
\<close>

theorem accepted_edits_can_be_written:
  assumes "decode sj data = Inr d" "doc_encoding d = UTF8" "\<not> has_standalone_cr data"
    and "apply_edits (doc_text d) es = Inr t" "\<forall>e \<in> set es. valid_utf8 (ed_old_text e)"
    and "prefix bom data \<or> \<not> prefix bom t"
  shows "\<exists>out d'. encode_edits sj d t es = Inr out \<and> decode sj out = Inr d' \<and> doc_text d' = t
    \<and> doc_encoding d' = UTF8 \<and> (prefix bom data \<longrightarrow> prefix bom out)"
proof -
  let ?st = "if prefix bom data then 3 else 0"
  let ?ps = "sort_key fst (located (doc_text d) es)"
  obtain us where cd: "clean_document d ?st us" using decoded_clean_document[OF assms(1-3)] by blast
  have raw: "doc_raw d = data" by (rule decode_pieces(2)[OF assms(1)])
  have ex: "exact_edits (doc_text d) es" "\<forall>e \<in> set es. engine_text_ok e"
      "t = assemble (doc_text d) 0 ?ps"
    using assms(4) by (auto simp: apply_edits_Inr replaced_text_def)
  have ok: "\<forall>x \<in> set ?ps. utf8_edit (snd x)"
    using ex(2) assms(5) by (auto simp: set_located utf8_edit_def engine_text_ok_def)
  have p: "pieces d ?st us" using cd by (simp add: clean_document_def)
  have "rune_cut (doc_text d) 0"
    using valid_cut_boundary[of "doc_text d" "[]"] clean_document_text[OF cd] by simp
  then obtain r where r: "doc_offset d 0 = Inr r" using doc_offset_total[OF p] by blast
  then obtain vs ws where vs: "us = vs @ ws" "0 = length (text_of vs)" "r = ?st + length (bytes_of vs)"
    unfolding doc_offset_Inr[OF p] by blast
  have "vs = []"
  proof (cases vs)
    case (Cons v vs')
    then have "clean_piece v" using cd vs(1) by (simp add: clean_document_def)
    then show ?thesis using vs(2) Cons rune_width_bounds[of "snd v"]
      by (auto simp: clean_piece_def utf8_piece_def)
  qed simp
  then have r3: "r = ?st" using vs(3) by simp
  obtain out where out: "apply_spans sj d 0 0 (map edit_span ?ps) = Inr (slice 0 r (doc_raw d) @ out)"
      "writes t out"
    using apply_spans_write[OF cd exact_edits_spans[OF ex(1)] ok _ r, of 0 sj] ex(3) by auto
  have head: "slice 0 r (doc_raw d) = (if prefix bom data then bom else [])"
    using r3 raw by (auto simp: bom_def prefix_def)
  have asp: "apply_span_edits sj d (map edit_span (located (doc_text d) es))
      = Inr ((if prefix bom data then bom else []) @ out)"
    using out(1) unfolding head by (simp add: apply_span_edits_def sort_edit_span)
  have hd: "(if prefix bom data then bom else []) = bom
      \<or> (if prefix bom data then bom else []) = [] \<and> \<not> prefix bom t"
    using assms(6) by (cases "prefix bom data") auto
  obtain d' where d': "decode sj ((if prefix bom data then bom else []) @ out) = Inr d'"
      "doc_text d' = t" "doc_encoding d' = UTF8"
    using decode_writes[OF out(2) hd, of sj] by blast
  have "edit_spans (doc_text d) es = Inr (map edit_span (located (doc_text d) es))"
    using edit_spans_located ex(1) by (simp add: exact_edits_def)
  then have "encode_edits sj d t es = Inr ((if prefix bom data then bom else []) @ out)"
    using asp d' by (simp add: encode_edits_def)
  then show ?thesis using d' by (intro exI conjI) auto
qed

subsection \<open>Concrete files\<close>

definition no_shift_jis :: shift_jis where
  "no_shift_jis = \<lparr>sj_decode = (\<lambda>_. None), sj_encode = (\<lambda>_. None)\<rparr>"

text \<open>A marked file with a multi-byte rune and all three kinds of newline.\<close>

definition mixed_file :: string where
  "mixed_file = bom @ ''ab'' @ [CR, LF] @ [CHR 0xE3, CHR 0x81, CHR 0x82] @ [CR] @ ''c'' @ [LF]"

definition mixed_text :: string where
  "mixed_text = ''ab'' @ [LF] @ [CHR 0xE3, CHR 0x81, CHR 0x82] @ [LF] @ ''c'' @ [LF]"

definition document_of :: "shift_jis \<Rightarrow> string \<Rightarrow> document" where
  "document_of sj data =
     (case decode sj data of Inr d \<Rightarrow> d | Inl _ \<Rightarrow> fresh_document UTF8 [])"

definition mixed_span :: span_edit where
  "mixed_span = \<lparr>sp_start = 0, sp_end = 3, sp_text = ''ab'' @ [LF]\<rparr>"

definition mixed_facts :: bool where
  "mixed_facts \<longleftrightarrow> (case decode no_shift_jis mixed_file of Inl _ \<Rightarrow> False | Inr d \<Rightarrow>
     doc_text d = mixed_text \<and> doc_encoding d = UTF8 \<and> keeps_text d mixed_span
     \<and> (case apply_span_edits no_shift_jis d [mixed_span] of Inl _ \<Rightarrow> False | Inr _ \<Rightarrow> True))"

lemma mixed_facts: "mixed_facts"
  by code_simp

lemma unchanged_text_restores_bytes_witness:
  "\<exists>d. decode no_shift_jis mixed_file = Inr d \<and> doc_text d = mixed_text
     \<and> apply_span_edits no_shift_jis d [mixed_span] = Inr mixed_file
     \<and> encode_text no_shift_jis d mixed_text = Inr mixed_file"
proof -
  obtain d out where d: "decode no_shift_jis mixed_file = Inr d" "doc_text d = mixed_text"
      "doc_encoding d = UTF8" "keeps_text d mixed_span" "apply_span_edits no_shift_jis d [mixed_span] = Inr out"
    using mixed_facts by (auto simp: mixed_facts_def split: sum.splits)
  then show ?thesis
    using unchanged_text_restores_bytes [OF d(1), of "[mixed_span]" out] by auto
qed

definition edit_of :: "string \<Rightarrow> string \<Rightarrow> edit" where
  "edit_of old new =
     \<lparr>ed_item_ids = [], ed_old_text = old, ed_new_text = new, ed_attributions = []\<rparr>"

definition windows_file :: string where
  "windows_file = ''ab'' @ [CR, LF] @ ''c'' @ [CR, LF] @ ''d'' @ [LF]"

definition windows_edit :: edit where
  "windows_edit = edit_of ''c'' (''x'' @ [LF] @ ''c'')"

definition windows_facts :: bool where
  "windows_facts \<longleftrightarrow> (case decode no_shift_jis windows_file of Inl _ \<Rightarrow> False | Inr d \<Rightarrow>
     doc_encoding d = UTF8 \<and> \<not> has_standalone_cr windows_file \<and>
     valid_utf8 (ed_old_text windows_edit) \<and>
     (case apply_edits (doc_text d) [windows_edit] of Inl _ \<Rightarrow> False | Inr t \<Rightarrow>
        t = ''ab'' @ [LF] @ ''x'' @ [LF] @ ''c'' @ [LF] @ ''d'' @ [LF] \<and> \<not> prefix bom t \<and>
        encode_edits no_shift_jis d t [windows_edit]
          = Inr (''ab'' @ [CR, LF] @ ''x'' @ [CR, LF] @ ''c'' @ [CR, LF] @ ''d'' @ [LF])))"

lemma windows_facts: "windows_facts"
  by code_simp

lemma accepted_edits_can_be_written_witness:
  "\<exists>d t out d'. decode no_shift_jis windows_file = Inr d
     \<and> apply_edits (doc_text d) [windows_edit] = Inr t
     \<and> encode_edits no_shift_jis d t [windows_edit] = Inr out
     \<and> decode no_shift_jis out = Inr d' \<and> doc_text d' = t"
proof -
  obtain d t where dt: "decode no_shift_jis windows_file = Inr d" "doc_encoding d = UTF8"
      "apply_edits (doc_text d) [windows_edit] = Inr t" "\<not> prefix bom t"
      "\<not> has_standalone_cr windows_file" "valid_utf8 (ed_old_text windows_edit)"
    using windows_facts by (auto simp: windows_facts_def split: sum.splits)
  then show ?thesis
    using accepted_edits_can_be_written[OF dt(1,2,5,3)] by fastforce
qed

text \<open>
  C36. With a standalone CR the encoding step can turn down an edit that is well formed: deleting
  the only character between a CR newline and an LF newline leaves the two bytes side by side,
  where they read as one newline, and the whole candidate is refused although every text check
  accepted it.
\<close>

definition mac_file :: string where
  "mac_file = ''a'' @ [CR] @ ''b'' @ [LF]"


end
