(* ===== verification/TaskHistory.thy ===== *)
theory TaskHistory
  imports ReviewGate SourceEncoding
begin

section \<open>Files, attempts and checkpoints (internal/model/types.go and internal/engine)\<close>

text \<open>
  A task is one file of the queue with the history of its attempts; a discard returns the file to
  its content at the start of the session. The checkpoint of an attempt carries the state of the
  repair loop and the hashes it was made under. Strings compared with fixed literals are
  datatypes, as in Model; the time stamps and the report rows of an attempt are not modelled.
\<close>

datatype status = Unset | Pending | Running | Validated | Done | Skipped | Failed | Needs_human
  | Interrupted | Other_status string

datatype discard_state = Prepared | Discarded | Other_discard string

record attempt =
  at_id :: string
  at_number :: int
  at_outcome :: status
  at_partial :: bool
  at_note :: string
  at_rules_applied :: "rule_id list"
  at_checks :: "check list"
  at_usage :: usage
  at_diff_path :: string
  at_commit :: string
  at_base_commit :: string
  at_commit_base :: string
  at_input_hash :: string
  at_output_hash :: string
  at_repair_path :: string
  at_reviews :: "independent_review list"

record discard =
  di_id :: string
  di_state :: discard_state
  di_base_commit :: string
  di_restore_commit :: string
  di_commit :: string
  di_input_hash :: string
  di_output_hash :: string
  di_through_attempt :: int

record task =
  tk_file :: string
  tk_discards :: "discard list"
  tk_excluded :: bool
  tk_rules :: "rule_id list"
  tk_status :: status
  tk_attempts :: int
  tk_rules_applied :: "rule_id list"
  tk_note :: string
  tk_input_hash :: string
  tk_history :: "attempt list"
  tk_resume_requested :: bool

text \<open>\<open>AdoptedChanges\<close>: the attempt has committed output, possibly a safe part only.\<close>

definition adopted_changes :: "attempt \<Rightarrow> bool" where
  "adopted_changes h \<longleftrightarrow> at_commit h \<noteq> []
     \<and> (at_outcome h = Done \<or> at_outcome h = Needs_human \<and> at_partial h)"

definition attempt_commit_base :: "attempt \<Rightarrow> string" where
  "attempt_commit_base h = (if at_commit_base h \<noteq> [] then at_commit_base h else at_base_commit h)"

definition checks_pass :: "check list \<Rightarrow> bool" where
  "checks_pass cs \<longleftrightarrow> list_all (\<lambda>c. ck_status c = C_passed \<or> ck_status c = C_skipped) cs"

subsection \<open>Discards (engine/discard_changes.go)\<close>

fun discard_cutoff_from :: "int \<Rightarrow> discard list \<Rightarrow> int" where
  "discard_cutoff_from cutoff [] = cutoff"
| "discard_cutoff_from cutoff (d # ds) =
     discard_cutoff_from
       (if di_state d = Discarded \<and> di_through_attempt d > cutoff then di_through_attempt d else cutoff) ds"

definition discard_cutoff :: "task \<Rightarrow> int" where
  "discard_cutoff t = discard_cutoff_from 0 (tk_discards t)"

definition repair_history :: "task \<Rightarrow> attempt list" where
  "repair_history t =
     (let cutoff = discard_cutoff t in
      if cutoff = 0 then tk_history t
      else dropWhile (\<lambda>h. at_number h \<le> cutoff) (tk_history t))"

definition discard_baseline_hash :: "task \<Rightarrow> string" where
  "discard_baseline_hash t =
     foldl (\<lambda>b d. if di_state d = Discarded then di_output_hash d else b)
       (case find (\<lambda>h. at_input_hash h \<noteq> []) (tk_history t) of Some h \<Rightarrow> at_input_hash h | None \<Rightarrow> [])
       (tk_discards t)"

definition can_discard_changes :: "task \<Rightarrow> bool" where
  "can_discard_changes t \<longleftrightarrow>
     \<not> list_ex (\<lambda>d. di_state d = Prepared) (tk_discards t) \<and>
     (case find adopted_changes (rev (repair_history t)) of
        None \<Rightarrow> False
      | Some h \<Rightarrow> at_output_hash h \<noteq> discard_baseline_hash t \<or> discard_baseline_hash t = [])"

definition has_prepared_discard :: "task list \<Rightarrow> bool" where
  "has_prepared_discard ts \<longleftrightarrow> list_ex (\<lambda>t. list_ex (\<lambda>d. di_state d = Prepared) (tk_discards t)) ts"

definition unfinished_repair :: "task \<Rightarrow> bool" where
  "unfinished_repair t \<longleftrightarrow>
     (let hs = repair_history t in
      hs \<noteq> [] \<and> at_repair_path (last hs) \<noteq> [] \<and> \<not> adopted_changes (last hs)
      \<and> at_outcome (last hs) \<noteq> Done \<and> at_outcome (last hs) \<noteq> Skipped)"

subsection \<open>Usage accounting (engine/repair_checkpoint.go, service.go)\<close>

definition usage_plus :: "usage \<Rightarrow> usage \<Rightarrow> usage" where
  "usage_plus u v =
     \<lparr>us_uncertain = us_uncertain u \<or> us_uncertain v,
      us_input_tokens = us_input_tokens u + us_input_tokens v,
      us_cached_tokens = us_cached_tokens u + us_cached_tokens v,
      us_output_tokens = us_output_tokens u + us_output_tokens v,
      us_cost_usd = us_cost_usd u + us_cost_usd v,
      us_turns = us_turns u + us_turns v\<rparr>"

definition sum_usage :: "attempt list \<Rightarrow> usage" where
  "sum_usage hs = foldl (\<lambda>u h. usage_plus u (at_usage h)) no_usage hs"

definition usage_since :: "usage \<Rightarrow> usage \<Rightarrow> usage" where
  "usage_since u prior =
     \<lparr>us_uncertain = us_uncertain u,
      us_input_tokens = max 0 (us_input_tokens u - us_input_tokens prior),
      us_cached_tokens = max 0 (us_cached_tokens u - us_cached_tokens prior),
      us_output_tokens = max 0 (us_output_tokens u - us_output_tokens prior),
      us_cost_usd = max 0 (us_cost_usd u - us_cost_usd prior),
      us_turns = max 0 (us_turns u - us_turns prior)\<rparr>"

definition retain_known_usage :: "usage \<Rightarrow> repair_state \<Rightarrow> repair_state" where
  "retain_known_usage known s =
     (let u = rs_usage s in s\<lparr>rs_usage :=
       \<lparr>us_uncertain = us_uncertain u \<or> us_uncertain known,
        us_input_tokens = max (us_input_tokens u) (us_input_tokens known),
        us_cached_tokens = max (us_cached_tokens u) (us_cached_tokens known),
        us_output_tokens = max (us_output_tokens u) (us_output_tokens known),
        us_cost_usd = max (us_cost_usd u) (us_cost_usd known),
        us_turns = max (us_turns u) (us_turns known)\<rparr>\<rparr>)"

subsection \<open>Checkpoints (engine/repair_checkpoint.go)\<close>

record checkpoint =
  ch_version :: int
  ch_attempt_id :: string
  ch_file :: string
  ch_base_commit :: string
  ch_input_hash :: string
  ch_rule_hash :: string
  ch_settings_hash :: string
  ch_rule_titles :: "(rule_id \<times> string) list option"
  ch_prior_usage :: usage
  ch_state :: repair_state

record provenance =
  pv_file :: string
  pv_head :: string
  pv_input_hash :: string
  pv_rule_hash :: string
  pv_settings_hash :: string

definition repair_provenance_matches :: "checkpoint option \<Rightarrow> provenance \<Rightarrow> bool" where
  "repair_provenance_matches c p \<longleftrightarrow>
     (case c of None \<Rightarrow> False | Some c \<Rightarrow>
        ch_file c = pv_file p \<and> ch_base_commit c = pv_head p \<and> ch_input_hash c = pv_input_hash p
        \<and> ch_rule_hash c = pv_rule_hash p \<and> ch_settings_hash c = pv_settings_hash p)"

definition forget_plan :: "repair_state \<Rightarrow> repair_state" where
  "forget_plan s = s\<lparr>rs_plan := empty_plan, rs_last_candidate := None, rs_staged_edits := [],
     rs_read_rule_ids := [], rs_rule_read_offsets := Map.empty\<rparr>"

definition change_report_titles :: "rule list \<Rightarrow> (rule_id \<times> string) list" where
  "change_report_titles rules = map (\<lambda>r. (ru_id r, ru_title r)) rules"

definition reset_repair_plan :: "provenance \<Rightarrow> rule list \<Rightarrow> checkpoint \<Rightarrow> checkpoint \<times> bool" where
  "reset_repair_plan p rules c =
     (let changed = (ch_file c \<noteq> pv_file p \<or> ch_base_commit c \<noteq> pv_head p \<or> ch_input_hash c \<noteq> pv_input_hash p
          \<or> ch_rule_hash c \<noteq> pv_rule_hash p \<or> ch_settings_hash c \<noteq> pv_settings_hash p)
      in (\<lparr>ch_version = ch_version c, ch_attempt_id = ch_attempt_id c, ch_file = pv_file p, ch_base_commit = pv_head p,
           ch_input_hash = pv_input_hash p, ch_rule_hash = pv_rule_hash p,
           ch_settings_hash = pv_settings_hash p,
           ch_rule_titles = (if changed \<or> ch_rule_titles c = None then Some (change_report_titles rules)
                             else ch_rule_titles c),
           ch_prior_usage = ch_prior_usage c,
           ch_state = (if changed then forget_plan (ch_state c) else ch_state c)\<rparr>, changed))"

text \<open>
  The files of a checkpoint: the state without its reviews, and one file per review, named by the
  digest of the review's ID. A file is its decoded content; \<^term>\<open>None\<close> is a file that cannot be
  read or parsed.
\<close>

datatype checkpoint_error = Checkpoint_path | Checkpoint_unreadable | Checkpoint_invalid
  | Review_reference | Review_unreadable | Review_mismatch | Checkpoint_write

record artifacts =
  ar_states :: "string \<rightharpoonup> checkpoint \<times> string list"
  ar_reviews :: "string \<rightharpoonup> independent_review"

definition attempt_id_ok :: "string \<Rightarrow> bool" where
  "attempt_id_ok s \<longleftrightarrow> s \<noteq> [] \<and> s \<noteq> ''.'' \<and> s \<noteq> ''..''
     \<and> list_all (\<lambda>c. c \<notin> {CHR ''/'', CHR 0x5C, CHR '':'', CHR ''*'', CHR ''?'', CHR 0x22, CHR ''<'',
          CHR ''>'', CHR ''|'', NUL, CR, LF}) s"

definition repair_path :: "string \<Rightarrow> string \<Rightarrow> (checkpoint_error, string) outcome" where
  "repair_path queue i =
     (if attempt_id_ok i then Inr (queue @ ''.artifacts/'' @ i @ ''.state.json'') else Inl Checkpoint_path)"

definition review_record_path :: "string \<Rightarrow> string \<Rightarrow> string" where
  "review_record_path path ref = path @ ''.reviews/'' @ ref @ ''.json''"

definition hex_bytes :: "nat \<Rightarrow> string \<Rightarrow> bool" where
  "hex_bytes n s \<longleftrightarrow> length s = 2 * n
     \<and> list_all (\<lambda>c. byte_in c 48 57 \<or> byte_in c 97 102 \<or> byte_in c 65 70) s"

fun load_reviews ::
  "(string \<Rightarrow> string) \<Rightarrow> artifacts \<Rightarrow> string \<Rightarrow> string list
     \<Rightarrow> (checkpoint_error, independent_review list) outcome" where
  "load_reviews digest ar path [] = Inr []"
| "load_reviews digest ar path (ref # refs) =
     (if \<not> hex_bytes 32 ref then Inl Review_reference
      else (case ar_reviews ar (review_record_path path ref) of
        None \<Rightarrow> Inl Review_unreadable
      | Some r \<Rightarrow>
          if digest (rv_id r) \<noteq> ref then Inl Review_mismatch
          else (case load_reviews digest ar path refs of
            Inl e \<Rightarrow> Inl e | Inr rs \<Rightarrow> Inr (r # rs))))"

definition load_repair_checkpoint ::
  "(string \<Rightarrow> string) \<Rightarrow> artifacts \<Rightarrow> string \<Rightarrow> attempt
     \<Rightarrow> (checkpoint_error, checkpoint option) outcome" where
  "load_repair_checkpoint digest ar queue h =
     (if at_repair_path h = [] then Inr None
      else (case repair_path queue (at_id h) of
        Inl e \<Rightarrow> Inl e
      | Inr path \<Rightarrow>
          if path \<noteq> at_repair_path h then Inl Checkpoint_path
          else (case ar_states ar path of
            None \<Rightarrow> Inl Checkpoint_unreadable
          | Some (c, refs) \<Rightarrow>
              if ch_version c \<noteq> 1 \<or> rs_version (ch_state c) \<noteq> 1 \<or> ch_attempt_id c \<noteq> at_id h
                 \<or> rs_elapsed_ms (ch_state c) < 0 \<or> rs_tool_calls (ch_state c) < 0
                 \<or> rs_validation_count (ch_state c) < 0 \<or> us_turns (rs_usage (ch_state c)) < 0
              then Inl Checkpoint_invalid
              else if refs = [] then Inr (Some c)
              else (case load_reviews digest ar path refs of
                Inl e \<Rightarrow> Inl e
              | Inr rs \<Rightarrow> Inr (Some (c\<lparr>ch_state := (ch_state c)\<lparr>rs_reviews := rs\<rparr>\<rparr>))))))"

definition load_latest_repair_checkpoint ::
  "(string \<Rightarrow> string) \<Rightarrow> artifacts \<Rightarrow> string \<Rightarrow> attempt list
     \<Rightarrow> (checkpoint_error, checkpoint option) outcome" where
  "load_latest_repair_checkpoint digest ar queue hs =
     (case find (\<lambda>h. at_repair_path h \<noteq> []) (rev hs) of
        Some h \<Rightarrow> load_repair_checkpoint digest ar queue h
      | None \<Rightarrow> Inr None)"

text \<open>\<open>writable path\<close> says whether the file at \<open>path\<close> can be written.\<close>

fun save_reviews ::
  "(string \<Rightarrow> string) \<Rightarrow> (string \<Rightarrow> bool) \<Rightarrow> string \<Rightarrow> independent_review list \<Rightarrow> artifacts
     \<Rightarrow> artifacts \<times> string list option" where
  "save_reviews digest writable path [] ar = (ar, Some [])"
| "save_reviews digest writable path (r # rs) ar =
     (let ref = digest (rv_id r); file = review_record_path path ref in
      if ar_reviews ar file \<noteq> Some r \<and> \<not> writable file then (ar, None)
      else (case save_reviews digest writable path rs
                   (ar\<lparr>ar_reviews := (ar_reviews ar)(file \<mapsto> r)\<rparr>) of
              (ar', refs) \<Rightarrow> (ar', map_option ((#) ref) refs)))"

definition save_repair_checkpoint ::
  "(string \<Rightarrow> string) \<Rightarrow> (string \<Rightarrow> bool) \<Rightarrow> string \<Rightarrow> checkpoint \<Rightarrow> artifacts
     \<Rightarrow> artifacts \<times> (checkpoint_error, string) outcome" where
  "save_repair_checkpoint digest writable queue c ar =
     (case repair_path queue (ch_attempt_id c) of
        Inl e \<Rightarrow> (ar, Inl e)
      | Inr path \<Rightarrow>
          (case save_reviews digest writable path (rs_reviews (ch_state c)) ar of
             (ar', None) \<Rightarrow> (ar', Inl Checkpoint_write)
           | (ar', Some refs) \<Rightarrow>
               if \<not> writable path then (ar', Inl Checkpoint_write)
               else (ar'\<lparr>ar_states := (ar_states ar')
                        (path \<mapsto> (c\<lparr>ch_state := (ch_state c)\<lparr>rs_reviews := []\<rparr>\<rparr>, refs))\<rparr>, Inr path)))"

subsection \<open>Usage adds up\<close>

definition usage_le :: "usage \<Rightarrow> usage \<Rightarrow> bool" where
  "usage_le u v \<longleftrightarrow> us_input_tokens u \<le> us_input_tokens v \<and> us_cached_tokens u \<le> us_cached_tokens v
     \<and> us_output_tokens u \<le> us_output_tokens v \<and> us_cost_usd u \<le> us_cost_usd v \<and> us_turns u \<le> us_turns v"

lemma sum_usage_snoc: "sum_usage (hs @ [h]) = usage_plus (sum_usage hs) (at_usage h)"
  by (simp add: sum_usage_def)

text \<open>
  The usage of the running attempt is what the file used beyond the earlier attempts, so the sum
  over the history is the total of the file: nothing is billed twice and nothing is lost.
\<close>

lemma attempt_usage_adds_up:
  assumes "usage_le (sum_usage hs) u" "at_usage h = usage_since u (sum_usage hs)"
  shows "sum_usage (hs @ [h]) = u\<lparr>us_uncertain := us_uncertain (sum_usage hs) \<or> us_uncertain u\<rparr>"
  using assms by (cases u) (auto simp: sum_usage_snoc usage_plus_def usage_since_def usage_le_def)

lemma usage_le_refl [simp]: "usage_le u u"
  by (simp add: usage_le_def)

lemma retain_known_usage_le: "usage_le known (rs_usage (retain_known_usage known s))"
  by (simp add: retain_known_usage_def usage_le_def Let_def)

subsection \<open>A saved checkpoint is read back\<close>

lemma save_reviews_states:
  "save_reviews digest writable path rs ar = (ar', refs) \<Longrightarrow> ar_states ar' = ar_states ar"
proof (induction rs arbitrary: ar refs)
  case (Cons r rs)
  then show ?case by (fastforce simp: Let_def split: if_splits prod.splits)
qed simp

lemma review_record_path_inj:
  "review_record_path p a = review_record_path p b \<longleftrightarrow> a = b"
  by (simp add: review_record_path_def)

lemma save_reviews_keeps:
  assumes "save_reviews digest writable path rs ar = (ar', refs)"
    "\<forall>r \<in> set rs. file \<noteq> review_record_path path (digest (rv_id r))"
  shows "ar_reviews ar' file = ar_reviews ar file"
  using assms
proof (induction rs arbitrary: ar refs)
  case (Cons r rs)
  show ?case
  proof (cases "ar_reviews ar (review_record_path path (digest (rv_id r))) \<noteq> Some r
      \<and> \<not> writable (review_record_path path (digest (rv_id r)))")
    case True
    then show ?thesis using Cons.prems by (simp add: Let_def)
  next
    case False
    let ?ar = "ar\<lparr>ar_reviews := (ar_reviews ar)(review_record_path path (digest (rv_id r)) \<mapsto> r)\<rparr>"
    obtain refs' where "save_reviews digest writable path rs ?ar = (ar', refs')"
      using Cons.prems(1) False by (auto simp: Let_def split: prod.splits)
    then have "ar_reviews ar' file = ar_reviews ?ar file" using Cons.IH Cons.prems(2) by simp
    then show ?thesis using Cons.prems(2) by simp
  qed
qed simp

lemma save_reviews_load:
  assumes "save_reviews digest writable path rs ar = (ar', Some refs)"
    "distinct (map (\<lambda>r. digest (rv_id r)) rs)" "\<forall>r \<in> set rs. hex_bytes 32 (digest (rv_id r))"
  shows "load_reviews digest ar' path refs = Inr rs \<and> length refs = length rs"
  using assms
proof (induction rs arbitrary: ar refs)
  case (Cons r rs)
  let ?file = "review_record_path path (digest (rv_id r))"
  let ?ar = "ar\<lparr>ar_reviews := (ar_reviews ar)(?file \<mapsto> r)\<rparr>"
  obtain refs' where sv: "save_reviews digest writable path rs ?ar = (ar', Some refs')"
      "refs = digest (rv_id r) # refs'"
    using Cons.prems(1) by (auto simp: Let_def split: if_splits prod.splits)
  have "load_reviews digest ar' path refs' = Inr rs \<and> length refs' = length rs"
    using Cons.IH[OF sv(1)] Cons.prems(2,3) by simp
  moreover have "ar_reviews ar' ?file = Some r"
    using save_reviews_keeps[OF sv(1), of ?file] Cons.prems(2)
    by (auto simp: review_record_path_inj image_iff)
  ultimately show ?case using sv(2) Cons.prems(3) by simp
qed simp

definition checkpoint_ok :: "checkpoint \<Rightarrow> bool" where
  "checkpoint_ok c \<longleftrightarrow> ch_version c = 1 \<and> rs_version (ch_state c) = 1 \<and> 0 \<le> rs_elapsed_ms (ch_state c)
     \<and> 0 \<le> rs_tool_calls (ch_state c) \<and> 0 \<le> rs_validation_count (ch_state c)
     \<and> 0 \<le> us_turns (rs_usage (ch_state c))"

lemma saved_checkpoint_loads:
  assumes "save_repair_checkpoint digest writable queue c ar = (ar', Inr path)"
    "checkpoint_ok c" "at_id h = ch_attempt_id c" "at_repair_path h = path"
    "distinct (map (\<lambda>r. digest (rv_id r)) (rs_reviews (ch_state c)))"
    "\<forall>r \<in> set (rs_reviews (ch_state c)). hex_bytes 32 (digest (rv_id r))"
  shows "load_repair_checkpoint digest ar' queue h = Inr (Some c)"
proof -
  obtain ar1 refs where p: "repair_path queue (ch_attempt_id c) = Inr path"
      and sv: "save_reviews digest writable path (rs_reviews (ch_state c)) ar = (ar1, Some refs)"
      and ar': "ar' = ar1\<lparr>ar_states := (ar_states ar1)
        (path \<mapsto> (c\<lparr>ch_state := (ch_state c)\<lparr>rs_reviews := []\<rparr>\<rparr>, refs))\<rparr>"
    using assms(1) by (auto simp: save_repair_checkpoint_def split: sum.splits prod.splits option.splits if_splits)
  have same: "load_reviews digest (ar1\<lparr>ar_states := m\<rparr>) path rr = load_reviews digest ar1 path rr" for m rr
    by (induction rr) (auto split: sum.splits option.splits)
  have ld: "load_reviews digest ar1 path refs = Inr (rs_reviews (ch_state c))"
      "length refs = length (rs_reviews (ch_state c))"
    using save_reviews_load[OF sv assms(5,6)] by auto
  have "path \<noteq> []" using p by (auto simp: repair_path_def split: if_splits)
  moreover have "rs_reviews (ch_state c) = [] \<Longrightarrow> c\<lparr>ch_state := (ch_state c)\<lparr>rs_reviews := []\<rparr>\<rparr> = c"
    by (metis checkpoint.surjective checkpoint.update_convs(10) repair_state.surjective
        repair_state.update_convs(15))
  ultimately show ?thesis
    using assms(2-4) p ld unfolding ar'
    by (cases "refs = []") (auto simp: load_repair_checkpoint_def checkpoint_ok_def same)
qed

end
