(* ===== verification/CandidateValidation.thy ===== *)
theory CandidateValidation
  imports TaskHistory LineRanges
begin

section \<open>The engine's check of a candidate (engine/candidate_validation.go)\<close>

text \<open>
  What happens to a candidate between the editor's tool call and its review: the pinned source is
  compared with the recorded hash, the edits are applied and encoded, the lines they change are
  attributed to plan items and compared with the held lines, and the result is written next to
  the attempt before anything else may use it. Git, the file system and the queue journal answer
  through the record \<open>validation_world\<close>, one field per call; messages shown to people are its
  field \<open>vw_message\<close>. The names of checks are given in English here.
\<close>

datatype artifact = Candidate_after | Latest_after | Candidate_diff | Latest_diff | Validation_record

datatype validation_error = Input_mismatch | Forbidden_file | Unsafe_path | Wrong_target | Artifact_inside
  | Bad_commit | Git_failed | Snapshot_changed | Source_unreadable source_error | Artifact_failed artifact
  | Journal_failed | Diff_failed | Validation_stopped

datatype rejection = Wrong_base | Not_applicable apply_error | Not_encodable source_error
  | Not_attributable range_error | Held_lines item_id source_location | No_difference
  | Aborted validation_error

record validation_input =
  vd_catalog :: bool
  vd_head :: string
  vd_artifact :: string
  vd_file :: string
  vd_before :: string
  vd_input_hash :: string
  vd_plan :: repair_plan

record validation_world =
  vw_id :: string
  vw_digest :: "string \<Rightarrow> string"
  vw_codec :: shift_jis
  vw_source_path :: bool
  vw_right_target :: bool
  vw_artifact_inside :: bool
  vw_committed :: "string option"
  vw_writable :: "artifact \<Rightarrow> bool"
  vw_journal :: bool
  vw_diff :: "string option"
  vw_stopped :: bool
  vw_message :: "rejection \<Rightarrow> string"

datatype validation_effect = Wrote artifact string | Journaled candidate_validation
  | Recorded candidate_validation

definition immutable_commit_id :: "string \<Rightarrow> bool" where
  "immutable_commit_id s \<longleftrightarrow> hex_bytes 20 s \<or> hex_bytes 32 s"

text \<open>\<open>forbiddenContext\<close>, the names no edit and no read may touch.\<close>

definition slashes :: "string \<Rightarrow> string" where
  "slashes s = map (\<lambda>c. if c = CHR 0x5C then CHR ''/'' else c) s"

definition forbidden_context :: "string \<Rightarrow> bool" where
  "forbidden_context path \<longleftrightarrow>
     list_ex (\<lambda>seg. private_name (lower_ascii seg)) (split_on (CHR ''/'') (slashes path))"

subsection \<open>Held lines\<close>

definition range_touches :: "source_location \<Rightarrow> line_range \<Rightarrow> bool" where
  "range_touches l r \<longleftrightarrow> lr_before_start r > 0 \<and> lr_before_start r \<le> sl_end_line l
     \<and> lr_before_end r \<ge> sl_start_line l"

fun held_location_touched :: "edit_line_range list \<Rightarrow> source_location list \<Rightarrow> source_location option" where
  "held_location_touched ranges [] = None"
| "held_location_touched ranges (l # ls) =
     (if list_ex (\<lambda>r. range_touches l (er_range r)) ranges then Some l
      else held_location_touched ranges ls)"

fun held_item_touched :: "edit_line_range list \<Rightarrow> plan_item list \<Rightarrow> rejection option" where
  "held_item_touched ranges [] = None"
| "held_item_touched ranges (i # is) =
     (if pi_status i \<noteq> S_blocked then held_item_touched ranges is
      else (case held_location_touched ranges (pi_source_locations i) of
        Some l \<Rightarrow> Some (Held_lines (pi_id i) l)
      | None \<Rightarrow> held_item_touched ranges is))"

definition candidate_held_ranges_unchanged :: "repair_plan \<Rightarrow> edit_line_range list \<Rightarrow> rejection option" where
  "candidate_held_ranges_unchanged plan ranges = held_item_touched ranges (rp_items plan)"

subsection \<open>Diagnostics\<close>

record candidate_diagnostic =
  cd_check :: string
  cd_message :: string

definition check_key :: "string \<Rightarrow> string" where
  "check_key name =
     (if name = ''hash of the edited source'' then ''base_hash''
      else if name = ''application of the candidate'' then ''apply_edits''
      else if name = ''file size'' then ''file_size''
      else if name = ''difference'' then ''candidate_diff''
      else if name = ''edit scope'' \<or> name = ''edit scope after validation'' then ''edit_scope''
      else if name = ''content after validation'' then ''candidate_content''
      else ''validation'')"

definition diagnostic_text :: "string \<Rightarrow> nat \<Rightarrow> string" where
  "diagnostic_text s limit =
     (if length s \<le> limit then s
      else take (bounded_cut s limit) s @ ellipsis)"

fun diagnostic_lines :: "string \<Rightarrow> string list \<Rightarrow> candidate_diagnostic list \<Rightarrow> candidate_diagnostic list" where
  "diagnostic_lines key [] acc = acc"
| "diagnostic_lines key (l # ls) acc =
     (if 20 \<le> length acc then acc
      else if blank l then diagnostic_lines key ls acc
      else diagnostic_lines key ls (acc @ [\<lparr>cd_check = key, cd_message = diagnostic_text l 200\<rparr>]))"

fun diagnostics_of :: "check list \<Rightarrow> candidate_diagnostic list \<Rightarrow> candidate_diagnostic list" where
  "diagnostics_of [] acc = acc"
| "diagnostics_of (c # cs) acc =
     (if ck_status c \<noteq> C_failed then diagnostics_of cs acc
      else diagnostics_of cs (diagnostic_lines (check_key (ck_name c)) (split_on LF (ck_detail c)) acc))"

definition candidate_diagnostics :: "check list \<Rightarrow> candidate_diagnostic list" where
  "candidate_diagnostics cs = diagnostics_of cs []"

subsection \<open>The validation\<close>

definition candidate_snapshot_matches ::
  "validation_world \<Rightarrow> validation_input \<Rightarrow> validation_error option" where
  "candidate_snapshot_matches w inp =
     (if \<not> immutable_commit_id (vd_head inp) then Some Bad_commit
      else (case vw_committed w of
        None \<Rightarrow> Some Git_failed
      | Some original \<Rightarrow>
          if vw_digest w original \<noteq> vd_input_hash inp then Some Snapshot_changed else None))"

definition new_validation :: "validation_world \<Rightarrow> candidate_request \<Rightarrow> candidate_validation" where
  "new_validation w req =
     \<lparr>cv_attribution_version = 0, cv_candidate_id = vw_id w, cv_candidate_hash = [],
      cv_plan_revision = cr_plan_revision req, cv_passed = False, cv_checks = [], cv_edit_ranges = []\<rparr>"

definition add_check :: "string \<Rightarrow> check_status \<Rightarrow> string \<Rightarrow> candidate_validation \<Rightarrow> candidate_validation" where
  "add_check name st detail v =
     v\<lparr>cv_checks := cv_checks v @ [\<lparr>ck_name = name, ck_status = st, ck_detail = detail\<rparr>]\<rparr>"

type_synonym validation_step =
  "candidate_validation \<times> validation_error option \<times> validation_effect list"

definition rejected :: "validation_world \<Rightarrow> string \<Rightarrow> rejection \<Rightarrow> candidate_validation \<Rightarrow> validation_step" where
  "rejected w name r v = (add_check name C_failed (vw_message w r) v, None, [])"

text \<open>The files of an accepted text, the journal entry and the difference, in this order.\<close>

definition publish_candidate ::
  "validation_world \<Rightarrow> string \<Rightarrow> candidate_validation \<Rightarrow> validation_step" where
  "publish_candidate w after v =
     (if \<not> vw_writable w Candidate_after then (v, Some (Artifact_failed Candidate_after), [])
      else if \<not> vw_writable w Latest_after
        then (v, Some (Artifact_failed Latest_after), [Wrote Candidate_after after])
      else
        let files = [Wrote Candidate_after after, Wrote Latest_after after, Journaled v] in
        if \<not> vw_journal w then (v, Some Journal_failed, files)
        else (case vw_diff w of
          None \<Rightarrow> (v, Some Diff_failed, files)
        | Some d \<Rightarrow>
            if \<not> vw_writable w Candidate_diff then (v, Some (Artifact_failed Candidate_diff), files)
            else if \<not> vw_writable w Latest_diff
              then (v, Some (Artifact_failed Latest_diff), files @ [Wrote Candidate_diff d])
            else
              let v1 = add_check ''application of the candidate'' C_passed
                    ''only exact matches were changed'' v;
                  all = files @ [Wrote Candidate_diff d, Wrote Latest_diff d]
              in if d = [] then (add_check ''difference'' C_failed (vw_message w No_difference) v1, None, all)
                 else if vw_stopped w then (v1, Some Validation_stopped, all)
                 else (v1\<lparr>cv_passed := checks_pass (cv_checks v1)\<rparr>, None, all)))"

definition check_candidate ::
  "validation_world \<Rightarrow> validation_input \<Rightarrow> candidate_request \<Rightarrow> candidate_validation \<Rightarrow> validation_step" where
  "check_candidate w inp req v =
     (case candidate_snapshot_matches w inp of
        Some e \<Rightarrow> (v, Some e, [])
      | None \<Rightarrow>
      if cr_base_hash req \<noteq> vd_input_hash inp
        then rejected w ''hash of the edited source'' Wrong_base v
      else (case decode (vw_codec w) (vd_before inp) of
        Inl e \<Rightarrow> (v, Some (Source_unreadable e), [])
      | Inr original \<Rightarrow>
      (case apply_edits (doc_text original) (cr_edits req) of
        Inl e \<Rightarrow> rejected w ''application of the candidate'' (Not_applicable e) v
      | Inr after_text \<Rightarrow>
      (case encode_edits (vw_codec w) original after_text (cr_edits req) of
        Inl e \<Rightarrow> rejected w ''encoding'' (Not_encodable e) v
      | Inr after \<Rightarrow>
          let v1 = v\<lparr>cv_candidate_hash := vw_digest w after\<rparr> in
          (case verified_edit_line_ranges (doc_text original) after_text (cr_edits req) of
             Inl e \<Rightarrow> rejected w ''line attribution'' (Not_attributable e) v1
           | Inr ranges \<Rightarrow>
               let v2 = v1\<lparr>cv_edit_ranges := ranges\<rparr> in
               (case candidate_held_ranges_unchanged (vd_plan inp) ranges of
                  Some r \<Rightarrow> rejected w ''held lines'' r v2
                | None \<Rightarrow>
                    publish_candidate w after
                      (add_check ''line attribution'' C_passed ''every item matches its changed lines''
                        (v2\<lparr>cv_attribution_version := line_attribution_version\<rparr>))))))))"

text \<open>The deferred part: an error becomes a failed check, and the record is always written.\<close>

definition finish_validation ::
  "validation_world \<Rightarrow> validation_step \<Rightarrow> validation_step \<times> candidate_diagnostic list" where
  "finish_validation w s =
     (case s of (v, err, effects) \<Rightarrow>
        let v1 = (case err of None \<Rightarrow> v
                  | Some e \<Rightarrow> add_check ''candidate validation'' C_failed (vw_message w (Aborted e))
                      (v\<lparr>cv_passed := False\<rparr>));
            diagnostics = candidate_diagnostics (cv_checks v1)
        in if vw_writable w Validation_record then ((v1, err, effects @ [Recorded v1]), diagnostics)
           else ((v1\<lparr>cv_passed := False\<rparr>,
                  Some (case err of None \<Rightarrow> Artifact_failed Validation_record | Some e \<Rightarrow> e), effects),
                 diagnostics))"

definition validate_candidate ::
  "validation_world \<Rightarrow> validation_input \<Rightarrow> candidate_request \<Rightarrow> validation_step \<times> candidate_diagnostic list" where
  "validate_candidate w inp req =
     (let v = new_validation w req in
      if \<not> vd_catalog inp \<or> vd_head inp = [] \<or> vd_artifact inp = [] \<or> vd_input_hash inp = []
         \<or> vw_digest w (vd_before inp) \<noteq> vd_input_hash inp then ((v, Some Input_mismatch, []), [])
      else if forbidden_context (vd_file inp) then ((v, Some Forbidden_file, []), [])
      else if \<not> vw_source_path w then ((v, Some Unsafe_path, []), [])
      else if \<not> vw_right_target w then ((v, Some Wrong_target, []), [])
      else if vw_artifact_inside w then ((v, Some Artifact_inside, []), [])
      else finish_validation w (check_candidate w inp req v))"

subsection \<open>What a passed validation guarantees\<close>

lemma held_location_touched_None:
  "held_location_touched ranges ls = None \<longleftrightarrow>
     (\<forall>l \<in> set ls. \<forall>r \<in> set ranges. \<not> range_touches l (er_range r))"
  by (induction ls) (auto simp: list_ex_iff)

lemma held_item_touched_None:
  "held_item_touched ranges items = None \<longleftrightarrow>
     (\<forall>i \<in> set items. pi_status i = S_blocked \<longrightarrow>
        held_location_touched ranges (pi_source_locations i) = None)"
  by (induction items) (auto split: option.splits)

lemma held_lines_kept:
  assumes "verified_edit_line_ranges before after edits = Inr ranges"
    and "candidate_held_ranges_unchanged plan ranges = None"
    and "item \<in> set (rp_items plan)" "pi_status item = S_blocked" "l \<in> set (pi_source_locations item)"
    and "i < line_count before" "sl_start_line l \<le> int i + 1" "int i + 1 \<le> sl_end_line l"
  shows "\<exists>a b. after = a @ line_at before i @ b"
proof (rule unreported_before_line[OF assms(1,6)], rule ballI)
  fix r assume r: "r \<in> set ranges"
  then have "\<not> range_touches l (er_range r)"
    using assms(2-5) by (auto simp: candidate_held_ranges_unchanged_def held_item_touched_None
        held_location_touched_None)
  then show "\<not> (lr_before_start (er_range r) \<le> int i + 1 \<and> int i + 1 \<le> lr_before_end (er_range r))"
    using assms(7,8) unreported_range_zero[OF assms(1) r] by (auto simp: range_touches_def not_less)
qed

lemma add_check_simps [simp]:
  "cv_passed (add_check n st d v) = cv_passed v"
  "cv_candidate_hash (add_check n st d v) = cv_candidate_hash v"
  "cv_edit_ranges (add_check n st d v) = cv_edit_ranges v"
  "cv_candidate_id (add_check n st d v) = cv_candidate_id v"
  "cv_plan_revision (add_check n st d v) = cv_plan_revision v"
  "cv_attribution_version (add_check n st d v) = cv_attribution_version v"
  "cv_checks (add_check n st d v) = cv_checks v @ [\<lparr>ck_name = n, ck_status = st, ck_detail = d\<rparr>]"
  by (auto simp: add_check_def)

lemma publish_candidate_passed:
  assumes "publish_candidate w after v = (v', err, effects)" "cv_passed v'" "\<not> cv_passed v"
  shows "err = None \<and> cv_candidate_hash v' = cv_candidate_hash v \<and> cv_edit_ranges v' = cv_edit_ranges v
    \<and> cv_candidate_id v' = cv_candidate_id v \<and> cv_plan_revision v' = cv_plan_revision v
    \<and> cv_attribution_version v' = cv_attribution_version v
    \<and> checks_pass (cv_checks v') \<and> (\<exists>d. vw_diff w = Some d \<and> d \<noteq> []
        \<and> effects = [Wrote Candidate_after after, Wrote Latest_after after, Journaled v,
            Wrote Candidate_diff d, Wrote Latest_diff d])"
  using assms by (auto simp: publish_candidate_def Let_def split: if_splits option.splits)

lemma check_candidate_passed:
  assumes "check_candidate w inp req (new_validation w req) = (v, err, effects)" "cv_passed v"
  shows "err = None \<and> candidate_snapshot_matches w inp = None \<and> cr_base_hash req = vd_input_hash inp
    \<and> (\<exists>d t after ranges df. decode (vw_codec w) (vd_before inp) = Inr d
        \<and> apply_edits (doc_text d) (cr_edits req) = Inr t
        \<and> encode_edits (vw_codec w) d t (cr_edits req) = Inr after
        \<and> verified_edit_line_ranges (doc_text d) t (cr_edits req) = Inr ranges
        \<and> candidate_held_ranges_unchanged (vd_plan inp) ranges = None
        \<and> cv_candidate_hash v = vw_digest w after \<and> cv_edit_ranges v = ranges
        \<and> cv_candidate_id v = vw_id w \<and> cv_plan_revision v = cr_plan_revision req
        \<and> cv_attribution_version v = line_attribution_version \<and> checks_pass (cv_checks v)
        \<and> effects = [Wrote Candidate_after after, Wrote Latest_after after,
            Journaled (add_check ''line attribution'' C_passed ''every item matches its changed lines''
              (new_validation w req\<lparr>cv_candidate_hash := vw_digest w after, cv_edit_ranges := ranges,
                 cv_attribution_version := line_attribution_version\<rparr>)),
            Wrote Candidate_diff df, Wrote Latest_diff df] \<and> df \<noteq> [])"
proof -
  have nv: "\<not> cv_passed (new_validation w req)" by (simp add: new_validation_def)
  have rej: "\<not> cv_passed v'" if "rejected w n r v0 = (v', e, es)" "\<not> cv_passed v0" for n r v0 v' e es
    using that by (auto simp: rejected_def)
  from assms obtain d t after ranges where
      a: "candidate_snapshot_matches w inp = None" "cr_base_hash req = vd_input_hash inp"
        "decode (vw_codec w) (vd_before inp) = Inr d"
        "apply_edits (doc_text d) (cr_edits req) = Inr t"
        "encode_edits (vw_codec w) d t (cr_edits req) = Inr after"
        "verified_edit_line_ranges (doc_text d) t (cr_edits req) = Inr ranges"
        "candidate_held_ranges_unchanged (vd_plan inp) ranges = None"
      and p: "publish_candidate w after
          (add_check ''line attribution'' C_passed ''every item matches its changed lines''
             (new_validation w req\<lparr>cv_candidate_hash := vw_digest w after, cv_edit_ranges := ranges,
                cv_attribution_version := line_attribution_version\<rparr>)) = (v, err, effects)"
    using nv unfolding check_candidate_def
    by (auto simp: Let_def rejected_def split: option.splits if_splits sum.splits)
  have "\<not> cv_passed (add_check ''line attribution'' C_passed ''every item matches its changed lines''
      (new_validation w req\<lparr>cv_candidate_hash := vw_digest w after, cv_edit_ranges := ranges,
         cv_attribution_version := line_attribution_version\<rparr>))"
    using nv by simp
  from publish_candidate_passed[OF p assms(2) this] a show ?thesis
    by (auto simp: new_validation_def)
qed


subsection \<open>A concrete candidate\<close>

definition sample_held_item :: plan_item where
  "sample_held_item =
     \<lparr>pi_id = ''b1'', pi_rule_id = ''r1'', pi_location = ''a.go:1'', pi_risk = [], pi_change = ''x'',
      pi_expected = ''y'', pi_status = S_blocked, pi_hold_reason = ''unsafe'',
      pi_source_locations = [\<lparr>sl_start_line = 1, sl_end_line = 1, sl_excerpt = ''ab''\<rparr>]\<rparr>"

definition windows_request :: candidate_request where
  "windows_request =
     \<lparr>cr_plan_revision = 1, cr_base_hash = windows_file,
      cr_edits = [windows_edit\<lparr>ed_item_ids := [''i1'']\<rparr>], cr_addressed_item_ids = [''i1'']\<rparr>"

definition windows_input :: validation_input where
  "windows_input =
     \<lparr>vd_catalog = True, vd_head = ''0123456789abcdef0123456789abcdef01234567'', vd_artifact = ''art'',
      vd_file = ''src/a.go'', vd_before = windows_file, vd_input_hash = windows_file,
      vd_plan = \<lparr>rp_revision = 1, rp_decisions = [], rp_items = [sample_held_item]\<rparr>\<rparr>"

definition windows_world :: validation_world where
  "windows_world =
     \<lparr>vw_id = ''c1'', vw_digest = (\<lambda>s. s), vw_codec = no_shift_jis, vw_source_path = True,
      vw_right_target = True, vw_artifact_inside = False, vw_committed = Some windows_file,
      vw_writable = (\<lambda>_. True), vw_journal = True, vw_diff = Some ''diff'', vw_stopped = False,
      vw_message = (\<lambda>_. ''failed'')\<rparr>"

lemma windows_passed: "cv_passed (fst (fst (validate_candidate windows_world windows_input windows_request)))"
  by code_simp


end
