(* ===== verification/Adoption.thy ===== *)
theory Adoption
  imports CandidateValidation
begin

section \<open>Adoption of a proposal (engine/runner.go, parallel_recovery.go)\<close>

text \<open>
  The last part of \<open>processOne\<close>: what the single owner of the working copy does with a finished
  proposal. Everything outside the program answers through \<open>adoption_env\<close>, one field per call, and
  what the program does to the outside is the list of effects, in order: the queue saved with this
  task, a file of the attempt, the source file, the rollback, and the commit. A file write is
  atomic (a temporary file is renamed), so a failed one has no effect; a commit that reports an
  error may still have been made.
\<close>

datatype attempt_file = After_file | Diff_file

datatype adoption_effect = Saved task | Put attempt_file string | Wrote_source string | Rolled_back
  | Staged | Committed

datatype adoption_stop = Save_failed | File_failed | Stat_failed | Write_failed | Rollback_failed
  | Commit_unconfirmed | Head_unreadable

datatype save_point = Save_intent | Save_validated | Save_result

datatype commit_answer = Commit_ok | Commit_failed_made | Commit_failed

record adoption_env =
  ae_digest :: "string \<Rightarrow> string"
  ae_codec :: shift_jis
  ae_stopped :: bool
  ae_writer_failed :: bool
  ae_rule_exists :: "rule_id \<Rightarrow> bool"
  ae_before :: string
  ae_document :: document
  ae_target :: string
  ae_checkpoint :: checkpoint
  ae_fresh_rule_hash :: "string option"
  ae_settings_hash :: string
  ae_review_head :: "string option"
  ae_review_changed :: "string list option"
  ae_adopt_head :: "string option"
  ae_adopt_changed :: "string list option"
  ae_path_ok :: bool
  ae_source_now :: "string option"
  ae_stat_ok :: bool
  ae_write_ok :: bool
  ae_diff :: "string option"
  ae_changed_after :: "string list option"
  ae_source_after :: "string option"
  ae_stopped_after :: bool
  ae_file_ok :: "attempt_file \<Rightarrow> bool"
  ae_save_ok :: "save_point \<Rightarrow> bool"
  ae_rollback_head :: "string option"
  ae_rollback_regular :: bool
  ae_rollback_source :: "string option"
  ae_restore_ok :: bool
  ae_add_ok :: bool
  ae_commit :: commit_answer
  ae_new_head :: "string option"

record adoption =
  ad_attempt :: attempt
  ad_task :: task
  ad_head :: string
  ad_effects :: "adoption_effect list"

type_synonym adoption_step = "adoption \<times> adoption_stop option"

definition emit :: "adoption_effect \<Rightarrow> adoption \<Rightarrow> adoption" where
  "emit e s = s\<lparr>ad_effects := ad_effects s @ [e]\<rparr>"

definition on_attempt :: "(attempt \<Rightarrow> attempt) \<Rightarrow> adoption \<Rightarrow> adoption" where
  "on_attempt f s = s\<lparr>ad_attempt := f (ad_attempt s)\<rparr>"

text \<open>\<open>t.History[len(t.History)-1] = h\<close>\<close>

definition record_attempt :: "attempt \<Rightarrow> task \<Rightarrow> task" where
  "record_attempt h t = t\<lparr>tk_history := butlast (tk_history t) @ [h]\<rparr>"

fun merge_rules :: "rule_id list \<Rightarrow> rule_id list \<Rightarrow> rule_id list" where
  "merge_rules acc [] = acc"
| "merge_rules acc (r # rs) = merge_rules (if r \<in> set acc then acc else acc @ [r]) rs"

definition finished_task :: "status \<Rightarrow> string \<Rightarrow> attempt \<Rightarrow> task \<Rightarrow> task" where
  "finished_task st note h t =
     (let t1 = record_attempt h (t\<lparr>tk_status := st, tk_note := note,
            tk_rules_applied := (if adopted_changes h then merge_rules (tk_rules_applied t) (at_rules_applied h)
                                 else tk_rules_applied t)\<rparr>)
      in if st = Skipped \<and> can_discard_changes t1 then t1\<lparr>tk_status := Done\<rparr> else t1)"

definition finish_now :: "adoption_env \<Rightarrow> status \<Rightarrow> string \<Rightarrow> adoption \<Rightarrow> adoption_step" where
  "finish_now env st note s =
     (let h = (ad_attempt s)\<lparr>at_outcome := st, at_note := note\<rparr>;
          t = finished_task st note h (ad_task s);
          s1 = s\<lparr>ad_attempt := h, ad_task := t\<rparr>
      in if ae_save_ok env Save_result then (emit (Saved t) s1, None) else (s1, Some Save_failed))"

text \<open>\<open>rollbackAdoption\<close>: only this file, only from a HEAD and bytes the attempt knows.\<close>

definition rollback_adoption :: "adoption_env \<Rightarrow> attempt \<Rightarrow> bool" where
  "rollback_adoption env h \<longleftrightarrow>
     ae_rollback_head env = Some (at_commit_base h) \<and> ae_rollback_regular env \<and>
     (case ae_rollback_source env of
        None \<Rightarrow> False
      | Some b \<Rightarrow> (ae_digest env b = at_input_hash h \<or> ae_digest env b = at_output_hash h) \<and> ae_restore_ok env)"

definition roll_back :: "adoption_env \<Rightarrow> adoption \<Rightarrow> adoption" where
  "roll_back env s = (if rollback_adoption env (ad_attempt s) then emit Rolled_back s else s)"

definition roll_back_and_fail :: "adoption_env \<Rightarrow> string \<Rightarrow> adoption \<Rightarrow> adoption_step" where
  "roll_back_and_fail env note s =
     (if rollback_adoption env (ad_attempt s) then finish_now env Failed note (emit Rolled_back s)
      else (s, Some Rollback_failed))"

definition worktree_as_accepted :: "adoption \<Rightarrow> string option \<Rightarrow> string list option \<Rightarrow> bool" where
  "worktree_as_accepted s head changed \<longleftrightarrow> head = Some (ad_head s) \<and> changed = Some []"

definition scope_check :: "string list option \<Rightarrow> string \<Rightarrow> check" where
  "scope_check changed target =
     \<lparr>ck_name = ''edit scope'',
      ck_status = (if changed = Some [target] then C_passed else C_failed),
      ck_detail = ''the change is limited to the target file''\<rparr>"

definition check_summary :: "check list \<Rightarrow> string" where
  "check_summary cs =
     (let failed = filter (\<lambda>c. ck_status c = C_failed) cs in
      if failed = [] then ''stopped'' else join_with LF (map (\<lambda>c. ck_name c @ '': '' @ ck_detail c) failed))"

subsection \<open>Nothing to change\<close>

definition settings_unchanged :: "adoption_env \<Rightarrow> bool" where
  "settings_unchanged env \<longleftrightarrow> ae_fresh_rule_hash env = Some (ch_rule_hash (ae_checkpoint env))
     \<and> ae_settings_hash env = ch_settings_hash (ae_checkpoint env)"

definition adopt_unchanged :: "adoption_env \<Rightarrow> proposal \<Rightarrow> adoption \<Rightarrow> adoption_step" where
  "adopt_unchanged env p s =
     (let h = ad_attempt s; cand = rs_last_candidate (ch_state (ae_checkpoint env)) in
      if pr_edits p \<noteq> [] then finish_now env Failed ''edits in a skipped answer'' s
      else if \<not> passed_no_change_review cand (at_input_hash h) (rs_plan (ch_state (ae_checkpoint env)))
         \<or> cv_candidate_id (ca_result (the cand)) \<noteq> pr_candidate_id p
        then finish_now env Needs_human ''no matching review'' s
      else if \<not> settings_unchanged env
        then finish_now env Needs_human ''rules or settings changed after the review'' s
      else if \<not> worktree_as_accepted s (ae_review_head env) (ae_review_changed env)
         \<or> map_option (ae_digest env) (ae_source_now env) \<noteq> Some (at_input_hash h)
        then finish_now env Needs_human ''the working copy changed after the review'' s
      else
        let s1 = on_attempt (\<lambda>h. h\<lparr>at_output_hash := at_input_hash h,
              at_checks := [\<lparr>ck_name = ''independent review'', ck_status = C_passed,
                 ck_detail = rv_summary (the (ca_review (the cand)))\<rparr>]\<rparr>) s
        in if \<not> ae_file_ok env After_file then (s1, Some File_failed)
           else if \<not> ae_file_ok env Diff_file then (emit (Put After_file (ae_before env)) s1, Some File_failed)
           else finish_now env Skipped (pr_note p)
             (on_attempt (\<lambda>h. h\<lparr>at_diff_path := at_id h @ ''.diff''\<rparr>)
               (emit (Put Diff_file []) (emit (Put After_file (ae_before env)) s1))))"

subsection \<open>A validated candidate\<close>

definition confirm_candidate :: "adoption_env \<Rightarrow> proposal \<Rightarrow> attempt \<Rightarrow> string \<Rightarrow> string option" where
  "confirm_candidate env p h after =
     (let state = ch_state (ae_checkpoint env); hash = ae_digest env after in
      case rs_last_candidate state of
        None \<Rightarrow> Some ''no validation record''
      | Some c \<Rightarrow>
          if ca_no_change c \<or> \<not> cv_passed (ca_result c)
             \<or> cv_attribution_version (ca_result c) \<noteq> line_attribution_version
             \<or> cv_candidate_id (ca_result c) \<noteq> pr_candidate_id p
             \<or> cv_plan_revision (ca_result c) \<noteq> rp_revision (rs_plan state)
             \<or> cr_base_hash (ca_request c) \<noteq> at_input_hash h
             \<or> cv_candidate_hash (ca_result c) \<noteq> hash \<or> \<not> checks_pass (cv_checks (ca_result c))
          then Some ''the candidate does not match its validation record''
          else if \<not> passed_independent_review (Some c) (at_input_hash h) hash (rs_plan state)
          then Some ''no matching review''
          else if check_candidate_holds (rs_plan state) (ca_request c) (doc_text (ae_document env)) \<noteq> None
          then Some ''held locations are not protected''
          else if candidate_held_ranges_unchanged (rs_plan state) (cv_edit_ranges (ca_result c)) \<noteq> None
          then Some ''held lines are touched'' else None)"

text \<open>From the check of the working copy to the commit.\<close>

definition commit_bytes :: "adoption_env \<Rightarrow> proposal \<Rightarrow> adoption \<Rightarrow> adoption_step" where
  "commit_bytes env p s =
     (let s1 = on_attempt (\<lambda>h. h\<lparr>at_outcome := Validated, at_note := pr_note p\<rparr>) s;
          t = record_attempt (ad_attempt s1) (ad_task s1);
          s2 = s1\<lparr>ad_task := t\<rparr> in
      if \<not> ae_save_ok env Save_validated then (roll_back env s2, Some Save_failed)
      else
        let s3 = emit (Saved t) s2 in
        if \<not> ae_add_ok env then roll_back_and_fail env ''git add failed'' s3
        else
          let s4 = emit Staged s3 in
          case ae_commit env of
            Commit_failed \<Rightarrow> (s4, Some Commit_unconfirmed)
          | Commit_failed_made \<Rightarrow> (emit Committed s4, Some Commit_unconfirmed)
          | Commit_ok \<Rightarrow>
              (case ae_new_head env of
                 None \<Rightarrow> (emit Committed s4, Some Head_unreadable)
               | Some c \<Rightarrow>
                   let s5 = (on_attempt (\<lambda>h. h\<lparr>at_commit := c\<rparr>) (emit Committed s4))\<lparr>ad_head := c\<rparr>
                   in if at_partial (ad_attempt s5) then finish_now env Needs_human (pr_note p) s5
                      else finish_now env Done (pr_note p) s5))"

definition check_written :: "adoption_env \<Rightarrow> bool \<Rightarrow> attempt \<Rightarrow> check list" where
  "check_written env validated h =
     (let scope = scope_check (ae_changed_after env) (ae_target env) in
      at_checks h
      @ (if validated then [] else [\<lparr>ck_name = ''application of the candidate'', ck_status = C_passed,
            ck_detail = ''only exact matches were changed''\<rparr>])
      @ (if ck_status scope \<noteq> C_passed then [scope] else [])
      @ (if map_option (ae_digest env) (ae_source_after env) \<noteq> Some (at_output_hash h)
         then [\<lparr>ck_name = ''content before adoption'', ck_status = C_failed,
                ck_detail = ''differs from the validated candidate''\<rparr>] else []))"

definition write_bytes :: "adoption_env \<Rightarrow> proposal \<Rightarrow> bool \<Rightarrow> string \<Rightarrow> adoption \<Rightarrow> adoption_step" where
  "write_bytes env p validated after s =
     (if \<not> ae_path_ok env then finish_now env Needs_human ''unsafe path'' s
      else if map_option (ae_digest env) (ae_source_now env) \<noteq> Some (at_input_hash (ad_attempt s))
        then finish_now env Needs_human ''the file changed during the run'' s
      else if \<not> ae_stat_ok env then (s, Some Stat_failed)
      else if \<not> ae_write_ok env then (s, Some Write_failed)
      else
        let s1 = emit (Wrote_source after) s in
        case ae_diff env of
          None \<Rightarrow> roll_back_and_fail env ''no difference'' s1
        | Some d \<Rightarrow>
            let s2 = on_attempt (\<lambda>h. h\<lparr>at_diff_path := at_id h @ ''.diff''\<rparr>) s1 in
            if \<not> ae_file_ok env Diff_file then (roll_back env s2, Some File_failed)
            else
              let s3 = on_attempt (\<lambda>h. h\<lparr>at_checks := check_written env validated h\<rparr>)
                         (emit (Put Diff_file d) s2)
              in if \<not> checks_pass (at_checks (ad_attempt s3)) \<or> ae_stopped_after env
                 then roll_back_and_fail env (check_summary (at_checks (ad_attempt s3))) s3
                 else commit_bytes env p s3)"

definition adopt_bytes :: "adoption_env \<Rightarrow> proposal \<Rightarrow> bool \<Rightarrow> string \<Rightarrow> adoption \<Rightarrow> adoption_step" where
  "adopt_bytes env p validated after s =
     (if \<not> worktree_as_accepted s (ae_adopt_head env) (ae_adopt_changed env)
        then finish_now env Needs_human ''unexpected changes in the working copy'' s
      else
        let s1 = on_attempt (\<lambda>h. h\<lparr>at_commit_base := ad_head s, at_output_hash := ae_digest env after\<rparr>) s in
        if \<not> ae_file_ok env After_file then (s1, Some File_failed)
        else
          let t = record_attempt (ad_attempt s1) (ad_task s1);
              s2 = (emit (Put After_file after) s1)\<lparr>ad_task := t\<rparr>
          in if \<not> ae_save_ok env Save_intent then (s2, Some Save_failed)
             else write_bytes env p validated after (emit (Saved t) s2))"

definition adopt_modified :: "adoption_env \<Rightarrow> proposal \<Rightarrow> adoption \<Rightarrow> adoption_step" where
  "adopt_modified env p s =
     (case apply_edits (doc_text (ae_document env)) (pr_edits p) of
        Inl _ \<Rightarrow> finish_now env Failed ''the edits do not apply'' s
      | Inr after_text \<Rightarrow>
      (case encode_edits (ae_codec env) (ae_document env) after_text (pr_edits p) of
        Inl _ \<Rightarrow> finish_now env Failed ''the edits cannot be encoded'' s
      | Inr after \<Rightarrow>
          if pr_candidate_id p = [] then adopt_bytes env p False after s
          else (case confirm_candidate env p (ad_attempt s) after of
            Some note \<Rightarrow> finish_now env Needs_human note s
          | None \<Rightarrow>
              let c = the (rs_last_candidate (ch_state (ae_checkpoint env)));
                  s1 = on_attempt (\<lambda>h. h\<lparr>at_partial := (rv_verdict (the (ca_review c)) = V_passed_with_holds)\<rparr>) s
              in if \<not> settings_unchanged env
                 then finish_now env Needs_human ''rules or settings changed after validation'' s1
                 else if \<not> worktree_as_accepted s1 (ae_review_head env) (ae_review_changed env)
                 then finish_now env Needs_human ''the working copy changed after validation'' s1
                 else adopt_bytes env p True after
                   (on_attempt (\<lambda>h. h\<lparr>at_checks := cv_checks (ca_result c)\<rparr>) s1))))"

definition adopt :: "adoption_env \<Rightarrow> proposal \<Rightarrow> adoption \<Rightarrow> adoption_step" where
  "adopt env p s =
     (if ae_stopped env then finish_now env Needs_human ''stopped'' s
      else if ae_writer_failed env then finish_now env Needs_human ''an earlier adoption failed'' s
      else if \<exists>r \<in> set (pr_rules_applied p). \<not> ae_rule_exists env r
        then finish_now env Failed ''unknown rule'' s
      else (case pr_outcome p of
        O_needs_human \<Rightarrow> finish_now env Needs_human (pr_note p) s
      | O_skipped \<Rightarrow> adopt_unchanged env p s
      | O_modified \<Rightarrow> adopt_modified env p s
      | O_other _ \<Rightarrow> finish_now env Failed ''unknown outcome'' s))"

subsection \<open>The effects of an adoption\<close>

text \<open>
  \<open>adds s s' xs\<close>: the step appended exactly the effects \<open>xs\<close>. The lemmas below give, for every
  part of the adoption, which lists of effects are possible.
\<close>

definition adds :: "adoption \<Rightarrow> adoption \<Rightarrow> adoption_effect list \<Rightarrow> bool" where
  "adds s s' xs \<longleftrightarrow> ad_effects s' = ad_effects s @ xs"

lemma emit_simps [simp]:
  "ad_attempt (emit e s) = ad_attempt s" "ad_task (emit e s) = ad_task s"
  "ad_head (emit e s) = ad_head s" "ad_effects (emit e s) = ad_effects s @ [e]"
  by (auto simp: emit_def)

lemma on_attempt_simps [simp]:
  "ad_attempt (on_attempt f s) = f (ad_attempt s)" "ad_task (on_attempt f s) = ad_task s"
  "ad_head (on_attempt f s) = ad_head s" "ad_effects (on_attempt f s) = ad_effects s"
  by (auto simp: on_attempt_def)

definition final_status :: "status \<Rightarrow> bool" where
  "final_status st \<longleftrightarrow> st \<in> {Done, Skipped, Failed, Needs_human}"

lemma finished_task_status:
  "tk_status (finished_task st msg h t) = st \<or> st = Skipped \<and> tk_status (finished_task st msg h t) = Done"
  by (auto simp: finished_task_def record_attempt_def Let_def)

lemma finish_now_adds:
  assumes "finish_now env st msg s = (s', stop)" "final_status st"
  shows "adds s s' (if stop = None then [Saved (ad_task s')] else []) \<and>
    (stop = None \<longrightarrow> final_status (tk_status (ad_task s'))
       \<and> (tk_status (ad_task s') = Done \<longrightarrow> st = Done \<or> st = Skipped))"
  using assms finished_task_status[of st msg "(ad_attempt s)\<lparr>at_outcome := st, at_note := msg\<rparr>" "ad_task s"]
  by (auto simp: finish_now_def adds_def final_status_def Let_def split: if_splits)

lemma roll_back_adds: "\<exists>xs. adds s (roll_back env s) xs \<and> set xs \<subseteq> {Rolled_back}"
  by (auto simp: roll_back_def adds_def)

lemma roll_back_and_fail_adds:
  assumes "roll_back_and_fail env msg s = (s', stop)"
  shows "(stop = Some Rollback_failed \<and> adds s s' []) \<or>
    (stop = None \<and> adds s s' [Rolled_back, Saved (ad_task s')] \<and> final_status (tk_status (ad_task s'))
       \<and> tk_status (ad_task s') \<noteq> Done) \<or>
    (stop = Some Save_failed \<and> adds s s' [Rolled_back])"
proof (cases "rollback_adoption env (ad_attempt s)")
  case True
  then have "finish_now env Failed msg (emit Rolled_back s) = (s', stop)"
    using assms by (simp add: roll_back_and_fail_def)
  moreover have "stop = None \<or> stop = Some Save_failed"
    using calculation by (auto simp: finish_now_def Let_def split: if_splits)
  ultimately show ?thesis
    using finish_now_adds[of env Failed msg "emit Rolled_back s" s' stop]
    by (auto simp: adds_def final_status_def)
qed (use assms in \<open>auto simp: roll_back_and_fail_def adds_def\<close>)

text \<open>How an adoption may end: the three shapes of the effects after the source was written.\<close>

definition ended :: "adoption \<Rightarrow> adoption_stop option \<Rightarrow> adoption_effect list \<Rightarrow> bool" where
  "ended s' stop xs \<longleftrightarrow>
     (stop = None \<longrightarrow> xs \<noteq> [] \<and> last xs = Saved (ad_task s') \<and> final_status (tk_status (ad_task s')))"

definition journaled :: "adoption_env \<Rightarrow> proposal \<Rightarrow> adoption \<Rightarrow> task" where
  "journaled env p s =
     record_attempt ((ad_attempt s)\<lparr>at_outcome := Validated, at_note := pr_note p\<rparr>) (ad_task s)"

lemma commit_bytes_adds:
  assumes "commit_bytes env p s = (s', stop)"
  shows "\<exists>xs. adds s s' xs \<and> ended s' stop xs \<and>
    (Committed \<in> set xs \<longrightarrow> (\<exists>rest. xs = [Saved (journaled env p s), Staged, Committed] @ rest
        \<and> (\<forall>x \<in> set rest. \<exists>t. x = Saved t))) \<and>
    (Committed \<notin> set xs \<longrightarrow> stop = None \<longrightarrow> Rolled_back \<in> set xs \<and> tk_status (ad_task s') \<noteq> Done) \<and>
    (\<forall>b. Wrote_source b \<notin> set xs)"
proof -
  define s1 where "s1 = on_attempt (\<lambda>h. h\<lparr>at_outcome := Validated, at_note := pr_note p\<rparr>) s"
  define s2 where "s2 = s1\<lparr>ad_task := journaled env p s\<rparr>"
  define s3 where "s3 = emit (Saved (journaled env p s)) s2"
  define s4 where "s4 = emit Staged s3"
  have eff: "ad_effects s3 = ad_effects s @ [Saved (journaled env p s)]"
      "ad_effects s4 = ad_effects s @ [Saved (journaled env p s), Staged]" "ad_effects s2 = ad_effects s"
    by (simp_all add: s1_def s2_def s3_def s4_def)
  have j: "record_attempt (ad_attempt s1) (ad_task s1) = journaled env p s"
    by (simp add: s1_def journaled_def)
  have run: "(s', stop) =
    (if \<not> ae_save_ok env Save_validated then (roll_back env s2, Some Save_failed)
     else if \<not> ae_add_ok env then roll_back_and_fail env ''git add failed'' s3
     else case ae_commit env of
            Commit_failed \<Rightarrow> (s4, Some Commit_unconfirmed)
          | Commit_failed_made \<Rightarrow> (emit Committed s4, Some Commit_unconfirmed)
          | Commit_ok \<Rightarrow>
              (case ae_new_head env of
                 None \<Rightarrow> (emit Committed s4, Some Head_unreadable)
               | Some c \<Rightarrow>
                   let s5 = (on_attempt (\<lambda>h. h\<lparr>at_commit := c\<rparr>) (emit Committed s4))\<lparr>ad_head := c\<rparr>
                   in if at_partial (ad_attempt s5) then finish_now env Needs_human (pr_note p) s5
                      else finish_now env Done (pr_note p) s5))"
    using assms unfolding commit_bytes_def Let_def s1_def[symmetric] j s2_def[symmetric]
      s3_def[symmetric] s4_def[symmetric] by simp
  consider (save) "\<not> ae_save_ok env Save_validated" | (add) "ae_save_ok env Save_validated" "\<not> ae_add_ok env"
    | (go) "ae_save_ok env Save_validated" "ae_add_ok env" by blast
  then show ?thesis
  proof cases
    case save
    then show ?thesis using run eff roll_back_adds[of s2 env]
      by (auto simp: adds_def ended_def)
  next
    case add
    then have "roll_back_and_fail env ''git add failed'' s3 = (s', stop)" using run by simp
    from roll_back_and_fail_adds[OF this] show ?thesis
      by (elim disjE conjE) (rule exI[of _ "Saved (journaled env p s) # _"], auto simp: adds_def ended_def eff)+
  next
    case go
    show ?thesis
    proof (cases "ae_commit env")
      case Commit_ok
      show ?thesis
      proof (cases "ae_new_head env")
        case None
        then show ?thesis using go run Commit_ok eff by (auto simp: adds_def ended_def)
      next
        case (Some c)
        define s5 where "s5 = (on_attempt (\<lambda>h. h\<lparr>at_commit := c\<rparr>) (emit Committed s4))\<lparr>ad_head := c\<rparr>"
        have e5: "ad_effects s5 = ad_effects s @ [Saved (journaled env p s), Staged, Committed]"
          by (simp add: s5_def eff)
        have "(s', stop) = (if at_partial (ad_attempt s5) then finish_now env Needs_human (pr_note p) s5
            else finish_now env Done (pr_note p) s5)"
          using go run Commit_ok Some by (simp add: Let_def s5_def)
        then obtain st where "finish_now env st (pr_note p) s5 = (s', stop)" "final_status st"
          by (auto simp: final_status_def split: if_splits)
        from finish_now_adds[OF this] show ?thesis
          by (cases stop) (auto simp: adds_def ended_def e5)
      qed
    qed (use go run eff in \<open>auto simp: adds_def ended_def\<close>)
  qed
qed

text \<open>
  \<open>good_end\<close>: without a commit the source is as it was, unless the step reports an error; and
  \<open>committing\<close> is the one shape a committing adoption has.
\<close>

definition good_end :: "adoption \<Rightarrow> adoption_stop option \<Rightarrow> adoption_effect list \<Rightarrow> bool" where
  "good_end s' stop xs \<longleftrightarrow> ended s' stop xs \<and>
     (Committed \<notin> set xs \<longrightarrow> stop = None \<longrightarrow>
        ((\<exists>b. Wrote_source b \<in> set xs) \<longrightarrow> Rolled_back \<in> set xs))"

definition quiet :: "adoption_effect list \<Rightarrow> bool" where
  "quiet xs \<longleftrightarrow> Committed \<notin> set xs \<and> (\<forall>b. Wrote_source b \<notin> set xs)"

lemma quiet_simps [simp]:
  "quiet []" "quiet (x # xs) \<longleftrightarrow> x \<noteq> Committed \<and> (\<forall>b. x \<noteq> Wrote_source b) \<and> quiet xs"
  "quiet (xs @ ys) \<longleftrightarrow> quiet xs \<and> quiet ys"
  by (auto simp: quiet_def)

lemma finish_now_end:
  assumes "finish_now env st msg s = (s', stop)" "final_status st" "ad_effects s = ad_effects s0 @ ys" "quiet ys"
  shows "\<exists>xs. adds s0 s' xs \<and> good_end s' stop xs \<and> quiet xs"
  using finish_now_adds[OF assms(1,2)] assms(3,4)
  by (cases stop) (auto simp: adds_def good_end_def ended_def quiet_def)

lemma check_written_passes:
  assumes "checks_pass (check_written env validated h)"
  shows "ae_changed_after env = Some [ae_target env]"
    "map_option (ae_digest env) (ae_source_after env) = Some (at_output_hash h)"
  using assms by (auto simp: check_written_def checks_pass_def scope_check_def Let_def split: if_splits)

lemma write_bytes_adds:
  assumes "write_bytes env p validated after s = (s', stop)"
  shows "\<exists>xs. adds s s' xs \<and> good_end s' stop xs \<and>
    (Committed \<in> set xs \<longrightarrow>
       map_option (ae_digest env) (ae_source_now env) = Some (at_input_hash (ad_attempt s)) \<and>
       ae_changed_after env = Some [ae_target env] \<and>
       map_option (ae_digest env) (ae_source_after env) = Some (at_output_hash (ad_attempt s)) \<and>
       (\<exists>d h rest. xs = [Wrote_source after, Put Diff_file d,
            Saved (record_attempt h (ad_task s)), Staged, Committed] @ rest
          \<and> at_outcome h = Validated \<and> at_id h = at_id (ad_attempt s)
          \<and> at_input_hash h = at_input_hash (ad_attempt s)
          \<and> at_output_hash h = at_output_hash (ad_attempt s)
          \<and> at_commit_base h = at_commit_base (ad_attempt s) \<and> at_partial h = at_partial (ad_attempt s)
          \<and> checks_pass (at_checks h) \<and> (\<forall>x \<in> set rest. \<exists>t. x = Saved t)))"
proof -
  define s1 where "s1 = emit (Wrote_source after) s"
  define s2 where "s2 = on_attempt (\<lambda>h. h\<lparr>at_diff_path := at_id h @ ''.diff''\<rparr>) s1"
  have e2: "ad_effects s2 = ad_effects s @ [Wrote_source after]" "ad_task s2 = ad_task s"
    by (simp_all add: s1_def s2_def)
  have a2: "ad_attempt s2 = (ad_attempt s)\<lparr>at_diff_path := at_id (ad_attempt s) @ ''.diff''\<rparr>"
    by (simp add: s1_def s2_def)
  have run: "(s', stop) =
    (if \<not> ae_path_ok env then finish_now env Needs_human ''unsafe path'' s
     else if map_option (ae_digest env) (ae_source_now env) \<noteq> Some (at_input_hash (ad_attempt s))
       then finish_now env Needs_human ''the file changed during the run'' s
     else if \<not> ae_stat_ok env then (s, Some Stat_failed)
     else if \<not> ae_write_ok env then (s, Some Write_failed)
     else case ae_diff env of
          None \<Rightarrow> roll_back_and_fail env ''no difference'' s1
        | Some d \<Rightarrow>
            if \<not> ae_file_ok env Diff_file then (roll_back env s2, Some File_failed)
            else
              let s3 = on_attempt (\<lambda>h. h\<lparr>at_checks := check_written env validated h\<rparr>)
                         (emit (Put Diff_file d) s2)
              in if \<not> checks_pass (at_checks (ad_attempt s3)) \<or> ae_stopped_after env
                 then roll_back_and_fail env (check_summary (at_checks (ad_attempt s3))) s3
                 else commit_bytes env p s3)"
    using assms unfolding write_bytes_def s1_def[symmetric] Let_def s2_def[symmetric] by simp
  show ?thesis
  proof (cases "ae_path_ok env \<and> map_option (ae_digest env) (ae_source_now env) = Some (at_input_hash (ad_attempt s))
      \<and> ae_stat_ok env \<and> ae_write_ok env")
    case False
    then consider msg where "finish_now env Needs_human msg s = (s', stop)" | "s' = s" "stop \<noteq> None"
      using run by (auto split: if_splits)
    then show ?thesis
    proof cases
      case (1 msg)
      obtain xs where "adds s s' xs" "good_end s' stop xs" "quiet xs"
        using finish_now_end[OF 1, of s "[]"] by (auto simp: final_status_def)
      then show ?thesis by (auto simp: quiet_def)
    qed (auto simp: adds_def good_end_def ended_def)
  next
    case True
    show ?thesis
    proof (cases "ae_diff env")
      case None
      then have "roll_back_and_fail env ''no difference'' s1 = (s', stop)" using run True by simp
      from roll_back_and_fail_adds[OF this] show ?thesis
        by (auto simp: adds_def good_end_def ended_def s1_def)
    next
      case (Some d)
      define s3 where "s3 = on_attempt (\<lambda>h. h\<lparr>at_checks := check_written env validated h\<rparr>)
                         (emit (Put Diff_file d) s2)"
      have e3: "ad_effects s3 = ad_effects s @ [Wrote_source after, Put Diff_file d]" "ad_task s3 = ad_task s"
        by (simp_all add: s3_def e2)
      show ?thesis
      proof (cases "ae_file_ok env Diff_file")
        case False
        then have "s' = roll_back env s2" "stop = Some File_failed" using run True Some by auto
        then show ?thesis using roll_back_adds[of s2 env]
          by (auto simp: adds_def good_end_def ended_def e2)
      next
        case ok: True
        show ?thesis
        proof (cases "checks_pass (at_checks (ad_attempt s3)) \<and> \<not> ae_stopped_after env")
          case False
          then have "roll_back_and_fail env (check_summary (at_checks (ad_attempt s3))) s3 = (s', stop)"
            using run True Some ok by (simp add: Let_def s3_def split: if_splits)
          from roll_back_and_fail_adds[OF this] show ?thesis
            by (auto simp: adds_def good_end_def ended_def e3)
        next
          case go: True
          then have "commit_bytes env p s3 = (s', stop)"
            using run True Some ok by (simp add: Let_def s3_def)
          from commit_bytes_adds[OF this] obtain xs where x: "adds s3 s' xs" "ended s' stop xs"
              "Committed \<in> set xs \<Longrightarrow> \<exists>rest. xs = [Saved (journaled env p s3), Staged, Committed] @ rest
                  \<and> (\<forall>x \<in> set rest. \<exists>t. x = Saved t)"
              "Committed \<notin> set xs \<Longrightarrow> stop = None \<Longrightarrow> Rolled_back \<in> set xs"
            by blast
          let ?xs = "[Wrote_source after, Put Diff_file d] @ xs"
          have add: "adds s s' ?xs" using x(1) by (simp add: adds_def e3)
          have ge: "good_end s' stop ?xs" using x(2,4) by (auto simp: good_end_def ended_def)
          have cw: "checks_pass (check_written env validated (ad_attempt s2))"
            using go by (simp add: s3_def)
          note cwp = check_written_passes[OF cw]
          let ?h = "(ad_attempt s3)\<lparr>at_outcome := Validated, at_note := pr_note p\<rparr>"
          have h: "journaled env p s3 = record_attempt ?h (ad_task s)" by (simp add: journaled_def e3)
          have hf: "at_outcome ?h = Validated" "at_id ?h = at_id (ad_attempt s)"
              "at_input_hash ?h = at_input_hash (ad_attempt s)"
              "at_output_hash ?h = at_output_hash (ad_attempt s)"
              "at_commit_base ?h = at_commit_base (ad_attempt s)" "at_partial ?h = at_partial (ad_attempt s)"
              "checks_pass (at_checks ?h)"
            using go by (simp_all add: s3_def a2)
          have com: "\<exists>d h rest. ?xs = [Wrote_source after, Put Diff_file d,
                Saved (record_attempt h (ad_task s)), Staged, Committed] @ rest
              \<and> at_outcome h = Validated \<and> at_id h = at_id (ad_attempt s)
              \<and> at_input_hash h = at_input_hash (ad_attempt s)
              \<and> at_output_hash h = at_output_hash (ad_attempt s)
              \<and> at_commit_base h = at_commit_base (ad_attempt s) \<and> at_partial h = at_partial (ad_attempt s)
              \<and> checks_pass (at_checks h) \<and> (\<forall>x \<in> set rest. \<exists>t. x = Saved t)"
            if "Committed \<in> set ?xs"
          proof -
            from that have "Committed \<in> set xs" by simp
            then obtain rest where "xs = [Saved (journaled env p s3), Staged, Committed] @ rest"
                "\<forall>x \<in> set rest. \<exists>t. x = Saved t" using x(3) by blast
            with h hf show ?thesis
              by (intro exI[of _ d] exI[of _ ?h] exI[of _ rest] conjI) simp_all
          qed
          show ?thesis
          proof (intro exI[of _ ?xs] conjI impI)
            show "map_option (ae_digest env) (ae_source_now env) = Some (at_input_hash (ad_attempt s))"
              using True by simp
            show "ae_changed_after env = Some [ae_target env]" by (rule cwp(1))
            show "map_option (ae_digest env) (ae_source_after env) = Some (at_output_hash (ad_attempt s))"
              using cwp(2) by (simp add: a2)
          qed (use add ge com in blast)+
        qed
      qed
    qed
  qed
qed

text \<open>What a commit rests on: \<open>vouched\<close> is the part that concerns a candidate of the agent.\<close>

definition vouched :: "adoption_env \<Rightarrow> proposal \<Rightarrow> string \<Rightarrow> string \<Rightarrow> bool" where
  "vouched env p input_hash hash \<longleftrightarrow>
     (let state = ch_state (ae_checkpoint env) in
      \<exists>c. rs_last_candidate state = Some c \<and> cv_candidate_id (ca_result c) = pr_candidate_id p
        \<and> cv_passed (ca_result c) \<and> cv_candidate_hash (ca_result c) = hash
        \<and> cr_base_hash (ca_request c) = input_hash
        \<and> passed_independent_review (Some c) input_hash hash (rs_plan state)
        \<and> check_candidate_holds (rs_plan state) (ca_request c) (doc_text (ae_document env)) = None
        \<and> candidate_held_ranges_unchanged (rs_plan state) (cv_edit_ranges (ca_result c)) = None
        \<and> settings_unchanged env)"

definition committed_as ::
  "adoption_env \<Rightarrow> proposal \<Rightarrow> adoption \<Rightarrow> string \<Rightarrow> task \<Rightarrow> adoption_effect list \<Rightarrow> bool" where
  "committed_as env p s after saved xs \<longleftrightarrow>
     (\<exists>intent d rest h. xs = [Put After_file after, Saved intent, Wrote_source after, Put Diff_file d,
          Saved saved, Staged, Committed] @ rest \<and> (\<forall>x \<in> set rest. \<exists>t. x = Saved t)
        \<and> saved = record_attempt h intent \<and> at_outcome h = Validated \<and> at_id h = at_id (ad_attempt s)
        \<and> at_input_hash h = at_input_hash (ad_attempt s) \<and> at_output_hash h = ae_digest env after
        \<and> at_commit_base h = ad_head s \<and> checks_pass (at_checks h))
     \<and> ae_adopt_head env = Some (ad_head s) \<and> ae_adopt_changed env = Some []
     \<and> map_option (ae_digest env) (ae_source_now env) = Some (at_input_hash (ad_attempt s))
     \<and> ae_changed_after env = Some [ae_target env]
     \<and> map_option (ae_digest env) (ae_source_after env) = Some (ae_digest env after)"

lemma adopt_bytes_adds:
  assumes "adopt_bytes env p validated after s = (s', stop)"
  shows "\<exists>xs. adds s s' xs \<and> good_end s' stop xs \<and>
    (Committed \<in> set xs \<longrightarrow> (\<exists>saved. committed_as env p s after saved xs))"
proof -
  define s1 where "s1 = on_attempt (\<lambda>h. h\<lparr>at_commit_base := ad_head s, at_output_hash := ae_digest env after\<rparr>) s"
  define t where "t = record_attempt (ad_attempt s1) (ad_task s1)"
  define s2 where "s2 = (emit (Put After_file after) s1)\<lparr>ad_task := t\<rparr>"
  define s3 where "s3 = emit (Saved t) s2"
  have e: "ad_effects s1 = ad_effects s" "ad_effects s2 = ad_effects s @ [Put After_file after]"
      "ad_effects s3 = ad_effects s @ [Put After_file after, Saved t]" "ad_task s3 = t"
      "ad_attempt s3 = (ad_attempt s)\<lparr>at_commit_base := ad_head s, at_output_hash := ae_digest env after\<rparr>"
    by (simp_all add: s1_def s2_def s3_def)
  have run: "(s', stop) =
    (if \<not> worktree_as_accepted s (ae_adopt_head env) (ae_adopt_changed env)
       then finish_now env Needs_human ''unexpected changes in the working copy'' s
     else if \<not> ae_file_ok env After_file then (s1, Some File_failed)
     else if \<not> ae_save_ok env Save_intent then (s2, Some Save_failed)
     else write_bytes env p validated after s3)"
    using assms unfolding adopt_bytes_def Let_def s1_def[symmetric] t_def[symmetric] s2_def[symmetric]
      s3_def[symmetric] by simp
  show ?thesis
  proof (cases "worktree_as_accepted s (ae_adopt_head env) (ae_adopt_changed env)")
    case False
    then have "finish_now env Needs_human ''unexpected changes in the working copy'' s = (s', stop)"
      using run by simp
    from finish_now_end[OF this, of s "[]"] show ?thesis by (auto simp: final_status_def quiet_def)
  next
    case True
    show ?thesis
    proof (cases "ae_file_ok env After_file \<and> ae_save_ok env Save_intent")
      case False
      then have "(s' = s1 \<or> s' = s2) \<and> stop \<noteq> None" using run True by (auto split: if_splits)
      then show ?thesis using e(1,2) by (auto simp: adds_def good_end_def ended_def)
    next
      case ok: True
      then have "write_bytes env p validated after s3 = (s', stop)" using run True by simp
      from write_bytes_adds[OF this] obtain xs where x: "adds s3 s' xs" "good_end s' stop xs"
          "Committed \<in> set xs \<longrightarrow>
             map_option (ae_digest env) (ae_source_now env) = Some (at_input_hash (ad_attempt s3)) \<and>
             ae_changed_after env = Some [ae_target env] \<and>
             map_option (ae_digest env) (ae_source_after env) = Some (at_output_hash (ad_attempt s3)) \<and>
             (\<exists>d h rest. xs = [Wrote_source after, Put Diff_file d,
                Saved (record_attempt h (ad_task s3)), Staged, Committed] @ rest
              \<and> at_outcome h = Validated \<and> at_id h = at_id (ad_attempt s3)
              \<and> at_input_hash h = at_input_hash (ad_attempt s3)
              \<and> at_output_hash h = at_output_hash (ad_attempt s3)
              \<and> at_commit_base h = at_commit_base (ad_attempt s3) \<and> at_partial h = at_partial (ad_attempt s3)
              \<and> checks_pass (at_checks h) \<and> (\<forall>x \<in> set rest. \<exists>t. x = Saved t))"
        by blast
      let ?xs = "[Put After_file after, Saved t] @ xs"
      have "adds s s' ?xs" using x(1) by (simp add: adds_def e)
      moreover have "good_end s' stop ?xs" using x(2) by (auto simp: good_end_def ended_def)
      moreover have "\<exists>saved. committed_as env p s after saved ?xs" if "Committed \<in> set ?xs"
      proof -
        from that have "Committed \<in> set xs" by simp
        with x(3) obtain d h rest where "xs = [Wrote_source after, Put Diff_file d,
                Saved (record_attempt h t), Staged, Committed] @ rest"
            "at_outcome h = Validated" "at_id h = at_id (ad_attempt s)"
            "at_input_hash h = at_input_hash (ad_attempt s)" "at_output_hash h = ae_digest env after"
            "at_commit_base h = ad_head s" "checks_pass (at_checks h)" "\<forall>x \<in> set rest. \<exists>t. x = Saved t"
            "map_option (ae_digest env) (ae_source_now env) = Some (at_input_hash (ad_attempt s))"
            "ae_changed_after env = Some [ae_target env]"
            "map_option (ae_digest env) (ae_source_after env) = Some (ae_digest env after)"
          by (auto simp: e)
        moreover have "ae_adopt_head env = Some (ad_head s)" "ae_adopt_changed env = Some []"
          using True by (auto simp: worktree_as_accepted_def)
        ultimately show ?thesis
          unfolding committed_as_def by (intro exI[of _ "record_attempt h t"]) auto
      qed
      ultimately show ?thesis by blast
    qed
  qed
qed

lemma adopt_unchanged_adds:
  assumes "adopt_unchanged env p s = (s', stop)"
  shows "\<exists>xs. adds s s' xs \<and> good_end s' stop xs \<and> quiet xs"
proof -
  have fin: "\<exists>xs. adds s s' xs \<and> good_end s' stop xs \<and> quiet xs"
    if "finish_now env st msg s1 = (s', stop)" "final_status st" "ad_effects s1 = ad_effects s @ ys"
      "quiet ys" for st msg s1 ys
    using finish_now_end[OF that] .
  have now: "\<exists>xs. adds s s' xs \<and> good_end s' stop xs \<and> quiet xs"
    if "finish_now env st msg s = (s', stop)" "final_status st" for st msg
    using fin[OF that, of "[]"] by simp
  have stops: "\<exists>xs. adds s s' xs \<and> good_end s' stop xs \<and> quiet xs"
    if "ad_effects s' = ad_effects s @ ys" "quiet ys" "stop = Some File_failed" for ys
    using that by (auto simp: adds_def good_end_def ended_def)
  let ?h = "ad_attempt s" and ?cand = "rs_last_candidate (ch_state (ae_checkpoint env))"
  define s1 where "s1 = on_attempt (\<lambda>h. h\<lparr>at_output_hash := at_input_hash h,
              at_checks := [\<lparr>ck_name = ''independent review'', ck_status = C_passed,
                 ck_detail = rv_summary (the (ca_review (the ?cand)))\<rparr>]\<rparr>) s"
  have "(s', stop) = (s1, Some File_failed) \<or>
      (s', stop) = (emit (Put After_file (ae_before env)) s1, Some File_failed) \<or>
      (\<exists>msg. finish_now env Skipped msg (on_attempt (\<lambda>h. h\<lparr>at_diff_path := at_id h @ ''.diff''\<rparr>)
         (emit (Put Diff_file []) (emit (Put After_file (ae_before env)) s1))) = (s', stop)) \<or>
      (\<exists>msg st. final_status st \<and> finish_now env st msg s = (s', stop))"
    using assms unfolding adopt_unchanged_def Let_def s1_def[symmetric] final_status_def
    by (auto split: if_splits)
  then show ?thesis
  proof (elim disjE exE conjE)
    assume "(s', stop) = (s1, Some File_failed)"
    then show ?thesis using stops[of "[]"] by (simp add: s1_def)
  next
    assume "(s', stop) = (emit (Put After_file (ae_before env)) s1, Some File_failed)"
    then show ?thesis using stops[of "[Put After_file (ae_before env)]"] by (simp add: s1_def)
  next
    fix msg assume "finish_now env Skipped msg (on_attempt (\<lambda>h. h\<lparr>at_diff_path := at_id h @ ''.diff''\<rparr>)
         (emit (Put Diff_file []) (emit (Put After_file (ae_before env)) s1))) = (s', stop)"
    then show ?thesis
      using fin[of Skipped msg _ "[Put After_file (ae_before env), Put Diff_file []]"]
      by (simp add: s1_def final_status_def)
  next
    fix msg st assume "final_status st" "finish_now env st msg s = (s', stop)"
    then show ?thesis using now by blast
  qed
qed


lemma adopt_modified_adds:
  assumes "adopt_modified env p s = (s', stop)"
  shows "\<exists>xs. adds s s' xs \<and> good_end s' stop xs \<and>
    (Committed \<in> set xs \<longrightarrow> (\<exists>t after saved. apply_edits (doc_text (ae_document env)) (pr_edits p) = Inr t
        \<and> encode_edits (ae_codec env) (ae_document env) t (pr_edits p) = Inr after
        \<and> committed_as env p s after saved xs
        \<and> (pr_candidate_id p \<noteq> [] \<longrightarrow> vouched env p (at_input_hash (ad_attempt s)) (ae_digest env after))))"
proof -
  have fin: "\<exists>xs. adds s s' xs \<and> good_end s' stop xs \<and> quiet xs"
    if "finish_now env st msg s1 = (s', stop)" "final_status st" "ad_effects s1 = ad_effects s" for st msg s1
    using finish_now_end[OF that(1,2), of s "[]"] that(3) by simp
  have quiet_done: ?thesis if "\<exists>xs. adds s s' xs \<and> good_end s' stop xs \<and> quiet xs"
    using that by (auto simp: quiet_def)
  show ?thesis
  proof (cases "apply_edits (doc_text (ae_document env)) (pr_edits p)")
    case (Inl e)
    then show ?thesis using assms fin[of Failed] quiet_done
      by (auto simp: adopt_modified_def final_status_def)
  next
    case t: (Inr t)
    show ?thesis
    proof (cases "encode_edits (ae_codec env) (ae_document env) t (pr_edits p)")
      case (Inl e)
      then show ?thesis using assms t fin[of Failed] quiet_done
        by (auto simp: adopt_modified_def final_status_def)
    next
      case after: (Inr after)
      show ?thesis
      proof (cases "pr_candidate_id p = []")
        case True
        then have "adopt_bytes env p False after s = (s', stop)"
          using assms t after by (simp add: adopt_modified_def)
        from adopt_bytes_adds[OF this] t after True show ?thesis by blast
      next
        case cand: False
        show ?thesis
        proof (cases "confirm_candidate env p (ad_attempt s) after")
          case (Some msg)
          then show ?thesis using assms t after cand fin[of Needs_human] quiet_done
            by (auto simp: adopt_modified_def final_status_def)
        next
          case None
          define c where "c = the (rs_last_candidate (ch_state (ae_checkpoint env)))"
          define s1 where "s1 = on_attempt
            (\<lambda>h. h\<lparr>at_partial := (rv_verdict (the (ca_review c)) = V_passed_with_holds)\<rparr>) s"
          define s2 where "s2 = on_attempt (\<lambda>h. h\<lparr>at_checks := cv_checks (ca_result c)\<rparr>) s1"
          have same: "ad_effects s1 = ad_effects s" "ad_effects s2 = ad_effects s" "ad_head s2 = ad_head s"
              "at_id (ad_attempt s2) = at_id (ad_attempt s)"
              "at_input_hash (ad_attempt s2) = at_input_hash (ad_attempt s)"
            by (simp_all add: s1_def s2_def)
          have run: "(if \<not> settings_unchanged env
             then finish_now env Needs_human ''rules or settings changed after validation'' s1
             else if \<not> worktree_as_accepted s1 (ae_review_head env) (ae_review_changed env)
             then finish_now env Needs_human ''the working copy changed after validation'' s1
             else adopt_bytes env p True after s2) = (s', stop)"
            using assms cand unfolding adopt_modified_def t after None sum.case option.case Let_def
              c_def[symmetric] s1_def[symmetric] s2_def[symmetric] by simp
          show ?thesis
          proof (cases "settings_unchanged env \<and> worktree_as_accepted s1 (ae_review_head env) (ae_review_changed env)")
            case False
            then obtain msg where "finish_now env Needs_human msg s1 = (s', stop)"
              using run by (auto split: if_splits)
            then show ?thesis using fin[of Needs_human msg s1] same(1) quiet_done
              by (simp add: final_status_def)
          next
            case True
            then have "adopt_bytes env p True after s2 = (s', stop)" using run by simp
            from adopt_bytes_adds[OF this] obtain xs where x: "adds s2 s' xs" "good_end s' stop xs"
                "Committed \<in> set xs \<Longrightarrow> \<exists>saved. committed_as env p s2 after saved xs" by blast
            have "vouched env p (at_input_hash (ad_attempt s)) (ae_digest env after)"
              using None True
              by (auto simp: confirm_candidate_def vouched_def Let_def split: option.splits if_splits)
            moreover have "committed_as env p s2 after saved xs = committed_as env p s after saved xs" for saved
              by (simp add: committed_as_def same)
            moreover have "adds s s' xs" using x(1) by (simp add: adds_def same)
            ultimately show ?thesis using x(2,3) t after by blast
          qed
        qed
      qed
    qed
  qed
qed


subsection \<open>An adopted candidate\<close>

text \<open>The candidate of the agent's sample run, reviewed there, adopted here.\<close>

definition sample_digest :: "string \<Rightarrow> string" where
  "sample_digest s = (if s = sample_lines then ''h'' else ''k'')"

definition sample_after :: string where
  "sample_after = (case apply_edits sample_lines (pr_edits sample_gate_final) of Inr t \<Rightarrow> t | Inl _ \<Rightarrow> [])"

definition sample_checkpoint :: checkpoint where
  "sample_checkpoint =
     \<lparr>ch_version = 1, ch_attempt_id = ''a1'', ch_file = ''a.go'', ch_base_commit = ''c0'',
      ch_input_hash = ''h'', ch_rule_hash = ''r'', ch_settings_hash = ''s'', ch_rule_titles = None,
      ch_prior_usage = no_usage, ch_state = sample_reviewed\<rparr>"

definition sample_attempt :: attempt where
  "sample_attempt =
     \<lparr>at_id = ''a1'', at_number = 1, at_outcome = Unset, at_partial = False, at_note = [],
      at_rules_applied = [''r1''], at_checks = [], at_usage = no_usage, at_diff_path = [],
      at_commit = [], at_base_commit = ''c0'', at_commit_base = [], at_input_hash = ''h'',
      at_output_hash = [], at_repair_path = ''q.artifacts/a1.state.json'', at_reviews = []\<rparr>"

definition sample_task :: task where
  "sample_task =
     \<lparr>tk_file = ''a.go'', tk_discards = [], tk_excluded = False, tk_rules = [''r1''], tk_status = Running,
      tk_attempts = 1, tk_rules_applied = [], tk_note = [], tk_input_hash = ''h'',
      tk_history = [sample_attempt], tk_resume_requested = False\<rparr>"

definition sample_adoption_env :: adoption_env where
  "sample_adoption_env =
     \<lparr>ae_digest = sample_digest, ae_codec = no_shift_jis, ae_stopped = False, ae_writer_failed = False,
      ae_rule_exists = (\<lambda>_. True), ae_before = sample_lines,
      ae_document = document_of no_shift_jis sample_lines, ae_target = ''a.go'',
      ae_checkpoint = sample_checkpoint, ae_fresh_rule_hash = Some ''r'', ae_settings_hash = ''s'',
      ae_review_head = Some ''c0'', ae_review_changed = Some [],
      ae_adopt_head = Some ''c0'', ae_adopt_changed = Some [], ae_path_ok = True,
      ae_source_now = Some sample_lines, ae_stat_ok = True, ae_write_ok = True, ae_diff = Some ''d'',
      ae_changed_after = Some [''a.go''], ae_source_after = Some sample_after, ae_stopped_after = False,
      ae_file_ok = (\<lambda>_. True), ae_save_ok = (\<lambda>_. True), ae_rollback_head = Some ''c0'',
      ae_rollback_regular = True, ae_rollback_source = Some sample_after, ae_restore_ok = True,
      ae_add_ok = True, ae_commit = Commit_ok, ae_new_head = Some ''c1''\<rparr>"

definition sample_start :: adoption where
  "sample_start =
     \<lparr>ad_attempt = sample_attempt, ad_task = sample_task, ad_head = ''c0'', ad_effects = []\<rparr>"

lemma sample_adopted:
  "Committed \<in> set (ad_effects (fst (adopt sample_adoption_env sample_gate_final sample_start)))
   \<and> snd (adopt sample_adoption_env sample_gate_final sample_start) = None
   \<and> tk_status (ad_task (fst (adopt sample_adoption_env sample_gate_final sample_start))) = Done"
  by code_simp


end
