(* ===== verification/Recovery.thy ===== *)
theory Recovery
  imports Adoption
begin

section \<open>Recovery after an interruption (engine/git.go, parallel_recovery.go)\<close>

text \<open>
  At the start of a run the queue can name attempts whose process ended at any point. Recovery
  compares the queue with the dedicated working copy: written bytes that were not committed are
  taken back, a commit whose record was not saved is recorded, every other running attempt is
  marked interrupted with its checkpoint kept, and anything the queue does not explain stops the
  run. The working copy is an abstract world \<open>'w\<close>; git and the file system answer through the
  functions of the record \<open>git\<close>, one field per command, already split and trimmed the way the
  callers do it. The report rows of an attempt and the time stamps of the queue are not modelled.
\<close>

record 'w git =
  gi_head :: "'w \<Rightarrow> string option"
  gi_parent :: "'w \<Rightarrow> string option"
  gi_message :: "'w \<Rightarrow> string option"
  gi_ancestor :: "'w \<Rightarrow> string \<Rightarrow> string \<Rightarrow> bool"
  gi_log :: "'w \<Rightarrow> string \<Rightarrow> string \<Rightarrow> string list option"
  gi_changed :: "'w \<Rightarrow> string list option"
  gi_commit_files :: "'w \<Rightarrow> string \<Rightarrow> string list option"
  gi_tree_entries :: "'w \<Rightarrow> string \<Rightarrow> string \<Rightarrow> string list option"
  gi_blob :: "'w \<Rightarrow> string \<Rightarrow> string option"
  gi_path_ok :: "'w \<Rightarrow> string \<Rightarrow> bool"
  gi_read :: "'w \<Rightarrow> string \<Rightarrow> string option"
  gi_reset :: "'w \<Rightarrow> string \<Rightarrow> 'w \<times> bool"
  gi_clean :: "'w \<Rightarrow> 'w \<times> bool"

record session =
  se_base_commit :: string
  se_relative :: string
  se_queue :: string
  se_digest :: "string \<Rightarrow> string"
  se_writable :: "string \<Rightarrow> bool"
  se_now :: string

datatype recovery_error = Git_query | Unsafe_target | No_attempt | Wrong_parent | Commit_mismatch
  | Bad_checkpoint checkpoint_error | Unreviewed_commit | Bad_base | Base_not_ancestor
  | Foreign_history | Unknown_commit string | Several_changes "string list" | Unrecorded_change string
  | Target_changed string | Unexpected_head | Command_failed

text \<open>\<open>filepath.ToSlash(filepath.Join(m.SourceRelative, t.File))\<close> for the clean paths of a queue.\<close>

definition target_path :: "session \<Rightarrow> string \<Rightarrow> string" where
  "target_path se f = (if se_relative se = [] \<or> se_relative se = ''.'' then f else se_relative se @ ''/'' @ f)"

subsection \<open>A file of a commit (engine/parallel_run.go)\<close>

text \<open>\<open>validatePreviewFilePath\<close>: a clean local path; on such a path no segment is empty, dot or dot-dot.\<close>

definition preview_path_ok :: "string \<Rightarrow> bool" where
  "preview_path_ok p \<longleftrightarrow> p = ''.'' \<or>
     p \<noteq> [] \<and> CHR 0x5C \<notin> set p \<and> NUL \<notin> set p
     \<and> list_all (\<lambda>seg. seg \<noteq> [] \<and> seg \<noteq> ''.'' \<and> seg \<noteq> ''..'' \<and> lower_ascii seg \<noteq> ''.git'') (split_on (CHR ''/'') p)"

definition split_tab :: "string \<Rightarrow> (string \<times> string) option" where
  "split_tab e = (let a = takeWhile (\<lambda>c. c \<noteq> CHR 0x09) e; b = dropWhile (\<lambda>c. c \<noteq> CHR 0x09) e
     in if b = [] then None else Some (a, tl b))"

function fields_from :: "string \<Rightarrow> string \<Rightarrow> string list" where
  "fields_from word s =
     (case find (\<lambda>r. prefix r s) space_runes of
        Some r \<Rightarrow> (if word = [] then [] else [word]) @ fields_from [] (drop (length r) s)
      | None \<Rightarrow> (case s of [] \<Rightarrow> (if word = [] then [] else [word]) | c # rest \<Rightarrow> fields_from (word @ [c]) rest))"
  by pat_completeness auto
termination
proof (relation "measure (length \<circ> snd)")
  fix word r :: string and s assume "find (\<lambda>r. prefix r s) space_runes = Some r"
  then have "r \<in> set space_runes" "prefix r s" by (auto simp: find_Some_iff)
  then have "r \<noteq> []" "length r \<le> length s"
    using space_runes_not_Nil by (auto dest: prefix_length_le)
  then show "(([], drop (length r) s), word, s) \<in> measure (length \<circ> snd)" by (cases r) auto
qed auto

declare fields_from.simps [simp del]

definition blob_of_entry :: "string \<Rightarrow> string \<Rightarrow> string option" where
  "blob_of_entry p e =
     (case split_tab e of
        None \<Rightarrow> None
      | Some (meta, name) \<Rightarrow>
          (case fields_from [] meta of
             [mode, kind, blob] \<Rightarrow>
               if name = p \<and> (mode = ''100644'' \<or> mode = ''100755'') \<and> kind = ''blob'' then Some blob else None
           | _ \<Rightarrow> None))"

definition read_snapshot_file :: "'w git \<Rightarrow> 'w \<Rightarrow> string \<Rightarrow> string \<Rightarrow> string option" where
  "read_snapshot_file g w head p =
     (if \<not> immutable_commit_id head \<or> \<not> preview_path_ok p \<or> forbidden_context p then None
      else (case gi_tree_entries g w head p of
        Some [e] \<Rightarrow> (case blob_of_entry p e of Some b \<Rightarrow> gi_blob g w b | None \<Rightarrow> None)
      | _ \<Rightarrow> None))"

subsection \<open>Written but not committed\<close>

definition attempt_marker :: "attempt \<Rightarrow> string" where
  "attempt_marker h = ''OneByOne-Attempt: '' @ at_id h"

text \<open>The message an adoption commits with, and how recovery finds its attempt in it.\<close>

definition commit_message :: "string \<Rightarrow> string \<Rightarrow> rule_id list \<Rightarrow> string" where
  "commit_message f i rules = ''Migrate '' @ f @ [LF, LF] @ ''OneByOne-Attempt: '' @ i @ [LF]
     @ ''OneByOne-Rules: '' @ join_with (CHR '','') rules"


definition claims_tip :: "string \<Rightarrow> attempt \<Rightarrow> bool" where
  "claims_tip message h \<longleftrightarrow>
     str_index message (attempt_marker h) \<noteq> None \<and> at_outcome h = Validated \<and> at_output_hash h \<noteq> []"

definition running_attempt :: "task \<Rightarrow> attempt option" where
  "running_attempt t = (if tk_status t = Running \<and> tk_history t \<noteq> [] then Some (last (tk_history t)) else None)"

definition known_commits :: "task list \<Rightarrow> string list" where
  "known_commits ts = concat (map (\<lambda>t.
     map di_commit (filter (\<lambda>d. di_state d = Discarded \<and> di_commit d \<noteq> []) (tk_discards t))
     @ filter (\<lambda>c. c \<noteq> []) (map at_commit (tk_history t))) ts)"

definition rollback :: "'w git \<Rightarrow> string \<Rightarrow> 'w \<Rightarrow> 'w \<times> recovery_error option" where
  "rollback g expected w =
     (case gi_head g w of
        None \<Rightarrow> (w, Some Git_query)
      | Some head \<Rightarrow>
          if head \<noteq> expected then (w, Some Unexpected_head)
          else (case gi_reset g w expected of
            (w1, False) \<Rightarrow> (w1, Some Command_failed)
          | (w1, True) \<Rightarrow>
              (case gi_clean g w1 of
                 (w2, ok) \<Rightarrow> (w2, if ok then None else Some Command_failed))))"

text \<open>The running attempt a single changed file belongs to.\<close>

definition owns_change :: "session \<Rightarrow> string \<Rightarrow> string \<Rightarrow> task \<Rightarrow> bool" where
  "owns_change se head file t \<longleftrightarrow>
     (case running_attempt t of None \<Rightarrow> False
      | Some h \<Rightarrow> file = target_path se (tk_file t) \<and> attempt_commit_base h = head)"

definition take_back :: "'w git \<Rightarrow> session \<Rightarrow> string \<Rightarrow> task \<Rightarrow> 'w \<Rightarrow> 'w \<times> recovery_error option" where
  "take_back g se head t w =
     (let h = last (tk_history t) in
      if \<not> gi_path_ok g w (tk_file t) then (w, Some Unsafe_target)
      else (case gi_read g w (target_path se (tk_file t)) of
        None \<Rightarrow> (w, Some Git_query)
      | Some b \<Rightarrow>
          if se_digest se b \<noteq> at_input_hash h \<and> se_digest se b \<noteq> at_output_hash h
          then (w, Some (Target_changed (tk_file t)))
          else rollback g head w))"

definition recover_pending_write ::
  "'w git \<Rightarrow> session \<Rightarrow> task list \<Rightarrow> string \<Rightarrow> string \<Rightarrow> 'w \<Rightarrow> 'w \<times> recovery_error option" where
  "recover_pending_write g se ts head message w =
     (let allowed = known_commits ts
          @ (if \<exists>t \<in> set ts. \<exists>h. running_attempt t = Some h \<and> claims_tip message h then [head] else []) in
      if \<not> gi_ancestor g w (se_base_commit se) head then (w, Some Foreign_history)
      else (case gi_log g w (se_base_commit se) head of
        None \<Rightarrow> (w, Some Git_query)
      | Some commits \<Rightarrow>
      (case find (\<lambda>c. c \<notin> set allowed) commits of
        Some c \<Rightarrow> (w, Some (Unknown_commit c))
      | None \<Rightarrow>
      (case gi_changed g w of
        None \<Rightarrow> (w, Some Git_query)
      | Some [] \<Rightarrow> (w, None)
      | Some [file] \<Rightarrow>
          (case find (owns_change se head file) ts of
             Some t \<Rightarrow> take_back g se head t w
           | None \<Rightarrow> (w, Some (Unrecorded_change file)))
      | Some files \<Rightarrow> (w, Some (Several_changes files))))))"

subsection \<open>One running attempt\<close>

text \<open>The commit of an attempt whose record was not saved.\<close>

definition commit_matches :: "'w git \<Rightarrow> session \<Rightarrow> string \<Rightarrow> task \<Rightarrow> attempt \<Rightarrow> 'w \<Rightarrow> recovery_error option" where
  "commit_matches g se head t h w =
     (if gi_parent g w \<noteq> Some (attempt_commit_base h) then Some Wrong_parent
      else (case gi_commit_files g w head of
        None \<Rightarrow> Some Git_query
      | Some changed \<Rightarrow>
          if \<not> gi_path_ok g w (tk_file t) then Some Unsafe_target
          else if map_option (se_digest se) (gi_read g w (target_path se (tk_file t))) \<noteq> Some (at_output_hash h)
             \<or> changed \<noteq> [target_path se (tk_file t)] \<or> \<not> checks_pass (at_checks h)
          then Some Commit_mismatch else None))"

definition reviewed_attempt ::
  "session \<Rightarrow> artifacts \<Rightarrow> attempt \<Rightarrow> (recovery_error, attempt) outcome" where
  "reviewed_attempt se ar h =
     (case load_repair_checkpoint (se_digest se) ar (se_queue se) h of
        Inl e \<Rightarrow> Inl (Bad_checkpoint e)
      | Inr None \<Rightarrow> Inr h
      | Inr (Some c) \<Rightarrow>
          let state = ch_state c; candidate = rs_last_candidate state in
          if candidate \<noteq> None
             \<and> \<not> passed_independent_review candidate (at_input_hash h) (at_output_hash h) (rs_plan state)
          then Inl Unreviewed_commit
          else Inr (h\<lparr>at_partial := (case candidate of None \<Rightarrow> at_partial h
                        | Some r \<Rightarrow> rv_verdict (the (ca_review r)) = V_passed_with_holds),
                     at_reviews := rs_reviews state,
                     at_usage := usage_since (rs_usage state) (ch_prior_usage c)\<rparr>))"

definition recovered_note :: "bool \<Rightarrow> string" where
  "recovered_note partial = (if partial then ''recovered committed changes; some locations need a person''
     else ''recovered committed changes'')"

definition recover_commit ::
  "'w git \<Rightarrow> session \<Rightarrow> artifacts \<Rightarrow> string \<Rightarrow> task \<Rightarrow> attempt \<Rightarrow> 'w \<Rightarrow> (recovery_error, task) outcome" where
  "recover_commit g se ar head t h w =
     (case commit_matches g se head t h w of
        Some e \<Rightarrow> Inl e
      | None \<Rightarrow>
      (case reviewed_attempt se ar h of
        Inl e \<Rightarrow> Inl e
      | Inr h1 \<Rightarrow>
          let result = (if at_partial h1 then Needs_human else Done);
              h2 = h1\<lparr>at_outcome := result, at_commit := head\<rparr>
          in Inr (record_attempt h2 (t\<lparr>tk_status := result, tk_rules_applied := at_rules_applied h2,
                    tk_note := recovered_note (at_partial h2)\<rparr>))))"

text \<open>A review that was running when the process ended counts as failed.\<close>

definition stopped_review :: "string \<Rightarrow> independent_review \<Rightarrow> independent_review" where
  "stopped_review now r =
     (if rv_verdict r = V_running
      then r\<lparr>rv_verdict := V_error, rv_summary := ''the review was interrupted'', rv_finished_at := now\<rparr>
      else r)"

definition stop_candidate_review :: "string \<Rightarrow> independent_review \<Rightarrow> candidate_record option \<Rightarrow> candidate_record option" where
  "stop_candidate_review now r cand =
     (if rv_verdict r \<noteq> V_running then cand
      else map_option (\<lambda>c. case ca_review c of None \<Rightarrow> c
             | Some q \<Rightarrow> if rv_id q = rv_id r then c\<lparr>ca_review := Some (stopped_review now r)\<rparr> else c) cand)"

definition stopped_state :: "string \<Rightarrow> repair_state \<Rightarrow> repair_state" where
  "stopped_state now s =
     s\<lparr>rs_last_candidate := foldl (\<lambda>c r. stop_candidate_review now r c) (rs_last_candidate s) (rs_reviews s),
       rs_usage := (rs_usage s)\<lparr>us_uncertain := us_uncertain (rs_usage s) \<or> rs_request_pending s\<rparr>,
       rs_reviews := map (stopped_review now) (rs_reviews s)\<rparr>"

definition interrupted_note :: "bool \<Rightarrow> string" where
  "interrupted_note uncertain = ''interrupted; a retry resumes from the saved plan''
     @ (if uncertain then ''; the usage of the last request is unknown'' else [])"

definition source_matches :: "'w git \<Rightarrow> session \<Rightarrow> string \<Rightarrow> task \<Rightarrow> attempt \<Rightarrow> 'w \<Rightarrow> bool" where
  "source_matches g se head t h w \<longleftrightarrow> at_input_hash h = [] \<or>
     map_option (se_digest se) (read_snapshot_file g w head (target_path se (tk_file t))) = Some (at_input_hash h)"

definition interrupt_attempt ::
  "'w git \<Rightarrow> session \<Rightarrow> string \<Rightarrow> task \<Rightarrow> attempt \<Rightarrow> 'w \<Rightarrow> artifacts
     \<Rightarrow> artifacts \<times> (recovery_error, task) outcome" where
  "interrupt_attempt g se head t h w ar =
     (if \<not> immutable_commit_id (at_base_commit h) then (ar, Inl Bad_base)
      else if \<not> gi_ancestor g w (at_base_commit h) head then (ar, Inl Base_not_ancestor)
      else if \<not> source_matches g se head t h w then (ar, Inl (Target_changed (tk_file t)))
      else
        let h1 = h\<lparr>at_outcome := Interrupted, at_note := ''the previous run was interrupted'',
                   at_usage := (at_usage h)\<lparr>us_uncertain := True\<rparr>\<rparr>
        in (case load_repair_checkpoint (se_digest se) ar (se_queue se) h of
              Inl e \<Rightarrow> (ar, Inl (Bad_checkpoint e))
            | Inr None \<Rightarrow>
                (ar, Inr (record_attempt h1 (t\<lparr>tk_status := Needs_human, tk_note := at_note h1\<rparr>)))
            | Inr (Some c) \<Rightarrow>
                let c1 = c\<lparr>ch_state := stopped_state (se_now se) (ch_state c)\<rparr>;
                    used = usage_since (rs_usage (ch_state c1)) (ch_prior_usage c1);
                    h2 = h1\<lparr>at_note := interrupted_note (us_uncertain used), at_usage := used,
                            at_reviews := rs_reviews (ch_state c1)\<rparr>;
                    t2 = record_attempt h2 (t\<lparr>tk_status := Needs_human, tk_note := at_note h2,
                           tk_resume_requested := False\<rparr>)
                in (case save_repair_checkpoint (se_digest se) (se_writable se) (se_queue se) c1 ar of
                      (ar1, Inl e) \<Rightarrow> (ar1, Inl (Bad_checkpoint e))
                    | (ar1, Inr _) \<Rightarrow> (ar1, Inr t2))))"

definition recover_task ::
  "'w git \<Rightarrow> session \<Rightarrow> string \<Rightarrow> string \<Rightarrow> task \<Rightarrow> 'w \<Rightarrow> artifacts
     \<Rightarrow> artifacts \<times> (recovery_error, task \<times> string list) outcome" where
  "recover_task g se head message t w ar =
     (if tk_status t \<noteq> Running then (ar, Inr (t, []))
      else if tk_history t = [] then (ar, Inl No_attempt)
      else
        let h = last (tk_history t) in
        if claims_tip message h
        then (ar, map_sum id (\<lambda>t1. (t1, [head])) (recover_commit g se ar head t h w))
        else (case interrupt_attempt g se head t h w ar of
          (ar1, r) \<Rightarrow> (ar1, map_sum id (\<lambda>t1. (t1, [])) r)))"

fun recover_tasks ::
  "'w git \<Rightarrow> session \<Rightarrow> string \<Rightarrow> string \<Rightarrow> task list \<Rightarrow> 'w \<Rightarrow> artifacts
     \<Rightarrow> artifacts \<times> (recovery_error, task list \<times> string list) outcome" where
  "recover_tasks g se head message [] w ar = (ar, Inr ([], []))"
| "recover_tasks g se head message (t # ts) w ar =
     (case recover_task g se head message t w ar of
        (ar1, Inl e) \<Rightarrow> (ar1, Inl e)
      | (ar1, Inr (t1, ks)) \<Rightarrow>
          (case recover_tasks g se head message ts w ar1 of
             (ar2, Inl e) \<Rightarrow> (ar2, Inl e)
           | (ar2, Inr (ts1, ks1)) \<Rightarrow> (ar2, Inr (t1 # ts1, ks @ ks1))))"

definition nothing_unexplained :: "'w git \<Rightarrow> session \<Rightarrow> string list \<Rightarrow> 'w \<Rightarrow> recovery_error option" where
  "nothing_unexplained g se known w =
     (case gi_log g w (se_base_commit se) ''HEAD'' of
        None \<Rightarrow> Some Git_query
      | Some commits \<Rightarrow>
      (case find (\<lambda>c. c \<notin> set known) commits of
        Some c \<Rightarrow> Some (Unknown_commit c)
      | None \<Rightarrow>
      (case gi_changed g w of
        None \<Rightarrow> Some Git_query
      | Some files \<Rightarrow> if files = [] then None else Some (Several_changes files))))"

text \<open>\<open>recover\<close>, after the pending discards; \<^term>\<open>Inr\<close> is the queue that is then persisted.\<close>

definition recover_attempts ::
  "'w git \<Rightarrow> session \<Rightarrow> task list \<Rightarrow> 'w \<Rightarrow> artifacts
     \<Rightarrow> 'w \<times> artifacts \<times> (recovery_error, task list) outcome" where
  "recover_attempts g se ts w ar =
     (case gi_head g w of
        None \<Rightarrow> (w, ar, Inl Git_query)
      | Some head \<Rightarrow>
      (case gi_message g w of
        None \<Rightarrow> (w, ar, Inl Git_query)
      | Some message \<Rightarrow>
      (case recover_pending_write g se ts head message w of
        (w1, Some e) \<Rightarrow> (w1, ar, Inl e)
      | (w1, None) \<Rightarrow>
      (case recover_tasks g se head message ts w1 ar of
        (ar1, Inl e) \<Rightarrow> (w1, ar1, Inl e)
      | (ar1, Inr (ts1, ks)) \<Rightarrow>
      (case nothing_unexplained g se (known_commits ts @ ks) w1 of
        Some e \<Rightarrow> (w1, ar1, Inl e)
      | None \<Rightarrow> (w1, ar1, Inr ts1))))))"

end
