(* ===== verification/CrashRecovery.thy ===== *)
theory CrashRecovery
  imports Recovery
begin

section \<open>An interrupted adoption is always recovered (engine/runner.go, git.go)\<close>

text \<open>
  An adoption is a sequence of effects, so a process that ends during it has done a prefix of them.
  The first part shows that after every prefix the saved queue explains the working copy
  (\<open>explained\<close>); the second that recovery, run on an explained working copy, succeeds and either
  records the commit or takes the file back.
\<close>

subsection \<open>The disk after a prefix of the effects\<close>

record disk =
  dk_head :: string
  dk_parent :: string
  dk_message :: string
  dk_log :: "string list"
  dk_files :: "string list"
  dk_committed :: string
  dk_working :: string

text \<open>The queue on disk is the task saved last; \<open>new\<close> and \<open>msg\<close> are the commit's hash and message.\<close>

fun disk_step :: "string \<Rightarrow> string \<Rightarrow> string \<Rightarrow> task \<times> disk \<Rightarrow> adoption_effect \<Rightarrow> task \<times> disk" where
  "disk_step new msg tgt (t, d) (Saved u) = (u, d)"
| "disk_step new msg tgt (t, d) (Put _ _) = (t, d)"
| "disk_step new msg tgt (t, d) (Wrote_source b) = (t, d\<lparr>dk_working := b\<rparr>)"
| "disk_step new msg tgt (t, d) Rolled_back = (t, d\<lparr>dk_working := dk_committed d\<rparr>)"
| "disk_step new msg tgt (t, d) Staged = (t, d)"
| "disk_step new msg tgt (t, d) Committed =
     (t, \<lparr>dk_head = new, dk_parent = dk_head d, dk_message = msg, dk_log = new # dk_log d, dk_files = [tgt],
          dk_committed = dk_working d, dk_working = dk_working d\<rparr>)"

definition disk_after :: "string \<Rightarrow> string \<Rightarrow> string \<Rightarrow> task \<times> disk \<Rightarrow> adoption_effect list \<Rightarrow> task \<times> disk" where
  "disk_after new msg tgt x es = foldl (disk_step new msg tgt) x es"

subsection \<open>What the queue explains\<close>

definition same_attempt :: "attempt \<Rightarrow> attempt \<Rightarrow> bool" where
  "same_attempt h k \<longleftrightarrow> at_id h = at_id k \<and> at_base_commit h = at_base_commit k
     \<and> at_input_hash h = at_input_hash k \<and> at_repair_path h = at_repair_path k"

definition intact :: "task \<Rightarrow> task \<Rightarrow> bool" where
  "intact t0 t \<longleftrightarrow> tk_file t = tk_file t0 \<and> tk_discards t = tk_discards t0 \<and> tk_history t \<noteq> []
     \<and> butlast (tk_history t) = butlast (tk_history t0)"

definition reviewed_ok :: "repair_state \<Rightarrow> attempt \<Rightarrow> bool" where
  "reviewed_ok state h \<longleftrightarrow> rs_last_candidate state = None
     \<or> passed_independent_review (rs_last_candidate state) (at_input_hash h) (at_output_hash h) (rs_plan state)"

record crash =
  cs_new :: string
  cs_message :: string
  cs_target :: string
  cs_digest :: "string \<Rightarrow> string"
  cs_state :: repair_state
  cs_task :: task
  cs_disk :: disk

definition first_attempt :: "crash \<Rightarrow> attempt" where
  "first_attempt k = last (tk_history (cs_task k))"

definition uncommitted :: "crash \<Rightarrow> task \<times> disk \<Rightarrow> bool" where
  "uncommitted k x \<longleftrightarrow> intact (cs_task k) (fst x)
     \<and> snd x = (cs_disk k)\<lparr>dk_working := dk_working (snd x)\<rparr>
     \<and> (let h = last (tk_history (fst x)); b = dk_working (snd x) in
        if tk_status (fst x) = Running
        then same_attempt h (first_attempt k)
          \<and> (b = dk_committed (cs_disk k) \<or> attempt_commit_base h = dk_head (cs_disk k) \<and> cs_digest k b = at_output_hash h)
        else b = dk_committed (cs_disk k))"

definition committed_disk :: "crash \<Rightarrow> string \<Rightarrow> disk" where
  "committed_disk k b = \<lparr>dk_head = cs_new k, dk_parent = dk_head (cs_disk k), dk_message = cs_message k,
     dk_log = cs_new k # dk_log (cs_disk k), dk_files = [cs_target k], dk_committed = b, dk_working = b\<rparr>"

definition journaled_attempt :: "crash \<Rightarrow> attempt \<Rightarrow> string \<Rightarrow> bool" where
  "journaled_attempt k h b \<longleftrightarrow> same_attempt h (first_attempt k) \<and> at_output_hash h = cs_digest k b
     \<and> attempt_commit_base h = dk_head (cs_disk k) \<and> checks_pass (at_checks h) \<and> reviewed_ok (cs_state k) h"

definition committed :: "crash \<Rightarrow> task \<times> disk \<Rightarrow> bool" where
  "committed k x \<longleftrightarrow> intact (cs_task k) (fst x) \<and> snd x = committed_disk k (dk_working (snd x))
     \<and> (let h = last (tk_history (fst x)); b = dk_working (snd x) in
        if tk_status (fst x) = Running then journaled_attempt k h b \<and> at_outcome h = Validated
        else at_commit h = cs_new k \<and> at_outcome h = tk_status (fst x) \<and> at_output_hash h = cs_digest k b
          \<and> (at_outcome h = Done \<or> at_outcome h = Needs_human \<and> at_partial h))"

definition explained :: "crash \<Rightarrow> task \<times> disk \<Rightarrow> bool" where
  "explained k x \<longleftrightarrow> uncommitted k x \<or> committed k x"

definition crash_step :: "crash \<Rightarrow> task \<times> disk \<Rightarrow> adoption_effect \<Rightarrow> task \<times> disk" where
  "crash_step k = disk_step (cs_new k) (cs_message k) (cs_target k)"

fun always :: "crash \<Rightarrow> task \<times> disk \<Rightarrow> adoption_effect list \<Rightarrow> bool" where
  "always k x [] \<longleftrightarrow> explained k x"
| "always k x (e # es) \<longleftrightarrow> explained k x \<and> always k (crash_step k x e) es"

lemma always_prefix:
  "always k x es \<Longrightarrow> prefix ys es \<Longrightarrow> explained k (disk_after (cs_new k) (cs_message k) (cs_target k) x ys)"
proof (induction es arbitrary: x ys)
  case Nil
  then show ?case by (simp add: disk_after_def)
next
  case (Cons e es)
  show ?case
  proof (cases ys)
    case Nil
    then show ?thesis using Cons.prems(1) by (simp add: disk_after_def)
  next
    case (Cons y zs)
    then show ?thesis using Cons.prems Cons.IH[of "crash_step k x e" zs]
      by (auto simp: disk_after_def crash_step_def)
  qed
qed

subsection \<open>Every part of the adoption keeps the queue explained\<close>

definition ready :: "adoption_env \<Rightarrow> crash \<Rightarrow> adoption \<Rightarrow> bool" where
  "ready env k s \<longleftrightarrow> intact (cs_task k) (ad_task s) \<and> tk_status (ad_task s) = Running
     \<and> same_attempt (ad_attempt s) (first_attempt k)
     \<and> ad_head s = dk_head (cs_disk k) \<and> dk_head (cs_disk k) \<noteq> []
     \<and> ae_digest env = cs_digest k \<and> (ae_new_head env = None \<or> ae_new_head env = Some (cs_new k))"

lemma intact_record_attempt: "intact t0 t \<Longrightarrow> intact t0 (record_attempt h t)"
  by (simp add: record_attempt_def intact_def)

lemma record_attempt_last [simp]: "last (tk_history (record_attempt h t)) = h"
  "tk_status (record_attempt h t) = tk_status t"
  by (simp_all add: record_attempt_def)

lemma intact_finished_task:
  assumes "intact t0 t"
  shows "intact t0 (finished_task st msg h t) \<and> last (tk_history (finished_task st msg h t)) = h"
  using assms by (auto simp: intact_def finished_task_def record_attempt_def Let_def)

lemma finished_task_not_running:
  "final_status st \<Longrightarrow> tk_status (finished_task st msg h t) \<noteq> Running"
  by (auto simp: finished_task_def record_attempt_def final_status_def Let_def)

definition clean :: "crash \<Rightarrow> task \<times> disk \<Rightarrow> bool" where
  "clean k x \<longleftrightarrow> snd x = cs_disk k \<and> dk_working (cs_disk k) = dk_committed (cs_disk k)"

lemma finish_now_always:
  assumes "finish_now env st msg s = (s', stop)" "final_status st" "intact (cs_task k) (ad_task s)"
    "explained k x" "clean k x"
  shows "\<exists>es. adds s s' es \<and> always k x es"
proof (cases "ae_save_ok env Save_result")
  case False
  then have "adds s s' []" using assms(1) by (auto simp: finish_now_def adds_def Let_def)
  then show ?thesis using assms(4) by (metis always.simps(1))
next
  case True
  define h where "h = (ad_attempt s)\<lparr>at_outcome := st, at_note := msg\<rparr>"
  define t where "t = finished_task st msg h (ad_task s)"
  have "adds s s' [Saved t]" using assms(1) True
    by (auto simp: finish_now_def adds_def Let_def h_def t_def)
  moreover have "uncommitted k (t, snd x)"
    using intact_finished_task[OF assms(3), of st msg h] finished_task_not_running[OF assms(2)] assms(5)
    unfolding uncommitted_def t_def[symmetric] clean_def by (auto simp: t_def)
  moreover have "crash_step k x (Saved t) = (t, snd x)" by (cases x) (simp add: crash_step_def)
  ultimately show ?thesis using assms(4) by (intro exI[of _ "[Saved t]"]) (simp add: explained_def)
qed

definition rest_clean :: "crash \<Rightarrow> bool" where
  "rest_clean k \<longleftrightarrow> dk_working (cs_disk k) = dk_committed (cs_disk k)"

lemma crash_step_simps [simp]:
  "crash_step k (t, d) (Saved u) = (u, d)"
  "crash_step k (t, d) (Put f b) = (t, d)"
  "crash_step k (t, d) (Wrote_source b) = (t, d\<lparr>dk_working := b\<rparr>)"
  "crash_step k (t, d) Rolled_back = (t, d\<lparr>dk_working := dk_committed d\<rparr>)"
  "crash_step k (t, d) Staged = (t, d)"
  "crash_step k (t, d\<lparr>dk_working := b\<rparr>) Committed =
     (t, \<lparr>dk_head = cs_new k, dk_parent = dk_head d, dk_message = cs_message k, dk_log = cs_new k # dk_log d,
          dk_files = [cs_target k], dk_committed = b, dk_working = b\<rparr>)"
  by (simp_all add: crash_step_def)

lemma uncommitted_rolled_back:
  assumes "uncommitted k (t, (cs_disk k)\<lparr>dk_working := b\<rparr>)" "rest_clean k"
  shows "uncommitted k (t, cs_disk k)"
proof -
  have "cs_disk k = (cs_disk k)\<lparr>dk_working := dk_committed (cs_disk k)\<rparr>"
    using assms(2) by (simp add: rest_clean_def)
  then show ?thesis using assms by (auto simp: uncommitted_def rest_clean_def Let_def)
qed

lemma rolled_back_disk: "rest_clean k \<Longrightarrow> (cs_disk k)\<lparr>dk_working := dk_committed (cs_disk k)\<rparr> = cs_disk k"
  by (simp add: rest_clean_def)

lemma roll_back_always:
  assumes "uncommitted k (t, (cs_disk k)\<lparr>dk_working := b\<rparr>)" "rest_clean k"
  shows "\<exists>es. adds s (roll_back env s) es \<and> always k (t, (cs_disk k)\<lparr>dk_working := b\<rparr>) es"
proof (cases "rollback_adoption env (ad_attempt s)")
  case True
  then show ?thesis using assms uncommitted_rolled_back[OF assms]
    by (intro exI[of _ "[Rolled_back]"]) (simp add: roll_back_def adds_def explained_def rolled_back_disk)
next
  case False
  then show ?thesis using assms
    by (intro exI[of _ "[]"]) (simp add: roll_back_def adds_def explained_def)
qed

lemma adds_Cons: "adds (emit e s) s' es \<Longrightarrow> adds s s' (e # es)"
  by (simp add: adds_def)

lemma roll_back_and_fail_always:
  assumes "roll_back_and_fail env msg s = (s', stop)" "uncommitted k (t, (cs_disk k)\<lparr>dk_working := b\<rparr>)"
    "rest_clean k" "intact (cs_task k) (ad_task s)"
  shows "\<exists>es. adds s s' es \<and> always k (t, (cs_disk k)\<lparr>dk_working := b\<rparr>) es"
proof (cases "rollback_adoption env (ad_attempt s)")
  case False
  then show ?thesis using assms
    by (intro exI[of _ "[]"]) (simp add: roll_back_and_fail_def adds_def explained_def)
next
  case True
  let ?y = "(t, cs_disk k)"
  have y: "uncommitted k ?y" by (rule uncommitted_rolled_back[OF assms(2,3)])
  have "finish_now env Failed msg (emit Rolled_back s) = (s', stop)"
    using assms(1) True by (simp add: roll_back_and_fail_def)
  then obtain es where "adds (emit Rolled_back s) s' es" "always k ?y es"
    using finish_now_always[of env Failed msg "emit Rolled_back s" s' stop k ?y] y assms(3,4)
    by (auto simp: explained_def clean_def rest_clean_def final_status_def)
  then show ?thesis using assms(2,3)
    by (intro exI[of _ "Rolled_back # es"]) (simp add: adds_Cons explained_def rolled_back_disk)
qed

text \<open>From the journaled bytes to the commit and its record.\<close>

lemma finish_committed_always:
  assumes "finish_now env st msg s = (s', stop)" "st = Done \<or> st = Needs_human \<and> at_partial (ad_attempt s)"
    "intact (cs_task k) (ad_task s)" "explained k (t, committed_disk k b)"
    "at_commit (ad_attempt s) = cs_new k" "at_output_hash (ad_attempt s) = cs_digest k b"
  shows "\<exists>es. adds s s' es \<and> always k (t, committed_disk k b) es"
proof (cases "ae_save_ok env Save_result")
  case False
  then have "adds s s' []" using assms(1) by (auto simp: finish_now_def adds_def Let_def)
  then show ?thesis using assms(4) by (metis always.simps(1))
next
  case True
  define h where "h = (ad_attempt s)\<lparr>at_outcome := st, at_note := msg\<rparr>"
  define u where "u = finished_task st msg h (ad_task s)"
  have "adds s s' [Saved u]" using assms(1) True
    by (auto simp: finish_now_def adds_def Let_def h_def u_def)
  moreover have "intact (cs_task k) u" "last (tk_history u) = h"
    using intact_finished_task[OF assms(3), of st msg h] by (simp_all add: u_def)
  moreover have "tk_status u = st" using assms(2)
    by (auto simp: u_def finished_task_def record_attempt_def Let_def)
  moreover have "dk_working (committed_disk k b) = b" by (simp add: committed_disk_def)
  ultimately have "adds s s' [Saved u]" "committed k (u, committed_disk k b)"
    using assms(2,5,6) by (auto simp: committed_def h_def)
  then show ?thesis using assms(4) by (intro exI[of _ "[Saved u]"]) (simp add: explained_def)
qed

lemma commit_bytes_always:
  assumes run: "commit_bytes env p s = (s', stop)" and r: "ready env k s" "rest_clean k"
    and j: "journaled_attempt k (ad_attempt s) b"
    and u: "uncommitted k (t, (cs_disk k)\<lparr>dk_working := b\<rparr>)"
  shows "\<exists>es. adds s s' es \<and> always k (t, (cs_disk k)\<lparr>dk_working := b\<rparr>) es"
proof -
  let ?d = "(cs_disk k)\<lparr>dk_working := b\<rparr>"
  define s1 where "s1 = on_attempt (\<lambda>h. h\<lparr>at_outcome := Validated, at_note := pr_note p\<rparr>) s"
  define v where "v = record_attempt (ad_attempt s1) (ad_task s1)"
  define s2 where "s2 = s1\<lparr>ad_task := v\<rparr>"
  define s4 where "s4 = emit Staged (emit (Saved v) s2)"
  have e: "ad_effects s2 = ad_effects s" "ad_effects s4 = ad_effects s @ [Saved v, Staged]" "ad_task s2 = v"
      "ad_task s4 = v" "ad_attempt s4 = ad_attempt s1"
    by (simp_all add: s1_def s2_def s4_def)
  have iv: "intact (cs_task k) v" "tk_status v = Running" "last (tk_history v) = ad_attempt s1"
    using r(1) by (auto simp: v_def s1_def ready_def intact_record_attempt)
  have js: "journaled_attempt k (ad_attempt s1) b"
    using j by (auto simp: s1_def journaled_attempt_def same_attempt_def reviewed_ok_def attempt_commit_base_def)
  have uv: "uncommitted k (v, ?d)"
    using iv js u by (auto simp: uncommitted_def journaled_attempt_def)
  have cv: "committed k (v, committed_disk k b)"
    using iv js by (auto simp: committed_def committed_disk_def s1_def)
  have step: "crash_step k (v, ?d) Committed = (v, committed_disk k b)"
    by (simp add: committed_disk_def)
  have done_part: "\<exists>es. adds s s' es \<and> always k (t, ?d) es"
    if "adds s4 s' es" "always k (v, ?d) es" for es
    using that e(2) uv u by (intro exI[of _ "Saved v # Staged # es"]) (simp add: adds_def explained_def)
  have made: ?thesis if "adds (emit Committed s4) s' es" "always k (v, committed_disk k b) es" for es
    using done_part[of "Committed # es"] that uv step by (simp add: adds_Cons explained_def)
  have run': "(s', stop) =
    (if \<not> ae_save_ok env Save_validated then (roll_back env s2, Some Save_failed)
     else if \<not> ae_add_ok env then roll_back_and_fail env ''git add failed'' (emit (Saved v) s2)
     else (case ae_commit env of
            Commit_failed \<Rightarrow> (s4, Some Commit_unconfirmed)
          | Commit_failed_made \<Rightarrow> (emit Committed s4, Some Commit_unconfirmed)
          | Commit_ok \<Rightarrow>
              (case ae_new_head env of
                 None \<Rightarrow> (emit Committed s4, Some Head_unreadable)
               | Some c \<Rightarrow>
                   let s5 = (on_attempt (\<lambda>h. h\<lparr>at_commit := c\<rparr>) (emit Committed s4))\<lparr>ad_head := c\<rparr>
                   in if at_partial (ad_attempt s5) then finish_now env Needs_human (pr_note p) s5
                      else finish_now env Done (pr_note p) s5)))"
    using run unfolding commit_bytes_def Let_def s1_def[symmetric] v_def[symmetric] s2_def[symmetric]
      s4_def[symmetric] by simp
  consider "\<not> ae_save_ok env Save_validated" | "ae_save_ok env Save_validated" "\<not> ae_add_ok env"
    | "ae_save_ok env Save_validated" "ae_add_ok env" by blast
  then show ?thesis
  proof cases
    case 1
    then have "s' = roll_back env s2" using run' by simp
    then show ?thesis using roll_back_always[OF u r(2), of s2 env] e(1) by (simp add: adds_def)
  next
    case 2
    then have "roll_back_and_fail env ''git add failed'' (emit (Saved v) s2) = (s', stop)" using run' by simp
    then obtain es where "adds (emit (Saved v) s2) s' es" "always k (v, ?d) es"
      using roll_back_and_fail_always[OF _ uv r(2)] iv(1) e(3) by fastforce
    then show ?thesis using u e(1)
      by (intro exI[of _ "Saved v # es"]) (simp add: adds_def explained_def)
  next
    case 3
    note run3 = run'[simplified 3 if_True simp_thms if_False]
    show ?thesis
    proof (cases "ae_commit env")
      case Commit_failed
      then show ?thesis using run3 done_part[of "[]"] uv by (simp add: adds_def explained_def)
    next
      case Commit_failed_made
      then show ?thesis using run3 made[of "[]"] cv by (simp add: adds_def explained_def)
    next
      case Commit_ok
      show ?thesis
      proof (cases "ae_new_head env")
        case None
        then show ?thesis using run3 Commit_ok made[of "[]"] cv by (simp add: adds_def explained_def)
      next
        case (Some c)
        define s5 where "s5 = (on_attempt (\<lambda>h. h\<lparr>at_commit := c\<rparr>) (emit Committed s4))\<lparr>ad_head := c\<rparr>"
        have c: "c = cs_new k" using r(1) Some by (auto simp: ready_def)
        have s5: "ad_effects s5 = ad_effects (emit Committed s4)" "ad_task s5 = v"
            "at_commit (ad_attempt s5) = cs_new k" "at_output_hash (ad_attempt s5) = cs_digest k b"
            "at_partial (ad_attempt s5) = at_partial (ad_attempt s1)"
          using e js c by (auto simp: s5_def journaled_attempt_def)
        obtain st where st: "finish_now env st (pr_note p) s5 = (s', stop)"
            "st = Done \<or> st = Needs_human \<and> at_partial (ad_attempt s5)"
          using run3 Commit_ok Some unfolding s5_def Let_def by (auto split: if_splits)
        obtain es where "adds s5 s' es" "always k (v, committed_disk k b) es"
          using finish_committed_always[OF st, of k v b] iv(1) s5 cv by (auto simp: explained_def)
        then show ?thesis using made s5(1) by (simp add: adds_def)
      qed
    qed
  qed
qed

lemma uncommitted_written:
  assumes "ready env k s" "last (tk_history (ad_task s)) = ad_attempt s"
    "b = dk_committed (cs_disk k) \<or> attempt_commit_base (ad_attempt s) = dk_head (cs_disk k)
       \<and> cs_digest k b = at_output_hash (ad_attempt s)"
  shows "uncommitted k (ad_task s, (cs_disk k)\<lparr>dk_working := b\<rparr>)"
  using assms by (auto simp: uncommitted_def ready_def)

lemma uncommitted_start:
  assumes "ready env k s" "last (tk_history (ad_task s)) = ad_attempt s" "rest_clean k"
  shows "uncommitted k (ad_task s, cs_disk k)"
  using uncommitted_written[OF assms(1,2), of "dk_committed (cs_disk k)"] assms(3)
  by (simp add: rolled_back_disk)

lemma write_bytes_always:
  assumes run: "write_bytes env p validated after s = (s', stop)" and r: "ready env k s" "rest_clean k"
    and h: "at_output_hash (ad_attempt s) = cs_digest k after" "reviewed_ok (cs_state k) (ad_attempt s)"
      "attempt_commit_base (ad_attempt s) = dk_head (cs_disk k)"
      "last (tk_history (ad_task s)) = ad_attempt s"
  shows "\<exists>es. adds s s' es \<and> always k (ad_task s, cs_disk k) es"
proof -
  let ?t = "ad_task s" and ?d = "(cs_disk k)\<lparr>dk_working := after\<rparr>"
  have x0: "uncommitted k (?t, cs_disk k)" by (rule uncommitted_start[OF r(1) h(4) r(2)])
  have x1: "uncommitted k (?t, ?d)" using uncommitted_written[OF r(1) h(4)] h(1,3) by simp
  have it: "intact (cs_task k) ?t" using r(1) by (simp add: ready_def)
  define s1 where "s1 = emit (Wrote_source after) s"
  define s2 where "s2 = on_attempt (\<lambda>h. h\<lparr>at_diff_path := at_id h @ ''.diff''\<rparr>) s1"
  define s3 where "s3 = (\<lambda>d. on_attempt (\<lambda>h. h\<lparr>at_checks := check_written env validated h\<rparr>)
                         (emit (Put Diff_file d) s2))"
  have e: "ad_effects s1 = ad_effects s @ [Wrote_source after]" "ad_effects s2 = ad_effects s1"
      "ad_effects (s3 d) = ad_effects s1 @ [Put Diff_file d]"
      "ad_task s1 = ?t" "ad_task s2 = ?t" "ad_task (s3 d) = ?t" for d
    by (simp_all add: s1_def s2_def s3_def)
  have r3: "ready env k (s3 d)" for d
    using r(1) by (auto simp: ready_def s3_def s2_def s1_def same_attempt_def)
  have finish: ?thesis if "finish_now env st msg s = (s', stop)" "final_status st" for st msg
    using finish_now_always[OF that it, of "(?t, cs_disk k)"] x0 r(2)
    by (auto simp: explained_def clean_def rest_clean_def)
  have written: ?thesis if "adds s1 s' es" "always k (?t, ?d) es" for es
    using that x0 by (intro exI[of _ "Wrote_source after # es"]) (simp add: adds_Cons s1_def explained_def)
  have diffed: ?thesis if "adds (s3 d) s' es" "always k (?t, ?d) es" for d es
    using written[of "Put Diff_file d # es"] that x1 e(3)[of d] by (simp add: adds_def explained_def)
  have run': "(s', stop) =
    (if \<not> ae_path_ok env then finish_now env Needs_human ''unsafe path'' s
      else if map_option (ae_digest env) (ae_source_now env) \<noteq> Some (at_input_hash (ad_attempt s))
        then finish_now env Needs_human ''the file changed during the run'' s
      else if \<not> ae_stat_ok env then (s, Some Stat_failed)
      else if \<not> ae_write_ok env then (s, Some Write_failed)
      else
        case ae_diff env of
          None \<Rightarrow> roll_back_and_fail env ''no difference'' s1
        | Some d \<Rightarrow>
            if \<not> ae_file_ok env Diff_file then (roll_back env s2, Some File_failed)
            else if \<not> checks_pass (at_checks (ad_attempt (s3 d))) \<or> ae_stopped_after env
                 then roll_back_and_fail env (check_summary (at_checks (ad_attempt (s3 d)))) (s3 d)
                 else commit_bytes env p (s3 d))"
    using run unfolding write_bytes_def Let_def s1_def[symmetric] s2_def[symmetric] s3_def by simp
  show ?thesis
  proof (cases "ae_path_ok env \<and> map_option (ae_digest env) (ae_source_now env) = Some (at_input_hash (ad_attempt s))
      \<and> ae_stat_ok env \<and> ae_write_ok env")
    case False
    then have "(\<exists>msg. finish_now env Needs_human msg s = (s', stop)) \<or> s' = s"
      using run' by (auto split: if_splits)
    moreover have "final_status Needs_human" by (simp add: final_status_def)
    moreover have "?thesis" if "s' = s"
      using that x0 by (intro exI[of _ "[]"]) (simp add: adds_def explained_def)
    ultimately show ?thesis using finish by blast
  next
    case True
    then have w: "(s', stop) = (case ae_diff env of
          None \<Rightarrow> roll_back_and_fail env ''no difference'' s1
        | Some d \<Rightarrow>
            if \<not> ae_file_ok env Diff_file then (roll_back env s2, Some File_failed)
            else if \<not> checks_pass (at_checks (ad_attempt (s3 d))) \<or> ae_stopped_after env
                 then roll_back_and_fail env (check_summary (at_checks (ad_attempt (s3 d)))) (s3 d)
                 else commit_bytes env p (s3 d))"
      using run' by simp
    show ?thesis
    proof (cases "ae_diff env")
      case None
      then have "roll_back_and_fail env ''no difference'' s1 = (s', stop)" using w by simp
      then obtain es where "adds s1 s' es" "always k (?t, ?d) es"
        using roll_back_and_fail_always[OF _ x1 r(2)] it e(4) by metis
      then show ?thesis by (rule written)
    next
      case (Some d)
      consider "\<not> ae_file_ok env Diff_file" | "roll_back_and_fail env (check_summary (at_checks (ad_attempt (s3 d)))) (s3 d) = (s', stop)"
        | "checks_pass (at_checks (ad_attempt (s3 d)))" "commit_bytes env p (s3 d) = (s', stop)"
        using w Some by (auto split: if_splits)
      then show ?thesis
      proof cases
        case 1
        then have "s' = roll_back env s2" using w Some by simp
        then obtain es where "adds s2 s' es" "always k (?t, ?d) es"
          using roll_back_always[OF x1 r(2)] by metis
        then show ?thesis using written e(2) by (simp add: adds_def)
      next
        case 2
        then show ?thesis
          using roll_back_and_fail_always[OF 2 x1 r(2)] it e(6)[of d] diffed[of d] by metis
      next
        case 3
        have "journaled_attempt k (ad_attempt (s3 d)) after"
          using 3(1) h(1-3) r(1) by (auto simp: journaled_attempt_def s3_def s2_def s1_def ready_def
              same_attempt_def reviewed_ok_def attempt_commit_base_def)
        then show ?thesis using commit_bytes_always[OF 3(2) r3 r(2) _ x1] diffed[of d] by metis
      qed
    qed
  qed
qed

lemma finish_at_rest:
  assumes "finish_now env st msg s = (s', stop)" "final_status st" "intact (cs_task k) (ad_task s)"
    "uncommitted k (t, cs_disk k)" "rest_clean k"
  shows "\<exists>es. adds s s' es \<and> always k (t, cs_disk k) es"
  using finish_now_always[OF assms(1-3), of "(t, cs_disk k)"] assms(4,5)
  by (simp add: explained_def clean_def rest_clean_def)

lemma adopt_bytes_always:
  assumes run: "adopt_bytes env p validated after s = (s', stop)" and r: "ready env k s" "rest_clean k"
    and t: "uncommitted k (t, cs_disk k)"
    and ok: "rs_last_candidate (cs_state k) = None \<or> passed_independent_review (rs_last_candidate (cs_state k))
        (at_input_hash (ad_attempt s)) (cs_digest k after) (rs_plan (cs_state k))"
  shows "\<exists>es. adds s s' es \<and> always k (t, cs_disk k) es"
proof -
  define s1 where "s1 = on_attempt (\<lambda>h. h\<lparr>at_commit_base := ad_head s, at_output_hash := ae_digest env after\<rparr>) s"
  define v where "v = record_attempt (ad_attempt s1) (ad_task s1)"
  define s2 where "s2 = (emit (Put After_file after) s1)\<lparr>ad_task := v\<rparr>"
  define s3 where "s3 = emit (Saved v) s2"
  have e: "ad_effects s2 = ad_effects s @ [Put After_file after]" "ad_task s3 = v"
      "ad_effects s3 = ad_effects s @ [Put After_file after, Saved v]" "ad_attempt s3 = ad_attempt s1"
      "last (tk_history v) = ad_attempt s1"
    by (simp_all add: s1_def s2_def s3_def v_def)
  have r3: "ready env k s3"
    using r(1) by (auto simp: ready_def s3_def s2_def s1_def v_def same_attempt_def intact_record_attempt)
  have h3: "at_output_hash (ad_attempt s3) = cs_digest k after" "reviewed_ok (cs_state k) (ad_attempt s3)"
      "attempt_commit_base (ad_attempt s3) = dk_head (cs_disk k)"
    using r(1) ok by (auto simp: e s1_def ready_def reviewed_ok_def attempt_commit_base_def)
  have run': "(s', stop) =
    (if \<not> worktree_as_accepted s (ae_adopt_head env) (ae_adopt_changed env)
       then finish_now env Needs_human ''unexpected changes in the working copy'' s
     else if \<not> ae_file_ok env After_file then (s1, Some File_failed)
     else if \<not> ae_save_ok env Save_intent then (s2, Some Save_failed)
     else write_bytes env p validated after s3)"
    using run unfolding adopt_bytes_def Let_def s1_def[symmetric] v_def[symmetric] s2_def[symmetric]
      s3_def[symmetric] by simp
  consider "finish_now env Needs_human ''unexpected changes in the working copy'' s = (s', stop)"
    | "s' = s1" | "s' = s2" | "write_bytes env p validated after s3 = (s', stop)"
    using run' by (auto split: if_splits)
  then show ?thesis
  proof cases
    case 1
    then show ?thesis using finish_at_rest[OF 1 _ _ t r(2)] r(1) by (simp add: final_status_def ready_def)
  next
    case 2
    then show ?thesis using t by (intro exI[of _ "[]"]) (simp add: adds_def s1_def explained_def)
  next
    case 3
    then show ?thesis using t e(1)
      by (intro exI[of _ "[Put After_file after]"]) (simp add: adds_def explained_def)
  next
    case 4
    obtain es where "adds s3 s' es" "always k (v, cs_disk k) es"
      using write_bytes_always[OF 4 r3 r(2) h3] e by auto
    then show ?thesis using t e(3)
      by (intro exI[of _ "Put After_file after # Saved v # es"]) (simp add: adds_def explained_def)
  qed
qed

lemma adopt_unchanged_always:
  assumes run: "adopt_unchanged env p s = (s', stop)" and i: "intact (cs_task k) (ad_task s)" "rest_clean k"
    and t: "uncommitted k (t, cs_disk k)"
  shows "\<exists>es. adds s s' es \<and> always k (t, cs_disk k) es"
proof -
  define cand where "cand = rs_last_candidate (ch_state (ae_checkpoint env))"
  define s1 where "s1 = on_attempt (\<lambda>h. h\<lparr>at_output_hash := at_input_hash h,
              at_checks := [\<lparr>ck_name = ''independent review'', ck_status = C_passed,
                 ck_detail = rv_summary (the (ca_review (the cand)))\<rparr>]\<rparr>) s"
  define s2 where "s2 = on_attempt (\<lambda>h. h\<lparr>at_diff_path := at_id h @ ''.diff''\<rparr>)
               (emit (Put Diff_file []) (emit (Put After_file (ae_before env)) s1))"
  have e: "ad_effects s1 = ad_effects s" "ad_task s2 = ad_task s"
      "ad_effects s2 = ad_effects s @ [Put After_file (ae_before env), Put Diff_file []]"
    by (simp_all add: s1_def s2_def)
  have "(\<exists>st msg. final_status st \<and> finish_now env st msg s = (s', stop)) \<or> s' = s1
      \<or> s' = emit (Put After_file (ae_before env)) s1 \<or> finish_now env Skipped (pr_note p) s2 = (s', stop)"
    using run unfolding adopt_unchanged_def Let_def cand_def[symmetric] s1_def[symmetric] s2_def[symmetric]
    by (auto simp: final_status_def split: if_splits)
  then consider st msg where "final_status st" "finish_now env st msg s = (s', stop)" | "s' = s1"
    | "s' = emit (Put After_file (ae_before env)) s1" | "finish_now env Skipped (pr_note p) s2 = (s', stop)"
    by blast
  then show ?thesis
  proof cases
    case 1
    then show ?thesis using finish_at_rest[OF 1(2,1) i(1) t i(2)] by simp
  next
    case 2
    then show ?thesis using t by (intro exI[of _ "[]"]) (simp add: adds_def s1_def explained_def)
  next
    case 3
    then show ?thesis using t e(1)
      by (intro exI[of _ "[Put After_file (ae_before env)]"]) (simp add: adds_def explained_def)
  next
    case 4
    obtain es where "adds s2 s' es" "always k (t, cs_disk k) es"
      using finish_at_rest[OF 4 _ _ t i(2)] i(1) e(2) by (auto simp: final_status_def)
    then show ?thesis using t e(3)
      by (intro exI[of _ "Put After_file (ae_before env) # Put Diff_file [] # es"])
        (simp add: adds_def explained_def)
  qed
qed

lemma confirm_candidate_reviewed:
  assumes "confirm_candidate env p h after = None"
  shows "passed_independent_review (rs_last_candidate (ch_state (ae_checkpoint env))) (at_input_hash h)
    (ae_digest env after) (rs_plan (ch_state (ae_checkpoint env)))"
  using assms by (auto simp: confirm_candidate_def Let_def split: option.splits if_splits)

lemma adopt_modified_always:
  assumes run: "adopt_modified env p s = (s', stop)" and r: "ready env k s" "rest_clean k"
    and t: "uncommitted k (t, cs_disk k)" and c: "cs_state k = ch_state (ae_checkpoint env)"
    and id: "pr_candidate_id p \<noteq> [] \<or> rs_last_candidate (cs_state k) = None"
  shows "\<exists>es. adds s s' es \<and> always k (t, cs_disk k) es"
proof -
  have finish: ?thesis if "finish_now env st msg s0 = (s', stop)" "final_status st"
      "ad_task s0 = ad_task s" "ad_effects s0 = ad_effects s" for st msg s0
    using finish_at_rest[OF that(1,2) _ t r(2)] r(1) that(3,4) by (simp add: ready_def adds_def)
  have fs: "final_status Needs_human" "final_status Failed" by (simp_all add: final_status_def)
  show ?thesis
  proof (cases "\<exists>st msg s0. finish_now env st msg s0 = (s', stop) \<and> final_status st
      \<and> ad_task s0 = ad_task s \<and> ad_effects s0 = ad_effects s")
    case True
    then show ?thesis using finish by blast
  next
    case False
    then have no: "finish_now env st msg s0 \<noteq> (s', stop)"
      if "final_status st" "ad_task s0 = ad_task s" "ad_effects s0 = ad_effects s" for st msg s0
      using that by blast
    obtain after_text where a: "apply_edits (doc_text (ae_document env)) (pr_edits p) = Inr after_text"
      using run no[OF fs(2)] by (fastforce simp: adopt_modified_def split: sum.splits)
    obtain after where b: "encode_edits (ae_codec env) (ae_document env) after_text (pr_edits p) = Inr after"
      using run no[OF fs(2)] a by (fastforce simp: adopt_modified_def split: sum.splits)
    show ?thesis
    proof (cases "pr_candidate_id p = []")
      case True
      then have "adopt_bytes env p False after s = (s', stop)"
        using run a b by (simp add: adopt_modified_def)
      then show ?thesis using adopt_bytes_always[OF _ r t] id True by simp
    next
      case False
      define c where "c = the (rs_last_candidate (ch_state (ae_checkpoint env)))"
      define s1 where "s1 = on_attempt (\<lambda>h. h\<lparr>at_partial := (rv_verdict (the (ca_review c)) = V_passed_with_holds)\<rparr>) s"
      define s2 where "s2 = on_attempt (\<lambda>h. h\<lparr>at_checks := cv_checks (ca_result c)\<rparr>) s1"
      have e: "ad_task s1 = ad_task s" "ad_effects s1 = ad_effects s" "ad_effects s2 = ad_effects s"
          "at_input_hash (ad_attempt s2) = at_input_hash (ad_attempt s)"
        by (simp_all add: s1_def s2_def)
      have r2: "ready env k s2"
        using r(1) by (auto simp: ready_def s2_def s1_def same_attempt_def)
      have run': "(s', stop) =
        (case confirm_candidate env p (ad_attempt s) after of
            Some msg \<Rightarrow> finish_now env Needs_human msg s
          | None \<Rightarrow> if \<not> settings_unchanged env
                 then finish_now env Needs_human ''rules or settings changed after validation'' s1
                 else if \<not> worktree_as_accepted s1 (ae_review_head env) (ae_review_changed env)
                 then finish_now env Needs_human ''the working copy changed after validation'' s1
                 else adopt_bytes env p True after s2)"
        using run a b False unfolding adopt_modified_def c_def[symmetric] Let_def s1_def[symmetric]
          s2_def[symmetric] by simp
      have ok: "confirm_candidate env p (ad_attempt s) after = None"
        using run' no[OF fs(1), of s] by (auto split: option.splits)
      have "adopt_bytes env p True after s2 = (s', stop)"
        using run' ok no[OF fs(1) e(1,2)] by (auto split: if_splits)
      moreover have "ae_digest env = cs_digest k" using r(1) by (simp add: ready_def)
      ultimately show ?thesis
        using adopt_bytes_always[OF _ r2 r(2) t] confirm_candidate_reviewed[OF ok] e assms(5)
        by (auto simp: adds_def)
    qed
  qed
qed

lemma adopt_always:
  assumes run: "adopt env p s = (s', stop)" and r: "ready env k s" "rest_clean k"
    and t: "uncommitted k (t, cs_disk k)" and c: "cs_state k = ch_state (ae_checkpoint env)"
    and id: "pr_candidate_id p \<noteq> [] \<or> rs_last_candidate (cs_state k) = None"
  shows "\<exists>es. adds s s' es \<and> always k (t, cs_disk k) es"
proof -
  have i: "intact (cs_task k) (ad_task s)" using r(1) by (simp add: ready_def)
  have "adopt_modified env p s = (s', stop) \<or> adopt_unchanged env p s = (s', stop) \<or>
      (\<exists>st msg. final_status st \<and> finish_now env st msg s = (s', stop))"
    using run by (auto simp: adopt_def final_status_def split: if_splits outcome_kind.splits)
  then show ?thesis
    using adopt_modified_always[OF _ r t c id] adopt_unchanged_always[OF _ i r(2) t]
      finish_at_rest[OF _ _ i t r(2)] by blast
qed

subsection \<open>Recovery of an explained working copy\<close>

text \<open>
  What git shows of a disk: the tip, the commits since the base, which files differ from the tip,
  and the target in the tip and in the working copy. A hard reset followed by a clean leaves the
  content of the tip.
\<close>

definition git_shows :: "'w git \<Rightarrow> session \<Rightarrow> string \<Rightarrow> string list \<Rightarrow> disk \<Rightarrow> 'w \<Rightarrow> bool" where
  "git_shows g se f bases d w \<longleftrightarrow>
     gi_head g w = Some (dk_head d) \<and> gi_parent g w = Some (dk_parent d) \<and> gi_message g w = Some (dk_message d)
     \<and> list_all (\<lambda>b. gi_ancestor g w b (dk_head d)) bases
     \<and> gi_log g w (se_base_commit se) (dk_head d) = Some (dk_log d)
     \<and> gi_log g w (se_base_commit se) ''HEAD'' = Some (dk_log d)
     \<and> gi_changed g w = Some (if dk_working d = dk_committed d then [] else [target_path se f])
     \<and> gi_commit_files g w (dk_head d) = Some (dk_files d)
     \<and> read_snapshot_file g w (dk_head d) (target_path se f) = Some (dk_committed d)
     \<and> gi_path_ok g w f \<and> gi_read g w (target_path se f) = Some (dk_working d)"

definition git_resets :: "'w git \<Rightarrow> session \<Rightarrow> string \<Rightarrow> string list \<Rightarrow> bool" where
  "git_resets g se f bases \<longleftrightarrow> (\<forall>d w. git_shows g se f bases d w \<longrightarrow>
     snd (gi_reset g w (dk_head d)) \<and> snd (gi_clean g (fst (gi_reset g w (dk_head d))))
     \<and> git_shows g se f bases (d\<lparr>dk_working := dk_committed d\<rparr>) (fst (gi_clean g (fst (gi_reset g w (dk_head d))))))"

definition idle :: "task list \<Rightarrow> bool" where
  "idle ts \<longleftrightarrow> list_all (\<lambda>t. tk_status t \<noteq> Running) ts"

lemma recover_tasks_idle [simp]:
  "idle ts \<Longrightarrow> recover_tasks g se head message ts w ar = (ar, Inr (ts, []))"
  by (induction ts) (auto simp: idle_def recover_task_def)

lemma recover_tasks_one:
  assumes "idle pre" "idle post" "recover_task g se head message t w ar = (ar', Inr (t', ks))"
  shows "recover_tasks g se head message (pre @ t # post) w ar = (ar', Inr (pre @ t' # post, ks))"
  using assms by (induction pre) (auto simp: idle_def recover_task_def)

lemma running_attempt_idle: "tk_status t \<noteq> Running \<Longrightarrow> running_attempt t = None"
  by (simp add: running_attempt_def)

lemma find_owner:
  assumes "idle pre" "owns_change se head file t"
  shows "find (owns_change se head file) (pre @ t # post) = Some t"
  using assms by (induction pre) (auto simp: idle_def owns_change_def running_attempt_idle)

lemma known_commits_split:
  "set (known_commits (pre @ t # post)) = set (known_commits pre) \<union> set (known_commits [t]) \<union> set (known_commits post)"
  by (auto simp: known_commits_def)

lemma known_commits_intact:
  assumes "intact t0 t" "tk_history t0 \<noteq> []" "at_commit (last (tk_history t0)) = []"
  shows "set (known_commits [t0]) \<subseteq> set (known_commits [t])"
proof -
  have "tk_history t0 = butlast (tk_history t0) @ [last (tk_history t0)]"
      "tk_history t = butlast (tk_history t0) @ [last (tk_history t)]"
    using assms by (simp_all add: intact_def) (metis append_butlast_last_id)
  then obtain hs h h' where "tk_history t0 = hs @ [h]" "tk_history t = hs @ [h']" "at_commit h = []"
    using assms(3) by metis
  then show ?thesis using assms(1) by (auto simp: known_commits_def intact_def)
qed

lemma known_commits_last:
  "tk_history t \<noteq> [] \<Longrightarrow> at_commit (last (tk_history t)) = c \<Longrightarrow> c \<noteq> [] \<Longrightarrow> c \<in> set (known_commits [t])"
  by (auto simp: known_commits_def intro!: image_eqI[of _ _ "last (tk_history t)"])

lemma find_none: "set cs \<subseteq> set ks \<Longrightarrow> find (\<lambda>c. c \<notin> set ks) cs = None"
  by (auto simp: find_None_iff)

lemma load_same:
  "at_id h = at_id k \<Longrightarrow> at_repair_path h = at_repair_path k \<Longrightarrow>
    load_repair_checkpoint dg ar queue h = load_repair_checkpoint dg ar queue k"
  by (simp only: load_repair_checkpoint_def)

lemma save_reviews_writable:
  "\<exists>ar' refs. save_reviews dg (\<lambda>_. True) path rs ar = (ar', Some refs)"
proof (induction rs arbitrary: ar)
  case (Cons r rs)
  obtain ar' refs where "save_reviews dg (\<lambda>_. True) path rs
      (ar\<lparr>ar_reviews := (ar_reviews ar)(review_record_path path (dg (rv_id r)) \<mapsto> r)\<rparr>) = (ar', Some refs)"
    using Cons.IH by metis
  then show ?case by (simp add: Let_def)
qed simp

lemma save_checkpoint_writable:
  assumes "\<forall>p. writable p" "load_repair_checkpoint dg ar queue h = Inr (Some c)" "ch_attempt_id c' = ch_attempt_id c"
  shows "\<exists>ar' path. save_repair_checkpoint dg writable queue c' ar = (ar', Inr path)"
proof -
  obtain path where "repair_path queue (ch_attempt_id c) = Inr path"
    using assms(2) by (auto simp: load_repair_checkpoint_def Let_def
        split: if_splits sum.splits option.splits prod.splits)
  moreover have "writable = (\<lambda>_. True)" using assms(1) by auto
  moreover obtain ar' refs where "save_reviews dg (\<lambda>_. True) path (rs_reviews (ch_state c')) ar = (ar', Some refs)"
    using save_reviews_writable by metis
  ultimately show ?thesis using assms(1,3) by (simp add: save_repair_checkpoint_def)
qed

text \<open>The queue, the checkpoint and the git facts recovery starts from.\<close>

definition checkpoint_kept :: "session \<Rightarrow> artifacts \<Rightarrow> crash \<Rightarrow> bool" where
  "checkpoint_kept se ar k \<longleftrightarrow> (\<forall>p. se_writable se p)
     \<and> (at_repair_path (first_attempt k) = [] \<or>
        (\<exists>c. load_repair_checkpoint (se_digest se) ar (se_queue se) (first_attempt k) = Inr (Some c)
           \<and> ch_state c = cs_state k))"

definition crash_queue :: "session \<Rightarrow> artifacts \<Rightarrow> crash \<Rightarrow> task list \<Rightarrow> task list \<Rightarrow> bool" where
  "crash_queue se ar k pre post \<longleftrightarrow> idle pre \<and> idle post \<and> checkpoint_kept se ar k
     \<and> cs_digest k = se_digest se \<and> (\<forall>b. se_digest se b \<noteq> [])
     \<and> cs_target k = target_path se (tk_file (cs_task k))
     \<and> tk_history (cs_task k) \<noteq> [] \<and> at_commit (first_attempt k) = []
     \<and> set (dk_log (cs_disk k)) \<subseteq> set (known_commits (pre @ cs_task k # post))
     \<and> str_index (dk_message (cs_disk k)) (attempt_marker (first_attempt k)) = None
     \<and> str_index (cs_message k) (attempt_marker (first_attempt k)) \<noteq> None
     \<and> immutable_commit_id (at_base_commit (first_attempt k))
     \<and> se_digest se (dk_committed (cs_disk k)) = at_input_hash (first_attempt k)
     \<and> cs_new k \<noteq> [] \<and> cs_new k \<noteq> dk_head (cs_disk k)"

definition crash_bases :: "session \<Rightarrow> crash \<Rightarrow> string list" where
  "crash_bases se k = [se_base_commit se, at_base_commit (first_attempt k)]"

lemma resets:
  assumes "git_resets g se f bases" "git_shows g se f bases d w"
  obtains w1 w2 where "gi_reset g w (dk_head d) = (w1, True)" "gi_clean g w1 = (w2, True)"
    "git_shows g se f bases (d\<lparr>dk_working := dk_committed d\<rparr>) w2"
proof
  show "gi_reset g w (dk_head d) = (fst (gi_reset g w (dk_head d)), True)"
    "gi_clean g (fst (gi_reset g w (dk_head d))) = (fst (gi_clean g (fst (gi_reset g w (dk_head d)))), True)"
    "git_shows g se f bases (d\<lparr>dk_working := dk_committed d\<rparr>) (fst (gi_clean g (fst (gi_reset g w (dk_head d)))))"
    using assms unfolding git_resets_def by (metis prod.collapse)+
qed

lemma take_back_restores:
  assumes sh: "git_shows g se f bases d w" and rs: "git_resets g se f bases" and f: "tk_file t = f"
    and h: "se_digest se (dk_working d) = at_output_hash (last (tk_history t))"
  shows "\<exists>w'. take_back g se (dk_head d) t w = (w', None)
    \<and> git_shows g se f bases (d\<lparr>dk_working := dk_committed d\<rparr>) w'"
proof -
  obtain w1 w2 where "gi_reset g w (dk_head d) = (w1, True)" "gi_clean g w1 = (w2, True)"
      "git_shows g se f bases (d\<lparr>dk_working := dk_committed d\<rparr>) w2"
    using resets[OF rs sh] by metis
  then show ?thesis using sh h f
    by (auto simp: take_back_def rollback_def git_shows_def Let_def)
qed

lemma pending_write_taken_back:
  assumes sh: "git_shows g se f bases d w" "se_base_commit se \<in> set bases" and rs: "git_resets g se f bases"
    and q: "idle pre" "tk_file t = f" and known: "set (dk_log d) \<subseteq> set (known_commits (pre @ t # post))"
    and owner: "dk_working d = dk_committed d \<or> tk_status t = Running \<and> tk_history t \<noteq> []
      \<and> attempt_commit_base (last (tk_history t)) = dk_head d
      \<and> se_digest se (dk_working d) = at_output_hash (last (tk_history t))"
  shows "\<exists>w'. recover_pending_write g se (pre @ t # post) (dk_head d) msg w = (w', None)
    \<and> git_shows g se f bases (d\<lparr>dk_working := dk_committed d\<rparr>) w'"
proof -
  have base: "gi_ancestor g w (se_base_commit se) (dk_head d)"
      "gi_log g w (se_base_commit se) (dk_head d) = Some (dk_log d)"
    using sh by (auto simp: git_shows_def list_all_iff)
  have log_ok: "find (\<lambda>c. c \<notin> set (known_commits (pre @ t # post) @ ks)) (dk_log d) = None" for ks
    using known by (intro find_none) auto
  show ?thesis
  proof (cases "dk_working d = dk_committed d")
    case True
    then have "gi_changed g w = Some []" using sh(1) by (simp add: git_shows_def)
    moreover have "d\<lparr>dk_working := dk_committed d\<rparr> = d" using True by simp
    ultimately show ?thesis
      using sh(1) base log_ok unfolding recover_pending_write_def Let_def
      by (intro exI[of _ w]) (simp only: option.case list.case if_True if_False simp_thms)
  next
    case False
    then have ch: "gi_changed g w = Some [target_path se f]" using sh(1) by (simp add: git_shows_def)
    have "owns_change se (dk_head d) (target_path se f) t"
      using owner False q(2) by (simp add: owns_change_def running_attempt_def)
    then have fo: "find (owns_change se (dk_head d) (target_path se f)) (pre @ t # post) = Some t"
      by (rule find_owner[OF q(1)])
    have "se_digest se (dk_working d) = at_output_hash (last (tk_history t))" using owner False by simp
    then obtain w' where "take_back g se (dk_head d) t w = (w', None)"
        "git_shows g se f bases (d\<lparr>dk_working := dk_committed d\<rparr>) w'"
      using take_back_restores[OF sh(1) rs q(2)] by metis
    then show ?thesis
      using base log_ok ch fo unfolding recover_pending_write_def Let_def
      by (intro exI[of _ w']) (simp only: option.case list.case if_True if_False simp_thms)
  qed
qed

lemma interrupt_attempt_succeeds:
  assumes sh: "git_shows g se (tk_file t) (crash_bases se k) d w"
    and h: "same_attempt h (first_attempt k)" "tk_history t \<noteq> []"
    and q: "checkpoint_kept se ar k" "immutable_commit_id (at_base_commit (first_attempt k))"
      "se_digest se (dk_committed d) = at_input_hash (first_attempt k)"
  shows "\<exists>ar' t'. interrupt_attempt g se (dk_head d) t h w ar = (ar', Inr t') \<and> tk_status t' = Needs_human
    \<and> at_outcome (last (tk_history t')) = Interrupted \<and> intact t t'"
proof -
  have load: "load_repair_checkpoint (se_digest se) ar (se_queue se) h
      = load_repair_checkpoint (se_digest se) ar (se_queue se) (first_attempt k)"
    using h(1) by (intro load_same) (auto simp: same_attempt_def)
  have pre: "immutable_commit_id (at_base_commit h)" "gi_ancestor g w (at_base_commit h) (dk_head d)"
      "source_matches g se (dk_head d) t h w"
    using sh h(1) q(2,3) by (auto simp: same_attempt_def git_shows_def crash_bases_def source_matches_def)
  show ?thesis
  proof (cases "at_repair_path (first_attempt k) = []")
    case True
    then have "load_repair_checkpoint (se_digest se) ar (se_queue se) h = Inr None"
      using load by (simp add: load_repair_checkpoint_def)
    then show ?thesis using pre h(2)
      by (auto simp: interrupt_attempt_def record_attempt_def intact_def)
  next
    case False
    then obtain c where c: "load_repair_checkpoint (se_digest se) ar (se_queue se) h = Inr (Some c)"
      using q(1) load by (auto simp: checkpoint_kept_def)
    let ?c1 = "c\<lparr>ch_state := stopped_state (se_now se) (ch_state c)\<rparr>"
    obtain ar' path where "save_repair_checkpoint (se_digest se) (se_writable se) (se_queue se) ?c1 ar = (ar', Inr path)"
      using save_checkpoint_writable[OF _ c, of "se_writable se" ?c1] q(1) by (auto simp: checkpoint_kept_def)
    then show ?thesis using pre h(2) c
      by (auto simp: interrupt_attempt_def record_attempt_def intact_def Let_def)
  qed
qed

lemma recover_commit_succeeds:
  assumes sh: "git_shows g se (tk_file t) bases (committed_disk k b) w"
    and h: "journaled_attempt k h b" "tk_history t \<noteq> []"
    and q: "checkpoint_kept se ar k" "cs_target k = target_path se (tk_file t)" "cs_digest k = se_digest se"
  shows "\<exists>t'. recover_commit g se ar (cs_new k) t h w = Inr t' \<and> intact t t'
    \<and> (tk_status t' = Done \<or> tk_status t' = Needs_human \<and> at_partial (last (tk_history t')))
    \<and> at_outcome (last (tk_history t')) = tk_status t' \<and> at_commit (last (tk_history t')) = cs_new k
    \<and> at_output_hash (last (tk_history t')) = se_digest se b"
proof -
  have load: "load_repair_checkpoint (se_digest se) ar (se_queue se) h
      = load_repair_checkpoint (se_digest se) ar (se_queue se) (first_attempt k)"
    using h(1) by (intro load_same) (auto simp: same_attempt_def journaled_attempt_def)
  have m: "commit_matches g se (cs_new k) t h w = None"
    using sh h(1) q(2,3) by (auto simp: commit_matches_def git_shows_def committed_disk_def journaled_attempt_def)
  obtain h1 where h1: "reviewed_attempt se ar h = Inr h1" "at_output_hash h1 = at_output_hash h"
  proof (cases "at_repair_path (first_attempt k) = []")
    case True
    then have "load_repair_checkpoint (se_digest se) ar (se_queue se) h = Inr None"
      using load by (simp add: load_repair_checkpoint_def)
    then show ?thesis using that[of h] by (simp add: reviewed_attempt_def)
  next
    case False
    then obtain c where c: "load_repair_checkpoint (se_digest se) ar (se_queue se) h = Inr (Some c)"
        "ch_state c = cs_state k"
      using q(1) load by (auto simp: checkpoint_kept_def)
    then have "\<exists>h1. reviewed_attempt se ar h = Inr h1 \<and> at_output_hash h1 = at_output_hash h"
      using h(1) unfolding reviewed_attempt_def
      by (auto simp: journaled_attempt_def reviewed_ok_def Let_def)
    then show ?thesis using that by blast
  qed
  then show ?thesis using m h(1,2) q(3)
    by (auto simp: recover_commit_def Let_def record_attempt_def intact_def journaled_attempt_def)
qed

lemma recover_uncommitted:
  assumes u: "uncommitted k (t, d)" and q: "crash_queue se ar k pre post" and r: "rest_clean k"
    and sh: "git_shows g se (tk_file t) (crash_bases se k) d w"
    and rs: "git_resets g se (tk_file t) (crash_bases se k)"
  shows "\<exists>w' ar' t'. recover_attempts g se (pre @ t # post) w ar = (w', ar', Inr (pre @ t' # post))
    \<and> git_shows g se (tk_file t) (crash_bases se k) (cs_disk k) w' \<and> tk_status t' \<noteq> Running
    \<and> (if tk_status t = Running then tk_status t' = Needs_human \<and> at_outcome (last (tk_history t')) = Interrupted
       else t' = t)"
proof -
  let ?ts = "pre @ t # post"
  have d: "dk_head d = dk_head (cs_disk k)" "dk_log d = dk_log (cs_disk k)" "dk_message d = dk_message (cs_disk k)"
      "dk_committed d = dk_committed (cs_disk k)" "d\<lparr>dk_working := dk_committed d\<rparr> = cs_disk k"
      "intact (cs_task k) t"
    using u r unfolding uncommitted_def rest_clean_def by (metis disk.select_convs disk.surjective
        disk.update_convs(7) fst_conv snd_conv)+
  have known: "set (dk_log d) \<subseteq> set (known_commits ?ts)"
    using q known_commits_intact[OF d(6)] unfolding known_commits_split d(2)
    by (auto simp: crash_queue_def known_commits_split first_attempt_def)
  have owner: "dk_working d = dk_committed d \<or> tk_status t = Running \<and> tk_history t \<noteq> []
      \<and> attempt_commit_base (last (tk_history t)) = dk_head d
      \<and> se_digest se (dk_working d) = at_output_hash (last (tk_history t))"
    using u q d(1,4) by (auto simp: uncommitted_def crash_queue_def intact_def Let_def split: if_splits)
  have i: "idle pre" "idle post" using q by (auto simp: crash_queue_def)
  have "se_base_commit se \<in> set (crash_bases se k)" by (simp add: crash_bases_def)
  then obtain w' where w': "recover_pending_write g se ?ts (dk_head d) (dk_message d) w = (w', None)"
      "git_shows g se (tk_file t) (crash_bases se k) (cs_disk k) w'"
    using pending_write_taken_back[OF sh _ rs i(1) refl known owner] d(5) by metis
  have rt: "\<exists>ar' t'. recover_task g se (dk_head d) (dk_message d) t w' ar = (ar', Inr (t', []))
      \<and> tk_status t' \<noteq> Running
      \<and> (if tk_status t = Running then tk_status t' = Needs_human \<and> at_outcome (last (tk_history t')) = Interrupted
         else t' = t)"
  proof (cases "tk_status t = Running")
    case False
    then show ?thesis by (simp add: recover_task_def)
  next
    case True
    have s: "same_attempt (last (tk_history t)) (first_attempt k)" "tk_history t \<noteq> []"
      using u True by (auto simp: uncommitted_def intact_def Let_def)
    have "str_index (dk_message (cs_disk k)) (attempt_marker (last (tk_history t))) = None"
      using q s(1) by (simp add: crash_queue_def attempt_marker_def same_attempt_def)
    then have nc: "\<not> claims_tip (dk_message d) (last (tk_history t))" by (simp add: claims_tip_def d(3))
    have w2: "git_shows g se (tk_file t) (crash_bases se k) (cs_disk k) w'" by (rule w'(2))
    obtain ar' t' where "interrupt_attempt g se (dk_head d) t (last (tk_history t)) w' ar = (ar', Inr t')"
        "tk_status t' = Needs_human" "at_outcome (last (tk_history t')) = Interrupted"
      using interrupt_attempt_succeeds[OF w2 s, of ar] q d(1) by (auto simp: crash_queue_def)
    then show ?thesis using True s(2) nc by (simp add: recover_task_def)
  qed
  then obtain ar' t' where t': "recover_task g se (dk_head d) (dk_message d) t w' ar = (ar', Inr (t', []))"
      "tk_status t' \<noteq> Running"
      "if tk_status t = Running then tk_status t' = Needs_human \<and> at_outcome (last (tk_history t')) = Interrupted
         else t' = t"
    by blast
  have all: "recover_tasks g se (dk_head d) (dk_message d) ?ts w' ar = (ar', Inr (pre @ t' # post, []))"
    by (rule recover_tasks_one[OF i t'(1)])
  have fin: "nothing_unexplained g se (known_commits ?ts @ []) w' = None"
    using w'(2) r known d(2) find_none[of "dk_log (cs_disk k)" "known_commits ?ts"]
    by (simp add: nothing_unexplained_def git_shows_def rest_clean_def)
  have "gi_head g w = Some (dk_head d)" "gi_message g w = Some (dk_message d)"
    using sh by (simp_all add: git_shows_def)
  then have "recover_attempts g se ?ts w ar = (w', ar', Inr (pre @ t' # post))"
    using w'(1) all fin by (simp add: recover_attempts_def)
  then show ?thesis using w'(2) t'(2,3) by blast
qed

lemma recover_committed:
  assumes c: "committed k (t, d)" and q: "crash_queue se ar k pre post"
    and sh: "git_shows g se (tk_file t) (crash_bases se k) d w"
    and rs: "git_resets g se (tk_file t) (crash_bases se k)"
  shows "\<exists>w' ar' t'. recover_attempts g se (pre @ t # post) w ar = (w', ar', Inr (pre @ t' # post))
    \<and> git_shows g se (tk_file t) (crash_bases se k) d w' \<and> tk_status t' \<noteq> Running
    \<and> adopted_changes (last (tk_history t')) \<and> at_commit (last (tk_history t')) = cs_new k
    \<and> at_output_hash (last (tk_history t')) = se_digest se (dk_working d)"
proof -
  let ?ts = "pre @ t # post" and ?h = "last (tk_history t)" and ?b = "dk_working d"
  have d: "d = committed_disk k ?b" "intact (cs_task k) t" "tk_history t \<noteq> []"
      "dk_head d = cs_new k" "dk_message d = cs_message k" "dk_log d = cs_new k # dk_log (cs_disk k)"
      "dk_committed d = ?b"
    using c unfolding committed_def committed_disk_def intact_def by (metis disk.select_convs fst_conv snd_conv)+
  have i: "idle pre" "idle post" "cs_new k \<noteq> []" using q by (auto simp: crash_queue_def)
  have old: "set (dk_log (cs_disk k)) \<subseteq> set (known_commits ?ts)"
    using q known_commits_intact[OF d(2)] unfolding known_commits_split
    by (auto simp: crash_queue_def known_commits_split first_attempt_def)
  have f: "gi_head g w = Some (cs_new k)" "gi_message g w = Some (cs_message k)"
      "gi_ancestor g w (se_base_commit se) (cs_new k)" "gi_changed g w = Some []"
      "gi_log g w (se_base_commit se) (cs_new k) = Some (cs_new k # dk_log (cs_disk k))"
      "gi_log g w (se_base_commit se) ''HEAD'' = Some (cs_new k # dk_log (cs_disk k))"
    using sh d(4-7) by (auto simp: git_shows_def crash_bases_def)
  have goal: ?thesis
    if allowed: "cs_new k \<in> set (known_commits ?ts) \<or> running_attempt t = Some ?h \<and> claims_tip (cs_message k) ?h"
      and one: "recover_task g se (cs_new k) (cs_message k) t w ar = (ar, Inr (t', ks))"
        "cs_new k \<in> set (known_commits ?ts @ ks)"
      and t': "tk_status t' \<noteq> Running" "adopted_changes (last (tk_history t'))"
        "at_commit (last (tk_history t')) = cs_new k" "at_output_hash (last (tk_history t')) = se_digest se ?b"
    for t' ks
  proof -
    have "find (\<lambda>x. x \<notin> set (known_commits ?ts @ (if \<exists>t \<in> set ?ts. \<exists>h. running_attempt t = Some h
          \<and> claims_tip (cs_message k) h then [cs_new k] else []))) (cs_new k # dk_log (cs_disk k)) = None"
      using allowed old by (intro find_none) auto
    then have pw: "recover_pending_write g se ?ts (cs_new k) (cs_message k) w = (w, None)"
      using f unfolding recover_pending_write_def Let_def
      by (simp only: option.case list.case if_True if_False simp_thms)
    have "find (\<lambda>x. x \<notin> set (known_commits ?ts @ ks)) (cs_new k # dk_log (cs_disk k)) = None"
      using one(2) old by (intro find_none) auto
    then have fin: "nothing_unexplained g se (known_commits ?ts @ ks) w = None"
      using f unfolding nothing_unexplained_def by (simp only: option.case refl if_True)
    have "recover_tasks g se (cs_new k) (cs_message k) ?ts w ar = (ar, Inr (pre @ t' # post, ks))"
      by (rule recover_tasks_one[OF i(1,2) one(1)])
    then have "recover_attempts g se ?ts w ar = (w, ar, Inr (pre @ t' # post))"
      using f pw fin by (simp add: recover_attempts_def)
    then show ?thesis using sh t' by blast
  qed
  show ?thesis
  proof (cases "tk_status t = Running")
    case True
    have j: "journaled_attempt k ?h ?b" "at_outcome ?h = Validated"
      using c True by (auto simp: committed_def Let_def)
    have "str_index (cs_message k) (attempt_marker ?h) \<noteq> None" "at_output_hash ?h \<noteq> []"
      using q j(1) by (auto simp: crash_queue_def attempt_marker_def journaled_attempt_def same_attempt_def)
    then have ct: "claims_tip (cs_message k) ?h" using j(2) by (simp add: claims_tip_def)
    have tf: "cs_target k = target_path se (tk_file t)" "cs_digest k = se_digest se" "checkpoint_kept se ar k"
      using q d(2) by (auto simp: crash_queue_def intact_def)
    have shc: "git_shows g se (tk_file t) (crash_bases se k) (committed_disk k ?b) w"
      using sh by (simp only: d(1)[symmetric])
    obtain t' where t': "recover_commit g se ar (cs_new k) t ?h w = Inr t'"
        "tk_status t' = Done \<or> tk_status t' = Needs_human \<and> at_partial (last (tk_history t'))"
        "at_outcome (last (tk_history t')) = tk_status t'" "at_commit (last (tk_history t')) = cs_new k"
        "at_output_hash (last (tk_history t')) = se_digest se ?b"
      using recover_commit_succeeds[OF shc j(1) d(3) tf(3,1,2)] by metis
    then show ?thesis using True d(3) ct i(3)
      by (intro goal[of t' "[cs_new k]"]) (auto simp: recover_task_def running_attempt_def adopted_changes_def)
  next
    case False
    then have "at_commit ?h = cs_new k" "adopted_changes ?h" "at_output_hash ?h = se_digest se ?b"
      using c q i(3) by (auto simp: committed_def adopted_changes_def crash_queue_def Let_def)
    moreover have "cs_new k \<in> set (known_commits ?ts)"
      using known_commits_last[OF d(3) calculation(1) i(3)] by (auto simp: known_commits_split)
    ultimately show ?thesis using False by (intro goal[of t "[]"]) (auto simp: recover_task_def)
  qed
qed
subsection \<open>Every interrupted adoption\<close>

lemma disk_after_head:
  "dk_head (snd (disk_after new msg tgt x xs)) = (if Committed \<in> set xs then new else dk_head (snd x))"
proof (induction xs arbitrary: x)
  case Nil
  then show ?case by (simp add: disk_after_def)
next
  case (Cons e xs)
  obtain t d where x: "x = (t, d)" by (cases x)
  have "disk_after new msg tgt x (e # xs) = disk_after new msg tgt (disk_step new msg tgt x e) xs"
    by (simp add: disk_after_def)
  moreover have "dk_head (snd (disk_step new msg tgt x e)) = (if e = Committed then new else dk_head (snd x))"
    unfolding x by (cases e) auto
  ultimately show ?case using Cons.IH[of "disk_step new msg tgt x e"] by auto
qed

text \<open>The adoption \<open>p\<close> from state \<open>s\<close> is the one the crash data \<open>k\<close> describe.\<close>

definition crash_of :: "adoption_env \<Rightarrow> proposal \<Rightarrow> adoption \<Rightarrow> crash \<Rightarrow> bool" where
  "crash_of env p s k \<longleftrightarrow> ready env k s \<and> rest_clean k \<and> cs_state k = ch_state (ae_checkpoint env)
     \<and> (pr_candidate_id p \<noteq> [] \<or> rs_last_candidate (cs_state k) = None)
     \<and> tk_status (cs_task k) = Running
     \<and> cs_message k = commit_message (tk_file (cs_task k)) (at_id (first_attempt k)) (pr_rules_applied p)"

lemma commit_message_marked:
  "at_id h = i \<Longrightarrow> str_index (commit_message f i rules) (attempt_marker h) \<noteq> None"
proof -
  assume i: "at_id h = i"
  have "commit_message f i rules
      = (''Migrate '' @ f @ [LF, LF]) @ attempt_marker h @ ([LF] @ ''OneByOne-Rules: '' @ join_with (CHR '','') rules)"
    by (simp add: commit_message_def attempt_marker_def i)
  then have "occurs_at (commit_message f i rules) (attempt_marker h) (length (''Migrate '' @ f @ [LF, LF]))"
    unfolding occurs_at_def by (simp only: append_eq_conv_conj length_append drop_append) simp
  then show ?thesis unfolding str_index_None_iff by blast
qed

lemma crash_explained:
  assumes "adopt env p s = (s', stop)" "ad_effects s = []" "prefix xs (ad_effects s')" "crash_of env p s k"
    "tk_history (cs_task k) \<noteq> []"
  shows "explained k (disk_after (cs_new k) (cs_message k) (cs_target k) (cs_task k, cs_disk k) xs)"
proof -
  have "uncommitted k (cs_task k, cs_disk k)"
    using assms(4,5) by (simp add: uncommitted_def crash_of_def intact_def same_attempt_def first_attempt_def
        rest_clean_def)
  then obtain es where "adds s s' es" "always k (cs_task k, cs_disk k) es"
    using adopt_always[OF assms(1)] assms(4) by (metis crash_of_def)
  then show ?thesis using always_prefix assms(2,3) by (simp add: adds_def)
qed

text \<open>
  C39. An adoption that was cut off at any point is recovered. Whatever the outside answered, let
  the process end after any prefix of the adoption's effects, with the queue holding the task saved
  last. When git shows the disk these effects left, and a reset followed by a clean restores the
  tip, the next recovery succeeds: no attempt is left running and the working copy is clean. If the
  commit was made, the tip stays and the attempt is recorded as adopted with this commit and with
  the hash of exactly the bytes in the file; otherwise the tip is the old one, the file has its old
  content, and an attempt that was still running is marked interrupted.
\<close>

theorem interrupted_adoption_recovered:
  assumes "adopt env p s = (s', stop)" "ad_effects s = []" "prefix xs (ad_effects s')"
    and "crash_of env p s k" "crash_queue se ar k pre post"
    and "disk_after (cs_new k) (cs_message k) (cs_target k) (cs_task k, cs_disk k) xs = (t, d)"
    and "git_shows g se (tk_file t) (crash_bases se k) d w" "git_resets g se (tk_file t) (crash_bases se k)"
  shows "\<exists>w' ar' t'. recover_attempts g se (pre @ t # post) w ar = (w', ar', Inr (pre @ t' # post))
    \<and> tk_status t' \<noteq> Running \<and> gi_changed g w' = Some []
    \<and> (if Committed \<in> set xs
       then gi_head g w' = Some (cs_new k) \<and> adopted_changes (last (tk_history t'))
         \<and> at_commit (last (tk_history t')) = cs_new k
         \<and> map_option (se_digest se) (gi_read g w' (cs_target k)) = Some (at_output_hash (last (tk_history t')))
       else gi_head g w' = Some (dk_head (cs_disk k))
         \<and> gi_read g w' (cs_target k) = Some (dk_committed (cs_disk k))
         \<and> (if tk_status t = Running then at_outcome (last (tk_history t')) = Interrupted else t' = t))"
proof -
  have hist: "tk_history (cs_task k) \<noteq> []" "cs_new k \<noteq> dk_head (cs_disk k)"
      "cs_target k = target_path se (tk_file (cs_task k))" and r: "rest_clean k"
    using assms(4,5) by (auto simp: crash_queue_def crash_of_def)
  have ex: "explained k (t, d)" using crash_explained[OF assms(1-4) hist(1)] assms(6) by simp
  have head: "dk_head d = (if Committed \<in> set xs then cs_new k else dk_head (cs_disk k))"
    using disk_after_head[of "cs_new k" "cs_message k" "cs_target k" "(cs_task k, cs_disk k)" xs] assms(6) by simp
  show ?thesis
  proof (cases "uncommitted k (t, d)")
    case True
    have no: "Committed \<notin> set xs" and f: "tk_file t = tk_file (cs_task k)"
      using True head hist(2) unfolding uncommitted_def intact_def by (metis disk.select_convs(1)
          disk.surjective disk.update_convs(7) snd_conv, simp)
    obtain w' ar' t' where w': "recover_attempts g se (pre @ t # post) w ar = (w', ar', Inr (pre @ t' # post))"
        "git_shows g se (tk_file t) (crash_bases se k) (cs_disk k) w'" "tk_status t' \<noteq> Running"
        "if tk_status t = Running then tk_status t' = Needs_human \<and> at_outcome (last (tk_history t')) = Interrupted
         else t' = t"
      using recover_uncommitted[OF True assms(5) r assms(7,8)] by blast
    then show ?thesis using no f hist(3) r
      by (intro exI[of _ w'] exI[of _ ar'] exI[of _ t']) (auto simp: git_shows_def rest_clean_def)
  next
    case False
    then have c: "committed k (t, d)" using ex by (simp add: explained_def)
    then have f: "tk_file t = tk_file (cs_task k)" "dk_head d = cs_new k" "dk_committed d = dk_working d"
      unfolding committed_def intact_def committed_disk_def by (metis disk.select_convs fst_conv snd_conv)+
    then have yes: "Committed \<in> set xs" using head hist(2) by (auto split: if_splits)
    obtain w' ar' t' where w': "recover_attempts g se (pre @ t # post) w ar = (w', ar', Inr (pre @ t' # post))"
        "git_shows g se (tk_file t) (crash_bases se k) d w'" "tk_status t' \<noteq> Running"
        "adopted_changes (last (tk_history t'))" "at_commit (last (tk_history t')) = cs_new k"
        "at_output_hash (last (tk_history t')) = se_digest se (dk_working d)"
      using recover_committed[OF c assms(5,7,8)] by blast
    then show ?thesis using yes f hist(3)
      by (intro exI[of _ w'] exI[of _ ar'] exI[of _ t']) (auto simp: git_shows_def)
  qed
qed

subsection \<open>The sample adoption, cut off between the commit and its record\<close>

definition sample_tip :: string where
  "sample_tip = replicate 40 (CHR ''a'')"

definition sample_new :: string where
  "sample_new = replicate 40 (CHR ''b'')"

definition crash_attempt :: attempt where
  "crash_attempt = sample_attempt\<lparr>at_base_commit := sample_tip\<rparr>"

definition crash_task :: task where
  "crash_task = sample_task\<lparr>tk_history := [crash_attempt]\<rparr>"

definition crash_start :: adoption where
  "crash_start = \<lparr>ad_attempt = crash_attempt, ad_task = crash_task, ad_head = sample_tip, ad_effects = []\<rparr>"

definition crash_env :: adoption_env where
  "crash_env = sample_adoption_env\<lparr>ae_review_head := Some sample_tip, ae_adopt_head := Some sample_tip,
     ae_rollback_head := Some sample_tip, ae_new_head := Some sample_new\<rparr>"

definition crash_session :: session where
  "crash_session = \<lparr>se_base_commit = sample_tip, se_relative = [], se_queue = ''q'', se_digest = sample_digest,
     se_writable = (\<lambda>_. True), se_now = ''now''\<rparr>"

definition crash_artifacts :: artifacts where
  "crash_artifacts = \<lparr>ar_states = [''q.artifacts/a1.state.json'' \<mapsto> (sample_checkpoint, [])], ar_reviews = Map.empty\<rparr>"

definition crash_disk :: disk where
  "crash_disk = \<lparr>dk_head = sample_tip, dk_parent = [], dk_message = ''start'', dk_log = [], dk_files = [],
     dk_committed = sample_lines, dk_working = sample_lines\<rparr>"

definition sample_crash :: crash where
  "sample_crash = \<lparr>cs_new = sample_new, cs_message = commit_message ''a.go'' ''a1'' (pr_rules_applied sample_gate_final),
     cs_target = ''a.go'', cs_digest = sample_digest, cs_state = sample_reviewed, cs_task = crash_task,
     cs_disk = crash_disk\<rparr>"

text \<open>A working copy with one tracked file.\<close>

definition one_file_git :: "disk git" where
  "one_file_git = \<lparr>gi_head = (\<lambda>d. Some (dk_head d)), gi_parent = (\<lambda>d. Some (dk_parent d)),
     gi_message = (\<lambda>d. Some (dk_message d)), gi_ancestor = (\<lambda>d a b. True), gi_log = (\<lambda>d a b. Some (dk_log d)),
     gi_changed = (\<lambda>d. Some (if dk_working d = dk_committed d then [] else [''a.go''])),
     gi_commit_files = (\<lambda>d c. Some (dk_files d)),
     gi_tree_entries = (\<lambda>d c p. Some [''100644 blob x'' @ [CHR 0x09] @ ''a.go'']),
     gi_blob = (\<lambda>d b. Some (dk_committed d)), gi_path_ok = (\<lambda>d p. True), gi_read = (\<lambda>d p. Some (dk_working d)),
     gi_reset = (\<lambda>d c. (d\<lparr>dk_working := dk_committed d\<rparr>, True)), gi_clean = (\<lambda>d. (d, True))\<rparr>"

lemma one_file_simps:
  "gi_head one_file_git d = Some (dk_head d)" "gi_parent one_file_git d = Some (dk_parent d)"
  "gi_message one_file_git d = Some (dk_message d)" "gi_ancestor one_file_git d a b"
  "gi_log one_file_git d a b = Some (dk_log d)"
  "gi_changed one_file_git d = Some (if dk_working d = dk_committed d then [] else [''a.go''])"
  "gi_commit_files one_file_git d c = Some (dk_files d)" "gi_path_ok one_file_git d p"
  "gi_read one_file_git d p = Some (dk_working d)"
  by (simp_all add: one_file_git_def)

lemma one_file_snapshot:
  "read_snapshot_file one_file_git d head ''a.go''
     = (if immutable_commit_id head then Some (dk_committed d) else None)"
proof -
  have "preview_path_ok ''a.go''" "\<not> forbidden_context ''a.go''"
      "blob_of_entry ''a.go'' (''100644 blob x'' @ [CHR 0x09] @ ''a.go'') = Some ''x''"
    by code_simp+
  then show ?thesis by (simp add: read_snapshot_file_def one_file_git_def)
qed

lemma one_file_shows:
  "git_shows one_file_git crash_session ''a.go'' bases d w \<longleftrightarrow> immutable_commit_id (dk_head d) \<and> w = d"
proof -
  have tp: "target_path crash_session ''a.go'' = ''a.go''" by (simp add: target_path_def crash_session_def)
  have "w = d" if "dk_head w = dk_head d" "dk_parent w = dk_parent d" "dk_message w = dk_message d"
      "dk_log w = dk_log d" "dk_files w = dk_files d" "dk_committed w = dk_committed d" "dk_working w = dk_working d"
    using that by (cases w, cases d) simp
  then show ?thesis
    unfolding git_shows_def tp one_file_snapshot one_file_simps(1-3,5-7,9)
    by (auto simp: list_all_iff one_file_simps split: if_splits)
qed

lemma one_file_resets: "git_resets one_file_git crash_session ''a.go'' bases"
  unfolding git_resets_def one_file_shows by (simp add: one_file_git_def)

lemma sample_commits: "immutable_commit_id sample_tip" "immutable_commit_id sample_new" "sample_new \<noteq> sample_tip"
  by code_simp+

lemma sample_crash_queue: "crash_queue crash_session crash_artifacts sample_crash [] []"
proof -
  have "repair_path ''q'' ''a1'' = Inr ''q.artifacts/a1.state.json''" by code_simp
  moreover have "checkpoint_ok sample_checkpoint" unfolding checkpoint_ok_def by code_simp
  ultimately have load: "load_repair_checkpoint sample_digest crash_artifacts ''q'' crash_attempt = Inr (Some sample_checkpoint)"
    by (simp add: load_repair_checkpoint_def crash_attempt_def sample_attempt_def crash_artifacts_def
        checkpoint_ok_def) (simp add: sample_checkpoint_def)
  have msg: "str_index ''start'' (attempt_marker crash_attempt) = None"
    by code_simp
  have fa: "first_attempt sample_crash = crash_attempt"
    by (simp add: first_attempt_def sample_crash_def crash_task_def)
  have id: "at_id crash_attempt = ''a1''" by (simp add: crash_attempt_def sample_attempt_def)
  show ?thesis
    using load msg sample_commits commit_message_marked[OF id]
    unfolding crash_queue_def checkpoint_kept_def fa
    by (auto simp: idle_def sample_crash_def crash_session_def crash_task_def sample_task_def crash_disk_def
        sample_digest_def target_path_def crash_attempt_def sample_attempt_def sample_checkpoint_def sample_new_def)
qed

lemma sample_crash_of: "crash_of crash_env sample_gate_final crash_start sample_crash"
  by (auto simp: crash_of_def ready_def rest_clean_def sample_crash_def crash_start_def crash_task_def sample_task_def
      crash_attempt_def sample_attempt_def crash_disk_def sample_tip_def crash_env_def sample_adoption_env_def
      sample_checkpoint_def sample_gate_final_def intact_def same_attempt_def first_attempt_def)

lemma sample_crash_commits:
  "Committed \<in> set (take 7 (ad_effects (fst (adopt crash_env sample_gate_final crash_start))))"
  by code_simp

lemma interrupted_adoption_recovered_witness:
  "\<exists>xs t d w' ar' t'. prefix xs (ad_effects (fst (adopt crash_env sample_gate_final crash_start)))
     \<and> Committed \<in> set xs
     \<and> disk_after sample_new (cs_message sample_crash) ''a.go'' (crash_task, crash_disk) xs = (t, d)
     \<and> recover_attempts one_file_git crash_session [t] d crash_artifacts = (w', ar', Inr [t'])
     \<and> adopted_changes (last (tk_history t')) \<and> at_commit (last (tk_history t')) = sample_new"
proof -
  define xs where "xs = take 7 (ad_effects (fst (adopt crash_env sample_gate_final crash_start)))"
  obtain s' stop where run: "adopt crash_env sample_gate_final crash_start = (s', stop)"
    by (cases "adopt crash_env sample_gate_final crash_start")
  have xs: "prefix xs (ad_effects s')" "Committed \<in> set xs"
    using sample_crash_commits run by (simp_all add: xs_def take_is_prefix)
  obtain t d where td: "disk_after (cs_new sample_crash) (cs_message sample_crash) (cs_target sample_crash)
      (cs_task sample_crash, cs_disk sample_crash) xs = (t, d)"
    by fastforce
  have e: "ad_effects crash_start = []" by (simp add: crash_start_def)
  have c: "cs_new sample_crash = sample_new" "cs_target sample_crash = ''a.go''" "cs_task sample_crash = crash_task"
      "cs_disk sample_crash = crash_disk"
    by (simp_all add: sample_crash_def)
  have "explained sample_crash (t, d)"
    using crash_explained[OF run e xs(1) sample_crash_of] td by (simp add: c crash_task_def)
  then have "intact crash_task t" by (auto simp: explained_def uncommitted_def committed_def c)
  then have f: "tk_file t = ''a.go''" by (simp add: intact_def crash_task_def sample_task_def)
  have "dk_head d = sample_new"
    using disk_after_head[of sample_new "cs_message sample_crash" "''a.go''" "(crash_task, crash_disk)" xs] td xs(2)
    by (simp add: c)
  then have "git_shows one_file_git crash_session (tk_file t) (crash_bases crash_session sample_crash) d d"
    using sample_commits(2) by (simp add: f one_file_shows)
  note concl = interrupted_adoption_recovered[OF run e xs(1) sample_crash_of sample_crash_queue td this
      one_file_resets[of "crash_bases crash_session sample_crash", folded f]]
  then obtain w' ar' t' where "recover_attempts one_file_git crash_session [t] d crash_artifacts = (w', ar', Inr [t'])"
      "adopted_changes (last (tk_history t'))" "at_commit (last (tk_history t')) = sample_new"
    using xs(2) c(1) by auto
  moreover have "disk_after sample_new (cs_message sample_crash) ''a.go'' (crash_task, crash_disk) xs = (t, d)"
    using td by (simp add: c)
  ultimately show ?thesis using xs run by (intro exI[of _ xs]) auto
qed

end
