(* ===== verification/Queue.thy ===== *)
theory Queue
  imports Recovery
begin

section \<open>The queue file (store/store.go)\<close>

text \<open>
  One task per line, in the order of the queue. JSON is a parameter (\<open>from_json\<close>, \<open>to_json\<close>), as is
  the Unicode lower case that file names are compared under (\<open>lower\<close>). A file is its bytes, or an
  answer of the file system. Times and the atomic replacement of the file are not modelled.
\<close>

datatype queue_error = Queue_unreadable | Queue_too_big | Line_too_long | Not_json nat | Bad_file nat
  | Bad_status nat | Bad_attempts nat | Bad_attempt_id nat

text \<open>\<open>validID\<close>; a byte outside ASCII is no letter, so bytes and runes agree.\<close>

definition id_char :: "char \<Rightarrow> bool" where
  "id_char c \<longleftrightarrow> byte_in c 97 122 \<or> byte_in c 65 90 \<or> byte_in c 48 57 \<or> c = CHR ''_'' \<or> c = CHR ''-''"

definition valid_id :: "string \<Rightarrow> bool" where
  "valid_id i \<longleftrightarrow> length i \<noteq> 0 \<and> length i \<le> 128 \<and> list_all id_char i"

definition queue_status :: "status \<Rightarrow> bool" where
  "queue_status st \<longleftrightarrow> st = Pending \<or> st = Running \<or> st = Done \<or> st = Skipped \<or> st = Failed \<or> st = Needs_human"

fun load_attempts :: "string list \<Rightarrow> attempt list \<Rightarrow> string list option" where
  "load_attempts seen [] = Some seen"
| "load_attempts seen (h # hs) =
     (if \<not> valid_id (at_id h) \<or> at_id h \<in> set seen then None else load_attempts (at_id h # seen) hs)"

definition load_task ::
  "(string \<Rightarrow> string) \<Rightarrow> nat \<Rightarrow> string list \<Rightarrow> string list \<Rightarrow> task \<Rightarrow> (queue_error, task \<times> string list) outcome" where
  "load_task lower n files attempts t =
     (let t1 = (if tk_status t = Unset then t\<lparr>tk_status := Pending\<rparr> else t) in
      if tk_file t = [] \<or> lower (tk_file t) \<in> set files then Inl (Bad_file n)
      else if \<not> queue_status (tk_status t1) then Inl (Bad_status n)
      else if tk_attempts t1 < 0 then Inl (Bad_attempts n)
      else (case load_attempts attempts (tk_history t1) of
        None \<Rightarrow> Inl (Bad_attempt_id n)
      | Some seen \<Rightarrow> Inr (t1, seen)))"

definition byte_order_mark :: string where
  "byte_order_mark = [CHR 0xEF, CHR 0xBB, CHR 0xBF]"

definition queue_line :: "string \<Rightarrow> string" where
  "queue_line l = trim_space (trim_prefix l byte_order_mark)"

text \<open>The scanner drops one carriage return before each line feed and refuses a longer line.\<close>

definition scan_line :: "string \<Rightarrow> string" where
  "scan_line l = (if l \<noteq> [] \<and> last l = CR then butlast l else l)"

definition max_line :: nat where "max_line = 8388608"
definition max_queue :: nat where "max_queue = 268435456"

fun load_lines ::
  "(string \<Rightarrow> string) \<Rightarrow> (string \<Rightarrow> task option) \<Rightarrow> nat \<Rightarrow> string list \<Rightarrow> string list \<Rightarrow> string list
     \<Rightarrow> (queue_error, task list) outcome" where
  "load_lines lower from_json n files attempts [] = Inr []"
| "load_lines lower from_json n files attempts (l # ls) =
     (if max_line \<le> length l then Inl Line_too_long
      else let s = queue_line (scan_line l) in
      if s = [] then load_lines lower from_json (n + 1) files attempts ls
      else (case from_json s of
        None \<Rightarrow> Inl (Not_json n)
      | Some t \<Rightarrow>
      (case load_task lower n files attempts t of
        Inl e \<Rightarrow> Inl e
      | Inr (t1, seen) \<Rightarrow>
      (case load_lines lower from_json (n + 1) (lower (tk_file t) # files) seen ls of
        Inl e \<Rightarrow> Inl e
      | Inr ts \<Rightarrow> Inr (t1 # ts)))))"

definition load_queue ::
  "(string \<Rightarrow> string) \<Rightarrow> (string \<Rightarrow> task option) \<Rightarrow> string option \<Rightarrow> (queue_error, task list) outcome" where
  "load_queue lower from_json content =
     (case content of
        None \<Rightarrow> Inl Queue_unreadable
      | Some b \<Rightarrow> if max_queue < length b then Inl Queue_too_big
                  else load_lines lower from_json 1 [] [] (split_on LF b))"

definition save_queue :: "(task \<Rightarrow> string) \<Rightarrow> task list \<Rightarrow> string" where
  "save_queue to_json ts = concat (map (\<lambda>t. to_json t @ [LF]) ts)"

subsection \<open>Well-typed queues\<close>

definition task_ok :: "task \<Rightarrow> bool" where
  "task_ok t \<longleftrightarrow> tk_file t \<noteq> [] \<and> queue_status (tk_status t) \<and> 0 \<le> tk_attempts t
     \<and> list_all (\<lambda>h. valid_id (at_id h)) (tk_history t)"

definition attempt_ids :: "task list \<Rightarrow> string list" where
  "attempt_ids ts = concat (map (\<lambda>t. map at_id (tk_history t)) ts)"

definition queue_ok :: "(string \<Rightarrow> string) \<Rightarrow> task list \<Rightarrow> bool" where
  "queue_ok lower ts \<longleftrightarrow> list_all task_ok ts \<and> distinct (map (\<lambda>t. lower (tk_file t)) ts)
     \<and> distinct (attempt_ids ts)"

lemma load_attempts_Some:
  "load_attempts seen hs = Some seen' \<longleftrightarrow> seen' = rev (map at_id hs) @ seen
     \<and> list_all (\<lambda>h. valid_id (at_id h)) hs \<and> distinct (map at_id hs) \<and> set (map at_id hs) \<inter> set seen = {}"
  by (induction seen hs rule: load_attempts.induct) auto

lemma load_task_Inr:
  assumes "load_task lower n files attempts t = Inr (t1, seen)"
  shows "task_ok t1 \<and> tk_file t1 = tk_file t \<and> lower (tk_file t) \<notin> set files
    \<and> seen = rev (map at_id (tk_history t1)) @ attempts \<and> distinct (map at_id (tk_history t1))
    \<and> set (map at_id (tk_history t1)) \<inter> set attempts = {}"
proof -
  define u where "u = (if tk_status t = Unset then t\<lparr>tk_status := Pending\<rparr> else t)"
  have u: "tk_file u = tk_file t" "queue_status (tk_status u)" "\<not> tk_attempts u < 0" "tk_file t \<noteq> []"
      "lower (tk_file t) \<notin> set files" "load_attempts attempts (tk_history u) = Some seen" "t1 = u"
    using assms unfolding load_task_def Let_def u_def[symmetric]
    by (auto simp: u_def split: if_splits option.splits)
  then show ?thesis unfolding load_attempts_Some by (simp add: task_ok_def)
qed

lemma load_lines_ok:
  "load_lines lower from_json n files attempts ls = Inr ts \<Longrightarrow>
     queue_ok lower ts \<and> set (map (\<lambda>t. lower (tk_file t)) ts) \<inter> set files = {}
     \<and> set (attempt_ids ts) \<inter> set attempts = {}"
proof (induction ls arbitrary: n files attempts ts)
  case Nil
  then show ?case by (simp add: queue_ok_def attempt_ids_def)
next
  case (Cons l ls)
  let ?s = "queue_line (scan_line l)"
  have short: "\<not> max_line \<le> length l" using Cons.prems by auto
  show ?case
  proof (cases "?s = []")
    case True
    then have "load_lines lower from_json (n + 1) files attempts ls = Inr ts"
      using Cons.prems short by (simp add: Let_def)
    then show ?thesis by (rule Cons.IH)
  next
    case False
    obtain t t1 seen us where t: "load_task lower n files attempts t = Inr (t1, seen)"
        "load_lines lower from_json (n + 1) (lower (tk_file t) # files) seen ls = Inr us" "ts = t1 # us"
      using Cons.prems short False by (auto simp: Let_def split: option.splits sum.splits prod.splits)
    have ids: "attempt_ids ts = map at_id (tk_history t1) @ attempt_ids us" by (simp add: attempt_ids_def t(3))
    have head: "task_ok t1" "tk_file t1 = tk_file t" "lower (tk_file t) \<notin> set files"
        "set seen = set (map at_id (tk_history t1)) \<union> set attempts" "distinct (map at_id (tk_history t1))"
        "set (map at_id (tk_history t1)) \<inter> set attempts = {}"
      using load_task_Inr[OF t(1)] by auto
    have tail: "queue_ok lower us" "set (map (\<lambda>t. lower (tk_file t)) us) \<inter> insert (lower (tk_file t)) (set files) = {}"
        "set (attempt_ids us) \<inter> set seen = {}"
      using Cons.IH[OF t(2)] by auto
    have "distinct (attempt_ids ts)" "set (attempt_ids ts) \<inter> set attempts = {}"
      using head(4-6) tail(1,3) unfolding ids queue_ok_def by auto
    moreover have "distinct (map (\<lambda>t. lower (tk_file t)) ts)" "set (map (\<lambda>t. lower (tk_file t)) ts) \<inter> set files = {}"
      using head(2,3) tail(1,2) unfolding t(3) queue_ok_def by auto
    ultimately show ?thesis using head(1) tail(1) unfolding queue_ok_def t(3) by simp
  qed
qed

lemma load_queue_ok: "load_queue lower from_json content = Inr ts \<Longrightarrow> queue_ok lower ts"
  using load_lines_ok by (fastforce simp: load_queue_def split: option.splits if_splits)

text \<open>
  What the queue relies on in JSON: decoding undoes encoding, and an encoded task is one line that
  neither starts nor ends with white space or a byte order mark and is shorter than the limit.
\<close>

definition json_ok :: "(task \<Rightarrow> string) \<Rightarrow> (string \<Rightarrow> task option) \<Rightarrow> task \<Rightarrow> bool" where
  "json_ok to_json from_json t \<longleftrightarrow> from_json (to_json t) = Some t \<and> to_json t \<noteq> [] \<and> LF \<notin> set (to_json t)
     \<and> queue_line (scan_line (to_json t)) = to_json t \<and> length (to_json t) < max_line"

lemma split_on_line: "LF \<notin> set a \<Longrightarrow> split_on LF (a @ LF # b) = a # split_on LF b"
  by (induction a) (auto split: list.splits)

lemma load_task_ok:
  assumes "task_ok t" "lower (tk_file t) \<notin> set files" "distinct (map at_id (tk_history t))"
    "set (map at_id (tk_history t)) \<inter> set attempts = {}"
  shows "load_task lower n files attempts t = Inr (t, rev (map at_id (tk_history t)) @ attempts)"
proof -
  have "load_attempts attempts (tk_history t) = Some (rev (map at_id (tk_history t)) @ attempts)"
    using assms by (simp add: load_attempts_Some task_ok_def)
  moreover have "tk_status t \<noteq> Unset" using assms(1) by (auto simp: task_ok_def queue_status_def)
  ultimately show ?thesis using assms(1,2) by (simp add: load_task_def task_ok_def)
qed

lemma load_lines_saved:
  assumes "queue_ok lower ts" "list_all (json_ok to_json from_json) ts"
    "set (map (\<lambda>t. lower (tk_file t)) ts) \<inter> set files = {}" "set (attempt_ids ts) \<inter> set attempts = {}"
  shows "load_lines lower from_json n files attempts (split_on LF (save_queue to_json ts)) = Inr ts"
  using assms
proof (induction ts arbitrary: n files attempts)
  case Nil
  have "max_line \<noteq> 0" "queue_line (scan_line []) = []"
    by (simp_all add: max_line_def queue_line_def scan_line_def trim_prefix_def trim_space_def)
  then show ?case by (simp add: save_queue_def)
next
  case (Cons t ts)
  let ?e = "to_json t"
  have j: "json_ok to_json from_json t" using Cons.prems(2) by simp
  have s: "split_on LF (save_queue to_json (t # ts)) = ?e # split_on LF (save_queue to_json ts)"
    using split_on_line[of ?e "save_queue to_json ts"] j by (simp add: save_queue_def json_ok_def)
  have t: "load_task lower n files attempts t = Inr (t, rev (map at_id (tk_history t)) @ attempts)"
    using Cons.prems(1,3,4) by (intro load_task_ok) (auto simp: queue_ok_def attempt_ids_def)
  have "load_lines lower from_json (n + 1) (lower (tk_file t) # files) (rev (map at_id (tk_history t)) @ attempts)
      (split_on LF (save_queue to_json ts)) = Inr ts"
  proof (rule Cons.IH)
    have ids: "attempt_ids (t # ts) = map at_id (tk_history t) @ attempt_ids ts" by (simp add: attempt_ids_def)
    show "set (attempt_ids ts) \<inter> set (rev (map at_id (tk_history t)) @ attempts) = {}"
      using Cons.prems(1,4) unfolding ids queue_ok_def by auto
    show "queue_ok lower ts" using Cons.prems(1) unfolding ids queue_ok_def by auto
  qed (use Cons.prems in \<open>auto simp: queue_ok_def\<close>)
  then show ?case using j t unfolding s by (simp add: json_ok_def not_le[symmetric] Let_def)
qed

lemma saved_queue_loads:
  assumes "queue_ok lower ts" "list_all (json_ok to_json from_json) ts" "length (save_queue to_json ts) \<le> max_queue"
  shows "load_queue lower from_json (Some (save_queue to_json ts)) = Inr ts"
  using load_lines_saved[OF assms(1,2), of "[]" "[]" 1] assms(3) by (simp add: load_queue_def)

end
