(* ===== verification/Execution.thy ===== *)
theory Execution
  imports Queue RepairLoop
begin

section \<open>One attempt of a file (engine/runner.go), and the files of a run\<close>

text \<open>
  The first part of \<open>processOne\<close>: the new or resumed attempt is written to the queue before
  anything else happens, the source is read from the pinned commit, and the checkpoint of the
  attempt is prepared and saved; then the callbacks the agent works with, and what happens to its
  answer before adoption. Adoption itself is in Adoption. The queue is saved through \<open>xv_save_ok\<close>,
  one answer per save; the phases shown to people are not modelled.
\<close>

datatype save_at = Save_started | Save_source | Save_state | Save_candidate | Save_checked | Save_finished

datatype execution_error = Unknown_rules | Checkpoint_failed checkpoint_error | Queue_not_saved
  | Artifact_not_saved | Review_id_invalid | Run_aborted

record execution_env =
  xv_digest :: "string \<Rightarrow> string"
  xv_codec :: shift_jis
  xv_queue :: string
  xv_writable :: "string \<Rightarrow> bool"
  xv_new_id :: string
  xv_head :: string
  xv_rules_known :: bool
  xv_rules :: "rule list"
  xv_rule_hash :: string
  xv_settings_hash :: string
  xv_path_ok :: bool
  xv_source :: "string option"
  xv_save_ok :: "save_at \<Rightarrow> bool"
  xv_before_ok :: bool
  xv_review_file_ok :: "independent_review \<Rightarrow> bool"
  xv_fingerprint :: "independent_review \<Rightarrow> string"

record execution =
  ex_task :: task
  ex_attempt :: attempt
  ex_checkpoint :: checkpoint
  ex_artifacts :: artifacts
  ex_written :: "string \<rightharpoonup> string"
  ex_saved :: "task list"

subsection \<open>The attempt\<close>

definition provenance_of :: "execution_env \<Rightarrow> task \<Rightarrow> string \<Rightarrow> provenance" where
  "provenance_of env t input_hash = \<lparr>pv_file = tk_file t, pv_head = xv_head env, pv_input_hash = input_hash,
     pv_rule_hash = xv_rule_hash env, pv_settings_hash = xv_settings_hash env\<rparr>"

definition resumes :: "execution_env \<Rightarrow> task \<Rightarrow> checkpoint option \<Rightarrow> bool" where
  "resumes env t c \<longleftrightarrow> tk_resume_requested t \<and> unfinished_repair t
     \<and> repair_provenance_matches c (provenance_of env t (tk_input_hash t))"

definition new_attempt :: "execution_env \<Rightarrow> task \<Rightarrow> attempt" where
  "new_attempt env t =
     \<lparr>at_id = xv_new_id env, at_number = tk_attempts t + 1, at_outcome = Unset, at_partial = False, at_note = [],
      at_rules_applied = [], at_checks = [], at_usage = no_usage, at_diff_path = [], at_commit = [],
      at_base_commit = xv_head env, at_commit_base = [], at_input_hash = [], at_output_hash = [],
      at_repair_path = [], at_reviews = []\<rparr>"

definition resumed_attempt :: "execution_env \<Rightarrow> attempt \<Rightarrow> attempt" where
  "resumed_attempt env h = h\<lparr>at_outcome := Unset, at_partial := False, at_commit := [],
     at_base_commit := xv_head env, at_commit_base := [], at_output_hash := []\<rparr>"

definition begin_attempt :: "execution_env \<Rightarrow> checkpoint option \<Rightarrow> task \<Rightarrow> task \<times> attempt" where
  "begin_attempt env c t =
     (if resumes env t c
      then let h = resumed_attempt env (last (tk_history t))
           in (record_attempt h (t\<lparr>tk_resume_requested := False, tk_status := Running\<rparr>), h)
      else let h = new_attempt env t
           in (t\<lparr>tk_attempts := tk_attempts t + 1, tk_history := tk_history t @ [h],
                tk_resume_requested := False, tk_status := Running\<rparr>, h))"

definition finish_attempt :: "status \<Rightarrow> string \<Rightarrow> attempt \<Rightarrow> task \<Rightarrow> task" where
  "finish_attempt st msg h t = finished_task st msg (h\<lparr>at_outcome := st, at_note := msg\<rparr>) t"

text \<open>A source that cannot be worked on; the attempt ends and the file waits for a person.\<close>

definition source_problem :: "execution_env \<Rightarrow> task \<Rightarrow> string option" where
  "source_problem env t =
     (if \<not> xv_path_ok env then Some ''unsafe path''
      else if forbidden_context (tk_file t) then Some ''settings and credentials are not edited''
      else (case xv_source env of
        None \<Rightarrow> Some ''unreadable source''
      | Some b \<Rightarrow>
          if tk_input_hash t \<noteq> [] \<and> tk_input_hash t \<noteq> xv_digest env b then Some ''changed since the scan''
          else (case decode (xv_codec env) b of Inl _ \<Rightarrow> Some ''unreadable encoding'' | Inr _ \<Rightarrow> None)))"

text \<open>\<open>h.InputHash\<close> is set as soon as the source was read, so a later refusal records it.\<close>

definition input_hash_of :: "execution_env \<Rightarrow> task \<Rightarrow> string" where
  "input_hash_of env t =
     (if \<not> xv_path_ok env \<or> forbidden_context (tk_file t) then []
      else (case xv_source env of None \<Rightarrow> [] | Some b \<Rightarrow> xv_digest env b))"

subsection \<open>The checkpoint of the attempt\<close>

definition restart_plan :: "repair_state \<Rightarrow> repair_state" where
  "restart_plan s = (forget_plan s)\<lparr>rs_reviews := []\<rparr>"

definition empty_checkpoint :: "usage \<Rightarrow> checkpoint" where
  "empty_checkpoint prior =
     \<lparr>ch_version = 1, ch_attempt_id = [], ch_file = [], ch_base_commit = [], ch_input_hash = [], ch_rule_hash = [],
      ch_settings_hash = [], ch_rule_titles = None, ch_prior_usage = no_usage,
      ch_state = fresh_state\<lparr>rs_usage := prior\<rparr>\<rparr>"

definition prepare_checkpoint ::
  "execution_env \<Rightarrow> bool \<Rightarrow> checkpoint option \<Rightarrow> task \<Rightarrow> attempt \<Rightarrow> checkpoint" where
  "prepare_checkpoint env resume loaded t h =
     (let prior = sum_usage (butlast (tk_history t));
          c0 = (case loaded of None \<Rightarrow> empty_checkpoint prior
                | Some c \<Rightarrow> if resume then c else c\<lparr>ch_state := restart_plan (ch_state c)\<rparr>);
          c1 = c0\<lparr>ch_attempt_id := at_id h, ch_prior_usage := prior\<rparr>;
          c2 = c1\<lparr>ch_state := retain_known_usage (sum_usage (tk_history t)) (ch_state c1)\<rparr>;
          c3 = fst (reset_repair_plan (provenance_of env t (at_input_hash h)) (xv_rules env) c2)
      in if rs_request_pending (ch_state c3)
         then c3\<lparr>ch_state := (ch_state c3)\<lparr>rs_usage := (rs_usage (ch_state c3))\<lparr>us_uncertain := True\<rparr>\<rparr>\<rparr>
         else c3)"

fun write_reviews ::
  "execution_env \<Rightarrow> independent_review list \<Rightarrow> (string \<rightharpoonup> string) \<Rightarrow> (string \<rightharpoonup> string) \<times> execution_error option" where
  "write_reviews env [] written = (written, None)"
| "write_reviews env (r # rs) written =
     (if rv_finished_at r = [] then write_reviews env rs written
      else if \<not> hex_bytes 16 (rv_id r) then (written, Some Review_id_invalid)
      else if written (rv_id r) = Some (xv_fingerprint env r) then write_reviews env rs written
      else if \<not> xv_review_file_ok env r then (written, Some Artifact_not_saved)
      else write_reviews env rs (written(rv_id r \<mapsto> xv_fingerprint env r)))"

text \<open>\<open>persistRepair\<close>: the checkpoint first, then the reviews, then the attempt in the queue.\<close>

definition save_execution :: "execution_env \<Rightarrow> save_at \<Rightarrow> execution \<Rightarrow> execution \<times> execution_error option" where
  "save_execution env p x =
     (let t = record_attempt (ex_attempt x) (ex_task x) in
      if xv_save_ok env p then (x\<lparr>ex_task := t, ex_saved := ex_saved x @ [t]\<rparr>, None)
      else (x\<lparr>ex_task := t\<rparr>, Some Queue_not_saved))"

text \<open>What \<open>h.RepairPath\<close> is after a failed save: empty unless only the last file could not be written.\<close>

definition path_after_failure :: "execution_env \<Rightarrow> checkpoint \<Rightarrow> artifacts \<Rightarrow> string" where
  "path_after_failure env c ar =
     (case repair_path (xv_queue env) (ch_attempt_id c) of
        Inl _ \<Rightarrow> []
      | Inr path \<Rightarrow>
          (case save_reviews (xv_digest env) (xv_writable env) path (rs_reviews (ch_state c)) ar of
             (_, None) \<Rightarrow> [] | (_, Some _) \<Rightarrow> path))"

definition persist_repair ::
  "execution_env \<Rightarrow> repair_state \<Rightarrow> execution \<Rightarrow> execution \<times> execution_error option" where
  "persist_repair env state x =
     (let c = (ex_checkpoint x)\<lparr>ch_state := state\<rparr>; x1 = x\<lparr>ex_checkpoint := c\<rparr> in
      case save_repair_checkpoint (xv_digest env) (xv_writable env) (xv_queue env) c (ex_artifacts x) of
        (ar, Inl e) \<Rightarrow>
          (x1\<lparr>ex_artifacts := ar, ex_attempt := (ex_attempt x)
                \<lparr>at_repair_path := path_after_failure env c (ex_artifacts x)\<rparr>\<rparr>, Some (Checkpoint_failed e))
      | (ar, Inr path) \<Rightarrow>
          let previous = at_repair_path (ex_attempt x);
              x2 = x1\<lparr>ex_artifacts := ar, ex_attempt := (ex_attempt x)\<lparr>at_repair_path := path\<rparr>\<rparr>
          in (case write_reviews env (rs_reviews state) (ex_written x) of
                (written, Some e) \<Rightarrow> (x2\<lparr>ex_written := written\<rparr>, Some e)
              | (written, None) \<Rightarrow>
                  let h = (ex_attempt x2)\<lparr>at_usage := usage_since (rs_usage state) (ch_prior_usage c),
                             at_reviews := rs_reviews state\<rparr>;
                      x3 = x2\<lparr>ex_written := written, ex_attempt := h, ex_task := record_attempt h (ex_task x)\<rparr>
                  in if previous = path then (x3, None) else save_execution env Save_state x3))"

subsection \<open>From the queue to the agent\<close>

datatype start = Aborted_start execution_error | Ended_start task | Ready_start execution

definition ended_start :: "execution_env \<Rightarrow> string \<Rightarrow> attempt \<Rightarrow> task \<Rightarrow> task list \<Rightarrow> task list \<times> start" where
  "ended_start env msg h t saved =
     (let t1 = finish_attempt Needs_human msg h t in
      if xv_save_ok env Save_finished then (saved @ [t1], Ended_start t1) else (saved, Aborted_start Queue_not_saved))"

definition prepare_execution ::
  "execution_env \<Rightarrow> artifacts \<Rightarrow> bool \<Rightarrow> checkpoint option \<Rightarrow> attempt \<Rightarrow> task \<Rightarrow> task list \<Rightarrow> task list \<times> start" where
  "prepare_execution env ar resume loaded h t saved =
     (let t1 = record_attempt h t;
          x = \<lparr>ex_task = t1, ex_attempt = h, ex_checkpoint = prepare_checkpoint env resume loaded t1 h,
               ex_artifacts = ar, ex_written = Map.empty, ex_saved = saved @ [t1]\<rparr>
      in if \<not> xv_before_ok env then (saved, Aborted_start Artifact_not_saved)
         else if \<not> xv_save_ok env Save_source then (saved, Aborted_start Queue_not_saved)
         else (case persist_repair env (ch_state (ex_checkpoint x)) x of
                 (x1, Some e) \<Rightarrow> (ex_saved x1, Aborted_start e)
               | (x1, None) \<Rightarrow> (ex_saved x1, Ready_start x1)))"

definition start_execution :: "execution_env \<Rightarrow> artifacts \<Rightarrow> task \<Rightarrow> task list \<times> start" where
  "start_execution env ar t =
     (if \<not> xv_rules_known env then ([], Aborted_start Unknown_rules)
      else (case (if tk_history t = [] then Inr None
                  else load_latest_repair_checkpoint (xv_digest env) ar (xv_queue env) (repair_history t)) of
        Inl e \<Rightarrow> ([], Aborted_start (Checkpoint_failed e))
      | Inr loaded \<Rightarrow>
          (case begin_attempt env loaded t of (t1, h) \<Rightarrow>
             if \<not> xv_save_ok env Save_started then ([], Aborted_start Queue_not_saved)
             else
               let h1 = h\<lparr>at_input_hash := (if input_hash_of env t = [] then at_input_hash h else input_hash_of env t)\<rparr>
               in (case source_problem env t of
                     Some msg \<Rightarrow> ended_start env msg h1
                       (t1\<lparr>tk_input_hash := (if tk_input_hash t = [] then input_hash_of env t else tk_input_hash t)\<rparr>) [t1]
                   | None \<Rightarrow> prepare_execution env ar (resumes env t loaded) loaded h1
                       (t1\<lparr>tk_input_hash := (if tk_input_hash t = [] then input_hash_of env t else tk_input_hash t)\<rparr>) [t1]))))"

subsection \<open>The callbacks of the agent and its answer\<close>

text \<open>\<open>ValidateCandidate\<close>: the held lines first, then the validation; its journal entry is the candidate's hash.\<close>

definition journal_candidate :: "execution_env \<Rightarrow> candidate_validation \<Rightarrow> execution \<Rightarrow> execution \<times> execution_error option" where
  "journal_candidate env v x = save_execution env Save_candidate
     (x\<lparr>ex_attempt := (ex_attempt x)\<lparr>at_output_hash := cv_candidate_hash v\<rparr>\<rparr>)"

definition record_validation ::
  "execution_env \<Rightarrow> bool \<Rightarrow> candidate_validation \<Rightarrow> execution \<Rightarrow> execution \<times> execution_error option" where
  "record_validation env has_diff v x = save_execution env Save_checked
     (x\<lparr>ex_attempt := (ex_attempt x)\<lparr>at_checks := cv_checks v,
          at_diff_path := (if has_diff then at_id (ex_attempt x) @ ''.diff'' else at_diff_path (ex_attempt x))\<rparr>\<rparr>)"

definition attempt_validation ::
  "execution_env \<Rightarrow> validation_world \<Rightarrow> validation_input \<Rightarrow> string \<Rightarrow> bool \<Rightarrow> candidate_request \<Rightarrow> execution
     \<Rightarrow> execution \<times> candidate_validation option" where
  "attempt_validation env w inp content has_diff req x =
     (if check_candidate_holds (rs_plan (ch_state (ex_checkpoint x))) req content \<noteq> None then (x, None)
      else (case validate_candidate (w\<lparr>vw_journal := xv_save_ok env Save_candidate\<rparr>)
              (inp\<lparr>vd_plan := rs_plan (ch_state (ex_checkpoint x))\<rparr>) req of ((v, err, effects), _) \<Rightarrow>
        let x1 = (case find (\<lambda>e. case e of Journaled _ \<Rightarrow> True | _ \<Rightarrow> False) effects of
                    Some (Journaled c) \<Rightarrow> fst (journal_candidate env c x) | _ \<Rightarrow> x)
        in if err \<noteq> None then (x1, None)
           else (case record_validation env has_diff v x1 of
                   (x2, Some _) \<Rightarrow> (x2, None) | (x2, None) \<Rightarrow> (x2, Some v))))"

text \<open>The status an attempt ends with when the agent failed.\<close>

definition failed_status :: "bool \<Rightarrow> bool \<Rightarrow> bool \<Rightarrow> repair_state \<Rightarrow> usage \<Rightarrow> status" where
  "failed_status stopped usage_unknown fatal state prior =
     (if stopped \<or> usage_unknown \<or> rs_tool_calls state > 0 \<or> us_turns (rs_usage state) > us_turns prior \<or> fatal
      then Needs_human else Failed)"

text \<open>An answer that reports its usage only once.\<close>

definition settle_usage :: "execution_env \<Rightarrow> usage \<Rightarrow> execution \<Rightarrow> execution \<times> execution_error option" where
  "settle_usage env reported x =
     (let prior = ch_prior_usage (ex_checkpoint x); state = ch_state (ex_checkpoint x) in
      if us_turns (rs_usage state) = us_turns prior \<and> us_turns reported > 0
      then persist_repair env (state\<lparr>rs_usage := usage_plus (sum_usage (butlast (tk_history (ex_task x)))) reported\<rparr>) x
      else (x, None))"

definition agent_failed ::
  "execution_env \<Rightarrow> bool \<Rightarrow> bool \<Rightarrow> bool \<Rightarrow> string \<Rightarrow> rule_id list \<Rightarrow> usage \<Rightarrow> execution
     \<Rightarrow> task option \<times> execution_error option" where
  "agent_failed env stopped usage_unknown fatal msg rules reported x =
     (case settle_usage env reported x of
        (x1, Some e) \<Rightarrow> (None, Some e)
      | (x1, None) \<Rightarrow>
          let prior = ch_prior_usage (ex_checkpoint x1); state = ch_state (ex_checkpoint x1);
              used = usage_since (rs_usage state) prior;
              h = (ex_attempt x1)\<lparr>at_rules_applied := rules,
                    at_usage := used\<lparr>us_uncertain := us_uncertain used \<or> usage_unknown\<rparr>\<rparr>;
              t = finish_attempt (failed_status stopped usage_unknown fatal state prior) msg h (ex_task x1)
          in if \<not> xv_save_ok env Save_finished then (None, Some Queue_not_saved)
             else (Some t, if fatal then Some Run_aborted else None))"

text \<open>What adoption starts from when the agent answered.\<close>

definition agent_answered :: "rule_id list \<Rightarrow> execution \<Rightarrow> string \<Rightarrow> adoption" where
  "agent_answered rules x head =
     \<lparr>ad_attempt = (ex_attempt x)\<lparr>at_rules_applied := rules,
        at_usage := usage_since (rs_usage (ch_state (ex_checkpoint x))) (ch_prior_usage (ex_checkpoint x))\<rparr>,
      ad_task = ex_task x, ad_head = head, ad_effects = []\<rparr>"

subsection \<open>Properties of the parts\<close>

text \<open>A save that fails before its last file clears the path of the attempt's earlier checkpoint.\<close>

lemma failed_save_clears_path:
  assumes "repair_path (xv_queue env) (ch_attempt_id (ex_checkpoint x)) = Inr path"
    "snd (save_reviews (xv_digest env) (xv_writable env) path (rs_reviews state) (ex_artifacts x)) = None"
  shows "at_repair_path (ex_attempt (fst (persist_repair env state x))) = []
    \<and> snd (persist_repair env state x) = Some (Checkpoint_failed Checkpoint_write)"
proof -
  obtain ar where "save_reviews (xv_digest env) (xv_writable env) path (rs_reviews state) (ex_artifacts x) = (ar, None)"
    using assms(2) by (metis prod.collapse)
  then show ?thesis using assms(1)
    by (simp add: persist_repair_def save_repair_checkpoint_def path_after_failure_def Let_def)
qed

text \<open>The prepared checkpoint is one the next run accepts as its own, and it forgets no usage.\<close>

lemma reset_repair_plan_provenance:
  "repair_provenance_matches (Some (fst (reset_repair_plan p rules c))) p"
  by (simp add: reset_repair_plan_def repair_provenance_matches_def Let_def)

lemma reset_repair_plan_keeps:
  "rs_usage (ch_state (fst (reset_repair_plan p rules c))) = rs_usage (ch_state c)"
  "ch_attempt_id (fst (reset_repair_plan p rules c)) = ch_attempt_id c"
  "ch_prior_usage (fst (reset_repair_plan p rules c)) = ch_prior_usage c"
  "ch_file (fst (reset_repair_plan p rules c)) = pv_file p"
  "ch_base_commit (fst (reset_repair_plan p rules c)) = pv_head p"
  "ch_input_hash (fst (reset_repair_plan p rules c)) = pv_input_hash p"
  "ch_rule_hash (fst (reset_repair_plan p rules c)) = pv_rule_hash p"
  "ch_settings_hash (fst (reset_repair_plan p rules c)) = pv_settings_hash p"
  by (simp_all add: reset_repair_plan_def forget_plan_def Let_def)

lemma prepared_checkpoint:
  "repair_provenance_matches (Some (prepare_checkpoint env resume loaded t h)) (provenance_of env t (at_input_hash h))"
  "ch_attempt_id (prepare_checkpoint env resume loaded t h) = at_id h"
  "usage_le (sum_usage (tk_history t)) (rs_usage (ch_state (prepare_checkpoint env resume loaded t h)))"
proof -
  define c0 where "c0 = (case loaded of None \<Rightarrow> empty_checkpoint (sum_usage (butlast (tk_history t)))
      | Some c \<Rightarrow> if resume then c else c\<lparr>ch_state := restart_plan (ch_state c)\<rparr>)"
  define c1 where "c1 = c0\<lparr>ch_attempt_id := at_id h, ch_prior_usage := sum_usage (butlast (tk_history t))\<rparr>"
  define c2 where "c2 = c1\<lparr>ch_state := retain_known_usage (sum_usage (tk_history t)) (ch_state c1)\<rparr>"
  define c3 where "c3 = fst (reset_repair_plan (provenance_of env t (at_input_hash h)) (xv_rules env) c2)"
  have run: "prepare_checkpoint env resume loaded t h = (if rs_request_pending (ch_state c3)
      then c3\<lparr>ch_state := (ch_state c3)\<lparr>rs_usage := (rs_usage (ch_state c3))\<lparr>us_uncertain := True\<rparr>\<rparr>\<rparr> else c3)"
    unfolding prepare_checkpoint_def Let_def c0_def[symmetric] c1_def[symmetric] c2_def[symmetric] c3_def[symmetric] by simp
  have m: "repair_provenance_matches (Some c3) (provenance_of env t (at_input_hash h))"
    unfolding c3_def by (rule reset_repair_plan_provenance)
  have i: "ch_attempt_id c3 = at_id h" by (simp add: c3_def reset_repair_plan_keeps c2_def c1_def)
  have u: "usage_le (sum_usage (tk_history t)) (rs_usage (ch_state c3))"
    by (simp add: c3_def reset_repair_plan_keeps c2_def retain_known_usage_le)
  show "repair_provenance_matches (Some (prepare_checkpoint env resume loaded t h)) (provenance_of env t (at_input_hash h))"
    using m by (simp add: run repair_provenance_matches_def)
  show "ch_attempt_id (prepare_checkpoint env resume loaded t h) = at_id h"
    using i by (simp add: run)
  show "usage_le (sum_usage (tk_history t)) (rs_usage (ch_state (prepare_checkpoint env resume loaded t h)))"
    using u by (simp add: run usage_le_def)
qed

end
