(* ===== verification/Discards.thy ===== *)
theory Discards
  imports Recovery
begin

section \<open>Returning a file to its first content (engine/discard_changes.go)\<close>

text \<open>
  A discard is written to the queue as prepared, with the hashes of the content before and after,
  before the source is touched; \<open>recoverDiscards\<close> then carries out every prepared discard of the
  queue, also one a previous process left behind. Git and the file system answer through
  \<open>discard_git\<close>. Whether the working copy belongs to the session (its path, branch and repository)
  is the answer \<open>gd_owned\<close>; times are not modelled.
\<close>

record 'w discard_git = "'w git" +
  gd_owned :: "'w \<Rightarrow> bool"
  gd_status :: "'w \<Rightarrow> string option"
  gd_staged :: "'w \<Rightarrow> string list option"
  gd_tree :: "'w \<Rightarrow> string \<Rightarrow> string \<Rightarrow> string option"
  gd_show :: "'w \<Rightarrow> string \<Rightarrow> string \<Rightarrow> string option"
  gd_regular :: "'w \<Rightarrow> string \<Rightarrow> bool"
  gd_write :: "'w \<Rightarrow> string \<Rightarrow> string \<Rightarrow> bool \<Rightarrow> 'w \<times> bool"
  gd_stopped :: "'w \<Rightarrow> bool"
  gd_commit_only :: "'w \<Rightarrow> string \<Rightarrow> string \<Rightarrow> 'w \<times> bool"

datatype discard_error = Read_only | Not_owned | Bad_record | Not_regular | Bad_target | No_git | Bad_baseline
  | History_changed | Unknown_tip string | Lost_commits | Before_differs | Other_file string | Staged_file string
  | Staged_content | Working_content | Not_written | Cancelled | Not_committed | Bad_message | Bad_parent
  | Not_limited | Bad_content | Not_clean | Not_saved | Unknown_file | Nothing_to_discard | Already_original

fun account_history :: "string list \<Rightarrow> string list \<Rightarrow> (discard_error, string list) outcome" where
  "account_history [] known = Inr known"
| "account_history (c # cs) known =
     (if c \<notin> set known then Inl (Unknown_tip c) else account_history cs (removeAll c known))"

definition validate_discard_history ::
  "('w, 'b) discard_git_scheme \<Rightarrow> session \<Rightarrow> task list \<Rightarrow> string \<Rightarrow> 'w \<Rightarrow> discard_error option" where
  "validate_discard_history g se ts recovering w =
     (if \<not> gi_ancestor g w (se_base_commit se) ''HEAD'' then Some History_changed
      else (case gi_log g w (se_base_commit se) ''HEAD'' of
        None \<Rightarrow> Some No_git
      | Some commits \<Rightarrow>
          (case account_history commits (known_commits ts @ (if recovering = [] then [] else [recovering])) of
             Inl e \<Rightarrow> Some e
           | Inr rest \<Rightarrow> if rest = [] then None else Some Lost_commits)))"

text \<open>\<open>discardTarget\<close>: the path of the file in the working copy.\<close>

definition discard_target :: "('w, 'b) discard_git_scheme \<Rightarrow> session \<Rightarrow> string \<Rightarrow> 'w \<Rightarrow> (discard_error, string) outcome" where
  "discard_target g se f w =
     (if \<not> gi_path_ok g w f then Inl Bad_target
      else if \<not> gd_regular g w (target_path se f) then Inl Not_regular
      else Inr (target_path se f))"

definition discard_baseline ::
  "('w, 'b) discard_git_scheme \<Rightarrow> session \<Rightarrow> string \<Rightarrow> 'w \<Rightarrow> (discard_error, string \<times> bool) outcome" where
  "discard_baseline g se rel w =
     (case gd_tree g w (se_base_commit se) rel of
        None \<Rightarrow> Inl No_git
      | Some tree \<Rightarrow>
          if \<not> prefix ''100755 blob '' tree \<and> \<not> prefix ''100644 blob '' tree then Inl Bad_baseline
          else (case gd_show g w (se_base_commit se) rel of
            None \<Rightarrow> Inl No_git
          | Some b \<Rightarrow> Inr (b, prefix ''100755 blob '' tree)))"

definition discard_message :: "string \<Rightarrow> discard \<Rightarrow> string" where
  "discard_message f d = ''OneByOne: discard '' @ f @ [LF, LF] @ ''OneByOne-Discard: '' @ di_id d"

definition record_valid :: "session \<Rightarrow> task \<Rightarrow> discard \<Rightarrow> bool" where
  "record_valid se t d \<longleftrightarrow> hex_bytes 12 (di_id d) \<and> di_restore_commit d = se_base_commit se
     \<and> di_through_attempt d = tk_attempts t \<and> di_input_hash d \<noteq> di_output_hash d \<and> di_commit d = []"

definition one_of :: "session \<Rightarrow> discard \<Rightarrow> string option \<Rightarrow> bool" where
  "one_of se d content \<longleftrightarrow> (case content of None \<Rightarrow> False
     | Some b \<Rightarrow> se_digest se b = di_input_hash d \<or> se_digest se b = di_output_hash d)"

text \<open>The working copy is still where the record says: only this file, in one of its two contents.\<close>

definition before_discard ::
  "('w, 'b) discard_git_scheme \<Rightarrow> session \<Rightarrow> task list \<Rightarrow> string \<Rightarrow> discard \<Rightarrow> string \<Rightarrow> 'w \<Rightarrow> discard_error option" where
  "before_discard g se ts rel d head w =
     (case validate_discard_history g se ts [] w of
        Some e \<Rightarrow> Some e
      | None \<Rightarrow>
      if map_option (se_digest se) (gd_show g w head rel) \<noteq> Some (di_input_hash d) then Some Before_differs
      else (case gi_changed g w of
        None \<Rightarrow> Some No_git
      | Some files \<Rightarrow>
      (case find (\<lambda>f. f \<noteq> rel) files of
        Some f \<Rightarrow> Some (Other_file f)
      | None \<Rightarrow>
      (case gd_staged g w of
        None \<Rightarrow> Some No_git
      | Some staged \<Rightarrow>
      (case find (\<lambda>f. f \<noteq> rel) staged of
        Some f \<Rightarrow> Some (Staged_file f)
      | None \<Rightarrow>
          if \<not> one_of se d (gd_show g w [] rel) then Some Staged_content
          else if \<not> one_of se d (gi_read g w rel) then Some Working_content else None)))))"

definition write_discard ::
  "('w, 'b) discard_git_scheme \<Rightarrow> string \<Rightarrow> string \<Rightarrow> bool \<Rightarrow> string \<Rightarrow> 'w \<Rightarrow> 'w \<times> (discard_error, string) outcome" where
  "write_discard g rel after executable message w =
     (case gd_write g w rel after executable of
        (w1, False) \<Rightarrow> (w1, Inl Not_written)
      | (w1, True) \<Rightarrow>
          if gd_stopped g w1 then (w1, Inl Cancelled)
          else (case gd_commit_only g w1 message rel of
            (w2, False) \<Rightarrow> (w2, Inl Not_committed)
          | (w2, True) \<Rightarrow>
              (case gi_head g w2 of None \<Rightarrow> (w2, Inl No_git) | Some head \<Rightarrow> (w2, Inr head))))"

text \<open>The tip is the commit of this discard and nothing else.\<close>

definition after_discard ::
  "('w, 'b) discard_git_scheme \<Rightarrow> session \<Rightarrow> task list \<Rightarrow> string \<Rightarrow> discard \<Rightarrow> string \<Rightarrow> 'w \<Rightarrow> discard_error option" where
  "after_discard g se ts rel d head w =
     (case gi_message g w of
        None \<Rightarrow> Some Bad_message
      | Some message \<Rightarrow>
      if str_index message ([LF] @ ''OneByOne-Discard: '' @ di_id d @ [LF]) = None then Some Bad_message
      else if gi_parent g w \<noteq> Some (di_base_commit d) then Some Bad_parent
      else if gi_commit_files g w head \<noteq> Some [rel] then Some Not_limited
      else if map_option (se_digest se) (gd_show g w head rel) \<noteq> Some (di_output_hash d) then Some Bad_content
      else (case gd_status g w of
        None \<Rightarrow> Some No_git
      | Some s \<Rightarrow> if s \<noteq> [] then Some Not_clean else validate_discard_history g se ts head w))"

definition carry_out ::
  "('w, 'b) discard_git_scheme \<Rightarrow> session \<Rightarrow> task list \<Rightarrow> task \<Rightarrow> discard \<Rightarrow> 'w
     \<Rightarrow> 'w \<times> (discard_error, string) outcome" where
  "carry_out g se ts t d w =
     (if \<not> record_valid se t d then (w, Inl Bad_record)
      else (case discard_target g se (tk_file t) w of
        Inl e \<Rightarrow> (w, Inl e)
      | Inr rel \<Rightarrow>
      (case discard_baseline g se rel w of
        Inl e \<Rightarrow> (w, Inl Bad_baseline)
      | Inr (after, executable) \<Rightarrow>
      if se_digest se after \<noteq> di_output_hash d then (w, Inl Bad_baseline)
      else (case gi_head g w of
        None \<Rightarrow> (w, Inl No_git)
      | Some head \<Rightarrow>
      (case (if head \<noteq> di_base_commit d then (w, Inr head)
             else (case before_discard g se ts rel d head w of
               Some e \<Rightarrow> (w, Inl e)
             | None \<Rightarrow> write_discard g rel after executable (discard_message (tk_file t) d) w)) of
        (w1, Inl e) \<Rightarrow> (w1, Inl e)
      | (w1, Inr tip) \<Rightarrow>
          (case after_discard g se ts rel d tip w1 of
             Some e \<Rightarrow> (w1, Inl e) | None \<Rightarrow> (w1, Inr tip)))))))"

definition finished_discard :: "string \<Rightarrow> nat \<Rightarrow> task \<Rightarrow> task" where
  "finished_discard head j t =
     (let d = (tk_discards t ! j)\<lparr>di_state := Discarded, di_commit := head\<rparr> in
      t\<lparr>tk_discards := (tk_discards t)[j := d], tk_excluded := False, tk_status := Pending, tk_rules_applied := [],
        tk_note := ''changes discarded'', tk_input_hash := di_output_hash d, tk_resume_requested := True\<rparr>)"

text \<open>The loops over the tasks and their discards; the queue is saved after each one.\<close>

fun carry_out_all ::
  "('w, 'b) discard_git_scheme \<Rightarrow> session \<Rightarrow> (task list \<Rightarrow> bool) \<Rightarrow> (nat \<times> nat) list \<Rightarrow> task list \<Rightarrow> 'w
     \<Rightarrow> 'w \<times> task list \<times> discard_error option" where
  "carry_out_all g se saves [] ts w = (w, ts, None)"
| "carry_out_all g se saves ((i, j) # rest) ts w =
     (let t = ts ! i; d = tk_discards t ! j in
      if di_state d \<noteq> Prepared then carry_out_all g se saves rest ts w
      else (case carry_out g se ts t d w of
        (w1, Inl e) \<Rightarrow> (w1, ts, Some e)
      | (w1, Inr head) \<Rightarrow>
          let ts1 = ts[i := finished_discard head j t] in
          if saves ts1 then carry_out_all g se saves rest ts1 w1 else (w1, ts, Some Not_saved)))"

definition discard_positions :: "task list \<Rightarrow> (nat \<times> nat) list" where
  "discard_positions ts =
     concat (map (\<lambda>i. map (\<lambda>j. (i, j)) [0..<length (tk_discards (ts ! i))]) [0..<length ts])"

definition recover_discards ::
  "('w, 'b) discard_git_scheme \<Rightarrow> session \<Rightarrow> (task list \<Rightarrow> bool) \<Rightarrow> bool \<Rightarrow> task list \<Rightarrow> 'w
     \<Rightarrow> 'w \<times> task list \<times> discard_error option" where
  "recover_discards g se saves read_only ts w =
     (if \<not> has_prepared_discard ts then (w, ts, None)
      else if read_only then (w, ts, Some Read_only)
      else if \<not> gd_owned g w then (w, ts, Some Not_owned)
      else carry_out_all g se saves (discard_positions ts) ts w)"

subsection \<open>The command\<close>

definition new_discard :: "session \<Rightarrow> string \<Rightarrow> string \<Rightarrow> string \<Rightarrow> string \<Rightarrow> task \<Rightarrow> discard" where
  "new_discard se i head before after t =
     \<lparr>di_id = i, di_state = Prepared, di_base_commit = head, di_restore_commit = se_base_commit se, di_commit = [],
      di_input_hash = se_digest se before, di_output_hash = se_digest se after, di_through_attempt = tk_attempts t\<rparr>"

definition prepare_discard ::
  "('w, 'b) discard_git_scheme \<Rightarrow> session \<Rightarrow> string \<Rightarrow> task list \<Rightarrow> task \<Rightarrow> 'w \<Rightarrow> (discard_error, discard) outcome" where
  "prepare_discard g se i ts t w =
     (if \<not> can_discard_changes t then Inl Nothing_to_discard
      else if \<not> gd_owned g w then Inl Not_owned
      else if gd_status g w \<noteq> Some [] then Inl Not_clean
      else (case validate_discard_history g se ts [] w of
        Some e \<Rightarrow> Inl e
      | None \<Rightarrow>
      (case gi_head g w of
        None \<Rightarrow> Inl No_git
      | Some head \<Rightarrow>
      (case discard_target g se (tk_file t) w of
        Inl e \<Rightarrow> Inl e
      | Inr rel \<Rightarrow>
      (case gi_read g w rel of
        None \<Rightarrow> Inl No_git
      | Some before \<Rightarrow>
      (case discard_baseline g se rel w of
        Inl e \<Rightarrow> Inl e
      | Inr (after, _) \<Rightarrow>
          if se_digest se before = se_digest se after then Inl Already_original
          else Inr (new_discard se i head before after t)))))))"

definition discard_file_changes ::
  "('w, 'b) discard_git_scheme \<Rightarrow> session \<Rightarrow> (task list \<Rightarrow> bool) \<Rightarrow> string \<Rightarrow> string \<Rightarrow> task list \<Rightarrow> 'w
     \<Rightarrow> 'w \<times> task list \<times> discard_error option" where
  "discard_file_changes g se saves i file ts w =
     (case filter (\<lambda>n. tk_file (ts ! n) = file) [0..<length ts] of
        [] \<Rightarrow> (w, ts, Some Unknown_file)
      | n # ns \<Rightarrow>
          let k = last (n # ns); t = ts ! k in
          (case prepare_discard g se i ts t w of
             Inl e \<Rightarrow> (w, ts, Some e)
           | Inr d \<Rightarrow>
               let ts1 = ts[k := t\<lparr>tk_discards := tk_discards t @ [d]\<rparr>] in
               if saves ts1 then recover_discards g se saves False ts1 w else (w, ts, Some Not_saved)))"

subsection \<open>What a carried out discard leaves\<close>

text \<open>
  A discard that is reported as done left a tip that changes this file only, from the recorded
  parent, to content with the recorded hash, in a clean working copy whose history is fully known.
\<close>

lemma carried_out_discard:
  assumes "carry_out g se ts t d w = (w', Inr head)"
  shows "record_valid se t d \<and> gi_parent g w' = Some (di_base_commit d)
    \<and> gi_commit_files g w' head = Some [target_path se (tk_file t)]
    \<and> map_option (se_digest se) (gd_show g w' head (target_path se (tk_file t))) = Some (di_output_hash d)
    \<and> gd_status g w' = Some [] \<and> validate_discard_history g se ts head w' = None"
proof -
  obtain rel where rel: "discard_target g se (tk_file t) w = Inr rel" "record_valid se t d"
      "after_discard g se ts rel d head w' = None"
    using assms by (auto simp: carry_out_def split: if_splits sum.splits option.splits prod.splits)
  moreover have "rel = target_path se (tk_file t)"
    using rel(1) by (auto simp: discard_target_def split: if_splits)
  ultimately show ?thesis
    by (auto simp: after_discard_def split: option.splits if_splits)
qed

definition same_shape :: "task list \<Rightarrow> task list \<Rightarrow> bool" where
  "same_shape ts us \<longleftrightarrow> list_all2 (\<lambda>t u. tk_file u = tk_file t \<and> tk_history u = tk_history t
     \<and> tk_attempts u = tk_attempts t \<and> (tk_status u = tk_status t \<or> tk_status u = Pending)
     \<and> length (tk_discards u) = length (tk_discards t)
     \<and> (\<forall>j < length (tk_discards t). di_state (tk_discards t ! j) \<noteq> Prepared \<longrightarrow> di_state (tk_discards u ! j) \<noteq> Prepared)) ts us"

lemma same_shape_refl [simp]: "same_shape ts ts"
  by (simp add: same_shape_def list_all2_conv_all_nth)

lemma same_shape_trans: "same_shape ts us \<Longrightarrow> same_shape us vs \<Longrightarrow> same_shape ts vs"
  unfolding same_shape_def list_all2_conv_all_nth by force

lemma not_prepared_update:
  "di_state d \<noteq> Prepared \<Longrightarrow> di_state (ds ! n) \<noteq> Prepared \<Longrightarrow> n < length ds \<Longrightarrow> di_state (ds[j := d] ! n) \<noteq> Prepared"
  by (cases "n = j") auto

lemma same_shape_finished:
  assumes "i < length ts"
  shows "same_shape ts (ts[i := finished_discard head j (ts ! i)])"
  using assms unfolding same_shape_def list_all2_conv_all_nth finished_discard_def Let_def
  by (simp add: nth_list_update not_prepared_update)

lemma carry_out_all_shape:
  assumes "carry_out_all g se saves ps ts w = (w', us, e)" "\<forall>(i, j) \<in> set ps. i < length ts"
  shows "same_shape ts us"
  using assms
proof (induction g se saves ps ts w rule: carry_out_all.induct)
  case (2 g se saves i j rest ts w)
  show ?case
  proof (cases "di_state (tk_discards (ts ! i) ! j) = Prepared")
    case False
    then show ?thesis using 2 by (simp add: Let_def)
  next
    case True
    obtain w1 r where c: "carry_out g se ts (ts ! i) (tk_discards (ts ! i) ! j) w = (w1, r)"
      by (cases "carry_out g se ts (ts ! i) (tk_discards (ts ! i) ! j) w")
    let ?ts = "\<lambda>head. ts[i := finished_discard head j (ts ! i)]"
    have i: "i < length ts" using 2(4) by simp
    show ?thesis
    proof (cases r)
      case (Inl e1)
      then show ?thesis using 2(3) True c by (simp add: Let_def)
    next
      case (Inr head)
      show ?thesis
      proof (cases "saves (?ts head)")
        case False
        then show ?thesis using 2(3) True c Inr by (simp add: Let_def)
      next
        case saved: True
        then have "carry_out_all g se saves rest (?ts head) w1 = (w', us, e)"
          using 2(3) True c Inr by (simp add: Let_def)
        then have "same_shape (?ts head) us"
          using 2(2)[OF refl refl _ c[symmetric] Inr refl saved] True 2(4) by simp
        then show ?thesis using same_shape_finished[OF i] same_shape_trans by blast
      qed
    qed
  qed
qed simp

lemma carry_out_all_finished:
  assumes "carry_out_all g se saves ps ts w = (w', us, None)"
    "\<forall>(i, j) \<in> set ps. i < length ts \<and> j < length (tk_discards (ts ! i))"
  shows "\<forall>(i, j) \<in> set ps. di_state (tk_discards (us ! i) ! j) \<noteq> Prepared"
  using assms
proof (induction g se saves ps ts w rule: carry_out_all.induct)
  case (2 g se saves i j rest ts w)
  have ij: "i < length ts" "j < length (tk_discards (ts ! i))" using 2(4) by auto
  have keep: "di_state (tk_discards (us ! i) ! j) \<noteq> Prepared"
    if "same_shape vs us" "di_state (tk_discards (vs ! i) ! j) \<noteq> Prepared" "length vs = length ts"
      "length (tk_discards (vs ! i)) = length (tk_discards (ts ! i))" for vs
    using that ij by (auto simp: same_shape_def list_all2_conv_all_nth)
  show ?case
  proof (cases "di_state (tk_discards (ts ! i) ! j) = Prepared")
    case False
    then have r: "carry_out_all g se saves rest ts w = (w', us, None)" using 2(3) by (simp add: Let_def)
    have "\<forall>(i, j) \<in> set rest. i < length ts" using 2(4) by auto
    then have "di_state (tk_discards (us ! i) ! j) \<noteq> Prepared"
      using keep[OF carry_out_all_shape[OF r]] False by simp
    moreover have "\<forall>(i, j) \<in> set rest. di_state (tk_discards (us ! i) ! j) \<noteq> Prepared"
      using 2(1)[OF refl refl _ r] False 2(4) by simp
    ultimately show ?thesis by simp
  next
    case True
    obtain w1 head where c: "carry_out g se ts (ts ! i) (tk_discards (ts ! i) ! j) w = (w1, Inr head)"
        "saves (ts[i := finished_discard head j (ts ! i)])"
      using 2(3) True by (auto simp: Let_def split: prod.splits sum.splits if_splits)
    let ?vs = "ts[i := finished_discard head j (ts ! i)]"
    have r: "carry_out_all g se saves rest ?vs w1 = (w', us, None)"
      using 2(3) True c by (simp add: Let_def)
    have len: "length (tk_discards (?vs ! a)) = length (tk_discards (ts ! a))" if "a < length ts" for a
      using that by (cases "a = i") (simp_all add: finished_discard_def Let_def)
    have pos: "\<forall>(a, b) \<in> set rest. a < length ?vs \<and> b < length (tk_discards (?vs ! a))"
      using 2(4) len by fastforce
    have "di_state (tk_discards (?vs ! i) ! j) \<noteq> Prepared"
      using ij by (simp add: finished_discard_def Let_def)
    moreover have "\<forall>(a, b) \<in> set rest. a < length ?vs" using pos by auto
    ultimately have "di_state (tk_discards (us ! i) ! j) \<noteq> Prepared"
      using keep[OF carry_out_all_shape[OF r]] len[OF ij(1)] by simp
    moreover have "\<forall>(a, b) \<in> set rest. di_state (tk_discards (us ! a) ! b) \<noteq> Prepared"
      using 2(2)[OF refl refl _ c(1)[symmetric] refl refl c(2) r pos] True by simp
    ultimately show ?thesis by simp
  qed
qed simp

lemma discard_positions_iff:
  "(i, j) \<in> set (discard_positions ts) \<longleftrightarrow> i < length ts \<and> j < length (tk_discards (ts ! i))"
  by (auto simp: discard_positions_def image_iff)

lemma recover_discards_shape:
  assumes "recover_discards g se saves ro ts w = (w', us, e)"
  shows "same_shape ts us"
proof -
  have "\<forall>(i, j) \<in> set (discard_positions ts). i < length ts" by (auto simp: discard_positions_iff)
  then show ?thesis using assms carry_out_all_shape by (fastforce simp: recover_discards_def split: if_splits)
qed

text \<open>Recovery of the discards either finishes all of them or reports an error.\<close>

lemma recovered_discards_finished:
  assumes "recover_discards g se saves ro ts w = (w', us, None)"
  shows "\<not> has_prepared_discard us"
proof (cases "has_prepared_discard ts")
  case False
  then show ?thesis using assms by (simp add: recover_discards_def)
next
  case True
  then have r: "carry_out_all g se saves (discard_positions ts) ts w = (w', us, None)"
    using assms by (simp add: recover_discards_def split: if_splits)
  have fin: "\<forall>(i, j) \<in> set (discard_positions ts). di_state (tk_discards (us ! i) ! j) \<noteq> Prepared"
    by (rule carry_out_all_finished[OF r]) (auto simp: discard_positions_iff)
  have sh: "length us = length ts" "\<And>i. i < length ts \<Longrightarrow> length (tk_discards (us ! i)) = length (tk_discards (ts ! i))"
    using recover_discards_shape[OF assms] by (auto simp: same_shape_def list_all2_conv_all_nth)
  show ?thesis
  proof
    assume "has_prepared_discard us"
    then obtain t d where "t \<in> set us" "d \<in> set (tk_discards t)" "di_state d = Prepared"
      by (auto simp: has_prepared_discard_def list_ex_iff)
    then obtain i j where "i < length us" "j < length (tk_discards (us ! i))"
        "di_state (tk_discards (us ! i) ! j) = Prepared"
      by (metis in_set_conv_nth)
    moreover have "(i, j) \<in> set (discard_positions ts)" using calculation(1,2) sh by (simp add: discard_positions_iff)
    ultimately show False using fin by auto
  qed
qed

definition same_files :: "task list \<Rightarrow> task list \<Rightarrow> bool" where
  "same_files = list_all2 (\<lambda>t u. tk_file u = tk_file t \<and> tk_history u = tk_history t \<and> tk_attempts u = tk_attempts t
     \<and> (tk_status u = tk_status t \<or> tk_status u = Pending))"

lemma same_files_trans: "same_files ts us \<Longrightarrow> same_files us vs \<Longrightarrow> same_files ts vs"
  unfolding same_files_def list_all2_conv_all_nth by force

lemma same_shape_files: "same_shape ts us \<Longrightarrow> same_files ts us"
  unfolding same_shape_def same_files_def list_all2_conv_all_nth by blast

lemma same_files_refl [simp]: "same_files ts ts"
  by (simp add: same_files_def list_all2_conv_all_nth)

lemma same_files_add_discard: "same_files ts (ts[k := (ts ! k)\<lparr>tk_discards := ds\<rparr>])"
proof -
  have "tk_file (ts[k := (ts ! k)\<lparr>tk_discards := ds\<rparr>] ! i) = tk_file (ts ! i)
      \<and> tk_history (ts[k := (ts ! k)\<lparr>tk_discards := ds\<rparr>] ! i) = tk_history (ts ! i)
      \<and> tk_attempts (ts[k := (ts ! k)\<lparr>tk_discards := ds\<rparr>] ! i) = tk_attempts (ts ! i)
      \<and> tk_status (ts[k := (ts ! k)\<lparr>tk_discards := ds\<rparr>] ! i) = tk_status (ts ! i)" if "i < length ts" for i
    using that by (cases "i = k") simp_all
  then show ?thesis by (simp add: same_files_def list_all2_conv_all_nth)
qed

lemma discard_file_changes_files:
  assumes "discard_file_changes g se saves i file ts w = (w', us, e)"
  shows "same_files ts us"
proof (cases "filter (\<lambda>n. tk_file (ts ! n) = file) [0..<length ts]")
  case Nil
  then show ?thesis using assms by (simp add: discard_file_changes_def)
next
  case (Cons n ns)
  let ?k = "last (n # ns)"
  show ?thesis
  proof (cases "prepare_discard g se i ts (ts ! ?k) w")
    case (Inl x)
    then show ?thesis using assms Cons by (simp add: discard_file_changes_def Let_def)
  next
    case (Inr d)
    let ?ts = "ts[?k := (ts ! ?k)\<lparr>tk_discards := tk_discards (ts ! ?k) @ [d]\<rparr>]"
    have "us = ts \<or> recover_discards g se saves False ?ts w = (w', us, e)"
      using assms Cons Inr unfolding discard_file_changes_def Let_def
      by (simp only: list.case sum.case split: if_splits) simp_all
    then show ?thesis
      using same_files_add_discard same_files_trans same_shape_files recover_discards_shape by (metis same_files_refl)
  qed
qed

end
