(* ===== verification/QueueSteps.thy ===== *)
theory QueueSteps
  imports Execution Discards
begin

section \<open>Every change of the queue (engine/runner.go, service.go, task_selection.go)\<close>

text \<open>
  The remaining operations that rewrite the queue (choosing files, asking for a retry, choosing the
  files of a run), one step relation over all of them, and the theorem that whatever they write can
  be read back.
\<close>

subsection \<open>Choosing files\<close>

definition current_rules :: "task list \<Rightarrow> string \<Rightarrow> bool" where
  "current_rules ts f = (case find (\<lambda>t. tk_file t = f) (rev ts) of Some t \<Rightarrow> tk_rules t \<noteq> [] | None \<Rightarrow> False)"

definition requeue :: "(string \<Rightarrow> string option) option \<Rightarrow> task \<Rightarrow> task" where
  "requeue hash_of t = t\<lparr>tk_status := Pending, tk_note := ''queued again'',
     tk_input_hash := (case hash_of of None \<Rightarrow> tk_input_hash t
       | Some h \<Rightarrow> (case h (tk_file t) of None \<Rightarrow> tk_input_hash t | Some x \<Rightarrow> x)),
     tk_resume_requested := True\<rparr>"

text \<open>
  \<open>hash_of\<close> gives the hashes of the sources in the working copy, when there is one. Both commands
  recover interrupted attempts first (Recovery); the queue they rewrite is the recovered one.
\<close>

definition select_task :: "(string \<Rightarrow> string option) option \<Rightarrow> string list \<Rightarrow> task \<Rightarrow> task" where
  "select_task hash_of checked t =
     (let t1 = t\<lparr>tk_excluded := tk_file t \<notin> set checked\<rparr> in
      if tk_excluded t1 \<or> tk_status t1 \<noteq> Needs_human then t1 else requeue hash_of t1)"

definition selection_changes :: "string list \<Rightarrow> task list \<Rightarrow> bool" where
  "selection_changes checked ts \<longleftrightarrow>
     list_ex (\<lambda>t. tk_excluded t = (tk_file t \<in> set checked)
       \<or> tk_file t \<in> set checked \<and> tk_status t = Needs_human) ts"

definition set_task_selection ::
  "(string \<Rightarrow> string option) option \<Rightarrow> string list \<Rightarrow> task list \<Rightarrow> (string, task list option) outcome" where
  "set_task_selection hash_of checked ts =
     (case find (\<lambda>f. \<not> current_rules ts f) checked of
        Some f \<Rightarrow> Inl f
      | None \<Rightarrow> Inr (if selection_changes checked ts then Some (map (select_task hash_of checked) ts) else None))"

definition retry_tasks ::
  "(string \<Rightarrow> string option) option \<Rightarrow> string list \<Rightarrow> task list \<Rightarrow> (string, task list) outcome" where
  "retry_tasks hash_of wanted ts =
     (case find (\<lambda>f. \<not> current_rules ts f) wanted of
        Some f \<Rightarrow> Inl f
      | None \<Rightarrow> Inr (map (\<lambda>t. if tk_file t \<in> set wanted then requeue hash_of (t\<lparr>tk_excluded := False\<rparr>) else t) ts))"

text \<open>The files of one run (engine/parallel_run.go), and when a file is tried again.\<close>

definition to_run :: "status \<Rightarrow> bool" where
  "to_run st \<longleftrightarrow> st = Pending \<or> st = Failed"

definition run_targets :: "(string \<Rightarrow> bool) \<Rightarrow> int \<Rightarrow> task list \<Rightarrow> nat list" where
  "run_targets targeted limit ts =
     (let is = filter (\<lambda>i. targeted (tk_file (ts ! i)) \<and> \<not> tk_excluded (ts ! i) \<and> to_run (tk_status (ts ! i)))
                 [0..<length ts]
      in if limit > 0 then take (nat limit) is else is)"

subsection \<open>The step relation\<close>

inductive queue_step ::
  "'w git \<Rightarrow> 'w discard_git \<Rightarrow> task list \<Rightarrow> task list \<Rightarrow> bool" for g dg where
  started: "queue_step g dg (pre @ t # post) (pre @ u # post)"
    if "start_execution env ar t = (saved, r)" "u \<in> set saved"
      "valid_id (xv_new_id env)" "xv_new_id env \<notin> set (attempt_ids (pre @ t # post))"
| checkpointed: "queue_step g dg (pre @ ex_task x # post) (pre @ u # post)"
    if "persist_repair env state x = (x', e)" "ex_saved x = []" "u \<in> set (ex_saved x')"
      "tk_history (ex_task x) \<noteq> []" "at_id (ex_attempt x) = at_id (last (tk_history (ex_task x)))"
| validated: "queue_step g dg (pre @ ex_task x # post) (pre @ u # post)"
    if "attempt_validation env world inp content has_diff req x = (x', v)" "ex_saved x = []" "u \<in> set (ex_saved x')"
      "tk_history (ex_task x) \<noteq> []" "at_id (ex_attempt x) = at_id (last (tk_history (ex_task x)))"
| failed: "queue_step g dg (pre @ ex_task x # post) (pre @ u # post)"
    if "agent_failed env stopped unknown fatal msg rules reported x = (Some u, e)"
      "tk_history (ex_task x) \<noteq> []" "at_id (ex_attempt x) = at_id (last (tk_history (ex_task x)))"
| adopted: "queue_step g dg (pre @ ad_task s # post) (pre @ u # post)"
    if "adopt env p s = (s', stop)" "ad_effects s = []" "Saved u \<in> set (ad_effects s')"
      "tk_history (ad_task s) \<noteq> []" "at_id (ad_attempt s) = at_id (last (tk_history (ad_task s)))"
| recovered: "queue_step g dg ts us"
    if "recover_attempts g se ts w ar = (w', ar', Inr us)"
| discarded: "queue_step g dg ts us"
    if "discard_file_changes dg se saves i file ts w = (w', us, e)"
| discards_recovered: "queue_step g dg ts us"
    if "recover_discards dg se saves read_only ts w = (w', us, e)"
| selected: "queue_step g dg ts us"
    if "set_task_selection hash_of checked ts = Inr (Some us)"
| retried: "queue_step g dg ts us"
    if "retry_tasks hash_of wanted ts = Inr us"

definition reachable_queue :: "'w git \<Rightarrow> 'w discard_git \<Rightarrow> task list \<Rightarrow> task list \<Rightarrow> bool" where
  "reachable_queue g dg = (queue_step g dg)\<^sup>*\<^sup>*"

subsection \<open>What every step keeps\<close>

definition kept :: "task \<Rightarrow> task \<Rightarrow> bool" where
  "kept t u \<longleftrightarrow> tk_file u = tk_file t \<and> tk_attempts u = tk_attempts t
     \<and> map at_id (tk_history u) = map at_id (tk_history t)
     \<and> (queue_status (tk_status t) \<longrightarrow> queue_status (tk_status u))"

lemma kept_refl [simp]: "kept t t"
  by (simp add: kept_def)

lemma kept_trans: "kept t u \<Longrightarrow> kept u v \<Longrightarrow> kept t v"
  by (simp add: kept_def)

lemma ids_valid: "list_all (\<lambda>h. valid_id (at_id h)) hs \<longleftrightarrow> list_all valid_id (map at_id hs)"
  by (simp add: list_all_iff)

lemma kept_task_ok: "kept t u \<Longrightarrow> task_ok t \<Longrightarrow> task_ok u"
  unfolding kept_def task_ok_def ids_valid by simp

lemma kept_queue_ok:
  assumes "list_all2 kept ts us" "queue_ok lower ts"
  shows "queue_ok lower us"
proof -
  have "map tk_file us = map tk_file ts" "map (\<lambda>t. map at_id (tk_history t)) us = map (\<lambda>t. map at_id (tk_history t)) ts"
    using assms(1) by (induction rule: list_all2_induct) (auto simp: kept_def)
  moreover have "map (\<lambda>t. lower (tk_file t)) us = map lower (map tk_file us)"
      "map (\<lambda>t. lower (tk_file t)) ts = map lower (map tk_file ts)" by simp_all
  moreover have "list_all task_ok us"
    using assms(1) assms(2)[unfolded queue_ok_def, THEN conjunct1] kept_task_ok
    by (induction rule: list_all2_induct) auto
  ultimately show ?thesis using assms(2) unfolding queue_ok_def attempt_ids_def by metis
qed

lemma kept_one: "kept t u \<Longrightarrow> list_all2 kept (pre @ t # post) (pre @ u # post)"
  by (intro list_all2_appendI) (simp_all add: list_all2_refl)

lemma kept_record:
  assumes "tk_history t \<noteq> []" "at_id h = at_id (last (tk_history t))"
  shows "kept t (record_attempt h t)"
proof -
  have "map at_id (butlast (tk_history t)) @ [at_id (last (tk_history t))] = map at_id (tk_history t)"
    using assms(1) by (metis append_butlast_last_id list.simps(8,9) map_append)
  then show ?thesis using assms(2) by (simp add: kept_def record_attempt_def)
qed

lemma kept_finished:
  assumes "tk_history t \<noteq> []" "at_id h = at_id (last (tk_history t))" "queue_status st"
  shows "kept t (finished_task st msg h t)"
  using kept_record[OF assms(1,2)] assms(3)
  by (auto simp: kept_def finished_task_def record_attempt_def queue_status_def Let_def)

subsection \<open>Adoption\<close>

definition saves_kept :: "task \<Rightarrow> adoption \<Rightarrow> bool" where
  "saves_kept t s \<longleftrightarrow> (\<forall>u. Saved u \<in> set (ad_effects s) \<longrightarrow> kept t u)"

definition sane :: "task \<Rightarrow> adoption \<Rightarrow> bool" where
  "sane t s \<longleftrightarrow> saves_kept t s \<and> kept t (ad_task s) \<and> tk_history (ad_task s) \<noteq> []
     \<and> at_id (ad_attempt s) = at_id (last (tk_history (ad_task s)))"

lemma sane_emit [simp]: "(\<forall>u. e \<noteq> Saved u) \<Longrightarrow> sane t (emit e s) = sane t s"
  by (auto simp: sane_def saves_kept_def)

lemma sane_on_attempt [simp]: "(\<And>h. at_id (f h) = at_id h) \<Longrightarrow> sane t (on_attempt f s) = sane t s"
  by (simp add: sane_def saves_kept_def)

lemma sane_head [simp]: "sane t (s\<lparr>ad_head := c\<rparr>) = sane t s"
  by (simp add: sane_def saves_kept_def)

lemma sane_saves: "sane t s \<Longrightarrow> saves_kept t s"
  by (simp add: sane_def)

lemma sane_journal:
  assumes "sane t s"
  shows "sane t (s\<lparr>ad_task := record_attempt (ad_attempt s) (ad_task s)\<rparr>)"
    "sane t (emit (Saved (record_attempt (ad_attempt s) (ad_task s)))
       (s\<lparr>ad_task := record_attempt (ad_attempt s) (ad_task s)\<rparr>))"
proof -
  have "kept t (record_attempt (ad_attempt s) (ad_task s))"
    using assms kept_record kept_trans unfolding sane_def by blast
  then show "sane t (s\<lparr>ad_task := record_attempt (ad_attempt s) (ad_task s)\<rparr>)"
    "sane t (emit (Saved (record_attempt (ad_attempt s) (ad_task s)))
       (s\<lparr>ad_task := record_attempt (ad_attempt s) (ad_task s)\<rparr>))"
    using assms by (auto simp: sane_def saves_kept_def emit_def record_attempt_def)
qed

lemma finish_now_kept:
  assumes "finish_now env st msg s = (s', stop)" "sane t s" "final_status st"
  shows "saves_kept t s'"
proof -
  let ?h = "(ad_attempt s)\<lparr>at_outcome := st, at_note := msg\<rparr>"
  have "queue_status st" using assms(3) by (auto simp: final_status_def queue_status_def)
  then have "kept t (finished_task st msg ?h (ad_task s))"
    using kept_finished[of "ad_task s" ?h st msg] kept_trans assms(2) by (auto simp: sane_def)
  then show ?thesis using assms(1,2)
    by (auto simp: finish_now_def Let_def saves_kept_def sane_def split: if_splits)
qed

lemma roll_back_kept: "sane t s \<Longrightarrow> saves_kept t (roll_back env s)"
  by (auto simp: roll_back_def sane_def saves_kept_def)

lemma roll_back_and_fail_kept:
  assumes "roll_back_and_fail env msg s = (s', stop)" "sane t s"
  shows "saves_kept t s'"
  using assms finish_now_kept[of env Failed msg "emit Rolled_back s" s' stop t]
  by (auto simp: roll_back_and_fail_def final_status_def sane_saves split: if_splits)

lemma commit_bytes_kept:
  assumes run: "commit_bytes env p s = (s', stop)" and s: "sane t s"
  shows "saves_kept t s'"
proof -
  define s1 where "s1 = on_attempt (\<lambda>h. h\<lparr>at_outcome := Validated, at_note := pr_note p\<rparr>) s"
  define s2 where "s2 = s1\<lparr>ad_task := record_attempt (ad_attempt s1) (ad_task s1)\<rparr>"
  define s3 where "s3 = emit (Saved (record_attempt (ad_attempt s1) (ad_task s1))) s2"
  have "sane t s1" using s by (simp add: s1_def)
  then have sn: "sane t s2" "sane t s3" using sane_journal by (simp_all add: s2_def s3_def)
  then have s4: "saves_kept t (emit Staged s3)" "saves_kept t (emit Committed (emit Staged s3))"
    by (auto simp: sane_def saves_kept_def)
  have fin: "saves_kept t s'" if "finish_now env st msg
      ((on_attempt (\<lambda>h. h\<lparr>at_commit := c\<rparr>) (emit Committed (emit Staged s3)))\<lparr>ad_head := c\<rparr>) = (s', stop)"
      "final_status st" for st msg c
    using finish_now_kept[OF that(1) _ that(2)] sn(2) by simp
  show ?thesis
    using run roll_back_kept[OF sn(1)] roll_back_and_fail_kept[OF _ sn(2)] s4 fin
    unfolding commit_bytes_def Let_def s1_def[symmetric] s2_def[symmetric] s3_def[symmetric]
    by (auto simp: final_status_def split: if_splits commit_answer.splits option.splits)
qed

lemma write_bytes_kept:
  assumes run: "write_bytes env p validated after s = (s', stop)" and s: "sane t s"
  shows "saves_kept t s'"
  using run s finish_now_kept[of env Needs_human _ s s' stop t] roll_back_and_fail_kept[of env _ _ s' stop t]
    roll_back_kept[of t] commit_bytes_kept[of env p _ s' stop t]
  unfolding write_bytes_def Let_def
  by (auto simp: final_status_def sane_saves split: if_splits option.splits)

lemma adopt_bytes_kept:
  assumes run: "adopt_bytes env p validated after s = (s', stop)" and s: "sane t s"
  shows "saves_kept t s'"
proof -
  define s1 where "s1 = on_attempt (\<lambda>h. h\<lparr>at_commit_base := ad_head s, at_output_hash := ae_digest env after\<rparr>) s"
  define s0 where "s0 = emit (Put After_file after) s1"
  define s2 where "s2 = s0\<lparr>ad_task := record_attempt (ad_attempt s0) (ad_task s0)\<rparr>"
  define s3 where "s3 = emit (Saved (record_attempt (ad_attempt s0) (ad_task s0))) s2"
  have s0: "sane t s1" "sane t s0" "ad_attempt s0 = ad_attempt s1" "ad_task s0 = ad_task s1"
    using s by (simp_all add: s1_def s0_def)
  then have "sane t s2" "sane t s3" using sane_journal[OF s0(2)] by (simp_all add: s2_def s3_def)
  then show ?thesis
    using run s s0(1) finish_now_kept[of env Needs_human _ s s' stop t] write_bytes_kept[of env p validated after s3 s' stop t]
    unfolding adopt_bytes_def Let_def s1_def[symmetric] s0_def[symmetric] s0(3,4)[symmetric] s2_def[symmetric] s3_def[symmetric]
    by (auto simp: final_status_def sane_saves split: if_splits)
qed

lemma adopt_unchanged_kept:
  assumes run: "adopt_unchanged env p s = (s', stop)" and s: "sane t s"
  shows "saves_kept t s'"
  using run s finish_now_kept[of env Failed _ s s' stop t] finish_now_kept[of env Needs_human _ s s' stop t]
    finish_now_kept[of env Skipped _ _ s' stop t]
  unfolding adopt_unchanged_def Let_def
  by (auto simp: final_status_def sane_saves split: if_splits)

lemma adopt_kept:
  assumes run: "adopt env p s = (s', stop)" and s: "sane t s"
  shows "saves_kept t s'"
proof -
  have "saves_kept t s'" if m: "adopt_modified env p s = (s', stop)"
    using m s finish_now_kept[of env Failed _ s s' stop t] finish_now_kept[of env Needs_human _ _ s' stop t]
      adopt_bytes_kept[of env p _ _ _ s' stop t]
    unfolding adopt_modified_def Let_def
    by (auto simp: final_status_def split: if_splits option.splits sum.splits)
  then show ?thesis
    using run s adopt_unchanged_kept[OF _ s] finish_now_kept[of env _ _ s s' stop t]
    unfolding adopt_def by (auto simp: final_status_def split: if_splits outcome_kind.splits)
qed

subsection \<open>Recovery, discards and selection\<close>

lemma recover_commit_kept:
  assumes "recover_commit g se ar head t (last (tk_history t)) w = Inr u" "tk_history t \<noteq> []"
  shows "kept t u"
proof -
  obtain h where h: "reviewed_attempt se ar (last (tk_history t)) = Inr h"
      "u = record_attempt (h\<lparr>at_outcome := (if at_partial h then Needs_human else Done), at_commit := head\<rparr>)
        (t\<lparr>tk_status := (if at_partial h then Needs_human else Done), tk_rules_applied := at_rules_applied h,
           tk_note := recovered_note (at_partial h)\<rparr>)"
    using assms(1) by (auto simp: recover_commit_def Let_def split: option.splits sum.splits)
  have "at_id h = at_id (last (tk_history t))"
    using h(1) by (auto simp: reviewed_attempt_def Let_def split: sum.splits option.splits if_splits)
  then show ?thesis
    using kept_record[of t "h\<lparr>at_outcome := (if at_partial h then Needs_human else Done), at_commit := head\<rparr>"] assms(2)
    unfolding h(2) by (auto simp: kept_def record_attempt_def queue_status_def)
qed

lemma kept_interrupted:
  assumes "tk_history t \<noteq> []" "at_id h = at_id (last (tk_history t))"
  shows "kept t (record_attempt h (t\<lparr>tk_status := Needs_human, tk_note := n\<rparr>))"
    "kept t (record_attempt h (t\<lparr>tk_status := Needs_human, tk_note := n, tk_resume_requested := b\<rparr>))"
  using kept_record[OF assms] by (auto simp: kept_def record_attempt_def queue_status_def)

lemma interrupt_attempt_kept:
  assumes "interrupt_attempt g se head t (last (tk_history t)) w ar = (ar', Inr u)" "tk_history t \<noteq> []"
  shows "kept t u"
  using assms unfolding interrupt_attempt_def Let_def
  by (auto split: if_splits sum.splits option.splits prod.splits intro!: kept_interrupted)

lemma recover_task_kept:
  assumes "recover_task g se head message t w ar = (ar', Inr (u, ks))"
  shows "kept t u"
  using assms recover_commit_kept[of g se ar head t w u] interrupt_attempt_kept[of g se head t w ar ar' u]
  by (cases "recover_commit g se ar head t (last (tk_history t)) w";
      cases "snd (interrupt_attempt g se head t (last (tk_history t)) w ar)")
    (auto simp: recover_task_def Let_def split: if_splits prod.splits)

lemma recover_tasks_kept:
  "recover_tasks g se head message ts w ar = (ar', Inr (us, ks)) \<Longrightarrow> list_all2 kept ts us"
proof (induction ts arbitrary: ar us ks)
  case (Cons t ts)
  then show ?case using recover_task_kept by (fastforce split: prod.splits sum.splits)
qed simp

lemma recover_attempts_kept:
  "recover_attempts g se ts w ar = (w', ar', Inr us) \<Longrightarrow> list_all2 kept ts us"
  using recover_tasks_kept by (fastforce simp: recover_attempts_def split: option.splits prod.splits sum.splits)

lemma same_files_kept: "same_files ts us \<Longrightarrow> list_all2 kept ts us"
  unfolding same_files_def kept_def by (elim list_all2_mono) (auto simp: queue_status_def)

lemma requeue_kept: "kept t (requeue hash_of t)"
  by (simp add: kept_def requeue_def queue_status_def)

lemma kept_map: "(\<And>t. kept t (f t)) \<Longrightarrow> list_all2 kept ts (map f ts)"
  by (simp add: list_all2_conv_all_nth)

lemma set_task_selection_kept:
  assumes "set_task_selection hash_of checked ts = Inr (Some us)"
  shows "list_all2 kept ts us"
proof -
  have "kept t (select_task hash_of checked t)" for t
    using requeue_kept[of "t\<lparr>tk_excluded := tk_file t \<notin> set checked\<rparr>" hash_of]
    by (auto simp: select_task_def kept_def Let_def)
  then show ?thesis using assms kept_map
    by (auto simp: set_task_selection_def split: option.splits if_splits)
qed

lemma retry_tasks_kept:
  assumes "retry_tasks hash_of wanted ts = Inr us"
  shows "list_all2 kept ts us"
proof -
  have "kept t (if tk_file t \<in> set wanted then requeue hash_of (t\<lparr>tk_excluded := False\<rparr>) else t)" for t
    using requeue_kept[of "t\<lparr>tk_excluded := False\<rparr>" hash_of] by (auto simp: kept_def)
  then show ?thesis using assms kept_map
    by (auto simp: retry_tasks_def split: option.splits)
qed

subsection \<open>Attempts\<close>

lemma save_execution_kept:
  assumes "save_execution env p x = (x', e)" "tk_history (ex_task x) \<noteq> []"
    "at_id (ex_attempt x) = at_id (last (tk_history (ex_task x)))"
  shows "kept (ex_task x) (ex_task x') \<and> ex_attempt x' = ex_attempt x \<and> tk_history (ex_task x') \<noteq> []
    \<and> last (tk_history (ex_task x')) = ex_attempt x'
    \<and> (\<exists>us. ex_saved x' = ex_saved x @ us \<and> (\<forall>u \<in> set us. kept (ex_task x) u))"
  using assms kept_record[of "ex_task x" "ex_attempt x"]
  by (auto simp: save_execution_def Let_def record_attempt_def split: if_splits)

lemma persist_repair_kept:
  assumes run: "persist_repair env state x = (x', e)" and x: "tk_history (ex_task x) \<noteq> []"
    "at_id (ex_attempt x) = at_id (last (tk_history (ex_task x)))"
  shows "kept (ex_task x) (ex_task x') \<and> (\<exists>us. ex_saved x' = ex_saved x @ us \<and> (\<forall>u \<in> set us. kept (ex_task x) u))
    \<and> at_id (ex_attempt x') = at_id (ex_attempt x)"
proof -
  have saved: "kept (ex_task x) (ex_task y') \<and> (\<exists>us. ex_saved y' = ex_saved x @ us \<and> (\<forall>u \<in> set us. kept (ex_task x) u))
      \<and> at_id (ex_attempt y') = at_id (ex_attempt x)"
    if "save_execution env p y = (y', e')" "ex_task y = record_attempt (ex_attempt y) (ex_task x)"
      "at_id (ex_attempt y) = at_id (ex_attempt x)" "ex_saved y = ex_saved x" for p y y' e'
  proof -
    have k: "kept (ex_task x) (ex_task y)" using kept_record x that(2,3) by simp
    then have "tk_history (ex_task y) \<noteq> []" "at_id (ex_attempt y) = at_id (last (tk_history (ex_task y)))"
      using that(2) by (simp_all add: record_attempt_def)
    from save_execution_kept[OF that(1) this] show ?thesis using k kept_trans that(3,4) by metis
  qed
  have direct: "kept (ex_task x) (record_attempt h (ex_task x))" if "at_id h = at_id (ex_attempt x)" for h
    using kept_record x that by simp
  show ?thesis
    using run saved direct unfolding persist_repair_def Let_def
    by (auto split: prod.splits sum.splits option.splits if_splits)
qed

lemma attempt_validation_kept:
  assumes run: "attempt_validation env world inp content has_diff req x = (x', v)"
    and x: "tk_history (ex_task x) \<noteq> []" "at_id (ex_attempt x) = at_id (last (tk_history (ex_task x)))"
  shows "\<exists>us. ex_saved x' = ex_saved x @ us \<and> (\<forall>u \<in> set us. kept (ex_task x) u)"
proof -
  define inv :: "execution \<Rightarrow> bool" where "inv = (\<lambda>y. kept (ex_task x) (ex_task y) \<and> tk_history (ex_task y) \<noteq> []
      \<and> at_id (ex_attempt y) = at_id (last (tk_history (ex_task y)))
      \<and> (\<exists>us. ex_saved y = ex_saved x @ us \<and> (\<forall>u \<in> set us. kept (ex_task x) u)))"
  have step: "inv y'" if y: "inv y" "save_execution env p (y\<lparr>ex_attempt := h\<rparr>) = (y', e)" "at_id h = at_id (ex_attempt y)"
    for p y y' h e
  proof -
    obtain us where us: "ex_saved y = ex_saved x @ us" "\<forall>u \<in> set us. kept (ex_task x) u"
      using y(1) by (auto simp: inv_def)
    have yh: "tk_history (ex_task (y\<lparr>ex_attempt := h\<rparr>)) \<noteq> []"
        "at_id (ex_attempt (y\<lparr>ex_attempt := h\<rparr>)) = at_id (last (tk_history (ex_task (y\<lparr>ex_attempt := h\<rparr>))))"
      using y(1,3) by (simp_all add: inv_def)
    from save_execution_kept[OF y(2) yh] obtain vs where "ex_saved y' = ex_saved y @ vs"
        "\<forall>u \<in> set vs. kept (ex_task y) u" "kept (ex_task y) (ex_task y')" "tk_history (ex_task y') \<noteq> []"
        "last (tk_history (ex_task y')) = ex_attempt y'"
      by auto
    note v = this
    have k: "kept (ex_task x) (ex_task y)" using y(1) by (simp add: inv_def)
    have "\<forall>u \<in> set (us @ vs). kept (ex_task x) u" using us(2) v(2) kept_trans[OF k] by auto
    then have "\<exists>ws. ex_saved y' = ex_saved x @ ws \<and> (\<forall>u \<in> set ws. kept (ex_task x) u)"
      using us(1) v(1) by (intro exI[of _ "us @ vs"]) simp
    then show ?thesis using kept_trans[OF k v(3)] v(4,5) by (simp add: inv_def)
  qed
  have "inv x" using x by (simp add: inv_def)
  have jc: "inv (fst (journal_candidate env c x))" for c
  proof -
    obtain x1 e where sv: "journal_candidate env c x = (x1, e)" by (cases "journal_candidate env c x")
    have "inv x1" by (rule step[OF \<open>inv x\<close> sv[unfolded journal_candidate_def]]) simp
    then show ?thesis using sv by simp
  qed
  have rv: "inv y'" if "record_validation env has_diff c y = (y', e)" "inv y" for c y y' e
    using that(1) unfolding record_validation_def by (rule step[OF that(2)]) simp
  have "inv x'"
    using run jc rv \<open>inv x\<close> unfolding attempt_validation_def Let_def
    by (auto split: prod.splits if_splits option.splits validation_effect.splits)
  then show ?thesis by (simp add: inv_def)
qed

lemma agent_failed_kept:
  assumes run: "agent_failed env stopped unknown fatal msg rules reported x = (Some u, e)"
    and x: "tk_history (ex_task x) \<noteq> []" "at_id (ex_attempt x) = at_id (last (tk_history (ex_task x)))"
  shows "kept (ex_task x) u"
proof -
  obtain x1 where x1: "settle_usage env reported x = (x1, None)"
    using run by (auto simp: agent_failed_def split: prod.splits option.splits)
  define st where "st = failed_status stopped unknown fatal (ch_state (ex_checkpoint x1)) (ch_prior_usage (ex_checkpoint x1))"
  define h where "h = (ex_attempt x1)\<lparr>at_rules_applied := rules, at_usage :=
      (usage_since (rs_usage (ch_state (ex_checkpoint x1))) (ch_prior_usage (ex_checkpoint x1)))\<lparr>us_uncertain :=
        us_uncertain (usage_since (rs_usage (ch_state (ex_checkpoint x1))) (ch_prior_usage (ex_checkpoint x1))) \<or> unknown\<rparr>,
      at_outcome := st, at_note := msg\<rparr>"
  have u: "u = finished_task st msg h (ex_task x1)"
    using run x1 unfolding agent_failed_def Let_def finish_attempt_def st_def h_def by (auto split: if_splits)
  have k: "kept (ex_task x) (ex_task x1)" "at_id h = at_id (ex_attempt x)"
    using x1 persist_repair_kept[OF _ x] by (auto simp: settle_usage_def Let_def h_def split: if_splits)
  have "map at_id (tk_history (ex_task x1)) = map at_id (tk_history (ex_task x))"
    using k(1) by (simp add: kept_def)
  then have "tk_history (ex_task x1) \<noteq> []" "at_id (last (tk_history (ex_task x1))) = at_id (last (tk_history (ex_task x)))"
    using x(1) by (metis map_is_Nil_conv, metis last_map map_is_Nil_conv x(1))
  moreover have "queue_status st" by (simp add: st_def failed_status_def queue_status_def)
  ultimately have "kept (ex_task x1) u" using kept_finished[of "ex_task x1" h st msg] k(2) x(2) u by simp
  then show ?thesis using k(1) kept_trans by blast
qed

text \<open>The first part of an attempt adds its ID to the file, or keeps the IDs of a resumed one.\<close>

definition begun :: "string \<Rightarrow> task \<Rightarrow> task \<Rightarrow> bool" where
  "begun i t u \<longleftrightarrow> tk_file u = tk_file t \<and> tk_attempts t \<le> tk_attempts u \<and> queue_status (tk_status u)
     \<and> (map at_id (tk_history u) = map at_id (tk_history t)
        \<or> map at_id (tk_history u) = map at_id (tk_history t) @ [i])"

lemma begun_kept: "begun i t u \<Longrightarrow> kept u v \<Longrightarrow> begun i t v"
  by (auto simp: begun_def kept_def)

lemma begin_attempt_begun:
  assumes "begin_attempt env c t = (t1, h)"
  shows "begun (xv_new_id env) t t1 \<and> tk_history t1 \<noteq> [] \<and> last (tk_history t1) = h"
proof (cases "resumes env t c")
  case True
  then have "tk_history t \<noteq> []"
    by (auto simp: resumes_def unfinished_repair_def repair_history_def Let_def split: if_splits)
  then have "kept t (record_attempt (resumed_attempt env (last (tk_history t))) t)"
    by (intro kept_record) (simp_all add: resumed_attempt_def)
  then show ?thesis using assms True
    by (auto simp: begin_attempt_def begun_def kept_def record_attempt_def queue_status_def Let_def)
next
  case False
  then show ?thesis using assms
    by (auto simp: begin_attempt_def begun_def new_attempt_def queue_status_def Let_def)
qed

lemma prepare_execution_saved:
  assumes run: "prepare_execution env ar resume loaded h t saved = (saved', r)"
    and t: "tk_history t \<noteq> []" "at_id h = at_id (last (tk_history t))"
  shows "\<forall>u \<in> set saved'. u \<in> set saved \<or> kept t u"
proof -
  define t1 where "t1 = record_attempt h t"
  define x where "x = \<lparr>ex_task = t1, ex_attempt = h, ex_checkpoint = prepare_checkpoint env resume loaded t1 h,
               ex_artifacts = ar, ex_written = Map.empty, ex_saved = saved @ [t1]\<rparr>"
  have k: "kept t t1" using kept_record[OF t] by (simp add: t1_def)
  have x: "tk_history (ex_task x) \<noteq> []" "at_id (ex_attempt x) = at_id (last (tk_history (ex_task x)))"
    by (simp_all add: x_def t1_def record_attempt_def)
  obtain x1 e where p: "persist_repair env (ch_state (ex_checkpoint x)) x = (x1, e)"
    by (cases "persist_repair env (ch_state (ex_checkpoint x)) x")
  have "saved' = saved \<or> saved' = ex_saved x1"
    using run p unfolding prepare_execution_def Let_def t1_def[symmetric] x_def[symmetric]
    by (auto split: if_splits option.splits)
  moreover have "\<forall>u \<in> set (ex_saved x1). u \<in> set saved \<or> kept t u"
    using persist_repair_kept[OF p x] k kept_trans by (auto simp: x_def)
  ultimately show ?thesis by auto
qed

lemma start_execution_begun:
  assumes run: "start_execution env ar t = (saved, r)" and u: "u \<in> set saved"
  shows "begun (xv_new_id env) t u"
proof -
  define t2 where "t2 = (\<lambda>t1 :: task. t1\<lparr>tk_input_hash := (if tk_input_hash t = [] then input_hash_of env t else tk_input_hash t)\<rparr>)"
  define h1 where "h1 = (\<lambda>h :: attempt. h\<lparr>at_input_hash := (if input_hash_of env t = [] then at_input_hash h else input_hash_of env t)\<rparr>)"
  have t2: "kept t1 (t2 t1)" "tk_history (t2 t1) = tk_history t1" "at_id (h1 h) = at_id h" for t1 h
    by (simp_all add: t2_def h1_def kept_def)
  obtain loaded where "saved = [] \<or> (\<exists>t1 h msg. begin_attempt env loaded t = (t1, h) \<and>
      (ended_start env msg (h1 h) (t2 t1) [t1] = (saved, r)
       \<or> prepare_execution env ar (resumes env t loaded) loaded (h1 h) (t2 t1) [t1] = (saved, r)))"
    using run unfolding start_execution_def Let_def t2_def h1_def
    by (auto split: if_splits sum.splits prod.splits option.splits)
  then obtain t1 h msg where b: "begin_attempt env loaded t = (t1, h)" and
      r: "ended_start env msg (h1 h) (t2 t1) [t1] = (saved, r)
       \<or> prepare_execution env ar (resumes env t loaded) loaded (h1 h) (t2 t1) [t1] = (saved, r)"
    using u by auto
  have bg: "begun (xv_new_id env) t t1" "tk_history (t2 t1) \<noteq> []" "at_id (h1 h) = at_id (last (tk_history (t2 t1)))"
    using begin_attempt_begun[OF b] t2 by auto
  have "u = t1 \<or> kept (t2 t1) u"
  proof (cases "ended_start env msg (h1 h) (t2 t1) [t1] = (saved, r)")
    case True
    have "kept (t2 t1) (finish_attempt Needs_human msg (h1 h) (t2 t1))"
      using kept_finished[OF bg(2), of "(h1 h)\<lparr>at_outcome := Needs_human, at_note := msg\<rparr>" Needs_human msg] bg(3)
      by (simp add: finish_attempt_def queue_status_def)
    then show ?thesis using True u by (auto simp: ended_start_def Let_def split: if_splits)
  next
    case False
    then show ?thesis using prepare_execution_saved[OF _ bg(2,3)] r u by fastforce
  qed
  then show ?thesis using bg(1) begun_kept t2(1) by blast
qed

lemma begun_queue_ok:
  assumes q: "queue_ok lower (pre @ t # post)" and b: "begun i t u"
    and i: "valid_id i" "i \<notin> set (attempt_ids (pre @ t # post))"
  shows "queue_ok lower (pre @ u # post)"
proof -
  have t: "task_ok t" using q by (simp add: queue_ok_def)
  have "task_ok u" using b t i(1) unfolding task_ok_def ids_valid begun_def by auto
  moreover have ids: "attempt_ids (pre @ v # post) = attempt_ids pre @ map at_id (tk_history v) @ attempt_ids post" for v
    by (simp add: attempt_ids_def)
  have "distinct (attempt_ids (pre @ u # post))"
    using q b i(2) unfolding ids queue_ok_def begun_def by (auto simp del: set_map)
  ultimately show ?thesis using q b by (simp add: queue_ok_def begun_def)
qed

lemma queue_step_ok: "queue_step g dg ts us \<Longrightarrow> queue_ok lower ts \<Longrightarrow> queue_ok lower us"
proof (induction rule: queue_step.induct)
  case (started env ar t saved r u pre post)
  show ?case by (rule begun_queue_ok[OF _ start_execution_begun[OF started(1,2)]]) fact+
next
  case (checkpointed env state x x' e u pre post)
  have "kept (ex_task x) u" using persist_repair_kept[OF checkpointed(1,4,5)] checkpointed(2,3) by auto
  then show ?case by (rule kept_queue_ok[OF kept_one]) fact
next
  case (validated env world inp content has_diff req x x' v u pre post)
  have "kept (ex_task x) u" using attempt_validation_kept[OF validated(1,4,5)] validated(2,3) by auto
  then show ?case by (rule kept_queue_ok[OF kept_one]) fact
next
  case (failed env stopped unknown fatal msg rules reported x u e pre post)
  show ?case by (rule kept_queue_ok[OF kept_one[OF agent_failed_kept[OF failed(1-3)]]]) fact
next
  case (adopted env p s s' stop u pre post)
  have "sane (ad_task s) s" using adopted by (simp add: sane_def saves_kept_def)
  then have "kept (ad_task s) u" using adopt_kept[OF adopted(1)] adopted(3) by (auto simp: saves_kept_def)
  then show ?case by (rule kept_queue_ok[OF kept_one]) fact
next
  case (recovered se ts w ar w' ar' us)
  show ?case by (rule kept_queue_ok[OF recover_attempts_kept]) fact+
next
  case (discarded se saves i name ts w w' us e)
  show ?case by (rule kept_queue_ok[OF same_files_kept[OF discard_file_changes_files]]) fact+
next
  case (discards_recovered se saves read_only ts w w' us e)
  show ?case by (rule kept_queue_ok[OF same_files_kept[OF same_shape_files[OF recover_discards_shape]]]) fact+
next
  case (selected hash_of checked ts us)
  show ?case by (rule kept_queue_ok[OF set_task_selection_kept]) fact+
next
  case (retried hash_of wanted ts us)
  show ?case by (rule kept_queue_ok[OF retry_tasks_kept]) fact+
qed

subsection \<open>A queue of one file\<close>

definition quiet_git :: "unit git" where
  "quiet_git = \<lparr>gi_head = (\<lambda>_. None), gi_parent = (\<lambda>_. None), gi_message = (\<lambda>_. None), gi_ancestor = (\<lambda>_ _ _. False),
     gi_log = (\<lambda>_ _ _. None), gi_changed = (\<lambda>_. None), gi_commit_files = (\<lambda>_ _. None),
     gi_tree_entries = (\<lambda>_ _ _. None), gi_blob = (\<lambda>_ _. None), gi_path_ok = (\<lambda>_ _. False),
     gi_read = (\<lambda>_ _. None), gi_reset = (\<lambda>w _. (w, False)), gi_clean = (\<lambda>w. (w, False))\<rparr>"

definition quiet_discard_git :: "unit discard_git" where
  "quiet_discard_git = git.extend quiet_git (discard_git.fields (\<lambda>_. False) (\<lambda>_. None) (\<lambda>_. None) (\<lambda>_ _ _. None)
     (\<lambda>_ _ _. None) (\<lambda>_ _. False) (\<lambda>w _ _ _. (w, False)) (\<lambda>_. False) (\<lambda>w _ _. (w, False)))"

definition held_task :: task where
  "held_task = sample_task\<lparr>tk_status := Needs_human\<rparr>"

definition demo_to_json :: "task \<Rightarrow> string" where
  "demo_to_json t = (if tk_resume_requested t then ''retry'' else ''held'')"

definition demo_from_json :: "string \<Rightarrow> task option" where
  "demo_from_json s = (if s = ''held'' then Some held_task
     else if s = ''retry'' then Some (requeue None (held_task\<lparr>tk_excluded := False\<rparr>)) else None)"

lemma demo_lines:
  "queue_line (scan_line ''held'') = ''held''" "queue_line (scan_line ''retry'') = ''retry''"
  "valid_id ''a1''"
  by code_simp+

lemma held_queue_ok: "queue_ok id [held_task]"
  using demo_lines(3)
  by (simp add: queue_ok_def task_ok_def attempt_ids_def held_task_def sample_task_def sample_attempt_def queue_status_def)

lemma demo_json_ok: "json_ok demo_to_json demo_from_json held_task"
  "json_ok demo_to_json demo_from_json (requeue None (held_task\<lparr>tk_excluded := False\<rparr>))"
  using demo_lines(1,2)
  by (simp_all add: json_ok_def demo_to_json_def demo_from_json_def requeue_def held_task_def sample_task_def
      max_line_def LF_def)

lemma held_task_retried:
  "retry_tasks None [''a.go''] [held_task] = Inr [requeue None (held_task\<lparr>tk_excluded := False\<rparr>)]"
  by (simp add: retry_tasks_def current_rules_def held_task_def sample_task_def)


end
