(* ===== verification/ChangeReport.thy ===== *)
theory ChangeReport
  imports CandidateValidation
begin

section \<open>The report of an attempt (engine/change_report.go, report_sources.go)\<close>

text \<open>
  The rows a person reads: one per plan item, then rules and reviewer questions. A row says that
  something was fixed only on the strength of the checkpoint's validation and review, and shows line
  numbers only when they were verified. The files of the attempt answer through the argument
  \<open>read\<close>, which gives the bytes of a regular file; texts the program writes itself are in English.
\<close>

datatype row_status = R_pending | R_needs_human | R_fixed | R_not_applied | R_unchanged

record report_row =
  ro_id :: string
  ro_rule_id :: rule_id
  ro_rule_title :: string
  ro_location :: string
  ro_risk :: string
  ro_change :: string
  ro_expected :: string
  ro_status :: row_status
  ro_reason :: string
  ro_line_ranges :: "line_range list"
  ro_attribution_version :: int
  ro_source_attempt :: string

definition bare_row :: "string \<Rightarrow> rule_id \<Rightarrow> string \<Rightarrow> row_status \<Rightarrow> string \<Rightarrow> report_row" where
  "bare_row i rule title st reason =
     \<lparr>ro_id = i, ro_rule_id = rule, ro_rule_title = title, ro_location = [], ro_risk = [], ro_change = [],
      ro_expected = [], ro_status = st, ro_reason = reason, ro_line_ranges = [], ro_attribution_version = 0,
      ro_source_attempt = []\<rparr>"

subsection \<open>Verified sources\<close>

text \<open>\<open>reportSources\<close>: a text is present only when it was verified.\<close>

record report_sources =
  so_before :: "string option"
  so_after :: "string option"

definition report_belongs :: "attempt \<Rightarrow> checkpoint \<Rightarrow> bool" where
  "report_belongs h c \<longleftrightarrow> ch_attempt_id c = at_id h \<and> ch_input_hash c = at_input_hash h
     \<and> ch_base_commit c = at_base_commit h"

definition read_report_source ::
  "(string \<Rightarrow> string) \<Rightarrow> shift_jis \<Rightarrow> (string \<Rightarrow> string option) \<Rightarrow> string \<Rightarrow> string \<Rightarrow> string option" where
  "read_report_source digest codec read name hash =
     (if hash = [] then None
      else (case read name of
        None \<Rightarrow> None
      | Some b \<Rightarrow>
          if digest b \<noteq> hash then None
          else (case decode codec b of Inl _ \<Rightarrow> None | Inr d \<Rightarrow> Some (doc_text d))))"

definition load_report_sources ::
  "(string \<Rightarrow> string) \<Rightarrow> shift_jis \<Rightarrow> (string \<Rightarrow> string option) \<Rightarrow> string \<Rightarrow> attempt \<Rightarrow> checkpoint option \<Rightarrow> report_sources" where
  "load_report_sources digest codec read queue h ch =
     (let none = \<lparr>so_before = None, so_after = None\<rparr> in
      case ch of
        None \<Rightarrow> none
      | Some c \<Rightarrow>
      if \<not> report_belongs h c \<or> (case repair_path queue (at_id h) of Inl _ \<Rightarrow> True | Inr _ \<Rightarrow> False) then none
      else
        let before = read_report_source digest codec read (at_id h @ ''.before'') (at_input_hash h);
            only = none\<lparr>so_before := before\<rparr> in
        (case (before, rs_last_candidate (ch_state c)) of
           (Some text, Some cand) \<Rightarrow>
             if cr_base_hash (ca_request cand) \<noteq> at_input_hash h \<or> cv_candidate_hash (ca_result cand) = [] then only
             else if ca_no_change cand
             then (if cv_candidate_hash (ca_result cand) = at_input_hash h
                      \<and> (at_output_hash h = [] \<or> at_output_hash h = at_input_hash h)
                   then only\<lparr>so_after := Some text\<rparr> else only)
             else if cv_candidate_hash (ca_result cand) \<noteq> at_output_hash h
                \<or> \<not> attempt_id_ok (cv_candidate_id (ca_result cand)) then only
             else only\<lparr>so_after := read_report_source digest codec read
                    (at_id h @ ''.candidate-'' @ cv_candidate_id (ca_result cand) @ ''.after'')
                    (cv_candidate_hash (ca_result cand))\<rparr>
         | _ \<Rightarrow> only))"

definition report_location_range :: "string option \<Rightarrow> source_location \<Rightarrow> bool \<Rightarrow> line_range option" where
  "report_location_range source l after =
     (case source of
        None \<Rightarrow> None
      | Some text \<Rightarrow>
          if validate_source_location text l \<noteq> None then None
          else Some (if after
            then \<lparr>lr_before_start = 0, lr_before_end = 0, lr_after_start = sl_start_line l, lr_after_end = sl_end_line l\<rparr>
            else \<lparr>lr_before_start = sl_start_line l, lr_before_end = sl_end_line l, lr_after_start = 0, lr_after_end = 0\<rparr>))"

subsection \<open>The rows\<close>

fun first_report_text :: "string list \<Rightarrow> string" where
  "first_report_text [] = []"
| "first_report_text (v # vs) = (if \<not> blank v then v else first_report_text vs)"

definition report_has_rule :: "report_row list \<Rightarrow> rule_id \<Rightarrow> bool" where
  "report_has_rule rows r \<longleftrightarrow> list_ex (\<lambda>row. ro_rule_id row = r) rows"

definition ensure_report_rows :: "attempt \<Rightarrow> report_row list \<Rightarrow> report_row list" where
  "ensure_report_rows h rows =
     (if rows \<noteq> [] \<or> blank (at_note h) then rows
      else
        let row = (\<lambda>st. (bare_row (''file:'' @ at_id h) [] [] st (at_note h))\<lparr>ro_location := ''the whole file''\<rparr>) in
        (case at_outcome h of
           Needs_human \<Rightarrow> [row R_needs_human]
         | Interrupted \<Rightarrow> [row R_needs_human]
         | Failed \<Rightarrow> [row R_not_applied]
         | _ \<Rightarrow> rows))"

text \<open>The candidate belongs to this plan and source; its changes were adopted.\<close>

definition report_matching :: "attempt \<Rightarrow> repair_plan \<Rightarrow> candidate_record option \<Rightarrow> bool" where
  "report_matching h plan cand \<longleftrightarrow> (case cand of None \<Rightarrow> False
     | Some c \<Rightarrow> cr_base_hash (ca_request c) = at_input_hash h \<and> cr_plan_revision (ca_request c) = rp_revision plan
         \<and> cv_plan_revision (ca_result c) = rp_revision plan \<and> cv_candidate_id (ca_result c) \<noteq> [])"

definition report_adopted :: "attempt \<Rightarrow> repair_plan \<Rightarrow> candidate_record option \<Rightarrow> bool" where
  "report_adopted h plan cand \<longleftrightarrow> adopted_changes h \<and> at_output_hash h \<noteq> [] \<and> report_matching h plan cand
     \<and> (case cand of None \<Rightarrow> False
        | Some c \<Rightarrow> cv_passed (ca_result c) \<and> cv_candidate_hash (ca_result c) = at_output_hash h
            \<and> cv_checks (ca_result c) \<noteq> [] \<and> checks_pass (cv_checks (ca_result c))
            \<and> passed_independent_review cand (at_input_hash h) (at_output_hash h) plan)"

definition report_fixed :: "attempt \<Rightarrow> repair_plan \<Rightarrow> candidate_record option \<Rightarrow> item_id list" where
  "report_fixed h plan cand =
     (if report_adopted h plan cand then cr_addressed_item_ids (ca_request (the cand)) else [])"

definition report_review :: "attempt \<Rightarrow> repair_plan \<Rightarrow> candidate_record option \<Rightarrow> independent_review option" where
  "report_review h plan cand =
     (if \<not> report_matching h plan cand then None
      else (case ca_review (the cand) of
        None \<Rightarrow> None
      | Some r \<Rightarrow>
          if rv_candidate_id r = cv_candidate_id (ca_result (the cand))
             \<and> rv_candidate_hash r = cv_candidate_hash (ca_result (the cand))
             \<and> rv_base_hash r = at_input_hash h \<and> rv_plan_revision r = rp_revision plan
          then Some r else None))"

definition decision_of :: "repair_plan \<Rightarrow> rule_id \<Rightarrow> plan_decision option" where
  "decision_of plan r = map_of (rev (map (\<lambda>d. (pd_rule_id d, d)) (rp_decisions plan))) r"

definition title_of :: "checkpoint \<Rightarrow> rule_id \<Rightarrow> string" where
  "title_of c r = (case map_of (rev (case ch_rule_titles c of None \<Rightarrow> [] | Some ts \<Rightarrow> ts)) r of
     None \<Rightarrow> [] | Some t \<Rightarrow> t)"

definition attributed_ranges :: "attempt \<Rightarrow> repair_plan \<Rightarrow> candidate_record option \<Rightarrow> item_id \<Rightarrow> line_range list \<times> int" where
  "attributed_ranges h plan cand i =
     (if report_matching h plan cand \<and> cv_candidate_hash (ca_result (the cand)) = at_output_hash h
         \<and> at_output_hash h \<noteq> [] \<and> cv_attribution_version (ca_result (the cand)) = line_attribution_version
      then (map er_range (filter (\<lambda>r. i \<in> set (er_item_ids r)) (cv_edit_ranges (ca_result (the cand)))),
            line_attribution_version)
      else ([], 0))"

definition held_row_ranges :: "report_sources \<Rightarrow> plan_item \<Rightarrow> line_range list" where
  "held_row_ranges so it = List.map_filter (\<lambda>l. report_location_range (so_before so) l False) (pi_source_locations it)"

definition terminal_outcome :: "status \<Rightarrow> bool" where
  "terminal_outcome st \<longleftrightarrow> st \<noteq> Unset \<and> st \<noteq> Running \<and> st \<noteq> Validated"

definition item_row ::
  "attempt \<Rightarrow> checkpoint \<Rightarrow> report_sources \<Rightarrow> plan_item \<Rightarrow> report_row" where
  "item_row h c so it =
     (let plan = rs_plan (ch_state c); cand = rs_last_candidate (ch_state c);
          decision = decision_of plan (pi_rule_id it);
          ranges = attributed_ranges h plan cand (pi_id it);
          row = \<lparr>ro_id = pi_id it, ro_rule_id = pi_rule_id it, ro_rule_title = title_of c (pi_rule_id it),
                 ro_location = pi_location it, ro_risk = pi_risk it, ro_change = pi_change it,
                 ro_expected = pi_expected it, ro_status = R_pending, ro_reason = [], ro_line_ranges = fst ranges,
                 ro_attribution_version = snd ranges, ro_source_attempt = []\<rparr>
      in if pi_status it = S_blocked \<or> map_option pd_decision decision = Some D_blocked
         then row\<lparr>ro_status := R_needs_human,
                  ro_reason := first_report_text [pi_hold_reason it,
                     (case decision of None \<Rightarrow> [] | Some d \<Rightarrow> pd_reason d), at_note h],
                  ro_line_ranges := held_row_ranges so it,
                  ro_attribution_version := (if held_row_ranges so it = [] then 0 else line_attribution_version)\<rparr>
         else if pi_id it \<in> set (report_fixed h plan cand)
         then row\<lparr>ro_status := R_fixed, ro_reason := ''committed after validation and review''\<rparr>
         else if terminal_outcome (at_outcome h)
         then row\<lparr>ro_status := R_not_applied, ro_reason := first_report_text [at_note h, ''not adopted'']\<rparr>
         else row\<lparr>ro_reason := ''not yet adopted''\<rparr>)"

definition decision_rows ::
  "attempt \<Rightarrow> checkpoint \<Rightarrow> plan_decision \<Rightarrow> report_row list \<Rightarrow> report_row list" where
  "decision_rows h c d rows =
     (let plan = rs_plan (ch_state c); cand = rs_last_candidate (ch_state c);
          row = (\<lambda>st. bare_row (''rule:'' @ pd_rule_id d) (pd_rule_id d) (title_of c (pd_rule_id d)) st (pd_reason d));
          rows1 = (if pd_decision d = D_blocked \<and> \<not> report_has_rule rows (pd_rule_id d)
                   then rows @ [row R_needs_human] else rows)
      in if pd_decision d = D_no_change
            \<and> (report_adopted h plan cand
               \<or> at_outcome h = Skipped \<and> at_output_hash h = at_input_hash h
                 \<and> passed_no_change_review cand (at_input_hash h) plan)
         then rows1 @ [row R_unchanged] else rows1)"

definition assessment_rows :: "checkpoint \<Rightarrow> independent_review \<Rightarrow> report_row list" where
  "assessment_rows c r =
     map (\<lambda>a. (bare_row (''review-rule:'' @ ra_rule_id a) (ra_rule_id a) (title_of c (ra_rule_id a)) R_needs_human
            (''independent review: '' @ ra_reason a))\<lparr>ro_location := ''the whole rule''\<rparr>)
       (filter (\<lambda>a. ra_status a = A_needs_human
          \<and> \<not> list_ex (\<lambda>i. ri_rule_id i \<noteq> [] \<and> ri_rule_id i = ra_rule_id a) (rv_issues r)) (rv_assessments r))"

definition issue_row :: "checkpoint \<Rightarrow> report_sources \<Rightarrow> independent_review \<Rightarrow> nat \<times> review_issue \<Rightarrow> report_row" where
  "issue_row c so r ni =
     (let n = fst ni; i = snd ni;
          l = \<lparr>sl_start_line = ri_start_line i, sl_end_line = ri_end_line i, sl_excerpt = ri_excerpt i\<rparr>;
          range = (case ri_line_basis i of
             L_before \<Rightarrow> report_location_range (so_before so) l False
           | L_after \<Rightarrow> report_location_range (so_after so) l True
           | _ \<Rightarrow> None);
          st = (if ri_kind i = K_needs_human \<or> ri_kind i = K_unset \<and> rv_verdict r = V_needs_human
                then R_needs_human else R_not_applied)
      in \<lparr>ro_id = ''review:'' @ rv_id r @ '':'' @ decimal (n + 1), ro_rule_id = ri_rule_id i,
          ro_rule_title = title_of c (ri_rule_id i), ro_location = ri_location i, ro_risk = ri_reason i,
          ro_change = ri_requested_change i, ro_expected = [], ro_status = st,
          ro_reason = ''independent review: '' @ ri_reason i,
          ro_line_ranges = (case range of None \<Rightarrow> [] | Some s \<Rightarrow> [s]),
          ro_attribution_version = (case range of None \<Rightarrow> 0 | Some _ \<Rightarrow> line_attribution_version),
          ro_source_attempt = []\<rparr>)"

definition review_rows :: "checkpoint \<Rightarrow> report_sources \<Rightarrow> independent_review option \<Rightarrow> report_row list" where
  "review_rows c so review =
     (case review of
        None \<Rightarrow> []
      | Some r \<Rightarrow>
          if rv_verdict r \<in> {V_passed, V_passed_with_holds, V_running, V_error} then []
          else assessment_rows c r @ map (issue_row c so r) (List.enumerate 0 (rv_issues r)))"

definition build_change_report :: "attempt \<Rightarrow> checkpoint option \<Rightarrow> report_sources \<Rightarrow> report_row list" where
  "build_change_report h ch so =
     (case ch of
        None \<Rightarrow> ensure_report_rows h []
      | Some c \<Rightarrow>
          if \<not> report_belongs h c then ensure_report_rows h []
          else
            let plan = rs_plan (ch_state c);
                items = map (item_row h c so) (rp_items plan);
                rules = foldl (\<lambda>rows d. decision_rows h c d rows) items (rp_decisions plan)
            in ensure_report_rows h
                 (rules @ review_rows c so (report_review h plan (rs_last_candidate (ch_state c)))))"

definition recorded_change_report ::
  "(string \<Rightarrow> string) \<Rightarrow> shift_jis \<Rightarrow> (string \<Rightarrow> string option) \<Rightarrow> string \<Rightarrow> attempt \<Rightarrow> checkpoint option \<Rightarrow> report_row list" where
  "recorded_change_report digest codec read queue h ch =
     build_change_report h ch (load_report_sources digest codec read queue h ch)"

section \<open>What a report claims\<close>

lemma item_row_fixed:
  assumes "ro_status (item_row h c so it) = R_fixed"
  shows "report_adopted h (rs_plan (ch_state c)) (rs_last_candidate (ch_state c))"
    and "ro_id (item_row h c so it) \<in> set (cr_addressed_item_ids (ca_request (the (rs_last_candidate (ch_state c)))))"
    and "pi_status it \<noteq> S_blocked"
  using assms
  by (auto simp: item_row_def Let_def report_fixed_def split: if_splits)

lemma decision_rows_append:
  obtains new where "decision_rows h c d rows = rows @ new" "\<forall>r\<in>set new. ro_status r \<noteq> R_fixed"
proof -
  have "\<exists>new. decision_rows h c d rows = rows @ new \<and> (\<forall>r\<in>set new. ro_status r \<noteq> R_fixed)"
    by (auto simp: decision_rows_def Let_def bare_row_def)
  then show ?thesis using that by blast
qed

lemma fold_decision_rows:
  "\<exists>new. foldl (\<lambda>rows d. decision_rows h c d rows) rows ds = rows @ new \<and> (\<forall>r\<in>set new. ro_status r \<noteq> R_fixed)"
proof (induction ds arbitrary: rows)
  case (Cons d ds)
  obtain a where a: "decision_rows h c d rows = rows @ a" "\<forall>r\<in>set a. ro_status r \<noteq> R_fixed"
    by (rule decision_rows_append)
  obtain b where b: "foldl (\<lambda>rows d. decision_rows h c d rows) (rows @ a) ds = (rows @ a) @ b"
      "\<forall>r\<in>set b. ro_status r \<noteq> R_fixed"
    using Cons.IH by blast
  show ?case by (rule exI [of _ "a @ b"]) (use a b in auto)
qed simp

lemma review_rows_open: "r \<in> set (review_rows c so review) \<Longrightarrow> ro_status r \<in> {R_needs_human, R_not_applied}"
  by (auto simp: review_rows_def assessment_rows_def issue_row_def bare_row_def Let_def
      split: option.splits if_splits)

lemma ensure_rows_cases:
  "ensure_report_rows h rows = rows
     \<or> rows = [] \<and> (\<exists>r. ensure_report_rows h rows = [r] \<and> ro_status r \<in> {R_needs_human, R_not_applied})"
  by (auto simp: ensure_report_rows_def Let_def bare_row_def split: status.splits)

text \<open>
  The report starts with one row for each item of the plan, in the plan's order; no other row says
  that something was fixed.
\<close>

lemma report_items_first:
  assumes "report_belongs h c" "rp_items (rs_plan (ch_state c)) \<noteq> []"
  obtains rest where
    "build_change_report h (Some c) so = map (item_row h c so) (rp_items (rs_plan (ch_state c))) @ rest"
    "\<forall>r\<in>set rest. ro_status r \<noteq> R_fixed"
proof -
  let ?plan = "rs_plan (ch_state c)"
  let ?items = "map (item_row h c so) (rp_items ?plan)"
  let ?review = "review_rows c so (report_review h ?plan (rs_last_candidate (ch_state c)))"
  obtain new where new: "foldl (\<lambda>rows d. decision_rows h c d rows) ?items (rp_decisions ?plan) = ?items @ new"
      "\<forall>r\<in>set new. ro_status r \<noteq> R_fixed"
    using fold_decision_rows by blast
  have "build_change_report h (Some c) so = ensure_report_rows h (?items @ new @ ?review)"
    using assms(1) new(1) by (simp add: build_change_report_def Let_def)
  also have "\<dots> = ?items @ new @ ?review"
    using assms(2) by (simp add: ensure_report_rows_def)
  finally show ?thesis
    using that [of "new @ ?review"] new(2) review_rows_open by fastforce
qed

text \<open>
  A row that says "fixed" rests on the whole chain: the attempt adopted its changes, the candidate
  named in the checkpoint passed its checks, it is the candidate of this plan revision and of the
  bytes that were adopted, its review approves it, and the candidate says it addressed the item.
\<close>

lemma fixed_row_adopted:
  assumes "r \<in> set (build_change_report h ch so)" "ro_status r = R_fixed"
  obtains c cand where "ch = Some c" "report_belongs h c" "rs_last_candidate (ch_state c) = Some cand"
    "adopted_changes h" "cv_passed (ca_result cand)" "cv_candidate_hash (ca_result cand) = at_output_hash h"
    "passed_independent_review (Some cand) (at_input_hash h) (at_output_hash h) (rs_plan (ch_state c))"
    "ro_id r \<in> set (cr_addressed_item_ids (ca_request cand))"
proof -
  have no: "r \<notin> set (ensure_report_rows h [])"
    using ensure_rows_cases [of h "[]"] assms(2) by auto
  obtain c where c: "ch = Some c" "report_belongs h c"
    using assms(1) no by (auto simp: build_change_report_def split: option.splits if_splits)
  let ?plan = "rs_plan (ch_state c)"
  let ?items = "map (item_row h c so) (rp_items ?plan)"
  let ?review = "review_rows c so (report_review h ?plan (rs_last_candidate (ch_state c)))"
  obtain new where new: "foldl (\<lambda>rows d. decision_rows h c d rows) ?items (rp_decisions ?plan) = ?items @ new"
      "\<forall>r\<in>set new. ro_status r \<noteq> R_fixed"
    using fold_decision_rows by blast
  have "r \<in> set (ensure_report_rows h (?items @ new @ ?review))"
    using assms(1) c new(1) by (simp add: build_change_report_def Let_def)
  then have "r \<in> set (?items @ new @ ?review)"
    using ensure_rows_cases [of h "?items @ new @ ?review"] assms(2) by auto
  then have "r \<in> set ?items" using new(2) review_rows_open assms(2) by fastforce
  then obtain it where it: "r = item_row h c so it" by auto
  note f = item_row_fixed [of h c so it, folded it, OF assms(2)]
  obtain cand where cand: "rs_last_candidate (ch_state c) = Some cand"
    using f(1) by (auto simp: report_adopted_def split: option.splits)
  show ?thesis
    by (rule that [OF c cand]) (use f cand in \<open>auto simp: report_adopted_def\<close>)
qed

text \<open>Line numbers of a held row were checked against the verified text.\<close>

lemma report_location_range_checked:
  assumes "report_location_range source l after = Some s"
  shows "\<exists>text. source = Some text \<and> validate_source_location text l = None"
  using assms by (auto simp: report_location_range_def split: option.splits if_splits)

lemma verified_source_hash:
  assumes "read_report_source digest codec read name hash = Some text"
  obtains b d where "read name = Some b" "digest b = hash" "decode codec b = Inr d" "doc_text d = text"
  using assms that by (auto simp: read_report_source_def split: if_splits option.splits sum.splits)

end
