(* ===== verification/LineAlignment.thy ===== *)
theory LineAlignment
  imports LineRanges
begin

section \<open>Which lines of two texts certainly correspond (engine/cumulative_report.go)\<close>

text \<open>
  The cumulative report carries line numbers from one text to another only where that is certain.
  This theory models \<open>cumulativeLineMapping\<close> and its two tables, and proves what certain means: a
  line is mapped exactly to the partner it has in every longest alignment of the two texts, and
  is called removed or added only when no longest alignment uses it. Table entries are at most the
  number of lines; the budget of 2,000,000 cells keeps them inside \<open>int32\<close>, so they are natural
  numbers here.
\<close>

subsection \<open>The tables\<close>

definition normalized_report_text :: "string \<Rightarrow> string" where
  "normalized_report_text s = crlf_to_lf (trim_prefix s [CHR 0xEF, CHR 0xBB, CHR 0xBF])"

definition cumulative_text_lines :: "string \<Rightarrow> string list" where
  "cumulative_text_lines s =
     (if s = [] then []
      else let ls = split_after LF s in if last ls = [] then butlast ls else ls)"

text \<open>
  Row \<open>i+1\<close> of the table of prefixes from row \<open>i\<close>: the entry at column \<open>j+1\<close> needs the entries
  at \<open>j\<close> and \<open>j+1\<close> above and the entry at \<open>j\<close> on its left.
\<close>

fun prefix_row :: "'a \<Rightarrow> 'a list \<Rightarrow> nat list \<Rightarrow> nat \<Rightarrow> nat list" where
  "prefix_row x [] up left = [left]"
| "prefix_row x (y # ys) up left =
     left # prefix_row x ys (tl up) (if x = y then Suc (hd up) else max (hd (tl up)) left)"

fun prefix_rows :: "'a list \<Rightarrow> 'a list \<Rightarrow> nat list \<Rightarrow> nat list list" where
  "prefix_rows [] ys up = [up]"
| "prefix_rows (x # xs) ys up = up # prefix_rows xs ys (prefix_row x ys up 0)"

definition prefix_table :: "'a list \<Rightarrow> 'a list \<Rightarrow> nat list list" where
  "prefix_table xs ys = prefix_rows xs ys (replicate (Suc (length ys)) 0)"

text \<open>The table of suffixes is filled by the recurrence of \<open>lcs_table\<close>.\<close>

definition suffix_table :: "string list \<Rightarrow> string list \<Rightarrow> nat list list" where
  "suffix_table xs ys = lcs_table xs ys"

subsection \<open>The mapping\<close>

record cumulative_lines =
  cl_source_lines :: nat
  cl_forward :: "int \<Rightarrow> int option"
  cl_reverse :: "int \<Rightarrow> int option"
  cl_removed :: "int \<Rightarrow> bool"
  cl_added :: "int \<Rightarrow> bool"

definition cell_limit :: nat where
  "cell_limit = 2000000"

text \<open>Line numbers start at 1; what is not listed is false or unknown.\<close>

definition marked_lines :: "(nat \<Rightarrow> bool) \<Rightarrow> nat \<Rightarrow> int \<Rightarrow> bool" where
  "marked_lines p n line \<longleftrightarrow> 1 \<le> line \<and> line \<le> int n \<and> p (nat (line - 1))"

definition line_map :: "(nat \<times> nat) list \<Rightarrow> int \<Rightarrow> int option" where
  "line_map ps = map_of (rev (map (\<lambda>(i, j). (int i + 1, int j + 1)) ps))"

definition line_matches ::
  "nat list list \<Rightarrow> nat list list \<Rightarrow> nat \<Rightarrow> string list \<Rightarrow> string list \<Rightarrow> nat \<Rightarrow> nat list" where
  "line_matches pre suf best a b i =
     filter (\<lambda>j. a ! i = b ! j \<and> pre ! i ! j + 1 + suf ! (i + 1) ! (j + 1) = best) [0..<length b]"

definition line_forced :: "nat list list \<Rightarrow> nat list list \<Rightarrow> nat \<Rightarrow> nat \<Rightarrow> nat \<Rightarrow> bool" where
  "line_forced pre suf best k i \<longleftrightarrow> \<not> list_ex (\<lambda>j. pre ! i ! j + suf ! (i + 1) ! j = best) [0..<k + 1]"

definition forced_partner ::
  "nat list list \<Rightarrow> nat list list \<Rightarrow> nat \<Rightarrow> string list \<Rightarrow> string list \<Rightarrow> nat \<Rightarrow> (nat \<times> nat) option" where
  "forced_partner pre suf best a b i =
     (case line_matches pre suf best a b i of
        [j] \<Rightarrow> if line_forced pre suf best (length b) i then Some (i, j) else None
      | _ \<Rightarrow> None)"

definition forced_pairs ::
  "nat list list \<Rightarrow> nat list list \<Rightarrow> nat \<Rightarrow> string list \<Rightarrow> string list \<Rightarrow> (nat \<times> nat) list" where
  "forced_pairs pre suf best a b = List.map_filter (forced_partner pre suf best a b) [0..<length a]"

definition cumulative_line_mapping :: "string \<Rightarrow> string \<Rightarrow> cumulative_lines" where
  "cumulative_line_mapping before after =
     (let a = cumulative_text_lines before; b = cumulative_text_lines after;
          n = length a; k = length b;
          m = \<lparr>cl_source_lines = n, cl_forward = Map.empty, cl_reverse = Map.empty,
               cl_removed = (\<lambda>_. False), cl_added = (\<lambda>_. False)\<rparr> in
      if before = after
      then m\<lparr>cl_forward := line_map (map (\<lambda>i. (i, i)) [0..<n]), cl_reverse := line_map (map (\<lambda>i. (i, i)) [0..<n])\<rparr>
      else if n = 0 \<or> k = 0
      then m\<lparr>cl_removed := marked_lines (\<lambda>_. True) n, cl_added := marked_lines (\<lambda>_. True) k\<rparr>
      else if n > cell_limit div k
      then m\<lparr>cl_removed := marked_lines (\<lambda>i. a ! i \<notin> set b) n, cl_added := marked_lines (\<lambda>j. b ! j \<notin> set a) k\<rparr>
      else
        let pre = prefix_table a b; suf = suffix_table a b; best = pre ! n ! k;
            matches = line_matches pre suf best a b; pairs = forced_pairs pre suf best a b in
        m\<lparr>cl_forward := line_map pairs, cl_reverse := line_map (map prod.swap pairs),
          cl_removed := marked_lines (\<lambda>i. matches i = []) n,
          cl_added := marked_lines (\<lambda>j. \<not> list_ex (\<lambda>i. j \<in> set (matches i)) [0..<n]) k\<rparr>)"

section \<open>Alignments\<close>

definition before_both :: "nat \<times> nat \<Rightarrow> nat \<times> nat \<Rightarrow> bool" where
  "before_both p q \<longleftrightarrow> fst p < fst q \<and> snd p < snd q"

definition alignment :: "'a list \<Rightarrow> 'a list \<Rightarrow> (nat \<times> nat) list \<Rightarrow> bool" where
  "alignment a b ps \<longleftrightarrow> sorted_wrt before_both ps \<and>
     (\<forall>(i, j) \<in> set ps. i < length a \<and> j < length b \<and> a ! i = b ! j)"

definition longest_alignment :: "'a list \<Rightarrow> 'a list \<Rightarrow> (nat \<times> nat) list \<Rightarrow> bool" where
  "longest_alignment a b ps \<longleftrightarrow> alignment a b ps \<and> (\<forall>qs. alignment a b qs \<longrightarrow> length qs \<le> length ps)"

subsection \<open>Alignments and common subsequences\<close>

lemma subseq_indices:
  assumes "sorted_wrt (<) is" "\<forall>i\<in>set is. lo \<le> i \<and> i < length a"
  shows "subseq (map ((!) a) is) (drop lo a)"
  using assms
proof (induction "is" arbitrary: lo)
  case (Cons i js)
  then have "subseq (map ((!) a) js) (drop (Suc i) a)" by (intro Cons.IH) auto
  moreover have "drop i a = a ! i # drop (Suc i) a" using Cons.prems(2) by (simp add: Cons_nth_drop_Suc)
  ultimately have "subseq (map ((!) a) (i # js)) (drop i a)" by simp
  moreover have "suffix (drop i a) (drop lo a)"
    using Cons.prems(2) by (metis le_add_diff_inverse drop_drop list.set_intros(1) suffix_drop add.commute)
  ultimately show ?case using suffix_imp_subseq subseq_order.trans by blast
qed simp

lemma indices_subseq:
  assumes "subseq zs a"
  obtains "is" where "sorted_wrt (<) is" "\<forall>i\<in>set is. i < length a" "map ((!) a) is = zs"
proof -
  have "\<exists>is. sorted_wrt (<) is \<and> (\<forall>i\<in>set is. i < length a) \<and> map ((!) a) is = zs"
    using assms
  proof (induction zs a rule: list_emb.induct)
    case (list_emb_Cons xs ys y)
    then obtain "is" where "sorted_wrt (<) is" "\<forall>i\<in>set is. i < length ys" "map ((!) ys) is = xs" by blast
    then show ?case
      by (intro exI [of _ "map Suc is"]) (auto simp: sorted_wrt_map comp_def)
  next
    case (list_emb_Cons2 x y xs ys)
    then obtain "is" where "sorted_wrt (<) is" "\<forall>i\<in>set is. i < length ys" "map ((!) ys) is = xs" by blast
    then show ?case using list_emb_Cons2(1)
      by (intro exI [of _ "0 # map Suc is"]) (auto simp: sorted_wrt_map comp_def)
  qed (auto intro: exI [of _ "[]"])
  then show ?thesis using that by blast
qed

lemma alignment_fst: "alignment a b ps \<Longrightarrow> sorted_wrt (<) (map fst ps)"
  by (auto simp: alignment_def sorted_wrt_map before_both_def elim: sorted_wrt_mono_rel [rotated])

lemma alignment_snd: "alignment a b ps \<Longrightarrow> sorted_wrt (<) (map snd ps)"
  by (auto simp: alignment_def sorted_wrt_map before_both_def elim: sorted_wrt_mono_rel [rotated])

lemma alignment_of_common:
  assumes "subseq zs a" "subseq zs b"
  obtains ps where "alignment a b ps" "length ps = length zs"
proof -
  obtain "is" where i: "sorted_wrt (<) is" "\<forall>i\<in>set is. i < length a" "map ((!) a) is = zs"
    using assms(1) by (rule indices_subseq)
  obtain js where j: "sorted_wrt (<) js" "\<forall>j\<in>set js. j < length b" "map ((!) b) js = zs"
    using assms(2) by (rule indices_subseq)
  have len: "length is = length zs" "length js = length zs" using i(3) j(3) by (auto dest: arg_cong [of _ _ length])
  have "a ! (is ! k) = b ! (js ! k)" if "k < length zs" for k
    using arg_cong [OF i(3), of "\<lambda>xs. xs ! k"] arg_cong [OF j(3), of "\<lambda>xs. xs ! k"] that len by simp
  then have "alignment a b (zip is js)"
    using i(1,2) j(1,2) len
    by (auto simp: alignment_def sorted_wrt_iff_nth_less before_both_def in_set_zip dest: nth_mem)
  then show ?thesis using that len by simp
qed

lemma common_of_alignment:
  assumes "alignment a b ps" "\<forall>p\<in>set ps. lo \<le> fst p \<and> lo' \<le> snd p"
  shows "subseq (map (\<lambda>p. a ! fst p) ps) (drop lo a)" "subseq (map (\<lambda>p. a ! fst p) ps) (drop lo' b)"
proof -
  have "subseq (map ((!) a) (map fst ps)) (drop lo a)"
    using assms alignment_fst by (intro subseq_indices) (auto simp: alignment_def)
  then show "subseq (map (\<lambda>p. a ! fst p) ps) (drop lo a)" by (simp add: comp_def)
  have "subseq (map ((!) b) (map snd ps)) (drop lo' b)"
    using assms alignment_snd by (intro subseq_indices) (auto simp: alignment_def)
  moreover have "map ((!) b) (map snd ps) = map (\<lambda>p. a ! fst p) ps"
    using assms(1) by (auto simp: alignment_def)
  ultimately show "subseq (map (\<lambda>p. a ! fst p) ps) (drop lo' b)" by (simp only:)
qed

lemma alignment_suffix_bound:
  assumes "alignment a b ps" "\<forall>p\<in>set ps. lo \<le> fst p \<and> lo' \<le> snd p"
  shows "length ps \<le> lcs_len (drop lo a) (drop lo' b)"
  using common_of_alignment [OF assms] longest_common_lcs_len [of "drop lo a" "drop lo' b"]
  by (fastforce simp: longest_common_def)

lemma alignment_take:
  assumes "alignment a b ps" "\<forall>p\<in>set ps. fst p < hi \<and> snd p < hi'"
  shows "alignment (take hi a) (take hi' b) ps"
  using assms by (fastforce simp: alignment_def)

lemma subseq_rev: "subseq xs ys \<Longrightarrow> subseq (rev xs) (rev ys)"
proof (induction rule: list_emb.induct)
  case (list_emb_Cons xs ys y)
  then show ?case by (simp add: list_emb_prefix)
next
  case (list_emb_Cons2 x y xs ys)
  then show ?case by (simp add: list_emb_append_mono)
qed simp

definition lcs_pre :: "'a list \<Rightarrow> 'a list \<Rightarrow> nat" where
  "lcs_pre xs ys = lcs_len (rev xs) (rev ys)"

lemma longest_common_pre: "longest_common xs ys (lcs_pre xs ys)"
proof -
  have lc: "longest_common (rev xs) (rev ys) (lcs_pre xs ys)"
    by (simp add: lcs_pre_def longest_common_lcs_len)
  then obtain zs where zs: "subseq zs (rev xs)" "subseq zs (rev ys)" "length zs = lcs_pre xs ys"
    by (auto simp: longest_common_def)
  have "length ws \<le> lcs_pre xs ys" if "subseq ws xs" "subseq ws ys" for ws
    using lc subseq_rev [OF that(1)] subseq_rev [OF that(2)] by (auto simp: longest_common_def)
  then show ?thesis
    using subseq_rev [OF zs(1)] subseq_rev [OF zs(2)] zs(3)
    by (auto simp: longest_common_def intro!: exI [of _ "rev zs"])
qed

lemma alignment_prefix_bound:
  assumes "alignment a b ps" "\<forall>p\<in>set ps. fst p < hi \<and> snd p < hi'"
  shows "length ps \<le> lcs_pre (take hi a) (take hi' b)"
  using common_of_alignment [OF alignment_take [OF assms], of 0 0]
    longest_common_pre [of "take hi a" "take hi' b"]
  by (fastforce simp: longest_common_def)

subsection \<open>The tables hold the lengths of longest common subsequences\<close>

lemma lcs_pre_Nil [simp]: "lcs_pre [] ys = 0" "lcs_pre xs [] = 0"
  by (simp_all add: lcs_pre_def)

lemma lcs_pre_snoc:
  "lcs_pre (xs @ [x]) (ys @ [y]) =
     (if x = y then Suc (lcs_pre xs ys) else max (lcs_pre xs (ys @ [y])) (lcs_pre (xs @ [x]) ys))"
  by (simp add: lcs_pre_def)

fun inits_from :: "'a list \<Rightarrow> 'a list \<Rightarrow> 'a list list" where
  "inits_from ws [] = [ws]"
| "inits_from ws (z # zs) = ws # inits_from (ws @ [z]) zs"

lemma hd_inits_from [simp]: "hd (inits_from ws zs) = ws" "inits_from ws zs \<noteq> []"
  by (cases zs; simp)+

lemma length_inits_from [simp]: "length (inits_from ws zs) = Suc (length zs)"
  by (induction zs arbitrary: ws) auto

lemma inits_from_nth: "n \<le> length zs \<Longrightarrow> inits_from ws zs ! n = ws @ take n zs"
  by (induction zs arbitrary: ws n) (auto simp: nth_Cons' take_Cons')

lemma prefix_row_inits:
  "prefix_row x zs (map (lcs_pre xs) (inits_from ws zs)) (lcs_pre (xs @ [x]) ws) =
     map (lcs_pre (xs @ [x])) (inits_from ws zs)"
proof (induction zs arbitrary: ws)
  case (Cons z zs)
  have "hd (map (lcs_pre xs) (inits_from (ws @ [z]) zs)) = lcs_pre xs (ws @ [z])"
    by (simp add: hd_map)
  then show ?case using Cons.IH [of "ws @ [z]"] by (cases "x = z") (simp_all add: lcs_pre_snoc)
qed simp

lemma prefix_rows_inits:
  "prefix_rows xs ys (map (lcs_pre vs) (inits_from [] ys)) =
     map (\<lambda>us. map (lcs_pre us) (inits_from [] ys)) (inits_from vs xs)"
proof (induction xs arbitrary: vs)
  case (Cons x xs)
  show ?case using prefix_row_inits [of x ys vs "[]"] Cons.IH [of "vs @ [x]"] by simp
qed simp

lemma prefix_table_nth:
  assumes "i \<le> length xs" "j \<le> length ys"
  shows "prefix_table xs ys ! i ! j = lcs_pre (take i xs) (take j ys)"
proof -
  have "map (lcs_pre []) (inits_from [] ys) = replicate (Suc (length ys)) 0"
    by (simp add: list_eq_iff_nth_eq nth_Cons')
  then have "prefix_table xs ys = map (\<lambda>us. map (lcs_pre us) (inits_from [] ys)) (inits_from [] xs)"
    using prefix_rows_inits [of xs ys "[]"] by (simp add: prefix_table_def)
  then show ?thesis using assms by (simp add: inits_from_nth)
qed

lemma suffix_table_nth:
  "i \<le> length xs \<Longrightarrow> j \<le> length ys \<Longrightarrow> suffix_table xs ys ! i ! j = lcs_len (drop i xs) (drop j ys)"
  by (simp add: suffix_table_def lcs_table_nth)

subsection \<open>Cutting and joining longest alignments\<close>

lemma alignment_split:
  assumes "alignment a b (ps @ qs)"
  shows "alignment a b ps" "alignment a b qs"
  using assms by (auto simp: alignment_def sorted_wrt_append)

definition shift_pairs :: "nat \<Rightarrow> nat \<Rightarrow> (nat \<times> nat) list \<Rightarrow> (nat \<times> nat) list" where
  "shift_pairs m n = map (\<lambda>(i, j). (m + i, n + j))"

lemma alignment_join:
  assumes "alignment (take i a) (take j b) ps" "alignment (drop i' a) (drop j' b) qs"
    and "i \<le> i'" "j \<le> j'" "i' \<le> length a" "j' \<le> length b"
  shows "alignment a b (ps @ shift_pairs i' j' qs)"
  using assms
  by (fastforce simp: alignment_def shift_pairs_def sorted_wrt_append sorted_wrt_map before_both_def
      split_def elim!: sorted_wrt_mono_rel [rotated])

lemma alignment_attained: "\<exists>ps. alignment a b ps \<and> length ps = lcs_pre a b"
  using longest_common_pre [of a b] alignment_of_common unfolding longest_common_def by metis

lemma alignment_attained': "\<exists>ps. alignment a b ps \<and> length ps = lcs_len a b"
  using longest_common_lcs_len [of a b] alignment_of_common unfolding longest_common_def by metis

lemma longest_alignment_length:
  assumes "longest_alignment a b ps"
  shows "length ps = lcs_pre a b"
proof -
  obtain qs where "alignment a b qs" "length qs = lcs_pre a b" using alignment_attained by blast
  moreover have "length ps \<le> lcs_pre a b"
  proof -
    have "alignment a b ps" using assms by (simp add: longest_alignment_def)
    moreover have "\<forall>p\<in>set ps. fst p < length a \<and> snd p < length b"
      using calculation by (auto simp: alignment_def)
    ultimately show ?thesis using alignment_prefix_bound [of a b ps "length a" "length b"] by simp
  qed
  ultimately show ?thesis using assms by (auto simp: longest_alignment_def)
qed

lemma longest_alignmentI: "alignment a b ps \<Longrightarrow> length ps = lcs_pre a b \<Longrightarrow> longest_alignment a b ps"
proof -
  assume ps: "alignment a b ps" "length ps = lcs_pre a b"
  have "length qs \<le> lcs_pre a b" if "alignment a b qs" for qs
  proof -
    have "\<forall>p\<in>set qs. fst p < length a \<and> snd p < length b" using that by (auto simp: alignment_def)
    then show ?thesis using alignment_prefix_bound [OF that, of "length a" "length b"] by simp
  qed
  then show ?thesis using ps by (simp add: longest_alignment_def)
qed

definition link_score :: "'a list \<Rightarrow> 'a list \<Rightarrow> nat \<Rightarrow> nat \<Rightarrow> nat" where
  "link_score a b i j = lcs_pre (take i a) (take j b) + 1 + lcs_len (drop (i + 1) a) (drop (j + 1) b)"

definition skip_score :: "'a list \<Rightarrow> 'a list \<Rightarrow> nat \<Rightarrow> nat \<Rightarrow> nat" where
  "skip_score a b i j = lcs_pre (take i a) (take j b) + lcs_len (drop (i + 1) a) (drop j b)"

lemma alignment_bounded: "alignment a b ps \<Longrightarrow> length ps \<le> lcs_pre a b"
  using longest_alignmentI longest_alignment_def alignment_attained by metis

text \<open>An alignment with the link, and one that skips line \<open>i\<close> and cuts the other text at \<open>j\<close>.\<close>

lemma alignment_with_link:
  assumes "i < length a" "j < length b" "a ! i = b ! j"
  obtains ps where "alignment a b ps" "length ps = link_score a b i j" "(i, j) \<in> set ps"
proof -
  obtain l where l: "alignment (take i a) (take j b) l" "length l = lcs_pre (take i a) (take j b)"
    using alignment_attained by blast
  obtain r where r: "alignment (drop (i + 1) a) (drop (j + 1) b) r"
      "length r = lcs_len (drop (i + 1) a) (drop (j + 1) b)"
    using alignment_attained' by blast
  have "alignment (drop i a) (drop j b) ((0, 0) # shift_pairs 1 1 r)"
    using r(1) assms
    by (fastforce simp: alignment_def shift_pairs_def sorted_wrt_map before_both_def split_def
        elim!: sorted_wrt_mono_rel [rotated])
  then have "alignment a b (l @ shift_pairs i j ((0, 0) # shift_pairs 1 1 r))"
    using l(1) assms by (intro alignment_join) auto
  then show ?thesis
    by (rule that) (use l(2) r(2) in \<open>simp_all add: link_score_def shift_pairs_def\<close>)
qed

lemma alignment_skipping:
  assumes "i < length a" "j \<le> length b"
  obtains ps where "alignment a b ps" "length ps = skip_score a b i j" "i \<notin> fst ` set ps"
proof -
  obtain l where l: "alignment (take i a) (take j b) l" "length l = lcs_pre (take i a) (take j b)"
    using alignment_attained by blast
  obtain r where r: "alignment (drop (i + 1) a) (drop j b) r"
      "length r = lcs_len (drop (i + 1) a) (drop j b)"
    using alignment_attained' by blast
  have "alignment a b (l @ shift_pairs (i + 1) j r)"
    using l(1) r(1) assms by (intro alignment_join) auto
  then show ?thesis
    by (rule that) (use l r(2) in \<open>auto simp: skip_score_def shift_pairs_def alignment_def\<close>)
qed

lemma link_score_le: "i < length a \<Longrightarrow> j < length b \<Longrightarrow> a ! i = b ! j \<Longrightarrow> link_score a b i j \<le> lcs_pre a b"
  by (metis alignment_with_link alignment_bounded)

lemma skip_score_le: "i < length a \<Longrightarrow> j \<le> length b \<Longrightarrow> skip_score a b i j \<le> lcs_pre a b"
  by (metis alignment_skipping alignment_bounded)

lemma used_link:
  assumes "longest_alignment a b ps" "(i, j) \<in> set ps"
  shows "i < length a" "j < length b" "a ! i = b ! j" "link_score a b i j = lcs_pre a b"
proof -
  have al: "alignment a b ps" using assms(1) by (simp add: longest_alignment_def)
  then show ij: "i < length a" "j < length b" "a ! i = b ! j" using assms(2) by (auto simp: alignment_def)
  obtain l r where ps: "ps = l @ (i, j) # r" using assms(2) by (meson split_list)
  have parts: "alignment a b l" "alignment a b r"
    using al by (auto simp: ps alignment_def sorted_wrt_append)
  have sides: "\<forall>p\<in>set l. fst p < i \<and> snd p < j" "\<forall>p\<in>set r. i + 1 \<le> fst p \<and> j + 1 \<le> snd p"
    using al by (auto simp: ps alignment_def sorted_wrt_append before_both_def)
  have "length ps \<le> link_score a b i j"
    using alignment_prefix_bound [OF parts(1) sides(1)] alignment_suffix_bound [OF parts(2) sides(2)]
    by (simp add: ps link_score_def)
  then show "link_score a b i j = lcs_pre a b"
    using link_score_le [OF ij] longest_alignment_length [OF assms(1)] by simp
qed

lemma skipped_line:
  assumes "longest_alignment a b ps" "i \<notin> fst ` set ps" "i < length a"
  shows "\<exists>j\<le>length b. skip_score a b i j = lcs_pre a b"
proof -
  have al: "alignment a b ps" using assms(1) by (simp add: longest_alignment_def)
  define l where "l = takeWhile (\<lambda>p. fst p < i) ps"
  define r where "r = dropWhile (\<lambda>p. fst p < i) ps"
  have ps: "ps = l @ r" by (simp add: l_def r_def)
  define j where "j = (if r = [] then length b else snd (hd r))"
  have parts: "alignment a b l" "alignment a b r" using al ps alignment_split by blast+
  have l: "\<forall>p\<in>set l. fst p < i" by (auto simp: l_def dest: set_takeWhileD)
  have r: "\<forall>p\<in>set r. i + 1 \<le> fst p \<and> j \<le> snd p"
  proof (cases r)
    case (Cons p ps')
    then have "\<not> fst p < i" using hd_dropWhile [of "\<lambda>p. fst p < i" ps] by (fastforce simp: r_def)
    moreover have "fst p \<noteq> i" using assms(2) Cons ps by auto
    ultimately show ?thesis using Cons parts(2) by (auto simp: j_def alignment_def before_both_def)
  qed simp
  have cut: "\<forall>p\<in>set l. fst p < i \<and> snd p < j"
    using l al by (auto simp: ps j_def alignment_def sorted_wrt_append before_both_def neq_Nil_conv)
  have jb: "j \<le> length b" using parts(2) by (cases r) (auto simp: j_def alignment_def)
  have "length ps \<le> skip_score a b i j"
    using alignment_prefix_bound [OF parts(1) cut] alignment_suffix_bound [OF parts(2) r]
    by (simp add: ps skip_score_def)
  then show ?thesis
    using skip_score_le [OF assms(3) jb] longest_alignment_length [OF assms(1)] jb
    by (metis le_antisym)
qed

subsection \<open>What the mapping says is certain\<close>

lemma line_map_Some:
  assumes "line_map ps line = Some line'"
  shows "1 \<le> line" "1 \<le> line'" "(nat (line - 1), nat (line' - 1)) \<in> set ps"
  using map_of_SomeD [OF assms [unfolded line_map_def]] by auto

lemma line_map_in:
  assumes "(i, j) \<in> set ps" "distinct (map fst ps)"
  shows "line_map ps (int i + 1) = Some (int j + 1)"
proof -
  have "map fst (map (\<lambda>(i, j). (int i + 1, int j + 1)) ps) = map (\<lambda>i. int i + 1) (map fst ps)"
    by (simp add: split_def comp_def)
  then have "distinct (map fst (rev (map (\<lambda>(i, j). (int i + 1, int j + 1)) ps)))"
    using assms(2) by (simp add: distinct_map rev_map [symmetric] inj_on_def)
  then show ?thesis unfolding line_map_def by (intro map_of_is_SomeI) (use assms(1) in force)+
qed

lemma forced_partner_Some:
  "forced_partner pre suf best a b i = Some (i', j) \<longleftrightarrow>
     i' = i \<and> line_matches pre suf best a b i = [j] \<and> line_forced pre suf best (length b) i"
  by (auto simp: forced_partner_def split: list.splits)

lemma forced_pairs_iff:
  "(i, j) \<in> set (forced_pairs pre suf best a b) \<longleftrightarrow>
     i < length a \<and> line_matches pre suf best a b i = [j] \<and> line_forced pre suf best (length b) i"
proof -
  have "set (List.map_filter f xs) = {y. \<exists>x\<in>set xs. f x = Some y}" for f :: "nat \<Rightarrow> (nat \<times> nat) option" and xs
    by (force simp: List.map_filter_def)
  then show ?thesis by (auto simp: forced_pairs_def forced_partner_Some)
qed

lemma forced_pairs_distinct: "distinct (map fst (forced_pairs pre suf best a b))"
proof -
  let ?f = "forced_partner pre suf best a b"
  have "distinct (map fst (List.map_filter ?f xs)) \<and> fst ` set (List.map_filter ?f xs) \<subseteq> set xs"
    if "distinct xs" for xs
    using that
    by (induction xs) (auto simp: List.map_filter_simps forced_partner_Some split: option.splits)
  then show ?thesis by (simp add: forced_pairs_def)
qed

lemma best_longest: "prefix_table a b ! length a ! length b = lcs_pre a b"
  by (simp add: prefix_table_nth)

lemma line_matches_iff:
  assumes "i < length a"
  shows "j \<in> set (line_matches (prefix_table a b) (suffix_table a b) (lcs_pre a b) a b i) \<longleftrightarrow>
    j < length b \<and> a ! i = b ! j \<and> link_score a b i j = lcs_pre a b"
  using assms by (auto simp: line_matches_def link_score_def prefix_table_nth suffix_table_nth)

lemma line_forced_iff:
  assumes "i < length a"
  shows "line_forced (prefix_table a b) (suffix_table a b) (lcs_pre a b) (length b) i \<longleftrightarrow>
    (\<forall>j\<le>length b. skip_score a b i j \<noteq> lcs_pre a b)"
  using assms by (auto simp: line_forced_def list_ex_iff skip_score_def prefix_table_nth suffix_table_nth)

text \<open>A line has a possible partner exactly when some longest alignment links the two.\<close>

lemma possible_link:
  assumes "i < length a"
  shows "j \<in> set (line_matches (prefix_table a b) (suffix_table a b) (lcs_pre a b) a b i) \<longleftrightarrow>
    (\<exists>ps. longest_alignment a b ps \<and> (i, j) \<in> set ps)"
  unfolding line_matches_iff [OF assms]
proof
  assume l: "j < length b \<and> a ! i = b ! j \<and> link_score a b i j = lcs_pre a b"
  then obtain ps where "alignment a b ps" "length ps = lcs_pre a b" "(i, j) \<in> set ps"
    using alignment_with_link [OF assms, of j b] by auto
  then show "\<exists>ps. longest_alignment a b ps \<and> (i, j) \<in> set ps" using longest_alignmentI by blast
qed (use used_link in blast)

lemma alignment_inj:
  assumes "alignment a b ps" "(i, j) \<in> set ps" "(i, j') \<in> set ps"
  shows "j = j'"
proof -
  have "distinct (map fst ps)" using alignment_fst [OF assms(1)] strict_sorted_iff by blast
  then show ?thesis using assms(2,3) eq_key_imp_eq_value by fastforce
qed

lemma longest_alignment_exists: "\<exists>ps. longest_alignment a b ps"
proof -
  obtain ps where "alignment a b ps" "length ps = lcs_pre a b" using alignment_attained by blast
  then show ?thesis using longest_alignmentI by blast
qed

text \<open>It is mapped exactly when every longest alignment links the two.\<close>

lemma forced_link:
  assumes "i < length a"
  shows "(i, j) \<in> set (forced_pairs (prefix_table a b) (suffix_table a b) (lcs_pre a b) a b) \<longleftrightarrow>
    (\<forall>ps. longest_alignment a b ps \<longrightarrow> (i, j) \<in> set ps)" (is "?forced \<longleftrightarrow> ?always")
proof
  let ?matches = "line_matches (prefix_table a b) (suffix_table a b) (lcs_pre a b) a b i"
  assume f: ?forced
  then have m: "?matches = [j]" and s: "\<forall>j\<le>length b. skip_score a b i j \<noteq> lcs_pre a b"
    using assms by (auto simp: forced_pairs_iff line_forced_iff)
  show ?always
  proof (intro allI impI)
    fix ps assume ps: "longest_alignment a b ps"
    obtain j' where j': "(i, j') \<in> set ps" using skipped_line [OF ps _ assms] s by fastforce
    then have "j' \<in> set ?matches" using possible_link [OF assms] ps by blast
    then show "(i, j) \<in> set ps" using m j' by simp
  qed
next
  let ?matches = "line_matches (prefix_table a b) (suffix_table a b) (lcs_pre a b) a b i"
  assume al: ?always
  obtain ps where ps: "longest_alignment a b ps" using longest_alignment_exists by blast
  have only: "j' = j" if j': "j' \<in> set ?matches" for j'
  proof -
    obtain qs where qs: "longest_alignment a b qs" "(i, j') \<in> set qs"
      using possible_link [OF assms, THEN iffD1, OF j'] by blast
    then show ?thesis
      using al alignment_inj [of a b qs i j' j] by (simp add: longest_alignment_def)
  qed
  have "j \<in> set ?matches" unfolding possible_link [OF assms] using al ps by blast
  then have "set ?matches = {j}" using only by blast
  moreover have "distinct ?matches" by (simp add: line_matches_def)
  ultimately have "?matches = [j]" by (intro distinct_set_singleton)
  moreover have "skip_score a b i j' \<noteq> lcs_pre a b" if jb: "j' \<le> length b" for j'
  proof
    assume eq: "skip_score a b i j' = lcs_pre a b"
    obtain qs where "alignment a b qs" "length qs = skip_score a b i j'" "i \<notin> fst ` set qs"
      by (rule alignment_skipping [OF assms jb])
    then show False using al longest_alignmentI eq by force
  qed
  ultimately show ?forced using assms by (simp add: forced_pairs_iff line_forced_iff)
qed

lemma alignment_identity:
  assumes "longest_alignment a a ps"
  shows "(i, j) \<in> set ps \<longleftrightarrow> i < length a \<and> i = j"
proof -
  have al: "alignment a a ps" using assms by (simp add: longest_alignment_def)
  have "lcs_len xs xs = length xs" for xs :: "'a list" by (induction xs) auto
  then have len: "length ps = length a" using longest_alignment_length [OF assms] by (simp add: lcs_pre_def)
  have all: "xs = [0..<n]" if "sorted_wrt (<) xs" "set xs \<subseteq> {..<n}" "length xs = n" for xs :: "nat list" and n
  proof -
    have d: "distinct xs" using that(1) strict_sorted_iff by blast
    then have "card (set xs) = card {..<n}" using that(3) by (simp add: distinct_card)
    then have "set xs = {..<n}" using that(2) by (intro card_subset_eq) auto
    then show ?thesis
      using that(1) d by (intro sorted_distinct_set_unique) (simp_all add: strict_sorted_iff lessThan_atLeast0)
  qed
  have "map fst ps = [0..<length a]"
    using alignment_fst [OF al] al len by (intro all) (auto simp: alignment_def)
  moreover have "map snd ps = [0..<length a]"
    using alignment_snd [OF al] al len by (intro all) (auto simp: alignment_def)
  ultimately have "ps = zip [0..<length a] [0..<length a]" using zip_map_fst_snd [of ps] by simp
  then have "set ps = (\<lambda>k. (k, k)) ` {..<length a}" by (simp add: zip_same_conv_map lessThan_atLeast0)
  then show ?thesis by auto
qed

lemma cell_budget: "k \<noteq> 0 \<Longrightarrow> \<not> n > cell_limit div k \<longleftrightarrow> n * k \<le> cell_limit"
  by (simp add: not_less less_eq_div_iff_mult_less_eq)

text \<open>
  Within the budget of cells, a line is mapped to another exactly when every longest alignment of
  the two texts links them; beyond it nothing is mapped. What is called removed or added is used by
  no longest alignment at all.
\<close>

lemma forward_certain:
  assumes "cl_forward (cumulative_line_mapping before after) line = Some line'"
    and "longest_alignment (cumulative_text_lines before) (cumulative_text_lines after) ps"
  shows "1 \<le> line" "1 \<le> line'" "(nat (line - 1), nat (line' - 1)) \<in> set ps"
proof -
  let ?a = "cumulative_text_lines before" and ?b = "cumulative_text_lines after"
  have "1 \<le> line \<and> 1 \<le> line' \<and> (nat (line - 1), nat (line' - 1)) \<in> set ps"
  proof (cases "before = after")
    case True
    then have "line_map (map (\<lambda>i. (i, i)) [0..<length ?a]) line = Some line'"
      using assms(1) by (simp add: cumulative_line_mapping_def Let_def)
    from line_map_Some [OF this] show ?thesis
      using alignment_identity [of "cumulative_text_lines after" ps] assms(2) True by auto
  next
    case False
    then have "line_map (forced_pairs (prefix_table ?a ?b) (suffix_table ?a ?b) (lcs_pre ?a ?b) ?a ?b) line
        = Some line'"
      using assms(1) by (auto simp: cumulative_line_mapping_def Let_def best_longest split: if_splits)
    from line_map_Some [OF this] show ?thesis
      using forced_link assms(2) forced_pairs_iff by blast
  qed
  then show "1 \<le> line" "1 \<le> line'" "(nat (line - 1), nat (line' - 1)) \<in> set ps" by auto
qed

lemma forward_complete:
  assumes "length (cumulative_text_lines before) * length (cumulative_text_lines after) \<le> cell_limit"
    and "\<forall>ps. longest_alignment (cumulative_text_lines before) (cumulative_text_lines after) ps \<longrightarrow> (i, j) \<in> set ps"
  shows "cl_forward (cumulative_line_mapping before after) (int i + 1) = Some (int j + 1)"
proof -
  let ?a = "cumulative_text_lines before" and ?b = "cumulative_text_lines after"
  obtain ps where ps: "longest_alignment ?a ?b ps" using longest_alignment_exists by blast
  then have ij: "i < length ?a" "j < length ?b" using assms(2) used_link by blast+
  show ?thesis
  proof (cases "before = after")
    case True
    then have "j = i" using alignment_identity [of ?a ps i j] ps assms(2) by auto
    then show ?thesis
      using True ij line_map_in [of i i "map (\<lambda>i. (i, i)) [0..<length ?a]"]
      by (simp add: cumulative_line_mapping_def Let_def comp_def image_iff)
  next
    case False
    have "(i, j) \<in> set (forced_pairs (prefix_table ?a ?b) (suffix_table ?a ?b) (lcs_pre ?a ?b) ?a ?b)"
      using forced_link [OF ij(1)] assms(2) by blast
    from line_map_in [OF this forced_pairs_distinct] show ?thesis
      using False ij assms(1) cell_budget [of "length ?b" "length ?a"]
      by (auto simp: cumulative_line_mapping_def Let_def best_longest)
  qed
qed

lemma marked_lines_iff: "marked_lines p n line \<longleftrightarrow> 1 \<le> line \<and> nat (line - 1) < n \<and> p (nat (line - 1))"
  by (auto simp: marked_lines_def)

lemma removed_certain:
  assumes "cl_removed (cumulative_line_mapping before after) line"
    and "longest_alignment (cumulative_text_lines before) (cumulative_text_lines after) ps"
  shows "nat (line - 1) < length (cumulative_text_lines before)" "nat (line - 1) \<notin> fst ` set ps"
proof -
  let ?a = "cumulative_text_lines before" and ?b = "cumulative_text_lines after"
  have "before \<noteq> after" using assms(1) by (auto simp: cumulative_line_mapping_def Let_def)
  then show l: "nat (line - 1) < length ?a"
    using assms(1) by (auto simp: cumulative_line_mapping_def Let_def marked_lines_iff split: if_splits)
  have "?b = [] \<or> ?a ! nat (line - 1) \<notin> set ?b
      \<or> line_matches (prefix_table ?a ?b) (suffix_table ?a ?b) (lcs_pre ?a ?b) ?a ?b (nat (line - 1)) = []"
    using assms(1) l \<open>before \<noteq> after\<close>
    by (auto simp: cumulative_line_mapping_def Let_def marked_lines_iff best_longest split: if_splits)
  moreover have "?b \<noteq> [] \<and> ?a ! i \<in> set ?b
      \<and> j \<in> set (line_matches (prefix_table ?a ?b) (suffix_table ?a ?b) (lcs_pre ?a ?b) ?a ?b i)"
    if "(i, j) \<in> set ps" for i j
    using used_link [OF assms(2) that] possible_link [of i ?a j ?b] that assms(2) by auto
  ultimately show "nat (line - 1) \<notin> fst ` set ps" by force
qed

lemma added_certain:
  assumes "cl_added (cumulative_line_mapping before after) line"
    and "longest_alignment (cumulative_text_lines before) (cumulative_text_lines after) ps"
  shows "nat (line - 1) < length (cumulative_text_lines after)" "nat (line - 1) \<notin> snd ` set ps"
proof -
  let ?a = "cumulative_text_lines before" and ?b = "cumulative_text_lines after"
  let ?matches = "line_matches (prefix_table ?a ?b) (suffix_table ?a ?b) (lcs_pre ?a ?b) ?a ?b"
  have "before \<noteq> after" using assms(1) by (auto simp: cumulative_line_mapping_def Let_def)
  then show l: "nat (line - 1) < length ?b"
    using assms(1) by (auto simp: cumulative_line_mapping_def Let_def marked_lines_iff split: if_splits)
  have "?a = [] \<or> ?b ! nat (line - 1) \<notin> set ?a \<or> (\<forall>i<length ?a. nat (line - 1) \<notin> set (?matches i))"
    using assms(1) l \<open>before \<noteq> after\<close>
    by (auto simp: cumulative_line_mapping_def Let_def marked_lines_iff best_longest list_ex_iff split: if_splits)
  moreover have "?a \<noteq> [] \<and> ?b ! j \<in> set ?a \<and> i < length ?a \<and> j \<in> set (?matches i)"
    if "(i, j) \<in> set ps" for i j
    using used_link [OF assms(2) that] possible_link [of i ?a j ?b] that assms(2)
    by (auto simp: in_set_conv_nth)
  ultimately show "nat (line - 1) \<notin> snd ` set ps" by force
qed

text \<open>
  C23. Line numbers are carried from one text to another only where that is certain. Within the
  budget of cells, a line of the old text is mapped to a line of the new one exactly when every
  longest alignment of the two texts links these two lines.
\<close>

theorem line_mapping_certain:
  assumes "length (cumulative_text_lines before) * length (cumulative_text_lines after) \<le> cell_limit"
  shows "cl_forward (cumulative_line_mapping before after) line = Some line' \<longleftrightarrow>
    1 \<le> line \<and> 1 \<le> line' \<and>
    (\<forall>ps. longest_alignment (cumulative_text_lines before) (cumulative_text_lines after) ps
       \<longrightarrow> (nat (line - 1), nat (line' - 1)) \<in> set ps)"
proof
  assume m: "cl_forward (cumulative_line_mapping before after) line = Some line'"
  obtain ps where "longest_alignment (cumulative_text_lines before) (cumulative_text_lines after) ps"
    using longest_alignment_exists by blast
  from forward_certain(1,2) [OF m this] forward_certain(3) [OF m]
  show "1 \<le> line \<and> 1 \<le> line' \<and> (\<forall>ps. longest_alignment (cumulative_text_lines before) (cumulative_text_lines after) ps
       \<longrightarrow> (nat (line - 1), nat (line' - 1)) \<in> set ps)"
    by blast
next
  assume "1 \<le> line \<and> 1 \<le> line' \<and> (\<forall>ps. longest_alignment (cumulative_text_lines before) (cumulative_text_lines after) ps
       \<longrightarrow> (nat (line - 1), nat (line' - 1)) \<in> set ps)"
  then show "cl_forward (cumulative_line_mapping before after) line = Some line'"
    using forward_complete [OF assms, of "nat (line - 1)" "nat (line' - 1)"] by simp
qed

definition old_lines :: string where
  "old_lines = ''a'' @ [LF] @ ''b'' @ [LF] @ ''c'' @ [LF] @ ''c'' @ [LF]"

definition new_lines :: string where
  "new_lines = ''x'' @ [LF] @ ''b'' @ [LF] @ ''c'' @ [LF]"

lemma sample_pairs:
  "forced_pairs (prefix_table (cumulative_text_lines old_lines) (cumulative_text_lines new_lines))
         (suffix_table (cumulative_text_lines old_lines) (cumulative_text_lines new_lines))
         (prefix_table (cumulative_text_lines old_lines) (cumulative_text_lines new_lines) ! 4 ! 3)
         (cumulative_text_lines old_lines) (cumulative_text_lines new_lines) = [(1, 1)]"
  by code_simp

lemma line_mapping_certain_witness:
  "length (cumulative_text_lines old_lines) * length (cumulative_text_lines new_lines) \<le> cell_limit
   \<and> cl_forward (cumulative_line_mapping old_lines new_lines) 2 = Some 2
   \<and> cl_forward (cumulative_line_mapping old_lines new_lines) 3 \<noteq> Some 3
   \<and> \<not> (\<exists>ps. longest_alignment (cumulative_text_lines old_lines) (cumulative_text_lines new_lines) ps \<and> (1, 1) \<notin> set ps)"
proof -
  have "length (cumulative_text_lines old_lines) = 4" "length (cumulative_text_lines new_lines) = 3"
    by code_simp+
  then have b: "length (cumulative_text_lines old_lines) * length (cumulative_text_lines new_lines) \<le> cell_limit"
    by (simp add: cell_limit_def)
  have m: "old_lines \<noteq> new_lines" "length (cumulative_text_lines old_lines) = 4" "length (cumulative_text_lines new_lines) = 3"
    by code_simp+
  then have f: "cl_forward (cumulative_line_mapping old_lines new_lines) = [2 \<mapsto> 2]"
    using sample_pairs by (auto simp: cumulative_line_mapping_def Let_def cell_limit_def line_map_def)
  then show ?thesis
    using b line_mapping_certain [OF b, of 2 2] by simp
qed

end
