(* ===== verification/CumulativeReport.thy ===== *)
theory CumulativeReport
  imports ChangeReport LineAlignment
begin

section \<open>The accumulated report of a file (engine/cumulative_report.go)\<close>

text \<open>
  What is still changed between the first version of a file and its accepted contents. Rows of
  earlier attempts are carried over with line numbers only where the alignments of the texts are
  certain. The rows recorded for an attempt are the argument \<open>changes\<close> (the attempts of the model
  do not hold them); \<open>readAttempt\<close> is an optional function that gives the text before and after an
  attempt, or fails.
\<close>

subsection \<open>Lines carried from one text to another\<close>

fun mapped_lines :: "cumulative_lines \<Rightarrow> int list \<Rightarrow> int list option" where
  "mapped_lines m [] = Some []"
| "mapped_lines m (l # ls) =
     (case cl_forward m l of
        Some l' \<Rightarrow> map_option ((#) l') (mapped_lines m ls)
      | None \<Rightarrow> if cl_removed m l then mapped_lines m ls else None)"

definition cumulative_mapped_range :: "int \<Rightarrow> int \<Rightarrow> cumulative_lines \<Rightarrow> int list option" where
  "cumulative_mapped_range first final m =
     (if first = 0 \<and> final = 0 then Some []
      else if first \<le> 0 \<or> final < first \<or> final > int (cl_source_lines m) then None
      else mapped_lines m [first..final])"

definition cumulative_changed_lines ::
  "int list \<Rightarrow> (int \<Rightarrow> bool) \<Rightarrow> (int \<Rightarrow> int option) \<Rightarrow> int list \<times> bool" where
  "cumulative_changed_lines ls changed unchanged =
     (filter changed ls, list_all (\<lambda>l. changed l \<or> unchanged l \<noteq> None) ls)"

definition no_lines :: line_range where
  "no_lines = \<lparr>lr_before_start = 0, lr_before_end = 0, lr_after_start = 0, lr_after_end = 0\<rparr>"

definition old_line :: "int \<Rightarrow> line_range" where
  "old_line l = no_lines\<lparr>lr_before_start := l, lr_before_end := l\<rparr>"

definition new_line :: "int \<Rightarrow> line_range" where
  "new_line l = no_lines\<lparr>lr_after_start := l, lr_after_end := l\<rparr>"

definition cumulative_report_range ::
  "line_range \<Rightarrow> cumulative_lines \<Rightarrow> cumulative_lines \<Rightarrow> cumulative_lines \<Rightarrow> line_range list \<times> bool" where
  "cumulative_report_range rg old_map new_map comparison =
     (if rg = no_lines then ([], False)
      else (case (cumulative_mapped_range (lr_before_start rg) (lr_before_end rg) old_map,
                  cumulative_mapped_range (lr_after_start rg) (lr_after_end rg) new_map) of
        (Some olds, Some news) \<Rightarrow>
          let (changed_old, old_certain) = cumulative_changed_lines olds (cl_removed comparison) (cl_forward comparison);
              (changed_new, new_certain) = cumulative_changed_lines news (cl_added comparison) (cl_reverse comparison);
              spans = map old_line changed_old @ map new_line changed_new
          in (spans, old_certain \<and> new_certain \<and> spans = [])
      | _ \<Rightarrow> ([], False)))"

subsection \<open>Held locations\<close>

definition add_report_line :: "(int \<times> int) list \<Rightarrow> int \<Rightarrow> (int \<times> int) list" where
  "add_report_line groups l =
     (if groups \<noteq> [] \<and> snd (last groups) + 1 = l then butlast groups @ [(fst (last groups), l)]
      else groups @ [(l, l)])"

definition contiguous_report_lines :: "int list \<Rightarrow> (int \<times> int) list" where
  "contiguous_report_lines = foldl add_report_line []"

definition exact_source_lines :: "int \<Rightarrow> int \<Rightarrow> nat \<Rightarrow> int list option" where
  "exact_source_lines first final lines =
     (if first < 1 \<or> final < first \<or> final > int lines then None else Some [first..final])"

fun all_forward :: "cumulative_lines \<Rightarrow> int list \<Rightarrow> int list option" where
  "all_forward m [] = Some []"
| "all_forward m (l # ls) =
     (case cl_forward m l of None \<Rightarrow> None | Some l' \<Rightarrow> map_option ((#) l') (all_forward m ls))"

definition unchanged_mapped_lines :: "int list \<Rightarrow> cumulative_lines \<Rightarrow> int list option" where
  "unchanged_mapped_lines ls m =
     (case all_forward m ls of Some (l # ls') \<Rightarrow> Some (l # ls') | _ \<Rightarrow> None)"

record held_mappings =
  hm_to_baseline :: cumulative_lines
  hm_to_accepted :: cumulative_lines
  hm_candidate_to_original :: cumulative_lines
  hm_candidate_available :: bool

definition new_held_line_mappings :: "string \<Rightarrow> string \<Rightarrow> string \<Rightarrow> string \<Rightarrow> held_mappings" where
  "new_held_line_mappings original candidate baseline accepted =
     \<lparr>hm_to_baseline = cumulative_line_mapping original baseline,
      hm_to_accepted = cumulative_line_mapping original accepted,
      hm_candidate_to_original = cumulative_line_mapping candidate original,
      hm_candidate_available = (candidate \<noteq> [])\<rparr>"

definition option_list :: "'a option \<Rightarrow> 'a list" where
  "option_list x = (case x of None \<Rightarrow> [] | Some y \<Rightarrow> [y])"

text \<open>The lines of the original text that a rg stands for, by either of its sides.\<close>

definition original_sets :: "held_mappings \<Rightarrow> line_range \<Rightarrow> int list list" where
  "original_sets m rg =
     option_list (exact_source_lines (lr_before_start rg) (lr_before_end rg) (cl_source_lines (hm_to_baseline m)))
     @ (if hm_candidate_available m
        then option_list (Option.bind
               (exact_source_lines (lr_after_start rg) (lr_after_end rg) (cl_source_lines (hm_candidate_to_original m)))
               (\<lambda>ls. unchanged_mapped_lines ls (hm_candidate_to_original m)))
        else [])"

definition held_groups :: "int list \<Rightarrow> cumulative_lines \<Rightarrow> (int \<times> int) list" where
  "held_groups ls m = (case unchanged_mapped_lines ls m of None \<Rightarrow> [] | Some ls' \<Rightarrow> contiguous_report_lines ls')"

definition held_spans :: "held_mappings \<Rightarrow> int list \<Rightarrow> line_range list" where
  "held_spans m ls =
     map (\<lambda>g. no_lines\<lparr>lr_before_start := fst g, lr_before_end := snd g\<rparr>) (held_groups ls (hm_to_baseline m))
     @ map (\<lambda>g. no_lines\<lparr>lr_after_start := fst g, lr_after_end := snd g\<rparr>) (held_groups ls (hm_to_accepted m))"

definition append_range :: "line_range list \<Rightarrow> line_range \<Rightarrow> line_range list" where
  "append_range rs rg = (if rg \<in> set rs then rs else rs @ [rg])"

definition held_line_ranges :: "held_mappings \<Rightarrow> line_range list \<Rightarrow> line_range list" where
  "held_line_ranges m spans =
     foldl append_range [] (concat (map (\<lambda>rg. concat (map (held_spans m) (original_sets m rg))) spans))"

subsection \<open>The rows\<close>

type_synonym attempt_reader = "(attempt \<Rightarrow> (string \<times> string) option) option"

definition cumulative_report_row :: "attempt \<Rightarrow> nat \<Rightarrow> report_row \<Rightarrow> report_row" where
  "cumulative_report_row h n recorded =
     recorded\<lparr>ro_id := ''attempt:'' @ at_id h @ '':'' @ decimal n @ '':'' @ ro_id recorded,
              ro_source_attempt := at_id h\<rparr>"

definition read_texts :: "attempt_reader \<Rightarrow> attempt \<Rightarrow> (string \<times> string) option" where
  "read_texts reader h = (case reader of None \<Rightarrow> None | Some f \<Rightarrow> f h)"

definition fixed_row ::
  "(cumulative_lines \<times> cumulative_lines) option \<Rightarrow> cumulative_lines \<Rightarrow> attempt \<Rightarrow> nat \<times> report_row \<Rightarrow> report_row option" where
  "fixed_row maps comparison h nr =
     (let recorded = snd nr; row0 = cumulative_report_row h (fst nr) recorded;
          row = row0\<lparr>ro_location := (if blank (ro_location row0) then ro_location row0
                       else ''position when fixed: '' @ ro_location row0), ro_line_ranges := []\<rparr>;
          verified = (ro_attribution_version recorded = line_attribution_version)
      in if ro_status recorded \<noteq> R_fixed then None
         else (case (verified, maps) of
           (True, Some (old_map, new_map)) \<Rightarrow>
             let parts = map (\<lambda>rg. cumulative_report_range rg old_map new_map comparison) (ro_line_ranges recorded) in
             if ro_line_ranges recorded \<noteq> [] \<and> list_all snd parts then None
             else Some (row\<lparr>ro_line_ranges := concat (map fst parts)\<rparr>)
         | _ \<Rightarrow> Some row))"

definition attempt_maps ::
  "attempt_reader \<Rightarrow> string \<Rightarrow> string \<Rightarrow> attempt \<Rightarrow> (cumulative_lines \<times> cumulative_lines) option" where
  "attempt_maps reader before after h =
     map_option (\<lambda>(old_text, new_text).
        (cumulative_line_mapping (normalized_report_text old_text) before,
         cumulative_line_mapping (normalized_report_text new_text) after)) (read_texts reader h)"

definition accepted_rows ::
  "(attempt \<Rightarrow> report_row list) \<Rightarrow> attempt_reader \<Rightarrow> string \<Rightarrow> string \<Rightarrow> attempt list \<Rightarrow> report_row list" where
  "accepted_rows changes reader before after history =
     concat (map (\<lambda>h. List.map_filter
         (fixed_row (attempt_maps reader before after h) (cumulative_line_mapping before after) h)
         (List.enumerate 0 (changes h)))
       (filter (\<lambda>h. before \<noteq> after \<and> adopted_changes h) history))"

definition held_verified :: "report_row \<Rightarrow> bool" where
  "held_verified r \<longleftrightarrow> ro_status r = R_needs_human \<and> ro_attribution_version r = line_attribution_version"

definition latest_mappings ::
  "(attempt \<Rightarrow> report_row list) \<Rightarrow> attempt_reader \<Rightarrow> string \<Rightarrow> string \<Rightarrow> attempt \<Rightarrow> held_mappings option" where
  "latest_mappings changes reader before after h =
     (if list_ex (\<lambda>r. held_verified r \<and> ro_line_ranges r \<noteq> []) (changes h)
      then map_option (\<lambda>(source_before, source_after). new_held_line_mappings
             (normalized_report_text source_before) (normalized_report_text source_after) before after)
           (read_texts reader h)
      else None)"

definition open_row ::
  "held_mappings option \<Rightarrow> rule_id list \<Rightarrow> attempt \<Rightarrow> nat \<times> report_row \<Rightarrow> report_row option" where
  "open_row maps fixed_rules h nr =
     (let recorded = snd nr in
      if ro_status recorded = R_fixed then None
      else if ro_status recorded = R_unchanged \<and> ro_rule_id recorded \<in> set fixed_rules \<and> prefix ''rule:'' (ro_id recorded)
      then None
      else Some ((cumulative_report_row h (fst nr) recorded)\<lparr>ro_line_ranges :=
        (case maps of Some m \<Rightarrow> if held_verified recorded then held_line_ranges m (ro_line_ranges recorded) else []
         | None \<Rightarrow> [])\<rparr>))"

definition cumulative_change_reports ::
  "(attempt \<Rightarrow> report_row list) \<Rightarrow> task \<Rightarrow> string \<Rightarrow> string \<Rightarrow> attempt_reader \<Rightarrow> report_row list" where
  "cumulative_change_reports changes t before0 after0 reader =
     (let before = normalized_report_text before0; after = normalized_report_text after0;
          history = repair_history t;
          accepted = accepted_rows changes reader before after history
      in accepted @
         (if history = [] then []
          else let h = last history in
            List.map_filter (open_row (latest_mappings changes reader before after h) (map ro_rule_id accepted) h)
              (List.enumerate 0 (changes h))))"

section \<open>What the accumulated report claims\<close>

lemma set_map_filter: "y \<in> set (List.map_filter f xs) \<longleftrightarrow> (\<exists>x\<in>set xs. f x = Some y)"
  by (force simp: List.map_filter_def)

lemma report_range_changed:
  assumes "rg \<in> set (fst (cumulative_report_range s old_map new_map comparison))"
  shows "(\<exists>l. rg = old_line l \<and> cl_removed comparison l) \<or> (\<exists>l. rg = new_line l \<and> cl_added comparison l)"
  using assms
  by (auto simp: cumulative_report_range_def cumulative_changed_lines_def Let_def split: option.splits if_splits)

text \<open>
  A line of a fixed row is one line of one of the two texts, and no longest alignment of the two
  texts keeps that line: a fix is never shown beside a line that did not change.
\<close>

lemma fixed_row_lines_changed:
  assumes "fixed_row maps (cumulative_line_mapping before after) h nr = Some row"
    and "rg \<in> set (ro_line_ranges row)"
    and "longest_alignment (cumulative_text_lines before) (cumulative_text_lines after) ps"
  shows "(\<exists>l. rg = old_line l \<and> nat (l - 1) \<notin> fst ` set ps)
    \<or> (\<exists>l. rg = new_line l \<and> nat (l - 1) \<notin> snd ` set ps)"
proof -
  obtain s om nm where "rg \<in> set (fst (cumulative_report_range s om nm (cumulative_line_mapping before after)))"
    using assms(1,2) by (auto simp: fixed_row_def Let_def split: if_splits bool.splits option.splits)
  from report_range_changed [OF this] show ?thesis
    using removed_certain(2) [OF _ assms(3)] added_certain(2) [OF _ assms(3)] by blast
qed

text \<open>Fixed rows come from attempts whose changes were adopted and not taken back since.\<close>

lemma accepted_row_origin:
  assumes "row \<in> set (accepted_rows changes reader before after history)"
  obtains h n recorded where "h \<in> set history" "adopted_changes h" "before \<noteq> after"
    "n < length (changes h)" "changes h ! n = recorded" "ro_status recorded = R_fixed"
    "ro_source_attempt row = at_id h" "ro_rule_id row = ro_rule_id recorded"
proof -
  obtain h n recorded where h: "h \<in> set history" "adopted_changes h" "before \<noteq> after"
      "(n, recorded) \<in> set (List.enumerate 0 (changes h))"
      and f: "fixed_row (attempt_maps reader before after h) (cumulative_line_mapping before after) h (n, recorded) = Some row"
    using assms by (auto simp: accepted_rows_def set_map_filter)
  have n: "n < length (changes h)" "changes h ! n = recorded" using h(4) by (auto simp: in_set_enumerate_eq)
  have "ro_status recorded = R_fixed" "ro_source_attempt row = at_id h" "ro_rule_id row = ro_rule_id recorded"
    using f by (auto simp: fixed_row_def Let_def cumulative_report_row_def split: if_splits bool.splits option.splits)
  then show ?thesis using that h n by blast
qed

lemma unchanged_file_nothing_fixed:
  "row \<in> set (cumulative_change_reports changes t s s reader) \<Longrightarrow> ro_status row \<noteq> R_fixed"
  by (auto simp: cumulative_change_reports_def Let_def accepted_rows_def set_map_filter open_row_def
      cumulative_report_row_def split: if_splits)

subsection \<open>Held lines\<close>

lemma contiguous_covers: "concat (map (\<lambda>g. [fst g..snd g]) (contiguous_report_lines ls)) = ls"
proof -
  have "concat (map (\<lambda>g. [fst g..snd g]) (foldl add_report_line groups ls))
        = concat (map (\<lambda>g. [fst g..snd g]) groups) @ ls \<and> (\<forall>g\<in>set groups. fst g \<le> snd g)"
    if "\<forall>g\<in>set groups. fst g \<le> snd g" for groups
    using that
  proof (induction ls arbitrary: groups)
    case (Cons l ls)
    show ?case
    proof (cases "groups \<noteq> [] \<and> snd (last groups) + 1 = l")
      case True
      then have g: "groups = butlast groups @ [last groups]" "fst (last groups) \<le> snd (last groups)"
        using Cons.prems by auto
      have l: "[fst (last groups)..l] = [fst (last groups)..snd (last groups)] @ [l]"
        using g(2) upto_rec2 [of "fst (last groups)" "snd (last groups) + 1"] True by auto
      have c: "concat (map (\<lambda>g. [fst g..snd g]) groups)
          = concat (map (\<lambda>g. [fst g..snd g]) (butlast groups)) @ [fst (last groups)..snd (last groups)]"
        by (subst g(1)) simp
      have "fst (last groups) \<le> l" using g(2) conjunct2 [OF True] by linarith
      then have ok: "\<forall>g\<in>set (butlast groups @ [(fst (last groups), l)]). fst g \<le> snd g"
        using Cons.prems by (auto dest: in_set_butlastD)
      have "concat (map (\<lambda>g. [fst g..snd g]) (foldl add_report_line (butlast groups @ [(fst (last groups), l)]) ls))
          = concat (map (\<lambda>g. [fst g..snd g]) groups) @ l # ls"
        using conjunct1 [OF Cons.IH [OF ok]] unfolding c by (simp add: l)
      moreover have "add_report_line groups l = butlast groups @ [(fst (last groups), l)]"
        using True by (simp add: add_report_line_def)
      ultimately show ?thesis using Cons.prems by simp
    next
      case False
      then show ?thesis using Cons.IH [of "groups @ [(l, l)]"] Cons.prems by (auto simp: add_report_line_def)
    qed
  qed simp
  then show ?thesis by (simp add: contiguous_report_lines_def)
qed

lemma all_forward_Some: "all_forward m ls = Some ls' \<Longrightarrow> list_all2 (\<lambda>l l'. cl_forward m l = Some l') ls ls'"
  by (induction ls arbitrary: ls') (auto split: option.splits)

lemma held_group_lines:
  assumes "g \<in> set (held_groups ls m)" "fst g \<le> l'" "l' \<le> snd g"
  shows "\<exists>l\<in>set ls. cl_forward m l = Some l'"
proof -
  obtain ls' where ls': "all_forward m ls = Some ls'" "g \<in> set (contiguous_report_lines ls')"
    using assms(1) by (auto simp: held_groups_def unchanged_mapped_lines_def split: option.splits list.splits)
  have "l' \<in> set (concat (map (\<lambda>g. [fst g..snd g]) (contiguous_report_lines ls')))"
    using ls'(2) assms(2,3) by auto
  then have "l' \<in> set ls'" by (simp only: contiguous_covers)
  then obtain k where k: "k < length ls'" "ls' ! k = l'" by (auto simp: in_set_conv_nth)
  then have "cl_forward m (ls ! k) = Some l'" "k < length ls"
    using all_forward_Some [OF ls'(1)] by (auto simp: list_all2_conv_all_nth)
  then show ?thesis using nth_mem by blast
qed

lemma set_append_range: "set (foldl append_range rs spans) = set rs \<union> set spans"
  by (induction spans arbitrary: rs) (auto simp: append_range_def)

text \<open>
  Every line number shown for a held row is the certain image of a line of the attempt's own source,
  in the baseline or in the accepted text.
\<close>

lemma held_lines_certain:
  assumes "rg \<in> set (held_line_ranges m spans)"
  shows "(\<forall>l'. lr_before_start rg \<le> l' \<and> l' \<le> lr_before_end rg \<and> l' \<noteq> 0 \<longrightarrow> (\<exists>l. cl_forward (hm_to_baseline m) l = Some l'))
    \<and> (\<forall>l'. lr_after_start rg \<le> l' \<and> l' \<le> lr_after_end rg \<and> l' \<noteq> 0 \<longrightarrow> (\<exists>l. cl_forward (hm_to_accepted m) l = Some l'))"
proof -
  obtain ls where "rg \<in> set (held_spans m ls)"
    using assms by (auto simp: held_line_ranges_def set_append_range)
  then show ?thesis
    using held_group_lines by (fastforce simp: held_spans_def no_lines_def)
qed

end
