(* ===== verification/PublicationReport.thy ===== *)
theory PublicationReport
  imports ChangeReport Recovery "HOL-Library.AList"
begin

section \<open>The text of a published result (engine/result_publication.go)\<close>

text \<open>
  What the commit of a published result says about each file and each rule: the fixes of adopted
  attempts accumulate, but only the latest attempt contributes open work, and a review is quoted
  only when it judged the bytes of its attempt. A map of the source that is only looked up or
  walked in a sorted order is an association list. Fixed phrases of the program are in English, and
  its marks are words; the rows recorded for an attempt are the argument \<open>changes\<close>.
\<close>

record publication_file =
  fi_file :: string
  fi_link :: string
  fi_rules :: "rule_id list"
  fi_summary :: string

record rule_report =
  rr_changes :: "string list"
  rr_holds :: "string list"
  rr_unchanged :: "string list"
  rr_fixed :: bool
  rr_assessment :: "review_assessment option"

type_synonym rule_reports = "(rule_id \<times> rule_report) list"

definition no_rule_report :: rule_report where
  "no_rule_report = \<lparr>rr_changes = [], rr_holds = [], rr_unchanged = [], rr_fixed = False, rr_assessment = None\<rparr>"

definition rule_entry :: "rule_reports \<Rightarrow> rule_id \<Rightarrow> rule_report" where
  "rule_entry rules r = (case map_of rules r of None \<Rightarrow> no_rule_report | Some e \<Rightarrow> e)"

record file_report =
  fr_rules :: rule_reports
  fr_review :: "string option"

record publication_report =
  pr_tasks :: "task list"
  pr_files :: "(string \<times> file_report) list"

subsection \<open>One file\<close>

definition append_note :: "string list \<Rightarrow> string \<Rightarrow> string list" where
  "append_note notes line = (if line \<in> set notes then notes else notes @ [line])"

definition change_note :: "report_row \<Rightarrow> string" where
  "change_note c =
     (let d = (if \<not> blank (ro_change c) then trim_space (ro_change c)
               else if \<not> blank (ro_rule_title c) then trim_space (ro_rule_title c)
               else ''fix applied'')
      in ''- '' @ ro_rule_id c @ '': '' @ d)"

definition fixed_changes :: "(attempt \<Rightarrow> report_row list) \<Rightarrow> attempt \<Rightarrow> report_row list" where
  "fixed_changes changes h = filter (\<lambda>c. ro_status c = R_fixed) (changes h)"

text \<open>The rules an adopted attempt is credited with, and its notes.\<close>

definition credited_rules :: "(attempt \<Rightarrow> report_row list) \<Rightarrow> attempt \<Rightarrow> rule_id list" where
  "credited_rules changes h =
     filter (\<lambda>r. r \<noteq> []) (if changes h \<noteq> [] then map ro_rule_id (fixed_changes changes h) else at_rules_applied h)"

definition attempt_notes :: "(attempt \<Rightarrow> report_row list) \<Rightarrow> attempt \<Rightarrow> string list" where
  "attempt_notes changes h =
     (if changes h \<noteq> [] then map change_note (fixed_changes changes h)
      else map (\<lambda>r. ''- '' @ r @ '': fix applied'') (filter (\<lambda>r. r \<noteq> []) (at_rules_applied h)))"

definition latest_note :: "attempt list \<Rightarrow> string option" where
  "latest_note hs = map_option at_note
     (find (\<lambda>h. (adopted_changes h \<or> at_outcome h = Skipped) \<and> \<not> blank (at_note h)) (rev hs))"

definition publication_file_summary :: "(attempt \<Rightarrow> report_row list) \<Rightarrow> task \<Rightarrow> publication_file" where
  "publication_file_summary changes t =
     (let hs = repair_history t; adopted = filter adopted_changes hs;
          notes = foldl append_note [] (concat (map (attempt_notes changes) adopted));
          notes' = (if notes = [] then [''- adopted changes (no record by rule)''] else notes)
      in \<lparr>fi_file = tk_file t, fi_link = [],
          fi_rules = sort (remdups (concat (map (credited_rules changes) adopted))),
          fi_summary = (case latest_note hs of Some n \<Rightarrow> n | None \<Rightarrow> join_with LF notes')\<rparr>)"

subsection \<open>The rules of one file\<close>

definition append_unique :: "string list \<Rightarrow> string \<Rightarrow> string list" where
  "append_unique vs v = (let t = trim_space v in if t = [] \<or> t \<in> set vs then vs else vs @ [t])"

definition update_rule :: "rule_id \<Rightarrow> (rule_report \<Rightarrow> rule_report) \<Rightarrow> rule_reports \<Rightarrow> rule_reports" where
  "update_rule r f rules = AList.update r (f (rule_entry rules r)) rules"

definition adopted_rules :: "(attempt \<Rightarrow> report_row list) \<Rightarrow> attempt \<Rightarrow> rule_reports \<Rightarrow> rule_reports" where
  "adopted_rules changes h rules =
     (let named = (if changes h = [] then filter (\<lambda>r. r \<noteq> []) (at_rules_applied h) else []);
          rules1 = foldl (\<lambda>rs r. update_rule r (\<lambda>e. e\<lparr>rr_fixed := True\<rparr>) rs) rules named
      in foldl (\<lambda>rs c. update_rule (ro_rule_id c)
            (\<lambda>e. e\<lparr>rr_changes := append_unique (rr_changes e) (ro_change c), rr_fixed := True\<rparr>) rs)
           rules1 (fixed_changes changes h))"

definition hold_text :: "attempt \<Rightarrow> report_row \<Rightarrow> string" where
  "hold_text h c =
     (let change = trim_space (ro_change c); reason = trim_space (ro_reason c);
          both = (if reason \<noteq> [] \<and> reason \<noteq> change
                  then (if change \<noteq> [] then change @ '' -- '' else []) @ reason else change)
      in if both = [] then first_report_text [ro_location c, at_note h, ''a decision is on hold''] else both)"

definition latest_rules :: "(attempt \<Rightarrow> report_row list) \<Rightarrow> attempt \<Rightarrow> rule_reports \<Rightarrow> rule_reports" where
  "latest_rules changes h rules =
     foldl (\<lambda>rs c. case ro_status c of
          R_needs_human \<Rightarrow> update_rule (ro_rule_id c)
            (\<lambda>e. e\<lparr>rr_holds := append_unique (rr_holds e) (hold_text h c), rr_assessment := None\<rparr>) rs
        | R_unchanged \<Rightarrow> update_rule (ro_rule_id c)
            (\<lambda>e. e\<lparr>rr_unchanged := append_unique (rr_unchanged e) (first_report_text [ro_reason c, ''no fix needed''])\<rparr>) rs
        | _ \<Rightarrow> rs) rules (changes h)"

definition publication_latest_attempt :: "attempt list \<Rightarrow> nat option" where
  "publication_latest_attempt hs =
     find (\<lambda>i. terminal_outcome (at_outcome (hs ! i))) (rev [0..<length hs])"

definition review_of_attempt :: "attempt \<Rightarrow> bool \<Rightarrow> independent_review \<Rightarrow> bool" where
  "review_of_attempt h latest r \<longleftrightarrow>
     at_input_hash h \<noteq> [] \<and> rv_base_hash r = at_input_hash h \<and> rv_candidate_hash r \<noteq> []
     \<and> (if adopted_changes h \<or> at_outcome h = Skipped
        then at_output_hash h \<noteq> [] \<and> rv_candidate_hash r = at_output_hash h
             \<and> (rv_verdict r = V_passed \<or> at_partial h \<and> adopted_changes h \<and> rv_verdict r = V_passed_with_holds)
        else latest \<and> at_outcome h \<in> {Needs_human, Failed, Interrupted}
             \<and> rv_verdict r \<in> {V_needs_human, V_needs_changes}
             \<and> (at_output_hash h = [] \<or> rv_candidate_hash r = at_output_hash h))"

definition publication_attempt_review :: "attempt \<Rightarrow> bool \<Rightarrow> independent_review option" where
  "publication_attempt_review h latest = find (review_of_attempt h latest) (rev (at_reviews h))"

definition assessed_entry :: "bool \<Rightarrow> review_assessment \<Rightarrow> rule_report \<Rightarrow> rule_report" where
  "assessed_entry latest a e0 =
     (let e1 = e0\<lparr>rr_assessment := Some a\<rparr>;
          e2 = (if latest \<and> ra_status a \<in> {A_needs_human, A_other ''needs_changes'', A_violated} \<and> rr_holds e1 = []
                then e1\<lparr>rr_holds := append_unique (rr_holds e1) (first_report_text [ra_reason a, ''the review asks for a check''])\<rparr>
                else e1)
      in if \<not> rr_fixed e2 \<and> rr_holds e2 = [] \<and> ra_status a \<in> {A_satisfied, A_not_applicable}
         then e2\<lparr>rr_unchanged := append_unique (rr_unchanged e2) ''no fix needed''\<rparr> else e2)"

definition assessed_rules_of :: "bool \<Rightarrow> independent_review \<Rightarrow> rule_reports \<Rightarrow> rule_reports" where
  "assessed_rules_of latest r rules =
     foldl (\<lambda>rs a. if \<not> latest \<and> \<not> rr_fixed (rule_entry rs (ra_rule_id a)) then rs
                   else update_rule (ra_rule_id a) (assessed_entry latest a) rs) rules (rv_assessments r)"

definition report_attempt ::
  "(attempt \<Rightarrow> report_row list) \<Rightarrow> nat option \<Rightarrow> file_report \<Rightarrow> nat \<times> attempt \<Rightarrow> file_report" where
  "report_attempt changes latest fr ih =
     (let h = snd ih; is_latest = (latest = Some (fst ih)); unchanged = (at_outcome h = Skipped) in
      if \<not> adopted_changes h \<and> \<not> unchanged \<and> \<not> is_latest then fr
      else
        let rules1 = (if adopted_changes h then adopted_rules changes h (fr_rules fr) else fr_rules fr);
            rules2 = (if is_latest then latest_rules changes h rules1 else rules1)
        in (case publication_attempt_review h is_latest of
             Some r \<Rightarrow> \<lparr>fr_rules = assessed_rules_of is_latest r rules2, fr_review = Some (rv_summary r)\<rparr>
           | None \<Rightarrow> \<lparr>fr_rules = rules2,
                      fr_review = (if is_latest \<and> \<not> adopted_changes h \<and> \<not> unchanged then None else fr_review fr)\<rparr>))"

definition task_report :: "(attempt \<Rightarrow> report_row list) \<Rightarrow> task \<Rightarrow> file_report" where
  "task_report changes t =
     (let hs = repair_history t in
      foldl (report_attempt changes (publication_latest_attempt hs)) \<lparr>fr_rules = [], fr_review = None\<rparr>
        (List.enumerate 0 hs))"

definition publication_report_context :: "(attempt \<Rightarrow> report_row list) \<Rightarrow> task list \<Rightarrow> publication_report" where
  "publication_report_context changes ts =
     \<lparr>pr_tasks = ts, pr_files = map (\<lambda>t. (tk_file t, task_report changes t)) ts\<rparr>"

definition report_of :: "publication_report \<Rightarrow> string \<Rightarrow> file_report" where
  "report_of rep f = (case map_of (rev (pr_files rep)) f of None \<Rightarrow> \<lparr>fr_rules = [], fr_review = None\<rparr> | Some r \<Rightarrow> r)"

subsection \<open>The files a report lists\<close>

definition processed_status :: "status \<Rightarrow> bool" where
  "processed_status st \<longleftrightarrow> st \<in> {Done, Skipped, Needs_human, Failed, Interrupted}"

definition fallback_summary :: "status \<Rightarrow> string" where
  "fallback_summary st =
     (if st = Skipped then ''no fix needed''
      else if st \<in> {Needs_human, Failed, Interrupted} then ''needs a check''
      else ''fix completed'')"

fun first_of_each :: "publication_file list \<Rightarrow> publication_file list \<Rightarrow> publication_file list" where
  "first_of_each acc [] = acc"
| "first_of_each acc (f # fs) =
     first_of_each (if fi_file f \<in> set (map fi_file acc) then acc else acc @ [f]) fs"

definition set_summary :: "string \<Rightarrow> string \<Rightarrow> publication_file list \<Rightarrow> publication_file list" where
  "set_summary f s = map (\<lambda>x. if fi_file x = f then x\<lparr>fi_summary := s\<rparr> else x)"

definition latest_attempt :: "task \<Rightarrow> attempt option" where
  "latest_attempt t = map_option (\<lambda>i. repair_history t ! i) (publication_latest_attempt (repair_history t))"

definition report_status :: "task \<Rightarrow> status" where
  "report_status t = (case latest_attempt t of None \<Rightarrow> tk_status t | Some h \<Rightarrow> at_outcome h)"

definition add_report_file ::
  "(attempt \<Rightarrow> report_row list) \<Rightarrow> session \<Rightarrow> publication_file list \<Rightarrow> task \<Rightarrow> publication_file list" where
  "add_report_file changes se fs t =
     (let known = tk_file t \<in> set (map fi_file fs); st = report_status t in
      if \<not> known \<and> (\<not> processed_status st \<or> tk_excluded t \<and> repair_history t = []) then fs
      else
        let fs1 = (if known then fs
                   else fs @ [(publication_file_summary changes t)\<lparr>fi_link := target_path se (tk_file t)\<rparr>]);
            note = (case latest_attempt t of None \<Rightarrow> [] | Some h \<Rightarrow> at_note h)
        in if \<not> blank note then set_summary (tk_file t) note fs1
           else if \<not> known then set_summary (tk_file t) (first_report_text [tk_note t, fallback_summary st]) fs1
           else fs1)"

definition publication_report_files ::
  "(attempt \<Rightarrow> report_row list) \<Rightarrow> session \<Rightarrow> publication_file list \<Rightarrow> publication_report \<Rightarrow> publication_file list" where
  "publication_report_files changes se files rep =
     sort_key fi_file (foldl (add_report_file changes se)
       (map (\<lambda>f. f\<lparr>fi_link := target_path se (fi_file f)\<rparr>) (first_of_each [] files)) (pr_tasks rep))"

definition publication_file_held :: "task option \<Rightarrow> rule_reports \<Rightarrow> bool" where
  "publication_file_held t rules \<longleftrightarrow>
     list_ex (\<lambda>re. rr_holds (snd re) \<noteq> []) rules
     \<or> (case t of None \<Rightarrow> False
        | Some t \<Rightarrow>
            let st = (case latest_attempt t of None \<Rightarrow> Unset | Some h \<Rightarrow> at_outcome h) in
            if st \<in> {Needs_human, Failed, Interrupted} then True
            else if st \<in> {Done, Skipped} then False
            else tk_status t \<in> {Needs_human, Failed, Interrupted})"

subsection \<open>Cells and links\<close>

definition replace_chars :: "(char \<Rightarrow> string option) \<Rightarrow> string \<Rightarrow> string" where
  "replace_chars f s = concat (map (\<lambda>c. case f c of None \<Rightarrow> [c] | Some t \<Rightarrow> t) s)"

definition cell_char :: "char \<Rightarrow> string option" where
  "cell_char c =
     (if c = CHR ''&'' then Some ''&amp;'' else if c = CHR ''<'' then Some ''&lt;''
      else if c = CHR ''>'' then Some ''&gt;'' else if c = CHR 0x60 then Some ''&#96;''
      else if c = CHR 0x5C then Some [CHR 0x5C, CHR 0x5C] else if c = CHR ''|'' then Some ''&#124;'' else None)"

definition publication_table_cell :: "string \<Rightarrow> string" where
  "publication_table_cell s =
     replace_chars (\<lambda>c. if c = LF then Some ''<br>'' else None)
       (replace_chars cell_char (map (\<lambda>c. if c = CR then LF else c) (crlf_to_lf s)))"

definition link_char :: "char \<Rightarrow> string option" where
  "link_char c =
     (if c = CHR 0x5C then Some [CHR 0x5C, CHR 0x5C] else if c = CHR ''['' then Some [CHR 0x5C, CHR ''['']
      else if c = CHR '']'' then Some [CHR 0x5C, CHR '']''] else None)"

definition table_link_char :: "char \<Rightarrow> string option" where
  "table_link_char c =
     (if c = CHR ''&'' then Some ''&amp;'' else if c = CHR ''<'' then Some ''&lt;''
      else if c = CHR ''>'' then Some ''&gt;'' else if c = CHR 0x60 then Some ''&#96;''
      else if c = CHR ''|'' then Some ''&#124;'' else if c = CR then Some ''&#13;''
      else if c = LF then Some ''&#10;'' else None)"

text \<open>\<open>URL.EscapedPath\<close> of the standard library for a URL that only has a path.\<close>

definition path_char :: "char \<Rightarrow> bool" where
  "path_char c \<longleftrightarrow> byte_in c 0x61 0x7A \<or> byte_in c 0x41 0x5A \<or> byte_in c 0x30 0x39 \<or> c \<in> set ''-_.~$&+,/:;=@''"

definition hex_digit :: "nat \<Rightarrow> char" where
  "hex_digit n = char_of (if n < 10 then 48 + n else 55 + n)"

definition escaped_path :: "string \<Rightarrow> string" where
  "escaped_path s =
     (if s = ''*'' then ''*''
      else replace_chars (\<lambda>c. if path_char c then None
        else Some [CHR ''%'', hex_digit (of_char c div 16), hex_digit (of_char c mod 16)]) s)"

definition publication_file_link :: "string \<Rightarrow> string \<Rightarrow> bool \<Rightarrow> string" where
  "publication_file_link label target table =
     (let l = replace_chars link_char label;
          l' = (if table then replace_chars table_link_char l else l)
      in ''['' @ l' @ ''](<'' @ escaped_path target @ ''>)'')"

subsection \<open>Statuses and the message\<close>

definition publication_rule_status :: "rule_report \<Rightarrow> string" where
  "publication_rule_status e =
     (if rr_holds e \<noteq> [] then (if rr_fixed e then ''partly fixed, needs a check'' else ''needs a check'')
      else if rr_fixed e then ''done''
      else if rr_unchanged e \<noteq> [] then ''no fix needed''
      else ''no record'')"

definition publication_file_status :: "bool \<Rightarrow> bool \<Rightarrow> nat \<times> string" where
  "publication_file_status changed held =
     (if held then (1, if changed then ''partly fixed, needs a check'' else ''needs a check'')
      else if changed then (0, ''done'') else (2, ''no fix needed''))"

definition rule_rank :: "rule_report \<Rightarrow> nat" where
  "rule_rank e =
     (if rr_holds e \<noteq> [] \<or> \<not> rr_fixed e \<and> rr_unchanged e = [] then 1 else if rr_fixed e then 0 else 2)"

definition rule_changes :: "rule_report \<Rightarrow> string list" where
  "rule_changes e =
     (let c1 = rr_changes e @ (if rr_fixed e \<and> rr_changes e = [] then [''no record of the fix''] else []);
          c2 = c1 @ map (\<lambda>h. ''on hold: '' @ h) (rr_holds e);
          c3 = c2 @ (if \<not> rr_fixed e \<and> rr_holds e = [] then rr_unchanged e else [])
      in if c3 = [] then [''no record of what was done''] else c3)"

definition rule_line :: "rule_id \<times> rule_report \<Rightarrow> string" where
  "rule_line re =
     ''| '' @ publication_table_cell (if fst re = [] then ''-'' else fst re)
     @ '' | '' @ publication_rule_status (snd re)
     @ '' | '' @ publication_table_cell (join_with LF (rule_changes (snd re)))
     @ '' | '' @ publication_table_cell (case rr_assessment (snd re) of None \<Rightarrow> ''no review recorded'' | Some a \<Rightarrow> ra_reason a)
     @ '' |'' @ [LF]"

definition rule_rows :: "bool \<Rightarrow> publication_file \<Rightarrow> rule_reports \<Rightarrow> rule_reports" where
  "rule_rows changed f rules =
     (let credited = filter (\<lambda>r. map_of rules r = None) (remdups (fi_rules f));
          rows = rules @ map (\<lambda>r. (r, no_rule_report\<lparr>rr_fixed := changed\<rparr>)) credited
      in sort_key (\<lambda>re. rule_rank (snd re)) (sort_key fst rows))"

definition file_section :: "bool \<Rightarrow> string \<Rightarrow> publication_file \<Rightarrow> file_report \<Rightarrow> string" where
  "file_section changed label f fr =
     (let rows = rule_rows changed f (fr_rules fr) in
      [LF] @ ''---'' @ [LF, LF] @ ''## File '' @ label @ [LF, LF] @ publication_file_link (fi_link f) (fi_link f) False
      @ [LF, LF] @ ''### Summary'' @ [LF, LF] @ first_report_text [fi_summary f, ''no summary recorded'']
      @ [LF, LF] @ ''### Review'' @ [LF, LF]
      @ first_report_text [(case fr_review fr of None \<Rightarrow> [] | Some s \<Rightarrow> s), ''no review recorded'']
      @ [LF, LF] @ ''### Rules'' @ [LF, LF] @ ''| Rule | Status | Change | Review |'' @ [LF]
      @ ''| --- | --- | --- | --- |'' @ [LF]
      @ (if rows = [] then ''| - | '' @ label @ '' | no record by rule | no review recorded |'' @ [LF]
         else concat (map rule_line rows)))"

definition task_of :: "publication_report \<Rightarrow> string \<Rightarrow> task option" where
  "task_of rep f = find (\<lambda>t. tk_file t = f) (rev (pr_tasks rep))"

definition file_label :: "publication_file list \<Rightarrow> publication_report \<Rightarrow> publication_file \<Rightarrow> nat \<times> string" where
  "file_label files rep f =
     publication_file_status (fi_file f \<in> set (map fi_file files))
       (publication_file_held (task_of rep (fi_file f)) (fr_rules (report_of rep (fi_file f))))"

definition publication_commit_message ::
  "(attempt \<Rightarrow> report_row list) \<Rightarrow> session \<Rightarrow> publication_file list \<Rightarrow> publication_report \<Rightarrow> string" where
  "publication_commit_message changes se files rep =
     (let fs = publication_report_files changes se files rep;
          changed = remdups (map fi_file files);
          held = (\<lambda>f. fst (file_label files rep f) = 1);
          partial = length (filter (\<lambda>f. held f \<and> fi_file f \<in> set changed) fs);
          listed = sort_key (\<lambda>f. fst (file_label files rep f)) (sort_key fi_file fs)
      in if fs = [] then []
         else trim_space (
           ''# Overall'' @ [LF, LF]
           @ ''Files: '' @ decimal (length fs) @ ''  '' @ [LF]
           @ ''Done: '' @ decimal (length changed - partial) @ ''  '' @ [LF]
           @ ''Needs a check: '' @ decimal (length (filter held fs))
           @ (if partial > 0 then '' (partly fixed: '' @ decimal partial @ '')'' else []) @ ''  '' @ [LF]
           @ ''No fix needed: '' @ decimal (length (filter (\<lambda>f. \<not> held f \<and> fi_file f \<notin> set changed) fs)) @ [LF, LF]
           @ ''# Files'' @ [LF, LF] @ ''| File | Status |'' @ [LF] @ ''| --- | --- |'' @ [LF]
           @ concat (map (\<lambda>f. ''| '' @ publication_file_link (fi_link f) (fi_link f) True @ '' | ''
                 @ snd (file_label files rep f) @ '' |'' @ [LF]) listed)
           @ [LF] @ ''# Changes'' @ [LF]
           @ concat (map (\<lambda>f. file_section (fi_file f \<in> set changed) (snd (file_label files rep f)) f
                 (report_of rep (fi_file f))) listed)))"

section \<open>What the text claims\<close>

lemma set_replace_chars: "c \<in> set (replace_chars f s) \<longleftrightarrow> (\<exists>d\<in>set s. f d = None \<and> c = d \<or> (\<exists>t. f d = Some t \<and> c \<in> set t))"
proof -
  have "c \<in> set (case f d of None \<Rightarrow> [d] | Some t \<Rightarrow> t) \<longleftrightarrow> f d = None \<and> c = d \<or> (\<exists>t. f d = Some t \<and> c \<in> set t)" for d
    by (cases "f d") auto
  then show ?thesis by (simp add: replace_chars_def)
qed

text \<open>A cell cannot end its row or open another column, and a link cannot leave its brackets.\<close>

lemma cell_chars:
  "CHR ''|'' \<notin> set (replace_chars cell_char s)"
  "CR \<notin> set s \<Longrightarrow> CR \<notin> set (replace_chars cell_char s)"
  by (auto simp: set_replace_chars cell_char_def CR_def split: if_splits)

lemma table_cell_closed:
  "CHR ''|'' \<notin> set (publication_table_cell s)" "LF \<notin> set (publication_table_cell s)" "CR \<notin> set (publication_table_cell s)"
proof -
  let ?t = "map (\<lambda>c. if c = CR then LF else c) (crlf_to_lf s)"
  have br: "c \<in> set (publication_table_cell s) \<longleftrightarrow>
      c \<noteq> LF \<and> c \<in> set (replace_chars cell_char ?t) \<or> LF \<in> set (replace_chars cell_char ?t) \<and> c \<in> set ''<br>''" for c
    unfolding publication_table_cell_def set_replace_chars [of _ "\<lambda>c. if c = LF then Some ''<br>'' else None"]
    by (auto split: if_splits)
  have "LF \<noteq> CR" by (simp add: LF_def CR_def)
  then have "CR \<notin> set ?t" by auto
  then show "CR \<notin> set (publication_table_cell s)" using cell_chars(2) unfolding br by (simp add: CR_def)
  show "CHR ''|'' \<notin> set (publication_table_cell s)" using cell_chars(1) unfolding br by simp
  show "LF \<notin> set (publication_table_cell s)" unfolding br by (simp add: LF_def)
qed

lemma hex_digit_range: "n < 16 \<Longrightarrow> byte_in (hex_digit n) 0x30 0x39 \<or> byte_in (hex_digit n) 0x41 0x46"
  by (auto simp: hex_digit_def byte_in_def)

lemma escaped_path_chars:
  assumes "c \<in> set (escaped_path s)"
  shows "path_char c \<or> c = CHR ''%'' \<or> c = CHR ''*''"
proof -
  have "(of_char d :: nat) div 16 < 16" "(of_char d :: nat) mod 16 < 16" for d :: char
    using nat_of_char_less_256 [of d] by (auto intro: less_mult_imp_div_less)
  then have hex: "path_char (hex_digit (of_char d div 16))" "path_char (hex_digit (of_char d mod 16))" for d
    using hex_digit_range by (fastforce simp: path_char_def byte_in_def)+
  show ?thesis using assms hex by (auto simp: escaped_path_def set_replace_chars split: if_splits)
qed

lemma link_target_closed: "CHR ''>'' \<notin> set (escaped_path s)" "LF \<notin> set (escaped_path s)"
  using escaped_path_chars [of "CHR ''>''" s] escaped_path_chars [of LF s] by (auto simp: LF_def path_char_def byte_in_def)

lemma done_rule: "publication_rule_status e = ''done'' \<longleftrightarrow> rr_fixed e \<and> rr_holds e = []"
  by (simp add: publication_rule_status_def)

text \<open>
  A review quoted for an attempt whose result was accepted judged exactly the bytes of the attempt
  and passed them; a rejection is only quoted for the latest attempt.
\<close>

lemma quoted_review:
  assumes "publication_attempt_review h latest = Some r"
  shows "r \<in> set (at_reviews h)" "rv_base_hash r = at_input_hash h"
    and "adopted_changes h \<Longrightarrow> rv_candidate_hash r = at_output_hash h \<and> rv_verdict r \<in> {V_passed, V_passed_with_holds}"
    and "rv_verdict r \<in> {V_needs_human, V_needs_changes} \<Longrightarrow> latest"
proof -
  have r: "r \<in> set (at_reviews h)" "review_of_attempt h latest r"
    using assms by (auto simp: publication_attempt_review_def find_Some_iff) (metis length_rev nth_mem set_rev)
  show "r \<in> set (at_reviews h)" using r(1) .
  show "rv_base_hash r = at_input_hash h" using r(2) by (simp add: review_of_attempt_def)
  show "rv_candidate_hash r = at_output_hash h \<and> rv_verdict r \<in> {V_passed, V_passed_with_holds}" if "adopted_changes h"
    using r(2) that by (auto simp: review_of_attempt_def)
  show latest if "rv_verdict r \<in> {V_needs_human, V_needs_changes}"
    using r(2) that by (auto simp: review_of_attempt_def split: if_splits)
qed

subsection \<open>Fixes come from adopted attempts\<close>

lemma rule_entry_update: "rule_entry (update_rule r f rules) q = (if q = r then f (rule_entry rules r) else rule_entry rules q)"
  by (simp add: update_rule_def rule_entry_def update_conv')

definition credited :: "(attempt \<Rightarrow> report_row list) \<Rightarrow> attempt \<Rightarrow> rule_id \<Rightarrow> bool" where
  "credited changes h r \<longleftrightarrow> adopted_changes h
     \<and> (if changes h = [] then r \<in> set (at_rules_applied h) else (\<exists>c\<in>set (changes h). ro_status c = R_fixed \<and> ro_rule_id c = r))"

lemma fold_fixed:
  "rr_fixed (rule_entry (foldl (\<lambda>rs x. update_rule (k x) (f x) rs) rules xs) q)
     \<longrightarrow> rr_fixed (rule_entry rules q) \<or> q \<in> k ` set xs"
  by (induction xs arbitrary: rules) (fastforce simp: rule_entry_update split: if_splits)+

lemma adopted_rules_fixed:
  assumes "rr_fixed (rule_entry (adopted_rules changes h rules) q)" "adopted_changes h"
  shows "rr_fixed (rule_entry rules q) \<or> credited changes h q"
proof (cases "changes h = []")
  case True
  have "adopted_rules changes h rules =
      foldl (\<lambda>rs r. update_rule r (\<lambda>e. e\<lparr>rr_fixed := True\<rparr>) rs) rules (filter (\<lambda>r. r \<noteq> []) (at_rules_applied h))"
    by (simp add: adopted_rules_def fixed_changes_def True)
  then show ?thesis
    using assms fold_fixed [of "\<lambda>r. r" "\<lambda>_ e. e\<lparr>rr_fixed := True\<rparr>" rules "filter (\<lambda>r. r \<noteq> []) (at_rules_applied h)" q] True
    by (auto simp: credited_def)
next
  case False
  have "adopted_rules changes h rules = foldl (\<lambda>rs c. update_rule (ro_rule_id c)
            (\<lambda>e. e\<lparr>rr_changes := append_unique (rr_changes e) (ro_change c), rr_fixed := True\<rparr>) rs)
           rules (fixed_changes changes h)"
    by (simp add: adopted_rules_def False)
  then show ?thesis
    using assms fold_fixed [of ro_rule_id "\<lambda>c e. e\<lparr>rr_changes := append_unique (rr_changes e) (ro_change c), rr_fixed := True\<rparr>"
        rules "fixed_changes changes h" q] False
    by (auto simp: credited_def fixed_changes_def)
qed

lemma latest_rules_fixed: "rr_fixed (rule_entry (latest_rules changes h rules) q) = rr_fixed (rule_entry rules q)"
proof -
  have "rr_fixed (rule_entry (foldl (\<lambda>rs c. case ro_status c of
          R_needs_human \<Rightarrow> update_rule (ro_rule_id c)
            (\<lambda>e. e\<lparr>rr_holds := append_unique (rr_holds e) (hold_text h c), rr_assessment := None\<rparr>) rs
        | R_unchanged \<Rightarrow> update_rule (ro_rule_id c)
            (\<lambda>e. e\<lparr>rr_unchanged := append_unique (rr_unchanged e) (first_report_text [ro_reason c, ''no fix needed''])\<rparr>) rs
        | _ \<Rightarrow> rs) rules cs) q) = rr_fixed (rule_entry rules q)" for cs
    by (induction cs arbitrary: rules) (auto simp: rule_entry_update split: row_status.splits)
  then show ?thesis by (simp add: latest_rules_def)
qed

lemma assessed_rules_fixed: "rr_fixed (rule_entry (assessed_rules_of l r rules) q) = rr_fixed (rule_entry rules q)"
proof -
  have "rr_fixed (rule_entry (foldl (\<lambda>rs a. if \<not> l \<and> \<not> rr_fixed (rule_entry rs (ra_rule_id a)) then rs
                   else update_rule (ra_rule_id a) (assessed_entry l a) rs) rules as) q) = rr_fixed (rule_entry rules q)" for as
    by (induction as arbitrary: rules) (auto simp: rule_entry_update assessed_entry_def Let_def)
  then show ?thesis by (simp add: assessed_rules_of_def)
qed

lemma report_attempt_fixed:
  assumes "rr_fixed (rule_entry (fr_rules (report_attempt changes latest fr ih)) q)"
  shows "rr_fixed (rule_entry (fr_rules fr) q) \<or> credited changes (snd ih) q"
  using assms adopted_rules_fixed
  by (auto simp: report_attempt_def Let_def assessed_rules_fixed latest_rules_fixed split: if_splits option.splits)

text \<open>A rule is called fixed in a file only if an adopted attempt still in force is credited with it.\<close>

lemma fixed_rule_adopted:
  assumes "rr_fixed (rule_entry (fr_rules (task_report changes t)) q)"
  shows "\<exists>h\<in>set (repair_history t). credited changes h q"
proof -
  have "rr_fixed (rule_entry (fr_rules (foldl (report_attempt changes latest) fr ihs)) q)
     \<longrightarrow> rr_fixed (rule_entry (fr_rules fr) q) \<or> (\<exists>ih\<in>set ihs. credited changes (snd ih) q)" for latest fr ihs
    by (induction ihs arbitrary: fr) (auto dest: report_attempt_fixed)
  moreover have "snd ih \<in> set (repair_history t)" if "ih \<in> set (List.enumerate 0 (repair_history t))" for ih
    using that nth_mem [of "fst ih" "repair_history t"] by (auto simp: in_set_enumerate_eq)
  ultimately show ?thesis
    using assms by (fastforce simp: task_report_def Let_def rule_entry_def no_rule_report_def)
qed

subsection \<open>Every changed file is listed once\<close>

lemma first_of_each_files:
  "distinct (map fi_file acc) \<Longrightarrow> distinct (map fi_file (first_of_each acc fs))
     \<and> fi_file ` set (first_of_each acc fs) = fi_file ` set acc \<union> fi_file ` set fs"
proof (induction fs arbitrary: acc)
  case (Cons f fs)
  show ?case
  proof (cases "fi_file f \<in> set (map fi_file acc)")
    case True
    then show ?thesis using Cons.IH [OF Cons.prems] by auto
  next
    case False
    then have "distinct (map fi_file (acc @ [f]))" using Cons.prems by simp
    from Cons.IH [OF this] show ?thesis using False by auto
  qed
qed simp

lemma set_summary_files [simp]: "map fi_file (set_summary f s fs) = map fi_file fs"
  by (simp add: set_summary_def comp_def if_distrib cong: if_cong)

lemma add_report_file_files:
  "map fi_file (add_report_file changes se fs t) = map fi_file fs
   \<or> tk_file t \<notin> set (map fi_file fs) \<and> map fi_file (add_report_file changes se fs t) = map fi_file fs @ [tk_file t]"
  by (simp add: add_report_file_def Let_def publication_file_summary_def)

lemma report_files_listed:
  "distinct (map fi_file (publication_report_files changes se files rep))
   \<and> set (map fi_file files) \<subseteq> set (map fi_file (publication_report_files changes se files rep))"
proof -
  let ?start = "map (\<lambda>f. f\<lparr>fi_link := target_path se (fi_file f)\<rparr>) (first_of_each [] files)"
  have start: "map fi_file ?start = map fi_file (first_of_each [] files)" by simp
  have keep: "distinct (map fi_file (foldl (add_report_file changes se) fs ts))
      \<and> set (map fi_file fs) \<subseteq> set (map fi_file (foldl (add_report_file changes se) fs ts))"
    if "distinct (map fi_file fs)" for fs ts
    using that
  proof (induction ts arbitrary: fs)
    case (Cons t ts)
    let ?fs' = "add_report_file changes se fs t"
    have step: "distinct (map fi_file ?fs') \<and> set (map fi_file fs) \<subseteq> set (map fi_file ?fs')"
      using add_report_file_files [of changes se fs t]
    proof (elim disjE conjE)
      assume "map fi_file ?fs' = map fi_file fs"
      then show ?thesis using Cons.prems by simp
    next
      assume "tk_file t \<notin> set (map fi_file fs)" "map fi_file ?fs' = map fi_file fs @ [tk_file t]"
      then show ?thesis using Cons.prems by (simp only: set_append distinct_append) auto
    qed
    show ?case using Cons.IH [OF conjunct1 [OF step]] step by (simp only: foldl_Cons) blast
  qed simp
  have d: "distinct (map fi_file ?start)" "set (map fi_file ?start) = set (map fi_file files)"
    using first_of_each_files [of "[]" files] unfolding start by simp_all
  let ?all = "foldl (add_report_file changes se) ?start (pr_tasks rep)"
  have sorted: "publication_report_files changes se files rep = sort_key fi_file ?all"
    by (simp add: publication_report_files_def)
  have all: "distinct (map fi_file ?all)" "set (map fi_file files) \<subseteq> set (map fi_file ?all)"
    using keep [OF d(1), of "pr_tasks rep"] unfolding d(2) by (rule conjunct1, rule conjunct2)
  have "distinct (map fi_file (sort_key fi_file ?all))"
    using all(1) unfolding distinct_map by (simp only: distinct_sort set_sort simp_thms)
  moreover have "set (map fi_file (sort_key fi_file ?all)) = set (map fi_file ?all)"
    by (simp only: set_map set_sort)
  ultimately show ?thesis using all(2) unfolding sorted by (simp only: simp_thms)
qed

end
