(* ===== verification/Publication.thy ===== *)
theory Publication
  imports PublicationReport Discards
begin

section \<open>Publishing a result (engine/result_publication.go, result_publication_report_file.go)\<close>

text \<open>
  The adopted changes of a session are published as one commit on a new branch. The commit is made
  from immutable objects, an intent is written to a journal, one ref transaction creates the branch
  if the session's own branch still stands where the person saw it, and the intent is marked done.
  Loading the journal settles an intent that was cut off. Commits, trees and blobs are immutable:
  the record \<open>objects\<close> gives their contents as functions, one field per git command, already split
  and trimmed the way the callers do it; what changes is the map from branches to commits.
\<close>

record objects =
  ob_tree :: "string \<Rightarrow> string option"
  ob_entries :: "string \<Rightarrow> string list option"
  ob_kind :: "string \<Rightarrow> string option"
  ob_store :: "string \<Rightarrow> string option"
  ob_make_tree :: "string \<Rightarrow> string option"
  ob_commit :: "string \<Rightarrow> string \<Rightarrow> string \<Rightarrow> string option"
  ob_content :: "string \<Rightarrow> string option"
  ob_changed :: "string \<Rightarrow> string \<Rightarrow> string list option"
  ob_branch_name :: "string \<Rightarrow> bool"

record refs =
  rf_heads :: "string \<Rightarrow> string option"
  rf_readable :: bool

record publication =
  pb_branch :: string
  pb_commit :: string
  pb_base :: string
  pb_source :: string
  pb_file_count :: nat
  pb_title :: string
  pb_message :: string
  pb_report_path :: string
  pb_report_blob :: string

datatype publication_state = P_prepared | P_done | P_other string

record publication_record =
  pj_state :: publication_state
  pj_publication :: publication

text \<open>The journal file: missing, something else than a readable file, or its version and records.\<close>

datatype journal_file = No_journal | Bad_journal | Journal int "publication_record list"

datatype publication_error =
    Not_belonging discard_error | Uncommitted | Unfinished_discard | Git_refused | Unlisted_change string
  | Journal_unreadable | Bad_report_record | Bad_publication_record | Bad_state
  | Branch_moved string | Commit_differs string | Report_conflict string | Report_exists string
  | Bad_tree | No_report_object | Bad_title | Bad_text | Wrong_preview | No_branch_name | Bad_branch_name
  | Nothing_to_publish | Branch_exists string | Worktree_moved | Journal_not_saved | Branch_not_created
  | Interrupted_publication string

subsection \<open>The report as a file of the commit\<close>

record tree_entry =
  te_mode :: string
  te_kind :: string
  te_hash :: string
  te_name :: string

definition digit :: "char \<Rightarrow> bool" where
  "digit c \<longleftrightarrow> byte_in c 0x30 0x39"

text \<open>\<open>publicationReportPathPattern\<close>.\<close>

definition report_path_ok :: "string \<Rightarrow> bool" where
  "report_path_ok p \<longleftrightarrow> (let s = drop 9 p; d = take 14 s in
     take 9 p = ''OneByOne/'' \<and> length d = 14 \<and> list_all digit d \<and> drop 14 s = ''_results.md'')"

definition parse_tree_entry :: "string \<Rightarrow> tree_entry option" where
  "parse_tree_entry e =
     (case split_tab e of
        None \<Rightarrow> None
      | Some (meta, name) \<Rightarrow>
          (case fields_from [] meta of
             [mode, kind, hash] \<Rightarrow>
               if name = [] \<or> CHR ''/'' \<in> set name \<or> \<not> immutable_commit_id hash then None
               else Some \<lparr>te_mode = mode, te_kind = kind, te_hash = hash, te_name = name\<rparr>
           | _ \<Rightarrow> None))"

fun parse_tree :: "string list \<Rightarrow> tree_entry list option" where
  "parse_tree [] = Some []"
| "parse_tree (e # es) =
     (case parse_tree_entry e of None \<Rightarrow> None | Some x \<Rightarrow> map_option ((#) x) (parse_tree es))"

definition read_publication_tree :: "objects \<Rightarrow> string \<Rightarrow> (publication_error, tree_entry list) outcome" where
  "read_publication_tree ob tree =
     (case ob_entries ob tree of
        None \<Rightarrow> Inl Git_refused
      | Some es \<Rightarrow> (case parse_tree es of None \<Rightarrow> Inl Bad_tree | Some xs \<Rightarrow> Inr xs))"

text \<open>
  \<open>strings.EqualFold\<close> and \<open>strings.ToLower\<close> against an ASCII name. Of the runes outside ASCII only
  U+017F folds to a letter of these names (an s), and none is lowered to one.
\<close>

fun fold_ascii :: "string \<Rightarrow> string" where
  "fold_ascii (a # b # s) =
     (if a = CHR 0xC5 \<and> b = CHR 0xBF then CHR ''s'' # fold_ascii s else a # fold_ascii (b # s))"
| "fold_ascii s = s"

definition equal_fold :: "string \<Rightarrow> string \<Rightarrow> bool" where
  "equal_fold name ascii \<longleftrightarrow> lower_ascii (fold_ascii name) = lower_ascii ascii"

fun report_directory :: "string \<Rightarrow> tree_entry list \<Rightarrow> (publication_error, string) outcome" where
  "report_directory dir [] = Inr dir"
| "report_directory dir (e # es) =
     (if \<not> equal_fold (te_name e) ''OneByOne'' then report_directory dir es
      else if te_name e \<noteq> ''OneByOne'' \<or> te_kind e \<noteq> ''tree'' \<or> te_mode e \<noteq> ''040000'' then Inl (Report_conflict (te_name e))
      else report_directory (te_hash e) es)"

definition publication_report_directory :: "objects \<Rightarrow> tree_entry list \<Rightarrow> (publication_error, tree_entry list) outcome" where
  "publication_report_directory ob root_es =
     (case report_directory [] root_es of
        Inl e \<Rightarrow> Inl e
      | Inr dir \<Rightarrow> if dir \<noteq> [] then read_publication_tree ob dir else Inr [])"

definition tree_line :: "tree_entry \<Rightarrow> string" where
  "tree_line e = te_mode e @ '' '' @ te_kind e @ '' '' @ te_hash e @ [CHR 0x09] @ te_name e @ [NUL]"

definition write_publication_tree :: "objects \<Rightarrow> tree_entry list \<Rightarrow> (publication_error, string) outcome" where
  "write_publication_tree ob es =
     (case ob_make_tree ob (concat (map tree_line es)) of None \<Rightarrow> Inl Git_refused | Some t \<Rightarrow> Inr t)"

definition source_tree :: "string \<Rightarrow> string" where
  "source_tree commit = commit @ ''^{tree}''"

definition publication_tree_with_report ::
  "objects \<Rightarrow> string \<Rightarrow> string \<Rightarrow> string \<Rightarrow> (publication_error, string) outcome" where
  "publication_tree_with_report ob commit path blob =
     (if \<not> report_path_ok path \<or> \<not> immutable_commit_id blob then Inl Bad_report_record
      else if ob_kind ob blob \<noteq> Some ''blob'' then Inl No_report_object
      else (case read_publication_tree ob (source_tree commit) of
        Inl e \<Rightarrow> Inl e
      | Inr root_es \<Rightarrow>
      (case publication_report_directory ob root_es of
        Inl e \<Rightarrow> Inl e
      | Inr entries \<Rightarrow>
          let name = drop 9 path in
          if list_ex (\<lambda>e. equal_fold (te_name e) name) entries then Inl (Report_exists path)
          else (case write_publication_tree ob
                  (entries @ [\<lparr>te_mode = ''100644'', te_kind = ''blob'', te_hash = blob, te_name = name\<rparr>]) of
            Inl e \<Rightarrow> Inl e
          | Inr subtree \<Rightarrow>
              write_publication_tree ob
                (if list_ex (\<lambda>e. te_name e = ''OneByOne'') root_es
                 then map (\<lambda>e. if te_name e = ''OneByOne'' then e\<lparr>te_hash := subtree\<rparr> else e) root_es
                 else root_es @ [\<lparr>te_mode = ''040000'', te_kind = ''tree'', te_hash = subtree, te_name = ''OneByOne''\<rparr>])))))"

text \<open>
  The name of the report: the time of the request, moved on by a second while the name is taken.
  \<open>stamps n\<close> is the formatted time \<open>n\<close> seconds later; one more attempt than there are files is
  enough when the stamps differ.
\<close>

definition report_name :: "(nat \<Rightarrow> string) \<Rightarrow> tree_entry list \<Rightarrow> string option" where
  "report_name stamps entries =
     map_option (\<lambda>n. stamps n @ ''_results.md'')
       (find (\<lambda>n. lower_ascii (stamps n @ ''_results.md'') \<notin> set (map (\<lambda>e. lower_ascii (te_name e)) entries))
          [0..<Suc (length entries)])"

subsection \<open>Links of the report\<close>

definition report_links :: "publication_file list \<Rightarrow> (string \<times> string) list" where
  "report_links files =
     concat (map (\<lambda>f. if fi_link f = [] then []
       else map (\<lambda>table. (publication_file_link (fi_link f) (fi_link f) table,
                          publication_file_link (fi_link f) (''../'' @ fi_link f) table)) [False, True]) files)"

definition report_link :: "publication_file list \<Rightarrow> string \<Rightarrow> string option" where
  "report_link files = map_of (rev (report_links files))"

text \<open>The line as a fence of Markdown: its character, its length, and what follows.\<close>

definition fence_of :: "string \<Rightarrow> (char \<times> nat \<times> string) option" where
  "fence_of content =
     (let trimmed = dropWhile (\<lambda>c. c = CHR '' '') content in
      if length content - length trimmed \<le> 3 \<and> length trimmed \<ge> 3 \<and> hd trimmed \<in> {CHR 0x60, CHR ''~''}
      then let run = takeWhile (\<lambda>c. c = hd trimmed) trimmed in
        if length run \<ge> 3 then Some (hd trimmed, length run, drop (length run) trimmed) else None
      else None)"

definition cut_cell :: "string \<Rightarrow> (string \<times> string) option" where
  "cut_cell s = (case str_index s '' | '' of None \<Rightarrow> None | Some i \<Rightarrow> Some (take i s, drop (i + 3) s))"

definition relink :: "(string \<Rightarrow> string option) \<Rightarrow> string \<Rightarrow> string \<Rightarrow> string" where
  "relink link line content =
     (let rest = drop (length content) line in
      case link content of
        Some r \<Rightarrow> r @ rest
      | None \<Rightarrow>
          if take 2 content \<noteq> ''| '' then line
          else (case cut_cell (drop 2 content) of
            None \<Rightarrow> line
          | Some (cell, more_cells) \<Rightarrow>
              (case link cell of None \<Rightarrow> line | Some r \<Rightarrow> ''| '' @ r @ '' | '' @ more_cells @ rest)))"

fun relink_lines :: "(string \<Rightarrow> string option) \<Rightarrow> (char \<times> nat) option \<Rightarrow> string list \<Rightarrow> string list" where
  "relink_lines link fence [] = []"
| "relink_lines link fence (line # ls) =
     (let content = trim_suffix (trim_suffix line [LF]) [CR] in
      case fence_of content of
        Some (c, n, rest) \<Rightarrow>
          line # relink_lines link
            (case fence of
               None \<Rightarrow> Some (c, n)
             | Some (c', n') \<Rightarrow> if c' = c \<and> n \<ge> n' \<and> blank rest then None else fence) ls
      | None \<Rightarrow> (if fence = None then relink link line content else line) # relink_lines link fence ls)"

definition publication_report_content :: "string \<Rightarrow> publication_file list \<Rightarrow> string" where
  "publication_report_content message files =
     concat (relink_lines (report_link files) None (split_after LF message))"

definition create_publication_report ::
  "objects \<Rightarrow> string \<Rightarrow> string \<Rightarrow> publication_file list \<Rightarrow> (nat \<Rightarrow> string) \<Rightarrow> (publication_error, string \<times> string \<times> string) outcome" where
  "create_publication_report ob commit message files stamps =
     (case read_publication_tree ob (source_tree commit) of
        Inl e \<Rightarrow> Inl e
      | Inr root_es \<Rightarrow>
      (case publication_report_directory ob root_es of
        Inl e \<Rightarrow> Inl e
      | Inr entries \<Rightarrow>
      (case report_name stamps entries of
        None \<Rightarrow> Inl (Report_exists [])
      | Some name \<Rightarrow>
      (case ob_store ob (publication_report_content message files) of
        None \<Rightarrow> Inl Git_refused
      | Some blob \<Rightarrow>
          let path = ''OneByOne/'' @ name in
          (case publication_tree_with_report ob commit path blob of
             Inl e \<Rightarrow> Inl e
           | Inr tree \<Rightarrow> Inr (tree, path, blob))))))"

subsection \<open>The journal\<close>

definition branch_exists :: "refs \<Rightarrow> string \<Rightarrow> (publication_error, bool) outcome" where
  "branch_exists rf b = (if rf_readable rf then Inr (rf_heads rf b \<noteq> None) else Inl Git_refused)"

definition cut_header :: "string \<Rightarrow> (string \<times> string) option" where
  "cut_header s = (case str_index s [LF, LF] of None \<Rightarrow> None | Some i \<Rightarrow> Some (take i s, drop (i + 2) s))"

definition header_values :: "string \<Rightarrow> string \<Rightarrow> string list" where
  "header_values key header = map (drop (length key)) (filter (prefix key) (split_on LF header))"

definition has_report :: "publication \<Rightarrow> bool" where
  "has_report p \<longleftrightarrow> pb_report_path p \<noteq> [] \<or> pb_report_blob p \<noteq> []"

definition expected_message :: "publication \<Rightarrow> string" where
  "expected_message p = pb_title p @ (if blank (pb_message p) then [] else [LF, LF] @ trim_space (pb_message p))"

definition expected_tree :: "objects \<Rightarrow> publication \<Rightarrow> (publication_error, string) outcome" where
  "expected_tree ob p =
     (case ob_tree ob (pb_source p) of
        None \<Rightarrow> Inl Git_refused
      | Some t \<Rightarrow> if has_report p then publication_tree_with_report ob (pb_source p) (pb_report_path p) (pb_report_blob p)
                  else Inr t)"

definition validate_prepared_publication :: "objects \<Rightarrow> publication \<Rightarrow> publication_error option" where
  "validate_prepared_publication ob p =
     (case ob_content ob (pb_commit p) of
        None \<Rightarrow> Some Git_refused
      | Some content \<Rightarrow>
      (case expected_tree ob p of
        Inl e \<Rightarrow> Some e
      | Inr tree \<Rightarrow>
      (case cut_header content of
        None \<Rightarrow> Some (Commit_differs (pb_branch p))
      | Some (header, body) \<Rightarrow>
          if header_values ''parent '' header \<noteq> [pb_base p]
             \<or> last ([] # header_values ''tree '' header) \<noteq> tree
             \<or> trim_space body \<noteq> expected_message p
          then Some (Commit_differs (pb_branch p)) else None)))"

definition record_ok :: "string \<Rightarrow> publication \<Rightarrow> publication_error option" where
  "record_ok base p =
     (if has_report p \<and> (\<not> report_path_ok (pb_report_path p) \<or> \<not> immutable_commit_id (pb_report_blob p))
      then Some Bad_report_record
      else if \<not> immutable_commit_id (pb_commit p) \<or> \<not> immutable_commit_id (pb_base p)
         \<or> \<not> immutable_commit_id (pb_source p) \<or> pb_base p \<noteq> base \<or> pb_branch p = []
         \<or> (pb_file_count p = 0 \<and> \<not> has_report p)
      then Some Bad_publication_record else None)"

text \<open>One record: kept as it is, settled as done, or dropped because its branch was never created.\<close>

definition settle_record ::
  "objects \<Rightarrow> refs \<Rightarrow> string \<Rightarrow> publication_record \<Rightarrow> (publication_error, publication_record list \<times> bool) outcome" where
  "settle_record ob rf base r =
     (let p = pj_publication r in
      case record_ok base p of
        Some e \<Rightarrow> Inl e
      | None \<Rightarrow>
      (case pj_state r of
        P_done \<Rightarrow> Inr ([r], False)
      | P_prepared \<Rightarrow>
          (case branch_exists rf (pb_branch p) of
             Inl e \<Rightarrow> Inl e
           | Inr False \<Rightarrow> Inr ([], True)
           | Inr True \<Rightarrow>
               (case validate_prepared_publication ob p of
                  Some e \<Rightarrow> Inl e
                | None \<Rightarrow> if rf_heads rf (pb_branch p) \<noteq> Some (pb_commit p) then Inl (Branch_moved (pb_branch p))
                          else Inr ([r\<lparr>pj_state := P_done\<rparr>], True)))
      | P_other _ \<Rightarrow> Inl Bad_state))"

fun settle_records ::
  "objects \<Rightarrow> refs \<Rightarrow> string \<Rightarrow> publication_record list \<Rightarrow> (publication_error, publication_record list \<times> bool) outcome" where
  "settle_records ob rf base [] = Inr ([], False)"
| "settle_records ob rf base (r # rs) =
     (case settle_record ob rf base r of
        Inl e \<Rightarrow> Inl e
      | Inr (kept, changed) \<Rightarrow>
          (case settle_records ob rf base rs of
             Inl e \<Rightarrow> Inl e
           | Inr (rest, changed') \<Rightarrow> Inr (kept @ rest, changed \<or> changed')))"

definition load_result_publications ::
  "objects \<Rightarrow> refs \<Rightarrow> string \<Rightarrow> journal_file \<Rightarrow> (publication_error, publication_record list \<times> bool) outcome" where
  "load_result_publications ob rf base f =
     (case f of
        No_journal \<Rightarrow> Inr ([], False)
      | Bad_journal \<Rightarrow> Inl Journal_unreadable
      | Journal v rs \<Rightarrow> if v \<noteq> 1 then Inl Journal_unreadable else settle_records ob rf base rs)"

subsection \<open>The preview\<close>

datatype ref_answer = Ref_done | Ref_refused | Ref_cut_off

record 'w publication_env =
  pe_git :: "'w discard_git"
  pe_objects :: objects
  pe_session :: session
  pe_workspace :: string
  pe_branch :: string
  pe_worktree :: bool
  pe_tasks :: "task list"
  pe_changes :: "attempt \<Rightarrow> report_row list"
  pe_binding :: "string \<Rightarrow> string \<Rightarrow> string \<Rightarrow> publication_file list \<Rightarrow> string \<Rightarrow> string"
  pe_stamps :: "nat \<Rightarrow> string"
  pe_journal :: journal_file
  pe_editable :: bool
  pe_update_refs :: "refs \<Rightarrow> string \<times> string \<Rightarrow> string \<times> string \<Rightarrow> refs \<times> ref_answer"

record preview =
  pv_base :: string
  pv_source :: string
  pv_files :: "publication_file list"
  pv_report_files :: "publication_file list"
  pv_message :: string
  pv_revision :: string
  pv_publications :: "publication list"

definition validate_publication_worktree :: "'w publication_env \<Rightarrow> 'w \<Rightarrow> publication_error option" where
  "validate_publication_worktree env w =
     (if \<not> gd_owned (pe_git env) w then Some (Not_belonging Not_owned)
      else (case gd_status (pe_git env) w of
        None \<Rightarrow> Some Git_refused
      | Some s \<Rightarrow>
          if s \<noteq> [] then Some Uncommitted
          else if has_prepared_discard (pe_tasks env) then Some Unfinished_discard
          else map_option Not_belonging (validate_discard_history (pe_git env) (pe_session env) (pe_tasks env) [] w)))"

fun changed_files ::
  "(attempt \<Rightarrow> report_row list) \<Rightarrow> session \<Rightarrow> task list \<Rightarrow> string list \<Rightarrow> (publication_error, publication_file list) outcome" where
  "changed_files changes se ts [] = Inr []"
| "changed_files changes se ts (path # paths) =
     (case find (\<lambda>t. target_path se (tk_file t) = path) (rev ts) of
        None \<Rightarrow> Inl (Unlisted_change path)
      | Some t \<Rightarrow>
          (case changed_files changes se ts paths of
             Inl e \<Rightarrow> Inl e
           | Inr fs \<Rightarrow> Inr ((publication_file_summary changes t)\<lparr>fi_link := target_path se (tk_file t)\<rparr> # fs)))"

definition no_preview :: preview where
  "no_preview = \<lparr>pv_base = [], pv_source = [], pv_files = [], pv_report_files = [], pv_message = [],
     pv_revision = [], pv_publications = []\<rparr>"

definition preview_of :: "'w publication_env \<Rightarrow> string \<Rightarrow> publication_file list \<Rightarrow> preview" where
  "preview_of env source fs =
     (let files = sort_key fi_file fs; base = se_base_commit (pe_session env);
          report = publication_report_context (pe_changes env) (pe_tasks env);
          message = publication_commit_message (pe_changes env) (pe_session env) files report
      in \<lparr>pv_base = base, pv_source = source, pv_files = files,
          pv_report_files = publication_report_files (pe_changes env) (pe_session env) files report,
          pv_message = message, pv_revision = pe_binding env (pe_workspace env) base source files message,
          pv_publications = []\<rparr>)"

definition build_publication_preview :: "'w publication_env \<Rightarrow> refs \<Rightarrow> 'w \<Rightarrow> (publication_error, preview) outcome" where
  "build_publication_preview env rf w =
     (if \<not> pe_worktree env then Inr no_preview
      else (case validate_publication_worktree env w of
        Some e \<Rightarrow> Inl e
      | None \<Rightarrow>
      (case gi_head (pe_git env) w of
        None \<Rightarrow> Inl Git_refused
      | Some source \<Rightarrow>
      (case ob_changed (pe_objects env) (se_base_commit (pe_session env)) source of
        None \<Rightarrow> Inl Git_refused
      | Some paths \<Rightarrow>
      (case changed_files (pe_changes env) (pe_session env) (pe_tasks env) paths of
        Inl e \<Rightarrow> Inl e
      | Inr fs \<Rightarrow>
      (case load_result_publications (pe_objects env) rf (se_base_commit (pe_session env)) (pe_journal env) of
        Inl e \<Rightarrow> Inl e
      | Inr (rs, _) \<Rightarrow>
          if \<not> rf_readable rf then Inl Git_refused
          else Inr ((preview_of env source fs)\<lparr>pv_publications :=
                 map pj_publication (filter (\<lambda>r. pj_state r = P_done) rs)\<rparr>)))))))"

text \<open>The suggested branch: the name of the day, numbered from 2 while it is taken.\<close>

definition suggested_branch :: "string list \<Rightarrow> string \<Rightarrow> string" where
  "suggested_branch existing day =
     (let base = ''onebyone/review-'' @ day; numbered = (\<lambda>n. base @ ''-'' @ decimal n) in
      if base \<notin> set existing then base
      else (case find (\<lambda>n. numbered n \<notin> set existing) [2..<length existing + 3] of None \<Rightarrow> base | Some n \<Rightarrow> numbered n))"

subsection \<open>Publishing\<close>

record publish_request =
  qr_workspace :: string
  qr_revision :: string
  qr_branch :: string
  qr_title :: string
  qr_message :: string
  qr_as_file :: bool

definition message_threshold :: nat where
  "message_threshold = 10000"

definition title_line :: "string \<Rightarrow> bool" where
  "title_line s \<longleftrightarrow> LF \<notin> set s \<and> CR \<notin> set s \<and> NUL \<notin> set s"

definition check_publish_request :: "'w publication_env \<Rightarrow> publish_request \<Rightarrow> publication_error option" where
  "check_publish_request env q =
     (if \<not> title_line (qr_title q) \<or> blank (qr_title q) then Some Bad_title
      else if NUL \<in> set (qr_message q) \<or> \<not> valid_utf8 (qr_message q) \<or> length (trim_space (qr_title q)) > 1024
      then Some Bad_text
      else if qr_workspace q \<noteq> pe_workspace env \<or> qr_revision q = [] then Some Wrong_preview
      else if blank (qr_branch q) \<or> hd (trim_space (qr_branch q)) = CHR ''-'' then Some No_branch_name
      else if \<not> ob_branch_name (pe_objects env) (trim_space (qr_branch q)) then Some Bad_branch_name
      else None)"

definition as_file :: "publish_request \<Rightarrow> bool" where
  "as_file q \<longleftrightarrow> qr_as_file q \<or> rune_count (qr_message q) > message_threshold"

text \<open>The tree of the commit, the text under its title, and the report it points to.\<close>

definition publication_body ::
  "'w publication_env \<Rightarrow> preview \<Rightarrow> publish_request \<Rightarrow> (publication_error, string \<times> string \<times> string \<times> string) outcome" where
  "publication_body env p q =
     (case ob_tree (pe_objects env) (pv_source p) of
        None \<Rightarrow> Inl Git_refused
      | Some tree \<Rightarrow>
          if \<not> as_file q then Inr (tree, trim_space (qr_message q), [], [])
          else (case create_publication_report (pe_objects env) (pv_source p) (qr_message q) (pv_report_files p) (pe_stamps env) of
            Inl e \<Rightarrow> Inl e
          | Inr (tree', path, blob) \<Rightarrow> Inr (tree', ''Details: ['' @ path @ ''](''  @ path @ '')'', path, blob)))"

definition publication_message :: "string \<Rightarrow> string \<Rightarrow> string" where
  "publication_message title body = title @ [LF] @ (if body \<noteq> [] then [LF] @ body @ [LF] else [])"

definition ready_publication ::
  "'w publication_env \<Rightarrow> refs \<Rightarrow> 'w \<Rightarrow> publish_request \<Rightarrow> (publication_error, publication \<times> publication_record list) outcome" where
  "ready_publication env rf w q =
     (let ob = pe_objects env; title = trim_space (qr_title q); branch = trim_space (qr_branch q) in
      if \<not> pe_editable env then Inl Wrong_preview
      else (case check_publish_request env q of
        Some e \<Rightarrow> Inl e
      | None \<Rightarrow>
      (case build_publication_preview env rf w of
        Inl e \<Rightarrow> Inl e
      | Inr p \<Rightarrow>
      if qr_revision q \<noteq> pv_revision p then Inl Wrong_preview
      else if pv_files p = [] \<and> \<not> (as_file q \<and> pv_report_files p \<noteq> []) then Inl Nothing_to_publish
      else (case branch_exists rf branch of
        Inl e \<Rightarrow> Inl e
      | Inr True \<Rightarrow> Inl (Branch_exists branch)
      | Inr False \<Rightarrow>
      (case validate_publication_worktree env w of
        Some e \<Rightarrow> Inl e
      | None \<Rightarrow>
      if gi_head (pe_git env) w \<noteq> Some (pv_source p) then Inl Worktree_moved
      else (case publication_body env p q of
        Inl e \<Rightarrow> Inl e
      | Inr (tree, body, path, blob) \<Rightarrow>
      (case ob_commit ob tree (pv_base p) (publication_message title body) of
        None \<Rightarrow> Inl Git_refused
      | Some commit \<Rightarrow>
      (case load_result_publications ob rf (se_base_commit (pe_session env)) (pe_journal env) of
        Inl e \<Rightarrow> Inl e
      | Inr (rs, _) \<Rightarrow>
          Inr (\<lparr>pb_branch = branch, pb_commit = commit, pb_base = pv_base p, pb_source = pv_source p,
                pb_file_count = length (pv_files p), pb_title = title, pb_message = body,
                pb_report_path = path, pb_report_blob = blob\<rparr>, rs)))))))))"

datatype publication_effect = Wrote_journal "publication_record list" | Set_refs refs

text \<open>
  The answer and the effects in their order. The ref transaction verifies its first branch and creates
  its second in one step (\<open>createResultPublicationBranch\<close>). \<open>saved\<close> says which journals can be written; a write
  that fails leaves the old file.
\<close>

definition publish_results ::
  "'w publication_env \<Rightarrow> (publication_record list \<Rightarrow> bool) \<Rightarrow> refs \<Rightarrow> 'w \<Rightarrow> publish_request \<Rightarrow>
     (publication_error, publication) outcome \<times> publication_effect list" where
  "publish_results env saved rf w q =
     (case ready_publication env rf w q of
        Inl e \<Rightarrow> (Inl e, [])
      | Inr (p, rs) \<Rightarrow>
          let intent = rs @ [\<lparr>pj_state = P_prepared, pj_publication = p\<rparr>];
              final = rs @ [\<lparr>pj_state = P_done, pj_publication = p\<rparr>] in
          if \<not> saved intent then (Inl Journal_not_saved, [])
          else (case pe_update_refs env rf (pe_branch env, pb_source p) (pb_branch p, pb_commit p) of
            (rf', Ref_done) \<Rightarrow>
              if saved final then (Inr p, [Wrote_journal intent, Set_refs rf', Wrote_journal final])
              else (Inl (Interrupted_publication (pb_branch p)), [Wrote_journal intent, Set_refs rf'])
          | (rf', Ref_refused) \<Rightarrow>
              (Inl Branch_not_created, [Wrote_journal intent, Set_refs rf'] @ (if saved rs then [Wrote_journal rs] else []))
          | (rf', Ref_cut_off) \<Rightarrow> (Inl Branch_not_created, [Wrote_journal intent, Set_refs rf'])))"

fun apply_publication_effect :: "refs \<times> journal_file \<Rightarrow> publication_effect \<Rightarrow> refs \<times> journal_file" where
  "apply_publication_effect (rf, f) (Wrote_journal rs) = (rf, Journal 1 rs)"
| "apply_publication_effect (rf, f) (Set_refs rf') = (rf', f)"

section \<open>A publication that is cut off is settled\<close>

text \<open>
  What git documents. A commit object is its headers, an empty line and the message it was made
  from; the ref transaction either does everything it was told, after checking the branch it
  verifies and that the new one does not exist, or nothing.
\<close>

definition header_line :: "string \<Rightarrow> bool" where
  "header_line l \<longleftrightarrow> l \<noteq> [] \<and> LF \<notin> set l"

definition commit_law :: "objects \<Rightarrow> bool" where
  "commit_law ob \<longleftrightarrow> (\<forall>tree base message commit. ob_commit ob tree base message = Some commit \<longrightarrow>
     immutable_commit_id commit \<and> LF \<notin> set tree \<and> LF \<notin> set base \<and>
     (\<exists>authors. list_all (\<lambda>l. header_line l \<and> \<not> prefix ''tree '' l \<and> \<not> prefix ''parent '' l) authors \<and>
        ob_content ob commit =
          Some (join_with LF ((''tree '' @ tree) # (''parent '' @ base) # authors) @ [LF, LF] @ message)))"

definition ref_law :: "(refs \<Rightarrow> string \<times> string \<Rightarrow> string \<times> string \<Rightarrow> refs \<times> ref_answer) \<Rightarrow> bool" where
  "ref_law update \<longleftrightarrow> (\<forall>rf internal source branch commit.
     case update rf (internal, source) (branch, commit) of (rf', a) \<Rightarrow>
       rf' = rf \<and> a \<noteq> Ref_done
       \<or> rf_heads rf internal = Some source \<and> rf_heads rf branch = None
         \<and> rf' = rf\<lparr>rf_heads := (rf_heads rf)(branch := Some commit)\<rparr> \<and> a \<noteq> Ref_refused)"

subsection \<open>Reading a commit back\<close>

lemma str_index_skip: "LF \<notin> set l \<Longrightarrow> str_index (l @ s) [LF, LF] = map_option ((+) (length l)) (str_index s [LF, LF])"
proof (induction l)
  case (Cons c l)
  then show ?case by (cases "str_index s [LF, LF]") auto
qed (cases "str_index s [LF, LF]"; simp)

lemma cut_header_lines:
  assumes "list_all header_line ls" "ls \<noteq> []"
  shows "str_index (join_with LF ls @ [LF, LF] @ m) [LF, LF] = Some (length (join_with LF ls))"
  using assms
proof (induction ls)
  case (Cons l ls)
  have l: "LF \<notin> set l" using Cons.prems by (simp add: header_line_def)
  show ?case
  proof (cases ls)
    case Nil
    then show ?thesis using str_index_skip [OF l, of "LF # LF # m"] by simp
  next
    case (Cons k ks)
    then have "k \<noteq> []" "LF \<notin> set k" using Cons.prems by (simp_all add: header_line_def)
    then obtain c k' where k: "k = c # k'" "c \<noteq> LF" by (cases k) auto
    have IH: "str_index (join_with LF ls @ [LF, LF] @ m) [LF, LF] = Some (length (join_with LF ls))"
      using Cons.IH Cons.prems Cons by simp
    have "join_with LF ls @ [LF, LF] @ m = c # tl (join_with LF ls @ [LF, LF] @ m)"
      using Cons k by (cases ks) simp_all
    then have "str_index (LF # join_with LF ls @ [LF, LF] @ m) [LF, LF]
        = map_option Suc (str_index (join_with LF ls @ [LF, LF] @ m) [LF, LF])"
      using k(2) by (metis (no_types, lifting) Cons_prefix_Cons str_index.simps(2))
    then show ?thesis
      using str_index_skip [OF l, of "LF # join_with LF ls @ [LF, LF] @ m"] IH Cons by simp
  qed
qed simp

lemma cut_header_at: "str_index (h @ [LF, LF] @ m) [LF, LF] = Some (length h) \<Longrightarrow> cut_header (h @ [LF, LF] @ m) = Some (h, m)"
  by (simp add: cut_header_def)

lemma split_join:
  assumes "ls \<noteq> []" "\<And>l. l \<in> set ls \<Longrightarrow> d \<notin> set l"
  shows "split_on d (join_with d ls) = ls"
  using assms
proof (induction ls)
  case (Cons l ls)
  then show ?case by (cases ls) (auto simp: split_on_no_occ split_on_append)
qed simp

lemma commit_read_back:
  assumes "commit_law ob" "ob_commit ob tree base message = Some commit"
  shows "\<exists>content header. ob_content ob commit = Some content \<and> cut_header content = Some (header, message)
    \<and> header_values ''parent '' header = [base] \<and> header_values ''tree '' header = [tree]"
proof -
  obtain authors where a: "list_all (\<lambda>l. header_line l \<and> \<not> prefix ''tree '' l \<and> \<not> prefix ''parent '' l) authors"
      and content: "ob_content ob commit =
        Some (join_with LF ((''tree '' @ tree) # (''parent '' @ base) # authors) @ [LF, LF] @ message)"
      and free: "LF \<notin> set tree" "LF \<notin> set base"
    using assms unfolding commit_law_def by blast
  let ?ls = "(''tree '' @ tree) # (''parent '' @ base) # authors"
  have lf: "LF \<notin> set ''tree ''" "LF \<notin> set ''parent ''" by (simp_all add: LF_def)
  have ls: "list_all header_line ?ls"
    using a free lf by (auto simp: header_line_def list_all_iff)
  have cut: "cut_header (join_with LF ?ls @ [LF, LF] @ message) = Some (join_with LF ?ls, message)"
    by (rule cut_header_at, rule cut_header_lines [OF ls]) simp
  have "split_on LF (join_with LF ?ls) = ?ls"
    using ls by (intro split_join) (auto simp: header_line_def list_all_iff)
  moreover have "filter (prefix ''parent '') authors = []" "filter (prefix ''tree '') authors = []"
    using a by (auto simp: filter_empty_conv list_all_iff)
  ultimately have "header_values ''parent '' (join_with LF ?ls) = [base]"
      "header_values ''tree '' (join_with LF ?ls) = [tree]"
    by (simp_all add: header_values_def)
  then show ?thesis using content cut by blast
qed

text \<open>The message under which a result is committed, read back without its outer white space.\<close>

lemma find_space_trim_right: "find (\<lambda>w. suffix w (trim_right_space s)) space_runes = None"
proof (induction s rule: trim_right_space.induct)
  case (1 s)
  show ?case
  proof (cases "find (\<lambda>w. suffix w s) space_runes")
    case None
    then have "trim_right_space s = s" by (subst trim_right_space.simps) simp
    then show ?thesis using None by simp
  next
    case (Some w)
    then have "trim_right_space s = trim_right_space (take (length s - length w) s)"
      by (subst trim_right_space.simps) simp
    with 1[OF Some] show ?thesis by simp
  qed
qed

lemma space_rune_LF: "w \<in> set space_runes \<Longrightarrow> LF \<in> set w \<Longrightarrow> w = [LF]"
  by (auto simp: space_runes_def LF_def)

lemma trim_right_fixed: "find (\<lambda>w. suffix w s) space_runes = None \<Longrightarrow> trim_right_space s = s"
  by (subst trim_right_space.simps) simp

lemma trimmed_ends:
  assumes "trim_space s = s" "w \<in> set space_runes"
  shows "\<not> prefix w s" "\<not> suffix w s"
proof -
  have "find (\<lambda>w. prefix w s) space_runes = None"
    using find_space_trim_left [of s] prefix_trim_right [of "trim_left_space s"] assms(1)
    unfolding trim_space_def find_None_iff by (metis prefix_order.order_trans)
  then show "\<not> prefix w s" using assms(2) by (auto simp: find_None_iff)
  have "find (\<lambda>w. suffix w s) space_runes = None"
    using find_space_trim_right [of "trim_left_space s"] assms(1) by (simp add: trim_space_def)
  then show "\<not> suffix w s" using assms(2) by (auto simp: find_None_iff)
qed

lemma trim_left_block:
  assumes "trim_space t = t" "t \<noteq> []"
  shows "trim_left_space (t @ LF # x) = t @ LF # x"
proof (rule trim_left_space_fixed, unfold find_None_iff, rule ccontr)
  assume "\<not> \<not> (\<exists>w. w \<in> set space_runes \<and> prefix w (t @ LF # x))"
  then obtain w where w: "w \<in> set space_runes" "prefix w (t @ LF # x)" by blast
  show False
  proof (cases "prefix w t")
    case False
    then obtain y where y: "w = t @ y" "prefix y (LF # x)" "y \<noteq> []"
      using w(2) by (auto simp: prefix_append)
    then have "LF \<in> set w" by (cases y) auto
    then have "w = [LF]" using space_rune_LF w(1) by blast
    then show False using y assms(2) by (cases t) auto
  qed (use trimmed_ends(1) [OF assms(1) w(1)] in blast)
qed

lemma trim_right_block:
  assumes "trim_space b = b" "b \<noteq> []"
  shows "trim_right_space (x @ LF # b) = x @ LF # b"
proof (rule trim_right_fixed, unfold find_None_iff, rule ccontr)
  assume "\<not> \<not> (\<exists>w. w \<in> set space_runes \<and> suffix w (x @ LF # b))"
  then obtain w where w: "w \<in> set space_runes" "suffix w (x @ LF # b)" by blast
  show False
  proof (cases "suffix w b")
    case False
    then obtain y where y: "w = y @ b" "suffix y (x @ [LF])" "y \<noteq> []"
      using w(2) suffix_append [of w "x @ [LF]" b] by auto
    then have "LF \<in> set w" by (cases y rule: rev_cases) auto
    then have "w = [LF]" using space_rune_LF w(1) by blast
    then show False using y assms(2) by (cases y) auto
  qed (use trimmed_ends(2) [OF assms(1) w(1)] in blast)
qed

lemma find_member: "find P xs = Some x \<Longrightarrow> x \<in> set xs \<and> P x"
  by (metis find_Some_iff nth_mem)

lemma trim_right_LF: "trim_right_space (s @ [LF]) = trim_right_space s"
proof -
  have "\<exists>w. find (\<lambda>w. suffix w (s @ [LF])) space_runes = Some w"
    by (cases "find (\<lambda>w. suffix w (s @ [LF])) space_runes")
      (auto simp: find_None_iff space_runes_def LF_def suffix_def)
  then obtain w where w: "find (\<lambda>w. suffix w (s @ [LF])) space_runes = Some w" by blast
  have ws: "w \<in> set space_runes" "suffix w (s @ [LF])" using find_member [OF w] by blast+
  have "w \<noteq> []" using ws(1) space_runes_not_Nil by auto
  then have "LF \<in> set w" using ws(2) by (cases w rule: rev_cases) auto
  then have "w = [LF]" using space_rune_LF ws(1) by blast
  then show ?thesis using w by (subst trim_right_space.simps) simp
qed

lemma publication_message_trimmed:
  assumes "trim_space t = t" "t \<noteq> []" "trim_space b = b"
  shows "trim_space (publication_message t b) = t @ (if b = [] then [] else [LF, LF] @ b)"
proof (cases "b = []")
  case True
  have "trim_right_space t = t"
    using trimmed_ends(2) [OF assms(1)] by (intro trim_right_fixed) (auto simp: find_None_iff)
  then show ?thesis
    using True trim_left_block [OF assms(1,2), of "[]"] by (simp add: trim_space_def publication_message_def trim_right_LF)
next
  case False
  have "trim_right_space (t @ [LF, LF] @ b @ [LF]) = trim_right_space ((t @ [LF]) @ LF # b)"
    using trim_right_LF [of "t @ [LF, LF] @ b"] by simp
  also have "\<dots> = (t @ [LF]) @ LF # b" by (rule trim_right_block [OF assms(3) False])
  finally show ?thesis
    using False trim_left_block [OF assms(1,2), of "LF # b @ [LF]"] by (simp add: trim_space_def publication_message_def)
qed

subsection \<open>Settling the journal\<close>

definition settled :: "string \<Rightarrow> publication_record list \<Rightarrow> bool" where
  "settled base rs \<longleftrightarrow> list_all (\<lambda>r. pj_state r = P_done \<and> record_ok base (pj_publication r) = None) rs"

lemma settle_record_settled:
  "settle_record ob rf base r = Inr (kept, c) \<Longrightarrow> settled base kept"
  by (auto simp: settle_record_def settled_def Let_def
      split: option.splits publication_state.splits sum.splits bool.splits if_splits)

lemma settle_records_settled:
  "settle_records ob rf base rs = Inr (kept, c) \<Longrightarrow> settled base kept"
proof (induction rs arbitrary: kept c)
  case (Cons r rs)
  then obtain k c1 rest c2 where
    "settle_record ob rf base r = Inr (k, c1)" "settle_records ob rf base rs = Inr (rest, c2)" "kept = k @ rest"
    by (cases "settle_record ob rf base r"; cases "settle_records ob rf base rs") auto
  then show ?case using settle_record_settled [of ob rf base r k c1] Cons.IH by (simp add: settled_def)
qed (simp add: settled_def)

lemma loaded_settled:
  "load_result_publications ob rf base f = Inr (rs, c) \<Longrightarrow> settled base rs"
  using settle_records_settled
  by (auto simp: load_result_publications_def settled_def split: journal_file.splits if_splits)

lemma settle_settled:
  "settled base rs \<Longrightarrow> settle_records ob rf base (rs @ extra) =
     (case settle_records ob rf base extra of Inl e \<Rightarrow> Inl e | Inr (k, c) \<Rightarrow> Inr (rs @ k, c))"
  by (induction rs) (auto simp: settled_def settle_record_def Let_def split: sum.splits)

lemma trim_bracketed:
  assumes "s \<noteq> []" "hd s \<noteq> LF" "byte_in (hd s) 0x21 0x7E" "byte_in (last s) 0x21 0x7E"
  shows "trim_space s = s"
proof -
  have ends: "\<not> byte_in (hd w) 0x21 0x7E \<and> \<not> byte_in (last w) 0x21 0x7E" if "w \<in> set space_runes" for w
    using that by (auto simp: space_runes_def byte_in_def)
  have "find (\<lambda>w. prefix w s) space_runes = None" "find (\<lambda>w. suffix w s) space_runes = None"
    using ends assms space_runes_not_Nil unfolding find_None_iff
    by (metis hd_append2 prefix_def, metis last_appendR suffix_def)
  then show ?thesis by (simp add: trim_space_def trim_left_space_fixed trim_right_fixed)
qed

subsection \<open>The crash theorem\<close>

definition published :: "publication \<Rightarrow> publication_record list" where
  "published p = [\<lparr>pj_state = P_done, pj_publication = p\<rparr>]"

lemma ready_publication_Inr:
  assumes "ready_publication env rf w q = Inr (p, rs)"
  obtains pv tree body path blob commit c where
    "check_publish_request env q = None" "build_publication_preview env rf w = Inr pv"
    "qr_revision q = pv_revision pv"
    "pv_files pv \<noteq> [] \<or> as_file q \<and> pv_report_files pv \<noteq> []"
    "branch_exists rf (trim_space (qr_branch q)) = Inr False"
    "gi_head (pe_git env) w = Some (pv_source pv)" "publication_body env pv q = Inr (tree, body, path, blob)"
    "ob_commit (pe_objects env) tree (pv_base pv) (publication_message (trim_space (qr_title q)) body) = Some commit"
    "load_result_publications (pe_objects env) rf (se_base_commit (pe_session env)) (pe_journal env) = Inr (rs, c)"
    "p = \<lparr>pb_branch = trim_space (qr_branch q), pb_commit = commit, pb_base = pv_base pv, pb_source = pv_source pv,
          pb_file_count = length (pv_files pv), pb_title = trim_space (qr_title q), pb_message = body,
          pb_report_path = path, pb_report_blob = blob\<rparr>"
  using assms that
  by (simp add: ready_publication_def Let_def split: option.splits sum.splits bool.splits if_splits prod.splits)

lemma preview_base:
  assumes "build_publication_preview env rf w = Inr pv" "pv_files pv \<noteq> [] \<or> pv_report_files pv \<noteq> []"
  shows "pv_base pv = se_base_commit (pe_session env)"
  using assms
  by (auto simp: build_publication_preview_def no_preview_def preview_of_def Let_def
      split: option.splits sum.splits if_splits prod.splits)

lemma tree_with_report_ok:
  "publication_tree_with_report ob commit path blob = Inr t \<Longrightarrow> report_path_ok path \<and> immutable_commit_id blob"
  by (auto simp: publication_tree_with_report_def split: if_splits)

lemma created_report:
  assumes "create_publication_report ob commit message files stamps = Inr (t, path, blob)"
  shows "publication_tree_with_report ob commit path blob = Inr t"
  using assms by (auto simp: create_publication_report_def Let_def split: sum.splits option.splits)

lemma details_trimmed: "trim_space (''Details: ['' @ path @ ''](''  @ path @ '')'') = ''Details: ['' @ path @ ''](''  @ path @ '')''"
  by (rule trim_bracketed) (simp_all add: byte_in_def LF_def)

lemma body_facts:
  assumes "publication_body env pv q = Inr (tree, body, path, blob)"
  shows "trim_space body = body" "as_file q \<longleftrightarrow> path \<noteq> [] \<or> blob \<noteq> []"
    "path \<noteq> [] \<or> blob \<noteq> [] \<Longrightarrow> publication_tree_with_report (pe_objects env) (pv_source pv) path blob = Inr tree"
    "path = [] \<and> blob = [] \<Longrightarrow> ob_tree (pe_objects env) (pv_source pv) = Some tree"
    "ob_tree (pe_objects env) (pv_source pv) \<noteq> None"
proof -
  have cases: "\<not> as_file q \<and> ob_tree (pe_objects env) (pv_source pv) = Some tree \<and> body = trim_space (qr_message q) \<and> path = [] \<and> blob = []
    \<or> as_file q \<and> ob_tree (pe_objects env) (pv_source pv) \<noteq> None \<and> body = ''Details: ['' @ path @ ''](''  @ path @ '')''
      \<and> publication_tree_with_report (pe_objects env) (pv_source pv) path blob = Inr tree"
    using assms created_report
    by (auto simp: publication_body_def split: option.splits sum.splits if_splits)
  have named: "path \<noteq> []" if "publication_tree_with_report (pe_objects env) (pv_source pv) path blob = Inr tree"
    using tree_with_report_ok [OF that] by (auto simp: report_path_ok_def)
  show "trim_space body = body" using cases details_trimmed [of path] by auto
  show "as_file q \<longleftrightarrow> path \<noteq> [] \<or> blob \<noteq> []" using cases named by auto
  show "publication_tree_with_report (pe_objects env) (pv_source pv) path blob = Inr tree" if "path \<noteq> [] \<or> blob \<noteq> []"
    using cases that by auto
  show "ob_tree (pe_objects env) (pv_source pv) = Some tree" if "path = [] \<and> blob = []" using cases named that by auto
  show "ob_tree (pe_objects env) (pv_source pv) \<noteq> None" using cases by auto
qed

lemma ready_publication_facts:
  assumes "ready_publication env rf w q = Inr (p, rs)"
  shows "\<exists>c. load_result_publications (pe_objects env) rf (se_base_commit (pe_session env)) (pe_journal env) = Inr (rs, c)"
    and "rf_readable rf" "rf_heads rf (pb_branch p) = None"
    and "pb_branch p \<noteq> []" "gi_head (pe_git env) w = Some (pb_source p)" "pb_base p = se_base_commit (pe_session env)"
    and "\<exists>tree. ob_commit (pe_objects env) tree (pb_base p) (publication_message (pb_title p) (pb_message p)) = Some (pb_commit p)
           \<and> expected_tree (pe_objects env) p = Inr tree"
    and "trim_space (pb_title p) = pb_title p" "pb_title p \<noteq> []" "trim_space (pb_message p) = pb_message p"
    and "has_report p \<Longrightarrow> report_path_ok (pb_report_path p) \<and> immutable_commit_id (pb_report_blob p)"
    and "pb_file_count p = 0 \<Longrightarrow> has_report p"
proof -
  obtain pv tree body path blob commit c where r:
    "check_publish_request env q = None" "build_publication_preview env rf w = Inr pv"
    "pv_files pv \<noteq> [] \<or> as_file q \<and> pv_report_files pv \<noteq> []"
    "branch_exists rf (trim_space (qr_branch q)) = Inr False"
    "gi_head (pe_git env) w = Some (pv_source pv)" "publication_body env pv q = Inr (tree, body, path, blob)"
    "ob_commit (pe_objects env) tree (pv_base pv) (publication_message (trim_space (qr_title q)) body) = Some commit"
    "load_result_publications (pe_objects env) rf (se_base_commit (pe_session env)) (pe_journal env) = Inr (rs, c)"
    and p: "p = \<lparr>pb_branch = trim_space (qr_branch q), pb_commit = commit, pb_base = pv_base pv, pb_source = pv_source pv,
          pb_file_count = length (pv_files pv), pb_title = trim_space (qr_title q), pb_message = body,
          pb_report_path = path, pb_report_blob = blob\<rparr>"
    using ready_publication_Inr [OF assms] by metis
  note body = body_facts [OF r(6)]
  show "\<exists>c. load_result_publications (pe_objects env) rf (se_base_commit (pe_session env)) (pe_journal env) = Inr (rs, c)"
    using r(8) by blast
  show "rf_readable rf" "rf_heads rf (pb_branch p) = None" using r(4) by (simp_all add: p branch_exists_def split: if_splits)
  show "pb_branch p \<noteq> []" "pb_title p \<noteq> []"
    using r(1) by (auto simp: p check_publish_request_def blank_def split: if_splits)
  show "gi_head (pe_git env) w = Some (pb_source p)" using r(5) by (simp add: p)
  show "pb_base p = se_base_commit (pe_session env)" using preview_base [OF r(2)] r(3) by (auto simp: p)
  have "expected_tree (pe_objects env) p = Inr tree"
    using body(3-5) by (auto simp: expected_tree_def has_report_def p)
  then show "\<exists>tree. ob_commit (pe_objects env) tree (pb_base p) (publication_message (pb_title p) (pb_message p)) = Some (pb_commit p)
           \<and> expected_tree (pe_objects env) p = Inr tree"
    using r(7) by (auto simp: p)
  show "trim_space (pb_title p) = pb_title p" by (simp add: p)
  show "trim_space (pb_message p) = pb_message p" using body(1) by (simp add: p)
  show "report_path_ok (pb_report_path p) \<and> immutable_commit_id (pb_report_blob p)" if "has_report p"
    using that body(3) tree_with_report_ok by (auto simp: has_report_def p)
  show "has_report p" if "pb_file_count p = 0" using that body(2) r(3) by (auto simp: has_report_def p)
qed

text \<open>
  C5. A publication can be cut off after any prefix of its effects. Loading the journal afterwards
  always succeeds and settles it: the result is recorded as published exactly when its branch was
  created, every earlier record is kept, and the only branch that ever moved is the new one.
\<close>

theorem cut_off_publication_settled:
  assumes laws: "commit_law (pe_objects env)" "ref_law (pe_update_refs env)"
    and ids: "\<forall>c. gi_head (pe_git env) w = Some c \<longrightarrow> immutable_commit_id c" "immutable_commit_id (se_base_commit (pe_session env))"
    and ready: "ready_publication env rf w q = Inr (p, rs)"
    and run: "publish_results env saved rf w q = (res, effs)"
    and after: "foldl apply_publication_effect (rf, pe_journal env) (take n effs) = (rf', f')"
  shows "\<exists>c. load_result_publications (pe_objects env) rf' (se_base_commit (pe_session env)) f'
      = Inr (rs @ (if rf_heads rf' (pb_branch p) = None then [] else published p), c)
    \<and> (rf' = rf \<or> rf_heads rf' = (rf_heads rf)(pb_branch p \<mapsto> pb_commit p))"
proof -
  let ?ob = "pe_objects env" and ?base = "se_base_commit (pe_session env)"
  note facts = ready_publication_facts [OF ready]
  have rs: "settled ?base rs" using facts(1) loaded_settled by blast
  have ok: "record_ok ?base p = None"
  proof -
    have "immutable_commit_id (pb_commit p)" using facts(7) laws(1) unfolding commit_law_def by blast
    then show ?thesis using facts ids by (auto simp: record_ok_def)
  qed
  have valid: "validate_prepared_publication ?ob p = None"
  proof -
    obtain tree where t: "ob_commit ?ob tree (pb_base p) (publication_message (pb_title p) (pb_message p)) = Some (pb_commit p)"
        "expected_tree ?ob p = Inr tree"
      using facts(7) by blast
    obtain content header where c: "ob_content ?ob (pb_commit p) = Some content"
        "cut_header content = Some (header, publication_message (pb_title p) (pb_message p))"
        "header_values ''parent '' header = [pb_base p]" "header_values ''tree '' header = [tree]"
      using commit_read_back [OF laws(1) t(1)] by blast
    have "trim_space (publication_message (pb_title p) (pb_message p)) = expected_message p"
      using publication_message_trimmed [OF facts(8,9,10)] facts(10) by (simp add: expected_message_def blank_def)
    then show ?thesis using t c by (simp add: validate_prepared_publication_def)
  qed
  have settle: "\<exists>c. load_result_publications ?ob rx ?base (Journal 1 (rs @ [\<lparr>pj_state = st, pj_publication = p\<rparr>]))
      = Inr (rs @ (if rf_heads rx (pb_branch p) = None then [] else published p), c)"
    if rx: "rf_readable rx" "rf_heads rx (pb_branch p) = None \<or> rf_heads rx (pb_branch p) = Some (pb_commit p)"
      and st: "st = P_prepared \<or> st = P_done \<and> rf_heads rx (pb_branch p) \<noteq> None" for rx st
    using rx st ok valid
    by (auto simp: load_result_publications_def settle_settled [OF rs] settle_record_def branch_exists_def published_def Let_def)
  have before: "\<exists>c. load_result_publications ?ob rf ?base f = Inr (rs @ (if rf_heads rf (pb_branch p) = None then [] else published p), c)"
    if "f = pe_journal env \<or> f = Journal 1 rs" for f
    using that facts(1,3) settle_settled [OF rs, of ?ob rf "[]"] by (auto simp: load_result_publications_def)
  obtain rm a where upd: "pe_update_refs env rf (pe_branch env, pb_source p) (pb_branch p, pb_commit p) = (rm, a)" by fastforce
  have law: "rm = rf \<and> a \<noteq> Ref_done \<or> rm = rf\<lparr>rf_heads := (rf_heads rf)(pb_branch p := Some (pb_commit p))\<rparr> \<and> a \<noteq> Ref_refused"
    using laws(2) [unfolded ref_law_def, rule_format, of rf "pe_branch env" "pb_source p" "pb_branch p" "pb_commit p"]
    unfolding upd by auto
  define intent where "intent = rs @ [\<lparr>pj_state = P_prepared, pj_publication = p\<rparr>]"
  define final where "final = rs @ [\<lparr>pj_state = P_done, pj_publication = p\<rparr>]"
  have effs: "effs \<in> {[], [Wrote_journal intent, Set_refs rm]} \<or> effs = [Wrote_journal intent, Set_refs rm, Wrote_journal final] \<and> a = Ref_done
      \<or> effs = [Wrote_journal intent, Set_refs rm, Wrote_journal rs] \<and> a = Ref_refused"
    using run ready upd
    by (auto simp: publish_results_def Let_def intent_def final_def split: ref_answer.splits if_splits)
  have reached: "(rf', f') \<in> {(rf, pe_journal env), (rf, Journal 1 intent), (rm, Journal 1 intent)}
      \<or> (rf', f') = (rm, Journal 1 final) \<and> a = Ref_done \<or> (rf', f') = (rm, Journal 1 rs) \<and> a = Ref_refused"
    using after effs by (auto simp: take_Cons' split: if_splits)
  have rm: "rf_readable rm" "rf_heads rm (pb_branch p) = None \<or> rf_heads rm (pb_branch p) = Some (pb_commit p)"
      "rm = rf \<or> rf_heads rm = (rf_heads rf)(pb_branch p \<mapsto> pb_commit p)"
    using law facts(2,3) by auto
  define L where "L = (\<lambda>rx f. \<exists>c. load_result_publications ?ob rx ?base f
      = Inr (rs @ (if rf_heads rx (pb_branch p) = None then [] else published p), c))"
  have "L rf (pe_journal env)" unfolding L_def by (rule before) simp
  moreover have "L rf (Journal 1 intent)" unfolding L_def intent_def by (rule settle) (use facts(2,3) in auto)
  moreover have "L rm (Journal 1 intent)" unfolding L_def intent_def by (rule settle) (use rm in auto)
  moreover have "L rm (Journal 1 final)" if "a = Ref_done"
    unfolding L_def final_def by (rule settle) (use rm law that in auto)
  moreover have "L rm (Journal 1 rs)" if "a = Ref_refused"
    using law that before unfolding L_def by auto
  ultimately have "L rf' f'" using reached by auto
  moreover have "rf' = rf \<or> rf' = rm" using reached by auto
  ultimately show ?thesis using rm(3) unfolding L_def by auto
qed

subsection \<open>A concrete publication\<close>

definition commit_name :: "char \<Rightarrow> string" where
  "commit_name c = replicate 40 c"

definition demo_session :: session where
  "demo_session = \<lparr>se_base_commit = commit_name (CHR ''b''), se_relative = [], se_queue = ''q'', se_digest = (\<lambda>s. s),
     se_writable = (\<lambda>_. True), se_now = []\<rparr>"

definition demo_git :: "unit discard_git" where
  "demo_git = \<lparr>gi_head = (\<lambda>_. Some (commit_name (CHR ''c''))), gi_parent = (\<lambda>_. None), gi_message = (\<lambda>_. None),
     gi_ancestor = (\<lambda>_ _ _. True), gi_log = (\<lambda>_ _ _. Some [commit_name (CHR ''c'')]), gi_changed = (\<lambda>_. Some []),
     gi_commit_files = (\<lambda>_ _. Some []), gi_tree_entries = (\<lambda>_ _ _. None), gi_blob = (\<lambda>_ _. None),
     gi_path_ok = (\<lambda>_ _. True), gi_read = (\<lambda>_ _. None), gi_reset = (\<lambda>w _. (w, True)), gi_clean = (\<lambda>w. (w, True)),
     gd_owned = (\<lambda>_. True), gd_status = (\<lambda>_. Some []), gd_staged = (\<lambda>_. Some []), gd_tree = (\<lambda>_ _ _. None),
     gd_show = (\<lambda>_ _ _. None), gd_regular = (\<lambda>_ _. True), gd_write = (\<lambda>w _ _ _. (w, True)), gd_stopped = (\<lambda>_. False),
     gd_commit_only = (\<lambda>w _ _. (w, True))\<rparr>"

definition demo_attempt :: attempt where
  "demo_attempt = \<lparr>at_id = ''h1'', at_number = 1, at_outcome = Done, at_partial = False, at_note = ''renamed'',
     at_rules_applied = [''R1''], at_checks = [], at_usage = no_usage, at_diff_path = [], at_commit = commit_name (CHR ''c''),
     at_base_commit = commit_name (CHR ''b''), at_commit_base = [], at_input_hash = ''i'', at_output_hash = ''j'',
     at_repair_path = [], at_reviews = []\<rparr>"

definition demo_task :: task where
  "demo_task = \<lparr>tk_file = ''a.go'', tk_discards = [], tk_excluded = False, tk_rules = [''R1''], tk_status = Done,
     tk_attempts = 1, tk_rules_applied = [''R1''], tk_note = [], tk_input_hash = ''i'', tk_history = [demo_attempt],
     tk_resume_requested = False\<rparr>"

definition demo_message :: string where
  "demo_message = publication_message ''Review'' ''why''"

definition demo_content :: string where
  "demo_content = join_with LF [''tree '' @ commit_name (CHR ''e''), ''parent '' @ commit_name (CHR ''b''), ''author a'']
     @ [LF, LF] @ demo_message"

definition demo_objects :: objects where
  "demo_objects = \<lparr>ob_tree = (\<lambda>_. Some (commit_name (CHR ''e''))), ob_entries = (\<lambda>_. Some []), ob_kind = (\<lambda>_. Some ''blob''),
     ob_store = (\<lambda>_. None), ob_make_tree = (\<lambda>_. None),
     ob_commit = (\<lambda>t b m. if t = commit_name (CHR ''e'') \<and> b = commit_name (CHR ''b'') \<and> m = demo_message
                  then Some (commit_name (CHR ''d'')) else None),
     ob_content = (\<lambda>c. if c = commit_name (CHR ''d'') then Some demo_content else None),
     ob_changed = (\<lambda>_ _. Some [''a.go'']), ob_branch_name = (\<lambda>_. True)\<rparr>"

definition demo_update :: "refs \<Rightarrow> string \<times> string \<Rightarrow> string \<times> string \<Rightarrow> refs \<times> ref_answer" where
  "demo_update rf held new =
     (if rf_heads rf (fst held) = Some (snd held) \<and> rf_heads rf (fst new) = None
      then (rf\<lparr>rf_heads := (rf_heads rf)(fst new := Some (snd new))\<rparr>, Ref_done) else (rf, Ref_refused))"

definition demo_refs :: refs where
  "demo_refs = \<lparr>rf_heads = (\<lambda>b. if b = ''session'' then Some (commit_name (CHR ''c'')) else None), rf_readable = True\<rparr>"

definition demo_env :: "unit publication_env" where
  "demo_env = \<lparr>pe_git = demo_git, pe_objects = demo_objects, pe_session = demo_session, pe_workspace = ''w'',
     pe_branch = ''session'', pe_worktree = True, pe_tasks = [demo_task], pe_changes = (\<lambda>_. []),
     pe_binding = (\<lambda>_ _ _ _ _. ''r1''), pe_stamps = (\<lambda>_. []), pe_journal = No_journal, pe_editable = True,
     pe_update_refs = demo_update\<rparr>"

definition demo_request :: publish_request where
  "demo_request = \<lparr>qr_workspace = ''w'', qr_revision = ''r1'', qr_branch = ''review'', qr_title = '' Review'',
     qr_message = ''why '', qr_as_file = False\<rparr>"

definition demo_publication :: publication where
  "demo_publication = \<lparr>pb_branch = ''review'', pb_commit = commit_name (CHR ''d''), pb_base = commit_name (CHR ''b''),
     pb_source = commit_name (CHR ''c''), pb_file_count = 1, pb_title = ''Review'', pb_message = ''why'',
     pb_report_path = [], pb_report_blob = []\<rparr>"

definition demo_ready :: bool where
  "demo_ready \<longleftrightarrow> (case ready_publication demo_env demo_refs () demo_request of
     Inl _ \<Rightarrow> False | Inr (p, rs) \<Rightarrow> p = demo_publication \<and> rs = [])"

lemma demo_ready: "demo_ready"
  by code_simp

lemma demo_laws: "commit_law demo_objects" "ref_law demo_update"
proof -
  have "LF \<notin> set (commit_name (CHR ''e''))" "LF \<notin> set (commit_name (CHR ''b''))" "immutable_commit_id (commit_name (CHR ''d''))"
      "header_line ''author a''"
    by code_simp+
  then show "commit_law demo_objects"
    by (auto simp: commit_law_def demo_objects_def demo_content_def intro!: exI [of _ "[''author a'']"])
  show "ref_law demo_update" by (auto simp: ref_law_def demo_update_def)
qed

lemma cut_off_publication_settled_witness:
  "\<exists>c rf'. foldl apply_publication_effect (demo_refs, No_journal)
        (take 2 (snd (publish_results demo_env (\<lambda>_. True) demo_refs () demo_request)))
      = (rf', Journal 1 [\<lparr>pj_state = P_prepared, pj_publication = demo_publication\<rparr>])
    \<and> rf_heads rf' ''review'' = Some (commit_name (CHR ''d''))
    \<and> load_result_publications demo_objects rf' (commit_name (CHR ''b''))
        (Journal 1 [\<lparr>pj_state = P_prepared, pj_publication = demo_publication\<rparr>]) = Inr (published demo_publication, c)"
proof -
  have ready: "ready_publication demo_env demo_refs () demo_request = Inr (demo_publication, [])"
    using demo_ready by (auto simp: demo_ready_def split: sum.splits prod.splits)
  have ids: "\<forall>c. gi_head (pe_git demo_env) () = Some c \<longrightarrow> immutable_commit_id c"
      "immutable_commit_id (se_base_commit (pe_session demo_env))"
  proof -
    have "immutable_commit_id (commit_name (CHR ''c''))" "immutable_commit_id (commit_name (CHR ''b''))" by code_simp+
    then show "\<forall>c. gi_head (pe_git demo_env) () = Some c \<longrightarrow> immutable_commit_id c"
        "immutable_commit_id (se_base_commit (pe_session demo_env))"
      by (simp_all add: demo_env_def demo_git_def demo_session_def)
  qed
  define rm where "rm = demo_refs\<lparr>rf_heads := (rf_heads demo_refs)(''review'' := Some (commit_name (CHR ''d'')))\<rparr>"
  obtain effs where run: "publish_results demo_env (\<lambda>_. True) demo_refs () demo_request = (Inr demo_publication, effs)"
      "take 2 effs = [Wrote_journal [\<lparr>pj_state = P_prepared, pj_publication = demo_publication\<rparr>], Set_refs rm]"
    using ready
    by (simp add: publish_results_def Let_def demo_env_def demo_update_def demo_refs_def demo_publication_def rm_def)
  have after: "foldl apply_publication_effect (demo_refs, pe_journal demo_env) (take 2 effs)
      = (rm, Journal 1 [\<lparr>pj_state = P_prepared, pj_publication = demo_publication\<rparr>])"
    by (simp add: run(2))
  have "rf_heads rm (pb_branch demo_publication) = Some (commit_name (CHR ''d''))"
    by (simp add: rm_def demo_publication_def)
  moreover note cut_off_publication_settled [of demo_env "()" demo_refs demo_request demo_publication "[]" "\<lambda>_. True" _ effs 2, OF _ _ ids ready run(1) after]
  ultimately show ?thesis
    using demo_laws run after by (auto simp: demo_env_def demo_session_def demo_publication_def)
qed

end
