(* ===== verification/SolutionAgent.thy ===== *)
theory SolutionAgent
  imports ReviewRecovery
begin

section \<open>Repairing a whole solution (agent/solution.go, solution_trace.go)\<close>

text \<open>
  One conversation stages edits over several files of a solution, and a second conversation, which
  has not seen the first, reviews the assembled candidate before it is returned. This theory models
  the input check (\<open>cloneSolutionInput\<close>), the application of edits (\<open>ApplySolutionEdits\<close>), the state of a
  conversation and its tools (\<open>solutionSession\<close>), the decision (\<open>finish\<close>), the activity record
  (\<open>solutionTrace\<close>), the conversation loop (\<open>runSolutionSession\<close>) and \<open>RunSolution\<close>. A Go map is a list of
  entries with distinct keys where its entries are listed, and a function where it is only looked up.
  The provider is a list of turns; JSON texts and their decoders, SHA-256 and the callback that saves
  activities are fields of \<open>solution_service\<close>.
\<close>

record solution_rule =
  so_id :: rule_id
  so_body :: string
  so_always :: bool

record solution_input =
  si_rules :: "solution_rule list"
  si_rule_files :: "(rule_id \<times> string list) list option"
  si_files :: "(string \<times> string) list"
  si_build_output :: string
  si_previous_failure :: string
  si_before_request :: bool
  si_after_request :: bool
  si_trace :: bool

record file_edits =
  fe_file :: string
  fe_edits :: "edit list"
  fe_rule_ids :: "rule_id list"

record solution_staged =
  sg_id :: string
  sg_old_text :: string
  sg_new_text :: string
  sg_rule_ids :: "rule_id list"

text \<open>The keys under which \<open>read\<close> records the pages that were sent.\<close>

datatype page_key = PkManifest | PkBuild | PkRule rule_id | PkOriginal string | PkCandidate string

record solution_session =
  ss_input :: solution_input
  ss_reviewer :: bool
  ss_after :: "string \<rightharpoonup> string"
  ss_staged :: "(string \<times> solution_staged list) list"
  ss_assessments :: "rule_id \<rightharpoonup> review_assessment"
  ss_file_assessments :: "rule_id \<Rightarrow> string \<rightharpoonup> review_assessment"
  ss_read :: "page_key \<Rightarrow> (nat \<times> nat) list"
  ss_feedback :: string

datatype solution_error =
    SoInput | SoAccounting | SoPath path_error | SoText string | SoRules | SoScope | SoScopeFile | SoRuleScope
  | SoDistinct | SoEdits string edit_error | SoReplacement
  | SoArguments | SoUnknownTool | SoNoRule | SoNoFile | SoVersion | SoOffset | SoAssessment | SoAssessedFiles
  | SoAssessedFile | SoUnread | SoStagedId | SoAttribution | SoAttributionScope | SoCallId
  | SoFinal | SoNote | SoUnreadEvidence | SoUnreadRule rule_id | SoUnreadFile string | SoStatus
  | SoUnassessed rule_id | SoUnassessedFile rule_id string | SoModified
  | SoCancelled | SoRepeated | SoBuild | SoNoId | SoSave | SoRequest | SoIncomplete | SoTrace | SoResubmitted | SoWaiting

subsection \<open>The input\<close>

definition check_solution_file :: "string \<times> string \<Rightarrow> solution_error option" where
  "check_solution_file p =
     (case safe_relative_path (fst p) of
        Some e \<Rightarrow> Some (SoPath e)
      | None \<Rightarrow> if \<not> valid_utf8 (snd p) \<or> NUL \<in> set (snd p) then Some (SoText (fst p)) else None)"

fun check_solution_rules :: "rule_id set \<Rightarrow> solution_rule list \<Rightarrow> bool" where
  "check_solution_rules ids [] = True"
| "check_solution_rules ids (r # rs) =
     (\<not> (\<not> valid_rule_id (so_id r) \<or> so_id r \<in> ids \<or> \<not> valid_utf8 (so_body r) \<or> blank (so_body r)) \<and>
      check_solution_rules (insert (so_id r) ids) rs)"

definition check_scope :: "rule_id set \<Rightarrow> string set \<Rightarrow> rule_id \<times> string list \<Rightarrow> solution_error option" where
  "check_scope ids files s =
     (if fst s \<notin> ids \<or> snd s = [] then Some SoScope
      else if \<not> set (snd s) \<subseteq> files \<or> \<not> distinct (snd s) then Some SoScopeFile else None)"

definition scope_of :: "(rule_id \<times> string list) list \<Rightarrow> rule_id \<Rightarrow> string list" where
  "scope_of scopes rid = (case map_of scopes rid of None \<Rightarrow> [] | Some ts \<Rightarrow> ts)"

definition clone_solution_input :: "solution_input \<Rightarrow> (solution_error, solution_input) outcome" where
  "clone_solution_input inp =
     (if si_files inp = [] \<or> \<not> valid_utf8 (si_build_output inp) \<or> \<not> valid_utf8 (si_previous_failure inp) then Inl SoInput
      else if si_before_request inp \<noteq> si_after_request inp then Inl SoAccounting
      else (case first_error check_solution_file (si_files inp) of
        Some e \<Rightarrow> Inl e
      | None \<Rightarrow>
          if \<not> check_solution_rules {} (si_rules inp) then Inl SoRules
          else (case si_rule_files inp of
            None \<Rightarrow> Inr inp
          | Some scopes \<Rightarrow>
              (case first_error (check_scope (so_id ` set (si_rules inp)) (fst ` set (si_files inp))) scopes of
                 Some e \<Rightarrow> Inl e
               | None \<Rightarrow>
                   let sorted = map (\<lambda>(rid, ts). (rid, sort ts)) scopes in
                   if list_ex (\<lambda>r. scope_of sorted (so_id r) = [] \<or>
                        so_always r \<and> length (scope_of sorted (so_id r)) \<noteq> length (si_files inp)) (si_rules inp)
                   then Inl SoRuleScope
                   else Inr (inp\<lparr>si_rule_files := Some sorted\<rparr>)))))"

subsection \<open>Applying the edits of several files\<close>

text \<open>\<open>sort.Slice\<close> by descending start, then one replacement after the other, as in \<open>ExactEdits\<close>.\<close>

fun apply_file_edits ::
  "(string \<rightharpoonup> string) \<Rightarrow> string set \<Rightarrow> file_edits list \<Rightarrow> (string \<rightharpoonup> string) \<Rightarrow> (solution_error, string \<rightharpoonup> string) outcome" where
  "apply_file_edits files seen [] out = Inr out"
| "apply_file_edits files seen (f # fs) out =
     (case files (fe_file f) of
        None \<Rightarrow> Inl SoDistinct
      | Some original \<Rightarrow>
          if fe_file f \<in> seen then Inl SoDistinct
          else (case safe_relative_path (fe_file f) of
            Some e \<Rightarrow> Inl (SoPath e)
          | None \<Rightarrow>
          (case validate_exact_edits (fe_edits f) original of
             Some e \<Rightarrow> Inl (SoEdits (fe_file f) e)
           | None \<Rightarrow>
               if list_ex (\<lambda>e. NUL \<in> set (ed_new_text e)) (fe_edits f) then Inl SoReplacement
               else apply_file_edits files (insert (fe_file f) seen) fs
                 (out(fe_file f \<mapsto> fold replace_at (rev (sort_key fst (located original (fe_edits f)))) original)))))"

definition apply_solution_edits :: "(string \<rightharpoonup> string) \<Rightarrow> file_edits list \<Rightarrow> (solution_error, string \<rightharpoonup> string) outcome" where
  "apply_solution_edits files edits = apply_file_edits files {} edits files"

subsection \<open>The state of a conversation\<close>

definition new_solution_session :: "solution_input \<Rightarrow> bool \<Rightarrow> solution_session" where
  "new_solution_session inp reviewer =
     \<lparr>ss_input = inp, ss_reviewer = reviewer, ss_after = map_of (si_files inp), ss_staged = [],
      ss_assessments = Map.empty, ss_file_assessments = (\<lambda>_. Map.empty), ss_read = (\<lambda>_. []), ss_feedback = []\<rparr>"

definition rule_files :: "solution_input \<Rightarrow> rule_id \<Rightarrow> string list" where
  "rule_files inp rid =
     (case si_rule_files inp of
        Some scopes \<Rightarrow> scope_of scopes rid
      | None \<Rightarrow> sort (map fst (si_files inp)))"

definition rule_applies :: "solution_input \<Rightarrow> rule_id \<Rightarrow> string \<Rightarrow> bool" where
  "rule_applies inp rid file \<longleftrightarrow> list_ex (\<lambda>t. t = file) (rule_files inp rid)"

definition status_priority :: "assessment_status \<Rightarrow> nat" where
  "status_priority st =
     (case st of A_not_applicable \<Rightarrow> 0 | A_satisfied \<Rightarrow> 1 | A_needs_human \<Rightarrow> 2 | A_violated \<Rightarrow> 3 | A_other _ \<Rightarrow> 0)"

text \<open>Looking up a text; a missing entry is the empty text.\<close>

definition lookup_text :: "(string \<rightharpoonup> string) \<Rightarrow> string \<Rightarrow> string" where
  "lookup_text texts file = (case texts file of None \<Rightarrow> [] | Some t \<Rightarrow> t)"

text \<open>One result per rule: the worst status of its files, with their reasons line by line.\<close>

definition aggregate_assessment :: "rule_id \<Rightarrow> solution_session \<Rightarrow> solution_session" where
  "aggregate_assessment rid s =
     (let found = List.map_filter (\<lambda>file. map_option (Pair file) (ss_file_assessments s rid file)) (rule_files (ss_input s) rid);
          status = foldl (\<lambda>st p. if status_priority (ra_status (snd p)) > status_priority st then ra_status (snd p) else st)
            A_not_applicable found;
          reasons = map (\<lambda>p. fst p @ '': '' @ ra_reason (snd p)) found in
      s\<lparr>ss_assessments := (ss_assessments s)(rid \<mapsto>
          \<lparr>ra_rule_id = rid, ra_status = status, ra_reason = join_with LF reasons\<rparr>)\<rparr>)"

definition staged_of :: "solution_session \<Rightarrow> string \<Rightarrow> solution_staged list" where
  "staged_of s file = (case map_of (ss_staged s) file of None \<Rightarrow> [] | Some es \<Rightarrow> es)"

definition attributed_rules :: "solution_staged list \<Rightarrow> rule_id list" where
  "attributed_rules es = sort (remdups (concat (map sg_rule_ids es)))"

definition as_edit :: "solution_staged \<Rightarrow> edit" where
  "as_edit e = \<lparr>ed_item_ids = [], ed_old_text = sg_old_text e, ed_new_text = sg_new_text e, ed_attributions = []\<rparr>"

definition file_entry :: "string \<times> solution_staged list \<Rightarrow> file_edits" where
  "file_entry p = \<lparr>fe_file = fst p, fe_edits = map as_edit (sort_key sg_id (snd p)), fe_rule_ids = attributed_rules (snd p)\<rparr>"

definition session_proposal :: "(string \<times> solution_staged list) list \<Rightarrow> file_edits list \<times> rule_id list" where
  "session_proposal staged =
     (sort_key fe_file (map file_entry (filter (\<lambda>p. snd p \<noteq> []) staged)),
      attributed_rules (concat (map snd staged)))"

subsection \<open>The tools\<close>

record read_args =
  ar_file :: string
  ar_version :: string
  ar_id :: string
  ar_offset :: int

record stage_args =
  sa_file :: string
  sa_edits :: "solution_staged list"
  sa_removed :: "string list"

record solution_call =
  sc_id :: string
  sc_name :: string
  sc_arguments :: string

text \<open>The event of an activity, without its two time stamps.\<close>

record trace_event =
  te_key :: nat
  te_phase :: string
  te_session :: nat
  te_turn :: nat
  te_kind :: string
  te_tool :: string
  te_call_id :: string
  te_status :: string
  te_summary :: string
  te_arguments :: string
  te_output :: string
  te_usage :: usage

datatype solution_reply =
    SrPage text_page nat
  | SrStatePage text_page
  | SrAssessed nat
  | SrStaged string nat string

record solution_service =
  sx_manifest :: "solution_input \<Rightarrow> (string \<rightharpoonup> string) \<Rightarrow> string"
  sx_state :: "solution_session \<Rightarrow> string"
  sx_read_args :: "string \<Rightarrow> read_args option"
  sx_stage_args :: "string \<Rightarrow> stage_args option"
  sx_assessment_args :: "string \<Rightarrow> (review_assessment \<times> string list) list option"
  sx_final :: "string \<Rightarrow> (string \<times> string) option"
  sx_label_args :: "string \<Rightarrow> read_args option"
  sx_hash :: "string \<Rightarrow> string"
  sx_reply :: "solution_reply \<Rightarrow> string"
  sx_error :: "solution_error \<Rightarrow> string"
  sx_decision :: "string \<times> string \<Rightarrow> string"
  sx_reason :: "string \<Rightarrow> string"
  sx_saves_trace :: "trace_event list \<Rightarrow> trace_event \<Rightarrow> bool"
  sx_loop :: loop_service
  sx_client_ok :: bool

definition solution_page ::
  "page_key \<Rightarrow> string \<Rightarrow> int \<Rightarrow> solution_session \<Rightarrow> solution_session \<times> (solution_error, solution_reply) outcome" where
  "solution_page key content offset s =
     (case page_text content offset of
        None \<Rightarrow> (s, Inl SoOffset)
      | Some p \<Rightarrow>
          (s\<lparr>ss_read := (ss_read s)(key := ss_read s key @ [(tp_offset p, tp_offset p + length (tp_content p))])\<rparr>,
           Inr (SrPage p (1 + count_list (take (tp_offset p) content) LF))))"

definition check_assessment :: "solution_input \<Rightarrow> review_assessment \<times> string list \<Rightarrow> solution_error option" where
  "check_assessment inp p =
     (if ra_rule_id (fst p) \<notin> so_id ` set (si_rules inp) \<or> blank (ra_reason (fst p)) \<or>
         ra_status (fst p) \<notin> {A_satisfied, A_not_applicable, A_violated, A_needs_human}
      then Some SoAssessment
      else if si_rule_files inp \<noteq> None \<and> snd p = [] then Some SoAssessedFiles
      else if \<not> distinct (snd p) \<or> \<not> list_all (rule_applies inp (ra_rule_id (fst p))) (snd p) then Some SoAssessedFile
      else None)"

definition record_assessment :: "review_assessment \<times> string list \<Rightarrow> solution_session \<Rightarrow> solution_session" where
  "record_assessment p s =
     (let a = fst p; rid = ra_rule_id a in
      if si_rule_files (ss_input s) = None \<and> snd p = [] then s\<lparr>ss_assessments := (ss_assessments s)(rid \<mapsto> a)\<rparr>
      else aggregate_assessment rid
        (s\<lparr>ss_file_assessments := (ss_file_assessments s)
            (rid := foldl (\<lambda>m file. m(file \<mapsto> a)) (ss_file_assessments s rid) (snd p))\<rparr>))"

text \<open>\<open>len(s.assessments)\<close>: the assessed rules are all in the catalog.\<close>

definition assessment_count :: "solution_session \<Rightarrow> nat" where
  "assessment_count s = length (filter (\<lambda>r. ss_assessments s (so_id r) \<noteq> None) (si_rules (ss_input s)))"

definition record_assessments ::
  "(review_assessment \<times> string list) list option \<Rightarrow> solution_session \<Rightarrow>
     solution_session \<times> (solution_error, solution_reply) outcome" where
  "record_assessments args s =
     (case args of
        None \<Rightarrow> (s, Inl SoArguments)
      | Some as \<Rightarrow>
          (case first_error (check_assessment (ss_input s)) as of
             Some e \<Rightarrow> (s, Inl e)
           | None \<Rightarrow> let s' = fold record_assessment as s in (s', Inr (SrAssessed (assessment_count s')))))"

fun stage_solution_edits ::
  "solution_input \<Rightarrow> string \<Rightarrow> string set \<Rightarrow> solution_staged list \<Rightarrow> solution_staged list \<Rightarrow>
     (solution_error, solution_staged list) outcome" where
  "stage_solution_edits inp file seen [] staged = Inr staged"
| "stage_solution_edits inp file seen (e # es) staged =
     (if \<not> valid_rule_id (sg_id e) \<or> sg_id e \<in> seen then Inl SoStagedId
      else (case first_error (\<lambda>rid. if rid \<notin> so_id ` set (si_rules inp) then Some SoAttribution
                 else if \<not> rule_applies inp rid file then Some SoAttributionScope else None) (sg_rule_ids e) of
        Some x \<Rightarrow> Inl x
      | None \<Rightarrow> stage_solution_edits inp file (insert (sg_id e) seen) es (upsert_key sg_id e staged)))"

definition stage_solution ::
  "solution_service \<Rightarrow> stage_args option \<Rightarrow> solution_session \<Rightarrow>
     solution_session \<times> (solution_error, solution_reply) outcome" where
  "stage_solution sx args s =
     (case args of
        None \<Rightarrow> (s, Inl SoArguments)
      | Some a \<Rightarrow>
          (let inp = ss_input s; file = sa_file a; old = staged_of s file in
          (case map_of (si_files inp) file of
             None \<Rightarrow> (s, Inl SoUnread)
           | Some content \<Rightarrow>
          if \<not> covered_review_bytes (ss_read s (PkOriginal file)) (length content) then (s, Inl SoUnread)
          else (case stage_solution_edits inp file {} (sa_edits a) (filter (\<lambda>e. sg_id e \<notin> set (sa_removed a)) old) of
            Inl e \<Rightarrow> (s, Inl e)
          | Inr next \<Rightarrow>
              (let s1 = s\<lparr>ss_staged := upsert_key fst (file, next) (ss_staged s)\<rparr> in
              (case apply_solution_edits (map_of (si_files inp)) (fst (session_proposal (ss_staged s1))) of
                 Inl e \<Rightarrow> (s\<lparr>ss_staged := upsert_key fst (file, old) (ss_staged s)\<rparr>, Inl e)
               | Inr after \<Rightarrow>
                   (s1\<lparr>ss_after := after, ss_read := (ss_read s)(PkCandidate file := [])\<rparr>,
                    Inr (SrStaged file (length next) (sx_hash sx (lookup_text after file))))))))))"

definition read_solution ::
  "solution_service \<Rightarrow> string \<Rightarrow> read_args \<Rightarrow> solution_session \<Rightarrow>
     solution_session \<times> (solution_error, solution_reply) outcome" where
  "read_solution sx name a s =
     (let inp = ss_input s in
      if name = ''read_manifest'' then solution_page PkManifest (sx_manifest sx inp (ss_after s)) (ar_offset a) s
      else if name = ''read_build_output'' then solution_page PkBuild (si_build_output inp) (ar_offset a) s
      else if name = ''read_rules'' then
        (case find (\<lambda>r. so_id r = ar_id a) (si_rules inp) of
           None \<Rightarrow> (s, Inl SoNoRule)
         | Some r \<Rightarrow> solution_page (PkRule (so_id r)) (so_body r) (ar_offset a) s)
      else if name = ''read_file'' then
        (case map_of (si_files inp) (ar_file a) of
           None \<Rightarrow> (s, Inl SoNoFile)
         | Some content \<Rightarrow>
             if ar_version a = ''candidate''
             then solution_page (PkCandidate (ar_file a)) (lookup_text (ss_after s) (ar_file a)) (ar_offset a) s
             else if ar_version a \<noteq> ''original'' then (s, Inl SoVersion)
             else solution_page (PkOriginal (ar_file a)) content (ar_offset a) s)
      else if name = ''read_state'' then
        (case page_text (sx_state sx s) (ar_offset a) of
           None \<Rightarrow> (s, Inl SoOffset)
         | Some p \<Rightarrow> (s, Inr (SrStatePage p)))
      else (s, Inl SoUnknownTool))"

definition execute_solution_call ::
  "solution_service \<Rightarrow> solution_call \<Rightarrow> solution_session \<Rightarrow>
     solution_session \<times> (solution_error, solution_reply) outcome" where
  "execute_solution_call sx c s =
     (if sc_name c = ''stage_edits'' \<and> \<not> ss_reviewer s then stage_solution sx (sx_stage_args sx (sc_arguments c)) s
      else if sc_name c = ''record_assessments'' \<and> ss_reviewer s
      then record_assessments (sx_assessment_args sx (sc_arguments c)) s
      else (case sx_read_args sx (sc_arguments c) of
        None \<Rightarrow> (s, Inl SoArguments)
      | Some a \<Rightarrow> read_solution sx (sc_name c) a s))"

subsection \<open>The decision\<close>

definition passing :: "review_assessment option \<Rightarrow> bool" where
  "passing a \<longleftrightarrow> (case a of None \<Rightarrow> False | Some r \<Rightarrow> ra_status r = A_satisfied \<or> ra_status r = A_not_applicable)"

definition unread_rule :: "solution_session \<Rightarrow> solution_rule \<Rightarrow> solution_error option" where
  "unread_rule s r =
     (if covered_review_bytes (ss_read s (PkRule (so_id r))) (length (so_body r)) then None
      else Some (SoUnreadRule (so_id r)))"

definition unread_file :: "solution_session \<Rightarrow> string \<times> string \<Rightarrow> solution_error option" where
  "unread_file s p =
     (if covered_review_bytes (ss_read s (PkOriginal (fst p))) (length (snd p)) \<and>
         covered_review_bytes (ss_read s (PkCandidate (fst p))) (length (lookup_text (ss_after s) (fst p)))
      then None else Some (SoUnreadFile (fst p)))"

definition unassessed :: "solution_session \<Rightarrow> solution_rule \<Rightarrow> solution_error option" where
  "unassessed s r =
     (let rid = so_id r; inp = ss_input s in
      case (if si_rule_files inp = None then None
            else first_error (\<lambda>file. if passing (ss_file_assessments s rid file) then None
                   else Some (SoUnassessedFile rid file)) (rule_files inp rid)) of
        Some e \<Rightarrow> Some e
      | None \<Rightarrow> if passing (ss_assessments s rid) then None else Some (SoUnassessed rid))"

definition read_evidence :: "solution_service \<Rightarrow> solution_session \<Rightarrow> solution_error option" where
  "read_evidence sx s =
     (let inp = ss_input s in
      if \<not> covered_review_bytes (ss_read s PkManifest) (length (sx_manifest sx inp (ss_after s))) \<or>
         \<not> covered_review_bytes (ss_read s PkBuild) (length (si_build_output inp))
      then Some SoUnreadEvidence
      else first_error (unread_rule s) (si_rules inp))"

definition solution_finish ::
  "solution_service \<Rightarrow> string \<Rightarrow> solution_session \<Rightarrow> (solution_error, string \<times> string) outcome" where
  "solution_finish sx txt s =
     (case sx_final sx txt of
        None \<Rightarrow> Inl SoFinal
      | Some (status, note) \<Rightarrow>
          if blank note then Inl SoNote
          else if status = ''needs_human'' then Inr (status, note)
          else if ss_reviewer s \<and> status = ''needs_changes'' then Inr (status, note)
          else (case read_evidence sx s of
            Some e \<Rightarrow> Inl e
          | None \<Rightarrow>
              if ss_reviewer s then
                (if status \<noteq> ''passed'' then Inl SoStatus
                 else (case first_error (unread_file s) (si_files (ss_input s)) of
                   Some e \<Rightarrow> Inl e
                 | None \<Rightarrow>
                     (case first_error (unassessed s) (si_rules (ss_input s)) of
                        Some e \<Rightarrow> Inl e
                      | None \<Rightarrow> Inr (status, note))))
              else if status \<noteq> ''modified'' \<and> status \<noteq> ''skipped'' \<or>
                 (status = ''modified'') \<noteq> (fst (session_proposal (ss_staged s)) \<noteq> [])
              then Inl SoModified
              else Inr (status, note)))"

subsection \<open>The activity record\<close>

text \<open>
  One recorder for all conversations of a run. After an activity could not be saved, every later
  activity fails, so nothing goes on with an incomplete record. Labels are given in English here.
\<close>

record trace_log =
  tl_next :: nat
  tl_sessions :: nat
  tl_failed :: bool
  tl_events :: "trace_event list"

definition emit_trace :: "solution_service \<Rightarrow> bool \<Rightarrow> trace_event \<Rightarrow> trace_log \<Rightarrow> trace_log \<times> bool" where
  "emit_trace sx callback ev t =
     (if tl_failed t then (t, False)
      else if \<not> callback then (t, True)
      else if sx_saves_trace sx (tl_events t) ev then (t\<lparr>tl_events := tl_events t @ [ev]\<rparr>, True)
      else (t\<lparr>tl_failed := True\<rparr>, False))"

definition control_rune :: "string \<Rightarrow> bool" where
  "control_rune r \<longleftrightarrow>
     (case r of
        [c] \<Rightarrow> byte_in c 0x00 0x1F \<or> c = CHR 0x7F
      | [a, b] \<Rightarrow> a = CHR 0xC2 \<and> byte_in b 0x80 0x9F
      | _ \<Rightarrow> False)"

definition replacement_rune :: string where
  "replacement_rune = [CHR 0xEF, CHR 0xBF, CHR 0xBD]"

function label_runes :: "string \<Rightarrow> string" where
  "label_runes s =
     (if s = [] then []
      else (case rune_width s of
        None \<Rightarrow> replacement_rune @ label_runes (drop 1 s)
      | Some n \<Rightarrow> (if control_rune (take n s) then '' '' else take n s) @ label_runes (drop n s)))"
  by pat_completeness auto
termination
  by (relation "measure length") (auto dest: rune_width_bounds)

declare label_runes.simps [simp del]

text \<open>\<open>bounded\<close> of \<open>protocol.go\<close>: the longest valid prefix within the limit, and an ellipsis.\<close>

fun valid_cut :: "string \<Rightarrow> nat \<Rightarrow> nat" where
  "valid_cut s 0 = 0"
| "valid_cut s (Suc n) = (if valid_utf8 (take (Suc n) s) then Suc n else valid_cut s n)"

definition bounded_text :: "string \<Rightarrow> nat \<Rightarrow> string" where
  "bounded_text s n = (if length s \<le> n then s else take (valid_cut s n) s @ [CHR 0xE2, CHR 0x80, CHR 0xA6])"

definition trace_label :: "string \<Rightarrow> nat \<Rightarrow> string" where
  "trace_label s limit = bounded_text (label_runes s) limit"

definition tool_title :: "string \<Rightarrow> string" where
  "tool_title name =
     (if name = ''read_manifest'' then ''Reads the list of files and rules''
      else if name = ''read_build_output'' then ''Reads the build output''
      else if name = ''read_rules'' then ''Reads a rule''
      else if name = ''read_file'' then ''Reads a file''
      else if name = ''read_state'' then ''Reads the saved edits and assessments''
      else if name = ''stage_edits'' then ''Stages edits''
      else if name = ''record_assessments'' then ''Records assessments''
      else ''Calls a tool: '' @ trace_label name 80)"

definition tool_summary :: "solution_service \<Rightarrow> solution_call \<Rightarrow> string" where
  "tool_summary sx c =
     (let name = sc_name c; title = tool_title name in
      case sx_label_args sx (sc_arguments c) of
        None \<Rightarrow> title
      | Some a \<Rightarrow>
          title @
          (if (name = ''read_file'' \<or> name = ''stage_edits'') \<and> ar_file a \<noteq> [] then '': '' @ trace_label (ar_file a) 200 else []) @
          (if name = ''read_file'' \<and> ar_version a = ''original'' then '' (before)''
           else if name = ''read_file'' \<and> ar_version a = ''candidate'' then '' (after)'' else []) @
          (if name = ''read_rules'' \<and> ar_id a \<noteq> [] then '': '' @ trace_label (ar_id a) 80 else []) @
          (if take 5 name = ''read_'' \<and> ar_offset a > 0 then '' (from byte '' @ decimal (nat (ar_offset a)) @ '')'' else []))"

text \<open>
  A conversation: its state, the record it shares with the others, the counters of its loop, the
  usage of the run and the accounting callbacks made so far.
\<close>

datatype accounting_event = AcBefore string | AcAfter usage bool

record conversation =
  cn_session :: solution_session
  cn_trace :: trace_log
  cn_number :: nat
  cn_turn :: nat
  cn_last_action :: string
  cn_repeats :: nat
  cn_invalid :: nat
  cn_usage :: usage
  cn_accounting :: "accounting_event list"

definition solution_phase :: "bool \<Rightarrow> string" where
  "solution_phase reviewer = (if reviewer then ''review'' else ''repair'')"

text \<open>\<open>event\<close> takes the next key; \<open>complete\<close> finishes an event and saves it.\<close>

definition new_event :: "string \<Rightarrow> string \<Rightarrow> conversation \<Rightarrow> conversation \<times> trace_event" where
  "new_event kind summary cn =
     (let n = tl_next (cn_trace cn) + 1 in
      (cn\<lparr>cn_trace := (cn_trace cn)\<lparr>tl_next := n\<rparr>\<rparr>,
       \<lparr>te_key = n, te_phase = solution_phase (ss_reviewer (cn_session cn)), te_session = cn_number cn, te_turn = cn_turn cn,
        te_kind = kind, te_tool = [], te_call_id = [], te_status = ''running'', te_summary = summary,
        te_arguments = [], te_output = [], te_usage = no_usage\<rparr>))"

definition emit_event :: "solution_service \<Rightarrow> trace_event \<Rightarrow> conversation \<Rightarrow> conversation \<times> bool" where
  "emit_event sx ev cn =
     (case emit_trace sx (si_trace (ss_input (cn_session cn))) ev (cn_trace cn) of
        (t, ok) \<Rightarrow> (cn\<lparr>cn_trace := t\<rparr>, ok))"

definition completed_event :: "solution_service \<Rightarrow> trace_event \<Rightarrow> string \<Rightarrow> usage \<Rightarrow> solution_error option \<Rightarrow> trace_event" where
  "completed_event sx ev out u err =
     (case err of
        None \<Rightarrow> ev\<lparr>te_status := ''completed'', te_output := out, te_usage := u, te_summary := te_summary ev @ '' (done)''\<rparr>
      | Some e \<Rightarrow> ev\<lparr>te_status := ''error'', te_output := (if out = [] then sx_error sx e else out), te_usage := u,
                     te_summary := te_summary ev @ '' (failed): '' @ trace_label (sx_error sx e) 256\<rparr>)"

definition complete_event ::
  "solution_service \<Rightarrow> trace_event \<Rightarrow> string \<Rightarrow> usage \<Rightarrow> solution_error option \<Rightarrow> conversation \<Rightarrow> conversation \<times> bool" where
  "complete_event sx ev out u err cn = emit_event sx (completed_event sx ev out u err) cn"

subsection \<open>One exchange with the provider\<close>

datatype solution_output = OutputMalformed | OutputDecoded "solution_call list" string

datatype solution_answer =
    SaFailed (sa_context: bool) (sa_unknown: bool) (sa_attempts: int)
  | SaGot "response_usage option" completion solution_output

record solution_turn =
  st_cancelled :: bool
  st_built :: bool
  st_request_id :: "string option"
  st_before_saved :: bool
  st_answer :: solution_answer
  st_after_saved :: bool

text \<open>
  A failure carries whether the error is a context limit for the caller. The errors of the request and
  of the accounting callback are joined, and a joined error still is a context limit.
\<close>

datatype response_result = RrFailed bool solution_error | RrGot completion solution_output

definition answered :: "solution_service \<Rightarrow> solution_answer \<Rightarrow> usage \<times> response_result" where
  "answered sx a =
     (case a of
        SaFailed context unknown attempts \<Rightarrow>
          (no_usage\<lparr>us_turns := attempts, us_uncertain := unknown\<rparr>, RrFailed context SoRequest)
      | SaGot response completion out \<Rightarrow> (add_usage (sx_loop sx) no_usage response, RrGot completion out))"

definition unsaved :: "response_result \<Rightarrow> response_result" where
  "unsaved r = (case r of RrFailed context e \<Rightarrow> RrFailed context SoSave | RrGot _ _ \<Rightarrow> RrFailed False SoSave)"

definition solution_response ::
  "solution_service \<Rightarrow> solution_input \<Rightarrow> solution_turn \<Rightarrow> accounting_event list \<times> usage \<times> response_result" where
  "solution_response sx inp t =
     (let go = (\<lambda>evs. case answered sx (st_answer t) of (u, r) \<Rightarrow>
            if si_after_request inp
            then (evs @ [AcAfter u (case r of RrFailed _ _ \<Rightarrow> True | RrGot _ _ \<Rightarrow> False)], u, if st_after_saved t then r else unsaved r)
            else (evs, u, r)) in
      if si_before_request inp then
        (case st_request_id t of
           None \<Rightarrow> ([], no_usage, RrFailed False SoNoId)
         | Some rid \<Rightarrow>
             if \<not> st_before_saved t then ([AcBefore rid], no_usage, RrFailed False SoSave)
             else go [AcBefore rid])
      else go [])"

datatype solution_step = StContinue | StFailed solution_error | StDecided string string

text \<open>A new history over the saved state; it counts as an invalid response.\<close>

definition rebuild_context :: "solution_service \<Rightarrow> string \<Rightarrow> conversation \<Rightarrow> conversation \<times> solution_step" where
  "rebuild_context sx reason cn =
     (case new_event ''context'' ''Rebuilds the conversation from the saved work'' cn of (cn1, ev) \<Rightarrow>
      (case complete_event sx ev (sx_reason sx reason) no_usage None cn1 of (cn2, ok) \<Rightarrow>
        if \<not> ok then (cn2, StFailed SoTrace)
        else (cn2\<lparr>cn_invalid := cn_invalid cn2 + 1\<rparr>, StContinue)))"

definition call_result :: "solution_service \<Rightarrow> (solution_error, solution_reply) outcome \<Rightarrow> string \<times> solution_error option" where
  "call_result sx r =
     (case r of
        Inr v \<Rightarrow> (sx_reply sx v, None)
      | Inl e \<Rightarrow> (''Tool error: '' @ bounded_text (sx_error sx e) 2048, Some e))"

definition traced_call ::
  "solution_service \<Rightarrow> solution_call \<Rightarrow> bool \<Rightarrow> conversation \<Rightarrow> conversation \<times> solution_error option \<times> bool" where
  "traced_call sx c invalid cn =
     (case new_event ''tool'' (tool_summary sx c) cn of (cn1, ev0) \<Rightarrow>
      let ev = ev0\<lparr>te_tool := sc_name c, te_call_id := sc_id c, te_arguments := sc_arguments c\<rparr> in
      (case emit_event sx ev cn1 of (cn2, ok) \<Rightarrow>
        if \<not> ok then (cn2, None, False)
        else
          (case (if invalid then (cn_session cn2, Inl SoCallId)
                 else execute_solution_call sx c (cn_session cn2)) of (s, r) \<Rightarrow>
           (case call_result sx r of (out, err) \<Rightarrow>
             (case complete_event sx ev out no_usage err (cn2\<lparr>cn_session := s\<rparr>) of (cn3, ok3) \<Rightarrow> (cn3, err, ok3))))))"

fun run_solution_calls ::
  "solution_service \<Rightarrow> string set \<Rightarrow> solution_call list \<Rightarrow> conversation \<Rightarrow> conversation \<times> solution_step" where
  "run_solution_calls sx seen [] cn = (cn, StContinue)"
| "run_solution_calls sx seen (c # cs) cn =
     (let invalid = (sc_id c = [] \<or> length (sc_id c) > 1024 \<or> sc_id c \<in> seen) in
      case traced_call sx c invalid cn of (cn1, err, ok) \<Rightarrow>
        if \<not> ok then (cn1, StFailed SoTrace)
        else if invalid then (cn1, StFailed SoCallId)
        else run_solution_calls sx (insert (sc_id c) seen) cs
          (cn1\<lparr>cn_invalid := (if err = None then 0 else cn_invalid cn1 + 1)\<rparr>))"

definition submit_decision :: "solution_service \<Rightarrow> string \<Rightarrow> conversation \<Rightarrow> conversation \<times> solution_step" where
  "submit_decision sx txt cn =
     (let decided = solution_finish sx txt (cn_session cn) in
      case new_event ''decision'' ''The final decision'' cn of (cn1, ev) \<Rightarrow>
      (case complete_event sx ev (case sx_final sx txt of None \<Rightarrow> [] | Some d \<Rightarrow> sx_decision sx d) no_usage
              (case decided of Inl e \<Rightarrow> Some e | Inr _ \<Rightarrow> None) cn1 of (cn2, ok) \<Rightarrow>
        if \<not> ok then (cn2, StFailed SoTrace)
        else (case decided of
          Inr (status, note) \<Rightarrow> (cn2, StDecided status note)
        | Inl _ \<Rightarrow> (cn2\<lparr>cn_invalid := cn_invalid cn2 + 1\<rparr>, StContinue))))"

definition response_error :: "response_result \<Rightarrow> solution_error option" where
  "response_error r =
     (case r of
        RrFailed _ e \<Rightarrow> Some e
      | RrGot completion _ \<Rightarrow> if completion = CompleteOk then None else Some SoIncomplete)"

definition next_action :: "string \<Rightarrow> conversation \<Rightarrow> conversation" where
  "next_action action cn =
     (if action = cn_last_action cn then cn\<lparr>cn_repeats := cn_repeats cn + 1\<rparr>
      else cn\<lparr>cn_last_action := action, cn_repeats := 0\<rparr>)"

definition handle_response :: "solution_service \<Rightarrow> response_result \<Rightarrow> conversation \<Rightarrow> conversation \<times> solution_step" where
  "handle_response sx r cn =
     (case r of
        RrFailed context e \<Rightarrow>
          if context then rebuild_context sx ''Provider context limit; read saved state and continue in smaller pages.'' cn
          else (cn, StFailed e)
      | RrGot CompleteFailed _ \<Rightarrow> (cn, StFailed SoIncomplete)
      | RrGot CompleteContextLimit _ \<Rightarrow> rebuild_context sx ''Incomplete response discarded. Continue using smaller edit/assessment batches; saved state remains available.'' cn
      | RrGot CompleteOutputLimit _ \<Rightarrow> rebuild_context sx ''Incomplete response discarded. Continue using smaller edit/assessment batches; saved state remains available.'' cn
      | RrGot CompleteOk OutputMalformed \<Rightarrow> rebuild_context sx ''Invalid response: use the supplied tools and final JSON schema.'' cn
      | RrGot CompleteOk (OutputDecoded calls final) \<Rightarrow>
          (let cn1 = next_action (final @ concat (map (\<lambda>c. sc_name c @ sc_arguments c) calls)) cn in
           if calls \<noteq> [] then run_solution_calls sx {} calls cn1 else submit_decision sx final cn1))"

definition stuck :: "conversation \<Rightarrow> bool" where
  "stuck cn \<longleftrightarrow> cn_repeats cn \<ge> 12 \<or> cn_invalid cn \<ge> 12"

definition conversation_turn :: "solution_service \<Rightarrow> solution_turn \<Rightarrow> conversation \<Rightarrow> conversation \<times> solution_step" where
  "conversation_turn sx t cn =
     (if st_cancelled t then (cn, StFailed SoCancelled)
      else if stuck cn then (cn, StFailed SoRepeated)
      else
        let cn1 = cn\<lparr>cn_turn := cn_turn cn + 1\<rparr> in
        if \<not> st_built t then (cn1, StFailed SoBuild)
        else (case new_event ''request'' ''Asks for a response'' cn1 of (cn2, ev) \<Rightarrow>
          (case emit_event sx ev cn2 of (cn3, ok) \<Rightarrow>
            if \<not> ok then (cn3, StFailed SoTrace)
            else (case solution_response sx (ss_input (cn_session cn3)) t of (evs, delta, r) \<Rightarrow>
              (case complete_event sx ev [] delta (response_error r)
                  (cn3\<lparr>cn_usage := add_review_usage (cn_usage cn3) delta, cn_accounting := cn_accounting cn3 @ evs\<rparr>) of
                (cn4, ok4) \<Rightarrow> if \<not> ok4 then (cn4, StFailed SoTrace) else handle_response sx r cn4)))))"

subsection \<open>The conversation and the run\<close>

text \<open>
  The loop over the turns of the provider, with the turns it left. A conversation that still waits for
  a turn answers \<open>StContinue\<close>.
\<close>

fun conversation_loop ::
  "solution_service \<Rightarrow> solution_turn list \<Rightarrow> conversation \<Rightarrow> conversation \<times> solution_step \<times> solution_turn list" where
  "conversation_loop sx [] cn = (cn, if stuck cn then StFailed SoRepeated else StContinue, [])"
| "conversation_loop sx (t # ts) cn =
     (case conversation_turn sx t cn of
        (cn', StContinue) \<Rightarrow> conversation_loop sx ts cn'
      | (cn', r) \<Rightarrow> (cn', r, ts))"

definition begin_conversation :: "solution_session \<Rightarrow> conversation \<Rightarrow> conversation" where
  "begin_conversation s cn =
     (let n = tl_sessions (cn_trace cn) + 1 in
      cn\<lparr>cn_session := s, cn_trace := (cn_trace cn)\<lparr>tl_sessions := n\<rparr>, cn_number := n, cn_turn := 0,
         cn_last_action := [], cn_repeats := 0, cn_invalid := 0\<rparr>)"

definition step_error :: "solution_step \<Rightarrow> solution_error option" where
  "step_error r = (case r of StFailed e \<Rightarrow> Some e | _ \<Rightarrow> None)"

definition run_conversation ::
  "solution_service \<Rightarrow> solution_session \<Rightarrow> solution_turn list \<Rightarrow> conversation \<Rightarrow>
     conversation \<times> solution_step \<times> solution_turn list" where
  "run_conversation sx s ts cn =
     (case new_event ''session'' (if ss_reviewer s then ''Reviewer'' else ''Editor'') (begin_conversation s cn) of (cn1, entry) \<Rightarrow>
      (case emit_event sx entry cn1 of (cn2, ok) \<Rightarrow>
        if \<not> ok then (cn2, StFailed SoTrace, ts)
        else (case conversation_loop sx ts cn2 of
          (cn3, StContinue, rest) \<Rightarrow> (cn3, StContinue, rest)
        | (cn3, r, rest) \<Rightarrow>
            (case complete_event sx entry [] (usage_difference (cn_usage cn3) (cn_usage cn2)) (step_error r) cn3 of
               (cn4, ok4) \<Rightarrow> (cn4, if ok4 then r else case r of StFailed e \<Rightarrow> r | _ \<Rightarrow> StFailed SoTrace, rest)))))"

record solution_review =
  sv_verdict :: string
  sv_summary :: string
  sv_assessments :: "review_assessment list"
  sv_original_hashes :: "(string \<times> string) list"
  sv_candidate_hashes :: "(string \<times> string) list"
  sv_usage :: usage

record solution_proposal =
  sp_status :: string
  sp_note :: string
  sp_files :: "file_edits list"
  sp_rules_applied :: "rule_id list"

definition review_evidence ::
  "solution_service \<Rightarrow> string \<Rightarrow> string \<Rightarrow> solution_session \<Rightarrow> (string \<rightharpoonup> string) \<Rightarrow> usage \<Rightarrow> solution_review" where
  "review_evidence sx verdict summary s after u =
     (let files = si_files (ss_input s) in
      \<lparr>sv_verdict = verdict, sv_summary = summary,
       sv_assessments = List.map_filter (\<lambda>r. ss_assessments s (so_id r)) (si_rules (ss_input s)),
       sv_original_hashes = map (\<lambda>p. (fst p, sx_hash sx (snd p))) files,
       sv_candidate_hashes = map (\<lambda>p. (fst p, sx_hash sx (lookup_text after (fst p)))) files,
       sv_usage = u\<rparr>)"

definition no_conversation :: "solution_input \<Rightarrow> conversation" where
  "no_conversation inp =
     \<lparr>cn_session = new_solution_session inp False,
      cn_trace = \<lparr>tl_next = 0, tl_sessions = 0, tl_failed = False, tl_events = []\<rparr>,
      cn_number = 0, cn_turn = 0, cn_last_action = [], cn_repeats = 0, cn_invalid = 0, cn_usage = no_usage, cn_accounting = []\<rparr>"

text \<open>
  One round: a repair, then a review of what it staged. \<open>solution_rounds\<close> repeats it while the reviewer
  rejects; a repair that decides has used a turn, so the turns left decrease. The identity of a candidate is the JSON text of its edits, which is the list itself here.
\<close>

datatype round_result =
    RoundFailed solution_error
  | RoundDone solution_proposal
  | RoundRejected solution_session "file_edits list"

definition solution_round ::
  "solution_service \<Rightarrow> solution_session \<Rightarrow> file_edits list list \<Rightarrow> solution_turn list \<Rightarrow> conversation \<Rightarrow>
     conversation \<times> solution_review list \<times> round_result \<times> solution_turn list" where
  "solution_round sx s rejected ts cn =
     (case run_conversation sx s ts cn of
        (cn1, StContinue, rest) \<Rightarrow> (cn1, [], RoundFailed SoWaiting, rest)
      | (cn1, StFailed e, rest) \<Rightarrow> (cn1, [], RoundFailed e, rest)
      | (cn1, StDecided decision note, rest) \<Rightarrow>
          if decision = ''needs_human''
          then (cn1, [], RoundDone \<lparr>sp_status = decision, sp_note = note, sp_files = [], sp_rules_applied = []\<rparr>, rest)
          else
            let inp = ss_input s; s1 = cn_session cn1; proposed = session_proposal (ss_staged s1) in
            (case apply_solution_edits (map_of (si_files inp)) (fst proposed) of
               Inl e \<Rightarrow> (cn1, [], RoundFailed e, rest)
             | Inr after \<Rightarrow>
                 if fst proposed \<in> set rejected then (cn1, [], RoundFailed SoResubmitted, rest)
                 else
                   (case run_conversation sx ((new_solution_session inp True)\<lparr>ss_after := after\<rparr>) rest cn1 of
                      (cn2, StContinue, rest2) \<Rightarrow> (cn2, [], RoundFailed SoWaiting, rest2)
                    | (cn2, StFailed e, rest2) \<Rightarrow> (cn2, [], RoundFailed e, rest2)
                    | (cn2, StDecided verdict summary, rest2) \<Rightarrow>
                        (cn2, [review_evidence sx verdict summary (cn_session cn2) after (usage_difference (cn_usage cn2) (cn_usage cn1))],
                         (if verdict = ''passed''
                          then RoundDone \<lparr>sp_status = decision, sp_note = note @ [LF] @ ''Independent review: '' @ summary,
                                          sp_files = fst proposed, sp_rules_applied = snd proposed\<rparr>
                          else if verdict = ''needs_human''
                          then RoundDone \<lparr>sp_status = verdict, sp_note = summary, sp_files = [], sp_rules_applied = []\<rparr>
                          else RoundRejected (s1\<lparr>ss_feedback := summary\<rparr>) (fst proposed)),
                         rest2))))"

lemma conversation_loop_rest: "conversation_loop sx ts cn = (cn', r, rest) \<Longrightarrow> length rest \<le> length ts"
  by (induction sx ts cn rule: conversation_loop.induct) (force split: prod.splits solution_step.splits)+

lemma conversation_loop_used:
  "conversation_loop sx ts cn = (cn', StDecided d n, rest) \<Longrightarrow> length rest < length ts"
  by (induction sx ts cn rule: conversation_loop.induct)
     (force split: prod.splits solution_step.splits if_splits)+

lemma run_conversation_decided:
  assumes "run_conversation sx s ts cn = (cn', StDecided d n, rest)"
  obtains cn1 cn2 where "conversation_loop sx ts cn1 = (cn2, StDecided d n, rest)" "cn_session cn1 = s"
    "cn_session cn' = cn_session cn2" "length rest < length ts"
  using assms conversation_loop_used
  by (auto simp: run_conversation_def new_event_def emit_event_def complete_event_def begin_conversation_def Let_def
      split: prod.splits if_splits solution_step.splits)

lemma run_conversation_rest: "run_conversation sx s ts cn = (cn', r, rest) \<Longrightarrow> length rest \<le> length ts"
  by (auto simp: run_conversation_def dest: conversation_loop_rest split: prod.splits if_splits solution_step.splits)

lemma solution_round_rest:
  assumes "solution_round sx s rejected ts cn = (cn', rvs, RoundRejected s' c, rest)"
  shows "length rest < length ts"
  using assms
  by (auto simp: solution_round_def Let_def dest!: run_conversation_rest elim!: run_conversation_decided
      split: prod.splits if_splits solution_step.splits sum.splits)

function solution_rounds ::
  "solution_service \<Rightarrow> solution_session \<Rightarrow> file_edits list list \<Rightarrow> solution_review list \<Rightarrow> solution_turn list \<Rightarrow> conversation \<Rightarrow>
     conversation \<times> solution_review list \<times> (solution_error, solution_proposal) outcome" where
  "solution_rounds sx s rejected reviews ts cn =
     (case solution_round sx s rejected ts cn of
        (cn', rvs, RoundFailed e, rest) \<Rightarrow> (cn', reviews @ rvs, Inl e)
      | (cn', rvs, RoundDone p, rest) \<Rightarrow> (cn', reviews @ rvs, Inr p)
      | (cn', rvs, RoundRejected s' c, rest) \<Rightarrow> solution_rounds sx s' (c # rejected) (reviews @ rvs) rest cn')"
  by pat_completeness auto
termination
  by (relation "measure (\<lambda>(sx, s, rejected, reviews, ts, cn). length ts)") (auto dest: solution_round_rest [OF sym])

declare solution_rounds.simps [simp del]

definition run_solution ::
  "solution_service \<Rightarrow> solution_input \<Rightarrow> solution_turn list \<Rightarrow>
     conversation \<times> solution_review list \<times> (solution_error, solution_proposal) outcome" where
  "run_solution sx inp ts =
     (case clone_solution_input inp of
        Inl e \<Rightarrow> (no_conversation inp, [], Inl e)
      | Inr checked \<Rightarrow>
          if \<not> sx_client_ok sx then (no_conversation checked, [], Inl SoRequest)
          else solution_rounds sx (new_solution_session checked False) [] [] ts (no_conversation checked))"

section \<open>What an approval rests on\<close>

subsection \<open>The text a page was cut from\<close>

definition page_source :: "solution_service \<Rightarrow> solution_session \<Rightarrow> page_key \<Rightarrow> string" where
  "page_source sx s key =
     (case key of
        PkManifest \<Rightarrow> sx_manifest sx (ss_input s) (ss_after s)
      | PkBuild \<Rightarrow> si_build_output (ss_input s)
      | PkRule rid \<Rightarrow> (case find (\<lambda>r. so_id r = rid) (si_rules (ss_input s)) of None \<Rightarrow> [] | Some r \<Rightarrow> so_body r)
      | PkOriginal file \<Rightarrow> lookup_text (map_of (si_files (ss_input s))) file
      | PkCandidate file \<Rightarrow> lookup_text (ss_after s) file)"

text \<open>What a reply says about one key: nothing was recorded for it, or exactly the page of the reply.\<close>

definition page_recorded ::
  "solution_service \<Rightarrow> solution_session \<Rightarrow> (solution_error, solution_reply) outcome \<Rightarrow> solution_session \<Rightarrow> page_key \<Rightarrow> bool" where
  "page_recorded sx s r s' key \<longleftrightarrow>
     ss_read s' key = ss_read s key \<or>
     (\<exists>p n. r = Inr (SrPage p n) \<and> tp_content p = slice (tp_offset p) (tp_offset p + length (tp_content p)) (page_source sx s key) \<and>
        ss_read s' key = ss_read s key @ [(tp_offset p, tp_offset p + length (tp_content p))])"

definition same_candidate :: "solution_session \<Rightarrow> solution_session \<Rightarrow> bool" where
  "same_candidate s s' \<longleftrightarrow> ss_input s' = ss_input s \<and> ss_reviewer s' = ss_reviewer s \<and> ss_after s' = ss_after s
     \<and> ss_staged s' = ss_staged s"

lemma nothing_recorded [simp]: "same_candidate s s" "page_recorded sx s r s key"
  by (simp_all add: same_candidate_def page_recorded_def)

lemma page_text_slice:
  "page_text doc off = Some p \<Longrightarrow> tp_content p = slice (tp_offset p) (tp_offset p + length (tp_content p)) doc"
  by (auto simp: page_text_def Let_def slice_def split: if_splits)

lemma solution_page_recorded:
  assumes "solution_page k content off s = (s', r)" "content = page_source sx s k"
  shows "same_candidate s s' \<and> (\<forall>key. page_recorded sx s r s' key)"
  using assms page_text_slice
  by (auto simp: solution_page_def page_recorded_def same_candidate_def split: option.splits)

lemma read_solution_recorded:
  assumes "read_solution sx name a s = (s', r)"
  shows "same_candidate s s' \<and> (\<forall>key. page_recorded sx s r s' key)"
proof -
  let ?inp = "ss_input s"
  have page: ?thesis if "solution_page k (page_source sx s k) (ar_offset a) s = (s', r)" for k
    using solution_page_recorded [OF that refl] .
  have none: ?thesis if "s' = s" using that by simp
  show ?thesis
  proof (cases "name = ''read_rules''")
    case True
    then show ?thesis
      using assms page [of "PkRule (ar_id a)"] none
      by (auto simp: read_solution_def page_source_def find_Some_iff split: option.splits)
  next
    case rules: False
    show ?thesis
    proof (cases "name = ''read_file''")
      case True
      then show ?thesis
        using assms page [of "PkCandidate (ar_file a)"] page [of "PkOriginal (ar_file a)"] none
        by (auto simp: read_solution_def page_source_def lookup_text_def Let_def split: option.splits if_splits)
    next
      case False
      then show ?thesis
        using assms rules page [of PkManifest] page [of PkBuild] none
        by (auto simp: read_solution_def page_source_def Let_def split: option.splits if_splits)
    qed
  qed
qed

lemma record_assessment_keeps:
  "same_candidate s (record_assessment p s) \<and> ss_read (record_assessment p s) = ss_read s"
  by (simp add: record_assessment_def aggregate_assessment_def same_candidate_def Let_def)

lemma record_assessments_keep:
  "same_candidate s (fold record_assessment as s) \<and> ss_read (fold record_assessment as s) = ss_read s"
proof (induction as arbitrary: s)
  case (Cons a as)
  then show ?case using record_assessment_keeps [of s a] by (auto simp: same_candidate_def)
qed (simp add: same_candidate_def)

lemma reviewer_call:
  assumes "execute_solution_call sx c s = (s', r)" "ss_reviewer s"
  shows "same_candidate s s' \<and> (\<forall>key. page_recorded sx s r s' key)"
proof (cases "sc_name c = ''record_assessments''")
  case True
  then show ?thesis
    using assms record_assessments_keep
    by (auto simp: execute_solution_call_def record_assessments_def page_recorded_def Let_def split: option.splits)
next
  case False
  then show ?thesis
    using assms read_solution_recorded by (auto simp: execute_solution_call_def split: option.splits)
qed

subsection \<open>The pages a reviewer was sent are in the activity record\<close>

definition page_in_record :: "solution_service \<Rightarrow> conversation \<Rightarrow> page_key \<Rightarrow> nat \<times> nat \<Rightarrow> bool" where
  "page_in_record sx cn key ab \<longleftrightarrow>
     (\<exists>ev \<in> set (tl_events (cn_trace cn)). \<exists>p n.
        te_kind ev = ''tool'' \<and> te_phase ev = ''review'' \<and> te_session ev = cn_number cn \<and> te_status ev = ''completed'' \<and>
        te_output ev = sx_reply sx (SrPage p n) \<and> ab = (tp_offset p, tp_offset p + length (tp_content p)) \<and>
        tp_content p = slice (tp_offset p) (tp_offset p + length (tp_content p)) (page_source sx (cn_session cn) key))"

text \<open>A review of \<open>after\<close> is going on: nothing it depends on changes, and its pages are recorded.\<close>

definition under_review :: "solution_service \<Rightarrow> solution_input \<Rightarrow> (string \<rightharpoonup> string) \<Rightarrow> nat \<Rightarrow> conversation \<Rightarrow> bool" where
  "under_review sx inp after n cn \<longleftrightarrow>
     ss_reviewer (cn_session cn) \<and> ss_input (cn_session cn) = inp \<and> ss_after (cn_session cn) = after \<and> cn_number cn = n \<and>
     (si_trace inp \<longrightarrow> (\<forall>key. \<forall>ab \<in> set (ss_read (cn_session cn) key). page_in_record sx cn key ab))"

lemma page_in_record_later:
  assumes "page_in_record sx cn key ab" "page_source sx (cn_session cn') key = page_source sx (cn_session cn) key"
    "cn_number cn' = cn_number cn" "set (tl_events (cn_trace cn)) \<subseteq> set (tl_events (cn_trace cn'))"
  shows "page_in_record sx cn' key ab"
  using assms unfolding page_in_record_def by (auto 0 3)

lemma reviewing_later:
  assumes "under_review sx inp after n cn" "cn_session cn' = cn_session cn" "cn_number cn' = cn_number cn"
    "set (tl_events (cn_trace cn)) \<subseteq> set (tl_events (cn_trace cn'))"
  shows "under_review sx inp after n cn'"
  using assms page_in_record_later [OF _ _ assms(3,4)]
  by (auto simp: under_review_def)

lemma emit_event_facts:
  assumes "emit_event sx ev cn = (cn', ok)"
  shows "cn_session cn' = cn_session cn" "cn_number cn' = cn_number cn"
    "set (tl_events (cn_trace cn)) \<subseteq> set (tl_events (cn_trace cn'))"
    "ok \<Longrightarrow> si_trace (ss_input (cn_session cn)) \<Longrightarrow> ev \<in> set (tl_events (cn_trace cn'))"
  using assms by (auto simp: emit_event_def emit_trace_def split: prod.splits if_splits)

lemma new_event_facts:
  assumes "new_event kind summary cn = (cn', ev)"
  shows "cn_session cn' = cn_session cn" "cn_number cn' = cn_number cn" "cn_trace cn' = (cn_trace cn)\<lparr>tl_next := te_key ev\<rparr>"
    "te_kind ev = kind" "te_phase ev = solution_phase (ss_reviewer (cn_session cn))" "te_session ev = cn_number cn"
  using assms by (auto simp: new_event_def Let_def)

lemma reviewing_new_event: "new_event kind summary cn = (cn', ev) \<Longrightarrow> under_review sx inp after n cn \<Longrightarrow> under_review sx inp after n cn'"
  by (erule reviewing_later) (simp_all add: new_event_facts)

lemma reviewing_emit: "emit_event sx ev cn = (cn', ok) \<Longrightarrow> under_review sx inp after n cn \<Longrightarrow> under_review sx inp after n cn'"
  by (erule reviewing_later) (simp_all add: emit_event_facts)

lemma reviewing_complete:
  "complete_event sx ev out u err cn = (cn', ok) \<Longrightarrow> under_review sx inp after n cn \<Longrightarrow> under_review sx inp after n cn'"
  unfolding complete_event_def by (rule reviewing_emit)

lemma same_candidate_source: "same_candidate s s' \<Longrightarrow> page_source sx s' key = page_source sx s key"
  by (cases key) (simp_all add: same_candidate_def page_source_def)

lemma reviewing_after_call:
  assumes r: "under_review sx inp after n cn" and c: "same_candidate (cn_session cn) s"
    and rec: "\<And>key. page_recorded sx (cn_session cn) res s key"
    and done': "cn_session cn' = s" "cn_number cn' = cn_number cn"
      "set (tl_events (cn_trace cn)) \<subseteq> set (tl_events (cn_trace cn'))"
    and ev: "\<And>p k. si_trace inp \<Longrightarrow> res = Inr (SrPage p k) \<Longrightarrow>
      \<exists>ev \<in> set (tl_events (cn_trace cn')). te_kind ev = ''tool'' \<and> te_phase ev = ''review'' \<and>
        te_session ev = cn_number cn \<and> te_status ev = ''completed'' \<and> te_output ev = sx_reply sx (SrPage p k)"
  shows "under_review sx inp after n cn'"
proof -
  have "page_in_record sx cn' key ab" if t: "si_trace inp" and ab: "ab \<in> set (ss_read s key)" for key ab
  proof -
    have old: "page_in_record sx cn' key ab" if "ab \<in> set (ss_read (cn_session cn) key)"
    proof (rule page_in_record_later [OF _ _ done'(2,3)])
      show "page_in_record sx cn key ab" using r t that by (auto simp: under_review_def)
    qed (simp add: done' same_candidate_source [OF c])
    from rec [of key] show ?thesis
      unfolding page_recorded_def
    proof (elim disjE exE conjE)
      fix p k
      assume res: "res = Inr (SrPage p k)"
        and p: "tp_content p = slice (tp_offset p) (tp_offset p + length (tp_content p)) (page_source sx (cn_session cn) key)"
        and s: "ss_read s key = ss_read (cn_session cn) key @ [(tp_offset p, tp_offset p + length (tp_content p))]"
      show ?thesis
      proof (cases "ab \<in> set (ss_read (cn_session cn) key)")
        case False
        then have "ab = (tp_offset p, tp_offset p + length (tp_content p))" using ab s by auto
        then show ?thesis
          using ev [OF t res] p unfolding page_in_record_def done' same_candidate_source [OF c] by fast
      qed (rule old)
    qed (use ab old in simp)
  qed
  then show ?thesis using r c done' by (auto simp: under_review_def same_candidate_def)
qed

lemma traced_call_reviewing:
  assumes "traced_call sx c invalid cn = (cn', err, True)" "under_review sx inp after n cn"
  shows "under_review sx inp after n cn'"
proof -
  obtain cn1 ev0 where e: "new_event ''tool'' (tool_summary sx c) cn = (cn1, ev0)" by fastforce
  let ?ev = "ev0\<lparr>te_tool := sc_name c, te_call_id := sc_id c, te_arguments := sc_arguments c\<rparr>"
  obtain cn2 ok where m: "emit_event sx ?ev cn1 = (cn2, ok)" by fastforce
  obtain s r where x: "(if invalid then (cn_session cn2, Inl SoCallId) else execute_solution_call sx c (cn_session cn2)) = (s, r)"
    by fastforce
  obtain out err' where o': "call_result sx r = (out, err')" by fastforce
  have k: "complete_event sx ?ev out no_usage err' (cn2\<lparr>cn_session := s\<rparr>) = (cn', True)" "ok"
    using assms(1) e m x o' by (auto simp: traced_call_def split: if_splits prod.splits)
  note cf = emit_event_facts [OF k(1) [unfolded complete_event_def]]
  have r2: "under_review sx inp after n cn2"
    by (rule reviewing_emit [OF m reviewing_new_event [OF e assms(2)]])
  have call: "same_candidate (cn_session cn2) s \<and> (\<forall>key. page_recorded sx (cn_session cn2) r s key)"
    using x r2 reviewer_call by (auto simp: under_review_def split: if_splits)
  have "cn_number cn2 = cn_number cn" "ss_reviewer (cn_session cn)"
    using e m assms(2) by (simp_all add: emit_event_facts new_event_facts under_review_def)
  then have base: "te_kind ?ev = ''tool''" "te_phase ?ev = ''review''" "te_session ?ev = cn_number cn2"
    using new_event_facts [OF e] by (simp_all add: solution_phase_def)
  show ?thesis
  proof (rule reviewing_after_call [OF r2])
    show "\<exists>ev \<in> set (tl_events (cn_trace cn')). te_kind ev = ''tool'' \<and> te_phase ev = ''review'' \<and>
        te_session ev = cn_number cn2 \<and> te_status ev = ''completed'' \<and> te_output ev = sx_reply sx (SrPage p j)"
      if t: "si_trace inp" and res: "r = Inr (SrPage p j)" for p j
    proof -
      have "si_trace (ss_input s)" using t call r2 by (simp add: same_candidate_def under_review_def)
      then have "completed_event sx ?ev out no_usage err' \<in> set (tl_events (cn_trace cn'))"
        using cf(4) by simp
      moreover have "out = sx_reply sx (SrPage p j)" "err' = None" using o' res by (simp_all add: call_result_def)
      ultimately show ?thesis
        using base by (intro bexI [of _ "completed_event sx ?ev out no_usage err'"]) (simp_all add: completed_event_def)
    qed
    show "set (tl_events (cn_trace cn2)) \<subseteq> set (tl_events (cn_trace cn'))" using cf by simp
  qed (use call cf in simp_all)
qed

lemma run_solution_calls_reviewing:
  "run_solution_calls sx seen cs cn = (cn', StContinue) \<Longrightarrow> under_review sx inp after n cn \<Longrightarrow> under_review sx inp after n cn'"
proof (induction sx seen cs cn arbitrary: cn' rule: run_solution_calls.induct)
  case (2 sx seen c cs cn)
  let ?invalid = "sc_id c = [] \<or> length (sc_id c) > 1024 \<or> sc_id c \<in> seen"
  obtain cn1 err ok where t: "traced_call sx c ?invalid cn = (cn1, err, ok)" by (cases "traced_call sx c ?invalid cn")
  let ?next = "cn1\<lparr>cn_invalid := (if err = None then 0 else cn_invalid cn1 + 1)\<rparr>"
  have s: "ok" "\<not> ?invalid" "run_solution_calls sx (insert (sc_id c) seen) cs ?next = (cn', StContinue)"
    using 2(2) t by (auto split: if_splits)
  have "under_review sx inp after n cn1" using traced_call_reviewing [of sx c ?invalid cn cn1 err] t s(1) 2(3) by simp
  then have "under_review sx inp after n ?next" by (rule reviewing_later) simp_all
  with 2(1) [OF refl t [symmetric] refl _ s(2) s(3)] s(1) show ?case by simp
qed simp

lemma rebuild_context_reviewing:
  assumes "rebuild_context sx reason cn = (cn', StContinue)" "under_review sx inp after n cn"
  shows "under_review sx inp after n cn'"
proof -
  obtain cn1 ev cn2 where "new_event ''context'' ''Rebuilds the conversation from the saved work'' cn = (cn1, ev)"
      "complete_event sx ev (sx_reason sx reason) no_usage None cn1 = (cn2, True)" "cn' = cn2\<lparr>cn_invalid := cn_invalid cn2 + 1\<rparr>"
    using assms(1) by (auto simp: rebuild_context_def split: prod.splits if_splits)
  with reviewing_complete [OF this(2) reviewing_new_event [OF this(1) assms(2)]] show ?thesis
    by (auto elim: reviewing_later)
qed

text \<open>What the step of a conversation leads to: it goes on, or it decided what \<open>finish\<close> accepted.\<close>

definition went_on :: "solution_service \<Rightarrow> solution_input \<Rightarrow> (string \<rightharpoonup> string) \<Rightarrow> nat \<Rightarrow> conversation \<Rightarrow> solution_step \<Rightarrow> bool" where
  "went_on sx inp after n cn r \<longleftrightarrow>
     (case r of
        StContinue \<Rightarrow> under_review sx inp after n cn
      | StFailed e \<Rightarrow> True
      | StDecided d note \<Rightarrow> under_review sx inp after n cn \<and> (\<exists>txt. solution_finish sx txt (cn_session cn) = Inr (d, note)))"

lemma submit_decision_went_on:
  assumes "under_review sx inp after n cn" "submit_decision sx txt cn = (cn', r)"
  shows "went_on sx inp after n cn' r"
proof -
  obtain cn1 ev where e: "new_event ''decision'' ''The final decision'' cn = (cn1, ev)" by fastforce
  let ?out = "case sx_final sx txt of None \<Rightarrow> [] | Some d \<Rightarrow> sx_decision sx d"
  let ?err = "case solution_finish sx txt (cn_session cn) of Inl e \<Rightarrow> Some e | Inr _ \<Rightarrow> None"
  obtain cn2 ok where c: "complete_event sx ev ?out no_usage ?err cn1 = (cn2, ok)" by fastforce
  have r2: "under_review sx inp after n cn2" by (rule reviewing_complete [OF c reviewing_new_event [OF e assms(1)]])
  then have "under_review sx inp after n (cn2\<lparr>cn_invalid := cn_invalid cn2 + 1\<rparr>)" by (rule reviewing_later) simp_all
  moreover have "cn_session cn2 = cn_session cn"
    using emit_event_facts(1) [OF c [unfolded complete_event_def]] new_event_facts(1) [OF e] by simp
  ultimately show ?thesis
    using assms(2) e c r2 by (auto simp: submit_decision_def went_on_def Let_def split: sum.splits if_splits)
qed

lemma rebuild_context_went_on:
  "under_review sx inp after n cn \<Longrightarrow> rebuild_context sx reason cn = (cn', r) \<Longrightarrow> went_on sx inp after n cn' r"
  using rebuild_context_reviewing [of sx reason cn cn' inp after n]
  by (auto simp: went_on_def rebuild_context_def split: prod.splits if_splits)

lemma run_solution_calls_went_on:
  assumes "under_review sx inp after n cn" "run_solution_calls sx seen cs cn = (cn', r)"
  shows "went_on sx inp after n cn' r"
proof -
  have "r = StContinue \<or> (\<exists>e. r = StFailed e)"
    using assms(2) by (induction sx seen cs cn rule: run_solution_calls.induct) (auto simp: Let_def split: prod.splits if_splits)
  then show ?thesis using run_solution_calls_reviewing assms by (auto simp: went_on_def)
qed

lemma handle_response_went_on:
  assumes r: "under_review sx inp after n cn" and h: "handle_response sx res cn = (cn', r)"
  shows "went_on sx inp after n cn' r"
proof -
  have action_ok: "under_review sx inp after n (next_action action cn)" for action
    using r by (rule reviewing_later) (simp_all add: next_action_def)
  have failed: ?thesis if "r = StFailed e" for e using that by (simp add: went_on_def)
  show ?thesis
  proof (cases res)
    case (RrFailed limit e)
    then show ?thesis using h rebuild_context_went_on [OF r] failed by (auto simp: handle_response_def split: if_splits)
  next
    case (RrGot completion out)
    then show ?thesis
      using h rebuild_context_went_on [OF r] failed
        run_solution_calls_went_on [OF action_ok] submit_decision_went_on [OF action_ok]
      by (cases completion; cases out) (auto simp: handle_response_def Let_def split: if_splits)
  qed
qed

lemma conversation_turn_went_on:
  assumes r: "under_review sx inp after n cn" and t: "conversation_turn sx t cn = (cn', r)"
  shows "went_on sx inp after n cn' r"
proof (cases "\<exists>e. r = StFailed e")
  case False
  let ?cn1 = "cn\<lparr>cn_turn := cn_turn cn + 1\<rparr>"
  obtain cn2 ev where e: "new_event ''request'' ''Asks for a response'' ?cn1 = (cn2, ev)" by fastforce
  obtain cn3 ok where m: "emit_event sx ev cn2 = (cn3, ok)" by fastforce
  obtain evs delta res where p: "solution_response sx (ss_input (cn_session cn3)) t = (evs, delta, res)"
    by (cases "solution_response sx (ss_input (cn_session cn3)) t")
  let ?cn3 = "cn3\<lparr>cn_usage := add_review_usage (cn_usage cn3) delta, cn_accounting := cn_accounting cn3 @ evs\<rparr>"
  obtain cn4 ok4 where c: "complete_event sx ev [] delta (response_error res) ?cn3 = (cn4, ok4)" by fastforce
  have h: "handle_response sx res cn4 = (cn', r)"
    using t False e m p c by (auto simp: conversation_turn_def Let_def split: if_splits)
  have "under_review sx inp after n ?cn1" using r by (rule reviewing_later) simp_all
  then have "under_review sx inp after n cn3" by (rule reviewing_emit [OF m reviewing_new_event [OF e]])
  then have "under_review sx inp after n ?cn3" by (rule reviewing_later) simp_all
  then show ?thesis by (rule handle_response_went_on [OF reviewing_complete [OF c] h])
qed (auto simp: went_on_def)

lemma conversation_loop_went_on:
  "under_review sx inp after n cn \<Longrightarrow> conversation_loop sx ts cn = (cn', r, rest) \<Longrightarrow> went_on sx inp after n cn' r"
proof (induction sx ts cn arbitrary: cn' r rule: conversation_loop.induct)
  case (1 sx cn)
  then show ?case by (auto simp: went_on_def)
next
  case (2 sx t ts cn)
  obtain cn1 r1 where t: "conversation_turn sx t cn = (cn1, r1)" by fastforce
  have w: "went_on sx inp after n cn1 r1" by (rule conversation_turn_went_on [OF 2(2) t])
  show ?case
  proof (cases r1)
    case StContinue
    then show ?thesis using 2(1) [OF t [symmetric]] 2(3) t w by (simp add: went_on_def)
  qed (use 2(3) t w in \<open>auto simp: went_on_def\<close>)
qed

lemma reviewed_conversation:
  assumes "run_conversation sx s ts cn = (cn', StDecided d note, rest)" "ss_reviewer s" "ss_read s = (\<lambda>_. [])"
  shows "under_review sx (ss_input s) (ss_after s) (cn_number cn') cn' \<and> (\<exists>txt. solution_finish sx txt (cn_session cn') = Inr (d, note))"
proof -
  let ?start = "begin_conversation s cn"
  have start: "under_review sx (ss_input s) (ss_after s) (cn_number ?start) ?start"
    using assms(2,3) by (simp add: under_review_def begin_conversation_def Let_def)
  obtain cn1 entry where e: "new_event ''session'' ''Reviewer'' ?start = (cn1, entry)" by fastforce
  obtain cn2 ok where m: "emit_event sx entry cn1 = (cn2, ok)" by fastforce
  obtain cn3 r rest' where l: "conversation_loop sx ts cn2 = (cn3, r, rest')" by (cases "conversation_loop sx ts cn2")
  obtain cn4 ok4 where c: "complete_event sx entry [] (usage_difference (cn_usage cn3) (cn_usage cn2)) (step_error r) cn3 = (cn4, ok4)"
    by fastforce
  have d: "r = StDecided d note" "cn4 = cn'"
    using assms(1,2) e m l c by (auto simp: run_conversation_def split: if_splits solution_step.splits)
  have "under_review sx (ss_input s) (ss_after s) (cn_number ?start) cn2"
    by (rule reviewing_emit [OF m reviewing_new_event [OF e start]])
  from conversation_loop_went_on [OF this l] d(1)
  have w: "under_review sx (ss_input s) (ss_after s) (cn_number ?start) cn3" "\<exists>txt. solution_finish sx txt (cn_session cn3) = Inr (d, note)"
    by (simp_all add: went_on_def)
  from reviewing_complete [OF c w(1)] d(2) have "under_review sx (ss_input s) (ss_after s) (cn_number ?start) cn'" by simp
  moreover from this have "cn_number cn' = cn_number ?start" by (simp add: under_review_def)
  ultimately show ?thesis
    using w(2) d(2) emit_event_facts(1) [OF c [unfolded complete_event_def]] by simp
qed

subsection \<open>What the tools keep, the conversation keeps\<close>

locale session_kept =
  fixes sx :: solution_service and P :: "solution_session \<Rightarrow> bool"
  assumes call_kept: "P s \<Longrightarrow> execute_solution_call sx c s = (s', r) \<Longrightarrow> P s'"
begin

lemma traced_call_kept:
  assumes "traced_call sx c invalid cn = (cn', err, ok)" "P (cn_session cn)"
  shows "P (cn_session cn')"
  using assms call_kept
  by (auto simp: traced_call_def Let_def complete_event_def new_event_facts emit_event_facts split: prod.splits if_splits)

lemma run_solution_calls_kept:
  "run_solution_calls sx seen cs cn = (cn', r) \<Longrightarrow> P (cn_session cn) \<Longrightarrow> P (cn_session cn')"
proof (induction sx\<equiv>sx seen cs cn arbitrary: cn' r rule: run_solution_calls.induct)
  case (2 seen c cs cn)
  let ?invalid = "sc_id c = [] \<or> length (sc_id c) > 1024 \<or> sc_id c \<in> seen"
  obtain cn1 err ok where t: "traced_call sx c ?invalid cn = (cn1, err, ok)" by (cases "traced_call sx c ?invalid cn")
  have p: "P (cn_session cn1)" by (rule traced_call_kept [OF t 2(3)])
  show ?case
  proof (cases "ok \<and> \<not> ?invalid")
    case True
    then show ?thesis using 2(1) [OF refl t [symmetric] refl _ _ _ , of cn' r] 2(2) t p by simp
  next
    case False
    then have "cn' = cn1" using 2(2) t by (auto split: if_splits)
    then show ?thesis using p by simp
  qed
qed simp

lemma handle_response_kept:
  assumes "handle_response sx res cn = (cn', r)" "P (cn_session cn)"
  shows "P (cn_session cn')"
proof -
  have rebuilt: "P (cn_session cn')" if "rebuild_context sx reason cn = (cn', r)" for reason
    using that assms(2)
    by (auto simp: rebuild_context_def complete_event_def new_event_facts emit_event_facts split: prod.splits if_splits)
  have step: "cn_session (next_action action cn) = cn_session cn" for action by (simp add: next_action_def)
  have submitted: "P (cn_session cn')" if "submit_decision sx msg (next_action action cn) = (cn', r)" for msg action
    using that assms(2) step
    by (auto simp: submit_decision_def Let_def complete_event_def new_event_facts emit_event_facts
        split: prod.splits if_splits sum.splits)
  show ?thesis
  proof (cases res)
    case (RrFailed limit e)
    then show ?thesis using assms rebuilt by (auto simp: handle_response_def split: if_splits)
  next
    case (RrGot completion out)
    then show ?thesis
      using assms rebuilt submitted run_solution_calls_kept step
      by (cases completion; cases out) (auto simp: handle_response_def Let_def split: if_splits)
  qed
qed

lemma conversation_turn_kept:
  assumes "conversation_turn sx t cn = (cn', r)" "P (cn_session cn)"
  shows "P (cn_session cn')"
  using assms
  by (auto simp: conversation_turn_def Let_def complete_event_def new_event_facts emit_event_facts
      dest!: handle_response_kept split: prod.splits if_splits)

lemma conversation_loop_kept:
  "conversation_loop sx ts cn = (cn', r, rest) \<Longrightarrow> P (cn_session cn) \<Longrightarrow> P (cn_session cn')"
proof (induction sx\<equiv>sx ts cn arbitrary: cn' r rule: conversation_loop.induct)
  case (2 t ts cn)
  obtain cn1 r1 where t: "conversation_turn sx t cn = (cn1, r1)" by fastforce
  then have p: "P (cn_session cn1)" using conversation_turn_kept 2(3) by blast
  show ?case
  proof (cases r1)
    case StContinue
    then show ?thesis using 2(1) [OF t [symmetric]] 2(2) t p by simp
  qed (use 2(2) t p in auto)
qed simp

lemma run_conversation_kept:
  "run_conversation sx s ts cn = (cn', r, rest) \<Longrightarrow> P s \<Longrightarrow> P (cn_session cn')"
  by (auto simp: run_conversation_def begin_conversation_def complete_event_def new_event_facts emit_event_facts Let_def
      dest!: conversation_loop_kept split: prod.splits if_splits solution_step.splits)

end

text \<open>An editor: its input, and that every staged edit is attributed within the fixed scopes.\<close>

definition in_scope :: "solution_input \<Rightarrow> string \<Rightarrow> rule_id list \<Rightarrow> bool" where
  "in_scope inp file ids \<longleftrightarrow> (\<forall>rid \<in> set ids. rid \<in> so_id ` set (si_rules inp) \<and> rule_applies inp rid file)"

definition editing :: "solution_input \<Rightarrow> solution_session \<Rightarrow> bool" where
  "editing inp s \<longleftrightarrow> \<not> ss_reviewer s \<and> ss_input s = inp \<and>
     (\<forall>(file, es) \<in> set (ss_staged s). \<forall>e \<in> set es. in_scope inp file (sg_rule_ids e))"

lemma staged_edits_in_scope:
  "stage_solution_edits inp f seen es staged = Inr staged' \<Longrightarrow> \<forall>e \<in> set staged. in_scope inp f (sg_rule_ids e) \<Longrightarrow>
     \<forall>e \<in> set staged'. in_scope inp f (sg_rule_ids e)"
proof (induction inp f seen es staged arbitrary: staged' rule: stage_solution_edits.induct)
  case (2 inp f seen e es staged)
  let ?f = "\<lambda>rid. if rid \<notin> so_id ` set (si_rules inp) then Some SoAttribution
      else if \<not> rule_applies inp rid f then Some SoAttributionScope else None"
  have n: "first_error ?f (sg_rule_ids e) = None" "\<not> (\<not> valid_rule_id (sg_id e) \<or> sg_id e \<in> seen)"
      "stage_solution_edits inp f (insert (sg_id e) seen) es (upsert_key sg_id e staged) = Inr staged'"
    using 2(2) by (auto split: if_splits option.splits)
  then have "in_scope inp f (sg_rule_ids e)" by (auto simp: first_error_None in_scope_def split: if_splits)
  then have "\<forall>x \<in> set (upsert_key sg_id e staged). in_scope inp f (sg_rule_ids x)"
    using 2(3) set_upsert_key_subset [of sg_id e staged] by auto
  from 2(1) [OF n(2,1,3) this] show ?case .
qed auto

lemma staged_of_in_scope: "editing inp s \<Longrightarrow> e \<in> set (staged_of s file) \<Longrightarrow> in_scope inp file (sg_rule_ids e)"
  by (auto simp: staged_of_def editing_def dest: map_of_SomeD split: option.splits) (metis (mono_tags, lifting) case_prodD map_of_SomeD)

lemma editing_staged:
  assumes "editing inp s" "\<forall>e \<in> set es. in_scope inp file (sg_rule_ids e)"
    "ss_reviewer s' = ss_reviewer s" "ss_input s' = ss_input s" "ss_staged s' = upsert_key fst (file, es) (ss_staged s)"
  shows "editing inp s'"
proof -
  have "set (ss_staged s') \<subseteq> insert (file, es) (set (ss_staged s))"
    using set_upsert_key_subset [of fst "(file, es)" "ss_staged s"] assms(5) by auto
  then show ?thesis using assms unfolding editing_def by blast
qed

lemma stage_solution_editing:
  assumes "stage_solution sx args s = (s', r)" "editing inp s"
  shows "editing inp s'"
proof -
  have i: "ss_input s = inp" using assms(2) by (simp add: editing_def)
  consider "s' = s" | a staged where "args = Some a"
      "stage_solution_edits inp (sa_file a) {} (sa_edits a)
         (filter (\<lambda>e. sg_id e \<notin> set (sa_removed a)) (staged_of s (sa_file a))) = Inr staged"
      "ss_reviewer s' = ss_reviewer s" "ss_input s' = ss_input s"
      "ss_staged s' = upsert_key fst (sa_file a, staged) (ss_staged s) \<or>
       ss_staged s' = upsert_key fst (sa_file a, staged_of s (sa_file a)) (ss_staged s)"
    using assms(1) i by (auto simp: stage_solution_def Let_def split: option.splits sum.splits if_splits)
  then show ?thesis
  proof cases
    case (2 a staged)
    have old: "\<forall>e \<in> set (staged_of s (sa_file a)). in_scope inp (sa_file a) (sg_rule_ids e)"
      using staged_of_in_scope [OF assms(2)] by blast
    with staged_edits_in_scope [OF 2(2)] have new: "\<forall>e \<in> set staged. in_scope inp (sa_file a) (sg_rule_ids e)" by auto
    from 2(5) show ?thesis using editing_staged [OF assms(2) old 2(3,4)] editing_staged [OF assms(2) new 2(3,4)] by blast
  qed (use assms(2) in simp)
qed

lemma editor_call_editing:
  assumes "execute_solution_call sx c s = (s', r)" "editing inp s"
  shows "editing inp s'"
proof (cases "sc_name c = ''stage_edits''")
  case True
  then have "stage_solution sx (sx_stage_args sx (sc_arguments c)) s = (s', r)"
    using assms by (simp add: execute_solution_call_def editing_def)
  then show ?thesis by (rule stage_solution_editing [OF _ assms(2)])
next
  case False
  have "same_candidate s s'"
    using assms False read_solution_recorded
    by (auto simp: execute_solution_call_def editing_def split: option.splits)
  then show ?thesis using assms(2) by (auto simp: editing_def same_candidate_def)
qed

interpretation editor_kept: session_kept sx "editing inp"
  by unfold_locales (rule editor_call_editing)

subsection \<open>An approved proposal\<close>

lemma run_solution_calls_result:
  "run_solution_calls sx seen cs cn = (cn', r) \<Longrightarrow> r = StContinue \<or> (\<exists>e. r = StFailed e)"
  by (induction sx seen cs cn rule: run_solution_calls.induct) (auto simp: Let_def split: prod.splits if_splits)

lemma turn_decided:
  assumes "conversation_turn sx t cn = (cn', StDecided d note)"
  shows "\<exists>answer. solution_finish sx answer (cn_session cn') = Inr (d, note)"
proof -
  have submitted: "\<exists>answer. solution_finish sx answer (cn_session cn') = Inr (d, note)"
    if "submit_decision sx msg cn1 = (cn', StDecided d note)" for msg cn1
    using that
    by (auto simp: submit_decision_def Let_def complete_event_def new_event_facts emit_event_facts
        split: prod.splits if_splits sum.splits intro!: exI [of _ msg])
  have calls: "run_solution_calls sx seen cs cn1 \<noteq> (cn', StDecided d note)" for seen cs cn1
    using run_solution_calls_result [of sx seen cs cn1 cn' "StDecided d note"] by auto
  have rebuilt: "rebuild_context sx reason cn1 \<noteq> (cn', StDecided d note)" for reason cn1
    by (auto simp: rebuild_context_def split: prod.splits)
  obtain res cn1 where "handle_response sx res cn1 = (cn', StDecided d note)"
    using assms by (auto simp: conversation_turn_def Let_def split: prod.splits if_splits)
  then show ?thesis
    using submitted calls rebuilt
    by (auto simp: handle_response_def Let_def split: response_result.splits completion.splits solution_output.splits if_splits)
qed

lemma conversation_decided:
  "conversation_loop sx ts cn = (cn', StDecided d note, rest) \<Longrightarrow>
     \<exists>answer. solution_finish sx answer (cn_session cn') = Inr (d, note)"
proof (induction sx ts cn rule: conversation_loop.induct)
  case (2 sx t ts cn)
  obtain cn1 r1 where t: "conversation_turn sx t cn = (cn1, r1)" by fastforce
  show ?case
  proof (cases r1)
    case StContinue
    then show ?thesis using 2(1) [OF t [symmetric]] 2(2) t by simp
  qed (use 2(2) t turn_decided in auto)
qed (auto split: if_splits)

lemma editor_conversation:
  assumes "run_conversation sx s ts cn = (cn', StDecided d note, rest)" "editing inp s"
  shows "editing inp (cn_session cn') \<and> (\<exists>answer. solution_finish sx answer (cn_session cn') = Inr (d, note))"
proof -
  obtain cn1 cn2 where "conversation_loop sx ts cn1 = (cn2, StDecided d note, rest)" "cn_session cn' = cn_session cn2"
    using run_conversation_decided [OF assms(1)] by metis
  then show ?thesis
    using conversation_decided [of sx ts cn1 cn2 d _ rest] editor_kept.run_conversation_kept [OF assms] by simp
qed

text \<open>The keys a reviewer has to read: the manifest, the build output, the rules and both texts of every file.\<close>

definition required_keys :: "solution_input \<Rightarrow> page_key set" where
  "required_keys inp = {PkManifest, PkBuild} \<union> (PkRule \<circ> so_id) ` set (si_rules inp) \<union>
     (PkOriginal \<circ> fst) ` set (si_files inp) \<union> (PkCandidate \<circ> fst) ` set (si_files inp)"

lemma checked_input_distinct:
  assumes "check_solution_rules ids rules" "find (\<lambda>r. so_id r = rid) rules = Some r" "q \<in> set rules" "so_id q = rid"
  shows "q = r"
  using assms
proof (induction ids rules rule: check_solution_rules.induct)
  case (2 ids x rs)
  have later: "so_id q \<notin> ids'" if "check_solution_rules ids' rs" "q \<in> set rs" for ids' q
    using that by (induction ids' rs rule: check_solution_rules.induct) auto
  show ?case
    using 2 later [of "insert (so_id x) ids"] by (cases "so_id x = rid") auto
qed simp

lemma cloned_input:
  assumes "clone_solution_input inp = Inr checked"
  shows "si_files checked = si_files inp" "si_rules checked = si_rules inp" "si_trace checked = si_trace inp"
    "check_solution_rules {} (si_rules inp)"
  using assms by (auto simp: clone_solution_input_def Let_def split: if_splits option.splits)

lemma passed_finish:
  assumes f: "solution_finish sx answer s = Inr (''passed'', note)" and r: "ss_reviewer s"
    and rules: "check_solution_rules {} (si_rules (ss_input s))" and files: "distinct (map fst (si_files (ss_input s)))"
  shows "\<forall>key \<in> required_keys (ss_input s). covered_review_bytes (ss_read s key) (length (page_source sx s key))"
    "\<forall>r \<in> set (si_rules (ss_input s)). passing (ss_assessments s (so_id r)) \<and>
       (si_rule_files (ss_input s) \<noteq> None \<longrightarrow> (\<forall>file \<in> set (rule_files (ss_input s) (so_id r)).
          passing (ss_file_assessments s (so_id r) file)))"
proof -
  let ?inp = "ss_input s"
  have e: "read_evidence sx s = None" "first_error (unread_file s) (si_files ?inp) = None"
      "first_error (unassessed s) (si_rules ?inp) = None"
    using f r by (auto simp: solution_finish_def split: option.splits if_splits)
  have "covered_review_bytes (ss_read s (PkRule (so_id r))) (length (page_source sx s (PkRule (so_id r))))"
    if r': "r \<in> set (si_rules ?inp)" for r
  proof -
    obtain q where q: "find (\<lambda>x. so_id x = so_id r) (si_rules ?inp) = Some q"
      using r' by (cases "find (\<lambda>x. so_id x = so_id r) (si_rules ?inp)") (auto simp: find_None_iff)
    from checked_input_distinct [OF rules q r'] have "page_source sx s (PkRule (so_id r)) = so_body r"
      using q by (simp add: page_source_def)
    moreover have "unread_rule s r = None"
      using e(1) r' by (auto simp: read_evidence_def Let_def first_error_None split: if_splits)
    ultimately show ?thesis by (simp add: unread_rule_def split: if_splits)
  qed
  moreover have "covered_review_bytes (ss_read s (PkOriginal (fst p))) (length (page_source sx s (PkOriginal (fst p)))) \<and>
      covered_review_bytes (ss_read s (PkCandidate (fst p))) (length (page_source sx s (PkCandidate (fst p))))"
    if p: "p \<in> set (si_files ?inp)" for p
  proof -
    have "map_of (si_files ?inp) (fst p) = Some (snd p)" using p files by (simp add: map_of_eq_Some_iff)
    moreover have "unread_file s p = None" using e(2) p by (simp add: first_error_None)
    ultimately show ?thesis by (simp add: unread_file_def page_source_def lookup_text_def split: if_splits)
  qed
  moreover have "covered_review_bytes (ss_read s PkManifest) (length (page_source sx s PkManifest)) \<and>
      covered_review_bytes (ss_read s PkBuild) (length (page_source sx s PkBuild))"
    using e(1) by (simp add: read_evidence_def page_source_def Let_def split: if_splits)
  ultimately show "\<forall>key \<in> required_keys ?inp. covered_review_bytes (ss_read s key) (length (page_source sx s key))"
    by (auto simp: required_keys_def)
  show "\<forall>r \<in> set (si_rules ?inp). passing (ss_assessments s (so_id r)) \<and>
       (si_rule_files ?inp \<noteq> None \<longrightarrow> (\<forall>file \<in> set (rule_files ?inp (so_id r)). passing (ss_file_assessments s (so_id r) file)))"
    using e(3) by (auto simp: first_error_None unassessed_def Let_def split: if_splits option.splits)
qed

text \<open>One byte of a text, in a page the reviewer was sent and that the activity record holds.\<close>

definition byte_shown :: "solution_service \<Rightarrow> conversation \<Rightarrow> page_key \<Rightarrow> nat \<Rightarrow> bool" where
  "byte_shown sx cn key i \<longleftrightarrow>
     (\<exists>ev \<in> set (tl_events (cn_trace cn)). \<exists>p n.
        te_kind ev = ''tool'' \<and> te_phase ev = ''review'' \<and> te_session ev = cn_number cn \<and> te_status ev = ''completed'' \<and>
        te_output ev = sx_reply sx (SrPage p n) \<and> tp_offset p \<le> i \<and> i < tp_offset p + length (tp_content p) \<and>
        tp_content p ! (i - tp_offset p) = page_source sx (cn_session cn) key ! i)"

lemma reviewing_shown:
  assumes r: "under_review sx inp after n cn" and t: "si_trace inp"
    and c: "covered_review_bytes (ss_read (cn_session cn) key) len" and i: "i < len"
  shows "byte_shown sx cn key i"
proof -
  obtain a b where ab: "(a, b) \<in> set (ss_read (cn_session cn) key)" "a \<le> i" "i < b"
    using covered_review_bytes_sound [OF c i] by (auto simp: in_ranges_def)
  have "page_in_record sx cn key (a, b)" using r t ab(1) by (auto simp: under_review_def)
  then obtain ev p m where e: "ev \<in> set (tl_events (cn_trace cn))" "te_kind ev = ''tool''" "te_phase ev = ''review''"
      "te_session ev = cn_number cn" "te_status ev = ''completed''" "te_output ev = sx_reply sx (SrPage p m)"
      "a = tp_offset p" "b = tp_offset p + length (tp_content p)"
      "tp_content p = slice (tp_offset p) (tp_offset p + length (tp_content p)) (page_source sx (cn_session cn) key)"
    by (auto simp: page_in_record_def)
  let ?src = "page_source sx (cn_session cn) key" and ?j = "i - tp_offset p"
  have j: "?j < length (tp_content p)" using ab e(7,8) by simp
  have content: "tp_content p = take (length (tp_content p)) (drop (tp_offset p) ?src)"
    using e(9) by (simp add: slice_def)
  have "length (tp_content p) \<le> length ?src - tp_offset p" using arg_cong [OF content, of length] by simp
  then have "drop (tp_offset p) ?src ! ?j = ?src ! i" using j ab e(7) by (simp add: nth_drop)
  then have "tp_content p ! ?j = ?src ! i" using j by (subst content) simp
  then show ?thesis using e ab unfolding byte_shown_def by blast
qed

definition approved_outcome ::
  "solution_service \<Rightarrow> solution_input \<Rightarrow> solution_proposal \<Rightarrow> solution_review list \<Rightarrow> conversation \<Rightarrow> bool" where
  "approved_outcome sx checked p reviews cn \<longleftrightarrow>
     (\<exists>after. apply_solution_edits (map_of (si_files checked)) (sp_files p) = Inr after \<and>
        under_review sx checked after (cn_number cn) cn \<and>
        (\<exists>note answer. solution_finish sx answer (cn_session cn) = Inr (''passed'', note)) \<and>
        reviews \<noteq> [] \<and> sv_verdict (last reviews) = ''passed'' \<and>
        sv_candidate_hashes (last reviews) = map (\<lambda>q. (fst q, sx_hash sx (lookup_text after (fst q)))) (si_files checked))
     \<and> (sp_status p = ''modified'' \<or> sp_status p = ''skipped'') \<and> (sp_status p = ''modified'') = (sp_files p \<noteq> [])
     \<and> (\<forall>f \<in> set (sp_files p). in_scope checked (fe_file f) (fe_rule_ids f))"

lemma editor_finish:
  assumes "solution_finish sx answer s = Inr (d, note)" "\<not> ss_reviewer s" "d \<noteq> ''needs_human''"
  shows "(d = ''modified'' \<or> d = ''skipped'') \<and> (d = ''modified'') = (fst (session_proposal (ss_staged s)) \<noteq> [])"
  using assms by (auto simp: solution_finish_def split: option.splits if_splits)

lemma proposal_in_scope:
  assumes "editing inp s" "f \<in> set (fst (session_proposal (ss_staged s)))"
  shows "in_scope inp (fe_file f) (fe_rule_ids f)"
  using assms by (auto simp: session_proposal_def file_entry_def attributed_rules_def in_scope_def editing_def) blast+

lemma solution_round_approved:
  assumes "solution_round sx s rejected ts cn = (cn', rvs, RoundDone p, rest)" "editing checked s" "sp_status p \<noteq> ''needs_human''"
  shows "approved_outcome sx checked p (reviews @ rvs) cn'"
proof -
  obtain cn1 decision msg rest1 where e: "run_conversation sx s ts cn = (cn1, StDecided decision msg, rest1)"
      "decision \<noteq> ''needs_human''"
    using assms(1,3) by (auto simp: solution_round_def split: prod.splits solution_step.splits if_splits)
  define s1 where "s1 = cn_session cn1"
  define proposed where "proposed = session_proposal (ss_staged s1)"
  have i: "ss_input s = checked" using assms(2) by (simp add: editing_def)
  obtain after where a: "apply_solution_edits (map_of (si_files checked)) (fst proposed) = Inr after"
    using assms(1,3) e by (auto simp: solution_round_def Let_def i s1_def proposed_def split: sum.splits)
  let ?s2 = "(new_solution_session checked True)\<lparr>ss_after := after\<rparr>"
  obtain cn2 step rest2 where v: "run_conversation sx ?s2 rest1 cn1 = (cn2, step, rest2)"
    by (cases "run_conversation sx ?s2 rest1 cn1")
  have d: "cn' = cn2" "fst proposed \<notin> set rejected"
      "\<exists>summary. step = StDecided ''passed'' summary \<and> sp_status p = decision \<and> sp_files p = fst proposed \<and>
         rvs = [review_evidence sx ''passed'' summary (cn_session cn2) after (usage_difference (cn_usage cn2) (cn_usage cn1))]"
    using assms(1,3) e v a
    by (auto simp: solution_round_def Let_def i s1_def proposed_def split: solution_step.splits if_splits)
  then obtain summary where p: "step = StDecided ''passed'' summary" "sp_status p = decision" "sp_files p = fst proposed"
      "rvs = [review_evidence sx ''passed'' summary (cn_session cn2) after (usage_difference (cn_usage cn2) (cn_usage cn1))]"
    by blast
  have ed: "editing checked s1" "\<exists>answer. solution_finish sx answer s1 = Inr (decision, msg)"
    using editor_conversation [OF e(1) assms(2)] by (simp_all add: s1_def)
  have rv: "under_review sx checked after (cn_number cn2) cn2" "\<exists>answer. solution_finish sx answer (cn_session cn2) = Inr (''passed'', summary)"
    using reviewed_conversation [of sx ?s2 rest1 cn1 cn2 "''passed''" summary rest2] v p(1)
    by (simp_all add: new_solution_session_def)
  have "(decision = ''modified'' \<or> decision = ''skipped'') \<and> (decision = ''modified'') = (fst proposed \<noteq> [])"
    using editor_finish [OF _ _ e(2), of sx _ s1 msg] ed by (auto simp: proposed_def editing_def)
  moreover have "\<forall>f \<in> set (sp_files p). in_scope checked (fe_file f) (fe_rule_ids f)"
    using proposal_in_scope [OF ed(1)] p(3) by (simp add: proposed_def)
  moreover have "sv_candidate_hashes (last (reviews @ rvs)) = map (\<lambda>q. (fst q, sx_hash sx (lookup_text after (fst q)))) (si_files checked)"
    using rv(1) p(4) by (simp add: review_evidence_def under_review_def Let_def)
  ultimately show ?thesis
    unfolding approved_outcome_def using a rv p d(1) by (auto simp: review_evidence_def Let_def)
qed

lemma solution_rounds_approved:
  assumes "solution_rounds sx s rejected reviews ts cn = (cn', reviews', Inr p)" "editing checked s" "sp_status p \<noteq> ''needs_human''"
  shows "approved_outcome sx checked p reviews' cn'"
  using assms
proof (induction sx s rejected reviews ts cn rule: solution_rounds.induct)
  case (1 sx s rejected reviews ts cn)
  obtain cn1 rvs res rest where r: "solution_round sx s rejected ts cn = (cn1, rvs, res, rest)"
    by (cases "solution_round sx s rejected ts cn")
  note run = 1(2) [unfolded solution_rounds.simps [of sx s rejected reviews ts cn] r]
  show ?case
  proof (cases res)
    case (RoundDone q)
    then show ?thesis using run r 1(3,4) solution_round_approved [of sx s rejected ts cn cn1 rvs q rest checked reviews] by simp
  next
    case (RoundRejected s' c)
    have "editing checked s'"
    proof -
      obtain cn2 d msg rest2 where e: "run_conversation sx s ts cn = (cn2, StDecided d msg, rest2)"
          "ss_staged s' = ss_staged (cn_session cn2)" "ss_input s' = ss_input (cn_session cn2)" "ss_reviewer s' = ss_reviewer (cn_session cn2)"
        using r RoundRejected
        by (auto simp: solution_round_def Let_def split: prod.splits solution_step.splits if_splits sum.splits)
      then show ?thesis using editor_conversation [OF e(1) 1(3)] by (simp add: editing_def)
    qed
    then show ?thesis using 1(1) [OF r [symmetric] refl refl] run 1(4) RoundRejected by simp
  qed (use run in simp)
qed

lemma run_solution_approved:
  assumes "run_solution sx inp ts = (cn, reviews, Inr p)" "sp_status p \<noteq> ''needs_human''"
  obtains checked where "clone_solution_input inp = Inr checked" "approved_outcome sx checked p reviews cn"
proof -
  obtain checked where c: "clone_solution_input inp = Inr checked"
      "solution_rounds sx (new_solution_session checked False) [] [] ts (no_conversation checked) = (cn, reviews, Inr p)"
    using assms(1) by (auto simp: run_solution_def split: sum.splits if_splits)
  have "editing checked (new_solution_session checked False)" by (simp add: new_solution_session_def editing_def)
  from that [OF c(1) solution_rounds_approved [OF c(2) this assms(2)]] show ?thesis .
qed

lemma cloned_scope:
  assumes "clone_solution_input inp = Inr checked"
  shows "set (rule_files checked rid) = set (rule_files inp rid)" "in_scope checked f ids = in_scope inp f ids"
proof -
  have sorted: "map_of (map (\<lambda>(rid, ts). (rid, sort ts)) scopes) rid = map_option sort (map_of scopes rid)"
    for scopes :: "(rule_id \<times> string list) list" and rid
    by (induction scopes) auto
  have "si_rule_files checked = map_option (map (\<lambda>(rid, ts). (rid, sort ts))) (si_rule_files inp)"
    using assms by (auto simp: clone_solution_input_def Let_def split: if_splits option.splits)
  then have files: "set (rule_files checked rid) = set (rule_files inp rid)" for rid
    using cloned_input(1) [OF assms]
    by (cases "si_rule_files inp"; cases "map_of (the (si_rule_files inp)) rid")
       (simp_all add: rule_files_def scope_of_def sorted)
  then show "set (rule_files checked rid) = set (rule_files inp rid)" .
  show "in_scope checked f ids = in_scope inp f ids"
    using files cloned_input(2) [OF assms] by (simp add: in_scope_def rule_applies_def list_ex_iff)
qed

text \<open>
  C16. A proposal for a whole solution is returned only after an independent review of exactly that
  candidate. Whatever the provider answers in however many rounds, when the run returns edits, they
  apply to the authorized files; the last conversation is a reviewer's, over the text those edits
  produce; every byte of the manifest, the build output, every rule and both versions of every file was
  in a page that was sent to it and saved in the activity record; it passed every rule, in every file
  of the rule's fixed scope; the recorded hashes are those of that text; and no edit names a rule
  outside the rule's scope.
\<close>

theorem solution_approved_by_review:
  assumes "run_solution sx inp ts = (cn, reviews, Inr p)" "sp_status p \<noteq> ''needs_human''"
    and "distinct (map fst (si_files inp))" "si_trace inp"
  shows "\<exists>after. apply_solution_edits (map_of (si_files inp)) (sp_files p) = Inr after
    \<and> ss_reviewer (cn_session cn) \<and> ss_after (cn_session cn) = after
    \<and> (\<forall>key \<in> required_keys inp. \<forall>i < length (page_source sx (cn_session cn) key). byte_shown sx cn key i)
    \<and> (\<forall>r \<in> set (si_rules inp). passing (ss_assessments (cn_session cn) (so_id r)) \<and>
         (si_rule_files inp \<noteq> None \<longrightarrow> (\<forall>f \<in> set (rule_files inp (so_id r)).
            passing (ss_file_assessments (cn_session cn) (so_id r) f))))
    \<and> sv_candidate_hashes (last reviews) = map (\<lambda>q. (fst q, sx_hash sx (lookup_text after (fst q)))) (si_files inp)
    \<and> (sp_status p = ''modified'') = (sp_files p \<noteq> [])
    \<and> (\<forall>f \<in> set (sp_files p). in_scope inp (fe_file f) (fe_rule_ids f))"
proof -
  obtain checked where c: "clone_solution_input inp = Inr checked" and a: "approved_outcome sx checked p reviews cn"
    using run_solution_approved [OF assms(1,2)] by metis
  note ci = cloned_input [OF c]
  obtain after answer msg where w: "apply_solution_edits (map_of (si_files checked)) (sp_files p) = Inr after"
      "under_review sx checked after (cn_number cn) cn" "solution_finish sx answer (cn_session cn) = Inr (''passed'', msg)"
      "sv_candidate_hashes (last reviews) = map (\<lambda>q. (fst q, sx_hash sx (lookup_text after (fst q)))) (si_files checked)"
    using a by (auto simp: approved_outcome_def)
  have s: "ss_reviewer (cn_session cn)" "ss_input (cn_session cn) = checked" "ss_after (cn_session cn) = after"
    using w(2) by (simp_all add: under_review_def)
  have cr: "check_solution_rules {} (si_rules (ss_input (cn_session cn)))" "distinct (map fst (si_files (ss_input (cn_session cn))))"
    using assms(3) ci s(2) by simp_all
  note f = passed_finish [OF w(3) s(1) cr]
  have k: "required_keys checked = required_keys inp" using ci by (simp add: required_keys_def)
  have n: "(si_rule_files checked = None) = (si_rule_files inp = None)"
    using c by (auto simp: clone_solution_input_def Let_def split: if_splits option.splits)
  have shown: "byte_shown sx cn key i" if "key \<in> required_keys inp" "i < length (page_source sx (cn_session cn) key)" for key i
    using reviewing_shown [OF w(2)] f(1) that ci(3) assms(4) k s(2) by auto
  show ?thesis
    using w s f(2) ci k n shown a cloned_scope [OF c] by (intro exI [of _ after]) (auto simp: approved_outcome_def)
qed

subsection \<open>A run\<close>

lemma shrink_page_fits: "json_string_len (slice offset e doc) \<le> context_page_bytes \<Longrightarrow> shrink_page doc offset e = e"
  by (simp add: shrink_page.simps)

definition demo_input :: solution_input where
  "demo_input = \<lparr>si_rules = [\<lparr>so_id = ''r'', so_body = ''b'', so_always = True\<rparr>], si_rule_files = Some [(''r'', [''a.vb''])],
     si_files = [(''a.vb'', ''x'')], si_build_output = [], si_previous_failure = [],
     si_before_request = False, si_after_request = False, si_trace = True\<rparr>"

definition demo_staged :: solution_staged where
  "demo_staged = \<lparr>sg_id = ''e'', sg_old_text = ''x'', sg_new_text = ''y'', sg_rule_ids = [''r'']\<rparr>"

definition demo_assessed :: review_assessment where
  "demo_assessed = \<lparr>ra_rule_id = ''r'', ra_status = A_satisfied, ra_reason = ''k''\<rparr>"

definition demo_service :: solution_service where
  "demo_service = \<lparr>sx_manifest = (\<lambda>_ _. []), sx_state = (\<lambda>_. []),
     sx_read_args = (\<lambda>s. Some \<lparr>ar_file = ''a.vb'', ar_version = s, ar_id = ''r'', ar_offset = 0\<rparr>),
     sx_stage_args = (\<lambda>_. Some \<lparr>sa_file = ''a.vb'', sa_edits = [demo_staged], sa_removed = []\<rparr>),
     sx_assessment_args = (\<lambda>_. Some [(demo_assessed, [''a.vb''])]),
     sx_final = (\<lambda>s. Some (s, ''n'')), sx_label_args = (\<lambda>_. None), sx_hash = (\<lambda>s. s),
     sx_reply = (\<lambda>r. case r of SrPage p _ \<Rightarrow> tp_content p | _ \<Rightarrow> []), sx_error = (\<lambda>_. []),
     sx_decision = fst, sx_reason = (\<lambda>s. s), sx_saves_trace = (\<lambda>_ _. True), sx_loop = sample_loop_service, sx_client_ok = True\<rparr>"

definition demo_turn :: "solution_call list \<Rightarrow> string \<Rightarrow> solution_turn" where
  "demo_turn calls final = \<lparr>st_cancelled = False, st_built = True, st_request_id = None, st_before_saved = True,
     st_answer = SaGot None CompleteOk (OutputDecoded calls final), st_after_saved = True\<rparr>"

definition demo_call :: "string \<Rightarrow> string \<Rightarrow> string \<Rightarrow> solution_call" where
  "demo_call cid name args = \<lparr>sc_id = cid, sc_name = name, sc_arguments = args\<rparr>"

definition demo_turns :: "solution_turn list" where
  "demo_turns =
     [demo_turn [demo_call ''1'' ''read_rules'' [], demo_call ''2'' ''read_file'' ''original'', demo_call ''3'' ''stage_edits'' []] [],
      demo_turn [] ''modified'',
      demo_turn [demo_call ''1'' ''read_rules'' [], demo_call ''2'' ''read_file'' ''original'', demo_call ''3'' ''read_file'' ''candidate'',
         demo_call ''4'' ''record_assessments'' []] [],
      demo_turn [] ''passed'']"

definition demo_run :: "conversation \<times> solution_review list \<times> (solution_error, solution_proposal) outcome" where
  "demo_run = run_solution demo_service demo_input demo_turns"

lemma page_end_code [code]:
  "page_end doc offset = (if offset = 0 \<and> length doc = 1 then 1
     else shrink_page doc offset (back_up doc (min (length doc) (offset + context_page_bytes))))"
proof (cases "offset = 0 \<and> length doc = 1")
  case True
  then obtain c where d: "doc = [c]" by (cases doc) auto
  have "json_string_len doc \<le> context_page_bytes"
    using json_body_len_bound [of doc] d by (simp add: json_string_len_def context_page_bytes_def)
  then show ?thesis
    using True d shrink_page_fits [of 0 1 doc] by (simp add: page_end_def context_page_bytes_def slice_def)
next
  case False
  then show ?thesis by (simp only: page_end_def if_False)
qed

lemma demo_result:
  "(case demo_run of (cn, reviews, r) \<Rightarrow> (case r of Inl e \<Rightarrow> False | Inr p \<Rightarrow> sp_status p = ''modified''
      \<and> sp_files p = [\<lparr>fe_file = ''a.vb'', fe_edits = [as_edit demo_staged], fe_rule_ids = [''r'']\<rparr>]
      \<and> ss_after (cn_session cn) ''a.vb'' = Some ''y''))"
  by code_simp

lemma solution_approved_by_review_witness:
  "case demo_run of (cn, reviews, r) \<Rightarrow> (case r of Inl e \<Rightarrow> False | Inr p \<Rightarrow>
     sp_status p = ''modified''
     \<and> apply_solution_edits (map_of (si_files demo_input)) (sp_files p) = Inr (ss_after (cn_session cn))
     \<and> page_source demo_service (cn_session cn) (PkCandidate ''a.vb'') = ''y''
     \<and> byte_shown demo_service cn (PkCandidate ''a.vb'') 0
     \<and> passing (ss_file_assessments (cn_session cn) ''r'' ''a.vb'')
     \<and> sv_candidate_hashes (last reviews) = [(''a.vb'', ''y'')])"
proof -
  obtain cn reviews p where d: "demo_run = (cn, reviews, Inr p)" and m: "sp_status p = ''modified''"
      and y: "ss_after (cn_session cn) ''a.vb'' = Some ''y''"
    using demo_result by (auto split: prod.splits sum.splits)
  have r: "run_solution demo_service demo_input demo_turns = (cn, reviews, Inr p)" using d by (simp add: demo_run_def)
  have h: "sp_status p \<noteq> ''needs_human''" "distinct (map fst (si_files demo_input))" "si_trace demo_input"
    using m by (simp_all add: demo_input_def)
  from solution_approved_by_review [OF r h] obtain after where a:
      "apply_solution_edits (map_of (si_files demo_input)) (sp_files p) = Inr after" "ss_after (cn_session cn) = after"
      "\<forall>key \<in> required_keys demo_input. \<forall>i < length (page_source demo_service (cn_session cn) key). byte_shown demo_service cn key i"
      "\<forall>r \<in> set (si_rules demo_input). passing (ss_assessments (cn_session cn) (so_id r)) \<and>
         (si_rule_files demo_input \<noteq> None \<longrightarrow> (\<forall>f \<in> set (rule_files demo_input (so_id r)).
            passing (ss_file_assessments (cn_session cn) (so_id r) f)))"
      "sv_candidate_hashes (last reviews) = map (\<lambda>q. (fst q, sx_hash demo_service (lookup_text after (fst q)))) (si_files demo_input)"
    by blast
  have s: "page_source demo_service (cn_session cn) (PkCandidate ''a.vb'') = ''y''"
    using y by (simp add: page_source_def lookup_text_def)
  have "PkCandidate ''a.vb'' \<in> required_keys demo_input" by (simp add: required_keys_def demo_input_def)
  with a(3) s have "byte_shown demo_service cn (PkCandidate ''a.vb'') 0" by force
  moreover have "apply_solution_edits (map_of (si_files demo_input)) (sp_files p) = Inr (ss_after (cn_session cn))"
    using a(1,2) by simp
  moreover have "passing (ss_file_assessments (cn_session cn) ''r'' ''a.vb'')"
    using a(4) by (simp add: demo_input_def rule_files_def scope_of_def)
  moreover have "sv_candidate_hashes (last reviews) = [(''a.vb'', ''y'')]"
    using a(2,5) y by (simp add: demo_input_def demo_service_def lookup_text_def)
  ultimately show ?thesis unfolding d prod.case sum.case using m s by (intro conjI)
qed

end
