(* ===== verification/SolutionBatch.thy ===== *)
theory SolutionBatch
  imports SolutionAgent Publication
begin

section \<open>Runs and batches of solutions (model/solution.go, engine/solution_batch.go, solution_rule_scope.go)\<close>

text \<open>
  A solution run is the repair of one solution file; a batch is the ordered list of runs of one
  execution. This theory models their settings, their states, how a batch ends, which rules apply to
  which files when an earlier run of the batch shared them, and the attempt that records a run that did
  not succeed. The identity of an attempt's run (its execution and solution run) is looked up by the
  ID of the attempt in the map \<open>wk_origins\<close>. Lower-casing of paths is a parameter; times are not modelled.
\<close>

record solution_settings =
  sl_paths :: "string list option"
  sl_path :: string
  sl_msbuild :: string
  sl_configuration :: string
  sl_platform :: string
  sl_max_iterations :: int
  sl_timeout :: int

record solution_config =
  sg_mode :: string
  sg_solution :: "solution_settings option"

datatype settings_error = Bad_mode | Bad_solution_path | Parent_folder | Bad_build_name | Bad_msbuild | Bad_iterations | Bad_timeout

definition default_solution_settings :: solution_settings where
  "default_solution_settings = \<lparr>sl_paths = None, sl_path = [], sl_msbuild = [], sl_configuration = ''Debug'',
     sl_platform = ''Any CPU'', sl_max_iterations = 20, sl_timeout = 300\<rparr>"

definition selected_paths :: "solution_settings \<Rightarrow> string list option" where
  "selected_paths s =
     (case sl_paths s of
        Some ps \<Rightarrow> Some ps
      | None \<Rightarrow> if sl_path s \<noteq> [] then Some [sl_path s] else None)"

definition file_ext :: "string \<Rightarrow> string" where
  "file_ext p = (let name = last (split_on (CHR ''/'') p) in
     case str_last_index name ''.'' of None \<Rightarrow> [] | Some i \<Rightarrow> drop i name)"

text \<open>
  \<open>filepath.IsLocal\<close> and \<open>filepath.Clean\<close> of a slash path without a parent segment: it is not rooted, and
  empty and dot segments go away.
\<close>

definition clean_path :: "string \<Rightarrow> string" where
  "clean_path p = (let segs = filter (\<lambda>s. s \<noteq> [] \<and> s \<noteq> ''.'') (split_on (CHR ''/'') p) in
     if segs = [] then ''.'' else join_with (CHR ''/'') segs)"

definition slash_path :: "string \<Rightarrow> string" where
  "slash_path p = map (\<lambda>c. if c = CHR 0x5C then CHR ''/'' else c) p"

definition normalize_solution_path :: "string \<Rightarrow> (settings_error, string) outcome" where
  "normalize_solution_path value =
     (let p = trim_space (slash_path value) in
      if p = [] \<or> hd p = CHR ''/'' \<or> list_ex (\<lambda>c. c \<in> {CHR '':'', NUL, CR, LF}) p \<or> hd p = CHR ''-'' \<or>
         \<not> equal_fold (file_ext p) ''.sln''
      then Inl Bad_solution_path
      else if ''..'' \<in> set (split_on (CHR ''/'') p) then Inl Parent_folder
      else Inr (clean_path p))"

fun normalize_solution_paths ::
  "(string \<Rightarrow> string) \<Rightarrow> string set \<Rightarrow> string list \<Rightarrow> (settings_error, string list) outcome" where
  "normalize_solution_paths lower seen [] = Inr []"
| "normalize_solution_paths lower seen (v # vs) =
     (case normalize_solution_path v of
        Inl e \<Rightarrow> Inl e
      | Inr p \<Rightarrow>
          (case normalize_solution_paths lower (insert (lower p) seen) vs of
             Inl e \<Rightarrow> Inl e
           | Inr ps \<Rightarrow> Inr (if lower p \<in> seen then ps else p # ps)))"

definition bad_build_name :: "string \<Rightarrow> bool" where
  "bad_build_name s \<longleftrightarrow> list_ex (\<lambda>c. c \<in> {CHR '';'', CR, LF, NUL, CHR 0x22, CHR ''%''}) s"

definition normalize_settings :: "(string \<Rightarrow> string) \<Rightarrow> solution_settings \<Rightarrow> (settings_error, solution_settings) outcome" where
  "normalize_settings lower s =
     (case (if blank (sl_path s) then Inr [] else normalize_solution_path (sl_path s)) of
        Inl e \<Rightarrow> Inl e
      | Inr path \<Rightarrow>
      (case (case sl_paths s of None \<Rightarrow> Inr None
             | Some ps \<Rightarrow> (case normalize_solution_paths lower {} ps of Inl e \<Rightarrow> Inl e | Inr qs \<Rightarrow> Inr (Some qs))) of
        Inl e \<Rightarrow> Inl e
      | Inr paths \<Rightarrow>
          (let configuration = (if sl_configuration s = [] then ''Debug'' else sl_configuration s);
               platform = (if sl_platform s = [] then ''Any CPU'' else sl_platform s);
               timeout = (if sl_timeout s = 0 then 300 else sl_timeout s) in
           if bad_build_name configuration \<or> bad_build_name platform then Inl Bad_build_name
           else if list_ex (\<lambda>c. c \<in> {NUL, CR, LF, CHR 0x22}) (sl_msbuild s) then Inl Bad_msbuild
           else if sl_max_iterations s < 0 then Inl Bad_iterations
           else if timeout < 1 \<or> timeout > 86400 then Inl Bad_timeout
           else Inr (s\<lparr>sl_path := path, sl_paths := paths, sl_configuration := configuration, sl_platform := platform,
                      sl_timeout := timeout\<rparr>))))"

definition normalize_solution_config :: "(string \<Rightarrow> string) \<Rightarrow> solution_config \<Rightarrow> (settings_error, solution_config) outcome" where
  "normalize_solution_config lower c =
     (if sg_mode c \<notin> {[], ''files'', ''solution''} then Inl Bad_mode
      else if sg_solution c = None \<and> sg_mode c \<noteq> ''solution'' then Inr c
      else (case normalize_settings lower
             (case sg_solution c of None \<Rightarrow> default_solution_settings | Some s \<Rightarrow> s) of
        Inl e \<Rightarrow> Inl e
      | Inr s \<Rightarrow> Inr (c\<lparr>sg_solution := Some s\<rparr>)))"

subsection \<open>Runs\<close>

datatype run_status = Rs_pending | Rs_running | Rs_completed | Rs_failed | Rs_needs_human | Rs_stopped | Rs_not_run
  | Rs_other string

record solution_build =
  lb_iteration :: nat
  lb_success :: bool
  lb_exit_code :: int
  lb_output :: string
  lb_diagnostics :: "source_diagnostic list"

text \<open>The engine keeps the reviews of an agent run with the iteration they belong to.\<close>

record solution_run =
  sn_id :: string
  sn_execution :: string
  sn_path :: string
  sn_status :: run_status
  sn_note :: string
  sn_iteration :: nat
  sn_source_files :: "string list"
  sn_rule_files :: "(rule_id \<times> string list) list"
  sn_reviews :: "(nat \<times> solution_review) list"
  sn_request_pending :: bool
  sn_builds :: "solution_build list"
  sn_files :: "string list"
  sn_commit :: string
  sn_usage :: usage

record solution_batch =
  sb_id :: string
  sb_status :: run_status
  sb_current :: nat
  sb_runs :: "solution_run list"
  sb_note :: string

definition new_solution_run :: "string \<Rightarrow> string \<Rightarrow> string \<Rightarrow> run_status \<Rightarrow> solution_run" where
  "new_solution_run i execution path status =
     \<lparr>sn_id = i, sn_execution = execution, sn_path = path, sn_status = status, sn_note = [], sn_iteration = 0,
      sn_source_files = [], sn_rule_files = [], sn_reviews = [], sn_request_pending = False, sn_builds = [], sn_files = [],
      sn_commit = [], sn_usage = no_usage\<rparr>"

definition solution_execution_id :: "solution_run \<Rightarrow> string" where
  "solution_execution_id r = (if sn_execution r \<noteq> [] then sn_execution r else sn_id r)"

text \<open>The workspace: its tasks, the origin of every attempt, the current run and the batch.\<close>

record solution_work =
  wk_tasks :: "task list"
  wk_origins :: "string \<Rightarrow> string \<times> string"
  wk_run :: "solution_run option"
  wk_batch :: "solution_batch option"

definition attempt_matches :: "(string \<Rightarrow> string \<times> string) \<Rightarrow> solution_run \<Rightarrow> attempt \<Rightarrow> bool" where
  "attempt_matches origins r a \<longleftrightarrow>
     (case origins (at_id a) of (execution, srun) \<Rightarrow> srun = sn_id r \<or> srun = [] \<and> execution = sn_id r)"

definition sync_batch :: "solution_work \<Rightarrow> solution_work" where
  "sync_batch wk =
     (case (wk_batch wk, wk_run wk) of
        (Some b, Some r) \<Rightarrow>
          (case find (\<lambda>i. sn_id (sb_runs b ! i) = sn_id r) [0..<length (sb_runs b)] of
             None \<Rightarrow> wk
           | Some i \<Rightarrow> wk\<lparr>wk_batch := Some (b\<lparr>sb_runs := (sb_runs b)[i := r]\<rparr>)\<rparr>)
      | _ \<Rightarrow> wk)"

definition finish_child :: "solution_run \<Rightarrow> solution_run" where
  "finish_child r =
     (if sn_status r = Rs_pending \<or> sn_status r = Rs_running
      then r\<lparr>sn_status := Rs_not_run, sn_note := ''not run; can be selected again''\<rparr> else r)"

definition child_status :: "run_status \<Rightarrow> solution_run \<Rightarrow> run_status" where
  "child_status st r =
     (let st1 = (if sn_status r = Rs_needs_human \<and> st = Rs_completed then Rs_needs_human else st);
          st2 = (if sn_status r = Rs_failed then Rs_failed else st1) in
      if (sn_status r = Rs_stopped \<or> sn_status r = Rs_not_run) \<and> st2 \<noteq> Rs_failed then Rs_stopped else st2)"

definition finish_batch :: "bool \<Rightarrow> solution_batch \<Rightarrow> solution_batch" where
  "finish_batch interrupted b =
     (let runs = map finish_child (sb_runs b) in
      b\<lparr>sb_runs := runs, sb_status := (if interrupted then Rs_stopped else foldl child_status Rs_completed runs)\<rparr>)"

text \<open>The usage shown: every attempt once, and the current run unless an attempt already carries it.\<close>

definition work_usage :: "solution_work \<Rightarrow> usage" where
  "work_usage wk =
     (let hs = concat (map tk_history (wk_tasks wk)) in
      case wk_run wk of
        None \<Rightarrow> sum_usage hs
      | Some r \<Rightarrow> if list_ex (attempt_matches (wk_origins wk) r) hs then sum_usage hs
                  else usage_plus (sum_usage hs) (sn_usage r))"

text \<open>The attempt of a run that failed: on the task of the solution file, and only once.\<close>

definition failed_attempt :: "string \<Rightarrow> solution_run \<Rightarrow> task \<Rightarrow> attempt" where
  "failed_attempt i r t =
     \<lparr>at_id = i, at_number = tk_attempts t + 1,
      at_outcome = (if sn_status r = Rs_needs_human \<or> sn_status r = Rs_stopped then Needs_human else Failed),
      at_partial = False, at_note = sn_note r, at_rules_applied = [], at_checks = [], at_usage = sn_usage r,
      at_diff_path = [], at_commit = [], at_base_commit = [], at_commit_base = [], at_input_hash = [], at_output_hash = [],
      at_repair_path = [], at_reviews = []\<rparr>"

definition fail_task :: "string \<Rightarrow> solution_run \<Rightarrow> task \<Rightarrow> task" where
  "fail_task i r t =
     (let a = failed_attempt i r t in
      t\<lparr>tk_attempts := tk_attempts t + 1, tk_history := tk_history t @ [a], tk_status := at_outcome a, tk_note := sn_note r\<rparr>)"

fun on_first :: "('a \<Rightarrow> bool) \<Rightarrow> ('a \<Rightarrow> 'a) \<Rightarrow> 'a list \<Rightarrow> 'a list" where
  "on_first p f [] = []"
| "on_first p f (x # xs) = (if p x then f x # xs else x # on_first p f xs)"

definition record_solution_failure :: "string \<Rightarrow> string \<Rightarrow> solution_run \<Rightarrow> solution_work \<Rightarrow> solution_work" where
  "record_solution_failure i configured r wk =
     (let path = (if sn_path r = [] then configured else sn_path r) in
      if list_ex (attempt_matches (wk_origins wk) r) (concat (map tk_history (wk_tasks wk))) then wk
      else if \<not> list_ex (\<lambda>t. tk_file t = path) (wk_tasks wk) then wk
      else wk\<lparr>wk_tasks := on_first (\<lambda>t. tk_file t = path) (fail_task i r) (wk_tasks wk),
              wk_origins := (wk_origins wk)(i := (solution_execution_id r, sn_id r))\<rparr>)"

subsection \<open>The rules of a run\<close>

text \<open>
  Every rule keeps the files it was found for, and the files an earlier completed run of the running
  batch had it for, as far as this run may edit them. A switched-off rule is left out everywhere.
\<close>

definition add_scope ::
  "string set \<Rightarrow> rule_id set \<Rightarrow> rule_id set \<Rightarrow> rule_id \<times> string list \<Rightarrow> (rule_id \<Rightarrow> string list) \<Rightarrow>
     (rule_id, rule_id \<Rightarrow> string list) outcome" where
  "add_scope authorized disabled defined s merged =
     (let found = filter (\<lambda>f. f \<in> authorized) (snd s) in
      if fst s \<in> disabled \<or> found = [] then Inr merged
      else if fst s \<notin> defined then Inl (fst s)
      else Inr (merged(fst s := merged (fst s) @ found)))"

fun add_scopes ::
  "string set \<Rightarrow> rule_id set \<Rightarrow> rule_id set \<Rightarrow> (rule_id \<times> string list) list \<Rightarrow> (rule_id \<Rightarrow> string list) \<Rightarrow>
     (rule_id, rule_id \<Rightarrow> string list) outcome" where
  "add_scopes authorized disabled defined [] merged = Inr merged"
| "add_scopes authorized disabled defined (s # ss) merged =
     (case add_scope authorized disabled defined s merged of
        Inl e \<Rightarrow> Inl e
      | Inr m \<Rightarrow> add_scopes authorized disabled defined ss m)"

definition earlier_scopes :: "solution_batch option \<Rightarrow> solution_run \<Rightarrow> (rule_id \<times> string list) list" where
  "earlier_scopes batch r =
     (case batch of
        None \<Rightarrow> []
      | Some b \<Rightarrow>
          if sb_status b = Rs_running \<and> sb_id b = solution_execution_id r \<and> sb_current b < length (sb_runs b) \<and>
             sn_id (sb_runs b ! sb_current b) = sn_id r
          then concat (map sn_rule_files (filter (\<lambda>p. sn_status p = Rs_completed \<and> solution_execution_id p = sb_id b)
                 (take (sb_current b) (sb_runs b))))
          else [])"

definition merge_rule_scopes ::
  "solution_batch option \<Rightarrow> solution_run \<Rightarrow> rule_id list \<Rightarrow> solution_rule list \<Rightarrow> (rule_id \<times> string list) list \<Rightarrow> string list \<Rightarrow>
     (rule_id, solution_rule list \<times> (rule_id \<times> string list) list) outcome" where
  "merge_rule_scopes batch r excluded catalog selected files =
     (let disabled = set excluded; defined = so_id ` set catalog - disabled in
      case add_scopes (set files) disabled defined (selected @ earlier_scopes batch r) (\<lambda>_. []) of
        Inl e \<Rightarrow> Inl e
      | Inr merged \<Rightarrow>
          (let rules = filter (\<lambda>x. merged (so_id x) \<noteq> []) catalog in
           Inr (rules, map (\<lambda>x. (so_id x, sort (remdups (merged (so_id x))))) rules)))"

section \<open>What a batch and its rules promise\<close>

lemma child_status_steps:
  "child_status Rs_failed r = Rs_failed"
  "child_status Rs_stopped r \<in> {Rs_failed, Rs_stopped}"
  "child_status Rs_needs_human r \<in> {Rs_failed, Rs_stopped, Rs_needs_human}"
  "child_status Rs_completed r = Rs_completed \<Longrightarrow> sn_status r \<notin> {Rs_failed, Rs_stopped, Rs_not_run, Rs_needs_human}"
  "child_status Rs_completed r \<in> {Rs_failed, Rs_stopped, Rs_needs_human, Rs_completed}"
  by (auto simp: child_status_def Let_def split: if_splits)

lemma not_completed_again: "st \<in> {Rs_failed, Rs_stopped, Rs_needs_human} \<Longrightarrow> foldl child_status st runs \<noteq> Rs_completed"
proof (induction runs arbitrary: st)
  case (Cons r runs)
  then have "child_status st r \<in> {Rs_failed, Rs_stopped, Rs_needs_human}" using child_status_steps(1-3) [of r] by auto
  then show ?case using Cons.IH by simp
qed auto

lemma completed_children:
  "foldl child_status Rs_completed runs = Rs_completed \<Longrightarrow> r \<in> set runs \<Longrightarrow>
     sn_status r \<notin> {Rs_failed, Rs_stopped, Rs_not_run, Rs_needs_human}"
proof (induction runs)
  case (Cons x runs)
  have x: "child_status Rs_completed x = Rs_completed"
    using child_status_steps(5) [of x] not_completed_again [of "child_status Rs_completed x" runs] Cons.prems(1) by auto
  then show ?case using Cons child_status_steps(4) [OF x] by auto
qed simp

text \<open>A finished batch is completed only when no run of it failed, was stopped, is held or was not run.\<close>

lemma finished_batch_completed:
  assumes "sb_status (finish_batch interrupted b) = Rs_completed" "r \<in> set (sb_runs b)"
  shows "sn_status r = Rs_completed \<or> (\<exists>s. sn_status r = Rs_other s)"
proof -
  have "foldl child_status Rs_completed (map finish_child (sb_runs b)) = Rs_completed"
    using assms(1) by (auto simp: finish_batch_def Let_def split: if_splits)
  from completed_children [OF this, of "finish_child r"] assms(2)
  have "sn_status (finish_child r) \<notin> {Rs_failed, Rs_stopped, Rs_not_run, Rs_needs_human}" by simp
  then show ?thesis by (cases "sn_status r") (auto simp: finish_child_def)
qed

lemma usage_plus_assoc: "usage_plus (usage_plus u v) w = usage_plus u (usage_plus v w)"
  by (simp add: usage_plus_def)

lemma usage_plus_commute: "usage_plus u v = usage_plus v u"
  by (auto simp: usage_plus_def)

lemma usage_plus_none: "usage_plus no_usage v = v"
  by (simp add: usage_plus_def no_usage_def)

lemma sum_usage_from: "foldl (\<lambda>u h. usage_plus u (at_usage h)) u hs = usage_plus u (sum_usage hs)"
proof (induction hs arbitrary: u)
  case Nil
  then show ?case by (simp add: sum_usage_def usage_plus_none usage_plus_commute [of u])
next
  case (Cons h hs)
  show ?case using Cons [of "usage_plus u (at_usage h)"] Cons [of "usage_plus no_usage (at_usage h)"]
    by (simp add: sum_usage_def usage_plus_assoc usage_plus_none)
qed

lemma sum_usage_append: "sum_usage (hs @ ks) = usage_plus (sum_usage hs) (sum_usage ks)"
  using sum_usage_from [of "sum_usage hs" ks] by (simp add: sum_usage_def)

lemma sum_usage_Cons: "sum_usage (h # hs) = usage_plus (at_usage h) (sum_usage hs)"
  using sum_usage_from [of "at_usage h" hs] by (simp add: sum_usage_def usage_plus_none)

lemma on_first_split:
  "list_ex p ts \<Longrightarrow> \<exists>xs t ys. ts = xs @ t # ys \<and> p t \<and> on_first p f ts = xs @ f t # ys"
proof (induction ts)
  case (Cons t ts)
  show ?case
  proof (cases "p t")
    case True
    then show ?thesis by (intro exI [of _ "[]"]) simp
  next
    case False
    with Cons obtain xs t' ys where "ts = xs @ t' # ys" "p t'" "on_first p f ts = xs @ f t' # ys" by auto
    with False show ?thesis by (intro exI [of _ "t # xs"]) simp
  qed
qed simp

text \<open>
  Recording a failed run moves its usage from the run to an attempt: the total shown stays the same, it
  is counted once before and once after, and recording it again changes nothing.
\<close>

lemma failure_usage_counted_once:
  assumes "wk_run wk = Some r" "list_ex (\<lambda>t. tk_file t = sn_path r) (wk_tasks wk)" "sn_path r \<noteq> []"
    and fresh: "\<forall>h \<in> set (concat (map tk_history (wk_tasks wk))). at_id h \<noteq> i"
    and new: "\<not> list_ex (attempt_matches (wk_origins wk) r) (concat (map tk_history (wk_tasks wk)))"
  shows "work_usage (record_solution_failure i configured r wk) = work_usage wk \<and>
    record_solution_failure j configured r (record_solution_failure i configured r wk) = record_solution_failure i configured r wk"
proof -
  let ?p = "\<lambda>t. tk_file t = sn_path r" and ?wk = "record_solution_failure i configured r wk"
  obtain xs t ys where s: "wk_tasks wk = xs @ t # ys" "on_first ?p (fail_task i r) (wk_tasks wk) = xs @ fail_task i r t # ys"
    using on_first_split [OF assms(2)] by blast
  have w: "wk_tasks ?wk = xs @ fail_task i r t # ys"
      "wk_origins ?wk = (wk_origins wk)(i := (solution_execution_id r, sn_id r))" "wk_run ?wk = wk_run wk"
    using assms(2,3) new s(2) by (simp_all add: record_solution_failure_def Let_def)
  have h: "tk_history (fail_task i r t) = tk_history t @ [failed_attempt i r t]"
      "at_id (failed_attempt i r t) = i" "at_usage (failed_attempt i r t) = sn_usage r"
    by (simp_all add: fail_task_def failed_attempt_def Let_def)
  have m: "list_ex (attempt_matches (wk_origins ?wk) r) (concat (map tk_history (wk_tasks ?wk)))"
    unfolding w by (auto simp: h attempt_matches_def)
  have again: "record_solution_failure j configured r ?wk = ?wk"
    unfolding record_solution_failure_def [of j] Let_def using m by (simp only: if_True)
  have "sum_usage (concat (map tk_history (wk_tasks ?wk))) = usage_plus (sum_usage (concat (map tk_history (wk_tasks wk)))) (sn_usage r)"
    unfolding w s(1)
    by (simp add: h sum_usage_append sum_usage_Cons usage_plus_assoc usage_plus_commute [of "sn_usage r"])
  then have "work_usage ?wk = work_usage wk"
    using m new assms(1) w(3) by (simp only: work_usage_def Let_def option.case if_True if_False)
  with again show ?thesis by simp
qed

text \<open>The merged rules stay within the files of the run and the rules that are switched on.\<close>

lemma add_scopes_within:
  "add_scopes authorized disabled defined ss merged = Inr m \<Longrightarrow> \<forall>rid. set (merged rid) \<subseteq> authorized \<and> (merged rid \<noteq> [] \<longrightarrow> rid \<in> defined - disabled)
     \<Longrightarrow> set (m rid) \<subseteq> authorized \<and> (m rid \<noteq> [] \<longrightarrow> rid \<in> defined - disabled)"
proof (induction authorized disabled defined ss merged arbitrary: m rid rule: add_scopes.induct)
  case (2 authorized disabled defined s ss merged)
  obtain m1 where a: "add_scope authorized disabled defined s merged = Inr m1" "add_scopes authorized disabled defined ss m1 = Inr m"
    using 2(2) by (cases "add_scope authorized disabled defined s merged") simp_all
  have f: "\<forall>rid. set (m1 rid) \<subseteq> authorized \<and> (m1 rid \<noteq> [] \<longrightarrow> rid \<in> defined - disabled)"
  proof
    fix rid
    show "set (m1 rid) \<subseteq> authorized \<and> (m1 rid \<noteq> [] \<longrightarrow> rid \<in> defined - disabled)"
      using a(1) 2(3) [rule_format, of rid] by (auto simp: add_scope_def Let_def split: if_splits)
  qed
  show ?case by (rule 2(1) [OF a(1) a(2) f])
qed simp

lemma merged_scopes_authorized:
  assumes "merge_rule_scopes batch r excluded catalog selected files = Inr (rules, scopes)" "(rid, targets) \<in> set scopes"
  shows "set targets \<subseteq> set files \<and> distinct targets \<and> targets \<noteq> [] \<and> rid \<notin> set excluded \<and> rid \<in> so_id ` set rules"
proof -
  let ?d = "so_id ` set catalog - set excluded"
  obtain m where m: "add_scopes (set files) (set excluded) ?d (selected @ earlier_scopes batch r) (\<lambda>_. []) = Inr m"
      "rules = filter (\<lambda>x. m (so_id x) \<noteq> []) catalog" "scopes = map (\<lambda>x. (so_id x, sort (remdups (m (so_id x))))) rules"
    using assms(1) by (auto simp: merge_rule_scopes_def Let_def split: sum.splits)
  have "set (m x) \<subseteq> set files \<and> (m x \<noteq> [] \<longrightarrow> x \<in> ?d - set excluded)" for x
    by (rule add_scopes_within [OF m(1)]) simp
  moreover obtain x where x: "x \<in> set rules" "rid = so_id x" "targets = sort (remdups (m (so_id x)))" "m (so_id x) \<noteq> []"
    using assms(2) m(2,3) by auto
  moreover have "set targets = set (m (so_id x))" using x(3) by simp
  moreover from this x(4) have "targets \<noteq> []" by (metis set_empty)
  ultimately show ?thesis by (metis DiffE distinct_remdups distinct_sort imageI)
qed

end
