(* ===== verification/SolutionAdoption.thy ===== *)
theory SolutionAdoption
  imports SolutionBatch
begin

section \<open>Adopting a repaired solution (engine/solution.go)\<close>

text \<open>
  The candidate of a solution run that was built and reviewed becomes one commit. Before the working
  copy moves to it, a journal is written that carries the commit and the whole state after the adoption;
  \<open>recoverSolutionAdoption\<close> finishes an adoption that was cut off, and refuses any history it does not know.
  Commits are immutable, so their parents and the commands that make them are functions; what changes is
  the tip of the working copy, the journal and the saved state of the workspace. Failures of Git and of
  the disk are fields of \<open>adoption_env\<close>. The tasks \<open>adoptSolution\<close> is given are a copy of those of the
  workspace. When it returns an error, the caller overwrites the run and records the failure
  (\<open>record_solution_failure\<close> of \<open>SolutionBatch\<close>); that step is not part of these definitions. The texts of the
  checks are given in English.
\<close>

record adoption =
  aj_base :: string
  aj_commit :: string
  aj_tasks :: "task list"
  aj_origins :: "string \<Rightarrow> string \<times> string"
  aj_run :: solution_run
  aj_batch :: "solution_batch option"

datatype adoption_file = No_adoption | Bad_adoption | Adoption_journal adoption

record workspace_state =
  ws_head :: string
  ws_journal :: adoption_file
  ws_work :: solution_work

datatype adoption_error =
    Ad_stopped | Ad_scratch | Ad_stage | Ad_commit | Ad_artifact string | Ad_not_clean | Ad_moved | Ad_journal | Ad_merge
  | Ad_save | Ad_bad_journal | Ad_not_owned | Ad_parent | Ad_history

record adoption_env =
  ae_stopped :: bool
  ae_scratch_ok :: bool
  ae_digest :: "string \<Rightarrow> string"
  ae_tree :: "(string \<times> string) list \<Rightarrow> string option"
  ae_commit :: "string \<Rightarrow> string \<Rightarrow> string \<Rightarrow> string option"
  ae_parent :: "string \<Rightarrow> string option"
  ae_artifact_ok :: "string \<Rightarrow> bool"
  ae_artifact :: "string \<Rightarrow> string"
  ae_ids :: "nat \<Rightarrow> string"
  ae_owned :: bool
  ae_clean :: bool
  ae_journal_ok :: bool
  ae_merges :: "string \<Rightarrow> string \<Rightarrow> bool"
  ae_saves :: bool

subsection \<open>The state after the adoption\<close>

definition lookup_bytes :: "(string \<times> string) list \<Rightarrow> string \<Rightarrow> string" where
  "lookup_bytes bs file = (case map_of bs file of None \<Rightarrow> [] | Some b \<Rightarrow> b)"

definition changed_solution_files :: "adoption_env \<Rightarrow> (string \<times> string) list \<Rightarrow> (string \<times> string) list \<Rightarrow> string list" where
  "changed_solution_files env before after =
     sort (map fst (filter (\<lambda>p. ae_digest env (snd p) \<noteq> ae_digest env (lookup_bytes before (fst p))) after))"

definition solution_message :: "solution_run \<Rightarrow> string" where
  "solution_message r = ''OneByOne: repair VB.NET solution'' @ [LF, LF] @ ''OneByOne-Solution: '' @ sn_id r @ [LF]"

definition solution_checks :: "check list" where
  "solution_checks =
     [\<lparr>ck_name = ''solution build'', ck_status = C_passed, ck_detail = ''MSBuild ended without errors''\<rparr>,
      \<lparr>ck_name = ''independent review of the solution'', ck_status = C_passed, ck_detail = ''each change was reviewed in a separate context''\<rparr>]"

definition new_task :: "string \<Rightarrow> task" where
  "new_task file = \<lparr>tk_file = file, tk_discards = [], tk_excluded = False, tk_rules = [], tk_status = Unset, tk_attempts = 0,
     tk_rules_applied = [], tk_note = [], tk_input_hash = [], tk_history = [], tk_resume_requested = False\<rparr>"

definition solution_attempt ::
  "adoption_env \<Rightarrow> solution_run \<Rightarrow> string \<Rightarrow> string \<Rightarrow> string \<Rightarrow> nat \<Rightarrow> string \<Rightarrow> string \<Rightarrow> rule_id list \<Rightarrow> int \<Rightarrow> attempt" where
  "solution_attempt env r head commit note i before after rules number =
     (let changed = ae_digest env before \<noteq> ae_digest env after; aid = ae_ids env i in
      \<lparr>at_id = aid, at_number = number, at_outcome = (if changed then Done else Skipped), at_partial = False,
       at_note = note, at_rules_applied = rules, at_checks = solution_checks,
       at_usage = (if i = 0 then sn_usage r else no_usage), at_diff_path = ae_artifact env aid @ ''.diff'',
       at_commit = (if changed then commit else []), at_base_commit = head, at_commit_base = head,
       at_input_hash = ae_digest env before, at_output_hash = ae_digest env after, at_repair_path = [], at_reviews = []\<rparr>)"

definition adopted_task :: "attempt \<Rightarrow> rule_id list \<Rightarrow> string \<Rightarrow> task \<Rightarrow> task" where
  "adopted_task a rules note t =
     (let t1 = t\<lparr>tk_attempts := tk_attempts t + 1, tk_excluded := False, tk_history := tk_history t @ [a],
                tk_status := at_outcome a, tk_note := note, tk_input_hash := at_output_hash a\<rparr> in
      if at_outcome a = Done then t1\<lparr>tk_rules_applied := rules\<rparr>
      else if can_discard_changes t1 then t1\<lparr>tk_status := Done\<rparr> else t1)"

text \<open>One attempt per file, in the order of the paths; an artifact that cannot be written ends it.\<close>

fun adopt_files ::
  "adoption_env \<Rightarrow> solution_run \<Rightarrow> string \<Rightarrow> string \<Rightarrow> string \<Rightarrow> (string \<Rightarrow> rule_id list) \<Rightarrow> (string \<times> string) list \<Rightarrow>
     nat \<Rightarrow> (string \<times> string) list \<Rightarrow> task list \<Rightarrow> (string \<Rightarrow> string \<times> string) \<Rightarrow>
     (adoption_error, task list \<times> (string \<Rightarrow> string \<times> string)) outcome" where
  "adopt_files env r head commit note rules before i [] ts origins = Inr (ts, origins)"
| "adopt_files env r head commit note rules before i ((file, after) # fs) ts origins =
     (let t = (case find_key tk_file file ts of None \<Rightarrow> new_task file | Some t \<Rightarrow> t);
          ids = sort (remdups (rules file));
          a = solution_attempt env r head commit note i (lookup_bytes before file) after ids (tk_attempts t + 1) in
      if \<not> ae_artifact_ok env (at_id a) then Inl (Ad_artifact file)
      else adopt_files env r head commit note rules before (i + 1) fs (upsert_key tk_file (adopted_task a ids note t) ts)
        (origins(at_id a := (solution_execution_id r, sn_id r))))"

text \<open>The state the journal carries and the workspace is given: the tasks, the run, and the batch it is a part of.\<close>

definition completed_run :: "string \<Rightarrow> string list \<Rightarrow> string \<Rightarrow> solution_run \<Rightarrow> solution_run" where
  "completed_run note changed commit r = r\<lparr>sn_status := Rs_completed, sn_note := note, sn_files := changed, sn_commit := commit\<rparr>"

definition adopted_work :: "task list \<Rightarrow> (string \<Rightarrow> string \<times> string) \<Rightarrow> solution_run \<Rightarrow> solution_work \<Rightarrow> solution_work" where
  "adopted_work ts origins r wk = (sync_batch (wk\<lparr>wk_run := Some r\<rparr>))\<lparr>wk_tasks := sort_key tk_file ts, wk_origins := origins\<rparr>"

subsection \<open>Adopting\<close>

datatype adoption_effect = Wrote_adoption adoption | Moved_head string | Saved_work solution_work

fun apply_adoption :: "workspace_state \<Rightarrow> adoption_effect \<Rightarrow> workspace_state" where
  "apply_adoption s (Wrote_adoption j) = s\<lparr>ws_journal := Adoption_journal j\<rparr>"
| "apply_adoption s (Moved_head c) = s\<lparr>ws_head := c\<rparr>"
| "apply_adoption s (Saved_work wk) = s\<lparr>ws_work := wk\<rparr>"

definition adoption_commit ::
  "adoption_env \<Rightarrow> solution_run \<Rightarrow> string \<Rightarrow> string list \<Rightarrow> (string \<times> string) list \<Rightarrow> (adoption_error, string) outcome" where
  "adoption_commit env r head changed after =
     (if changed = [] then Inr []
      else (case ae_tree env (map (\<lambda>f. (f, lookup_bytes after f)) changed) of
        None \<Rightarrow> Inl Ad_stage
      | Some tree \<Rightarrow> (case ae_commit env tree head (solution_message r) of None \<Rightarrow> Inl Ad_commit | Some c \<Rightarrow> Inr c)))"

text \<open>
  \<open>adoptSolution\<close>: the answer and the effects in their order. The current tip is read again just before
  the journal is written.
\<close>

definition adopt_solution ::
  "adoption_env \<Rightarrow> solution_run \<Rightarrow> string \<Rightarrow> string list \<Rightarrow> (string \<Rightarrow> rule_id list) \<Rightarrow> (string \<times> string) list \<Rightarrow>
     (string \<times> string) list \<Rightarrow> workspace_state \<Rightarrow> (adoption_error, solution_work) outcome \<times> adoption_effect list" where
  "adopt_solution env r head notes rules before after s =
     (let wk = ws_work s; changed = changed_solution_files env before after; note = join_with LF notes in
      if ae_stopped env then (Inl Ad_stopped, [])
      else if \<not> ae_scratch_ok env then (Inl Ad_scratch, [])
      else (case adoption_commit env r head changed after of
        Inl e \<Rightarrow> (Inl e, [])
      | Inr commit \<Rightarrow>
      (case adopt_files env r head commit note rules before 0 (sort_key fst after) (wk_tasks wk) (wk_origins wk) of
        Inl e \<Rightarrow> (Inl e, [])
      | Inr (ts, origins) \<Rightarrow>
          (let r' = completed_run note changed commit r; wk' = adopted_work ts origins r' wk;
               saved = (if ae_saves env then (Inr wk', [Saved_work wk']) else (Inl Ad_save, [])) in
           if commit = [] then saved
           else if \<not> ae_clean env then (Inl Ad_not_clean, [])
           else if ws_head s \<noteq> head then (Inl Ad_moved, [])
           else if \<not> ae_journal_ok env then (Inl Ad_journal, [])
           else
             (let j = \<lparr>aj_base = head, aj_commit = commit, aj_tasks = wk_tasks wk', aj_origins = origins, aj_run = r',
                      aj_batch = wk_batch wk'\<rparr> in
              if \<not> ae_merges env head commit then (Inl Ad_merge, [Wrote_adoption j])
              else (fst saved, [Wrote_adoption j, Moved_head commit] @ snd saved))))))"

subsection \<open>Recovering\<close>

definition recovered_work :: "adoption \<Rightarrow> solution_work \<Rightarrow> solution_work" where
  "recovered_work j wk =
     (let wk1 = wk\<lparr>wk_tasks := aj_tasks j, wk_origins := aj_origins j, wk_run := Some (aj_run j)\<rparr> in
      case aj_batch j of
        None \<Rightarrow> wk1
      | Some b \<Rightarrow>
          let wk2 = sync_batch (wk1\<lparr>wk_batch := Some b\<rparr>) in
          wk2\<lparr>wk_batch := map_option (finish_batch False) (wk_batch wk2)\<rparr>)"

definition recover_solution_adoption :: "adoption_env \<Rightarrow> workspace_state \<Rightarrow> adoption_error option \<times> adoption_effect list" where
  "recover_solution_adoption env s =
     (case ws_journal s of
        No_adoption \<Rightarrow> (None, [])
      | Bad_adoption \<Rightarrow> (Some Ad_bad_journal, [])
      | Adoption_journal j \<Rightarrow>
          if \<not> immutable_commit_id (aj_base j) \<or> \<not> immutable_commit_id (aj_commit j) then (Some Ad_bad_journal, [])
          else if \<not> ae_owned env then (Some Ad_not_owned, [])
          else if \<not> ae_clean env then (Some Ad_not_clean, [])
          else if list_ex (\<lambda>a. at_commit a = aj_commit j) (concat (map tk_history (wk_tasks (ws_work s)))) then (None, [])
          else
            (let wk = recovered_work j (ws_work s);
                 finish = (\<lambda>effects. if ae_saves env then (None, effects @ [Saved_work wk]) else (Some Ad_save, effects)) in
             if ws_head s = aj_base j then
               (if ae_parent env (aj_commit j) \<noteq> Some (aj_base j) then (Some Ad_parent, [])
                else if \<not> ae_merges env (aj_base j) (aj_commit j) then (Some Ad_merge, [])
                else finish [Moved_head (aj_commit j)])
             else if ws_head s \<noteq> aj_commit j then (Some Ad_history, [])
             else finish []))"

section \<open>An adoption that was cut off\<close>

lemma adopted_task_facts:
  "tk_file (adopted_task a ids note t) = tk_file t" "tk_history (adopted_task a ids note t) = tk_history t @ [a]"
  by (simp_all add: adopted_task_def Let_def)

definition carries :: "string \<Rightarrow> task list \<Rightarrow> bool" where
  "carries commit ts \<longleftrightarrow> (\<exists>f t. find_key tk_file f ts = Some t \<and> commit \<in> at_commit ` set (tk_history t))"

lemma carries_listed: "carries commit ts \<Longrightarrow> list_ex (\<lambda>a. at_commit a = commit) (concat (map tk_history ts))"
  by (auto simp: carries_def list_ex_iff dest!: find_key_SomeD)

lemma adopt_files_carries:
  "adopt_files env r head commit nt rules before i fs ts origins = Inr (ts', origins') \<Longrightarrow>
     carries commit ts \<or> (\<exists>p \<in> set fs. ae_digest env (lookup_bytes before (fst p)) \<noteq> ae_digest env (snd p)) \<Longrightarrow> carries commit ts'"
proof (induction env r head commit nt rules before i fs ts origins rule: adopt_files.induct)
  case (2 env r head commit nt rules before i f after fs ts origins)
  let ?t = "case find_key tk_file f ts of None \<Rightarrow> new_task f | Some t \<Rightarrow> t"
  let ?ids = "sort (remdups (rules f))"
  let ?a = "solution_attempt env r head commit nt i (lookup_bytes before f) after ?ids (tk_attempts ?t + 1)"
  let ?x = "adopted_task ?a ?ids nt ?t"
  have key: "tk_file ?x = f"
    by (auto simp: adopted_task_facts new_task_def split: option.splits dest: find_key_SomeD)
  have look: "find_key tk_file k (upsert_key tk_file ?x ts) = (if k = f then Some ?x else find_key tk_file k ts)" for k
    by (simp add: find_key_upsert_key key)
  have step: "ae_artifact_ok env (at_id ?a)"
      "adopt_files env r head commit nt rules before (i + 1) fs (upsert_key tk_file ?x ts)
        (origins(at_id ?a := (solution_execution_id r, sn_id r))) = Inr (ts', origins')"
    using 2(2) by (simp_all add: Let_def split: if_splits)
  have "carries commit (upsert_key tk_file ?x ts) \<or> (\<exists>p \<in> set fs. ae_digest env (lookup_bytes before (fst p)) \<noteq> ae_digest env (snd p))"
  proof (cases "ae_digest env (lookup_bytes before f) = ae_digest env after")
    case False
    then have "commit \<in> at_commit ` set (tk_history ?x)" by (simp add: adopted_task_facts solution_attempt_def Let_def)
    then show ?thesis using look [of f] unfolding carries_def by auto
  next
    case same: True
    show ?thesis
    proof (cases "carries commit ts")
      case True
      then obtain k t where k: "find_key tk_file k ts = Some t" "commit \<in> at_commit ` set (tk_history t)" by (auto simp: carries_def)
      show ?thesis
      proof (cases "k = f")
        case True
        then have "commit \<in> at_commit ` set (tk_history ?x)" using k by (simp add: adopted_task_facts)
        then show ?thesis using look [of f] unfolding carries_def by auto
      next
        case False
        then show ?thesis using look [of k] k unfolding carries_def by auto
      qed
    next
      case False
      then show ?thesis using 2(3) same by auto
    qed
  qed
  from 2(1) [OF refl refl refl _ step(2) this] step(1) show ?case by simp
qed auto

lemma sync_batch_tasks: "wk_tasks (sync_batch wk) = wk_tasks wk" "wk_run (sync_batch wk) = wk_run wk"
  by (auto simp: sync_batch_def split: option.splits)

lemma recovered_work_facts:
  "wk_tasks (recovered_work j wk) = aj_tasks j" "wk_run (recovered_work j wk) = Some (aj_run j)"
  by (simp_all add: recovered_work_def Let_def sync_batch_tasks split: option.splits)

text \<open>What Git promises about the commit an adoption makes.\<close>

definition solution_commit_law :: "adoption_env \<Rightarrow> bool" where
  "solution_commit_law env \<longleftrightarrow>
     (\<forall>tree base msg c. ae_commit env tree base msg = Some c \<longrightarrow>
        immutable_commit_id c \<and> ae_parent env c = Some base \<and> c \<noteq> base)"

text \<open>The journal of an earlier adoption names a commit an attempt already carries, so it is never taken up again.\<close>

definition journal_settled :: "workspace_state \<Rightarrow> bool" where
  "journal_settled s \<longleftrightarrow>
     (case ws_journal s of
        No_adoption \<Rightarrow> True
      | Bad_adoption \<Rightarrow> False
      | Adoption_journal j \<Rightarrow> immutable_commit_id (aj_base j) \<and> immutable_commit_id (aj_commit j) \<and>
          list_ex (\<lambda>a. at_commit a = aj_commit j) (concat (map tk_history (wk_tasks (ws_work s)))))"

definition can_recover :: "adoption_env \<Rightarrow> adoption_env \<Rightarrow> bool" where
  "can_recover env env' \<longleftrightarrow> ae_parent env' = ae_parent env \<and> ae_owned env' \<and> ae_clean env' \<and> ae_saves env' \<and>
     (\<forall>base c. ae_parent env c = Some base \<longrightarrow> ae_merges env' base c)"

lemma settled_recovers: "journal_settled s \<Longrightarrow> can_recover env env' \<Longrightarrow> recover_solution_adoption env' s = (None, [])"
  by (auto simp: journal_settled_def recover_solution_adoption_def can_recover_def split: adoption_file.splits)

subsection \<open>An example\<close>

definition adoption_demo_env :: adoption_env where
  "adoption_demo_env =
     \<lparr>ae_stopped = False, ae_scratch_ok = True, ae_digest = (\<lambda>b. b), ae_tree = (\<lambda>fs. Some ''tree''),
      ae_commit = (\<lambda>tree base msg. if base = replicate 40 (CHR ''a'') then Some (replicate 40 (CHR ''b'')) else None),
      ae_parent = (\<lambda>c. if c = replicate 40 (CHR ''b'') then Some (replicate 40 (CHR ''a'')) else None),
      ae_artifact_ok = (\<lambda>i. True), ae_artifact = (\<lambda>i. i), ae_ids = (\<lambda>i. replicate (i + 1) (CHR ''x'')),
      ae_owned = True, ae_clean = True, ae_journal_ok = True, ae_merges = (\<lambda>b c. True), ae_saves = True\<rparr>"

definition adoption_demo_state :: workspace_state where
  "adoption_demo_state = \<lparr>ws_head = replicate 40 (CHR ''a''), ws_journal = No_adoption,
     ws_work = \<lparr>wk_tasks = [], wk_origins = (\<lambda>i. ([], [])), wk_run = None, wk_batch = None\<rparr>\<rparr>"

definition demo_adoption :: "(adoption_error, solution_work) outcome \<times> adoption_effect list" where
  "demo_adoption = adopt_solution adoption_demo_env (new_solution_run ''r'' ''e'' ''a.sln'' Rs_running) (replicate 40 (CHR ''a'')) [''fixed''] (\<lambda>f. [''R1''])
     [(''a.vb'', ''old'')] [(''a.vb'', ''new'')] adoption_demo_state"



end
