(* ===== verification/Spec2Isabelle.thy ===== *)
theory Spec2Isabelle
  imports SourceLocation ExactEdits RepairPlan Holds CandidatePlan PartialReview Staging Paging RepairTools RepairInvariants
    LineRanges ReviewParse ReviewGate RepairLoop RepairResume ReviewRecovery SourceEncoding TaskHistory CandidateValidation
    Adoption Recovery CrashRecovery Queue Execution Discards QueueSteps ChangeReport LineAlignment CumulativeReport
    PublicationReport Publication SolutionAgent SolutionBatch SolutionAdoption
begin

text \<open>
  OneByOne migrates a code base with a language model, one source file at a time. A queue lists the
  files. For each file an editor conversation plans what the rules require, stages exact edits
  and submits a candidate; the engine applies the candidate to the pinned bytes and checks it; a
  second conversation reviews it without having seen the first; an accepted candidate is written and
  committed in a dedicated working copy, under an intent saved before. A file can be taken up again
  after an interruption, returned to its first content, and the adopted changes can be reported and
  published as one commit on a new branch. A second mode repairs all files of a solution as one
  change. This development models that pipeline, from the bytes of a source file to the published
  commit, and proves what each part promises to the next.

  \<^bold>\<open>Theories and the code they model\<close> (paths below src/internal)

  Shared vocabulary. \<open>Prelude\<close>: outcomes \<open>'e + 'a\<close> for Go's pair of a value and an error, slices, lists
  updated by key. \<open>GoStrings\<close>: byte strings and the functions of the packages strings and utf8 the code
  calls. \<open>Model\<close>: the structs of model/, one record each, with one constructor per literal where a string
  field is compared with literals only.

  The editor (agent/). \<open>SourceLocation\<close>: quoted line blocks (model/source_location.go). \<open>ExactEdits\<close>: edits
  of strings that occur exactly once, and the three routines that apply them (\<open>materializeEdits\<close>,
  \<open>reviewCandidateText\<close>, engine/text.go \<open>applyEdits\<close>). \<open>RepairPlan\<close> and \<open>CandidatePlan\<close>: repair_plan.go.
  \<open>Holds\<close> and \<open>PartialReview\<close>: source_locations.go and partial_review.go, lines left to a person.
  \<open>Staging\<close> and \<open>Paging\<close>: incremental.go, staged edits and paged reads. \<open>RepairTools\<close>: the tools and the
  final answer (repair_loop.go, incremental.go). \<open>RepairInvariants\<close>: what every sequence of tool calls
  keeps. \<open>ReviewParse\<close> and \<open>ReviewGate\<close>: review.go, review_gate.go and the adoption gate of the engine.
  \<open>RepairLoop\<close> and \<open>RepairResume\<close>: \<open>Run\<close> of repair_loop.go and the state it leaves.
  \<open>ReviewRecovery\<close>: the built-in reviewer (review.go, review_recovery.go).

  The engine (engine/). \<open>SourceEncoding\<close>: sourceencoding/source.go and text.go. \<open>LineRanges\<close>:
  change_line_ranges.go. \<open>TaskHistory\<close>: tasks, attempts and checkpoints (repair_checkpoint.go).
  \<open>CandidateValidation\<close>: candidate_validation.go. \<open>Adoption\<close>, \<open>Recovery\<close>, \<open>CrashRecovery\<close>: the write and commit
  of a candidate and what the next process makes of an interrupted one (runner.go, git.go,
  parallel_recovery.go). \<open>Queue\<close>: store/store.go. \<open>Execution\<close>: the attempt of a file (runner.go,
  parallel_run.go). \<open>Discards\<close>: discard_changes.go. \<open>QueueSteps\<close>: one step relation over every operation
  that rewrites the queue.

  Reports and publication (engine/). \<open>ChangeReport\<close>: change_report.go. \<open>LineAlignment\<close> and
  \<open>CumulativeReport\<close>: cumulative_report.go. \<open>PublicationReport\<close> and \<open>Publication\<close>: result_publication.go and
  result_publication_report_file.go.

  Whole solutions. \<open>SolutionAgent\<close>: agent/solution.go and solution_trace.go. \<open>SolutionBatch\<close>:
  model/solution.go, engine/solution_batch.go and solution_rule_scope.go. \<open>SolutionAdoption\<close>: the adoption of a
  repaired solution and its recovery (engine/solution.go).

  \<^bold>\<open>How the model stands for the code\<close>

  A Go function is a function of the same name in snake case, with its early returns as branches; an
  error is a constructor of the theory's error type, and a function that returns only an error is an
  \<open>option\<close>. Durable state is a record passed along. Effects on Git, files and the queue are either
  functions of an abstract world (the records \<open>git\<close>, \<open>discard_git\<close>, \<open>validation_world\<close>) or a list of effects in
  their order; a crash is a prefix of that list. What the provider answers is a list of turns, each
  already decoded, so every theorem about a loop holds whatever a model answers. Steps of one process are
  the steps of \<open>queue_step\<close>: the engine holds its lock during each of them. Go maps that are only looked up
  are functions, others are lists with distinct keys. Revisions are compared with the largest 64-bit
  value as the code does; other counters are integers. Costs are rationals. Texts written for people in
  Japanese are given in English.

  \<^bold>\<open>Parameters\<close>

  Code outside the repository is a parameter: SHA-256 (an uninterpreted digest, injectivity is never
  assumed where a proof does not say so), JSON encoders and decoders, the Shift_JIS tables, Git, the file
  system, the clock, random IDs, the provider. The named hypotheses about them (for example \<open>commit_law\<close> and
  \<open>ref_law\<close> of \<open>Publication\<close>, \<open>solution_commit_law\<close> of \<open>SolutionAdoption\<close>) state documented behaviour, and a witness instantiates them.

  \<^bold>\<open>What the lemmas show\<close>

  Edits: the three routines compute the same text, the simultaneous replacement, and leave the rest alone
  (C3, C4). Evidence: quoted lines are validated and resolved exactly (C1, C2). Plans: the exact
  conditions and effects of an update and of a candidate (C7 to C9, C14). Held lines: what the check
  guarantees and two ways in which it does not (C10 to C13, C15). State: staging, paging and every
  session keep the invariants the final answer rests on (C17 to C22). Lines and reports: C23 to C25.
  Reviews: what an accepted answer contains, and that nothing leaves the loop without an approval of
  exactly that candidate (C26 to C33), for a whole solution C16. Bytes: C34 to C36. Engine: a passed
  validation, a commit, an interrupted adoption, the queue and an interrupted publication (C37 to C40, C5); an
  interrupted adoption of a whole solution (C6).

  \<^bold>\<open>Bounds and fuel\<close>

  Loops over a document end by their measure (bytes left, interval length). The loops over turns recurse
  over the list of turns; a loop that still waits says so in its result, so no theorem needs fuel.
  \<open>read_pages\<close> takes the number of requests; one per byte and one more is enough (C19). The rounds of a
  solution run end because a conversation that decides has used a turn.

  \<^bold>\<open>Not modelled\<close>

  HTTP clients and request bodies, prompts, the command line and the desktop shell, workspaces and their
  permissions, key stores and sign-in, the formats of rule files and packages, the rule catalog with its
  ripgrep search, the inspection and the build of a solution, the store that shows activities, and the
  loop of the engine around \<open>RunSolution\<close> that builds a solution and calls it: these are input and
  output, third-party formats or subprocesses, or (the last one) left for later. Time stamps, locks
  of the operating system and log messages are left out of the modelled functions.
\<close>

end
